(* ===== verification/Prelude.thy ===== *)
theory Prelude
  imports Main "HOL-Library.Word" "HOL-Library.Monad_Syntax"
begin

text \<open>
  Shared vocabulary of the development: the machine integer types of the C sources, the
  outcome of an \<open>igt_assert\<close>, and the generic facts on words, lists and intervals that
  the component theories use.

  A C function that can end the test through \<open>igt_assert\<close> is modelled in the option
  monad: \<open>None\<close> is the abort (or, for a loop defined with \<open>partial_function\<close>, not
  returning); the value a C caller would see is inside \<open>Some\<close>.
\<close>

type_synonym u8 = "8 word"
type_synonym u32 = "32 word"
type_synonym u64 = "64 word"

named_theorems word_nat "comparisons and arithmetic of words read in nat"

declare word_le_nat_alt [word_nat] word_less_nat_alt [word_nat]

text \<open>The outcome of \<open>igt_assert(b)\<close>.\<close>

definition igt_assert :: "bool \<Rightarrow> unit option" where
  "igt_assert b = (if b then Some () else None)"

lemma igt_assert_simps [simp]:
  "igt_assert True = Some ()" "igt_assert False = None"
  by (simp_all add: igt_assert_def)

lemma igt_assert_eq_Some [simp]: "igt_assert b = Some u \<longleftrightarrow> b"
  by (cases b) auto

lemma igt_assert_bind [simp]:
  "(igt_assert b \<bind> f) = Some x \<longleftrightarrow> b \<and> f () = Some x"
  by (cases b) auto

lemma igt_assert_bind_True: "b \<Longrightarrow> (igt_assert b \<bind> f) = f ()"
  by simp

lemma igt_assert_bind_None: "\<not> b \<Longrightarrow> (igt_assert b \<bind> f) = None"
  by simp

subsection \<open>Words and natural numbers\<close>

lemma unat_add_no_wrap:
  fixes a b :: "'a::len word"
  assumes "unat a + unat b < 2 ^ LENGTH('a)"
  shows "unat (a + b) = unat a + unat b"
  using assms by (simp add: unat_word_ariths)

lemma unat_add_wrap:
  fixes a b :: "'a::len word"
  assumes "2 ^ LENGTH('a) \<le> unat a + unat b"
  shows "unat (a + b) = unat a + unat b - 2 ^ LENGTH('a)"
  using assms by (simp add: unat_plus_if')

lemma unat_u64_lt: "unat (a :: u64) < 18446744073709551616"
  using unsigned_less [of a] by simp

lemma unat_u32_lt: "unat (a :: u32) < 4294967296"
  using unsigned_less [of a] by simp

lemma unat_mult_no_wrap:
  fixes a b :: "'a::len word"
  assumes "unat a * unat b < 2 ^ LENGTH('a)"
  shows "unat (a * b) = unat a * unat b"
  using assms by (simp add: unat_word_ariths)

lemma unat_gt_0_word: "(0 :: 'a::len word) < a \<longleftrightarrow> 0 < unat a"
  by (simp add: word_less_nat_alt)

subsection \<open>Intervals\<close>

text \<open>Two half-open intervals are disjoint when one ends before the other starts.\<close>

lemma interval_disjoint_iff:
  fixes a b c d :: nat
  assumes "a < b" "c < d"
  shows "{a..<b} \<inter> {c..<d} = {} \<longleftrightarrow> b \<le> c \<or> d \<le> a"
proof
  assume e: "{a..<b} \<inter> {c..<d} = {}"
  show "b \<le> c \<or> d \<le> a"
  proof (rule ccontr)
    assume "\<not> (b \<le> c \<or> d \<le> a)"
    with assms have "max a c \<in> {a..<b} \<inter> {c..<d}" by auto
    with e show False by blast
  qed
next
  assume "b \<le> c \<or> d \<le> a"
  then show "{a..<b} \<inter> {c..<d} = {}" by auto
qed

end
