(* ===== verification/Hash_Sizes.thy ===== *)
theory Hash_Sizes
  imports Main
begin

text \<open>
  The size table of \<open>lib/igt_map.c\<close>. The double hashing of the map visits every slot only
  because each table size is prime ("p, p-2 where p and p-2 are both prime" says the comment in
  the source); here the sizes of the rows 0 to 15 (tables for up to 2 ^ 16 entries) are proved prime by a
  trial division that the kernel evaluates, which is what the map theorems need for maps of up to
  2 ^ 16 live entries. The rows above are transcribed, but nothing is proved of them.
\<close>

definition hash_sizes :: "(nat \<times> nat \<times> nat) list" where
  "hash_sizes =
  [(2, 5, 3),
   (4, 7, 5),
   (8, 13, 11),
   (16, 19, 17),
   (32, 43, 41),
   (64, 73, 71),
   (128, 151, 149),
   (256, 283, 281),
   (512, 571, 569),
   (1024, 1153, 1151),
   (2048, 2269, 2267),
   (4096, 4519, 4517),
   (8192, 9013, 9011),
   (16384, 18043, 18041),
   (32768, 36109, 36107),
   (65536, 72091, 72089),
   (131072, 144409, 144407),
   (262144, 288361, 288359),
   (524288, 576883, 576881),
   (1048576, 1153459, 1153457),
   (2097152, 2307163, 2307161),
   (4194304, 4613893, 4613891),
   (8388608, 9227641, 9227639),
   (16777216, 18455029, 18455027),
   (33554432, 36911011, 36911009),
   (67108864, 73819861, 73819859),
   (134217728, 147639589, 147639587),
   (268435456, 295279081, 295279079),
   (536870912, 590559793, 590559791),
   (1073741824, 1181116273, 1181116271),
   (2147483648, 2362232233, 2362232231)]"

definition prime_nat :: "nat \<Rightarrow> bool" where
  "prime_nat n \<longleftrightarrow> 1 < n \<and> (\<forall>d. d dvd n \<longrightarrow> d = 1 \<or> d = n)"

lemma prime_nat_coprime: "prime_nat n \<Longrightarrow> 0 < d \<Longrightarrow> d < n \<Longrightarrow> coprime d n"
  by (metis coprime_iff_gcd_eq_1 dvd_imp_le gcd_dvd1 gcd_dvd2 leD prime_nat_def)

text \<open>Trial division by the numbers \<open>d, d + 2, d + 6, d + 8, \<dots>\<close> up to the square root.
  The definition \<open>certified\<close> is the number of rows it is run on.\<close>

fun no_divisor_from :: "nat \<Rightarrow> nat \<Rightarrow> nat \<Rightarrow> bool" where
  "no_divisor_from 0 n d = (n < d * d)"
| "no_divisor_from (Suc f) n d =
     (n < d * d \<or> (n mod d \<noteq> 0 \<and> n mod (d + 2) \<noteq> 0 \<and> no_divisor_from f n (d + 6)))"

declare no_divisor_from.simps [simp del]

lemma no_divisor_from_numeral:
  "no_divisor_from (numeral k) n d =
     (n < d * d \<or>
      (n mod d \<noteq> 0 \<and> n mod (d + 2) \<noteq> 0 \<and> no_divisor_from (pred_numeral k) n (d + 6)))"
  by (simp add: numeral_eq_Suc no_divisor_from.simps)

lemma no_divisor_from_sound:
  "no_divisor_from f n d \<Longrightarrow> d mod 6 = 5 \<Longrightarrow> d \<le> k \<Longrightarrow> k mod 6 = 1 \<or> k mod 6 = 5 \<Longrightarrow>
     k * k \<le> n \<Longrightarrow> \<not> k dvd n"
proof (induction f n d rule: no_divisor_from.induct)
  case (1 n d)
  then have "d * d \<le> k * k" by (intro mult_le_mono)
  with 1 show ?case by (simp add: no_divisor_from.simps)
next
  case (2 f n d)
  have "d * d \<le> k * k" using "2.prems"(3) by (intro mult_le_mono)
  then have "n mod d \<noteq> 0" "n mod (d + 2) \<noteq> 0" "no_divisor_from f n (d + 6)"
    using "2.prems" by (auto simp: no_divisor_from.simps)
  show ?case
  proof (cases "d + 6 \<le> k")
    case True
    moreover have "(d + 6) mod 6 = 5" using "2.prems"(2) by simp
    ultimately show ?thesis using "2.IH" "2.prems" \<open>no_divisor_from f n (d + 6)\<close> by blast
  next
    case False
    with "2.prems"(3) obtain j where j: "k = d + j" "j < 6" by (auto simp: le_iff_add)
    have "(d + j) mod 6 = (5 + j) mod 6" by (metis mod_add_left_eq "2.prems"(2))
    then have "(5 + j) mod 6 = 1 \<or> (5 + j) mod 6 = 5" using "2.prems"(4) j(1) by simp
    moreover have "j \<in> {0, 1, 2, 3, 4, 5}" using j(2) by auto
    ultimately have "k = d \<or> k = d + 2" using j(1) by auto
    with \<open>n mod d \<noteq> 0\<close> \<open>n mod (d + 2) \<noteq> 0\<close> show ?thesis by (auto simp: dvd_eq_mod_eq_0)
  qed
qed

lemma prime_natI:
  assumes n: "1 < n" and small: "n = 2 \<or> n = 3 \<or> n mod 2 \<noteq> 0 \<and> n mod 3 \<noteq> 0"
    and td: "no_divisor_from f n 5"
  shows "prime_nat n"
proof -
  have no: "\<not> k dvd n" if k: "1 < k" "k * k \<le> n" for k
  proof
    assume dvd: "k dvd n"
    have "2 * 2 \<le> k * k" using k(1) by (intro mult_le_mono) auto
    then have "n \<noteq> 2" "n \<noteq> 3" using k(2) by auto
    with small have "\<not> 2 dvd n" "\<not> 3 dvd n" by (auto simp: dvd_eq_mod_eq_0)
    with dvd have "\<not> 2 dvd k" "\<not> 3 dvd k" by (auto dest: dvd_trans)
    then have "k mod 6 = 1 \<or> k mod 6 = 5" "5 \<le> k" using k(1) by presburger+
    with no_divisor_from_sound [OF td, of k] k(2) dvd show False by simp
  qed
  show ?thesis
    unfolding prime_nat_def
  proof (intro conjI allI impI n)
    fix d assume "d dvd n"
    then obtain e where e: "n = d * e" by auto
    show "d = 1 \<or> d = n"
    proof (rule ccontr)
      assume "\<not> ?thesis"
      then have "1 < d" "1 < e" using e n by (cases d; cases e; auto)+
      show False
      proof (cases "d \<le> e")
        case True
        then have "d * d \<le> n" by (simp add: e)
        with no [OF \<open>1 < d\<close>] e show False by simp
      next
        case False
        then have "e * e \<le> n" by (simp add: e)
        with no [OF \<open>1 < e\<close>] e show False by simp
      qed
    qed
  qed
qed

definition certified :: nat where
  "certified = 16"

lemma length_hash_sizes: "length hash_sizes = 31"
  by (simp add: hash_sizes_def)

lemma hash_sizes_trial_division:
  "list_all (\<lambda>(mx, sz, rh). no_divisor_from 200 sz 5) (take certified hash_sizes)"
  by (simp add: hash_sizes_def certified_def no_divisor_from_numeral)

lemma hash_sizes_no_2_3:
  "list_all (\<lambda>(mx, sz, rh). 1 < sz \<and> sz mod 2 \<noteq> 0 \<and> sz mod 3 \<noteq> 0) (take certified hash_sizes)"
  by (simp add: hash_sizes_def certified_def)

lemma hash_sizes_prime:
  assumes "i < certified" "hash_sizes ! i = (mx, sz, rh)"
  shows "prime_nat sz"
proof -
  have "take certified hash_sizes ! i \<in> set (take certified hash_sizes)"
    using assms(1) by (intro nth_mem) (simp add: length_hash_sizes certified_def)
  then have "(mx, sz, rh) \<in> set (take certified hash_sizes)"
    using assms by simp
  then show ?thesis
    using hash_sizes_trial_division hash_sizes_no_2_3
    by (auto simp: list_all_iff intro!: prime_natI [of sz 200])
qed

end
