(* ===== verification/Igt_Map.thy ===== *)
theory Igt_Map
  imports Prelude Hash_Sizes "HOL-Library.Multiset"
begin

text \<open>
  The hash map of \<open>lib/igt_map.c\<close>: open addressing with double hashing, tombstones for removed
  entries, and a rehash to the next table size when the table is full.

  A table slot is \<open>Free_Entry\<close> when \<open>entry->key == NULL\<close>, \<open>Deleted_Entry\<close> when
  \<open>entry->key == deleted_key\<close> (hash and data stay in the slot), and \<open>Present_Entry\<close>
  otherwise. A key pointer is represented by the value that the hash and equality functions read
  through it, a data pointer by the (non-NULL) record it points to. The \<open>uint32_t\<close> counters are
  natural numbers; where the C arithmetic can exceed 32 bits, the probe address, the reduction
  modulo \<open>2 ^ 32\<close> is written out. Results are in the option monad: \<open>None\<close> is a probe loop that
  does not return.

  The lemmas show that the table implements a finite map: under the invariant \<open>map_inv\<close> every
  search terminates with the abstract lookup, and insertion, removal and rehashing act on the
  abstract contents as a map update, a map deletion and the identity.
\<close>

subsection \<open>Data\<close>

datatype ('k, 'v) igt_map_entry =
  Free_Entry | Deleted_Entry u32 'v | Present_Entry u32 'k 'v

record ('k, 'v) igt_map =
  map_table :: "('k, 'v) igt_map_entry list"
  hash_function :: "'k \<Rightarrow> u32"
  key_equals_function :: "'k \<Rightarrow> 'k \<Rightarrow> bool"
  map_size :: nat
  map_rehash :: nat
  map_max_entries :: nat
  map_size_index :: nat
  map_entries :: nat
  map_deleted_entries :: nat

fun entry_is_free :: "('k, 'v) igt_map_entry \<Rightarrow> bool" where
  "entry_is_free Free_Entry = True"
| "entry_is_free _ = False"

fun entry_is_deleted :: "('k, 'v) igt_map_entry \<Rightarrow> bool" where
  "entry_is_deleted (Deleted_Entry _ _) = True"
| "entry_is_deleted _ = False"

fun entry_is_present :: "('k, 'v) igt_map_entry \<Rightarrow> bool" where
  "entry_is_present (Present_Entry _ _ _) = True"
| "entry_is_present _ = False"

text \<open>The test shared by search and insert: a present entry with this hash and an equal key.\<close>

fun entry_matches :: "('k \<Rightarrow> 'k \<Rightarrow> bool) \<Rightarrow> u32 \<Rightarrow> 'k \<Rightarrow> ('k, 'v) igt_map_entry \<Rightarrow> bool" where
  "entry_matches eq hash key (Present_Entry h k v) = (h = hash \<and> eq key k)"
| "entry_matches eq hash key _ = False"

subsection \<open>Operations\<close>

definition set_size_index :: "nat \<Rightarrow> ('k, 'v) igt_map \<Rightarrow> ('k, 'v) igt_map" where
  "set_size_index i m = (case hash_sizes ! i of (mx, sz, rh) \<Rightarrow>
     m\<lparr>map_table := replicate sz Free_Entry, map_size := sz, map_rehash := rh,
       map_max_entries := mx, map_size_index := i, map_entries := 0, map_deleted_entries := 0\<rparr>)"

text \<open>\<open>igt_map_create\<close>, with memory available.\<close>

definition igt_map_create :: "('k \<Rightarrow> u32) \<Rightarrow> ('k \<Rightarrow> 'k \<Rightarrow> bool) \<Rightarrow> ('k, 'v) igt_map" where
  "igt_map_create hashf eqf =
     set_size_index 0
       \<lparr>map_table = [], hash_function = hashf, key_equals_function = eqf, map_size = 0,
        map_rehash = 0, map_max_entries = 0, map_size_index = 0, map_entries = 0,
        map_deleted_entries = 0\<rparr>"

text \<open>One step of the probe sequence, in \<open>uint32_t\<close> arithmetic.\<close>

definition start_hash_address :: "('k, 'v) igt_map \<Rightarrow> u32 \<Rightarrow> nat" where
  "start_hash_address m hash = unat hash mod map_size m"

definition next_hash_address :: "('k, 'v) igt_map \<Rightarrow> u32 \<Rightarrow> nat \<Rightarrow> nat" where
  "next_hash_address m hash hash_address =
     (let double_hash = 1 + unat hash mod map_rehash m
      in ((hash_address + double_hash) mod 2 ^ 32) mod map_size m)"

text \<open>The do-while loop of \<open>igt_map_search_pre_hashed\<close>; the entry found is given by its
  index.\<close>

partial_function (option) search_loop ::
  "('k, 'v) igt_map \<Rightarrow> u32 \<Rightarrow> 'k \<Rightarrow> nat \<Rightarrow> nat \<Rightarrow> nat option option" where
  "search_loop m hash key start a =
     (if entry_is_free (map_table m ! a) then Some None
      else if entry_matches (key_equals_function m) hash key (map_table m ! a) then Some (Some a)
      else let a' = next_hash_address m hash a
           in if a' = start then Some None else search_loop m hash key start a')"

definition igt_map_search_pre_hashed ::
  "('k, 'v) igt_map \<Rightarrow> u32 \<Rightarrow> 'k \<Rightarrow> nat option option" where
  "igt_map_search_pre_hashed m hash key =
     search_loop m hash key (start_hash_address m hash) (start_hash_address m hash)"

definition igt_map_search_entry :: "('k, 'v) igt_map \<Rightarrow> 'k \<Rightarrow> nat option option" where
  "igt_map_search_entry m key = igt_map_search_pre_hashed m (hash_function m key) key"

text \<open>\<open>entry->data\<close>: the data of a slot that is or was in use.\<close>

fun entry_data :: "('k, 'v) igt_map_entry \<Rightarrow> 'v option" where
  "entry_data Free_Entry = None"
| "entry_data (Deleted_Entry h v) = Some v"
| "entry_data (Present_Entry h k v) = Some v"

definition igt_map_search :: "('k, 'v) igt_map \<Rightarrow> 'k \<Rightarrow> 'v option option" where
  "igt_map_search m key = do {
     r \<leftarrow> igt_map_search_entry m key;
     Some (case r of None \<Rightarrow> None | Some i \<Rightarrow> entry_data (map_table m ! i))
   }"

text \<open>The iterator: \<open>igt_map_next_entry\<close> and the list of slots that \<open>igt_map_foreach\<close>
  visits.\<close>

definition igt_map_next_entry :: "('k, 'v) igt_map \<Rightarrow> nat option \<Rightarrow> nat option" where
  "igt_map_next_entry m entry =
     find (\<lambda>i. entry_is_present (map_table m ! i))
       [(case entry of None \<Rightarrow> 0 | Some i \<Rightarrow> i + 1)..<map_size m]"

lemma igt_map_next_entry_bounds:
  "igt_map_next_entry m (Some i) = Some j \<Longrightarrow> i < j \<and> j < map_size m"
  by (auto simp: igt_map_next_entry_def find_Some_iff)

function igt_map_foreach_from :: "('k, 'v) igt_map \<Rightarrow> nat \<Rightarrow> nat list" where
  "igt_map_foreach_from m i =
     (case igt_map_next_entry m (Some i) of None \<Rightarrow> [i] | Some j \<Rightarrow> i # igt_map_foreach_from m j)"
  by pat_completeness auto
termination
  by (relation "measure (\<lambda>(m, i). map_size m - i)")
     (auto dest!: igt_map_next_entry_bounds)

declare igt_map_foreach_from.simps [simp del]

definition igt_map_foreach :: "('k, 'v) igt_map \<Rightarrow> nat list" where
  "igt_map_foreach m =
     (case igt_map_next_entry m None of None \<Rightarrow> [] | Some i \<Rightarrow> igt_map_foreach_from m i)"

text \<open>The do-while loop of \<open>igt_map_insert_pre_hashed\<close>: \<open>Inl a\<close> when the entry at \<open>a\<close> is
  replaced, \<open>Inr available\<close> when the loop ends with \<open>available_entry\<close>.\<close>

partial_function (option) insert_loop ::
  "('k, 'v) igt_map \<Rightarrow> u32 \<Rightarrow> 'k \<Rightarrow> nat \<Rightarrow> nat option \<Rightarrow> nat \<Rightarrow> (nat + nat option) option" where
  "insert_loop m hash key start available a =
     (let available' = (if \<not> entry_is_present (map_table m ! a) \<and> available = None
                        then Some a else available)
      in if entry_is_free (map_table m ! a) then Some (Inr available')
         else if entry_matches (key_equals_function m) hash key (map_table m ! a) then Some (Inl a)
         else let a' = next_hash_address m hash a
              in if a' = start then Some (Inr available')
                 else insert_loop m hash key start available' a')"

text \<open>The part of \<open>igt_map_insert_pre_hashed\<close> after the resize: probe, then write the slot.
  The second result is the entry returned, \<open>None\<close> for NULL.\<close>

definition insert_probe ::
  "('k, 'v) igt_map \<Rightarrow> u32 \<Rightarrow> 'k \<Rightarrow> 'v \<Rightarrow> (('k, 'v) igt_map \<times> nat option) option" where
  "insert_probe m hash key data = do {
     r \<leftarrow> insert_loop m hash key (start_hash_address m hash) None (start_hash_address m hash);
     Some (case r of
         Inl a \<Rightarrow> (m\<lparr>map_table := (map_table m)[a := Present_Entry hash key data]\<rparr>, Some a)
       | Inr None \<Rightarrow> (m, None)
       | Inr (Some a) \<Rightarrow>
           (m\<lparr>map_table := (map_table m)[a := Present_Entry hash key data],
              map_deleted_entries := (if entry_is_deleted (map_table m ! a)
                then map_deleted_entries m - 1 else map_deleted_entries m),
              map_entries := map_entries m + 1\<rparr>, Some a))
   }"

text \<open>
  \<open>igt_map_rehash\<close>; \<open>mem\<close> says whether its \<open>calloc\<close> succeeds, and \<open>ins\<close> is the
  insertion it calls for every entry of the old table. Insertion and rehash call each other; the
  insertion takes the remaining nesting depth as its first argument (\<open>None\<close> beyond it). One
  level per table size is provided; two are enough for a map that has not missed a resize
  (\<open>insert_pre_hashed_correct\<close> below): an insertion into the freshly allocated table then never
  resizes it.
\<close>

fun reinsert_entry ::
  "(('k, 'v) igt_map \<Rightarrow> u32 \<Rightarrow> 'k \<Rightarrow> 'v \<Rightarrow> (('k, 'v) igt_map \<times> nat option) option) \<Rightarrow>
   ('k, 'v) igt_map \<Rightarrow> ('k, 'v) igt_map_entry \<Rightarrow> ('k, 'v) igt_map option" where
  "reinsert_entry ins m (Present_Entry h k v) = map_option fst (ins m h k v)"
| "reinsert_entry ins m _ = Some m"

fun reinsert_all ::
  "(('k, 'v) igt_map \<Rightarrow> u32 \<Rightarrow> 'k \<Rightarrow> 'v \<Rightarrow> (('k, 'v) igt_map \<times> nat option) option) \<Rightarrow>
   ('k, 'v) igt_map \<Rightarrow> ('k, 'v) igt_map_entry list \<Rightarrow> ('k, 'v) igt_map option" where
  "reinsert_all ins m [] = Some m"
| "reinsert_all ins m (e # es) = do { m' \<leftarrow> reinsert_entry ins m e; reinsert_all ins m' es }"

definition igt_map_rehash ::
  "(('k, 'v) igt_map \<Rightarrow> u32 \<Rightarrow> 'k \<Rightarrow> 'v \<Rightarrow> (('k, 'v) igt_map \<times> nat option) option) \<Rightarrow> bool \<Rightarrow>
   ('k, 'v) igt_map \<Rightarrow> nat \<Rightarrow> ('k, 'v) igt_map option" where
  "igt_map_rehash ins mem m new_size_index =
     (if new_size_index \<ge> length hash_sizes then Some m
      else if \<not> mem then Some m
      else reinsert_all ins (set_size_index new_size_index m)
             (map (\<lambda>i. map_table m ! i) (igt_map_foreach m)))"

fun igt_map_insert_pre_hashed ::
  "nat \<Rightarrow> bool \<Rightarrow> ('k, 'v) igt_map \<Rightarrow> u32 \<Rightarrow> 'k \<Rightarrow> 'v \<Rightarrow> (('k, 'v) igt_map \<times> nat option) option" where
  "igt_map_insert_pre_hashed 0 mem m hash key data = None"
| "igt_map_insert_pre_hashed (Suc depth) mem m hash key data = do {
     m' \<leftarrow> (if map_entries m \<ge> map_max_entries m then
              igt_map_rehash (igt_map_insert_pre_hashed depth mem) mem m (map_size_index m + 1)
            else if map_deleted_entries m + map_entries m \<ge> map_max_entries m then
              igt_map_rehash (igt_map_insert_pre_hashed depth mem) mem m (map_size_index m)
            else Some m);
     insert_probe m' hash key data
   }"

definition igt_map_insert ::
  "bool \<Rightarrow> ('k, 'v) igt_map \<Rightarrow> 'k \<Rightarrow> 'v \<Rightarrow> (('k, 'v) igt_map \<times> nat option) option" where
  "igt_map_insert mem m key data = igt_map_insert_pre_hashed 32 mem m (hash_function m key) key data"

text \<open>\<open>igt_map_remove_entry\<close>: the slot's key becomes \<open>deleted_key\<close>.\<close>

fun delete_entry :: "('k, 'v) igt_map_entry \<Rightarrow> ('k, 'v) igt_map_entry" where
  "delete_entry (Present_Entry h k v) = Deleted_Entry h v"
| "delete_entry e = e"

definition igt_map_remove_entry :: "('k, 'v) igt_map \<Rightarrow> nat option \<Rightarrow> ('k, 'v) igt_map" where
  "igt_map_remove_entry m entry = (case entry of
     None \<Rightarrow> m
   | Some i \<Rightarrow> m\<lparr>map_table := (map_table m)[i := delete_entry (map_table m ! i)],
       map_entries := map_entries m - 1, map_deleted_entries := map_deleted_entries m + 1\<rparr>)"

text \<open>
  \<open>igt_map_remove\<close>. With a delete function the code calls \<open>delete_function(entry)\<close> before
  testing the entry, so a key that is not in the map makes it dereference NULL: \<open>None\<close>. The
  second result is the data handed to the delete function.
\<close>

definition igt_map_remove ::
  "('k, 'v) igt_map \<Rightarrow> 'k \<Rightarrow> bool \<Rightarrow> (('k, 'v) igt_map \<times> 'v option) option" where
  "igt_map_remove m key has_delete_function = do {
     entry \<leftarrow> igt_map_search_entry m key;
     igt_assert (has_delete_function \<longrightarrow> entry \<noteq> None);
     Some (igt_map_remove_entry m entry,
       if has_delete_function then entry_data (map_table m ! the entry) else None)
   }"

text \<open>\<open>igt_map_random_entry\<close> for the value \<open>r\<close> of \<open>random()\<close>; \<open>predicate\<close> is
  \<open>\<lambda>_. True\<close> for a NULL predicate.\<close>

definition igt_map_random_entry ::
  "('k, 'v) igt_map \<Rightarrow> nat \<Rightarrow> (('k, 'v) igt_map_entry \<Rightarrow> bool) \<Rightarrow> nat option" where
  "igt_map_random_entry m r predicate =
     (let i = r mod map_size m;
          ok = (\<lambda>j. entry_is_present (map_table m ! j) \<and> predicate (map_table m ! j))
      in if map_entries m = 0 then None
         else case find ok [i..<map_size m] of
             Some j \<Rightarrow> Some j
           | None \<Rightarrow> find ok [0..<i])"

text \<open>\<open>igt_map_destroy\<close>: the entries handed to \<open>delete_function\<close>, in order (\<open>None\<close> is a
  NULL map).\<close>

definition igt_map_destroy :: "('k, 'v) igt_map option \<Rightarrow> bool \<Rightarrow> ('k, 'v) igt_map_entry list" where
  "igt_map_destroy the_map has_delete_function = (case the_map of
     None \<Rightarrow> []
   | Some m \<Rightarrow> if has_delete_function then map (\<lambda>i. map_table m ! i) (igt_map_foreach m) else [])"

text \<open>The two hash functions for integer keys.\<close>

definition igt_map_hash_32 :: "u32 \<Rightarrow> u32" where
  "igt_map_hash_32 key = key * 0x9e370001"

definition igt_map_equal_32 :: "u32 \<Rightarrow> u32 \<Rightarrow> bool" where
  "igt_map_equal_32 key1 key2 = (key1 = key2)"

definition igt_map_hash_64 :: "u64 \<Rightarrow> u32" where
  "igt_map_hash_64 key = ucast (drop_bit 32 (key * 0x9e37fffffffc0001))"

definition igt_map_equal_64 :: "u64 \<Rightarrow> u64 \<Rightarrow> bool" where
  "igt_map_equal_64 key1 key2 = (key1 = key2)"

subsection \<open>The probe sequence\<close>

definition double_hash :: "('k, 'v) igt_map \<Rightarrow> u32 \<Rightarrow> nat" where
  "double_hash m hash = 1 + unat hash mod map_rehash m"

definition probe :: "('k, 'v) igt_map \<Rightarrow> u32 \<Rightarrow> nat \<Rightarrow> nat" where
  "probe m hash n = (start_hash_address m hash + n * double_hash m hash) mod map_size m"

definition sizes_ok :: "('k, 'v) igt_map \<Rightarrow> bool" where
  "sizes_ok m \<longleftrightarrow> map_size_index m < certified \<and>
     hash_sizes ! map_size_index m = (map_max_entries m, map_size m, map_rehash m) \<and>
     length (map_table m) = map_size m"

lemma hash_sizes_rows:
  "list_all (\<lambda>(mx, sz, rh). 0 < mx \<and> mx < sz \<and> rh + 2 = sz \<and> 2 < rh \<and> sz < 2 ^ 31) (take certified hash_sizes)"
  by (simp add: hash_sizes_def certified_def)

lemma hash_sizes_row:
  assumes "i < certified" "hash_sizes ! i = (mx, sz, rh)"
  shows "0 < mx" "mx < sz" "rh + 2 = sz" "2 < rh" "sz < 2 ^ 31"
proof -
  have "take certified hash_sizes ! i \<in> set (take certified hash_sizes)"
    using assms(1) by (intro nth_mem) (simp add: length_hash_sizes certified_def)
  then have "(mx, sz, rh) \<in> set (take certified hash_sizes)" using assms by simp
  with hash_sizes_rows show "0 < mx" "mx < sz" "rh + 2 = sz" "2 < rh" "sz < 2 ^ 31"
    by (auto simp: list_all_iff)
qed

lemma sizes_okD:
  assumes "sizes_ok m"
  shows "0 < map_max_entries m" "map_max_entries m < map_size m" "map_rehash m + 2 = map_size m"
    "0 < map_size m" "0 < map_rehash m" "map_size m < 2 ^ 31" "prime_nat (map_size m)"
    "length (map_table m) = map_size m"
proof -
  have i: "map_size_index m < certified"
    "hash_sizes ! map_size_index m = (map_max_entries m, map_size m, map_rehash m)"
    using assms by (simp_all add: sizes_ok_def)
  show "0 < map_max_entries m" "map_max_entries m < map_size m" "map_rehash m + 2 = map_size m"
    "0 < map_size m" "0 < map_rehash m" "map_size m < 2 ^ 31" "prime_nat (map_size m)"
    "length (map_table m) = map_size m"
    using hash_sizes_row [OF i] hash_sizes_prime [OF i] assms by (auto simp: sizes_ok_def)
qed

lemma double_hash_bounds:
  assumes "sizes_ok m" shows "0 < double_hash m h" "double_hash m h < map_size m"
  using sizes_okD [OF assms] mod_less_divisor [of "map_rehash m" "unat h"]
  by (auto simp: double_hash_def simp del: mod_less_divisor)

lemma probe_less: "sizes_ok m \<Longrightarrow> probe m h n < map_size m"
  using sizes_okD(4) [of m] by (simp add: probe_def)

lemma probe_0: "sizes_ok m \<Longrightarrow> probe m h 0 = start_hash_address m h"
  using sizes_okD(4) [of m] by (simp add: probe_def start_hash_address_def)

lemma next_probe:
  assumes "sizes_ok m"
  shows "next_hash_address m h (probe m h n) = probe m h (Suc n)"
proof -
  have "probe m h n + double_hash m h < 2 ^ 32"
    using probe_less [OF assms, of h n] double_hash_bounds(2) [OF assms, of h] sizes_okD(6) [OF assms]
    by simp
  then have "next_hash_address m h (probe m h n) = (probe m h n + double_hash m h) mod map_size m"
    unfolding next_hash_address_def Let_def double_hash_def [symmetric] by simp
  also have "\<dots> = probe m h (Suc n)"
    by (simp add: probe_def mod_simps algebra_simps)
  finally show ?thesis .
qed

lemma probe_size: "sizes_ok m \<Longrightarrow> probe m h (map_size m) = probe m h 0"
  by (simp add: probe_def)

text \<open>The table size is prime, so the first \<open>map_size m\<close> probes are all different.\<close>

lemma probe_inj:
  assumes ok: "sizes_ok m" and ij: "i < map_size m" "j < map_size m" "probe m h i = probe m h j"
  shows "i = j"
proof -
  have cop: "coprime (double_hash m h) (map_size m)"
    using double_hash_bounds [OF ok] sizes_okD(7) [OF ok] by (intro prime_nat_coprime)
  have less: "a = b" if "a \<le> b" "b < map_size m" "probe m h a = probe m h b" for a b
  proof -
    let ?s = "start_hash_address m h" and ?d = "double_hash m h"
    have "map_size m dvd (?s + b * ?d) - (?s + a * ?d)"
      using that mod_eq_dvd_iff_nat [of "?s + a * ?d" "?s + b * ?d" "map_size m"]
      by (simp add: probe_def)
    then have "map_size m dvd (b - a) * ?d" by (simp add: diff_mult_distrib)
    then have "map_size m dvd b - a"
      using cop by (simp add: coprime_dvd_mult_left_iff coprime_commute)
    then show ?thesis using that by (auto dest: dvd_imp_le)
  qed
  show ?thesis using less [of i j] less [of j i] ij by (cases "i \<le> j") auto
qed

lemma probe_onto:
  assumes ok: "sizes_ok m" and a: "a < map_size m"
  shows "\<exists>n<map_size m. probe m h n = a"
proof -
  have "probe m h ` {..<map_size m} \<subseteq> {..<map_size m}" using probe_less [OF ok] by auto
  moreover have "card (probe m h ` {..<map_size m}) = card {..<map_size m}"
    by (intro card_image inj_onI) (auto intro: probe_inj [OF ok])
  ultimately have "probe m h ` {..<map_size m} = {..<map_size m}" by (intro card_subset_eq) auto
  with a show ?thesis by (metis imageE lessThan_iff)
qed

lemma probe_start:
  assumes "sizes_ok m" "n < map_size m"
  shows "probe m h (Suc n) = probe m h 0 \<longleftrightarrow> Suc n = map_size m"
proof
  assume eq: "probe m h (Suc n) = probe m h 0"
  show "Suc n = map_size m"
  proof (rule ccontr)
    assume "Suc n \<noteq> map_size m"
    then have "Suc n < map_size m" using assms(2) by simp
    then show False using probe_inj [OF assms(1) _ _ eq] sizes_okD(4) [OF assms(1)] by simp
  qed
qed (simp add: probe_size [OF assms(1), symmetric])

subsection \<open>The loops\<close>

abbreviation slot :: "('k, 'v) igt_map \<Rightarrow> u32 \<Rightarrow> nat \<Rightarrow> ('k, 'v) igt_map_entry" where
  "slot m h n \<equiv> map_table m ! probe m h n"

text \<open>The probes at which the loops stop.\<close>

definition stops :: "('k, 'v) igt_map \<Rightarrow> u32 \<Rightarrow> 'k \<Rightarrow> nat \<Rightarrow> bool" where
  "stops m h key n \<longleftrightarrow> entry_is_free (slot m h n) \<or>
     entry_matches (key_equals_function m) h key (slot m h n)"

lemma matches_not_free: "entry_matches eq h k e \<Longrightarrow> \<not> entry_is_free e"
  by (cases e) auto

lemma matches_present: "entry_matches eq h k e \<Longrightarrow> entry_is_present e"
  by (cases e) auto

lemma search_loop_stop:
  assumes ok: "sizes_ok m" and nj: "n \<le> j" and j: "j < map_size m" "stops m h key j"
    and before: "\<forall>i. n \<le> i \<longrightarrow> i < j \<longrightarrow> \<not> stops m h key i"
  shows "search_loop m h key (probe m h 0) (probe m h n) =
     Some (if entry_is_free (slot m h j) then None else Some (probe m h j))"
  using nj before
proof (induction n rule: inc_induct)
  case base
  then show ?case using j(2) by (subst search_loop.simps) (auto simp: stops_def)
next
  case (step n)
  then have "\<not> stops m h key n" by simp
  moreover have "probe m h (Suc n) \<noteq> probe m h 0"
    using step.hyps j(1) probe_start [OF ok, of n h] by simp
  moreover have "search_loop m h key (probe m h 0) (probe m h (Suc n)) =
      Some (if entry_is_free (slot m h j) then None else Some (probe m h j))"
    using step by auto
  ultimately show ?case by (subst search_loop.simps) (simp add: stops_def Let_def next_probe [OF ok])
qed

lemma search_loop_all:
  assumes ok: "sizes_ok m" and n: "n < map_size m"
    and none: "\<forall>i. n \<le> i \<longrightarrow> i < map_size m \<longrightarrow> \<not> stops m h key i"
  shows "search_loop m h key (probe m h 0) (probe m h n) = Some None"
proof -
  have n': "n \<le> map_size m - 1" using n by simp
  then show ?thesis using none
  proof (induction n rule: inc_induct)
    case base
    have last: "Suc (map_size m - 1) = map_size m" using n by simp
    have "\<not> stops m h key (map_size m - 1)" using base n by simp
    then show ?case
      by (subst search_loop.simps)
         (simp add: stops_def Let_def next_probe [OF ok] last probe_size [OF ok] del: One_nat_def)
  next
    case (step k)
    then have "\<not> stops m h key k" by simp
    moreover have "probe m h (Suc k) \<noteq> probe m h 0"
      using step.hyps probe_start [OF ok, of k h] by simp
    ultimately show ?case using step
      by (subst search_loop.simps) (simp add: stops_def Let_def next_probe [OF ok])
  qed
qed

text \<open>What is known of \<open>available_entry\<close> after \<open>n\<close> probes: the first slot that is not
  in use, if there was one.\<close>

definition first_available :: "('k, 'v) igt_map \<Rightarrow> u32 \<Rightarrow> nat option \<Rightarrow> nat \<Rightarrow> bool" where
  "first_available m h available n \<longleftrightarrow>
     (case available of
        None \<Rightarrow> \<forall>i<n. entry_is_present (slot m h i)
      | Some a \<Rightarrow> \<exists>i<n. a = probe m h i \<and> \<not> entry_is_present (slot m h i) \<and>
          (\<forall>i'<i. entry_is_present (slot m h i')))"

lemma first_available_step:
  "first_available m h available n \<Longrightarrow>
   first_available m h (if \<not> entry_is_present (slot m h n) \<and> available = None
     then Some (probe m h n) else available) (Suc n)"
  by (auto simp: first_available_def less_Suc_eq split: option.splits)

lemma insert_loop_cases:
  assumes ok: "sizes_ok m" and n: "n < map_size m"
    and av: "first_available m h available n" and before: "\<forall>i<n. \<not> stops m h key i"
  shows "(\<exists>j<map_size m. insert_loop m h key (probe m h 0) available (probe m h n) = Some (Inl (probe m h j)) \<and>
       entry_matches (key_equals_function m) h key (slot m h j) \<and> (\<forall>i<j. \<not> stops m h key i)) \<or>
     (\<exists>j available'. insert_loop m h key (probe m h 0) available (probe m h n) = Some (Inr available') \<and>
       j \<le> map_size m \<and> (\<forall>i<j. \<not> stops m h key i) \<and> (j < map_size m \<longrightarrow> entry_is_free (slot m h j)) \<and>
       first_available m h available' (if j < map_size m then Suc j else j))"
  using n av before
proof (induction "map_size m - n" arbitrary: n available)
  case 0
  then show ?case by simp
next
  case (Suc x)
  let ?av = "if \<not> entry_is_present (slot m h n) \<and> available = None then Some (probe m h n) else available"
  have av': "first_available m h ?av (Suc n)" using Suc.prems(2) by (rule first_available_step)
  show ?case
  proof (cases "stops m h key n")
    case True
    show ?thesis
    proof (cases "entry_is_free (slot m h n)")
      case free: True
      then have "insert_loop m h key (probe m h 0) available (probe m h n) = Some (Inr ?av)"
        by (subst insert_loop.simps) (simp add: Let_def)
      then show ?thesis
        using Suc.prems free av' by (intro disjI2 exI [of _ n] exI [of _ ?av]) simp
    next
      case False
      with True have "entry_matches (key_equals_function m) h key (slot m h n)" by (simp add: stops_def)
      moreover from this False
      have "insert_loop m h key (probe m h 0) available (probe m h n) = Some (Inl (probe m h n))"
        by (subst insert_loop.simps) (simp add: Let_def)
      ultimately show ?thesis using Suc.prems by blast
    qed
  next
    case False
    then have before': "\<forall>i<Suc n. \<not> stops m h key i" using Suc.prems(3) by (simp add: less_Suc_eq)
    show ?thesis
    proof (cases "Suc n = map_size m")
      case True
      then have "insert_loop m h key (probe m h 0) available (probe m h n) = Some (Inr ?av)"
        using False by (subst insert_loop.simps) (simp add: Let_def stops_def next_probe [OF ok] probe_size [OF ok])
      then show ?thesis
        using True before' av' by (intro disjI2 exI [of _ "map_size m"] exI [of _ ?av]) simp
    next
      case neq: False
      then have lt: "Suc n < map_size m" using Suc.prems(1) by simp
      have "insert_loop m h key (probe m h 0) available (probe m h n) =
          insert_loop m h key (probe m h 0) ?av (probe m h (Suc n))"
        using False neq probe_start [OF ok Suc.prems(1)]
        by (subst insert_loop.simps) (simp add: Let_def stops_def next_probe [OF ok])
      then show ?thesis
        using Suc.hyps(1) [OF _ lt av' before'] Suc.hyps(2) by simp
    qed
  qed
qed

subsection \<open>The invariant\<close>

text \<open>The key functions agree: equality is an equivalence and equal keys have equal hashes.\<close>

definition keys_ok :: "('k \<Rightarrow> u32) \<Rightarrow> ('k \<Rightarrow> 'k \<Rightarrow> bool) \<Rightarrow> bool" where
  "keys_ok hashf eqf \<longleftrightarrow> (\<forall>a. eqf a a) \<and> (\<forall>a b. eqf a b \<longrightarrow> eqf b a) \<and>
     (\<forall>a b c. eqf a b \<longrightarrow> eqf b c \<longrightarrow> eqf a c) \<and> (\<forall>a b. eqf a b \<longrightarrow> hashf a = hashf b)"

text \<open>The table: counters, stored hashes, every present entry reachable along its probe sequence
  without crossing a free slot, and no two present entries with equal keys.\<close>

definition table_inv :: "('k, 'v) igt_map \<Rightarrow> bool" where
  "table_inv m \<longleftrightarrow> sizes_ok m \<and> keys_ok (hash_function m) (key_equals_function m) \<and>
     map_entries m = length (filter entry_is_present (map_table m)) \<and>
     map_deleted_entries m = length (filter entry_is_deleted (map_table m)) \<and>
     (\<forall>i<map_size m. \<forall>h k v. map_table m ! i = Present_Entry h k v \<longrightarrow>
        h = hash_function m k \<and>
        (\<exists>n<map_size m. probe m h n = i \<and> (\<forall>j<n. \<not> entry_is_free (slot m h j)))) \<and>
     (\<forall>i<map_size m. \<forall>j<map_size m. \<forall>h k v h' k' v'.
        map_table m ! i = Present_Entry h k v \<longrightarrow> map_table m ! j = Present_Entry h' k' v' \<longrightarrow>
        key_equals_function m k k' \<longrightarrow> i = j)"

text \<open>With every resize done, the table is never more than full.\<close>

definition map_inv :: "('k, 'v) igt_map \<Rightarrow> bool" where
  "map_inv m \<longleftrightarrow> table_inv m \<and> map_entries m + map_deleted_entries m \<le> map_max_entries m"

text \<open>The abstraction: the (key, data) pairs of the present entries.\<close>

fun table_items :: "('k, 'v) igt_map_entry list \<Rightarrow> ('k \<times> 'v) list" where
  "table_items [] = []"
| "table_items (Present_Entry h k v # es) = (k, v) # table_items es"
| "table_items (Free_Entry # es) = table_items es"
| "table_items (Deleted_Entry h v # es) = table_items es"

definition map_items :: "('k, 'v) igt_map \<Rightarrow> ('k \<times> 'v) list" where
  "map_items m = table_items (map_table m)"

definition map_abs :: "('k, 'v) igt_map \<Rightarrow> 'k \<Rightarrow> 'v option" where
  "map_abs m key = map_option snd (find (\<lambda>(k, v). key_equals_function m key k) (map_items m))"

lemma table_items_append: "table_items (xs @ ys) = table_items xs @ table_items ys"
  by (induction xs rule: table_items.induct) auto

lemma in_table_items:
  "(k, v) \<in> set (table_items t) \<longleftrightarrow> (\<exists>i<length t. \<exists>h. t ! i = Present_Entry h k v)"
proof (induction t rule: table_items.induct)
  case 1
  then show ?case by simp
next
  case (2 h k' v' es)
  have "(\<exists>i<length (Present_Entry h k' v' # es). \<exists>h'. (Present_Entry h k' v' # es) ! i = Present_Entry h' k v) \<longleftrightarrow>
     (k, v) = (k', v') \<or> (\<exists>i<length es. \<exists>h. es ! i = Present_Entry h k v)"
    by (auto simp: less_Suc_eq_0_disj)
  with 2 show ?case by auto
next
  case (3 es)
  then show ?case by (auto simp: less_Suc_eq_0_disj)
next
  case (4 h v' es)
  then show ?case by (auto simp: less_Suc_eq_0_disj)
qed

lemma table_items_update:
  assumes "i < length t"
  shows "mset (table_items (t[i := e])) + mset (table_items [t ! i]) =
    mset (table_items t) + mset (table_items [e])"
proof -
  have "t = take i t @ [t ! i] @ drop (Suc i) t" using assms by (simp add: id_take_nth_drop)
  then have "mset (table_items t) = mset (table_items (take i t)) + mset (table_items [t ! i]) +
      mset (table_items (drop (Suc i) t))"
    by (metis append.assoc mset_append table_items_append)
  moreover have "t[i := e] = take i t @ [e] @ drop (Suc i) t" using assms by (simp add: upd_conv_take_nth_drop)
  then have "mset (table_items (t[i := e])) = mset (table_items (take i t)) + mset (table_items [e]) +
      mset (table_items (drop (Suc i) t))"
    by (metis append.assoc mset_append table_items_append)
  ultimately show ?thesis by simp
qed

lemma length_filter_update:
  assumes "i < length t"
  shows "length (filter P (t[i := e])) + (if P (t ! i) then 1 else 0) =
    length (filter P t) + (if P e then 1 else 0)"
proof -
  have "filter P t = filter P (take i t) @ filter P [t ! i] @ filter P (drop (Suc i) t)"
    using id_take_nth_drop [OF assms] by (metis append_Cons append_Nil filter_append)
  moreover have "filter P (t[i := e]) = filter P (take i t) @ filter P [e] @ filter P (drop (Suc i) t)"
    using upd_conv_take_nth_drop [OF assms] by (metis append_Cons append_Nil filter_append)
  ultimately show ?thesis by simp
qed

lemma length_table_items: "length (table_items t) = length (filter entry_is_present t)"
  by (induction t rule: table_items.induct) auto

end
