(* ===== verification/Igt_Map_Correct.thy ===== *)
theory Igt_Map_Correct
  imports Igt_Map
begin

text \<open>
  Correctness of \<open>lib/igt_map.c\<close> on the model of theory \<open>Igt_Map\<close>: search, insertion (with the
  rehash it may start), removal and iteration act on the contents of the table as the operations
  of a finite map do. The last part states the interface the allocator code relies on as the
  locale \<open>finite_map_api\<close> and interprets it on the operations of the model.
\<close>

subsection \<open>Search\<close>

lemma table_invD:
  assumes "table_inv m"
  shows "sizes_ok m" "keys_ok (hash_function m) (key_equals_function m)"
    "map_entries m = length (filter entry_is_present (map_table m))"
    "map_deleted_entries m = length (filter entry_is_deleted (map_table m))"
    "length (map_table m) = map_size m"
  using assms by (auto simp: table_inv_def dest: sizes_okD)

lemma table_inv_hash:
  "table_inv m \<Longrightarrow> i < map_size m \<Longrightarrow> map_table m ! i = Present_Entry h k v \<Longrightarrow> h = hash_function m k"
  unfolding table_inv_def by metis

lemma table_inv_reach:
  "table_inv m \<Longrightarrow> i < map_size m \<Longrightarrow> map_table m ! i = Present_Entry h k v \<Longrightarrow>
   \<exists>n<map_size m. probe m h n = i \<and> (\<forall>j<n. \<not> entry_is_free (slot m h j))"
  unfolding table_inv_def by metis

lemma table_inv_unique:
  "table_inv m \<Longrightarrow> i < map_size m \<Longrightarrow> j < map_size m \<Longrightarrow> map_table m ! i = Present_Entry h k v \<Longrightarrow>
   map_table m ! j = Present_Entry h' k' v' \<Longrightarrow> key_equals_function m k k' \<Longrightarrow> i = j"
  unfolding table_inv_def by metis

lemma keys_okD:
  assumes "keys_ok hf eq"
  shows "eq a a" "eq a b \<Longrightarrow> eq b a" "eq a b \<Longrightarrow> eq b c \<Longrightarrow> eq a c" "eq a b \<Longrightarrow> hf a = hf b"
  using assms unfolding keys_ok_def by metis+

text \<open>A present entry with an equal key is reached by the probes of the key before any free
  slot.\<close>

lemma matching_probe:
  assumes inv: "table_inv m" and i: "i < map_size m" "map_table m ! i = Present_Entry h k v"
    and eq: "key_equals_function m key k"
  shows "\<exists>n<map_size m. probe m (hash_function m key) n = i \<and>
    entry_matches (key_equals_function m) (hash_function m key) key (slot m (hash_function m key) n) \<and>
    (\<forall>j<n. \<not> entry_is_free (slot m (hash_function m key) j))"
proof -
  have "h = hash_function m k" using inv i by (rule table_inv_hash)
  also have "\<dots> = hash_function m key" using keys_okD(4) [OF table_invD(2) [OF inv] eq] by simp
  finally have h: "h = hash_function m key" .
  with table_inv_reach [OF inv i] i(2) eq show ?thesis by force
qed

lemma no_match_after_stop:
  assumes inv: "table_inv m" and free: "j < map_size m \<longrightarrow> entry_is_free (slot m (hash_function m key) j)"
    and before: "\<forall>i<j. \<not> stops m (hash_function m key) key i" and j: "j \<le> map_size m"
    and i: "i < map_size m" "map_table m ! i = Present_Entry h k v"
  shows "\<not> key_equals_function m key k"
proof
  assume "key_equals_function m key k"
  from matching_probe [OF inv i this] obtain n where n: "n < map_size m"
    "entry_matches (key_equals_function m) (hash_function m key) key (slot m (hash_function m key) n)"
    "\<forall>j<n. \<not> entry_is_free (slot m (hash_function m key) j)" by blast
  then have "stops m (hash_function m key) key n" by (simp add: stops_def)
  with before have "\<not> n < j" by blast
  then consider "j < n" | "j = n" by linarith
  then show False
  proof cases
    case 1
    then have "j < map_size m" using n(1) by simp
    with 1 free n(3) show False by blast
  next
    case 2
    then have "entry_is_free (slot m (hash_function m key) n)" using free n(1) by blast
    with matches_not_free [OF n(2)] show False by simp
  qed
qed

lemma search_entry_cases:
  assumes inv: "table_inv m"
  shows "(\<exists>i k v. igt_map_search_entry m key = Some (Some i) \<and> i < map_size m \<and>
       map_table m ! i = Present_Entry (hash_function m key) k v \<and> key_equals_function m key k) \<or>
     (igt_map_search_entry m key = Some None \<and>
       (\<forall>i<map_size m. \<forall>h k v. map_table m ! i = Present_Entry h k v \<longrightarrow>
          \<not> key_equals_function m key k))"
proof -
  let ?h = "hash_function m key"
  have ok: "sizes_ok m" using inv by (rule table_invD)
  have start: "igt_map_search_entry m key = search_loop m ?h key (probe m ?h 0) (probe m ?h 0)"
    by (simp add: igt_map_search_entry_def igt_map_search_pre_hashed_def probe_0 [OF ok])
  show ?thesis
  proof (cases "\<exists>j<map_size m. stops m ?h key j")
    case True
    define j where "j = (LEAST j. j < map_size m \<and> stops m ?h key j)"
    have j: "j < map_size m" "stops m ?h key j"
      using True LeastI_ex [of "\<lambda>j. j < map_size m \<and> stops m ?h key j"] by (auto simp: j_def)
    have before: "\<forall>i<j. \<not> stops m ?h key i"
      using not_less_Least [of _ "\<lambda>j. j < map_size m \<and> stops m ?h key j"] j(1) unfolding j_def
      by (meson less_trans)
    have r: "igt_map_search_entry m key =
        Some (if entry_is_free (slot m ?h j) then None else Some (probe m ?h j))"
      unfolding start using search_loop_stop [OF ok, of 0 j ?h key] j before by simp
    show ?thesis
    proof (cases "entry_is_free (slot m ?h j)")
      case free: True
      then show ?thesis using r no_match_after_stop [OF inv _ before] j(1) by auto
    next
      case False
      then have "entry_matches (key_equals_function m) ?h key (slot m ?h j)"
        using j(2) by (simp add: stops_def)
      then obtain k v where "slot m ?h j = Present_Entry ?h k v" "key_equals_function m key k"
        by (cases "slot m ?h j") auto
      then show ?thesis using False r probe_less [OF ok, of ?h j] by auto
    qed
  next
    case False
    then have before: "\<forall>i<map_size m. \<not> stops m ?h key i" by blast
    have "igt_map_search_entry m key = Some None"
      unfolding start using search_loop_all [OF ok, of 0 ?h key] before sizes_okD(4) [OF ok] by simp
    then show ?thesis using no_match_after_stop [OF inv _ before] by auto
  qed
qed

text \<open>The abstract lookup in terms of the table.\<close>

lemma map_items_iff:
  "table_inv m \<Longrightarrow> (k, v) \<in> set (map_items m) \<longleftrightarrow> (\<exists>i<map_size m. \<exists>h. map_table m ! i = Present_Entry h k v)"
  by (simp add: map_items_def in_table_items table_invD(5))

lemma map_items_unique:
  assumes inv: "table_inv m" and 1: "(k, v) \<in> set (map_items m)" and 2: "(k', v') \<in> set (map_items m)"
    and eq: "key_equals_function m k k'"
  shows "k = k' \<and> v = v'"
proof -
  obtain i h where i: "i < map_size m" "map_table m ! i = Present_Entry h k v"
    using 1 map_items_iff [OF inv] by blast
  obtain j h' where j: "j < map_size m" "map_table m ! j = Present_Entry h' k' v'"
    using 2 map_items_iff [OF inv] by blast
  have "i = j" using table_inv_unique [OF inv i(1) j(1) i(2) j(2) eq] .
  then show ?thesis using i(2) j(2) by simp
qed

lemma map_abs_Some:
  assumes inv: "table_inv m"
  shows "map_abs m key = Some v \<longleftrightarrow> (\<exists>k. (k, v) \<in> set (map_items m) \<and> key_equals_function m key k)"
proof
  assume "map_abs m key = Some v"
  then show "\<exists>k. (k, v) \<in> set (map_items m) \<and> key_equals_function m key k"
    by (auto simp: map_abs_def find_Some_iff) (metis nth_mem)
next
  assume "\<exists>k. (k, v) \<in> set (map_items m) \<and> key_equals_function m key k"
  then obtain k where k: "(k, v) \<in> set (map_items m)" "key_equals_function m key k" by blast
  then have "find (\<lambda>(k, v). key_equals_function m key k) (map_items m) \<noteq> None"
    by (auto simp: find_None_iff)
  then obtain k' v' where f: "find (\<lambda>(k, v). key_equals_function m key k) (map_items m) = Some (k', v')"
    by auto
  then have "(k', v') \<in> set (map_items m)" "key_equals_function m key k'"
    by (auto simp: find_Some_iff) (metis nth_mem)
  then have "v' = v"
    using map_items_unique [OF inv] k keys_okD [OF table_invD(2) [OF inv]] by metis
  then show "map_abs m key = Some v" using f by (simp add: map_abs_def)
qed

lemma map_abs_None:
  "table_inv m \<Longrightarrow> map_abs m key = None \<longleftrightarrow> (\<forall>(k, v) \<in> set (map_items m). \<not> key_equals_function m key k)"
  by (auto simp: map_abs_def find_None_iff)

theorem search_correct:
  assumes inv: "table_inv m"
  shows "igt_map_search m key = Some (map_abs m key)"
  using search_entry_cases [OF inv, of key]
proof (elim disjE exE conjE)
  fix i k v assume *: "igt_map_search_entry m key = Some (Some i)" "i < map_size m"
    "map_table m ! i = Present_Entry (hash_function m key) k v" "key_equals_function m key k"
  then have "map_abs m key = Some v" using map_abs_Some [OF inv] map_items_iff [OF inv] by blast
  with * show ?thesis by (simp add: igt_map_search_def)
next
  assume *: "igt_map_search_entry m key = Some None"
    "\<forall>i<map_size m. \<forall>h k v. map_table m ! i = Present_Entry h k v \<longrightarrow> \<not> key_equals_function m key k"
  then have "map_abs m key = None" using map_abs_None [OF inv] map_items_iff [OF inv] by blast
  with * show ?thesis by (simp add: igt_map_search_def)
qed


subsection \<open>Writing a slot\<close>

lemma table_items_split:
  "a < length t \<Longrightarrow> table_items t = table_items (take a t) @ table_items [t ! a] @ table_items (drop (Suc a) t)"
  by (metis append_Cons append_Nil id_take_nth_drop table_items_append)

lemma table_items_write:
  assumes a: "a < length t"
    and only: "\<forall>i<length t. \<forall>h k v. t ! i = Present_Entry h k v \<longrightarrow> P k \<longrightarrow> i = a"
    and here: "\<forall>h k v. t ! a = Present_Entry h k v \<longrightarrow> P k"
  shows "mset (table_items (t[a := e])) =
    mset (table_items [e]) + filter_mset (\<lambda>(k, _). \<not> P k) (mset (table_items t))"
proof -
  have "\<forall>(k, v) \<in> set (table_items (take a t)). \<not> P k"
    using only by (auto simp: in_table_items)
  then have 1: "filter (\<lambda>(k, _). \<not> P k) (table_items (take a t)) = table_items (take a t)"
    by (auto intro: filter_True)
  have "\<not> P k" if "(k, v) \<in> set (table_items (drop (Suc a) t))" for k v
  proof -
    obtain i h where i: "i < length (drop (Suc a) t)" "drop (Suc a) t ! i = Present_Entry h k v"
      using \<open>(k, v) \<in> _\<close> by (auto simp: in_table_items)
    then have "Suc a + i < length t" "t ! (Suc a + i) = Present_Entry h k v" by auto
    then show ?thesis using only by fastforce
  qed
  then have 2: "filter (\<lambda>(k, _). \<not> P k) (table_items (drop (Suc a) t)) = table_items (drop (Suc a) t)"
    by (auto intro: filter_True)
  have 3: "filter (\<lambda>(k, _). \<not> P k) (table_items [t ! a]) = []"
    using here by (cases "t ! a") auto
  have "filter (\<lambda>(k, _). \<not> P k) (table_items t) = table_items (take a t) @ table_items (drop (Suc a) t)"
    by (simp only: table_items_split [OF a] filter_append 1 2 3 append_Nil)
  moreover have "table_items (t[a := e]) = table_items (take a t) @ table_items [e] @ table_items (drop (Suc a) t)"
    using table_items_split [of a "t[a := e]" ] a by simp
  ultimately show ?thesis by (simp flip: mset_filter)
qed

text \<open>A slot on the probe sequence of the key, written with its counters.\<close>

definition put_entry :: "('k, 'v) igt_map \<Rightarrow> nat \<Rightarrow> u32 \<Rightarrow> 'k \<Rightarrow> 'v \<Rightarrow> ('k, 'v) igt_map" where
  "put_entry m a h k v = m\<lparr>map_table := (map_table m)[a := Present_Entry h k v],
     map_deleted_entries := (if entry_is_deleted (map_table m ! a)
       then map_deleted_entries m - 1 else map_deleted_entries m),
     map_entries := (if entry_is_present (map_table m ! a) then map_entries m else map_entries m + 1)\<rparr>"

lemma put_entry_probe [simp]:
  "probe (put_entry m a h k v) = probe m" "sizes_ok (put_entry m a h k v) = sizes_ok m"
  "hash_function (put_entry m a h k v) = hash_function m"
  "key_equals_function (put_entry m a h k v) = key_equals_function m"
  "map_size (put_entry m a h k v) = map_size m"
  "map_max_entries (put_entry m a h k v) = map_max_entries m"
  "map_size_index (put_entry m a h k v) = map_size_index m"
  "map_table (put_entry m a h k v) = (map_table m)[a := Present_Entry h k v]"
  by (auto simp: put_entry_def probe_def double_hash_def start_hash_address_def sizes_ok_def fun_eq_iff)

lemma not_present_or_deleted: "entry_is_present e \<Longrightarrow> \<not> entry_is_deleted e"
  by (cases e) auto

lemma put_entry_inv:
  assumes inv: "table_inv m" and n: "n < map_size m" and h: "h = hash_function m key"
    and a: "a = probe m h n" and path: "\<forall>j<n. \<not> entry_is_free (slot m h j)"
    and only: "\<forall>i<map_size m. \<forall>h' k v. map_table m ! i = Present_Entry h' k v \<longrightarrow>
        key_equals_function m key k \<longrightarrow> i = a"
  shows "table_inv (put_entry m a h key data)"
proof -
  let ?m = "put_entry m a h key data"
  note ok = table_invD(1) [OF inv] and len = table_invD(5) [OF inv]
  have a': "a < length (map_table m)" using probe_less [OF ok, of h n] by (simp add: a len)
  have cnt: "map_entries ?m = length (filter entry_is_present (map_table ?m))"
    using length_filter_update [OF a', of entry_is_present "Present_Entry h key data"] table_invD(3) [OF inv]
    by (auto simp: put_entry_def split: if_splits)
  have del: "map_deleted_entries ?m = length (filter entry_is_deleted (map_table ?m))"
    using length_filter_update [OF a', of entry_is_deleted "Present_Entry h key data"] table_invD(4) [OF inv]
    by (auto simp: put_entry_def split: if_splits)
  have nofree: "\<not> entry_is_free (slot ?m h' j)" if "\<not> entry_is_free (slot m h' j)" for h' j
    using that a' by (auto simp: nth_list_update)
  have reach: "h' = hash_function ?m k \<and> (\<exists>n<map_size ?m. probe ?m h' n = i \<and> (\<forall>j<n. \<not> entry_is_free (slot ?m h' j)))"
    if i: "i < map_size ?m" "map_table ?m ! i = Present_Entry h' k v" for i h' k v
  proof (cases "i = a")
    case True
    then have "h' = h" "k = key" using i a' by auto
    moreover have "\<forall>j<n. \<not> entry_is_free (slot ?m h j)" using path nofree by blast
    ultimately show ?thesis using True n h a by auto
  next
    case False
    then have e: "map_table m ! i = Present_Entry h' k v" "i < map_size m" using i by simp_all
    then obtain n' where "n' < map_size m" "probe m h' n' = i" "\<forall>j<n'. \<not> entry_is_free (slot m h' j)"
      using table_inv_reach [OF inv e(2,1)] by blast
    moreover have "h' = hash_function m k" using table_inv_hash [OF inv e(2,1)] .
    moreover have "\<forall>j<n'. \<not> entry_is_free (slot ?m h' j)" using nofree calculation(3) by blast
    ultimately show ?thesis by (metis put_entry_probe(1,3,5))
  qed
  have uniq: "i = j" if i: "i < map_size ?m" "map_table ?m ! i = Present_Entry h1 k1 v1"
    and j: "j < map_size ?m" "map_table ?m ! j = Present_Entry h2 k2 v2"
    and eq: "key_equals_function ?m k1 k2" for i j h1 k1 v1 h2 k2 v2
  proof -
    note sym = keys_okD(2) [OF table_invD(2) [OF inv]]
    consider "i = a" "j = a" | "i = a" "j \<noteq> a" | "i \<noteq> a" "j = a" | "i \<noteq> a" "j \<noteq> a" by blast
    then show ?thesis
    proof cases
      case 2
      then have "k1 = key" "map_table m ! j = Present_Entry h2 k2 v2" using i j a' by auto
      then show ?thesis using only j(1) eq 2 by auto
    next
      case 3
      then have "k2 = key" "map_table m ! i = Present_Entry h1 k1 v1" using i j a' by auto
      then show ?thesis using only i(1) eq 3 sym by auto
    next
      case 4
      then show ?thesis using table_inv_unique [OF inv, of i j] i j eq by simp
    qed simp
  qed
  show ?thesis
    unfolding table_inv_def
  proof (intro conjI)
    show "sizes_ok ?m" "keys_ok (hash_function ?m) (key_equals_function ?m)"
      using ok table_invD(2) [OF inv] by simp_all
    show "\<forall>i<map_size ?m. \<forall>h k v. map_table ?m ! i = Present_Entry h k v \<longrightarrow>
        h = hash_function ?m k \<and>
        (\<exists>n<map_size ?m. probe ?m h n = i \<and> (\<forall>j<n. \<not> entry_is_free (slot ?m h j)))"
      by (intro allI impI) (rule reach)
    show "\<forall>i<map_size ?m. \<forall>j<map_size ?m. \<forall>h k v h' k' v'.
        map_table ?m ! i = Present_Entry h k v \<longrightarrow> map_table ?m ! j = Present_Entry h' k' v' \<longrightarrow>
        key_equals_function ?m k k' \<longrightarrow> i = j"
      by (intro allI impI) (rule uniq)
  qed (rule cnt del)+
qed

lemma put_entry_items:
  assumes inv: "table_inv m" and a: "a < map_size m"
    and only: "\<forall>i<map_size m. \<forall>h' k v. map_table m ! i = Present_Entry h' k v \<longrightarrow>
        key_equals_function m key k \<longrightarrow> i = a"
    and here: "\<forall>h' k v. map_table m ! a = Present_Entry h' k v \<longrightarrow> key_equals_function m key k"
  shows "mset (map_items (put_entry m a h key data)) =
    add_mset (key, data) (filter_mset (\<lambda>(k, _). \<not> key_equals_function m key k) (mset (map_items m)))"
proof -
  have len: "length (map_table m) = map_size m" using inv by (rule table_invD)
  have "mset (table_items ((map_table m)[a := Present_Entry h key data])) =
      mset (table_items [Present_Entry h key data]) +
      filter_mset (\<lambda>(k, _). \<not> key_equals_function m key k) (mset (table_items (map_table m)))"
    using table_items_write [of a "map_table m" "key_equals_function m key", unfolded len, OF a only here] .
  then show ?thesis by (simp add: map_items_def)
qed

subsection \<open>Insertion\<close>

text \<open>The part after the resize: with one slot left the entry is written; the contents change as
  a map update does.\<close>

lemma length_filter_present_full:
  assumes "length (filter P t) < length t" shows "\<exists>i<length t. \<not> P (t ! i)"
proof (rule ccontr)
  assume "\<not> ?thesis"
  then have "\<forall>e \<in> set t. P e" by (auto simp: in_set_conv_nth)
  then show False using assms by simp
qed

lemma insert_probe_slot:
  assumes inv: "table_inv m" and room: "map_entries m < map_size m"
  shows "\<exists>n<map_size m. insert_probe m (hash_function m key) key data =
      Some (put_entry m (probe m (hash_function m key) n) (hash_function m key) key data,
        Some (probe m (hash_function m key) n)) \<and>
    (\<forall>j<n. \<not> entry_is_free (slot m (hash_function m key) j)) \<and>
    (entry_is_present (slot m (hash_function m key) n) \<longrightarrow>
       entry_matches (key_equals_function m) (hash_function m key) key (slot m (hash_function m key) n)) \<and>
    (\<not> entry_is_present (slot m (hash_function m key) n) \<longrightarrow>
       (\<forall>i<map_size m. \<forall>h' k v. map_table m ! i = Present_Entry h' k v \<longrightarrow> \<not> key_equals_function m key k))"
proof -
  let ?h = "hash_function m key"
  note ok = table_invD(1) [OF inv]
  have start: "start_hash_address m ?h = probe m ?h 0" by (simp add: probe_0 [OF ok])
  have av0: "first_available m ?h None 0" by (simp add: first_available_def)
  from insert_loop_cases [OF ok sizes_okD(4) [OF ok] av0, of key] consider
    (hit) j where "j < map_size m"
      "insert_loop m ?h key (probe m ?h 0) None (probe m ?h 0) = Some (Inl (probe m ?h j))"
      "entry_matches (key_equals_function m) ?h key (slot m ?h j)" "\<forall>i<j. \<not> stops m ?h key i"
  | (miss) j av where "insert_loop m ?h key (probe m ?h 0) None (probe m ?h 0) = Some (Inr av)"
      "j \<le> map_size m" "\<forall>i<j. \<not> stops m ?h key i" "j < map_size m \<longrightarrow> entry_is_free (slot m ?h j)"
      "first_available m ?h av (if j < map_size m then Suc j else j)"
    by auto
  then show ?thesis
  proof cases
    case hit
    have "entry_is_present (slot m ?h j)" using matches_present [OF hit(3)] .
    then have "insert_probe m ?h key data = Some (put_entry m (probe m ?h j) ?h key data, Some (probe m ?h j))"
      using hit(2) not_present_or_deleted
      by (auto simp: insert_probe_def start put_entry_def)
    moreover have "\<forall>i<j. \<not> entry_is_free (slot m ?h i)" using hit(4) by (simp add: stops_def)
    ultimately show ?thesis using hit(1,3) \<open>entry_is_present (slot m ?h j)\<close> by blast
  next
    case miss
    have "\<exists>i<map_size m. \<not> entry_is_present (map_table m ! i)"
      using length_filter_present_full [of entry_is_present "map_table m"] room
        table_invD(3,5) [OF inv] by simp
    then obtain q where q: "q < map_size m" "\<not> entry_is_present (slot m ?h q)"
      using probe_onto [OF ok] by metis
    have "av \<noteq> None"
    proof
      assume "av = None"
      then have all: "\<forall>i<(if j < map_size m then Suc j else j). entry_is_present (slot m ?h i)"
        using miss(5) by (simp add: first_available_def)
      show False
      proof (cases "j < map_size m")
        case True
        then have "entry_is_present (slot m ?h j)" "entry_is_free (slot m ?h j)" using all miss(4) by auto
        then show False by (cases "slot m ?h j") auto
      next
        case False
        then show False using all q miss(2) by auto
      qed
    qed
    then obtain a where "av = Some a" by blast
    then obtain n where n: "n < (if j < map_size m then Suc j else j)" "a = probe m ?h n"
        "\<not> entry_is_present (slot m ?h n)" "\<forall>i<n. entry_is_present (slot m ?h i)"
      using miss(5) by (auto simp: first_available_def)
    have "insert_probe m ?h key data = Some (put_entry m (probe m ?h n) ?h key data, Some (probe m ?h n))"
      using miss(1) n \<open>av = Some a\<close> by (simp add: insert_probe_def start put_entry_def)
    moreover have "\<not> entry_is_free (slot m ?h i)" if "i < n" for i
      using n(4) that by (cases "slot m ?h i") auto
    moreover have "n < map_size m" using n(1) miss(2) by (auto split: if_splits)
    ultimately show ?thesis using n(3) no_match_after_stop [OF inv miss(4,3,2)] by blast
  qed
qed

text \<open>The contract of an insertion from \<open>m\<close> to \<open>m'\<close>.\<close>

definition inserted :: "('k, 'v) igt_map \<Rightarrow> 'k \<Rightarrow> 'v \<Rightarrow> ('k, 'v) igt_map \<Rightarrow> nat \<Rightarrow> bool" where
  "inserted m key data m' a \<longleftrightarrow> table_inv m' \<and>
     hash_function m' = hash_function m \<and> key_equals_function m' = key_equals_function m \<and>
     a < map_size m' \<and> map_table m' ! a = Present_Entry (hash_function m key) key data \<and>
     mset (map_items m') =
       add_mset (key, data) (filter_mset (\<lambda>(k, _). \<not> key_equals_function m key k) (mset (map_items m)))"

lemma insert_probe_correct:
  assumes inv: "table_inv m" and room: "map_entries m < map_size m"
  shows "\<exists>m' a. insert_probe m (hash_function m key) key data = Some (m', Some a) \<and>
    inserted m key data m' a \<and> map_size_index m' = map_size_index m \<and>
    map_max_entries m' = map_max_entries m \<and> map_size m' = map_size m \<and>
    map_entries m' \<le> map_entries m + 1 \<and>
    map_deleted_entries m' \<le> map_deleted_entries m"
proof -
  let ?h = "hash_function m key"
  obtain n where n: "n < map_size m"
    "insert_probe m ?h key data = Some (put_entry m (probe m ?h n) ?h key data, Some (probe m ?h n))"
    "\<forall>j<n. \<not> entry_is_free (slot m ?h j)"
    "entry_is_present (slot m ?h n) \<longrightarrow> entry_matches (key_equals_function m) ?h key (slot m ?h n)"
    "\<not> entry_is_present (slot m ?h n) \<longrightarrow>
       (\<forall>i<map_size m. \<forall>h' k v. map_table m ! i = Present_Entry h' k v \<longrightarrow> \<not> key_equals_function m key k)"
    using insert_probe_slot [OF inv room] by blast
  note keys = keys_okD [OF table_invD(2) [OF inv]]
  let ?a = "probe m ?h n"
  have a: "?a < map_size m" using probe_less [OF table_invD(1) [OF inv]] .
  have only: "\<forall>i<map_size m. \<forall>h' k v. map_table m ! i = Present_Entry h' k v \<longrightarrow>
      key_equals_function m key k \<longrightarrow> i = ?a"
  proof (intro allI impI)
    fix i h' k v
    assume i: "i < map_size m" "map_table m ! i = Present_Entry h' k v" "key_equals_function m key k"
    then have "entry_is_present (slot m ?h n)" using n(5) by blast
    with n(4) obtain k0 v0 where s: "slot m ?h n = Present_Entry ?h k0 v0" "key_equals_function m key k0"
      by (cases "slot m ?h n") auto
    then have "key_equals_function m k k0" using i(3) keys(2,3) by blast
    then show "i = ?a" using table_inv_unique [OF inv i(1) a i(2) s(1)] by blast
  qed
  have here: "\<forall>h' k v. map_table m ! ?a = Present_Entry h' k v \<longrightarrow> key_equals_function m key k"
    using n(4) by auto
  have "inserted m key data (put_entry m ?a ?h key data) ?a"
    unfolding inserted_def
    using put_entry_inv [OF inv n(1) refl refl n(3) only, of data]
      put_entry_items [OF inv a only here] a table_invD(5) [OF inv] by simp
  moreover have "map_entries (put_entry m ?a ?h key data) \<le> map_entries m + 1"
    "map_deleted_entries (put_entry m ?a ?h key data) \<le> map_deleted_entries m"
    by (simp_all add: put_entry_def)
  ultimately show ?thesis using n(2) by (intro exI [of _ "put_entry m ?a ?h key data"] exI [of _ ?a]) simp
qed


subsection \<open>Iteration\<close>

text \<open>\<open>igt_map_foreach\<close> visits the present slots once each, in table order.\<close>

lemma find_upt_Some:
  "find P [a..<b] = Some j \<Longrightarrow> filter P [a..<b] = j # filter P [Suc j..<b]"
proof (induction "b - a" arbitrary: a)
  case 0
  then show ?case by simp
next
  case (Suc n)
  have l: "[a..<b] = a # [Suc a..<b]" using Suc.hyps(2) by (simp add: upt_conv_Cons)
  show ?case
  proof (cases "P a")
    case True
    then have "j = a" using Suc.prems by (simp add: l)
    then show ?thesis using True by (simp add: l)
  next
    case False
    then show ?thesis using Suc.hyps Suc.prems by (simp add: l)
  qed
qed

lemma igt_map_foreach_from_eq:
  "igt_map_foreach_from m i = i # filter (\<lambda>j. entry_is_present (map_table m ! j)) [Suc i..<map_size m]"
proof (induction m i rule: igt_map_foreach_from.induct)
  case (1 m i)
  show ?case
  proof (cases "igt_map_next_entry m (Some i)")
    case None
    then have "filter (\<lambda>j. entry_is_present (map_table m ! j)) [Suc i..<map_size m] = []"
      by (auto simp: igt_map_next_entry_def find_None_iff filter_empty_conv)
    then show ?thesis using None by (subst igt_map_foreach_from.simps) simp
  next
    case (Some j)
    then have "find (\<lambda>i. entry_is_present (map_table m ! i)) [Suc i..<map_size m] = Some j"
      by (simp add: igt_map_next_entry_def)
    then show ?thesis using 1 [OF Some] Some find_upt_Some
      by (subst igt_map_foreach_from.simps) fastforce
  qed
qed

lemma igt_map_foreach_eq:
  "igt_map_foreach m = filter (\<lambda>j. entry_is_present (map_table m ! j)) [0..<map_size m]"
proof (cases "igt_map_next_entry m None")
  case None
  then have "filter (\<lambda>j. entry_is_present (map_table m ! j)) [0..<map_size m] = []"
    by (auto simp: igt_map_next_entry_def find_None_iff filter_empty_conv)
  then show ?thesis using None by (simp add: igt_map_foreach_def)
next
  case (Some j)
  then have "find (\<lambda>i. entry_is_present (map_table m ! i)) [0..<map_size m] = Some j"
    by (simp add: igt_map_next_entry_def)
  from find_upt_Some [OF this] Some show ?thesis
    by (simp add: igt_map_foreach_def igt_map_foreach_from_eq)
qed

lemma igt_map_foreach_entries:
  assumes "length (map_table m) = map_size m"
  shows "map (\<lambda>i. map_table m ! i) (igt_map_foreach m) = filter entry_is_present (map_table m)"
proof -
  have "filter entry_is_present (map_table m) =
      filter entry_is_present (map (\<lambda>i. map_table m ! i) [0..<length (map_table m)])"
    by (simp add: map_nth)
  then show ?thesis by (simp add: igt_map_foreach_eq filter_map comp_def assms)
qed

lemma table_items_present: "table_items (filter entry_is_present t) = table_items t"
  by (induction t rule: table_items.induct) auto

lemma igt_map_foreach_items:
  assumes "length (map_table m) = map_size m"
  shows "table_items (map (\<lambda>i. map_table m ! i) (igt_map_foreach m)) = map_items m"
  by (simp add: igt_map_foreach_entries [OF assms] table_items_present map_items_def)

subsection \<open>Rehash\<close>

lemma filter_disjoint_keys:
  assumes "\<forall>(k', v') \<in> set xs. \<not> P k'"
  shows "filter_mset (\<lambda>(k, _). \<not> P k) (mset xs) = mset xs"
proof -
  have "filter (\<lambda>(k, _). \<not> P k) xs = xs" using assms by (auto intro: filter_True)
  then show ?thesis by (metis mset_filter)
qed

text \<open>Keys of a list of pairs that are pairwise different for the map's equality.\<close>

fun distinct_keys :: "('k \<Rightarrow> 'k \<Rightarrow> bool) \<Rightarrow> ('k \<times> 'v) list \<Rightarrow> bool" where
  "distinct_keys eq [] = True"
| "distinct_keys eq ((k, v) # xs) = ((\<forall>(k', v') \<in> set xs. \<not> eq k' k \<and> \<not> eq k k') \<and> distinct_keys eq xs)"

lemma distinct_keys_fst:
  "(\<And>x y. eq x y \<longleftrightarrow> x = y) \<Longrightarrow> distinct_keys eq xs \<Longrightarrow> distinct (map fst xs)"
  by (induction eq xs rule: distinct_keys.induct) (auto simp: image_iff)

lemma distinct_keysI:
  assumes "\<forall>i<length t. \<forall>j<length t. \<forall>h k v h' k' v'. t ! i = Present_Entry h k v \<longrightarrow>
     t ! j = Present_Entry h' k' v' \<longrightarrow> eq k k' \<longrightarrow> i = j"
  shows "distinct_keys eq (table_items t)"
  using assms
proof (induction t rule: table_items.induct)
  case (2 h k v es)
  have "distinct_keys eq (table_items es)"
    using 2(2) by (intro 2(1)) (metis Suc_less_eq length_Cons nat.inject nth_Cons_Suc)
  moreover have "\<not> eq k' k \<and> \<not> eq k k'" if mem: "(k', v') \<in> set (table_items es)" for k' v'
  proof -
    obtain i h' where i: "i < length es" "es ! i = Present_Entry h' k' v'"
      using mem by (auto simp: in_table_items)
    then have "Suc i < length (Present_Entry h k v # es)"
      "(Present_Entry h k v # es) ! Suc i = Present_Entry h' k' v'" by simp_all
    moreover have "0 < length (Present_Entry h k v # es)" "(Present_Entry h k v # es) ! 0 = Present_Entry h k v"
      by simp_all
    ultimately show ?thesis using 2(2) by (metis nat.distinct(1))
  qed
  ultimately show ?case by auto
next
  case (3 es)
  then have "distinct_keys eq (table_items es)"
    by (metis Suc_less_eq length_Cons nat.inject nth_Cons_Suc)
  then show ?case by simp
next
  case (4 h v es)
  then have "distinct_keys eq (table_items es)"
    by (metis Suc_less_eq length_Cons nat.inject nth_Cons_Suc)
  then show ?case by simp
qed simp

lemma table_inv_distinct_keys: "table_inv m \<Longrightarrow> distinct_keys (key_equals_function m) (map_items m)"
  unfolding map_items_def
  by (rule distinct_keysI, unfold table_invD(5), intro allI impI, rule table_inv_unique)

text \<open>Reinserting a list of entries into a table with room for them all.\<close>

lemma reinsert_all_correct:
  assumes ins: "\<And>m h k v. map_entries m + map_deleted_entries m < map_max_entries m \<Longrightarrow>
      ins m h k v = insert_probe m h k v"
  shows "table_inv m \<Longrightarrow> map_deleted_entries m = 0 \<Longrightarrow>
    map_entries m + length (table_items es) \<le> map_max_entries m \<Longrightarrow>
    \<forall>h k v. Present_Entry h k v \<in> set es \<longrightarrow> h = hash_function m k \<Longrightarrow>
    distinct_keys (key_equals_function m) (table_items es) \<Longrightarrow>
    \<forall>(k, v) \<in> set (table_items es). \<forall>(k', v') \<in> set (map_items m). \<not> key_equals_function m k k' \<Longrightarrow>
    \<exists>m'. reinsert_all ins m es = Some m' \<and> table_inv m' \<and> map_deleted_entries m' = 0 \<and>
      hash_function m' = hash_function m \<and> key_equals_function m' = key_equals_function m \<and>
      map_size_index m' = map_size_index m \<and> map_max_entries m' = map_max_entries m \<and>
      mset (map_items m') = mset (map_items m) + mset (table_items es)"
proof (induction es arbitrary: m rule: table_items.induct)
  case 1
  then show ?case by simp
next
  case (2 h k v es)
  note inv = \<open>table_inv m\<close>
  have h: "h = hash_function m k" using "2.prems"(4) by simp
  have lt: "map_entries m + map_deleted_entries m < map_max_entries m" using "2.prems"(2,3) by simp
  then have room: "map_entries m < map_size m" using sizes_okD(2) [OF table_invD(1) [OF inv]] by simp
  obtain m1 a where m1: "insert_probe m h k v = Some (m1, Some a)" "inserted m k v m1 a"
    "map_size_index m1 = map_size_index m" "map_max_entries m1 = map_max_entries m"
    "map_entries m1 \<le> map_entries m + 1" "map_deleted_entries m1 \<le> map_deleted_entries m"
    using insert_probe_correct [OF inv room, of k v] h by blast
  note in1 = m1(2) [unfolded inserted_def]
  have "mset (map_items m1) = add_mset (k, v) (mset (map_items m))"
    using in1 "2.prems"(6) filter_disjoint_keys [of "map_items m" "key_equals_function m k"] by auto
  then have items1: "mset (map_items m1) = mset ((k, v) # map_items m)" by simp
  then have set1: "set (map_items m1) = insert (k, v) (set (map_items m))"
    by (metis list.simps(15) set_mset_mset)
  have "\<exists>m'. reinsert_all ins m1 es = Some m' \<and> table_inv m' \<and> map_deleted_entries m' = 0 \<and>
      hash_function m' = hash_function m1 \<and> key_equals_function m' = key_equals_function m1 \<and>
      map_size_index m' = map_size_index m1 \<and> map_max_entries m' = map_max_entries m1 \<and>
      mset (map_items m') = mset (map_items m1) + mset (table_items es)"
  proof (rule "2.IH")
    show "\<forall>(k, v) \<in> set (table_items es). \<forall>(k', v') \<in> set (map_items m1). \<not> key_equals_function m1 k k'"
      using "2.prems"(5,6) in1 unfolding set1 by auto
  qed (use m1 in1 "2.prems" in auto)
  then show ?case using m1 in1 items1 ins [OF lt, of h k v] by auto
next
  case (3 es)
  then show ?case by simp
next
  case (4 h v es)
  then show ?case by simp
qed


text \<open>The empty table of a given size.\<close>

lemma replicate_free_filters [simp]:
  "filter entry_is_present (replicate n Free_Entry) = []"
  "filter entry_is_deleted (replicate n Free_Entry) = []"
  "table_items (replicate n Free_Entry) = []"
  by (induction n) auto

lemma set_size_index_fields [simp]:
  "hash_function (set_size_index i m) = hash_function m"
  "key_equals_function (set_size_index i m) = key_equals_function m"
  "map_size_index (set_size_index i m) = i"
  "map_entries (set_size_index i m) = 0" "map_deleted_entries (set_size_index i m) = 0"
  "map_items (set_size_index i m) = []"
  by (auto simp: set_size_index_def map_items_def split: prod.splits)

lemma set_size_index_inv:
  assumes "i < certified" "keys_ok (hash_function m) (key_equals_function m)"
  shows "table_inv (set_size_index i m)"
proof -
  obtain mx sz rh where row: "hash_sizes ! i = (mx, sz, rh)" by (metis prod_cases3)
  then have "sizes_ok (set_size_index i m)" using assms(1) by (simp add: set_size_index_def sizes_ok_def)
  moreover have "set_size_index i m = m\<lparr>map_table := replicate sz Free_Entry, map_size := sz, map_rehash := rh,
       map_max_entries := mx, map_size_index := i, map_entries := 0, map_deleted_entries := 0\<rparr>"
    by (simp add: set_size_index_def row)
  ultimately show ?thesis using assms(2) by (simp add: table_inv_def)
qed

text \<open>Rehashing keeps the contents and drops the tombstones.\<close>

lemma rehash_correct:
  assumes ins: "\<And>m h k v. map_entries m + map_deleted_entries m < map_max_entries m \<Longrightarrow>
      ins m h k v = insert_probe m h k v"
    and inv: "table_inv m" and i: "i < certified"
    and room: "map_entries m \<le> fst (hash_sizes ! i)"
  shows "\<exists>m'. igt_map_rehash ins True m i = Some m' \<and> table_inv m' \<and> map_deleted_entries m' = 0 \<and>
    hash_function m' = hash_function m \<and> key_equals_function m' = key_equals_function m \<and>
    map_size_index m' = i \<and> map_max_entries m' = fst (hash_sizes ! i) \<and>
    mset (map_items m') = mset (map_items m)"
proof -
  let ?e = "set_size_index i m" and ?es = "map (\<lambda>i. map_table m ! i) (igt_map_foreach m)"
  note len = table_invD(5) [OF inv]
  have items: "table_items ?es = map_items m" by (rule igt_map_foreach_items [OF len])
  have mx: "map_max_entries ?e = fst (hash_sizes ! i)" by (simp add: set_size_index_def split: prod.splits)
  have "\<exists>m'. reinsert_all ins ?e ?es = Some m' \<and> table_inv m' \<and> map_deleted_entries m' = 0 \<and>
      hash_function m' = hash_function ?e \<and> key_equals_function m' = key_equals_function ?e \<and>
      map_size_index m' = map_size_index ?e \<and> map_max_entries m' = map_max_entries ?e \<and>
      mset (map_items m') = mset (map_items ?e) + mset (table_items ?es)"
  proof (rule reinsert_all_correct [OF ins])
    show "table_inv ?e" by (rule set_size_index_inv [OF i table_invD(2) [OF inv]])
    show "map_entries ?e + length (table_items ?es) \<le> map_max_entries ?e"
      using room table_invD(3) [OF inv] unfolding items mx by (simp add: map_items_def length_table_items)
    show "\<forall>h k v. Present_Entry h k v \<in> set ?es \<longrightarrow> h = hash_function ?e k"
      using table_inv_hash [OF inv] unfolding igt_map_foreach_entries [OF len]
      by (auto simp: in_set_conv_nth len)
    show "distinct_keys (key_equals_function ?e) (table_items ?es)"
      using table_inv_distinct_keys [OF inv] unfolding items by simp
  qed simp_all
  then show ?thesis
    using i by (simp add: igt_map_rehash_def items mx length_hash_sizes certified_def)
qed

lemma hash_sizes_max_entries: "map fst (take certified hash_sizes) = map (\<lambda>i. 2 ^ (i + 1)) [0..<certified]"
  by (simp add: hash_sizes_def certified_def upt_rec)

lemma hash_sizes_max: "i < certified \<Longrightarrow> fst (hash_sizes ! i) = 2 ^ (i + 1)"
  using arg_cong [OF hash_sizes_max_entries, of "\<lambda>xs. xs ! i"]
  by (simp add: length_hash_sizes certified_def)

text \<open>An insertion that needs no resize is the probing part alone.\<close>

lemma insert_no_resize:
  "map_entries m + map_deleted_entries m < map_max_entries m \<Longrightarrow>
   igt_map_insert_pre_hashed (Suc d) mem m h k v = insert_probe m h k v"
  by simp

text \<open>Insertion with memory available, for maps of up to \<open>2 ^ 16 - 1\<close> entries before it.\<close>

lemma insert_pre_hashed_correct:
  assumes inv: "map_inv m" and bound: "map_entries m < 2 ^ 16"
  shows "\<exists>m' a. igt_map_insert_pre_hashed (Suc (Suc d)) True m (hash_function m key) key data = Some (m', Some a) \<and>
    map_inv m' \<and> inserted m key data m' a"
proof -
  let ?ins = "igt_map_insert_pre_hashed (Suc d) True"
  note tinv = inv [unfolded map_inv_def, THEN conjunct1]
  note ok = table_invD(1) [OF tinv]
  have idx: "map_size_index m < certified" "map_max_entries m = 2 ^ (map_size_index m + 1)"
    using ok hash_sizes_max [of "map_size_index m"] by (auto simp: sizes_ok_def)
  have le: "map_entries m + map_deleted_entries m \<le> map_max_entries m" using inv by (simp add: map_inv_def)
  have "\<exists>m1. (if map_entries m \<ge> map_max_entries m then igt_map_rehash ?ins True m (map_size_index m + 1)
      else if map_deleted_entries m + map_entries m \<ge> map_max_entries m
        then igt_map_rehash ?ins True m (map_size_index m)
      else Some m) = Some m1 \<and> table_inv m1 \<and>
      hash_function m1 = hash_function m \<and> key_equals_function m1 = key_equals_function m \<and>
      map_entries m1 + map_deleted_entries m1 < map_max_entries m1 \<and>
      mset (map_items m1) = mset (map_items m)"
  proof (cases "map_entries m \<ge> map_max_entries m")
    case True
    have "(2::nat) ^ (map_size_index m + 1) < 2 ^ 16" using True bound idx(2) by simp
    then have "map_size_index m + 1 < 16" by (rule power_less_imp_less_exp [rotated]) simp
    then have i: "map_size_index m + 1 < certified" by (simp add: certified_def)
    have mx: "fst (hash_sizes ! (map_size_index m + 1)) = 2 * map_max_entries m"
      using hash_sizes_max [OF i] idx(2) by simp
    have pos: "0 < map_max_entries m" using sizes_okD(1) [OF ok] .
    obtain m1 where m1: "igt_map_rehash ?ins True m (map_size_index m + 1) = Some m1" "table_inv m1"
      "map_deleted_entries m1 = 0" "hash_function m1 = hash_function m"
      "key_equals_function m1 = key_equals_function m" "map_max_entries m1 = 2 * map_max_entries m"
      "mset (map_items m1) = mset (map_items m)"
      using rehash_correct [of ?ins, OF insert_no_resize tinv i] le mx by auto
    have "map_entries m1 = map_entries m"
      using m1(7) table_invD(3) [OF m1(2)] table_invD(3) [OF tinv]
      by (metis length_table_items map_items_def size_mset)
    then show ?thesis using True m1 le pos by auto
  next
    case False
    show ?thesis
    proof (cases "map_deleted_entries m + map_entries m \<ge> map_max_entries m")
      case True
      have mx: "fst (hash_sizes ! map_size_index m) = map_max_entries m"
        using ok by (simp add: sizes_ok_def)
      obtain m1 where m1: "igt_map_rehash ?ins True m (map_size_index m) = Some m1" "table_inv m1"
        "map_deleted_entries m1 = 0" "hash_function m1 = hash_function m"
        "key_equals_function m1 = key_equals_function m" "map_max_entries m1 = map_max_entries m"
        "mset (map_items m1) = mset (map_items m)"
        using rehash_correct [of ?ins, OF insert_no_resize tinv idx(1)] le mx by auto
      have "map_entries m1 = map_entries m"
        using m1(7) table_invD(3) [OF m1(2)] table_invD(3) [OF tinv]
        by (metis length_table_items map_items_def size_mset)
      then show ?thesis using True False m1 by auto
    qed (use False tinv in auto)
  qed
  then obtain m1 where m1: "igt_map_insert_pre_hashed (Suc (Suc d)) True m (hash_function m key) key data =
        insert_probe m1 (hash_function m key) key data" "table_inv m1"
      "hash_function m1 = hash_function m" "key_equals_function m1 = key_equals_function m"
      "map_entries m1 + map_deleted_entries m1 < map_max_entries m1"
      "mset (map_items m1) = mset (map_items m)"
    by (auto simp del: igt_map_insert_pre_hashed.simps simp: igt_map_insert_pre_hashed.simps(2) [of "Suc d"])
  have room: "map_entries m1 < map_size m1" using m1(5) sizes_okD(2) [OF table_invD(1) [OF m1(2)]] by simp
  obtain m' a where m': "insert_probe m1 (hash_function m1 key) key data = Some (m', Some a)"
      "inserted m1 key data m' a" "map_max_entries m' = map_max_entries m1"
      "map_entries m' \<le> map_entries m1 + 1" "map_deleted_entries m' \<le> map_deleted_entries m1"
    using insert_probe_correct [OF m1(2) room, of key data] by blast
  have "map_inv m'" using m' m1(5) by (simp add: map_inv_def inserted_def)
  moreover have "inserted m key data m' a" using m'(2) m1 by (simp add: inserted_def)
  ultimately show ?thesis using m1(1,3) m'(1) by auto
qed

lemma igt_map_insert_correct:
  assumes "map_inv m" "map_entries m < 2 ^ 16"
  shows "\<exists>m' a. igt_map_insert True m key data = Some (m', Some a) \<and> map_inv m' \<and> inserted m key data m' a"
  using insert_pre_hashed_correct [OF assms, of 30 key data] by (simp add: igt_map_insert_def numeral_eq_Suc)

lemma igt_map_create_correct:
  assumes "keys_ok hashf eqf"
  shows "map_inv (igt_map_create hashf eqf)" "map_items (igt_map_create hashf eqf) = []"
    "hash_function (igt_map_create hashf eqf) = hashf" "key_equals_function (igt_map_create hashf eqf) = eqf"
proof -
  have "table_inv (igt_map_create hashf eqf)"
    unfolding igt_map_create_def using assms by (intro set_size_index_inv) (simp_all add: certified_def)
  then show "map_inv (igt_map_create hashf eqf)" by (simp add: map_inv_def igt_map_create_def)
qed (simp_all add: igt_map_create_def)

subsection \<open>Removal\<close>

lemma delete_entry_simps [simp]:
  "entry_is_free (delete_entry e) = entry_is_free e" "\<not> entry_is_present (delete_entry e)"
  "entry_is_deleted (delete_entry e) \<longleftrightarrow> \<not> entry_is_free e" "table_items [delete_entry e] = []"
  "delete_entry e \<noteq> Present_Entry h k v"
  by (cases e; simp)+

lemma remove_entry_probe [simp]:
  "probe (igt_map_remove_entry m e) = probe m" "sizes_ok (igt_map_remove_entry m e) = sizes_ok m"
  "hash_function (igt_map_remove_entry m e) = hash_function m"
  "key_equals_function (igt_map_remove_entry m e) = key_equals_function m"
  "map_size (igt_map_remove_entry m e) = map_size m"
  "map_max_entries (igt_map_remove_entry m e) = map_max_entries m"
  by (auto simp: igt_map_remove_entry_def probe_def double_hash_def start_hash_address_def
      sizes_ok_def fun_eq_iff split: option.splits)

lemma remove_entry_inv:
  assumes inv: "table_inv m" and a: "a < map_size m" "entry_is_present (map_table m ! a)"
  shows "table_inv (igt_map_remove_entry m (Some a))"
    "map_entries (igt_map_remove_entry m (Some a)) = map_entries m - 1" "0 < map_entries m"
    "map_deleted_entries (igt_map_remove_entry m (Some a)) = map_deleted_entries m + 1"
proof -
  let ?m = "igt_map_remove_entry m (Some a)"
  have t: "map_table ?m = (map_table m)[a := delete_entry (map_table m ! a)]"
    by (simp add: igt_map_remove_entry_def)
  note len = table_invD(5) [OF inv]
  show e: "map_entries ?m = map_entries m - 1" and d: "map_deleted_entries ?m = map_deleted_entries m + 1"
    by (simp_all add: igt_map_remove_entry_def)
  have a': "a < length (map_table m)" using a(1) by (simp add: len)
  have nd: "\<not> entry_is_deleted (map_table m ! a)" "\<not> entry_is_free (map_table m ! a)"
    using a(2) by (cases "map_table m ! a"; simp)+
  have cp: "length (filter entry_is_present (map_table ?m)) + 1 = map_entries m"
    using length_filter_update [OF a', of entry_is_present "delete_entry (map_table m ! a)"]
      table_invD(3) [OF inv] a(2) t by simp
  then show "0 < map_entries m" by simp
  have cd: "length (filter entry_is_deleted (map_table ?m)) = map_deleted_entries m + 1"
    using length_filter_update [OF a', of entry_is_deleted "delete_entry (map_table m ! a)"]
      table_invD(4) [OF inv] nd t by simp
  have free: "entry_is_free (slot ?m h j) = entry_is_free (slot m h j)" for h j
    using a' by (simp add: t nth_list_update)
  have pres: "map_table m ! i = Present_Entry h k v" if "map_table ?m ! i = Present_Entry h k v" for i h k v
    using that a' by (auto simp: t nth_list_update split: if_splits)
  show "table_inv ?m"
    unfolding table_inv_def
  proof (intro conjI)
    show "\<forall>i<map_size ?m. \<forall>h k v. map_table ?m ! i = Present_Entry h k v \<longrightarrow>
        h = hash_function ?m k \<and>
        (\<exists>n<map_size ?m. probe ?m h n = i \<and> (\<forall>j<n. \<not> entry_is_free (slot ?m h j)))"
      unfolding free unfolding remove_entry_probe
      using table_inv_hash [OF inv] table_inv_reach [OF inv] pres by blast
    show "\<forall>i<map_size ?m. \<forall>j<map_size ?m. \<forall>h k v h' k' v'.
        map_table ?m ! i = Present_Entry h k v \<longrightarrow> map_table ?m ! j = Present_Entry h' k' v' \<longrightarrow>
        key_equals_function ?m k k' \<longrightarrow> i = j"
      unfolding remove_entry_probe
      by (intro allI impI) (rule table_inv_unique [OF inv], assumption+, erule pres, erule pres, assumption)
  qed (use inv cp cd e d in \<open>simp_all add: table_invD\<close>)
qed

text \<open>The contract of a removal from \<open>m\<close> to \<open>m'\<close>.\<close>

definition removed :: "('k, 'v) igt_map \<Rightarrow> 'k \<Rightarrow> ('k, 'v) igt_map \<Rightarrow> bool" where
  "removed m key m' \<longleftrightarrow> table_inv m' \<and>
     hash_function m' = hash_function m \<and> key_equals_function m' = key_equals_function m \<and>
     map_max_entries m' = map_max_entries m \<and>
     map_entries m' + map_deleted_entries m' = map_entries m + map_deleted_entries m \<and>
     mset (map_items m') = filter_mset (\<lambda>(k, _). \<not> key_equals_function m key k) (mset (map_items m))"

lemma remove_entry_correct:
  assumes inv: "table_inv m"
  shows "\<exists>r. igt_map_search_entry m key = Some r \<and> removed m key (igt_map_remove_entry m r) \<and>
    map_abs m key = (case r of None \<Rightarrow> None | Some i \<Rightarrow> entry_data (map_table m ! i))"
  using search_entry_cases [OF inv, of key]
proof (elim disjE exE conjE)
  fix i k v assume *: "igt_map_search_entry m key = Some (Some i)" "i < map_size m"
    "map_table m ! i = Present_Entry (hash_function m key) k v" "key_equals_function m key k"
  have len: "length (map_table m) = map_size m" using inv by (rule table_invD)
  note keys = keys_okD [OF table_invD(2) [OF inv]]
  have only: "\<forall>j<map_size m. \<forall>h' k' v'. map_table m ! j = Present_Entry h' k' v' \<longrightarrow>
      key_equals_function m key k' \<longrightarrow> j = i"
    using table_inv_unique [OF inv _ *(2) _ *(3)] keys(2,3) *(4) by blast
  have here: "\<forall>h k v. map_table m ! i = Present_Entry h k v \<longrightarrow> key_equals_function m key k"
    using * by simp
  have "mset (table_items ((map_table m)[i := delete_entry (map_table m ! i)])) =
      mset (table_items [delete_entry (map_table m ! i)]) +
      filter_mset (\<lambda>(k, _). \<not> key_equals_function m key k) (mset (table_items (map_table m)))"
    using table_items_write [of i "map_table m" "key_equals_function m key", unfolded len, OF *(2) only here] .
  then have items: "mset (map_items (igt_map_remove_entry m (Some i))) =
      filter_mset (\<lambda>(k, _). \<not> key_equals_function m key k) (mset (map_items m))"
    by (simp add: map_items_def igt_map_remove_entry_def)
  have "removed m key (igt_map_remove_entry m (Some i))"
    unfolding removed_def using remove_entry_inv [OF inv *(2)] *(3) items by simp
  moreover have "map_abs m key = Some v" using map_abs_Some [OF inv] map_items_iff [OF inv] * by blast
  ultimately show ?thesis using * by simp
next
  assume *: "igt_map_search_entry m key = Some None"
    "\<forall>i<map_size m. \<forall>h k v. map_table m ! i = Present_Entry h k v \<longrightarrow> \<not> key_equals_function m key k"
  then have no: "\<forall>(k, v) \<in> set (map_items m). \<not> key_equals_function m key k"
    using map_items_iff [OF inv] by blast
  then have "map_abs m key = None" using map_abs_None [OF inv] by blast
  moreover have "removed m key (igt_map_remove_entry m None)"
    using filter_disjoint_keys [OF no] inv by (simp add: removed_def igt_map_remove_entry_def)
  ultimately show ?thesis using * by simp
qed

lemma igt_map_remove_correct:
  assumes "table_inv m"
  shows "\<exists>m'. igt_map_remove m key False = Some (m', None) \<and> removed m key m'"
  using remove_entry_correct [OF assms, of key] by (auto simp: igt_map_remove_def)

text \<open>With a delete function the key has to be in the map, or the call faults.\<close>

lemma igt_map_remove_delete_function:
  assumes "table_inv m"
  shows "(case map_abs m key of
      None \<Rightarrow> igt_map_remove m key True = None
    | Some v \<Rightarrow> \<exists>m'. igt_map_remove m key True = Some (m', Some v) \<and> removed m key m')"
proof -
  obtain r where r: "igt_map_search_entry m key = Some r" "removed m key (igt_map_remove_entry m r)"
    "map_abs m key = (case r of None \<Rightarrow> None | Some i \<Rightarrow> entry_data (map_table m ! i))"
    using remove_entry_correct [OF assms] by blast
  show ?thesis
  proof (cases r)
    case None
    then show ?thesis using r by (simp add: igt_map_remove_def)
  next
    case (Some i)
    have "map_table m ! i \<noteq> Free_Entry"
      using search_entry_cases [OF assms, of key] r(1) Some by auto
    then have "entry_data (map_table m ! i) \<noteq> None" by (cases "map_table m ! i") auto
    then show ?thesis using r Some by (auto simp: igt_map_remove_def)
  qed
qed

lemma removed_map_inv: "map_inv m \<Longrightarrow> removed m key m' \<Longrightarrow> map_inv m'"
  by (simp add: map_inv_def removed_def)


text \<open>\<open>igt_map_random_entry\<close> returns a present entry that satisfies the predicate whenever there
  is one, whatever \<open>random()\<close> returns.\<close>

lemma find_ok_cases: "find P xs = None \<longleftrightarrow> (\<forall>x\<in>set xs. \<not> P x)" "find P xs = Some x \<Longrightarrow> x \<in> set xs \<and> P x"
  by (induction xs) (auto split: if_splits)

lemma igt_map_random_entry_correct:
  assumes inv: "table_inv m"
  shows "(case igt_map_random_entry m r predicate of
      Some j \<Rightarrow> j < map_size m \<and> entry_is_present (map_table m ! j) \<and> predicate (map_table m ! j)
    | None \<Rightarrow> \<forall>j<map_size m. entry_is_present (map_table m ! j) \<longrightarrow> \<not> predicate (map_table m ! j))"
proof -
  let ?i = "r mod map_size m" and ?P = "\<lambda>j. entry_is_present (map_table m ! j) \<and> predicate (map_table m ! j)"
  have i: "?i < map_size m" using sizes_okD(4) [OF table_invD(1) [OF inv]] by simp
  have split: "j < map_size m \<Longrightarrow> j \<in> set [?i..<map_size m] \<or> j \<in> set [0..<?i]" for j by auto
  show ?thesis
  proof (cases "map_entries m = 0")
    case True
    have "\<not> entry_is_present (map_table m ! j)" if "j < map_size m" for j
      using True table_invD(3,5) [OF inv] that by (simp add: filter_empty_conv)
    then show ?thesis using True by (simp add: igt_map_random_entry_def)
  next
    case False
    show ?thesis
    proof (cases "find ?P [?i..<map_size m]")
      case (Some j)
      from find_ok_cases(2) [OF Some] show ?thesis
        using False Some by (simp add: igt_map_random_entry_def Let_def)
    next
      case None
      note up = find_ok_cases(1) [THEN iffD1, OF None]
      show ?thesis
      proof (cases "find ?P [0..<?i]")
        case (Some j)
        from find_ok_cases(2) [OF Some] i show ?thesis
          using False None Some by (simp add: igt_map_random_entry_def Let_def)
      next
        case none: None
        note down = find_ok_cases(1) [THEN iffD1, OF none]
        have "igt_map_random_entry m r predicate = None"
          using False None none by (simp add: igt_map_random_entry_def Let_def)
        moreover have "\<not> ?P j" if "j < map_size m" for j using split [OF that] up down by blast
        ultimately show ?thesis by simp
      qed
    qed
  qed
qed

subsection \<open>The interface\<close>

text \<open>An insertion whose result pointer the caller ignores, and a removal without a delete
  function.\<close>

definition map_put :: "('k, 'v) igt_map \<Rightarrow> 'k \<Rightarrow> 'v \<Rightarrow> ('k, 'v) igt_map option" where
  "map_put m key data = map_option fst (igt_map_insert True m key data)"

definition map_drop :: "('k, 'v) igt_map \<Rightarrow> 'k \<Rightarrow> ('k, 'v) igt_map option" where
  "map_drop m key = do { r \<leftarrow> igt_map_search_entry m key; Some (igt_map_remove_entry m r) }"

text \<open>
  What the allocator code relies on: a finite map with a total search, given by its contents as a
  multiset of pairs in which no two keys are equal. The contents can grow up to \<open>2 ^ 16\<close> entries.
\<close>

locale finite_map_api =
  fixes inv :: "'m \<Rightarrow> bool"
    and eq :: "'k \<Rightarrow> 'k \<Rightarrow> bool"
    and items :: "'m \<Rightarrow> ('k \<times> 'v) multiset"
    and search :: "'m \<Rightarrow> 'k \<Rightarrow> 'v option option"
    and put :: "'m \<Rightarrow> 'k \<Rightarrow> 'v \<Rightarrow> 'm option"
    and drop :: "'m \<Rightarrow> 'k \<Rightarrow> 'm option"
  assumes eq_refl: "eq a a"
    and eq_sym: "eq a b \<Longrightarrow> eq b a"
    and eq_trans: "eq a b \<Longrightarrow> eq b c \<Longrightarrow> eq a c"
    and single: "inv m \<Longrightarrow> (k, v) \<in># items m \<Longrightarrow> eq q k \<Longrightarrow> filter_mset (\<lambda>(k', _). eq q k') (items m) = {#(k, v)#}"
    and search_items: "inv m \<Longrightarrow> \<exists>r. search m q = Some r \<and> (\<forall>v. r = Some v \<longleftrightarrow> (\<exists>k. (k, v) \<in># items m \<and> eq q k))"
    and put_items: "inv m \<Longrightarrow> size (items m) < 2 ^ 16 \<Longrightarrow> \<exists>m'. put m q v = Some m' \<and> inv m' \<and>
          items m' = add_mset (q, v) (filter_mset (\<lambda>(k, _). \<not> eq q k) (items m))"
    and drop_items: "inv m \<Longrightarrow> \<exists>m'. drop m q = Some m' \<and> inv m' \<and>
          items m' = filter_mset (\<lambda>(k, _). \<not> eq q k) (items m)"
begin

lemma search_total: "inv m \<Longrightarrow> \<exists>r. search m q = Some r"
  using search_items by blast

lemma search_Some_iff: "inv m \<Longrightarrow> search m q = Some (Some v) \<longleftrightarrow> (\<exists>k. (k, v) \<in># items m \<and> eq q k)"
  using search_items [of m q] by auto

lemma search_None_iff: "inv m \<Longrightarrow> search m q = Some None \<longleftrightarrow> (\<forall>k v. (k, v) \<in># items m \<longrightarrow> \<not> eq q k)"
proof -
  assume "inv m"
  then obtain r where "search m q = Some r" "\<forall>v. r = Some v \<longleftrightarrow> (\<exists>k. (k, v) \<in># items m \<and> eq q k)"
    using search_items by blast
  then show ?thesis by (cases r) (auto, blast)
qed

lemma search_cong:
  assumes inv: "inv m" "inv m'"
    and same: "\<And>w. (\<exists>k. (k, w) \<in># items m' \<and> eq q k) \<longleftrightarrow> (\<exists>k. (k, w) \<in># items m \<and> eq q k)"
  shows "search m' q = search m q"
proof -
  obtain r r' where r: "search m q = Some r" "search m' q = Some r'"
    using search_total [OF inv(1)] search_total [OF inv(2)] by blast
  have "search m' q = Some (Some w) \<longleftrightarrow> search m q = Some (Some w)" for w
    using same [of w] by (simp add: search_Some_iff inv)
  then have "r' = Some w \<longleftrightarrow> r = Some w" for w by (simp add: r)
  then have "r' = r" by (metis option.exhaust)
  then show ?thesis by (simp add: r)
qed

lemma search_put:
  assumes "inv m" "put m q v = Some m'" "size (items m) < 2 ^ 16"
  shows "search m' q' = (if eq q q' then Some (Some v) else search m q')"
proof -
  have m': "inv m'" "items m' = add_mset (q, v) (filter_mset (\<lambda>(k, _). \<not> eq q k) (items m))"
    using put_items [OF assms(1,3), of q v] assms(2) by auto
  show ?thesis
  proof (cases "eq q q'")
    case True
    then have "(q, v) \<in># items m' \<and> eq q' q" using m'(2) eq_sym by simp
    then have "search m' q' = Some (Some v)" using search_Some_iff [OF m'(1)] by blast
    with True show ?thesis by simp
  next
    case False
    have apart: "\<not> eq q' q" "\<not> (eq q' k \<and> eq q k)" for k using False eq_sym eq_trans by blast+
    have "(\<exists>k. (k, w) \<in># items m' \<and> eq q' k) \<longleftrightarrow> (\<exists>k. (k, w) \<in># items m \<and> eq q' k)" for w
      unfolding m'(2) using apart by auto
    from search_cong [OF assms(1) m'(1) this] False show ?thesis by simp
  qed
qed

lemma search_drop:
  assumes "inv m" "drop m q = Some m'"
  shows "search m' q' = (if eq q q' then Some None else search m q')"
proof -
  have m': "inv m'" "items m' = filter_mset (\<lambda>(k, _). \<not> eq q k) (items m)"
    using drop_items [OF assms(1), of q] assms(2) by auto
  show ?thesis
  proof (cases "eq q q'")
    case True
    then have "\<not> eq q' k" if "(k, w) \<in># items m'" for k w
      using that eq_trans unfolding m'(2) by auto
    then have "search m' q' = Some None" using search_None_iff [OF m'(1)] by blast
    with True show ?thesis by simp
  next
    case False
    have apart: "\<not> eq q' q" "\<not> (eq q' k \<and> eq q k)" for k using False eq_sym eq_trans by blast+
    have "(\<exists>k. (k, w) \<in># items m' \<and> eq q' k) \<longleftrightarrow> (\<exists>k. (k, w) \<in># items m \<and> eq q' k)" for w
      unfolding m'(2) using apart by auto
    from search_cong [OF assms(1) m'(1) this] False show ?thesis by simp
  qed
qed

text \<open>The contents after adding a new key, and after dropping one that is there.\<close>

lemma put_new_items:
  assumes "inv m" "search m q = Some None" "size (items m) < 2 ^ 16"
  shows "\<exists>m'. put m q v = Some m' \<and> inv m' \<and> items m' = add_mset (q, v) (items m)"
proof -
  have "filter_mset (\<lambda>(k, _). \<not> eq q k) (items m) = filter_mset (\<lambda>_. True) (items m)"
    using assms search_None_iff by (intro filter_mset_cong) auto
  then show ?thesis using put_items [OF assms(1,3), of q v] by auto
qed

lemma drop_found_items:
  assumes "inv m" "search m q = Some (Some v)"
  shows "\<exists>m' k. drop m q = Some m' \<and> inv m' \<and> eq q k \<and> items m = add_mset (k, v) (items m')"
proof -
  obtain k where k: "(k, v) \<in># items m" "eq q k" using assms search_Some_iff by blast
  have "items m = filter_mset (\<lambda>(k', _). eq q k') (items m) + filter_mset (\<lambda>(k', _). \<not> eq q k') (items m)"
    by (subst multiset_partition [of _ "\<lambda>(k', _). eq q k'"]) (simp add: case_prod_unfold)
  then show ?thesis using drop_items [OF assms(1), of q] k single [OF assms(1) k] by auto
qed

end

text \<open>The model provides it, for any pair of key functions that agree.\<close>

definition map_of_keys :: "('k \<Rightarrow> u32) \<Rightarrow> ('k \<Rightarrow> 'k \<Rightarrow> bool) \<Rightarrow> ('k, 'v) igt_map \<Rightarrow> bool" where
  "map_of_keys hf eqf m \<longleftrightarrow> map_inv m \<and> hash_function m = hf \<and> key_equals_function m = eqf"

definition map_contents :: "('k, 'v) igt_map \<Rightarrow> ('k \<times> 'v) multiset" where
  "map_contents m = mset (map_items m)"

lemma distinct_keys_single:
  "keys_ok hf eq \<Longrightarrow> distinct_keys eq xs \<Longrightarrow> (k, v) \<in> set xs \<Longrightarrow> eq q k \<Longrightarrow> filter (\<lambda>(k', _). eq q k') xs = [(k, v)]"
proof (induction eq xs rule: distinct_keys.induct)
  case (2 eq k0 v0 xs)
  have keys: "eq a b \<Longrightarrow> eq b a" "eq a b \<Longrightarrow> eq b c \<Longrightarrow> eq a c" for a b c
    using keys_okD [OF "2.prems"(1)] by blast+
  have new: "\<forall>(k', v') \<in> set xs. \<not> eq k' k0 \<and> \<not> eq k0 k'" and rest: "distinct_keys eq xs"
    using "2.prems"(2) by auto
  show ?case
  proof (cases "(k, v) = (k0, v0)")
    case True
    have "\<forall>(k', v') \<in> set xs. \<not> eq q k'" using new "2.prems"(4) True keys by blast
    then show ?thesis using True "2.prems"(4) by (auto simp: filter_empty_conv)
  next
    case False
    then have "(k, v) \<in> set xs" using "2.prems"(3) by auto
    moreover from this have "\<not> eq q k0" using new "2.prems"(4) keys by blast
    ultimately show ?thesis using "2.IH" "2.prems"(1,4) rest by simp
  qed
qed simp


lemma map_contents_single:
  assumes "map_of_keys hf eqf m" "keys_ok hf eqf" "(k, v) \<in># map_contents m" "eqf q k"
  shows "filter_mset (\<lambda>(k', _). eqf q k') (map_contents m) = {#(k, v)#}"
proof -
  have "distinct_keys eqf (map_items m)"
    using assms(1) table_inv_distinct_keys [of m] by (auto simp: map_of_keys_def map_inv_def)
  then have "filter (\<lambda>(k', _). eqf q k') (map_items m) = [(k, v)]"
    using distinct_keys_single [OF assms(2) _ _ assms(4)] assms(3) by (simp add: map_contents_def)
  then show ?thesis unfolding map_contents_def by (metis mset.simps mset_filter)
qed

lemma map_entries_size: "table_inv m \<Longrightarrow> size (map_contents m) = map_entries m"
  by (simp add: map_contents_def map_items_def length_table_items table_invD(3))

lemma map_put_items:
  assumes m: "map_of_keys hf eqf m" and small: "size (map_contents m) < 2 ^ 16"
  shows "\<exists>m'. map_put m q v = Some m' \<and> map_of_keys hf eqf m' \<and>
    map_contents m' = add_mset (q, v) (filter_mset (\<lambda>(k, _). \<not> eqf q k) (map_contents m))"
proof -
  have inv: "map_inv m" "table_inv m" using m by (auto simp: map_of_keys_def map_inv_def)
  have "map_entries m < 2 ^ 16" using small map_entries_size [OF inv(2)] by simp
  from igt_map_insert_correct [OF inv(1) this, of q v] show ?thesis
    using m by (auto simp: map_put_def map_of_keys_def map_contents_def inserted_def)
qed

lemma map_drop_items:
  assumes m: "map_of_keys hf eqf m"
  shows "\<exists>m'. map_drop m q = Some m' \<and> map_of_keys hf eqf m' \<and>
    map_contents m' = filter_mset (\<lambda>(k, _). \<not> eqf q k) (map_contents m)"
proof -
  have inv: "map_inv m" "table_inv m" using m by (auto simp: map_of_keys_def map_inv_def)
  obtain r where r: "igt_map_search_entry m q = Some r" "removed m q (igt_map_remove_entry m r)"
    using remove_entry_correct [OF inv(2)] by blast
  have "map_inv (igt_map_remove_entry m r)" using removed_map_inv [OF inv(1) r(2)] .
  then show ?thesis using m r by (auto simp: map_drop_def map_of_keys_def map_contents_def removed_def)
qed

lemma map_search_items:
  assumes m: "map_of_keys hf eqf m"
  shows "\<exists>r. igt_map_search m q = Some r \<and> (\<forall>v. r = Some v \<longleftrightarrow> (\<exists>k. (k, v) \<in># map_contents m \<and> eqf q k))"
proof -
  have "table_inv m" "key_equals_function m = eqf" using m by (auto simp: map_of_keys_def map_inv_def)
  then show ?thesis using search_correct [of m q] map_abs_Some [of m q] by (simp add: map_contents_def)
qed

lemma map_api:
  assumes keys: "keys_ok hf eqf"
  shows "finite_map_api (map_of_keys hf eqf) eqf map_contents igt_map_search map_put map_drop"
proof unfold_locales
  show "eqf a a" "eqf a b \<Longrightarrow> eqf b a" "eqf a b \<Longrightarrow> eqf b c \<Longrightarrow> eqf a c" for a b c
    using keys_okD [OF keys] by blast+
qed (erule map_contents_single [OF _ keys] map_search_items map_put_items map_drop_items; assumption)+

lemma keys_ok_32: "keys_ok igt_map_hash_32 igt_map_equal_32"
  by (auto simp: keys_ok_def igt_map_equal_32_def)

lemma keys_ok_64: "keys_ok igt_map_hash_64 igt_map_equal_64"
  by (auto simp: keys_ok_def igt_map_equal_64_def)

interpretation map_32: finite_map_api "map_of_keys igt_map_hash_32 igt_map_equal_32" igt_map_equal_32
  map_contents igt_map_search map_put map_drop
  by (rule map_api [OF keys_ok_32])

interpretation map_64: finite_map_api "map_of_keys igt_map_hash_64 igt_map_equal_64" igt_map_equal_64
  map_contents igt_map_search map_put map_drop
  by (rule map_api [OF keys_ok_64])

lemma map_of_keys_create:
  "keys_ok hf eqf \<Longrightarrow> map_of_keys hf eqf (igt_map_create hf eqf) \<and> map_contents (igt_map_create hf eqf) = {#}"
  by (simp add: map_of_keys_def map_contents_def igt_map_create_correct)

text \<open>What \<open>igt_map_foreach\<close> visits, as the contents.\<close>

lemma foreach_contents:
  assumes "map_of_keys hf eqf m"
  shows "mset (table_items (map (\<lambda>i. map_table m ! i) (igt_map_foreach m))) = map_contents m"
proof -
  have "length (map_table m) = map_size m"
    using assms by (auto simp: map_of_keys_def map_inv_def dest: table_invD)
  from igt_map_foreach_items [OF this] show ?thesis by (simp add: map_contents_def)
qed

text \<open>Searching for an entry and removing it: what a client that works on the entry sees.\<close>

lemma search_entry_abs:
  assumes m: "map_of_keys hf eqf m"
  shows "(map_abs m q = None \<and> igt_map_search_entry m q = Some None) \<or>
    (\<exists>i v. map_abs m q = Some v \<and> igt_map_search_entry m q = Some (Some i) \<and>
       entry_data (map_table m ! i) = Some v \<and> map_drop m q = Some (igt_map_remove_entry m (Some i)))"
proof -
  have inv: "table_inv m" using m by (auto simp: map_of_keys_def map_inv_def)
  obtain r where r: "igt_map_search_entry m q = Some r"
    "map_abs m q = (case r of None \<Rightarrow> None | Some i \<Rightarrow> entry_data (map_table m ! i))"
    using remove_entry_correct [OF inv] by blast
  show ?thesis
  proof (cases r)
    case None
    then show ?thesis using r by simp
  next
    case (Some i)
    then have "\<exists>v. entry_data (map_table m ! i) = Some v"
      using search_entry_cases [OF inv, of q] r(1) by auto
    then show ?thesis using r Some by (auto simp: map_drop_def)
  qed
qed

text \<open>The interface in terms of the lookup function \<open>map_abs\<close>.\<close>

lemma map_search_abs: "map_of_keys hf eqf m \<Longrightarrow> igt_map_search m q = Some (map_abs m q)"
  by (rule search_correct) (auto simp: map_of_keys_def map_inv_def)

lemma map_abs_Some_contents:
  "map_of_keys hf eqf m \<Longrightarrow> map_abs m q = Some v \<longleftrightarrow> (\<exists>k. (k, v) \<in># map_contents m \<and> eqf q k)"
  using map_abs_Some [of m q v] by (auto simp: map_of_keys_def map_inv_def map_contents_def)

lemma map_put_new:
  assumes keys: "keys_ok hf eqf" and m: "map_of_keys hf eqf m" and "size (map_contents m) < 2 ^ 16"
    and "map_abs m q = None"
  shows "\<exists>m'. map_put m q v = Some m' \<and> map_of_keys hf eqf m' \<and>
    map_contents m' = add_mset (q, v) (map_contents m) \<and>
    map_abs m' = (\<lambda>q'. if eqf q q' then Some v else map_abs m q')"
proof -
  note api = map_api [OF keys]
  obtain m' where m': "map_put m q v = Some m'" "map_of_keys hf eqf m'"
    "map_contents m' = add_mset (q, v) (map_contents m)"
    using finite_map_api.put_new_items [OF api m _ assms(3)] map_search_abs [OF m] assms(4) by metis
  have "igt_map_search m' q' = (if eqf q q' then Some (Some v) else igt_map_search m q')" for q'
    by (rule finite_map_api.search_put [OF api m m'(1) assms(3)])
  then have "map_abs m' q' = (if eqf q q' then Some v else map_abs m q')" for q'
    using map_search_abs [OF m, of q'] map_search_abs [OF m'(2), of q'] by (simp split: if_splits)
  with m' show ?thesis by blast
qed

lemma map_drop_found:
  assumes keys: "keys_ok hf eqf" and m: "map_of_keys hf eqf m" and "map_abs m q = Some v"
  shows "\<exists>m' k. map_drop m q = Some m' \<and> map_of_keys hf eqf m' \<and> eqf q k \<and>
    map_contents m = add_mset (k, v) (map_contents m') \<and>
    map_abs m' = (\<lambda>q'. if eqf q q' then None else map_abs m q')"
proof -
  note api = map_api [OF keys]
  obtain m' k where m': "map_drop m q = Some m'" "map_of_keys hf eqf m'" "eqf q k"
    "map_contents m = add_mset (k, v) (map_contents m')"
    using finite_map_api.drop_found_items [OF api m] map_search_abs [OF m] assms(3) by metis
  have "igt_map_search m' q' = (if eqf q q' then Some None else igt_map_search m q')" for q'
    by (rule finite_map_api.search_drop [OF api m m'(1)])
  then have "map_abs m' q' = (if eqf q q' then None else map_abs m q')" for q'
    using map_search_abs [OF m, of q'] map_search_abs [OF m'(2), of q'] by (simp split: if_splits)
  with m' show ?thesis by blast
qed

text \<open>Removal with a delete function, for a key that is in the map.\<close>

lemma map_remove_found:
  assumes keys: "keys_ok hf eqf" and m: "map_of_keys hf eqf m" and v: "map_abs m q = Some v"
  shows "\<exists>m' k. igt_map_remove m q True = Some (m', Some v) \<and> map_of_keys hf eqf m' \<and> eqf q k \<and>
    map_contents m = add_mset (k, v) (map_contents m') \<and>
    map_abs m' = (\<lambda>q'. if eqf q q' then None else map_abs m q')"
proof -
  obtain i where i: "igt_map_search_entry m q = Some (Some i)" "entry_data (map_table m ! i) = Some v"
    "map_drop m q = Some (igt_map_remove_entry m (Some i))"
    using search_entry_abs [OF m, of q] v by auto
  then have "igt_map_remove m q True = Some (igt_map_remove_entry m (Some i), Some v)"
    by (simp add: igt_map_remove_def)
  then show ?thesis using map_drop_found [OF keys m v] i(3) by auto
qed

lemma map_abs_create: "keys_ok hf eqf \<Longrightarrow> map_abs (igt_map_create hf eqf) = (\<lambda>_. None)"
  by (auto simp: map_abs_def igt_map_create_correct)

text \<open>What \<open>igt_map_foreach\<close> visits, as data.\<close>

definition foreach_data :: "('k, 'v) igt_map \<Rightarrow> 'v list" where
  "foreach_data m = List.map_filter entry_data (map (\<lambda>i. map_table m ! i) (igt_map_foreach m))"

lemma foreach_data_contents:
  assumes "map_of_keys hf eqf m"
  shows "mset (foreach_data m) = image_mset snd (map_contents m)"
proof -
  have len: "length (map_table m) = map_size m"
    using assms by (auto simp: map_of_keys_def map_inv_def dest: table_invD)
  have "List.map_filter entry_data (filter entry_is_present t) = map snd (table_items t)"
    for t :: "('k, 'v) igt_map_entry list"
    by (induction t rule: table_items.induct) (auto simp: map_filter_simps)
  then have "foreach_data m = map snd (map_items m)"
    unfolding foreach_data_def igt_map_foreach_entries [OF len] map_items_def .
  then show ?thesis by (simp add: map_contents_def mset_map)
qed


subsection \<open>Properties\<close>

lemma map_inv_keys: "map_inv m \<Longrightarrow> map_of_keys (hash_function m) (key_equals_function m) m"
  by (simp add: map_of_keys_def)

lemma map_inv_keys_ok: "map_inv m \<Longrightarrow> keys_ok (hash_function m) (key_equals_function m)"
  by (simp add: map_inv_def table_invD)

lemma map_inv_table: "map_inv m \<Longrightarrow> table_inv m"
  by (simp add: map_inv_def)

text \<open>A map with two entries, for the examples.\<close>

definition example_map :: "(u32, nat) igt_map" where
  "example_map = the (do {
     m \<leftarrow> map_put (igt_map_create igt_map_hash_32 igt_map_equal_32) 1 10;
     map_put m 2 20
   })"

lemma example_map:
  "map_inv example_map" "hash_function example_map = igt_map_hash_32"
  "key_equals_function example_map = igt_map_equal_32"
  "map_abs example_map = [1 \<mapsto> 10, 2 \<mapsto> 20]" "map_entries example_map = 2"
proof -
  let ?e = "igt_map_create igt_map_hash_32 igt_map_equal_32 :: (u32, nat) igt_map"
  have e: "map_of_keys igt_map_hash_32 igt_map_equal_32 ?e" "map_contents ?e = {#}" "map_abs ?e = (\<lambda>_. None)"
    by (simp_all add: map_of_keys_create map_abs_create keys_ok_32)
  obtain m1 where m1: "map_put ?e 1 10 = Some m1" "map_of_keys igt_map_hash_32 igt_map_equal_32 m1"
    "map_contents m1 = {#(1, 10)#}" "map_abs m1 = [1 \<mapsto> 10]"
    using map_put_new [OF keys_ok_32 e(1), of 1 10] e by (auto simp: fun_eq_iff igt_map_equal_32_def)
  obtain m2 where m2: "map_put m1 2 20 = Some m2" "map_of_keys igt_map_hash_32 igt_map_equal_32 m2"
    "map_contents m2 = {#(2, 20), (1, 10)#}" "map_abs m2 = [1 \<mapsto> 10, 2 \<mapsto> 20]"
    using map_put_new [OF keys_ok_32 m1(2), of 2 20] m1(3,4) by (auto simp: fun_eq_iff igt_map_equal_32_def)
  have ex: "example_map = m2" using m1(1) m2(1) by (simp add: example_map_def)
  show "map_inv example_map" "hash_function example_map = igt_map_hash_32"
    "key_equals_function example_map = igt_map_equal_32" "map_abs example_map = [1 \<mapsto> 10, 2 \<mapsto> 20]"
    using m2(2,4) by (simp_all add: ex map_of_keys_def)
  show "map_entries example_map = 2"
    using map_entries_size [of m2] m2(2,3) by (simp add: ex map_of_keys_def map_inv_def)
qed

text \<open>C9: \<open>igt_map_search\<close> always returns, and returns the data of the entry with an equal key, or
  NULL when there is none.\<close>

theorem map_search_is_lookup:
  assumes "map_inv m"
  shows "igt_map_search m key = Some (map_abs m key) \<and>
    (\<forall>v. map_abs m key = Some v \<longleftrightarrow> (\<exists>k. (k, v) \<in> set (map_items m) \<and> key_equals_function m key k))"
  using search_correct [OF map_inv_table [OF assms]] map_abs_Some [OF map_inv_table [OF assms]] by blast

theorem map_search_is_lookup_witness:
  "igt_map_search example_map 2 = Some (Some 20) \<and> igt_map_search example_map 3 = Some None"
  using map_search_is_lookup [OF example_map(1), of 2] map_search_is_lookup [OF example_map(1), of 3]
  by (simp add: example_map(4))

text \<open>C10: With memory available, \<open>igt_map_insert\<close> returns the entry it wrote and acts on the lookup
  function as a map update, whether the key is new, replaced, or the insertion resizes or rehashes
  the table; the invariant is kept. This holds for maps that grow up to \<open>2 ^ 16\<close> entries.\<close>

theorem map_insert_is_update:
  assumes inv: "map_inv m" and small: "map_entries m < 2 ^ 16"
  shows "\<exists>m' i. igt_map_insert True m key data = Some (m', Some i) \<and> map_inv m' \<and>
    map_table m' ! i = Present_Entry (hash_function m key) key data \<and>
    map_abs m' = (\<lambda>q. if key_equals_function m key q then Some data else map_abs m q)"
proof -
  obtain m' i where m': "igt_map_insert True m key data = Some (m', Some i)" "map_inv m'" "inserted m key data m' i"
    using igt_map_insert_correct [OF assms] by blast
  have put: "map_put m key data = Some m'" by (simp add: map_put_def m'(1))
  have "size (map_contents m) < 2 ^ 16" using small map_entries_size [OF map_inv_table [OF inv]] by simp
  from finite_map_api.search_put [OF map_api [OF map_inv_keys_ok [OF inv]] map_inv_keys [OF inv] put this]
  have "map_abs m' q = (if key_equals_function m key q then Some data else map_abs m q)" for q
    using map_search_abs [OF map_inv_keys [OF inv], of q] map_search_abs [OF map_inv_keys [OF m'(2)], of q]
    by (simp split: if_splits)
  then show ?thesis using m' by (auto simp: inserted_def)
qed

theorem map_insert_is_update_witness:
  "\<exists>m' i. igt_map_insert True example_map 2 25 = Some (m', Some i) \<and> map_abs m' 2 = Some 25 \<and>
     map_abs m' 1 = Some 10"
  using map_insert_is_update [OF example_map(1), of 2 25]
  by (auto simp: example_map igt_map_equal_32_def)

text \<open>C11: \<open>igt_map_remove\<close> without a delete function acts on the lookup function as a map deletion, for
  keys that are in the map and keys that are not.\<close>

theorem map_remove_is_deletion:
  assumes inv: "map_inv m"
  shows "\<exists>m'. igt_map_remove m key False = Some (m', None) \<and> map_inv m' \<and>
    map_abs m' = (\<lambda>q. if key_equals_function m key q then None else map_abs m q)"
proof -
  obtain m' where m': "igt_map_remove m key False = Some (m', None)" "removed m key m'"
    using igt_map_remove_correct [OF map_inv_table [OF inv], of key] by blast
  have inv': "map_inv m'" using removed_map_inv [OF inv m'(2)] .
  have drop: "map_drop m key = Some m'"
    using m'(1) by (auto simp: igt_map_remove_def map_drop_def split: bind_splits)
  from finite_map_api.search_drop [OF map_api [OF map_inv_keys_ok [OF inv]] map_inv_keys [OF inv] drop]
  have "map_abs m' q = (if key_equals_function m key q then None else map_abs m q)" for q
    using map_search_abs [OF map_inv_keys [OF inv], of q] map_search_abs [OF map_inv_keys [OF inv'], of q]
    by (simp split: if_splits)
  then show ?thesis using m'(1) inv' by auto
qed

theorem map_remove_is_deletion_witness:
  "\<exists>m'. igt_map_remove example_map 1 False = Some (m', None) \<and> map_abs m' 1 = None \<and> map_abs m' 2 = Some 20"
  using map_remove_is_deletion [OF example_map(1), of 1] by (auto simp: example_map igt_map_equal_32_def)

text \<open>\<open>igt_map_remove\<close> with a delete function hands it the data of the entry; when the key is not in
  the map the code calls the function with a NULL entry, which every delete function of the library
  dereferences.\<close>

theorem map_remove_absent_key_faults:
  assumes "map_inv m"
  shows "(igt_map_remove m key True = None \<longleftrightarrow> map_abs m key = None) \<and>
    (\<forall>v. map_abs m key = Some v \<longrightarrow> (\<exists>m'. igt_map_remove m key True = Some (m', Some v) \<and> map_inv m'))"
  using igt_map_remove_delete_function [OF map_inv_table [OF assms], of key] removed_map_inv [OF assms]
  by (auto split: option.splits)

theorem map_remove_absent_key_faults_witness:
  "igt_map_remove example_map 3 True = None \<and> (\<exists>m'. igt_map_remove example_map 1 True = Some (m', Some 10))"
  using map_remove_absent_key_faults [OF example_map(1), of 3] map_remove_absent_key_faults [OF example_map(1), of 1]
  by (auto simp: example_map(4))

text \<open>C12: \<open>igt_map_rehash\<close> into a table of any of the certified sizes that can hold the entries loses no
  entry and changes none: the lookup function is the same, and the tombstones are gone.\<close>

theorem map_rehash_keeps_contents:
  assumes inv: "map_inv m" and i: "i < certified" and room: "map_entries m \<le> fst (hash_sizes ! i)"
  shows "\<exists>m'. igt_map_rehash (igt_map_insert_pre_hashed (Suc d) True) True m i = Some m' \<and> map_inv m' \<and>
    mset (map_items m') = mset (map_items m) \<and> map_abs m' = map_abs m \<and>
    map_deleted_entries m' = 0 \<and> map_entries m' = map_entries m \<and> map_size_index m' = i"
proof -
  note tinv = map_inv_table [OF inv]
  obtain m' where m': "igt_map_rehash (igt_map_insert_pre_hashed (Suc d) True) True m i = Some m'" "table_inv m'"
    "map_deleted_entries m' = 0" "hash_function m' = hash_function m" "key_equals_function m' = key_equals_function m"
    "map_size_index m' = i" "map_max_entries m' = fst (hash_sizes ! i)" "mset (map_items m') = mset (map_items m)"
    using rehash_correct [of "igt_map_insert_pre_hashed (Suc d) True", OF insert_no_resize tinv i room] by blast
  have n: "map_entries m' = map_entries m"
    using map_entries_size [OF m'(2)] map_entries_size [OF tinv] m'(8) by (simp add: map_contents_def)
  then have inv': "map_inv m'" using m' room by (simp add: map_inv_def)
  have "set (map_items m') = set (map_items m)" using m'(8) by (metis set_mset_mset)
  then have "map_abs m' q = Some v \<longleftrightarrow> map_abs m q = Some v" for q v
    by (simp add: map_abs_Some [OF m'(2)] map_abs_Some [OF tinv] m'(5))
  then have "map_abs m' = map_abs m" by (metis ext option.exhaust)
  with m' n inv' show ?thesis by blast
qed

theorem map_rehash_keeps_contents_witness:
  "\<exists>m'. igt_map_rehash (igt_map_insert_pre_hashed 1 True) True example_map 3 = Some m' \<and>
     map_abs m' 2 = Some 20 \<and> map_size_index m' = 3"
proof -
  have "map_entries example_map \<le> fst (hash_sizes ! 3)" by (simp add: example_map(5) hash_sizes_def)
  from map_rehash_keeps_contents [OF example_map(1) _ this, of 0] show ?thesis
    by (auto simp: example_map(4) certified_def)
qed

text \<open>The probe sequence of search and insert visits every slot exactly once before it is back at its
  start (the table size is prime), so both loops end, and a free slot is always found.\<close>

theorem map_probes_visit_every_slot:
  assumes "map_inv m"
  shows "bij_betw (\<lambda>n. (next_hash_address m hash ^^ n) (start_hash_address m hash)) {..<map_size m} {..<map_size m} \<and>
    (next_hash_address m hash ^^ map_size m) (start_hash_address m hash) = start_hash_address m hash"
proof -
  have ok: "sizes_ok m" using table_invD(1) [OF map_inv_table [OF assms]] .
  have p: "(next_hash_address m hash ^^ n) (start_hash_address m hash) = probe m hash n" for n
    by (induction n) (simp_all add: probe_0 [OF ok] next_probe [OF ok])
  have "bij_betw (probe m hash) {..<map_size m} {..<map_size m}"
    unfolding bij_betw_def using probe_less [OF ok] probe_onto [OF ok, of _ hash] probe_inj [OF ok, of _ _ hash]
    by (force simp: inj_on_def)
  then show ?thesis using probe_size [OF ok, of hash] by (simp add: p probe_0 [OF ok])
qed

theorem map_probes_visit_every_slot_witness:
  "bij_betw (\<lambda>n. (next_hash_address example_map 5 ^^ n) (start_hash_address example_map 5))
     {..<map_size example_map} {..<map_size example_map}"
  using map_probes_visit_every_slot [OF example_map(1), of 5] by blast

text \<open>\<open>igt_map_foreach\<close> visits each entry of the map exactly once, in increasing slot order.\<close>

theorem map_foreach_visits_each_entry:
  assumes "map_inv m"
  shows "sorted_wrt (<) (igt_map_foreach m) \<and>
    set (igt_map_foreach m) = {i. i < map_size m \<and> entry_is_present (map_table m ! i)} \<and>
    table_items (map (\<lambda>i. map_table m ! i) (igt_map_foreach m)) = map_items m \<and>
    length (igt_map_foreach m) = map_entries m"
proof -
  note tinv = map_inv_table [OF assms]
  have "length (map (\<lambda>i. map_table m ! i) (igt_map_foreach m)) = map_entries m"
    unfolding igt_map_foreach_entries [OF table_invD(5) [OF tinv]] using table_invD(3) [OF tinv] by simp
  then show ?thesis
    using igt_map_foreach_items [OF table_invD(5) [OF tinv]]
    by (auto simp: igt_map_foreach_eq sorted_wrt_filter)
qed

theorem map_foreach_visits_each_entry_witness: "length (igt_map_foreach example_map) = 2"
  using map_foreach_visits_each_entry [OF example_map(1)] by (simp add: example_map(5))

text \<open>When the allocation of a larger table fails, an insertion still succeeds, in the old table, as
  long as one slot is not in use.\<close>

theorem map_insert_without_memory:
  assumes inv: "table_inv m" and room: "map_entries m < map_size m"
  shows "\<exists>m' i. igt_map_insert False m key data = Some (m', Some i) \<and> table_inv m' \<and>
    map_size m' = map_size m \<and> mset (map_items m') =
      add_mset (key, data) (filter_mset (\<lambda>(k, _). \<not> key_equals_function m key k) (mset (map_items m)))"
proof -
  have "igt_map_insert False m key data = insert_probe m (hash_function m key) key data"
    by (simp add: igt_map_insert_def igt_map_rehash_def numeral_eq_Suc)
  with insert_probe_correct [OF inv room, of key data] show ?thesis by (auto simp: inserted_def)
qed

theorem map_insert_without_memory_witness:
  "\<exists>m' i. igt_map_insert False example_map 3 30 = Some (m', Some i) \<and> table_inv m'"
proof -
  have "map_entries example_map < map_size example_map"
    using example_map(1) sizes_okD(2) [OF table_invD(1) [OF map_inv_table [OF example_map(1)]]]
    by (simp add: map_inv_def)
  from map_insert_without_memory [OF map_inv_table [OF example_map(1)] this, of 3 30] show ?thesis by blast
qed

end
