(* ===== verification/Igt_Macros.thy ===== *)
theory Igt_Macros
  imports Prelude
begin

unbundle bit_operations_syntax

text \<open>
  The address arithmetic macros the allocators use: \<open>ALIGN\<close> of \<open>lib/drmtest.h\<close>, and
  \<open>CANONICAL\<close> and \<open>DECANONICAL\<close> of \<open>lib/intel_allocator.h\<close> with \<open>sign_extend64\<close> of
  \<open>include/linux_scaffold.h\<close>, on 64-bit values; and what they compute, read in nat.
\<close>

definition ALIGN_MASK :: "u64 \<Rightarrow> u64 \<Rightarrow> u64" where
  "ALIGN_MASK v m = (v + m) AND NOT m"

definition ALIGN :: "u64 \<Rightarrow> u64 \<Rightarrow> u64" where
  "ALIGN v a = ALIGN_MASK v (a - 1)"

definition GEN8_GTT_ADDRESS_WIDTH :: nat where
  "GEN8_GTT_ADDRESS_WIDTH = 48"

text \<open>\<open>sign_extend64\<close>: the shift up is on the unsigned value, the shift down on the signed one.\<close>

definition sign_extend64 :: "u64 \<Rightarrow> nat \<Rightarrow> u64" where
  "sign_extend64 val index = (let shift = 63 - index in signed_drop_bit shift (push_bit shift val))"

definition CANONICAL :: "u64 \<Rightarrow> u64" where
  "CANONICAL offset = sign_extend64 offset (GEN8_GTT_ADDRESS_WIDTH - 1)"

definition DECANONICAL :: "u64 \<Rightarrow> u64" where
  "DECANONICAL offset = offset AND (push_bit GEN8_GTT_ADDRESS_WIDTH 1 - 1)"

subsection \<open>Canonical addresses\<close>

lemma DECANONICAL_take_bit: "DECANONICAL x = take_bit 48 x"
  by (simp add: DECANONICAL_def GEN8_GTT_ADDRESS_WIDTH_def take_bit_eq_mask mask_eq_exp_minus_1)

lemma DECANONICAL_less: "unat (DECANONICAL x) < 2 ^ 48"
  by (simp add: DECANONICAL_take_bit unsigned_take_bit_eq) (simp add: take_bit_eq_mod)

lemma DECANONICAL_idem [simp]: "DECANONICAL (DECANONICAL x) = DECANONICAL x"
  by (simp add: DECANONICAL_take_bit)

lemma DECANONICAL_small: "unat x < 2 ^ 48 \<Longrightarrow> DECANONICAL x = x"
  by (simp add: DECANONICAL_take_bit word_unat_eq_iff unsigned_take_bit_eq take_bit_nat_eq_self)

lemma bit_CANONICAL: "bit (CANONICAL x) n \<longleftrightarrow> n < 64 \<and> bit x (min n 47)"
  by (auto simp: CANONICAL_def sign_extend64_def GEN8_GTT_ADDRESS_WIDTH_def bit_signed_drop_bit_iff
      bit_push_bit_iff min_def split: if_splits)

text \<open>\<open>CANONICAL\<close> copies bit 47 upwards and keeps the low 48 bits.\<close>

lemma DECANONICAL_CANONICAL: "DECANONICAL (CANONICAL x) = DECANONICAL x"
  by (rule bit_word_eqI) (auto simp: DECANONICAL_take_bit bit_take_bit_iff bit_CANONICAL min_def)

lemma CANONICAL_DECANONICAL: "CANONICAL (DECANONICAL x) = CANONICAL x"
  by (rule bit_word_eqI) (auto simp: DECANONICAL_take_bit bit_take_bit_iff bit_CANONICAL min_def)

lemma CANONICAL_eq_iff: "CANONICAL x = CANONICAL y \<longleftrightarrow> DECANONICAL x = DECANONICAL y"
  by (metis CANONICAL_DECANONICAL DECANONICAL_CANONICAL)

subsection \<open>Alignment\<close>

lemma and_not_mask_nat:
  fixes x :: u64
  shows "unat (x AND NOT (mask k)) = unat x - unat x mod 2 ^ k"
proof -
  have "x AND NOT (mask k) = x - take_bit k x"
  proof -
    have "take_bit k x + (x AND NOT (mask k)) = take_bit k x OR (x AND NOT (mask k))"
      by (rule disjunctive_add) (auto simp: bit_simps)
    also have "\<dots> = x" by (rule bit_word_eqI) (auto simp: bit_simps)
    finally show ?thesis by (metis add_diff_cancel_left')
  qed
  moreover have "unat (take_bit k x) = unat x mod 2 ^ k"
    by (simp add: unsigned_take_bit_eq) (simp add: take_bit_eq_mod)
  moreover from this have "take_bit k x \<le> x" by (simp add: word_le_nat_alt)
  ultimately show ?thesis by (simp add: unat_sub)
qed

text \<open>\<open>ALIGN\<close> rounds up to the next multiple of a power of two when that multiple fits in 64
  bits.\<close>

lemma ALIGN_nat:
  assumes a: "unat a = 2 ^ k" and fits: "unat v + unat a \<le> 2 ^ 64"
  shows "unat (ALIGN v a) = (unat v + (2 ^ k - 1)) - (unat v + (2 ^ k - 1)) mod 2 ^ k"
proof -
  have "(2::nat) ^ k < 2 ^ 64" using a unat_u64_lt [of a] by simp
  then have k: "k < 64" by (rule power_less_imp_less_exp [rotated]) simp
  have "a = of_nat (unat a)" by simp
  then have "a = 2 ^ k" by (simp only: a of_nat_power of_nat_numeral)
  then have m: "a - 1 = mask k" by (simp add: mask_eq_exp_minus_1)
  have "unat (mask k :: u64) = 2 ^ k - 1"
    using a by (subst m [symmetric]) (simp add: unat_sub word_le_nat_alt)
  then have "unat (v + mask k) = unat v + (2 ^ k - 1)"
    using fits a by (subst unat_add_no_wrap) auto
  then show ?thesis by (simp add: ALIGN_def ALIGN_MASK_def m and_not_mask_nat)
qed

lemma ALIGN_least:
  assumes a: "unat a = 2 ^ k" and fits: "unat v + unat a \<le> 2 ^ 64"
  shows "unat a dvd unat (ALIGN v a)" "unat v \<le> unat (ALIGN v a)"
    "unat (ALIGN v a) < unat v + unat a"
    "\<And>w. unat a dvd w \<Longrightarrow> unat v \<le> w \<Longrightarrow> unat (ALIGN v a) \<le> w"
proof -
  define p :: nat where "p = 2 ^ k"
  have p: "0 < p" by (simp add: p_def)
  define n where "n = (unat v + (p - 1)) div p"
  have e: "unat (ALIGN v a) = n * p"
    using ALIGN_nat [OF assms] by (simp add: n_def p_def minus_mod_eq_div_mult)
  show "unat a dvd unat (ALIGN v a)" by (simp add: e a p_def)
  have "(unat v + (p - 1)) mod p < p" using p by simp
  then have lo: "unat v + (p - 1) < n * p + p"
    unfolding n_def by (metis add_less_cancel_left div_mult_mod_eq)
  then show ge: "unat v \<le> unat (ALIGN v a)" using p by (simp add: e)
  have "n * p \<le> unat v + (p - 1)" unfolding n_def by (metis div_times_less_eq_dividend)
  then show "unat (ALIGN v a) < unat v + unat a"
    unfolding e a p_def [symmetric] using p by simp
  show "unat (ALIGN v a) \<le> w" if w: "unat a dvd w" "unat v \<le> w" for w
  proof -
    obtain q where q: "w = q * p" using w(1) by (auto simp: a p_def dvd_def mult.commute)
    have "n * p < (q + 1) * p"
      using \<open>n * p \<le> unat v + (p - 1)\<close> w(2) p by (simp add: q)
    then have "n < q + 1" by (rule mult_less_cancel2 [THEN iffD1, THEN conjunct2])
    then show ?thesis by (simp add: e q)
  qed
qed

subsection \<open>Properties\<close>

text \<open>The canonical form of an address copies bit 47 into the upper bits and keeps the lower 48;
  \<open>CANONICAL\<close> and \<open>DECANONICAL\<close> undo each other up to the upper bits, so two addresses have the same
  canonical form exactly when their lower 48 bits agree.\<close>

theorem canonical_roundtrip:
  "(bit (CANONICAL x) n \<longleftrightarrow> n < 64 \<and> bit x (min n 47)) \<and>
   DECANONICAL (CANONICAL x) = DECANONICAL x \<and> CANONICAL (DECANONICAL x) = CANONICAL x \<and>
   (CANONICAL x = CANONICAL y \<longleftrightarrow> DECANONICAL x = DECANONICAL y)"
  by (simp add: bit_CANONICAL DECANONICAL_CANONICAL CANONICAL_DECANONICAL CANONICAL_eq_iff)

end
