(* ===== verification/Simple_Vma_Heap.thy ===== *)
theory Simple_Vma_Heap
  imports Prelude
begin

text \<open>
  The free-space manager of the SIMPLE allocator: \<open>struct simple_vma_heap\<close> of
  \<open>lib/intel_allocator_simple.c\<close>, an ordered list of free holes of the 64-bit address
  space. The hole list is the C list read from \<open>heap->holes.next\<close> on, so its head is the
  top-most hole. Offsets and sizes are 64-bit words; the arithmetic of the code is kept as it
  is written, wrap-around included.

  The lemmas relate the heap to the set of free addresses it stands for: every operation keeps
  the ordering invariant that \<open>simple_vma_heap_validate\<close> asserts, \<open>free\<close> adds exactly the
  freed range, the allocating operations remove exactly the allocated range, and a failed
  allocation means that no suitable range is free.
\<close>

subsection \<open>Data\<close>

text \<open>\<open>enum allocator_strategy\<close>\<close>

datatype allocator_strategy =
  ALLOC_STRATEGY_NONE | ALLOC_STRATEGY_LOW_TO_HIGH | ALLOC_STRATEGY_HIGH_TO_LOW

text \<open>\<open>struct simple_vma_hole\<close> and \<open>struct simple_vma_heap\<close>\<close>

record simple_vma_hole =
  hole_offset :: u64
  hole_size :: u64

record simple_vma_heap =
  heap_holes :: "simple_vma_hole list"
  heap_strategy :: allocator_strategy

subsection \<open>Operations\<close>

text \<open>The loop of \<open>simple_vma_heap_validate\<close>: \<open>None\<close> for the top-most hole, \<open>Some\<close>
  of the previous hole's offset after it.\<close>

fun validate_holes :: "u64 option \<Rightarrow> simple_vma_hole list \<Rightarrow> unit option" where
  "validate_holes prev [] = Some ()"
| "validate_holes prev (hole # hs) = do {
     igt_assert (hole_size hole > 0);
     (case prev of
        None \<Rightarrow> igt_assert (hole_size hole + hole_offset hole = 0 \<or>
                           hole_size hole + hole_offset hole > hole_offset hole)
      | Some prev_offset \<Rightarrow>
          igt_assert (hole_size hole + hole_offset hole > hole_offset hole \<and>
                      hole_size hole + hole_offset hole < prev_offset));
     validate_holes (Some (hole_offset hole)) hs
   }"

definition simple_vma_heap_validate :: "simple_vma_heap \<Rightarrow> unit option" where
  "simple_vma_heap_validate heap = validate_holes None (heap_holes heap)"

text \<open>
  \<open>simple_vma_heap_free\<close>. The search loop stops at the first hole with
  \<open>hole->offset <= offset\<close>: the holes before it are \<open>highs\<close> (the last of them is
  \<open>high_hole\<close>), the rest is \<open>lows\<close> (its head is \<open>low_hole\<close>).
\<close>

definition simple_vma_heap_free ::
  "simple_vma_heap \<Rightarrow> u64 \<Rightarrow> u64 \<Rightarrow> simple_vma_heap option" where
  "simple_vma_heap_free heap offset sz = do {
     igt_assert (sz > 0);
     igt_assert (offset + sz = 0 \<or> offset + sz > offset);
     simple_vma_heap_validate heap;
     let highs = takeWhile (\<lambda>hole. \<not> hole_offset hole \<le> offset) (heap_holes heap);
     let lows = dropWhile (\<lambda>hole. \<not> hole_offset hole \<le> offset) (heap_holes heap);
     let high_adjacent = (highs \<noteq> [] \<and> offset + sz = hole_offset (last highs));
     igt_assert (highs \<noteq> [] \<longrightarrow> offset + sz \<le> hole_offset (last highs));
     igt_assert (lows \<noteq> [] \<longrightarrow>
       hole_offset (hd lows) + hole_size (hd lows) > hole_offset (hd lows));
     igt_assert (lows \<noteq> [] \<longrightarrow> hole_offset (hd lows) + hole_size (hd lows) \<le> offset);
     let low_adjacent = (lows \<noteq> [] \<and> hole_offset (hd lows) + hole_size (hd lows) = offset);
     let heap' = heap\<lparr>heap_holes :=
       (if low_adjacent \<and> high_adjacent then
          butlast highs @
          (hd lows)\<lparr>hole_size := hole_size (hd lows) + (sz + hole_size (last highs))\<rparr> # tl lows
        else if low_adjacent then
          highs @ (hd lows)\<lparr>hole_size := hole_size (hd lows) + sz\<rparr> # tl lows
        else if high_adjacent then
          butlast highs @
          (last highs)\<lparr>hole_offset := offset, hole_size := hole_size (last highs) + sz\<rparr> # lows
        else
          highs @ \<lparr>hole_offset = offset, hole_size = sz\<rparr> # lows)\<rparr>;
     simple_vma_heap_validate heap';
     Some heap'
   }"

definition simple_vma_heap_init :: "u64 \<Rightarrow> u64 \<Rightarrow> allocator_strategy \<Rightarrow> simple_vma_heap option" where
  "simple_vma_heap_init start sz strategy = do {
     heap \<leftarrow> simple_vma_heap_free
       \<lparr>heap_holes = [], heap_strategy = ALLOC_STRATEGY_NONE\<rparr> start sz;
     Some (heap\<lparr>heap_strategy :=
       (if strategy = ALLOC_STRATEGY_LOW_TO_HIGH then strategy
        else ALLOC_STRATEGY_HIGH_TO_LOW)\<rparr>)
   }"

text \<open>\<open>simple_vma_hole_alloc\<close> edits the list around the hole; the model returns the
  holes (high to low) that take the place of \<open>hole\<close>.\<close>

definition simple_vma_hole_alloc ::
  "simple_vma_hole \<Rightarrow> u64 \<Rightarrow> u64 \<Rightarrow> simple_vma_hole list option" where
  "simple_vma_hole_alloc hole offset sz = do {
     igt_assert (hole_offset hole \<le> offset);
     igt_assert (hole_size hole \<ge> offset - hole_offset hole + sz);
     if offset = hole_offset hole \<and> sz = hole_size hole then Some []
     else do {
       igt_assert (offset - hole_offset hole \<le> hole_size hole - sz);
       let waste = (hole_size hole - sz) - (offset - hole_offset hole);
       if waste = 0 then Some [hole\<lparr>hole_size := hole_size hole - sz\<rparr>]
       else if offset = hole_offset hole then
         Some [hole\<lparr>hole_offset := hole_offset hole + sz, hole_size := hole_size hole - sz\<rparr>]
       else Some [\<lparr>hole_offset = offset + sz, hole_size = waste\<rparr>,
                  hole\<lparr>hole_size := offset - hole_offset hole\<rparr>]
     }
   }"

text \<open>
  The two loops of \<open>simple_vma_heap_alloc\<close>, each over the holes in the order it visits
  them: \<open>Some off\<close> and the edited list when a hole was used, \<open>None\<close> and the list as it was
  when the loop ran to the end.
\<close>

fun alloc_high_to_low ::
  "u64 \<Rightarrow> u64 \<Rightarrow> simple_vma_hole list \<Rightarrow> (u64 option \<times> simple_vma_hole list) option" where
  "alloc_high_to_low sz alignment [] = Some (None, [])"
| "alloc_high_to_low sz alignment (hole # hs) =
     (if sz > hole_size hole then
        map_option (apsnd ((#) hole)) (alloc_high_to_low sz alignment hs)
      else
        let offset = (hole_size hole - sz) + hole_offset hole;
            offset = (offset div alignment) * alignment
        in if offset < hole_offset hole then
             map_option (apsnd ((#) hole)) (alloc_high_to_low sz alignment hs)
           else
             map_option (\<lambda>new. (Some offset, new @ hs)) (simple_vma_hole_alloc hole offset sz))"

text \<open>The reverse walk: the list argument is the hole list from low to high, and so is the
  list returned.\<close>

fun alloc_low_to_high ::
  "u64 \<Rightarrow> u64 \<Rightarrow> simple_vma_hole list \<Rightarrow> (u64 option \<times> simple_vma_hole list) option" where
  "alloc_low_to_high sz alignment [] = Some (None, [])"
| "alloc_low_to_high sz alignment (hole # hs) =
     (if sz > hole_size hole then
        map_option (apsnd ((#) hole)) (alloc_low_to_high sz alignment hs)
      else
        let misalign = hole_offset hole mod alignment;
            pad = alignment - misalign
        in if misalign \<noteq> 0 \<and> pad > hole_size hole - sz then
             map_option (apsnd ((#) hole)) (alloc_low_to_high sz alignment hs)
           else
             let offset = (if misalign \<noteq> 0 then hole_offset hole + pad else hole_offset hole)
             in map_option (\<lambda>new. (Some offset, rev new @ hs))
                  (simple_vma_hole_alloc hole offset sz))"

text \<open>\<open>simple_vma_heap_alloc\<close>: \<open>Some off\<close> when it returns true with \<open>*offset = off\<close>,
  \<open>None\<close> when it returns false.\<close>

definition simple_vma_heap_alloc ::
  "simple_vma_heap \<Rightarrow> u64 \<Rightarrow> u64 \<Rightarrow> allocator_strategy \<Rightarrow> (u64 option \<times> simple_vma_heap) option"
where
  "simple_vma_heap_alloc heap sz alignment strategy = do {
     igt_assert (sz > 0);
     igt_assert (alignment > 0);
     simple_vma_heap_validate heap;
     igt_assert (strategy \<in> {ALLOC_STRATEGY_NONE, ALLOC_STRATEGY_LOW_TO_HIGH,
                              ALLOC_STRATEGY_HIGH_TO_LOW});
     let strategy = (if strategy = ALLOC_STRATEGY_NONE then heap_strategy heap else strategy);
     r \<leftarrow> (if strategy = ALLOC_STRATEGY_HIGH_TO_LOW then
             alloc_high_to_low sz alignment (heap_holes heap)
           else
             map_option (apsnd rev) (alloc_low_to_high sz alignment (rev (heap_holes heap))));
     (case r of
        (None, _) \<Rightarrow> Some (None, heap)
      | (Some offset, hs) \<Rightarrow> do {
          let heap' = heap\<lparr>heap_holes := hs\<rparr>;
          simple_vma_heap_validate heap';
          Some (Some offset, heap')
        })
   }"

text \<open>\<open>simple_vma_heap_alloc_addr\<close>: the loop skips the holes that start above \<open>offset\<close>
  and decides on the first other one.\<close>

fun alloc_addr_holes ::
  "u64 \<Rightarrow> u64 \<Rightarrow> simple_vma_hole list \<Rightarrow> (bool \<times> simple_vma_hole list) option" where
  "alloc_addr_holes offset sz [] = Some (False, [])"
| "alloc_addr_holes offset sz (hole # hs) =
     (if hole_offset hole > offset then
        map_option (apsnd ((#) hole)) (alloc_addr_holes offset sz hs)
      else if hole_size hole < offset - hole_offset hole + sz then Some (False, hole # hs)
      else map_option (\<lambda>new. (True, new @ hs)) (simple_vma_hole_alloc hole offset sz))"

definition simple_vma_heap_alloc_addr ::
  "simple_vma_heap \<Rightarrow> u64 \<Rightarrow> u64 \<Rightarrow> (bool \<times> simple_vma_heap) option" where
  "simple_vma_heap_alloc_addr heap offset sz = do {
     igt_assert (sz > 0);
     igt_assert (offset + sz = 0 \<or> offset + sz > offset);
     (ok, hs) \<leftarrow> alloc_addr_holes offset sz (heap_holes heap);
     Some (ok, heap\<lparr>heap_holes := hs\<rparr>)
   }"

subsection \<open>What the hole list stands for\<close>

text \<open>The addresses of a hole, read in nat so that a hole may end at \<open>2 ^ 64\<close>.\<close>

definition hole_lo :: "simple_vma_hole \<Rightarrow> nat" where
  "hole_lo h = unat (hole_offset h)"

definition hole_hi :: "simple_vma_hole \<Rightarrow> nat" where
  "hole_hi h = unat (hole_offset h) + unat (hole_size h)"

definition free_addrs :: "simple_vma_hole list \<Rightarrow> nat set" where
  "free_addrs hs = (\<Union>h\<in>set hs. {hole_lo h..<hole_hi h})"

text \<open>The invariant: no empty hole, no hole past the end of the address space, and each hole
  ends strictly below the one before it (adjacent holes have been merged).\<close>

definition holes_inv :: "simple_vma_hole list \<Rightarrow> bool" where
  "holes_inv hs \<longleftrightarrow>
     (\<forall>h\<in>set hs. 0 < unat (hole_size h) \<and> hole_hi h \<le> 2 ^ 64) \<and>
     sorted_wrt (\<lambda>a b. hole_hi b < hole_lo a) hs"

lemmas hole_bounds = hole_lo_def hole_hi_def

lemma hole_sel_simps [simp]:
  "hole_lo \<lparr>hole_offset = a, hole_size = b\<rparr> = unat a"
  "hole_hi \<lparr>hole_offset = a, hole_size = b\<rparr> = unat a + unat b"
  by (simp_all add: hole_bounds)

lemma free_addrs_simps [simp]:
  "free_addrs [] = {}"
  "free_addrs (h # hs) = {hole_lo h..<hole_hi h} \<union> free_addrs hs"
  "free_addrs (xs @ ys) = free_addrs xs \<union> free_addrs ys"
  "free_addrs (rev xs) = free_addrs xs"
  by (auto simp: free_addrs_def)

lemma holes_inv_Nil [simp]: "holes_inv []"
  by (simp add: holes_inv_def)

lemma holes_inv_Cons:
  "holes_inv (h # hs) \<longleftrightarrow>
     0 < unat (hole_size h) \<and> hole_hi h \<le> 2 ^ 64 \<and> (\<forall>x\<in>set hs. hole_hi x < hole_lo h) \<and>
     holes_inv hs"
  by (auto simp: holes_inv_def)

lemma holes_inv_append:
  "holes_inv (xs @ ys) \<longleftrightarrow>
     holes_inv xs \<and> holes_inv ys \<and> (\<forall>x\<in>set xs. \<forall>y\<in>set ys. hole_hi y < hole_lo x)"
  by (auto simp: holes_inv_def sorted_wrt_append)

lemma holes_inv_lo_less_hi: "holes_inv hs \<Longrightarrow> h \<in> set hs \<Longrightarrow> hole_lo h < hole_hi h"
  by (auto simp: holes_inv_def hole_bounds)

lemma holes_inv_hi_le: "holes_inv hs \<Longrightarrow> h \<in> set hs \<Longrightarrow> hole_hi h \<le> 2 ^ 64"
  by (auto simp: holes_inv_def)

text \<open>The code's overflow tests, read in nat.\<close>

lemma range_test_iff:
  fixes off sz :: u64
  assumes "0 < unat sz"
  shows "off + sz = 0 \<or> off < off + sz \<longleftrightarrow> unat off + unat sz \<le> 2 ^ 64"
    and "off < off + sz \<longleftrightarrow> unat off + unat sz < 2 ^ 64"
proof -
  have lt: "unat off < 2 ^ 64" "unat sz < 2 ^ 64"
    using unat_u64_lt by simp_all
  have sum: "unat (off + sz) =
      (if unat off + unat sz < 2 ^ 64 then unat off + unat sz else unat off + unat sz - 2 ^ 64)"
    by (simp add: unat_plus_if')
  show "off < off + sz \<longleftrightarrow> unat off + unat sz < 2 ^ 64"
    using assms lt by (auto simp: word_less_nat_alt sum split: if_splits)
  have "off + sz = 0 \<longleftrightarrow> unat off + unat sz = 2 ^ 64"
    using assms lt by (auto simp: unat_eq_zero [symmetric] sum split: if_splits)
  with \<open>off < off + sz \<longleftrightarrow> unat off + unat sz < 2 ^ 64\<close>
  show "off + sz = 0 \<or> off < off + sz \<longleftrightarrow> unat off + unat sz \<le> 2 ^ 64"
    by auto
qed

lemma unat_range_end:
  fixes off sz :: u64
  shows "unat off + unat sz < 2 ^ 64 \<Longrightarrow> unat (off + sz) = unat off + unat sz"
  by (simp add: unat_plus_if')

lemma validate_holes_below:
  "validate_holes (Some p) hs = Some () \<longleftrightarrow>
     holes_inv hs \<and> (\<forall>h\<in>set hs. hole_hi h < unat p)"
proof (induction hs arbitrary: p)
  case Nil
  then show ?case by simp
next
  case (Cons h hs)
  let ?o = "hole_offset h" and ?s = "hole_size h"
  have test: "0 < ?s \<and> ?o < ?s + ?o \<and> ?s + ?o < p \<longleftrightarrow>
      0 < unat ?s \<and> hole_hi h < unat p" (is "?l = ?r")
  proof
    assume ?l
    then have "unat ?o + unat ?s < 2 ^ 64"
      using range_test_iff(2) [of ?s ?o] by (simp add: add.commute unat_gt_0_word)
    with \<open>?l\<close> show ?r
      using unat_range_end [of ?o ?s] by (simp add: hole_bounds word_less_nat_alt add.commute)
  next
    assume ?r
    then have lt: "unat ?o + unat ?s < 2 ^ 64"
      using unat_u64_lt [of p] by (simp add: hole_bounds)
    with \<open>?r\<close> show ?l
      using range_test_iff(2) [of ?s ?o] unat_range_end [OF lt]
      by (simp add: hole_bounds word_less_nat_alt add.commute)
  qed
  have hi: "0 < unat ?s \<Longrightarrow> hole_hi h < unat p \<Longrightarrow> hole_hi h \<le> 2 ^ 64"
    using unat_u64_lt [of p] by simp
  have lo: "hole_lo h \<le> hole_hi h" by (simp add: hole_bounds)
  have "validate_holes (Some p) (h # hs) = Some () \<longleftrightarrow>
      0 < ?s \<and> ?o < ?s + ?o \<and> ?s + ?o < p \<and> validate_holes (Some ?o) hs = Some ()"
    by auto
  also have "\<dots> \<longleftrightarrow> (0 < unat ?s \<and> hole_hi h < unat p) \<and> holes_inv hs \<and>
      (\<forall>x\<in>set hs. hole_hi x < hole_lo h)"
    unfolding Cons.IH using test by (auto simp: hole_lo_def)
  also have "\<dots> \<longleftrightarrow> holes_inv (h # hs) \<and> (\<forall>x\<in>set (h # hs). hole_hi x < unat p)"
    using hi lo by (auto simp: holes_inv_Cons dest: bspec)
  finally show ?case .
qed

lemma validate_iff: "simple_vma_heap_validate heap = Some () \<longleftrightarrow> holes_inv (heap_holes heap)"
proof (cases "heap_holes heap")
  case Nil
  then show ?thesis by (simp add: simple_vma_heap_validate_def)
next
  case (Cons h hs)
  show ?thesis
    using range_test_iff(1) [of "hole_size h" "hole_offset h"]
    by (auto simp: simple_vma_heap_validate_def Cons validate_holes_below holes_inv_Cons
          hole_bounds unat_gt_0_word add.commute)
qed

lemma validate_bind [simp]:
  "(simple_vma_heap_validate heap \<bind> f) = Some x \<longleftrightarrow>
     holes_inv (heap_holes heap) \<and> f () = Some x"
  using validate_iff [of heap] by (cases "simple_vma_heap_validate heap") auto

lemma validate_bind_inv:
  "holes_inv (heap_holes heap) \<Longrightarrow> (simple_vma_heap_validate heap \<bind> f) = f ()"
  using validate_iff [of heap] by simp

subsection \<open>Splitting a hole\<close>

definition within_holes :: "simple_vma_hole list \<Rightarrow> simple_vma_hole list \<Rightarrow> bool" where
  "within_holes new old \<longleftrightarrow>
     (\<forall>x\<in>set new. \<exists>y\<in>set old. hole_lo y \<le> hole_lo x \<and> hole_hi x \<le> hole_hi y)"

lemma within_holes_refl [simp]: "within_holes hs hs"
  by (auto simp: within_holes_def)

lemma within_holes_Cons: "within_holes new old \<Longrightarrow> within_holes (h # new) (h # old)"
  by (auto simp: within_holes_def)

lemma within_holes_first: "within_holes new [h] \<Longrightarrow> within_holes (new @ hs) (h # hs)"
  by (auto simp: within_holes_def)

lemma within_holes_rev [simp]:
  "within_holes (rev new) old = within_holes new old"
  "within_holes new (rev old) = within_holes new old"
  by (auto simp: within_holes_def)

lemma within_holes_above:
  "within_holes new old \<Longrightarrow> \<forall>y\<in>set old. b < hole_lo y \<Longrightarrow> \<forall>x\<in>set new. b < hole_lo x"
  by (force simp: within_holes_def)

lemma within_holes_below:
  "within_holes new old \<Longrightarrow> \<forall>y\<in>set old. hole_hi y < b \<Longrightarrow> \<forall>x\<in>set new. hole_hi x < b"
  by (force simp: within_holes_def)

text \<open>The spec of the allocation step: the range \<open>[off, off + n)\<close> leaves the free set, nothing
  else changes.\<close>

definition carves ::
  "simple_vma_hole list \<Rightarrow> nat \<Rightarrow> nat \<Rightarrow> simple_vma_hole list \<Rightarrow> bool" where
  "carves old off n new \<longleftrightarrow>
     holes_inv new \<and> within_holes new old \<and>
     free_addrs new = free_addrs old - {off..<off + n}"

lemma hole_alloc_carves:
  assumes sz: "0 < unat sz" and lo: "hole_lo h \<le> unat off"
    and hi: "unat off + unat sz \<le> hole_hi h" and top: "hole_hi h \<le> 2 ^ 64"
  shows "\<exists>new. simple_vma_hole_alloc h off sz = Some new \<and> carves [h] (unat off) (unat sz) new"
proof -
  obtain o' s' where h: "h = \<lparr>hole_offset = o', hole_size = s'\<rparr>"
    by (cases h) auto
  note lt = unat_u64_lt [of off] unat_u64_lt [of sz] unat_u64_lt [of o'] unat_u64_lt [of s']
  have le: "o' \<le> off" using lo by (simp add: h word_le_nat_alt)
  have d: "unat (off - o') = unat off - unat o'"
    using le by (simp add: unat_sub)
  have fits: "unat off - unat o' + unat sz \<le> unat s'"
    using lo hi by (simp add: h)
  have ds: "unat (off - o' + sz) = unat off - unat o' + unat sz"
    using fits lt by (simp add: unat_plus_if' d)
  have ss: "unat (s' - sz) = unat s' - unat sz"
    using fits by (simp add: unat_sub word_le_nat_alt)
  have w: "unat (s' - sz - (off - o')) = unat s' - unat sz - (unat off - unat o')"
    using fits by (simp add: unat_sub word_le_nat_alt d ss)
  have w0: "s' - sz - (off - o') = 0 \<longleftrightarrow> unat s' = unat sz + (unat off - unat o')"
    using fits by (simp add: unat_eq_zero [symmetric] w) linarith
  have os: "unat o' + unat sz < 2 ^ 64 \<Longrightarrow> unat (o' + sz) = unat o' + unat sz"
    by (rule unat_range_end)
  have es: "unat off + unat sz < 2 ^ 64 \<Longrightarrow> unat (off + sz) = unat off + unat sz"
    by (rule unat_range_end)
  have a1: "off - o' + sz \<le> s'" and a2: "off - o' \<le> s' - sz"
    using fits by (simp_all add: word_le_nat_alt ds d ss)
  have alloc: "simple_vma_hole_alloc h off sz =
     (if off = o' \<and> sz = s' then Some []
      else if s' - sz - (off - o') = 0 then Some [\<lparr>hole_offset = o', hole_size = s' - sz\<rparr>]
      else if off = o' then Some [\<lparr>hole_offset = o' + sz, hole_size = s' - sz\<rparr>]
      else Some [\<lparr>hole_offset = off + sz, hole_size = s' - sz - (off - o')\<rparr>,
                 \<lparr>hole_offset = o', hole_size = off - o'\<rparr>])"
    using le a1 a2 by (simp add: simple_vma_hole_alloc_def h Let_def)
  consider (all) "off = o'" "sz = s'"
    | (top) "\<not> (off = o' \<and> sz = s')" "unat s' = unat sz + (unat off - unat o')"
    | (bottom) "off = o'" "unat sz < unat s'"
    | (middle) "unat o' < unat off" "unat sz + (unat off - unat o') < unat s'"
    using fits le by (auto simp: word_le_nat_alt word_unat_eq_iff) linarith
  then show ?thesis
  proof cases
    case all
    then have r: "simple_vma_hole_alloc h off sz = Some []"
      unfolding alloc by simp
    show ?thesis unfolding r using all by (simp add: carves_def h within_holes_def)
  next
    case top
    then have o: "unat o' < unat off"
      using le by (auto simp: word_le_nat_alt word_unat_eq_iff)
    with top w0 have r: "simple_vma_hole_alloc h off sz =
        Some [\<lparr>hole_offset = o', hole_size = s' - sz\<rparr>]"
      unfolding alloc by simp
    show ?thesis unfolding r using top assms(4) sz o fits
      by (auto simp: carves_def h within_holes_def holes_inv_Cons ss)
  next
    case bottom
    then have n: "unat o' + unat sz < 2 ^ 64" "s' - sz - (off - o') \<noteq> 0" "sz \<noteq> s'"
      using top w0 by (auto simp: h)
    with bottom have r: "simple_vma_hole_alloc h off sz =
        Some [\<lparr>hole_offset = o' + sz, hole_size = s' - sz\<rparr>]"
      unfolding alloc by simp
    show ?thesis unfolding r using bottom assms(4) os [OF n(1)]
      by (auto simp: carves_def h within_holes_def holes_inv_Cons ss)
  next
    case middle
    then have n: "unat off + unat sz < 2 ^ 64" "s' - sz - (off - o') \<noteq> 0" "off \<noteq> o'"
      using top w0 by (auto simp: h)
    with middle have r: "simple_vma_hole_alloc h off sz =
        Some [\<lparr>hole_offset = off + sz, hole_size = s' - sz - (off - o')\<rparr>,
              \<lparr>hole_offset = o', hole_size = off - o'\<rparr>]"
      unfolding alloc by simp
    show ?thesis unfolding r using middle assms(4) sz es [OF n(1)]
      by (auto simp: carves_def h within_holes_def holes_inv_Cons w d)
  qed
qed

text \<open>Carving one hole of a list carves the list.\<close>

lemma carves_skip:
  assumes "holes_inv (h # hs)" "carves hs off n new" "\<exists>y\<in>set hs. hole_lo y \<le> off \<and> off + n \<le> hole_hi y"
  shows "carves (h # hs) off n (h # new)"
proof -
  from assms(1) have below: "\<forall>x\<in>set hs. hole_hi x < hole_lo h" by (simp add: holes_inv_Cons)
  with assms(2) have "\<forall>x\<in>set new. hole_hi x < hole_lo h"
    by (auto simp: carves_def dest: within_holes_below)
  moreover have "off + n < hole_lo h"
    using assms(3) below by (meson order.strict_trans1)
  ultimately show ?thesis
    using assms(1,2) by (auto simp: carves_def holes_inv_Cons within_holes_Cons)
qed

lemma carves_first:
  assumes "holes_inv (h # hs)" "carves [h] off n new" "hole_lo h \<le> off"
  shows "carves (h # hs) off n (new @ hs)"
proof -
  have le: "\<forall>x\<in>set new. hole_lo h \<le> hole_lo x"
    using assms(2) by (auto simp: carves_def within_holes_def)
  have below: "\<forall>y\<in>set hs. hole_hi y < hole_lo h"
    using assms(1) by (simp add: holes_inv_Cons)
  have "\<forall>x\<in>set new. \<forall>y\<in>set hs. hole_hi y < hole_lo x"
    using le below by (meson order.strict_trans2)
  moreover have "free_addrs hs \<inter> {off..<off + n} = {}"
    using below assms(3) by (force simp: free_addrs_def)
  ultimately show ?thesis
    using assms by (auto simp: carves_def holes_inv_append holes_inv_Cons within_holes_first)
qed

subsection \<open>Where a range fits\<close>

text \<open>\<open>a\<close> is a multiple of the alignment and \<open>[a, a + n)\<close> lies in one hole.\<close>

definition fits_in :: "simple_vma_hole list \<Rightarrow> nat \<Rightarrow> nat \<Rightarrow> nat \<Rightarrow> bool" where
  "fits_in hs al n a \<longleftrightarrow> al dvd a \<and> (\<exists>h\<in>set hs. hole_lo h \<le> a \<and> a + n \<le> hole_hi h)"

lemma fits_in_simps [simp]:
  "\<not> fits_in [] al n a"
  "fits_in (h # hs) al n a \<longleftrightarrow>
     (al dvd a \<and> hole_lo h \<le> a \<and> a + n \<le> hole_hi h) \<or> fits_in hs al n a"
  "fits_in (rev hs) al n a = fits_in hs al n a"
  by (auto simp: fits_in_def)

lemma holes_apart:
  assumes "holes_inv hs" "x \<in> set hs" "y \<in> set hs" "x \<noteq> y"
  shows "hole_hi x < hole_lo y \<or> hole_hi y < hole_lo x"
  using assms by (induction hs) (auto simp: holes_inv_Cons)

text \<open>Since adjacent holes are merged, a free range lies in one hole.\<close>

lemma free_range_in_one_hole:
  assumes inv: "holes_inv hs" and n: "0 < n" and sub: "{a..<a + n} \<subseteq> free_addrs hs"
  shows "\<exists>h\<in>set hs. hole_lo h \<le> a \<and> a + n \<le> hole_hi h"
proof -
  from n sub have "a \<in> free_addrs hs" by auto
  then obtain h where h: "h \<in> set hs" "hole_lo h \<le> a" "a < hole_hi h"
    by (auto simp: free_addrs_def)
  have "a + n \<le> hole_hi h"
  proof (rule ccontr)
    assume "\<not> ?thesis"
    then have "hole_hi h \<in> {a..<a + n}" using h by auto
    with sub obtain x where x: "x \<in> set hs" "hole_lo x \<le> hole_hi h" "hole_hi h < hole_hi x"
      by (auto simp: free_addrs_def)
    then have "x \<noteq> h" by auto
    with holes_apart [OF inv x(1) h(1)] x h show False by auto
  qed
  with h show ?thesis by blast
qed

lemma fits_in_iff_free:
  assumes "holes_inv hs" "0 < n"
  shows "fits_in hs al n a \<longleftrightarrow> al dvd a \<and> {a..<a + n} \<subseteq> free_addrs hs"
  using free_range_in_one_hole [OF assms, of a]
  by (auto simp: fits_in_def free_addrs_def)

lemma fits_in_low_high:
  assumes "holes_inv (h # hs)" "fits_in hs al n a" shows "a + n < hole_lo h"
  using assms by (auto simp: fits_in_def holes_inv_Cons intro: order.strict_trans1)

text \<open>The address the high-to-low loop computes in a hole is the highest that fits.\<close>

lemma high_offset_in_hole:
  fixes sz al :: u64
  assumes "0 < unat sz" "0 < unat al" "hole_hi h \<le> 2 ^ 64" "unat sz \<le> unat (hole_size h)"
  defines "off \<equiv> ((hole_size h - sz) + hole_offset h) div al * al"
  shows "unat al dvd unat off" and "unat off + unat sz \<le> hole_hi h"
    and "unat al dvd a \<Longrightarrow> a + unat sz \<le> hole_hi h \<Longrightarrow> a \<le> unat off"
proof -
  have sub: "unat (hole_size h - sz) = unat (hole_size h) - unat sz"
    using assms by (simp add: unat_sub word_le_nat_alt)
  have base: "unat ((hole_size h - sz) + hole_offset h) = hole_hi h - unat sz"
    using assms by (subst unat_range_end) (simp_all add: sub hole_hi_def)
  have le: "(hole_hi h - unat sz) div unat al * unat al \<le> hole_hi h - unat sz"
    by simp
  also have "\<dots> < 2 ^ 64" using assms by simp
  finally have off: "unat off = (hole_hi h - unat sz) div unat al * unat al"
    unfolding off_def by (subst unat_mult_no_wrap) (simp_all add: unat_div base)
  show "unat al dvd unat off" by (simp add: off)
  show "unat off + unat sz \<le> hole_hi h"
    unfolding off using le assms(4) hole_hi_def [of h] by linarith
  assume "unat al dvd a" "a + unat sz \<le> hole_hi h"
  then have "a = a div unat al * unat al" "a \<le> hole_hi h - unat sz" by auto
  then show "a \<le> unat off"
    unfolding off by (metis div_le_mono mult_le_mono1)
qed

text \<open>The address the low-to-high loop computes is the lowest multiple in the hole.\<close>

lemma low_offset_in_hole:
  fixes sz al :: u64
  assumes "0 < unat al" "hole_hi h \<le> 2 ^ 64" "unat sz \<le> unat (hole_size h)" "0 < unat sz"
  defines "mis \<equiv> hole_offset h mod al"
  defines "off \<equiv> (if mis \<noteq> 0 then hole_offset h + (al - mis) else hole_offset h)"
  shows "unat al dvd a \<Longrightarrow> hole_lo h \<le> a \<Longrightarrow> a + unat sz \<le> hole_hi h \<Longrightarrow>
      \<not> (mis \<noteq> 0 \<and> al - mis > hole_size h - sz)"
    and "\<not> (mis \<noteq> 0 \<and> al - mis > hole_size h - sz) \<Longrightarrow>
      unat al dvd unat off \<and> hole_lo h \<le> unat off \<and> unat off + unat sz \<le> hole_hi h \<and>
      (\<forall>a. unat al dvd a \<longrightarrow> hole_lo h \<le> a \<longrightarrow> unat off \<le> a)"
proof -
  let ?lo = "unat (hole_offset h)"
  have mis: "unat mis = ?lo mod unat al" by (simp add: mis_def unat_mod)
  have mis_lt: "unat mis < unat al" using assms(1) by (simp add: mis)
  have pad: "unat (al - mis) = unat al - unat mis"
    using mis_lt by (simp add: unat_sub word_le_nat_alt)
  have sub: "unat (hole_size h - sz) = unat (hole_size h) - unat sz"
    using assms by (simp add: unat_sub word_le_nat_alt)
  have mis0: "mis \<noteq> 0 \<longleftrightarrow> unat mis \<noteq> 0" by (simp add: unat_eq_zero)
  have next_mult: "?lo + (unat al - unat mis) \<le> a" if "unat al dvd a" "?lo \<le> a" "unat mis \<noteq> 0" for a
  proof -
    obtain k where a: "a = unat al * k" using \<open>unat al dvd a\<close> by auto
    have l: "?lo = unat al * (?lo div unat al) + unat mis" by (simp add: mis)
    have "unat al * (?lo div unat al) < unat al * k"
      using that l unfolding a by linarith
    then have "?lo div unat al < k" by simp
    then have "unat al * (?lo div unat al + 1) \<le> a" unfolding a by (intro mult_le_mono2) simp
    then show ?thesis using l mis_lt by (simp add: distrib_left)
  qed
  have test: "al - mis > hole_size h - sz \<longleftrightarrow> unat al - unat mis > unat (hole_size h) - unat sz"
    by (simp add: word_less_nat_alt pad sub)
  show "\<not> (mis \<noteq> 0 \<and> al - mis > hole_size h - sz)"
    if "unat al dvd a" "hole_lo h \<le> a" "a + unat sz \<le> hole_hi h"
    using next_mult [of a] that assms(3) by (auto simp: test mis0 hole_bounds)
  assume ok: "\<not> (mis \<noteq> 0 \<and> al - mis > hole_size h - sz)"
  show "unat al dvd unat off \<and> hole_lo h \<le> unat off \<and> unat off + unat sz \<le> hole_hi h \<and>
      (\<forall>a. unat al dvd a \<longrightarrow> hole_lo h \<le> a \<longrightarrow> unat off \<le> a)"
  proof (cases "mis = 0")
    case True
    then have "?lo mod unat al = 0" using mis by simp
    with True show ?thesis using assms(3) by (auto simp: off_def hole_bounds)
  next
    case False
    have p: "unat al - unat mis \<le> unat (hole_size h) - unat sz"
      using ok False by (simp add: test)
    then have "?lo + unat (al - mis) < 2 ^ 64"
      using assms(2,3,4) hole_hi_def [of h] unfolding pad by linarith
    then have "unat (hole_offset h + (al - mis)) = ?lo + (unat al - unat mis)"
      by (simp add: unat_range_end pad)
    then have off: "unat off = ?lo + (unat al - unat mis)" using False by (simp add: off_def)
    have "?lo + (unat al - unat mis) = unat al * (?lo div unat al + 1)"
      using mis_lt mult_div_mod_eq [of "unat al" ?lo] unfolding mis distrib_left by linarith
    then have "unat al dvd unat off" unfolding off by simp
    then show ?thesis
      using next_mult ok False assms(3) by (auto simp: off hole_bounds test mis0)
  qed
qed

subsection \<open>Allocation\<close>

declare alloc_high_to_low.simps [simp del] alloc_low_to_high.simps [simp del]
  alloc_addr_holes.simps [simp del]

lemma some_resultI:
  assumes "f = Some (Some off, hs)" "P off hs"
  shows "\<exists>r hs. f = Some (r, hs) \<and> (case r of None \<Rightarrow> Q hs | Some off \<Rightarrow> P off hs)"
  using assms by auto

lemma alloc_high_to_low_correct:
  assumes inv: "holes_inv hs" and sz: "0 < unat sz" and al: "0 < unat al"
  shows "\<exists>r hs'. alloc_high_to_low sz al hs = Some (r, hs') \<and>
     (case r of
        None \<Rightarrow> hs' = hs \<and> (\<forall>a. \<not> fits_in hs (unat al) (unat sz) a)
      | Some off \<Rightarrow> carves hs (unat off) (unat sz) hs' \<and>
          fits_in hs (unat al) (unat sz) (unat off) \<and>
          (\<forall>a. fits_in hs (unat al) (unat sz) a \<longrightarrow> a \<le> unat off))"
  using inv
proof (induction hs)
  case Nil
  then show ?case by (simp add: alloc_high_to_low.simps)
next
  case (Cons h hs)
  let ?off = "((hole_size h - sz) + hole_offset h) div al * al"
  have inv': "holes_inv hs" "hole_hi h \<le> 2 ^ 64" using Cons.prems by (simp_all add: holes_inv_Cons)
  from Cons.IH [OF inv'(1)] obtain r hs' where rec: "alloc_high_to_low sz al hs = Some (r, hs')"
    and spec: "case r of
        None \<Rightarrow> hs' = hs \<and> (\<forall>a. \<not> fits_in hs (unat al) (unat sz) a)
      | Some off \<Rightarrow> carves hs (unat off) (unat sz) hs' \<and>
          fits_in hs (unat al) (unat sz) (unat off) \<and>
          (\<forall>a. fits_in hs (unat al) (unat sz) a \<longrightarrow> a \<le> unat off)"
    by blast
  show ?case
  proof (cases "sz > hole_size h \<or> ?off < hole_offset h")
    case True
    then have step: "alloc_high_to_low sz al (h # hs) = Some (r, h # hs')"
      by (auto simp: alloc_high_to_low.simps rec Let_def)
    have no: "\<not> (unat al dvd a \<and> hole_lo h \<le> a \<and> a + unat sz \<le> hole_hi h)" for a
    proof
      assume a: "unat al dvd a \<and> hole_lo h \<le> a \<and> a + unat sz \<le> hole_hi h"
      then have s: "unat sz \<le> unat (hole_size h)" by (simp add: hole_bounds)
      then have "?off < hole_offset h" using True by (simp add: word_less_nat_alt)
      with a high_offset_in_hole(3) [OF sz al inv'(2) s, of a] show False
        by (simp add: word_less_nat_alt hole_lo_def)
    qed
    show ?thesis
    proof (cases r)
      case None
      with spec no show ?thesis by (simp add: step)
    next
      case (Some off)
      with spec have f: "fits_in hs (unat al) (unat sz) (unat off)"
        and c: "carves hs (unat off) (unat sz) hs'" by auto
      from f have "\<exists>y\<in>set hs. hole_lo y \<le> unat off \<and> unat off + unat sz \<le> hole_hi y"
        by (simp add: fits_in_def)
      from carves_skip [OF Cons.prems c this] show ?thesis
        using spec no by (auto simp: step Some)
    qed
  next
    case False
    then have s: "unat sz \<le> unat (hole_size h)" and lo: "hole_lo h \<le> unat ?off"
      by (simp_all add: word_less_nat_alt hole_lo_def)
    note off = high_offset_in_hole [OF sz al inv'(2) s]
    obtain new where new: "simple_vma_hole_alloc h ?off sz = Some new"
      and c: "carves [h] (unat ?off) (unat sz) new"
      using hole_alloc_carves [OF sz lo off(2) inv'(2)] by blast
    have step: "alloc_high_to_low sz al (h # hs) = Some (Some ?off, new @ hs)"
      using False new by (simp add: alloc_high_to_low.simps Let_def)
    have "a \<le> unat ?off" if "fits_in (h # hs) (unat al) (unat sz) a" for a
      using that off(3) [of a] fits_in_low_high [OF Cons.prems, of "unat al" "unat sz" a] lo by auto
    then show ?thesis
      using carves_first [OF Cons.prems c lo] off lo by (auto simp: step)
  qed
qed

text \<open>The reverse walk is stated for the list it visits, the reversed hole list.\<close>

lemma carves_rev_last:
  assumes "holes_inv (rev (h # hs))" "carves [h] off n new" "off + n \<le> hole_hi h"
  shows "carves (rev (h # hs)) off n (rev (rev new @ hs))"
proof -
  have above: "\<forall>y\<in>set hs. hole_hi h < hole_lo y"
    using assms(1) by (auto simp: holes_inv_append)
  have le: "\<forall>x\<in>set new. hole_hi x \<le> hole_hi h"
    using assms(2) by (auto simp: carves_def within_holes_def)
  have "\<forall>y\<in>set hs. \<forall>x\<in>set new. hole_hi x < hole_lo y"
    using le above by (meson order.strict_trans1)
  moreover have "free_addrs hs \<inter> {off..<off + n} = {}"
    using above assms(3) by (force simp: free_addrs_def)
  ultimately show ?thesis
    using assms by (auto simp: carves_def holes_inv_append within_holes_def)
qed

lemma carves_rev_skip:
  assumes "holes_inv (rev (h # hs))" "carves (rev hs) off n (rev new)"
    "\<exists>y\<in>set hs. hole_lo y \<le> off \<and> off + n \<le> hole_hi y"
  shows "carves (rev (h # hs)) off n (rev (h # new))"
proof -
  from assms(1) have above: "\<forall>x\<in>set hs. hole_hi h < hole_lo x" by (auto simp: holes_inv_append)
  with assms(2) have "\<forall>x\<in>set new. hole_hi h < hole_lo x"
    by (auto simp: carves_def dest: within_holes_above)
  moreover have "hole_hi h < off"
    using assms(3) above by (meson order.strict_trans2)
  ultimately show ?thesis
    using assms(1,2) by (auto simp: carves_def holes_inv_append within_holes_def)
qed

lemma alloc_low_to_high_correct:
  assumes inv: "holes_inv (rev hs)" and sz: "0 < unat sz" and al: "0 < unat al"
  shows "\<exists>r hs'. alloc_low_to_high sz al hs = Some (r, hs') \<and>
     (case r of
        None \<Rightarrow> hs' = hs \<and> (\<forall>a. \<not> fits_in hs (unat al) (unat sz) a)
      | Some off \<Rightarrow> carves (rev hs) (unat off) (unat sz) (rev hs') \<and>
          fits_in hs (unat al) (unat sz) (unat off) \<and>
          (\<forall>a. fits_in hs (unat al) (unat sz) a \<longrightarrow> unat off \<le> a))"
  using inv
proof (induction hs)
  case Nil
  then show ?case by (simp add: alloc_low_to_high.simps)
next
  case (Cons h hs)
  let ?mis = "hole_offset h mod al"
  let ?off = "if ?mis \<noteq> 0 then hole_offset h + (al - ?mis) else hole_offset h"
  let ?skip = "?mis \<noteq> 0 \<and> al - ?mis > hole_size h - sz"
  have inv': "holes_inv (rev hs)" "hole_hi h \<le> 2 ^ 64"
    and above: "\<forall>y\<in>set hs. hole_hi h < hole_lo y"
    using Cons.prems by (auto simp: holes_inv_append holes_inv_Cons)
  from Cons.IH [OF inv'(1)] obtain r hs' where rec: "alloc_low_to_high sz al hs = Some (r, hs')"
    and spec: "case r of
        None \<Rightarrow> hs' = hs \<and> (\<forall>a. \<not> fits_in hs (unat al) (unat sz) a)
      | Some off \<Rightarrow> carves (rev hs) (unat off) (unat sz) (rev hs') \<and>
          fits_in hs (unat al) (unat sz) (unat off) \<and>
          (\<forall>a. fits_in hs (unat al) (unat sz) a \<longrightarrow> unat off \<le> a)"
    by blast
  show ?case
  proof (cases "sz > hole_size h \<or> ?skip")
    case True
    then have step: "alloc_low_to_high sz al (h # hs) = Some (r, h # hs')"
      by (auto simp: alloc_low_to_high.simps rec Let_def)
    have no: "\<not> (unat al dvd a \<and> hole_lo h \<le> a \<and> a + unat sz \<le> hole_hi h)" for a
    proof
      assume a: "unat al dvd a \<and> hole_lo h \<le> a \<and> a + unat sz \<le> hole_hi h"
      then have s: "unat sz \<le> unat (hole_size h)" by (simp add: hole_bounds)
      then have ?skip using True by (simp add: word_less_nat_alt)
      with a low_offset_in_hole(1) [OF al inv'(2) s sz, of a] show False by blast
    qed
    show ?thesis
    proof (cases r)
      case None
      with spec no show ?thesis by (simp add: step)
    next
      case (Some off)
      with spec have f: "fits_in hs (unat al) (unat sz) (unat off)"
        and c: "carves (rev hs) (unat off) (unat sz) (rev hs')" by auto
      from f have "\<exists>y\<in>set hs. hole_lo y \<le> unat off \<and> unat off + unat sz \<le> hole_hi y"
        by (simp add: fits_in_def)
      from carves_rev_skip [OF Cons.prems c this] show ?thesis
        using spec no by (auto simp: step Some)
    qed
  next
    case False
    then have s: "unat sz \<le> unat (hole_size h)" and nskip: "\<not> ?skip"
      by (simp_all add: word_less_nat_alt)
    note off = low_offset_in_hole(2) [OF al inv'(2) s sz nskip]
    obtain new where new: "simple_vma_hole_alloc h ?off sz = Some new"
      and c: "carves [h] (unat ?off) (unat sz) new"
      using hole_alloc_carves [OF sz _ _ inv'(2), of ?off] off by blast
    have step: "alloc_low_to_high sz al (h # hs) = Some (Some ?off, rev new @ hs)"
      using False new by (auto simp: alloc_low_to_high.simps Let_def)
    have low: "unat ?off \<le> a" if "fits_in (h # hs) (unat al) (unat sz) a" for a
    proof (cases "fits_in hs (unat al) (unat sz) a")
      case True
      then have "hole_hi h < a" using above by (auto simp: fits_in_def intro: order.strict_trans2)
      with off show ?thesis by linarith
    next
      case False
      with that off show ?thesis by simp
    qed
    have "carves (rev (h # hs)) (unat ?off) (unat sz) (rev (rev new @ hs))"
      using carves_rev_last [OF Cons.prems c] off by blast
    moreover have "fits_in (h # hs) (unat al) (unat sz) (unat ?off)"
      unfolding fits_in_simps using off by blast
    ultimately show ?thesis
      by (intro some_resultI [OF step] conjI allI impI low)
  qed
qed

text \<open>
  The contract of the allocating loop: the heap is carved at an address where the range fits,
  the highest such address or the lowest one as the strategy says; the request fails only when
  the range fits nowhere.
\<close>

definition effective_strategy :: "simple_vma_heap \<Rightarrow> allocator_strategy \<Rightarrow> allocator_strategy" where
  "effective_strategy heap strategy =
     (if strategy = ALLOC_STRATEGY_NONE then heap_strategy heap else strategy)"

lemma carves_inv: "carves old off n new \<Longrightarrow> holes_inv new"
  by (simp add: carves_def)

lemma vma_heap_alloc_cases:
  assumes inv: "holes_inv (heap_holes heap)" and sz: "0 < unat sz" and al: "0 < unat al"
  shows "\<exists>r heap'. simple_vma_heap_alloc heap sz al strategy = Some (r, heap') \<and>
     (case r of
        None \<Rightarrow> heap' = heap \<and> (\<forall>a. \<not> fits_in (heap_holes heap) (unat al) (unat sz) a)
      | Some off \<Rightarrow>
          carves (heap_holes heap) (unat off) (unat sz) (heap_holes heap') \<and>
          heap_strategy heap' = heap_strategy heap \<and>
          fits_in (heap_holes heap) (unat al) (unat sz) (unat off) \<and>
          (\<forall>a. fits_in (heap_holes heap) (unat al) (unat sz) a \<longrightarrow>
             (if effective_strategy heap strategy = ALLOC_STRATEGY_HIGH_TO_LOW
              then a \<le> unat off else unat off \<le> a)))"
proof -
  have w: "sz > 0" "al > 0" using sz al by (simp_all add: unat_gt_0_word)
  have st: "strategy \<in> {ALLOC_STRATEGY_NONE, ALLOC_STRATEGY_LOW_TO_HIGH, ALLOC_STRATEGY_HIGH_TO_LOW}"
    by (cases strategy) auto
  show ?thesis
  proof (cases "effective_strategy heap strategy = ALLOC_STRATEGY_HIGH_TO_LOW")
    case True
    obtain r hs' where a: "alloc_high_to_low sz al (heap_holes heap) = Some (r, hs')"
      and spec: "case r of
        None \<Rightarrow> hs' = heap_holes heap \<and> (\<forall>a. \<not> fits_in (heap_holes heap) (unat al) (unat sz) a)
      | Some off \<Rightarrow> carves (heap_holes heap) (unat off) (unat sz) hs' \<and>
          fits_in (heap_holes heap) (unat al) (unat sz) (unat off) \<and>
          (\<forall>a. fits_in (heap_holes heap) (unat al) (unat sz) a \<longrightarrow> a \<le> unat off)"
      using alloc_high_to_low_correct [OF inv sz al] by blast
    have "simple_vma_heap_alloc heap sz al strategy =
      (case r of None \<Rightarrow> Some (None, heap)
       | Some off \<Rightarrow> Some (Some off, heap\<lparr>heap_holes := hs'\<rparr>))"
      using True spec w st inv
      by (auto simp: simple_vma_heap_alloc_def effective_strategy_def [symmetric] Let_def a
            igt_assert_def validate_bind_inv carves_inv split: option.splits)
    with True spec show ?thesis by (auto split: option.splits)
  next
    case False
    have inv': "holes_inv (rev (rev (heap_holes heap)))" using inv by simp
    obtain r hs' where a: "alloc_low_to_high sz al (rev (heap_holes heap)) = Some (r, hs')"
      and spec: "case r of
        None \<Rightarrow> hs' = rev (heap_holes heap) \<and>
          (\<forall>a. \<not> fits_in (rev (heap_holes heap)) (unat al) (unat sz) a)
      | Some off \<Rightarrow> carves (rev (rev (heap_holes heap))) (unat off) (unat sz) (rev hs') \<and>
          fits_in (rev (heap_holes heap)) (unat al) (unat sz) (unat off) \<and>
          (\<forall>a. fits_in (rev (heap_holes heap)) (unat al) (unat sz) a \<longrightarrow> unat off \<le> a)"
      using alloc_low_to_high_correct [OF inv' sz al] by blast
    have "simple_vma_heap_alloc heap sz al strategy =
      (case r of None \<Rightarrow> Some (None, heap)
       | Some off \<Rightarrow> Some (Some off, heap\<lparr>heap_holes := rev hs'\<rparr>))"
      using False spec w st inv
      by (auto simp: simple_vma_heap_alloc_def effective_strategy_def [symmetric] Let_def a
            igt_assert_def validate_bind_inv carves_inv split: option.splits)
    with False spec show ?thesis by (auto split: option.splits)
  qed
qed

lemma alloc_addr_holes_correct:
  assumes inv: "holes_inv hs" and sz: "0 < unat sz" and top: "unat off + unat sz < 2 ^ 64"
  shows "\<exists>hs'. alloc_addr_holes off sz hs = Some (fits_in hs 1 (unat sz) (unat off), hs') \<and>
     (if fits_in hs 1 (unat sz) (unat off) then carves hs (unat off) (unat sz) hs' else hs' = hs)"
  using inv
proof (induction hs)
  case Nil
  then show ?case by (simp add: alloc_addr_holes.simps)
next
  case (Cons h hs)
  have inv': "holes_inv hs" "hole_hi h \<le> 2 ^ 64" using Cons.prems by (simp_all add: holes_inv_Cons)
  show ?case
  proof (cases "hole_offset h > off")
    case True
    then have no: "\<not> hole_lo h \<le> unat off" by (simp add: hole_lo_def word_less_nat_alt)
    from Cons.IH [OF inv'(1)] obtain hs'
      where "alloc_addr_holes off sz hs = Some (fits_in hs 1 (unat sz) (unat off), hs')"
      and spec: "if fits_in hs 1 (unat sz) (unat off) then carves hs (unat off) (unat sz) hs'
        else hs' = hs" by blast
    then have step: "alloc_addr_holes off sz (h # hs) =
        Some (fits_in hs 1 (unat sz) (unat off), h # hs')"
      using True by (simp add: alloc_addr_holes.simps)
    show ?thesis
      using spec no carves_skip [OF Cons.prems, of "unat off" "unat sz" hs']
      by (auto simp: step fits_in_def split: if_splits)
  next
    case False
    then have le: "hole_offset h \<le> off" by simp
    then have lo: "hole_lo h \<le> unat off" by (simp add: hole_lo_def word_le_nat_alt)
    have d: "unat (off - hole_offset h + sz) = unat off - hole_lo h + unat sz"
      using le top lo by (subst unat_range_end) (simp_all add: unat_sub hole_lo_def)
    have test: "hole_size h < off - hole_offset h + sz \<longleftrightarrow> hole_hi h < unat off + unat sz"
      using lo by (auto simp: word_less_nat_alt d hole_bounds)
    have no: "\<not> fits_in hs 1 (unat sz) (unat off)"
      using fits_in_low_high [OF Cons.prems, of 1 "unat sz" "unat off"] lo by auto
    show ?thesis
    proof (cases "hole_hi h < unat off + unat sz")
      case True
      then show ?thesis using False no
        by (simp add: alloc_addr_holes.simps test)
    next
      case fits: False
      then obtain new where new: "simple_vma_hole_alloc h off sz = Some new"
        and c: "carves [h] (unat off) (unat sz) new"
        using hole_alloc_carves [OF sz lo _ inv'(2)] by fastforce
      then show ?thesis
        using False fits lo carves_first [OF Cons.prems c lo]
        by (auto simp: alloc_addr_holes.simps test)
    qed
  qed
qed

lemma vma_heap_alloc_addr_cases:
  assumes inv: "holes_inv (heap_holes heap)" and sz: "0 < unat sz"
    and top: "unat off + unat sz < 2 ^ 64"
  shows "\<exists>heap'. simple_vma_heap_alloc_addr heap off sz =
       Some ({unat off..<unat off + unat sz} \<subseteq> free_addrs (heap_holes heap), heap') \<and>
     heap_strategy heap' = heap_strategy heap \<and>
     (if {unat off..<unat off + unat sz} \<subseteq> free_addrs (heap_holes heap)
      then carves (heap_holes heap) (unat off) (unat sz) (heap_holes heap') else heap' = heap)"
proof -
  define ok where "ok = fits_in (heap_holes heap) 1 (unat sz) (unat off)"
  obtain hs' where a: "alloc_addr_holes off sz (heap_holes heap) = Some (ok, hs')"
    and c: "if ok then carves (heap_holes heap) (unat off) (unat sz) hs' else hs' = heap_holes heap"
    unfolding ok_def
    using alloc_addr_holes_correct [OF inv sz top] by blast
  have "sz > 0" "off + sz = 0 \<or> off + sz > off"
    using sz top range_test_iff [OF sz, of off] by (auto simp: unat_gt_0_word)
  then have "simple_vma_heap_alloc_addr heap off sz = Some (ok, heap\<lparr>heap_holes := hs'\<rparr>)"
    by (auto simp: simple_vma_heap_alloc_addr_def a igt_assert_def)
  then show ?thesis
    using c by (auto simp: ok_def fits_in_iff_free [OF inv sz])
qed

subsection \<open>Freeing\<close>

lemma holes_inv_lows:
  assumes "holes_inv (xs @ l # ls)" shows "\<forall>x\<in>set ls. hole_hi x < hole_lo l"
  using assms by (auto simp: holes_inv_append holes_inv_Cons)

lemma takeWhile_highs:
  "\<forall>h\<in>set (takeWhile (\<lambda>h. \<not> hole_offset h \<le> off) hs). unat off < hole_lo h"
  by (auto simp: hole_lo_def word_le_nat_alt dest!: set_takeWhileD)

lemma dropWhile_lows:
  "dropWhile (\<lambda>h. \<not> hole_offset h \<le> off) hs = l # ls \<Longrightarrow> hole_lo l \<le> unat off"
  using hd_dropWhile [of "\<lambda>h. \<not> hole_offset h \<le> off" hs]
  by (simp add: hole_lo_def word_le_nat_alt)

text \<open>
  The search splits the list into the holes above the freed offset and the others; the four
  results (merge both, merge low, merge high, new hole) are then compared with the set of free
  addresses.
\<close>

lemma vma_heap_free_split:
  assumes inv: "holes_inv (highs @ lows)" and sz: "0 < unat sz"
    and top: "unat off + unat sz \<le> 2 ^ 64"
    and highs: "\<forall>h\<in>set highs. unat off < hole_lo h" and lows: "\<forall>h\<in>set lows. hole_lo h \<le> unat off"
    and disj: "free_addrs (highs @ lows) \<inter> {unat off..<unat off + unat sz} = {}"
  shows "\<forall>h\<in>set highs. unat off + unat sz \<le> hole_lo h" "\<forall>h\<in>set lows. hole_hi h \<le> unat off"
proof -
  have "unat off + unat sz \<le> hole_lo h" if "h \<in> set highs" for h
  proof (rule ccontr)
    assume "\<not> ?thesis"
    then have "hole_lo h \<in> {unat off..<unat off + unat sz}" using highs that by force
    moreover have "hole_lo h \<in> free_addrs (highs @ lows)"
      using that holes_inv_lo_less_hi [OF inv, of h] by (auto simp: free_addrs_def)
    ultimately show False using disj by blast
  qed
  then show "\<forall>h\<in>set highs. unat off + unat sz \<le> hole_lo h" by blast
  have "hole_hi h \<le> unat off" if "h \<in> set lows" for h
  proof (rule ccontr)
    assume "\<not> ?thesis"
    then have "unat off \<in> {hole_lo h..<hole_hi h}" using lows that by auto
    then have "unat off \<in> free_addrs (highs @ lows)"
      unfolding free_addrs_def using that by (intro UN_I [of h]) simp_all
    then show False using disj sz by auto
  qed
  then show "\<forall>h\<in>set lows. hole_hi h \<le> unat off" by blast
qed

text \<open>Freeing as a function of the two parts of the list.\<close>

definition free_merge ::
  "u64 \<Rightarrow> u64 \<Rightarrow> simple_vma_hole list \<Rightarrow> simple_vma_hole list \<Rightarrow> simple_vma_hole list" where
  "free_merge off sz highs lows =
     (let high_adjacent = (highs \<noteq> [] \<and> off + sz = hole_offset (last highs));
          low_adjacent = (lows \<noteq> [] \<and> hole_offset (hd lows) + hole_size (hd lows) = off)
      in if low_adjacent \<and> high_adjacent then
          butlast highs @
          (hd lows)\<lparr>hole_size := hole_size (hd lows) + (sz + hole_size (last highs))\<rparr> # tl lows
        else if low_adjacent then
          highs @ (hd lows)\<lparr>hole_size := hole_size (hd lows) + sz\<rparr> # tl lows
        else if high_adjacent then
          butlast highs @
          (last highs)\<lparr>hole_offset := off, hole_size := hole_size (last highs) + sz\<rparr> # lows
        else highs @ \<lparr>hole_offset = off, hole_size = sz\<rparr> # lows)"

lemma hole_update_bounds:
  "hole_lo (h\<lparr>hole_size := s\<rparr>) = hole_lo h"
  "hole_hi (h\<lparr>hole_size := s\<rparr>) = hole_lo h + unat s"
  "hole_lo (h\<lparr>hole_offset := a, hole_size := s\<rparr>) = unat a"
  "hole_hi (h\<lparr>hole_offset := a, hole_size := s\<rparr>) = unat a + unat s"
  by (simp_all add: hole_bounds)

lemma holes_inv_insert:
  assumes "holes_inv (A @ B)" "0 < unat (hole_size m)" "hole_hi m \<le> 2 ^ 64"
    "\<forall>x\<in>set A. hole_hi m < hole_lo x" "\<forall>y\<in>set B. hole_hi y < hole_lo m"
  shows "holes_inv (A @ m # B)"
  using assms by (auto simp: holes_inv_append holes_inv_Cons)

text \<open>A merged hole whose size did not wrap.\<close>

lemma unat_add3:
  fixes a b c :: u64
  assumes "unat a + (unat b + unat c) < 2 ^ 64"
  shows "unat (a + (b + c)) = unat a + (unat b + unat c)"
  using assms by (simp add: unat_plus_if')

lemma free_merge_correct:
  assumes inv: "holes_inv (highs @ lows)" and sz: "0 < unat sz"
    and top: "unat off + unat sz \<le> 2 ^ 64"
    and highs: "\<forall>h\<in>set highs. unat off + unat sz \<le> hole_lo h"
    and lows: "\<forall>h\<in>set lows. hole_hi h \<le> unat off"
    and part: "\<not> {0, 2 ^ 64 - 1} \<subseteq> free_addrs (highs @ lows) \<union> {unat off..<unat off + unat sz}"
  shows "holes_inv (free_merge off sz highs lows) \<and>
     free_addrs (free_merge off sz highs lows) =
       free_addrs (highs @ lows) \<union> {unat off..<unat off + unat sz}"
proof -
  have hi_adj: "off + sz = hole_offset H \<longleftrightarrow> unat off + unat sz = hole_lo H"
    if "H \<in> set highs" for H
    using highs that unat_u64_lt [of "hole_offset H"] unat_range_end [of off sz]
    by (auto simp: word_unat_eq_iff hole_lo_def)
  have lo_adj: "hole_offset L + hole_size L = off \<longleftrightarrow> hole_hi L = unat off"
    if "L \<in> set lows" for L
    using lows that unat_u64_lt [of off] unat_range_end [of "hole_offset L" "hole_size L"]
    by (auto simp: word_unat_eq_iff hole_hi_def)
  show ?thesis
  proof (cases highs rule: rev_cases)
    case hNil: Nil
    show ?thesis
    proof (cases lows)
      case Nil
      with hNil sz top show ?thesis by (simp add: free_merge_def holes_inv_Cons)
    next
      case (Cons L ls)
      have L: "hole_offset L + hole_size L = off \<longleftrightarrow> hole_hi L = unat off" "hole_hi L \<le> unat off"
        using lo_adj lows Cons by auto
      have below: "\<forall>x\<in>set ls. hole_hi x < hole_lo L" and lsz: "0 < unat (hole_size L)"
        and invl: "holes_inv ls"
        using inv by (simp_all add: hNil Cons holes_inv_Cons)
      show ?thesis
      proof (cases "hole_hi L = unat off")
        case True
        then have m: "free_merge off sz highs lows = L\<lparr>hole_size := hole_size L + sz\<rparr> # ls"
          by (simp add: free_merge_def hNil Cons L)
        have "unat (hole_size L) + unat sz < 2 ^ 64"
          using part top True lsz by (auto simp: hNil Cons hole_bounds)
        then have u: "unat (hole_size L + sz) = unat (hole_size L) + unat sz"
          by (rule unat_range_end)
        show ?thesis
          unfolding m using True top below invl lsz sz
          by (auto simp: hNil Cons holes_inv_Cons hole_update_bounds u hole_bounds)
      next
        case False
        then have m: "free_merge off sz highs lows = \<lparr>hole_offset = off, hole_size = sz\<rparr> # lows"
          by (simp add: free_merge_def hNil Cons L)
        show ?thesis
          unfolding m using False L(2) lows top sz inv below
          by (auto simp: hNil Cons holes_inv_Cons hole_bounds)
      qed
    qed
  next
    case (snoc hs H)
    have H: "off + sz = hole_offset H \<longleftrightarrow> unat off + unat sz = hole_lo H"
      "unat off + unat sz \<le> hole_lo H"
      using hi_adj highs snoc by auto
    have above: "\<forall>x\<in>set hs. hole_hi H < hole_lo x" and Hsz: "0 < unat (hole_size H)"
      and Htop: "hole_hi H \<le> 2 ^ 64" and invr: "holes_inv (hs @ lows)"
      using inv by (auto simp: snoc holes_inv_append holes_inv_Cons)
    have Hlt: "hole_lo H < hole_hi H" using Hsz by (simp add: hole_bounds)
    show ?thesis
    proof (cases "lows \<noteq> [] \<and> hole_hi (hd lows) = unat off")
      case low: True
      then obtain L ls where Cons: "lows = L # ls" "hole_hi L = unat off"
        by (cases lows) auto
      have L: "hole_offset L + hole_size L = off" using lo_adj Cons by simp
      have below: "\<forall>x\<in>set ls. hole_hi x < hole_lo L" and lsz: "0 < unat (hole_size L)"
        and invl: "holes_inv ls" and invs: "holes_inv (hs @ ls)"
        using invr by (auto simp: Cons holes_inv_Cons holes_inv_append)
      have Llt: "hole_lo L < hole_hi L" using lsz by (simp add: hole_bounds)
      show ?thesis
      proof (cases "unat off + unat sz = hole_lo H")
        case True
        let ?m = "L\<lparr>hole_size := hole_size L + (sz + hole_size H)\<rparr>"
        have m: "free_merge off sz highs lows = hs @ ?m # ls"
          using True by (simp add: free_merge_def snoc Cons L H)
        have "unat (hole_size L) + (unat sz + unat (hole_size H)) < 2 ^ 64"
          using part True Cons(2) Htop lsz Hsz by (auto simp: snoc Cons hole_bounds)
        then have u: "hole_hi ?m = hole_hi H"
          using True Cons(2) by (simp add: hole_update_bounds unat_add3 hole_bounds)
        have "holes_inv (hs @ ?m # ls)"
          using invs above below Htop u Llt Cons(2) True Hlt
          by (intro holes_inv_insert) (auto simp: hole_update_bounds hole_bounds)
        moreover have "free_addrs (hs @ ?m # ls) =
            free_addrs (highs @ lows) \<union> {unat off..<unat off + unat sz}"
          using True Cons(2) Llt Hlt by (auto simp: snoc Cons(1) u hole_update_bounds(1))
        ultimately show ?thesis unfolding m by blast
      next
        case False
        let ?m = "L\<lparr>hole_size := hole_size L + sz\<rparr>"
        have m: "free_merge off sz highs lows = highs @ ?m # ls"
          using False by (simp add: free_merge_def snoc Cons L H)
        have "unat (hole_size L) + unat sz < 2 ^ 64"
          using H(2) False Hlt Htop Cons(2) by (simp add: hole_bounds)
        then have u: "hole_hi ?m = unat off + unat sz"
          using Cons(2) unat_range_end [of "hole_size L" sz]
          by (simp add: hole_update_bounds) (simp add: hole_bounds)
        have "holes_inv ((hs @ [H]) @ ?m # ls)"
          using inv above below Htop u Llt Cons(2) False Hlt H(2)
          by (intro holes_inv_insert)
             (auto simp: snoc Cons(1) hole_update_bounds(1) holes_inv_append holes_inv_Cons
                hole_bounds)
        moreover have "free_addrs (highs @ ?m # ls) =
            free_addrs (highs @ lows) \<union> {unat off..<unat off + unat sz}"
          using Cons(2) Llt by (auto simp: snoc Cons(1) u hole_update_bounds(1))
        ultimately show ?thesis unfolding m by (simp add: snoc)
      qed
    next
      case low: False
      then have nlow: "\<not> (lows \<noteq> [] \<and> hole_offset (hd lows) + hole_size (hd lows) = off)"
        using lo_adj by (cases lows) auto
      have under: "\<forall>y\<in>set lows. hole_hi y < unat off"
      proof (cases lows)
        case (Cons L ls)
        then have "hole_hi L < unat off" using low lows by auto
        moreover have "\<forall>y\<in>set ls. hole_hi y < hole_lo L" "hole_lo L < hole_hi L"
          using invr Cons by (auto simp: holes_inv_append holes_inv_Cons hole_bounds)
        ultimately show ?thesis using Cons by auto
      qed simp
      show ?thesis
      proof (cases "unat off + unat sz = hole_lo H")
        case True
        let ?m = "H\<lparr>hole_offset := off, hole_size := hole_size H + sz\<rparr>"
        have m: "free_merge off sz highs lows = hs @ ?m # lows"
          using True nlow by (auto simp: free_merge_def snoc H)
        have "unat (hole_size H) + unat sz < 2 ^ 64"
          using part True Htop Hsz sz by (auto simp: snoc hole_bounds)
        then have u: "hole_hi ?m = hole_hi H"
          using True unat_range_end [of "hole_size H" sz]
          by (simp add: hole_update_bounds) (simp add: hole_bounds)
        have "holes_inv (hs @ ?m # lows)"
          using invr above under Htop u True Hlt sz Hsz
          by (intro holes_inv_insert) (auto simp: hole_update_bounds hole_bounds)
        moreover have "free_addrs (hs @ ?m # lows) =
            free_addrs (highs @ lows) \<union> {unat off..<unat off + unat sz}"
          using True Hlt by (auto simp: snoc u hole_update_bounds(3))
        ultimately show ?thesis unfolding m by blast
      next
        case False
        let ?m = "\<lparr>hole_offset = off, hole_size = sz\<rparr>"
        have m: "free_merge off sz highs lows = highs @ ?m # lows"
          using False nlow by (auto simp: free_merge_def snoc H)
        have "holes_inv ((hs @ [H]) @ ?m # lows)"
          using inv above under top sz False Hlt H(2)
          by (intro holes_inv_insert) (auto simp: snoc)
        then show ?thesis unfolding m by (auto simp: snoc)
      qed
    qed
  qed
qed

text \<open>Freeing a range that is disjoint from the free set adds exactly that range.\<close>

lemma vma_heap_free_disjoint:
  assumes inv: "holes_inv (heap_holes heap)" and sz: "0 < unat sz"
    and top: "unat off + unat sz \<le> 2 ^ 64"
    and disj: "free_addrs (heap_holes heap) \<inter> {unat off..<unat off + unat sz} = {}"
    and part: "\<not> {0, 2 ^ 64 - 1} \<subseteq>
      free_addrs (heap_holes heap) \<union> {unat off..<unat off + unat sz}"
  shows "\<exists>heap'. simple_vma_heap_free heap off sz = Some heap' \<and>
     holes_inv (heap_holes heap') \<and> heap_strategy heap' = heap_strategy heap \<and>
     free_addrs (heap_holes heap') =
       free_addrs (heap_holes heap) \<union> {unat off..<unat off + unat sz}"
proof -
  let ?P = "\<lambda>hole. \<not> hole_offset hole \<le> off"
  let ?highs = "takeWhile ?P (heap_holes heap)" and ?lows = "dropWhile ?P (heap_holes heap)"
  have split: "?highs @ ?lows = heap_holes heap" by simp
  have inv2: "holes_inv (?highs @ ?lows)" using inv by simp
  have lows0: "\<forall>h\<in>set ?lows. hole_lo h \<le> unat off"
  proof (cases ?lows)
    case (Cons l ls)
    have "hole_lo l \<le> unat off" using dropWhile_lows [OF Cons] .
    moreover have "\<forall>x\<in>set ls. hole_hi x < hole_lo l" using inv2 unfolding Cons by (rule holes_inv_lows)
    ultimately show ?thesis unfolding Cons by (auto simp: hole_bounds)
  next
    case Nil
    show ?thesis unfolding Nil by simp
  qed
  have disj2: "free_addrs (?highs @ ?lows) \<inter> {unat off..<unat off + unat sz} = {}"
    using disj unfolding split .
  note apart = vma_heap_free_split [OF inv2 sz top takeWhile_highs lows0 disj2]
  have part2: "\<not> {0, 2 ^ 64 - 1} \<subseteq>
      free_addrs (?highs @ ?lows) \<union> {unat off..<unat off + unat sz}"
    using part unfolding split .
  note merge = free_merge_correct [OF inv2 sz top apart part2]
  have hi_ok: "?highs \<noteq> [] \<longrightarrow> off + sz \<le> hole_offset (last ?highs)"
  proof
    assume "?highs \<noteq> []"
    then have le: "unat off + unat sz \<le> hole_lo (last ?highs)" using apart(1) by simp
    then have "unat (off + sz) = unat off + unat sz"
      using unat_u64_lt [of "hole_offset (last ?highs)"]
      by (intro unat_range_end) (simp add: hole_lo_def)
    with le show "off + sz \<le> hole_offset (last ?highs)" by (simp add: word_le_nat_alt hole_lo_def)
  qed
  have lo_ok: "hole_offset (hd ?lows) + hole_size (hd ?lows) > hole_offset (hd ?lows) \<and>
      hole_offset (hd ?lows) + hole_size (hd ?lows) \<le> off" if ne: "?lows \<noteq> []"
  proof -
    let ?l = "hd ?lows"
    have in': "?l \<in> set ?lows" using ne by simp
    have "holes_inv ?lows" using inv2 unfolding holes_inv_append by blast
    then have l: "hole_hi ?l \<le> unat off" "0 < unat (hole_size ?l)"
      using apart(2) in' unfolding holes_inv_def by blast+
    then have "unat (hole_offset ?l + hole_size ?l) = hole_hi ?l"
      using unat_u64_lt [of off] unat_range_end [of "hole_offset ?l" "hole_size ?l"]
      by (simp add: hole_hi_def)
    with l show ?thesis by (simp add: word_le_nat_alt word_less_nat_alt) (simp add: hole_hi_def)
  qed
  have ok: "sz > 0" "off + sz = 0 \<or> off + sz > off"
    using sz top range_test_iff(1) [OF sz, of off] by (auto simp: unat_gt_0_word)
  have "simple_vma_heap_free heap off sz =
     (simple_vma_heap_validate (heap\<lparr>heap_holes := free_merge off sz ?highs ?lows\<rparr>) \<bind>
       (\<lambda>_. Some (heap\<lparr>heap_holes := free_merge off sz ?highs ?lows\<rparr>)))"
    unfolding simple_vma_heap_free_def free_merge_def Let_def
    using ok hi_ok lo_ok inv by (simp add: igt_assert_bind_True validate_bind_inv)
  also have "\<dots> = Some (heap\<lparr>heap_holes := free_merge off sz ?highs ?lows\<rparr>)"
    using merge by (simp add: validate_bind_inv)
  finally show ?thesis using merge by (simp add: split)
qed

text \<open>
  Freeing a range that overlaps the free set (a double free) stops the test: the assertions on
  the neighbouring holes catch it.
\<close>

lemma vma_heap_free_overlap:
  assumes inv: "holes_inv (heap_holes heap)" and sz: "0 < unat sz"
    and top: "unat off + unat sz < 2 ^ 64"
    and overlap: "free_addrs (heap_holes heap) \<inter> {unat off..<unat off + unat sz} \<noteq> {}"
  shows "simple_vma_heap_free heap off sz = None"
proof (rule ccontr)
  let ?P = "\<lambda>hole. \<not> hole_offset hole \<le> off"
  let ?highs = "takeWhile ?P (heap_holes heap)" and ?lows = "dropWhile ?P (heap_holes heap)"
  assume "simple_vma_heap_free heap off sz \<noteq> None"
  then have hi: "?highs \<noteq> [] \<longrightarrow> off + sz \<le> hole_offset (last ?highs)"
    and lo: "?lows \<noteq> [] \<longrightarrow>
       hole_offset (hd ?lows) + hole_size (hd ?lows) > hole_offset (hd ?lows) \<and>
       hole_offset (hd ?lows) + hole_size (hd ?lows) \<le> off"
    by (auto simp: simple_vma_heap_free_def Let_def)
  have split: "?highs @ ?lows = heap_holes heap" by simp
  have inv2: "holes_inv (?highs @ ?lows)" using inv by simp
  have es: "unat (off + sz) = unat off + unat sz" using top by (rule unat_range_end)
  have high: "unat off + unat sz \<le> hole_lo h" if "h \<in> set ?highs" for h
  proof (cases ?highs rule: rev_cases)
    case Nil
    with that show ?thesis by simp
  next
    case (snoc hs H)
    then have "unat off + unat sz \<le> hole_lo H"
      using hi by (simp add: word_le_nat_alt es hole_lo_def)
    moreover have "hole_lo H \<le> hole_lo h"
      using that inv2 unfolding snoc by (auto simp: holes_inv_append hole_bounds intro: less_imp_le
        dest!: bspec)
    ultimately show ?thesis by simp
  qed
  have low: "hole_hi h \<le> unat off" if "h \<in> set ?lows" for h
  proof (cases ?lows)
    case Nil
    with that show ?thesis by simp
  next
    case (Cons l ls)
    then have "unat (hole_offset l + hole_size l) = hole_hi l"
      using lo range_test_iff(2) [of "hole_size l" "hole_offset l"] inv2
        unat_range_end [of "hole_offset l" "hole_size l"]
      by (auto simp: hole_hi_def holes_inv_append holes_inv_Cons)
    moreover have "hole_offset l + hole_size l \<le> off" using lo unfolding Cons by simp
    ultimately have "hole_hi l \<le> unat off" by (simp add: word_le_nat_alt)
    moreover have "hole_hi h \<le> hole_hi l"
      using that inv2 unfolding Cons
      by (auto simp: holes_inv_append holes_inv_Cons hole_bounds dest!: bspec)
    ultimately show ?thesis by simp
  qed
  have "free_addrs (?highs @ ?lows) \<inter> {unat off..<unat off + unat sz} = {}"
    using high low by (force simp: free_addrs_def simp del: takeWhile_dropWhile_id)
  with overlap show False unfolding split by blast
qed

lemma vma_heap_init_correct:
  assumes "0 < unat sz" "unat start + unat sz \<le> 2 ^ 64"
  shows "\<exists>heap. simple_vma_heap_init start sz strategy = Some heap \<and>
     holes_inv (heap_holes heap) \<and>
     free_addrs (heap_holes heap) = {unat start..<unat start + unat sz} \<and>
     heap_strategy heap = (if strategy = ALLOC_STRATEGY_LOW_TO_HIGH
       then ALLOC_STRATEGY_LOW_TO_HIGH else ALLOC_STRATEGY_HIGH_TO_LOW)"
  using vma_heap_free_disjoint [of "\<lparr>heap_holes = [], heap_strategy = ALLOC_STRATEGY_NONE\<rparr>" sz start]
    assms unat_u64_lt [of sz]
  by (fastforce simp: simple_vma_heap_init_def)


subsection \<open>Properties\<close>

text \<open>A heap with two holes, for the examples.\<close>

definition example_heap :: simple_vma_heap where
  "example_heap = \<lparr>heap_holes = [\<lparr>hole_offset = 0x4000, hole_size = 0x3000\<rparr>,
     \<lparr>hole_offset = 0x1000, hole_size = 0x2000\<rparr>], heap_strategy = ALLOC_STRATEGY_HIGH_TO_LOW\<rparr>"

lemma example_heap: "holes_inv (heap_holes example_heap)"
  "free_addrs (heap_holes example_heap) = {0x4000..<0x7000} \<union> {0x1000..<0x3000}"
  by (simp_all add: example_heap_def holes_inv_def)

text \<open>\<open>simple_vma_heap_alloc\<close> never trips an assertion on a valid heap; it takes the highest (or lowest,
  by strategy) aligned range of the free space, removes exactly that range, and fails only when no aligned
  range of the size is free.\<close>

theorem heap_alloc_is_optimal:
  assumes "holes_inv (heap_holes heap)" "0 < unat sz" "0 < unat al"
  shows "\<exists>r heap'. simple_vma_heap_alloc heap sz al strategy = Some (r, heap') \<and>
     holes_inv (heap_holes heap') \<and> heap_strategy heap' = heap_strategy heap \<and>
     (case r of
        None \<Rightarrow> heap' = heap \<and>
          \<not> (\<exists>a. unat al dvd a \<and> {a..<a + unat sz} \<subseteq> free_addrs (heap_holes heap))
      | Some off \<Rightarrow>
          unat al dvd unat off \<and> {unat off..<unat off + unat sz} \<subseteq> free_addrs (heap_holes heap) \<and>
          free_addrs (heap_holes heap') = free_addrs (heap_holes heap) - {unat off..<unat off + unat sz} \<and>
          (\<forall>a. unat al dvd a \<and> {a..<a + unat sz} \<subseteq> free_addrs (heap_holes heap) \<longrightarrow>
             (if effective_strategy heap strategy = ALLOC_STRATEGY_HIGH_TO_LOW
              then a \<le> unat off else unat off \<le> a)))"
proof -
  obtain r heap' where r: "simple_vma_heap_alloc heap sz al strategy = Some (r, heap')"
    and spec: "case r of
        None \<Rightarrow> heap' = heap \<and>
          (\<forall>a. \<not> (unat al dvd a \<and> {a..<a + unat sz} \<subseteq> free_addrs (heap_holes heap)))
      | Some off \<Rightarrow>
          carves (heap_holes heap) (unat off) (unat sz) (heap_holes heap') \<and>
          heap_strategy heap' = heap_strategy heap \<and>
          (unat al dvd unat off \<and> {unat off..<unat off + unat sz} \<subseteq> free_addrs (heap_holes heap)) \<and>
          (\<forall>a. unat al dvd a \<and> {a..<a + unat sz} \<subseteq> free_addrs (heap_holes heap) \<longrightarrow>
             (if effective_strategy heap strategy = ALLOC_STRATEGY_HIGH_TO_LOW
              then a \<le> unat off else unat off \<le> a))"
    using vma_heap_alloc_cases [OF assms, of strategy] unfolding fits_in_iff_free [OF assms(1,2)] by blast
  show ?thesis
  proof (cases r)
    case None
    then show ?thesis using r spec assms(1) by (intro exI [of _ r] exI [of _ heap']) simp
  next
    case (Some off)
    then show ?thesis using r spec
      by (intro exI [of _ r] exI [of _ heap']) (simp add: carves_def)
  qed
qed

theorem heap_alloc_is_optimal_witness:
  "\<exists>r heap'. simple_vma_heap_alloc example_heap 0x1800 0x1000 ALLOC_STRATEGY_NONE = Some (r, heap') \<and>
     holes_inv (heap_holes heap')"
  using heap_alloc_is_optimal [OF example_heap(1), of "0x1800" "0x1000" ALLOC_STRATEGY_NONE] by auto

text \<open>\<open>simple_vma_heap_alloc_addr\<close> succeeds exactly when the whole range is free, and then removes exactly
  that range.\<close>

theorem heap_alloc_addr_iff_free:
  assumes "holes_inv (heap_holes heap)" "0 < unat sz" "unat off + unat sz < 2 ^ 64"
  shows "\<exists>heap'. simple_vma_heap_alloc_addr heap off sz =
       Some ({unat off..<unat off + unat sz} \<subseteq> free_addrs (heap_holes heap), heap') \<and>
     holes_inv (heap_holes heap') \<and>
     free_addrs (heap_holes heap') =
       (if {unat off..<unat off + unat sz} \<subseteq> free_addrs (heap_holes heap)
        then free_addrs (heap_holes heap) - {unat off..<unat off + unat sz} else free_addrs (heap_holes heap))"
proof (cases "{unat off..<unat off + unat sz} \<subseteq> free_addrs (heap_holes heap)")
  case True
  with vma_heap_alloc_addr_cases [OF assms] show ?thesis by (simp add: carves_def) blast
next
  case False
  with vma_heap_alloc_addr_cases [OF assms] assms(1) show ?thesis by simp
qed

theorem heap_alloc_addr_iff_free_witness:
  "\<exists>heap'. simple_vma_heap_alloc_addr example_heap 0x4000 0x1000 = Some (True, heap') \<and>
     free_addrs (heap_holes heap') = {0x5000..<0x7000} \<union> {0x1000..<0x3000}"
proof -
  have "{0x4000..<0x5000} \<subseteq> free_addrs (heap_holes example_heap)" by (auto simp: example_heap(2))
  then show ?thesis
    using heap_alloc_addr_iff_free [OF example_heap(1), of "0x1000" "0x4000"]
    by (auto simp: example_heap(2))
qed

text \<open>\<open>simple_vma_heap_free\<close> of a range outside the free space succeeds, adds exactly the range and merges
  it with its neighbours (the ordering and merging invariant that the code asserts is kept).\<close>

theorem heap_free_adds_range:
  assumes "holes_inv (heap_holes heap)" "0 < unat sz" "unat off + unat sz < 2 ^ 64"
    and "free_addrs (heap_holes heap) \<inter> {unat off..<unat off + unat sz} = {}" "2 ^ 64 - 1 \<notin> free_addrs (heap_holes heap)"
  shows "\<exists>heap'. simple_vma_heap_free heap off sz = Some heap' \<and> simple_vma_heap_validate heap' = Some () \<and>
     free_addrs (heap_holes heap') = free_addrs (heap_holes heap) \<union> {unat off..<unat off + unat sz}"
proof -
  have "\<not> {0, 2 ^ 64 - 1} \<subseteq> free_addrs (heap_holes heap) \<union> {unat off..<unat off + unat sz}"
    using assms(3,5) by auto
  from vma_heap_free_disjoint [OF assms(1,2) _ assms(4) this] assms(3) show ?thesis
    by (auto simp: validate_iff)
qed

theorem heap_free_adds_range_witness:
  "\<exists>heap'. simple_vma_heap_free example_heap 0x3000 0x1000 = Some heap' \<and>
     free_addrs (heap_holes heap') = {0x1000..<0x7000}"
proof -
  have "free_addrs (heap_holes example_heap) \<inter> {0x3000..<0x4000} = {}"
    "2 ^ 64 - 1 \<notin> free_addrs (heap_holes example_heap)" by (auto simp: example_heap(2))
  moreover have "({0x4000..<0x7000} \<union> {0x1000..<0x3000} \<union> {0x3000..<0x4000} :: nat set) = {0x1000..<0x7000}"
    by auto
  ultimately show ?thesis
    using heap_free_adds_range [OF example_heap(1), of "0x1000" "0x3000"] by (auto simp: example_heap(2))
qed

text \<open>Freeing a range that overlaps the free space, a double free, is always caught by the assertions of
  \<open>simple_vma_heap_free\<close>.\<close>

theorem heap_double_free_caught:
  assumes "holes_inv (heap_holes heap)" "0 < unat sz" "unat off + unat sz < 2 ^ 64"
    and "free_addrs (heap_holes heap) \<inter> {unat off..<unat off + unat sz} \<noteq> {}"
  shows "simple_vma_heap_free heap off sz = None"
  by (rule vma_heap_free_overlap [OF assms])

theorem heap_double_free_caught_witness: "simple_vma_heap_free example_heap 0x2000 0x2000 = None"
proof -
  have "0x2000 \<in> free_addrs (heap_holes example_heap) \<inter> {0x2000..<0x4000}" by (simp add: example_heap(2))
  then have "free_addrs (heap_holes example_heap) \<inter> {0x2000..<0x4000} \<noteq> {}" by blast
  then show ?thesis using heap_double_free_caught [OF example_heap(1), of "0x2000" "0x2000"] by simp
qed

end
