(* ===== verification/Allocator_Backend.thy ===== *)
theory Allocator_Backend
  imports Igt_Macros Simple_Vma_Heap
begin

text \<open>
  What the allocators of \<open>lib/intel_allocator_simple.c\<close> and \<open>lib/intel_allocator_reloc.c\<close> have
  in common: the allocation record, the address comparison of \<open>__same\<close>, and the contract that
  \<open>lib/intel_allocator.c\<close> relies on when it calls \<open>ial->alloc\<close>, \<open>ial->free\<close> and
  \<open>ial->is_allocated\<close>, as the locale \<open>allocator_backend\<close>.
\<close>

record intel_allocator_record =
  rec_handle :: u32
  rec_offset :: u64
  rec_size :: u64
  rec_pat_index :: u8

definition ALLOC_INVALID_ADDRESS :: u64 where
  "ALLOC_INVALID_ADDRESS = - 1"

text \<open>\<open>__same\<close>\<close>

definition same_record :: "intel_allocator_record \<Rightarrow> u32 \<Rightarrow> u64 \<Rightarrow> u64 \<Rightarrow> bool" where
  "same_record rec handle sz offset \<longleftrightarrow> rec_handle rec = handle \<and> rec_size rec = sz \<and>
     DECANONICAL (rec_offset rec) = DECANONICAL offset"

text \<open>
  \<open>record_of s h\<close> is the record the allocator keeps for the object handle \<open>h\<close>; \<open>room s\<close> says
  that one more object can be recorded.
\<close>

locale allocator_backend =
  fixes inv :: "'s \<Rightarrow> bool"
    and record_of :: "'s \<Rightarrow> u32 \<Rightarrow> intel_allocator_record option"
    and room :: "'s \<Rightarrow> bool"
    and alloc :: "'s \<Rightarrow> u32 \<Rightarrow> u64 \<Rightarrow> u64 \<Rightarrow> u8 \<Rightarrow> allocator_strategy \<Rightarrow> (u64 \<times> 's) option"
    and free :: "'s \<Rightarrow> u32 \<Rightarrow> (bool \<times> 's) option"
    and is_allocated :: "'s \<Rightarrow> u32 \<Rightarrow> u64 \<Rightarrow> u64 \<Rightarrow> bool option"
  assumes record_handle: "inv s \<Longrightarrow> record_of s h = Some r \<Longrightarrow> rec_handle r = h"
    and alloc_known: "inv s \<Longrightarrow> h \<noteq> 0 \<Longrightarrow> record_of s h = Some r \<Longrightarrow>
      alloc s h sz al pat st =
        (if rec_size r = sz \<and> rec_pat_index r = pat then Some (rec_offset r, s) else None)"
    and alloc_new: "inv s \<Longrightarrow> h \<noteq> 0 \<Longrightarrow> record_of s h = None \<Longrightarrow> room s \<Longrightarrow> 0 < unat sz \<Longrightarrow> 0 < unat al \<Longrightarrow>
      \<exists>off s'. alloc s h sz al pat st = Some (off, s') \<and> inv s' \<and>
        (off = ALLOC_INVALID_ADDRESS \<and> s' = s \<or>
         record_of s' = (record_of s)(h \<mapsto>
           \<lparr>rec_handle = h, rec_offset = off, rec_size = sz, rec_pat_index = pat\<rparr>))"
    and free_record: "inv s \<Longrightarrow>
      \<exists>s'. free s h = Some (record_of s h \<noteq> None, s') \<and> inv s' \<and> record_of s' = (record_of s)(h := None)"
    and is_allocated_record: "inv s \<Longrightarrow> h \<noteq> 0 \<Longrightarrow>
      is_allocated s h sz off = Some (\<exists>r. record_of s h = Some r \<and> same_record r h sz off)"
begin

text \<open>The outcome of an allocation that returns.\<close>

lemma alloc_cases:
  assumes inv: "inv s" and h: "h \<noteq> 0" and sz: "room s" "0 < unat sz" "0 < unat al"
    and run: "alloc s h sz al pat st = Some (off, s')"
  shows "inv s' \<and>
    (record_of s h = None \<and> off = ALLOC_INVALID_ADDRESS \<and> s' = s \<or>
     record_of s' = (record_of s)(h \<mapsto>
       \<lparr>rec_handle = h, rec_offset = off, rec_size = sz, rec_pat_index = pat\<rparr>))"
proof (cases "record_of s h")
  case None
  from alloc_new [OF inv h None sz, of pat st] run None show ?thesis by auto
next
  case (Some r)
  then have "rec_handle r = h" using record_handle [OF inv] by blast
  moreover have "rec_size r = sz" "rec_pat_index r = pat" "off = rec_offset r" "s' = s"
    using alloc_known [OF inv h Some, of sz al pat st] run by (auto split: if_splits)
  ultimately have "r = \<lparr>rec_handle = h, rec_offset = off, rec_size = sz, rec_pat_index = pat\<rparr>" by simp
  then show ?thesis using Some \<open>s' = s\<close> inv by (auto simp: fun_upd_idem)
qed

text \<open>Asking again for an allocated object gives its address and changes nothing.\<close>

lemma alloc_again:
  assumes inv: "inv s" and h: "h \<noteq> 0" and sz: "room s" "0 < unat sz" "0 < unat al"
    and run: "alloc s h sz al pat st = Some (off, s')" and ok: "off \<noteq> ALLOC_INVALID_ADDRESS"
  shows "alloc s' h sz al' pat st' = Some (off, s')"
  using alloc_cases [OF inv h sz run] ok alloc_known [of s' h _ sz al' pat st'] h by auto

lemma alloc_is_allocated:
  assumes inv: "inv s" and h: "h \<noteq> 0" and sz: "room s" "0 < unat sz" "0 < unat al"
    and run: "alloc s h sz al pat st = Some (off, s')" and ok: "off \<noteq> ALLOC_INVALID_ADDRESS"
  shows "is_allocated s' h sz off = Some True"
  using alloc_cases [OF inv h sz run] ok is_allocated_record [of s' h sz off] h
  by (auto simp: same_record_def)

text \<open>Other objects are not affected.\<close>

lemma alloc_frame:
  assumes inv: "inv s" and h: "h \<noteq> 0" and sz: "room s" "0 < unat sz" "0 < unat al"
    and run: "alloc s h sz al pat st = Some (off, s')" and other: "h' \<noteq> h" "h' \<noteq> 0"
  shows "is_allocated s' h' sz' off' = is_allocated s h' sz' off'"
  using alloc_cases [OF inv h sz run] is_allocated_record [OF _ other(2)] inv other(1) by auto

lemma free_frame:
  assumes inv: "inv s" and run: "free s h = Some (freed, s')" and other: "h' \<noteq> h" "h' \<noteq> 0"
  shows "is_allocated s' h' sz' off' = is_allocated s h' sz' off'"
  using free_record [OF inv, of h] run is_allocated_record [OF _ other(2)] inv other(1) by auto

text \<open>A freed object is gone: it is not allocated anywhere, and freeing it again reports so.\<close>

lemma free_is_free:
  assumes inv: "inv s" and run: "free s h = Some (freed, s')"
  shows "h \<noteq> 0 \<Longrightarrow> is_allocated s' h sz off = Some False" "\<exists>s''. free s' h = Some (False, s'')"
  using free_record [OF inv, of h] free_record [of s' h] run is_allocated_record [of s' h sz off] by auto

text \<open>Allocating and freeing an object brings the records back.\<close>

lemma alloc_free:
  assumes inv: "inv s" and h: "h \<noteq> 0" and sz: "room s" "0 < unat sz" "0 < unat al"
    and run: "alloc s h sz al pat st = Some (off, s')" and ok: "off \<noteq> ALLOC_INVALID_ADDRESS"
    and new: "record_of s h = None"
  shows "\<exists>s''. free s' h = Some (True, s'') \<and> inv s'' \<and> record_of s'' = record_of s"
proof -
  have s': "inv s'" "record_of s' = (record_of s)(h \<mapsto>
      \<lparr>rec_handle = h, rec_offset = off, rec_size = sz, rec_pat_index = pat\<rparr>)"
    using alloc_cases [OF inv h sz run] ok by auto
  from free_record [OF s'(1), of h] show ?thesis using s'(2) new by (auto simp: fun_upd_idem)
qed

end

end
