(* ===== verification/Intel_Allocator_Simple.thy ===== *)
theory Intel_Allocator_Simple
  imports Allocator_Backend Igt_Map_Correct
begin

text \<open>
  The SIMPLE allocator of \<open>lib/intel_allocator_simple.c\<close>: the objects and the reserved areas in
  two hash maps, the free space in the hole list of theory \<open>Simple_Vma_Heap\<close>, and the statistics
  counters. An operation takes \<open>ials = ial->priv\<close> and returns its result with the new state;
  \<open>None\<close> is a failed \<open>igt_assert\<close>. The assertions that \<open>ial\<close> and \<open>ials\<close> are not NULL hold of
  any state and are not written out; memory is available.

  The lemmas show that at every address of \<open>[start, end)\<close> exactly one of these holds: the address
  is free, or it belongs to one object, or to one reserved area (\<open>simple_inv\<close>, kept by every
  operation); and what each operation does to the objects and the areas.
\<close>

subsection \<open>Data\<close>

record intel_allocator_simple =
  simple_objects :: "(u32, intel_allocator_record) igt_map"
  simple_reserved :: "(u64, intel_allocator_record) igt_map"
  simple_heap :: simple_vma_heap
  simple_start :: u64
  simple_end :: u64
  simple_total_size :: u64
  simple_allocated_size :: u64
  simple_allocated_objects :: u64
  simple_reserved_size :: u64
  simple_reserved_areas :: u64

subsection \<open>Operations\<close>

definition intel_allocator_simple_create ::
  "u64 \<Rightarrow> u64 \<Rightarrow> allocator_strategy \<Rightarrow> intel_allocator_simple option" where
  "intel_allocator_simple_create start end_addr strategy = do {
     heap \<leftarrow> simple_vma_heap_init start (end_addr - start) strategy;
     Some \<lparr>simple_objects = igt_map_create igt_map_hash_32 igt_map_equal_32,
           simple_reserved = igt_map_create igt_map_hash_64 igt_map_equal_64,
           simple_heap = heap, simple_start = start, simple_end = end_addr,
           simple_total_size = end_addr - start, simple_allocated_size = 0,
           simple_allocated_objects = 0, simple_reserved_size = 0, simple_reserved_areas = 0\<rparr>
   }"

definition intel_allocator_simple_get_address_range :: "intel_allocator_simple \<Rightarrow> u64 \<times> u64" where
  "intel_allocator_simple_get_address_range ials = (simple_start ials, simple_end ials)"

definition intel_allocator_simple_alloc ::
  "intel_allocator_simple \<Rightarrow> u32 \<Rightarrow> u64 \<Rightarrow> u64 \<Rightarrow> u8 \<Rightarrow> allocator_strategy \<Rightarrow>
   (u64 \<times> intel_allocator_simple) option" where
  "intel_allocator_simple_alloc ials handle sz alignment pat_index strategy = do {
     igt_assert (handle \<noteq> 0);
     rec \<leftarrow> igt_map_search (simple_objects ials) handle;
     (case rec of
        Some rec \<Rightarrow> do {
          igt_assert (rec_size rec = sz);
          igt_assert (rec_pat_index rec = pat_index);
          Some (rec_offset rec, ials)
        }
      | None \<Rightarrow> do {
          (r, heap) \<leftarrow> simple_vma_heap_alloc (simple_heap ials) sz alignment strategy;
          (case r of
             None \<Rightarrow> Some (ALLOC_INVALID_ADDRESS, ials\<lparr>simple_heap := heap\<rparr>)
           | Some offset \<Rightarrow> do {
               objects \<leftarrow> map_put (simple_objects ials) handle
                 \<lparr>rec_handle = handle, rec_offset = offset, rec_size = sz, rec_pat_index = pat_index\<rparr>;
               Some (offset, ials\<lparr>simple_heap := heap, simple_objects := objects,
                 simple_allocated_objects := simple_allocated_objects ials + 1,
                 simple_allocated_size := simple_allocated_size ials + sz\<rparr>)
             })
        })
   }"

definition intel_allocator_simple_free ::
  "intel_allocator_simple \<Rightarrow> u32 \<Rightarrow> (bool \<times> intel_allocator_simple) option" where
  "intel_allocator_simple_free ials handle = do {
     entry \<leftarrow> igt_map_search_entry (simple_objects ials) handle;
     (case entry of
        None \<Rightarrow> Some (False, ials)
      | Some i \<Rightarrow>
          let ials' = ials\<lparr>simple_objects := igt_map_remove_entry (simple_objects ials) (Some i)\<rparr>
          in case entry_data (map_table (simple_objects ials) ! i) of
               None \<Rightarrow> Some (False, ials')
             | Some rec \<Rightarrow> do {
                 heap \<leftarrow> simple_vma_heap_free (simple_heap ials) (rec_offset rec) (rec_size rec);
                 Some (True, ials'\<lparr>simple_heap := heap,
                   simple_allocated_objects := simple_allocated_objects ials - 1,
                   simple_allocated_size := simple_allocated_size ials - rec_size rec\<rparr>)
               })
   }"

definition intel_allocator_simple_is_allocated ::
  "intel_allocator_simple \<Rightarrow> u32 \<Rightarrow> u64 \<Rightarrow> u64 \<Rightarrow> bool option" where
  "intel_allocator_simple_is_allocated ials handle sz offset = do {
     igt_assert (handle \<noteq> 0);
     rec \<leftarrow> igt_map_search (simple_objects ials) handle;
     Some (case rec of None \<Rightarrow> False | Some rec \<Rightarrow> same_record rec handle sz offset)
   }"

definition get_size :: "u64 \<Rightarrow> u64 \<Rightarrow> u64" where
  "get_size start end_addr =
     (let end_addr = (if end_addr \<noteq> 0 then end_addr else push_bit GEN8_GTT_ADDRESS_WIDTH 1)
      in end_addr - start)"

text \<open>The code leaves \<open>rec->pat_index\<close> of a reserved area uninitialised and never reads it; the
  model stores 0.\<close>

definition intel_allocator_simple_reserve ::
  "intel_allocator_simple \<Rightarrow> u32 \<Rightarrow> u64 \<Rightarrow> u64 \<Rightarrow> (bool \<times> intel_allocator_simple) option" where
  "intel_allocator_simple_reserve ials handle start end_addr = do {
     igt_assert (end_addr \<noteq> 0);
     let start = DECANONICAL start;
     let end_addr = DECANONICAL end_addr;
     igt_assert (end_addr > start \<or> end_addr = 0);
     let sz = get_size start end_addr;
     igt_assert (start + sz \<le> simple_end ials);
     igt_assert (start \<ge> simple_start ials);
     (ok, heap) \<leftarrow> simple_vma_heap_alloc_addr (simple_heap ials) start sz;
     let ials' = ials\<lparr>simple_heap := heap\<rparr>;
     if ok then do {
       reserved \<leftarrow> map_put (simple_reserved ials) start
         \<lparr>rec_handle = handle, rec_offset = start, rec_size = sz, rec_pat_index = 0\<rparr>;
       Some (True, ials'\<lparr>simple_reserved := reserved,
         simple_reserved_areas := simple_reserved_areas ials + 1,
         simple_reserved_size := simple_reserved_size ials + sz\<rparr>)
     } else Some (False, ials')
   }"

definition intel_allocator_simple_unreserve ::
  "intel_allocator_simple \<Rightarrow> u32 \<Rightarrow> u64 \<Rightarrow> u64 \<Rightarrow> (bool \<times> intel_allocator_simple) option" where
  "intel_allocator_simple_unreserve ials handle start end_addr = do {
     igt_assert (end_addr \<noteq> 0);
     let start = DECANONICAL start;
     let end_addr = DECANONICAL end_addr;
     igt_assert (end_addr > start \<or> end_addr = 0);
     let sz = get_size start end_addr;
     entry \<leftarrow> igt_map_search_entry (simple_reserved ials) start;
     (case (case entry of None \<Rightarrow> None | Some i \<Rightarrow> entry_data (map_table (simple_reserved ials) ! i)) of
        None \<Rightarrow> Some (False, ials)
      | Some rec \<Rightarrow>
          if rec_size rec \<noteq> sz then Some (False, ials)
          else if rec_handle rec \<noteq> handle then Some (False, ials)
          else do {
            heap \<leftarrow> simple_vma_heap_free (simple_heap ials) start sz;
            Some (True, ials\<lparr>simple_reserved := igt_map_remove_entry (simple_reserved ials) entry,
              simple_reserved_areas := simple_reserved_areas ials - 1,
              simple_reserved_size := simple_reserved_size ials - rec_size rec,
              simple_heap := heap\<rparr>)
          })
   }"

definition intel_allocator_simple_is_reserved ::
  "intel_allocator_simple \<Rightarrow> u64 \<Rightarrow> u64 \<Rightarrow> bool option" where
  "intel_allocator_simple_is_reserved ials start end_addr = do {
     igt_assert (end_addr \<noteq> 0);
     let start = DECANONICAL start;
     let end_addr = DECANONICAL end_addr;
     igt_assert (end_addr > start \<or> end_addr = 0);
     let sz = get_size start end_addr;
     rec \<leftarrow> igt_map_search (simple_reserved ials) start;
     Some (case rec of
       None \<Rightarrow> False
     | Some rec \<Rightarrow> rec_offset rec = start \<and> rec_size rec = sz)
   }"

text \<open>\<open>intel_allocator_simple_destroy\<close>: the holes and the records it frees.\<close>

definition intel_allocator_simple_destroy ::
  "intel_allocator_simple \<Rightarrow>
   simple_vma_hole list \<times> (u32, intel_allocator_record) igt_map_entry list \<times>
   (u64, intel_allocator_record) igt_map_entry list" where
  "intel_allocator_simple_destroy ials =
     (heap_holes (simple_heap ials), igt_map_destroy (Some (simple_objects ials)) True,
      igt_map_destroy (Some (simple_reserved ials)) True)"

definition intel_allocator_simple_is_empty :: "intel_allocator_simple \<Rightarrow> bool" where
  "intel_allocator_simple_is_empty ials \<longleftrightarrow>
     \<not> simple_allocated_objects ials \<noteq> 0 \<and> \<not> simple_reserved_areas ials \<noteq> 0"

text \<open>\<open>intel_allocator_simple_print\<close>: the consistency checks of the full report; the result is
  \<open>total_free\<close>. The records visited are \<open>foreach_data\<close>.\<close>

definition intel_allocator_simple_print :: "intel_allocator_simple \<Rightarrow> bool \<Rightarrow> u64 option" where
  "intel_allocator_simple_print ials full =
     (let total_free = sum_list (map hole_size (heap_holes (simple_heap ials)))
      in if full then do {
           igt_assert (total_free \<le> simple_total_size ials);
           igt_assert (total_free = simple_total_size ials - simple_allocated_size ials - simple_reserved_size ials);
           let objects = foreach_data (simple_objects ials);
           igt_assert (simple_allocated_size ials = sum_list (map rec_size objects));
           igt_assert (simple_allocated_objects ials = of_nat (length objects));
           let areas = foreach_data (simple_reserved ials);
           igt_assert (simple_reserved_areas ials = of_nat (length areas));
           igt_assert (simple_reserved_size ials = sum_list (map rec_size areas));
           Some total_free
         }
         else Some total_free)"


subsection \<open>The invariant\<close>

definition rec_span :: "intel_allocator_record \<Rightarrow> nat set" where
  "rec_span r = {unat (rec_offset r)..<unat (rec_offset r) + unat (rec_size r)}"

definition blocks :: "intel_allocator_simple \<Rightarrow> intel_allocator_record multiset" where
  "blocks ials = image_mset snd (map_contents (simple_objects ials)) +
     image_mset snd (map_contents (simple_reserved ials))"

abbreviation free_space :: "intel_allocator_simple \<Rightarrow> nat set" where
  "free_space ials \<equiv> free_addrs (heap_holes (simple_heap ials))"

text \<open>How often an address is in use: by the records given, or as free space.\<close>

definition cover :: "nat set \<Rightarrow> intel_allocator_record multiset \<Rightarrow> nat \<Rightarrow> nat" where
  "cover free bs a = size (filter_mset (\<lambda>r. a \<in> rec_span r) bs) + of_bool (a \<in> free)"

definition simple_inv :: "intel_allocator_simple \<Rightarrow> bool" where
  "simple_inv ials \<longleftrightarrow>
     map_of_keys igt_map_hash_32 igt_map_equal_32 (simple_objects ials) \<and>
     map_of_keys igt_map_hash_64 igt_map_equal_64 (simple_reserved ials) \<and>
     holes_inv (heap_holes (simple_heap ials)) \<and>
     unat (simple_start ials) < unat (simple_end ials) \<and>
     simple_total_size ials = simple_end ials - simple_start ials \<and>
     (\<forall>(k, r) \<in># map_contents (simple_objects ials). k = rec_handle r) \<and>
     (\<forall>(k, r) \<in># map_contents (simple_reserved ials). k = rec_offset r) \<and>
     (\<forall>r \<in># blocks ials. 0 < unat (rec_size r)) \<and>
     (\<forall>a. cover (free_space ials) (blocks ials) a =
        of_bool (unat (simple_start ials) \<le> a \<and> a < unat (simple_end ials))) \<and>
     simple_allocated_objects ials = of_nat (size (map_contents (simple_objects ials))) \<and>
     simple_allocated_size ials = sum_mset (image_mset (rec_size \<circ> snd) (map_contents (simple_objects ials))) \<and>
     simple_reserved_areas ials = of_nat (size (map_contents (simple_reserved ials))) \<and>
     simple_reserved_size ials = sum_mset (image_mset (rec_size \<circ> snd) (map_contents (simple_reserved ials)))"

lemma simple_invD:
  assumes "simple_inv ials"
  shows "map_of_keys igt_map_hash_32 igt_map_equal_32 (simple_objects ials)"
    "map_of_keys igt_map_hash_64 igt_map_equal_64 (simple_reserved ials)"
    "holes_inv (heap_holes (simple_heap ials))"
    "unat (simple_start ials) < unat (simple_end ials)"
    "(k, r) \<in># map_contents (simple_objects ials) \<Longrightarrow> k = rec_handle r"
    "(a, r) \<in># map_contents (simple_reserved ials) \<Longrightarrow> a = rec_offset r"
    "r \<in># blocks ials \<Longrightarrow> 0 < unat (rec_size r)"
    "cover (free_space ials) (blocks ials) x =
       of_bool (unat (simple_start ials) \<le> x \<and> x < unat (simple_end ials))"
  using assms by (auto simp: simple_inv_def)

text \<open>The abstract state: the objects by handle and the reserved areas by start address.\<close>

abbreviation object_of :: "intel_allocator_simple \<Rightarrow> u32 \<Rightarrow> intel_allocator_record option" where
  "object_of ials \<equiv> map_abs (simple_objects ials)"

abbreviation area_of :: "intel_allocator_simple \<Rightarrow> u64 \<Rightarrow> intel_allocator_record option" where
  "area_of ials \<equiv> map_abs (simple_reserved ials)"

lemma igt_map_equal_eq [simp]:
  "igt_map_equal_32 a b \<longleftrightarrow> a = b" "igt_map_equal_64 c d \<longleftrightarrow> c = d"
  by (simp_all add: igt_map_equal_32_def igt_map_equal_64_def)

lemma object_block: "simple_inv ials \<Longrightarrow> object_of ials h = Some r \<Longrightarrow> r \<in># blocks ials \<and> rec_handle r = h"
  using map_abs_Some_contents [OF simple_invD(1), of ials h r] simple_invD(5) [of ials h r]
  by (force simp: blocks_def)

lemma area_block: "simple_inv ials \<Longrightarrow> area_of ials a = Some r \<Longrightarrow> r \<in># blocks ials \<and> rec_offset r = a"
  using map_abs_Some_contents [OF simple_invD(2), of ials a r] simple_invD(6) [of ials a r]
  by (force simp: blocks_def)

subsubsection \<open>Covering the range\<close>

lemma cover_take:
  "rec_span r \<subseteq> free \<Longrightarrow> cover (free - rec_span r) (add_mset r bs) = cover free bs"
  by (auto simp: cover_def fun_eq_iff)

lemma cover_give:
  assumes "\<forall>a. cover free (add_mset r bs) a \<le> 1"
  shows "free \<inter> rec_span r = {}" "cover (free \<union> rec_span r) bs = cover free (add_mset r bs)"
proof -
  have "a \<notin> free" if "a \<in> rec_span r" for a
    using assms [THEN spec, of a] that by (auto simp: cover_def split: if_splits)
  then show "free \<inter> rec_span r = {}" by blast
  then show "cover (free \<union> rec_span r) bs = cover free (add_mset r bs)"
    by (auto simp: cover_def fun_eq_iff)
qed

lemma simple_cover_le: "simple_inv ials \<Longrightarrow> cover (free_space ials) (blocks ials) a \<le> 1"
  using simple_invD(8) [of ials a] by simp

lemma cover_pos: "r \<in># bs \<Longrightarrow> a \<in> rec_span r \<Longrightarrow> 0 < cover free bs a"
  by (auto simp: cover_def simp flip: nonempty_has_size)

lemma rec_span_bounds: "0 < unat (rec_size r) \<Longrightarrow> unat (rec_offset r) \<in> rec_span r"
  "0 < unat (rec_size r) \<Longrightarrow> unat (rec_offset r) + unat (rec_size r) - 1 \<in> rec_span r"
  by (auto simp: rec_span_def)

lemma block_bounds:
  assumes inv: "simple_inv ials" and r: "r \<in># blocks ials"
  shows "unat (simple_start ials) \<le> unat (rec_offset r)"
    "unat (rec_offset r) + unat (rec_size r) \<le> unat (simple_end ials)"
proof -
  have pos: "0 < unat (rec_size r)" using simple_invD(7) [OF inv r] .
  have "unat (simple_start ials) \<le> a \<and> a < unat (simple_end ials)" if "a \<in> rec_span r" for a
    using cover_pos [OF r that, of "free_space ials"] simple_invD(8) [OF inv, of a]
    by (simp split: if_splits)
  from this [OF rec_span_bounds(1) [OF pos]] this [OF rec_span_bounds(2) [OF pos]] pos
  show "unat (simple_start ials) \<le> unat (rec_offset r)"
    "unat (rec_offset r) + unat (rec_size r) \<le> unat (simple_end ials)" by auto
qed

lemma free_space_bounds:
  assumes "simple_inv ials" "a \<in> free_space ials"
  shows "unat (simple_start ials) \<le> a" "a < unat (simple_end ials)"
  using simple_invD(8) [OF assms(1), of a] assms(2) by (auto simp: cover_def of_bool_def split: if_splits)

text \<open>Blocks do not overlap each other or the free space.\<close>

lemma blocks_disjoint:
  assumes inv: "simple_inv ials" and eq: "blocks ials = add_mset r bs" and r': "r' \<in># bs"
  shows "rec_span r \<inter> rec_span r' = {}"
proof -
  have "False" if a: "a \<in> rec_span r" "a \<in> rec_span r'" for a
  proof -
    have "0 < cover {} bs a" using cover_pos [OF r' a(2)] .
    then have "2 \<le> cover (free_space ials) (blocks ials) a" using a(1) by (simp add: eq cover_def)
    with simple_cover_le [OF inv, of a] show False by simp
  qed
  then show ?thesis by blast
qed

subsection \<open>Creation\<close>

lemma simple_create_correct:
  assumes "unat start < unat end_addr"
  shows "\<exists>ials. intel_allocator_simple_create start end_addr strategy = Some ials \<and> simple_inv ials \<and>
    simple_start ials = start \<and> simple_end ials = end_addr \<and>
    object_of ials = (\<lambda>_. None) \<and> area_of ials = (\<lambda>_. None) \<and>
    heap_strategy (simple_heap ials) = (if strategy = ALLOC_STRATEGY_LOW_TO_HIGH
       then ALLOC_STRATEGY_LOW_TO_HIGH else ALLOC_STRATEGY_HIGH_TO_LOW)"
proof -
  have le: "start \<le> end_addr" using assms by (simp add: word_le_nat_alt)
  then have d: "unat (end_addr - start) = unat end_addr - unat start" by (simp add: unat_sub)
  obtain heap where heap: "simple_vma_heap_init start (end_addr - start) strategy = Some heap"
    "holes_inv (heap_holes heap)"
    "free_addrs (heap_holes heap) = {unat start..<unat start + unat (end_addr - start)}"
    "heap_strategy heap = (if strategy = ALLOC_STRATEGY_LOW_TO_HIGH
       then ALLOC_STRATEGY_LOW_TO_HIGH else ALLOC_STRATEGY_HIGH_TO_LOW)"
    using vma_heap_init_correct [of "end_addr - start" start strategy] assms d unat_u64_lt [of end_addr]
    by auto
  have "{unat start..<unat start + unat (end_addr - start)} = {unat start..<unat end_addr}"
    using assms by (auto simp: d)
  then show ?thesis
    using heap assms
    by (simp add: intel_allocator_simple_create_def simple_inv_def blocks_def cover_def
        map_abs_create keys_ok_32 keys_ok_64 map_of_keys_create)
qed


subsection \<open>Moving a block between the free space and a map\<close>

lemma simple_inv_add_object:
  assumes inv: "simple_inv ials" and heap: "holes_inv (heap_holes heap)"
    "free_addrs (heap_holes heap) = free_space ials - rec_span r" "rec_span r \<subseteq> free_space ials"
    and r: "0 < unat (rec_size r)"
    and objects: "map_of_keys igt_map_hash_32 igt_map_equal_32 objects"
      "map_contents objects = add_mset (rec_handle r, r) (map_contents (simple_objects ials))"
  shows "simple_inv (ials\<lparr>simple_heap := heap, simple_objects := objects,
    simple_allocated_objects := simple_allocated_objects ials + 1,
    simple_allocated_size := simple_allocated_size ials + rec_size r\<rparr>)"
  using inv heap(1) r objects cover_take [OF heap(3), of "blocks ials"]
  unfolding simple_inv_def by (simp add: blocks_def heap(2) add.commute)

lemma simple_inv_add_area:
  assumes inv: "simple_inv ials" and heap: "holes_inv (heap_holes heap)"
    "free_addrs (heap_holes heap) = free_space ials - rec_span r" "rec_span r \<subseteq> free_space ials"
    and r: "0 < unat (rec_size r)"
    and reserved: "map_of_keys igt_map_hash_64 igt_map_equal_64 reserved"
      "map_contents reserved = add_mset (rec_offset r, r) (map_contents (simple_reserved ials))"
  shows "simple_inv (ials\<lparr>simple_heap := heap, simple_reserved := reserved,
    simple_reserved_areas := simple_reserved_areas ials + 1,
    simple_reserved_size := simple_reserved_size ials + rec_size r\<rparr>)"
  using inv heap(1) r reserved cover_take [OF heap(3), of "blocks ials"]
  unfolding simple_inv_def by (simp add: blocks_def heap(2) add.commute)

lemma simple_inv_del_object:
  assumes inv: "simple_inv ials" and heap: "holes_inv (heap_holes heap)"
    "free_addrs (heap_holes heap) = free_space ials \<union> rec_span r"
    and objects: "map_of_keys igt_map_hash_32 igt_map_equal_32 objects"
      "map_contents (simple_objects ials) = add_mset (k, r) (map_contents objects)"
  shows "simple_inv (ials\<lparr>simple_heap := heap, simple_objects := objects,
    simple_allocated_objects := simple_allocated_objects ials - 1,
    simple_allocated_size := simple_allocated_size ials - rec_size r\<rparr>)"
proof -
  have b: "blocks ials = add_mset r (image_mset snd (map_contents objects) +
      image_mset snd (map_contents (simple_reserved ials)))"
    by (simp add: blocks_def objects(2))
  have "\<forall>a. cover (free_space ials) (blocks ials) a \<le> 1" using simple_cover_le [OF inv] by blast
  from cover_give(2) [OF this [unfolded b]] show ?thesis
    using inv heap(1) objects unfolding simple_inv_def b by (simp add: blocks_def heap(2))
qed

lemma simple_inv_del_area:
  assumes inv: "simple_inv ials" and heap: "holes_inv (heap_holes heap)"
    "free_addrs (heap_holes heap) = free_space ials \<union> rec_span r"
    and reserved: "map_of_keys igt_map_hash_64 igt_map_equal_64 reserved"
      "map_contents (simple_reserved ials) = add_mset (k, r) (map_contents reserved)"
  shows "simple_inv (ials\<lparr>simple_heap := heap, simple_reserved := reserved,
    simple_reserved_areas := simple_reserved_areas ials - 1,
    simple_reserved_size := simple_reserved_size ials - rec_size r\<rparr>)"
proof -
  have b: "blocks ials = add_mset r (image_mset snd (map_contents (simple_objects ials)) +
      image_mset snd (map_contents reserved))"
    by (simp add: blocks_def reserved(2))
  have "\<forall>a. cover (free_space ials) (blocks ials) a \<le> 1" using simple_cover_le [OF inv] by blast
  from cover_give(2) [OF this [unfolded b]] show ?thesis
    using inv heap(1) reserved unfolding simple_inv_def b by (simp add: blocks_def heap(2))
qed

text \<open>Giving a block back to the heap succeeds and merges exactly its span.\<close>

lemma heap_free_block:
  assumes inv: "simple_inv ials" and r: "r \<in># blocks ials"
  shows "\<exists>heap. simple_vma_heap_free (simple_heap ials) (rec_offset r) (rec_size r) = Some heap \<and>
    holes_inv (heap_holes heap) \<and> heap_strategy heap = heap_strategy (simple_heap ials) \<and>
    free_addrs (heap_holes heap) = free_space ials \<union> rec_span r"
proof -
  obtain bs where bs: "blocks ials = add_mset r bs" using r by (metis insert_DiffM)
  have "\<forall>a. cover (free_space ials) (add_mset r bs) a \<le> 1"
    using simple_cover_le [OF inv] unfolding bs by blast
  then have disj: "free_space ials \<inter> rec_span r = {}" by (rule cover_give)
  have top: "unat (rec_offset r) + unat (rec_size r) \<le> unat (simple_end ials)"
    using block_bounds [OF inv r] by simp
  have "2 ^ 64 - 1 \<notin> free_space ials \<union> rec_span r"
    using free_space_bounds(2) [OF inv, of "2 ^ 64 - 1"] top unat_u64_lt [of "simple_end ials"]
    by (auto simp: rec_span_def)
  then have part: "\<not> {0, 2 ^ 64 - 1} \<subseteq> free_space ials \<union> rec_span r" by blast
  show ?thesis
    using vma_heap_free_disjoint [OF simple_invD(3) [OF inv] simple_invD(7) [OF inv r], of "rec_offset r"]
      disj part top unat_u64_lt [of "simple_end ials"]
    by (simp add: rec_span_def)
qed

subsection \<open>Allocation\<close>

lemma simple_alloc_known:
  assumes "simple_inv ials" "handle \<noteq> 0" "object_of ials handle = Some r"
  shows "intel_allocator_simple_alloc ials handle sz alignment pat_index strategy =
    (if rec_size r = sz \<and> rec_pat_index r = pat_index then Some (rec_offset r, ials) else None)"
  using assms map_search_abs [OF simple_invD(1) [OF assms(1)]]
  by (simp add: intel_allocator_simple_alloc_def igt_assert_def)

definition fits_free :: "intel_allocator_simple \<Rightarrow> u64 \<Rightarrow> u64 \<Rightarrow> nat \<Rightarrow> bool" where
  "fits_free ials sz alignment a \<longleftrightarrow> unat alignment dvd a \<and> {a..<a + unat sz} \<subseteq> free_space ials"

lemma simple_alloc_new:
  assumes inv: "simple_inv ials" and handle: "handle \<noteq> 0" "object_of ials handle = None"
    and sz: "0 < unat sz" "0 < unat alignment"
    and room: "size (map_contents (simple_objects ials)) < 2 ^ 16"
  shows "\<exists>r ials'. intel_allocator_simple_alloc ials handle sz alignment pat_index strategy = Some (r, ials') \<and>
    simple_inv ials' \<and> simple_start ials' = simple_start ials \<and> simple_end ials' = simple_end ials \<and>
    simple_reserved ials' = simple_reserved ials \<and>
    heap_strategy (simple_heap ials') = heap_strategy (simple_heap ials) \<and>
    (if \<exists>a. fits_free ials sz alignment a
     then r \<noteq> ALLOC_INVALID_ADDRESS \<and> fits_free ials sz alignment (unat r) \<and>
       (\<forall>a. fits_free ials sz alignment a \<longrightarrow>
          (if effective_strategy (simple_heap ials) strategy = ALLOC_STRATEGY_HIGH_TO_LOW
           then a \<le> unat r else unat r \<le> a)) \<and>
       object_of ials' = (object_of ials)(handle \<mapsto>
         \<lparr>rec_handle = handle, rec_offset = r, rec_size = sz, rec_pat_index = pat_index\<rparr>) \<and>
       size (map_contents (simple_objects ials')) = size (map_contents (simple_objects ials)) + 1 \<and>
       free_space ials' = free_space ials - {unat r..<unat r + unat sz}
     else r = ALLOC_INVALID_ADDRESS \<and> ials' = ials)"
proof -
  note hi = simple_invD(3) [OF inv]
  obtain r heap where a: "simple_vma_heap_alloc (simple_heap ials) sz alignment strategy = Some (r, heap)"
    and spec: "case r of
        None \<Rightarrow> heap = simple_heap ials \<and> (\<forall>a. \<not> fits_in (heap_holes (simple_heap ials)) (unat alignment) (unat sz) a)
      | Some off \<Rightarrow>
          carves (heap_holes (simple_heap ials)) (unat off) (unat sz) (heap_holes heap) \<and>
          heap_strategy heap = heap_strategy (simple_heap ials) \<and>
          fits_in (heap_holes (simple_heap ials)) (unat alignment) (unat sz) (unat off) \<and>
          (\<forall>a. fits_in (heap_holes (simple_heap ials)) (unat alignment) (unat sz) a \<longrightarrow>
             (if effective_strategy (simple_heap ials) strategy = ALLOC_STRATEGY_HIGH_TO_LOW
              then a \<le> unat off else unat off \<le> a))"
    using vma_heap_alloc_cases [OF hi sz, of strategy] by blast
  have fits: "fits_in (heap_holes (simple_heap ials)) (unat alignment) (unat sz) a = fits_free ials sz alignment a" for a
    using fits_in_iff_free [OF hi sz(1)] by (simp add: fits_free_def)
  note search = map_search_abs [OF simple_invD(1) [OF inv], of handle, unfolded handle(2)]
  show ?thesis
  proof (cases r)
    case None
    then show ?thesis using spec a inv handle search
      by (simp add: intel_allocator_simple_alloc_def fits)
  next
    case (Some off)
    let ?rec = "\<lparr>rec_handle = handle, rec_offset = off, rec_size = sz, rec_pat_index = pat_index\<rparr>"
    have f: "fits_free ials sz alignment (unat off)" using spec Some fits by simp
    have span: "rec_span ?rec = {unat off..<unat off + unat sz}" by (simp add: rec_span_def)
    have c: "holes_inv (heap_holes heap)" "free_addrs (heap_holes heap) = free_space ials - rec_span ?rec"
      using spec Some by (simp_all add: carves_def span)
    obtain objects where o: "map_put (simple_objects ials) handle ?rec = Some objects"
      "map_of_keys igt_map_hash_32 igt_map_equal_32 objects"
      "map_contents objects = add_mset (handle, ?rec) (map_contents (simple_objects ials))"
      "map_abs objects = (object_of ials)(handle \<mapsto> ?rec)"
      using map_put_new [OF keys_ok_32 simple_invD(1) [OF inv] room handle(2), of ?rec]
      by (auto simp: fun_upd_def eq_commute [of handle])
    let ?ials = "ials\<lparr>simple_heap := heap, simple_objects := objects,
      simple_allocated_objects := simple_allocated_objects ials + 1,
      simple_allocated_size := simple_allocated_size ials + sz\<rparr>"
    have "simple_inv ?ials"
      using simple_inv_add_object [OF inv c, of objects] f o sz(1) by (simp add: fits_free_def span)
    moreover have "intel_allocator_simple_alloc ials handle sz alignment pat_index strategy = Some (off, ?ials)"
      using a Some handle search o(1) by (simp add: intel_allocator_simple_alloc_def)
    moreover have "off \<noteq> ALLOC_INVALID_ADDRESS"
    proof
      assume "off = ALLOC_INVALID_ADDRESS"
      then have "unat off = 2 ^ 64 - 1" by (simp add: ALLOC_INVALID_ADDRESS_def unsigned_minus_1_eq_mask mask_eq_exp_minus_1)
      moreover have "unat off < unat (simple_end ials)"
        using f sz(1) by (intro free_space_bounds(2) [OF inv]) (auto simp: fits_free_def)
      ultimately show False using unat_u64_lt [of "simple_end ials"] by simp
    qed
    ultimately show ?thesis using f spec Some o c fits span by auto
  qed
qed


subsection \<open>Freeing\<close>

lemma simple_free_known:
  assumes inv: "simple_inv ials" and r: "object_of ials handle = Some r"
  shows "\<exists>ials'. intel_allocator_simple_free ials handle = Some (True, ials') \<and> simple_inv ials' \<and>
    simple_start ials' = simple_start ials \<and> simple_end ials' = simple_end ials \<and>
    simple_reserved ials' = simple_reserved ials \<and>
    heap_strategy (simple_heap ials') = heap_strategy (simple_heap ials) \<and>
    object_of ials' = (object_of ials)(handle := None) \<and>
    size (map_contents (simple_objects ials')) + 1 = size (map_contents (simple_objects ials)) \<and>
    free_space ials' = free_space ials \<union> rec_span r"
proof -
  note m = simple_invD(1) [OF inv]
  obtain i where i: "igt_map_search_entry (simple_objects ials) handle = Some (Some i)"
    "entry_data (map_table (simple_objects ials) ! i) = Some r"
    "map_drop (simple_objects ials) handle = Some (igt_map_remove_entry (simple_objects ials) (Some i))"
    using search_entry_abs [OF m, of handle] r by auto
  let ?objects = "igt_map_remove_entry (simple_objects ials) (Some i)"
  obtain k where o: "map_of_keys igt_map_hash_32 igt_map_equal_32 ?objects"
    "map_contents (simple_objects ials) = add_mset (k, r) (map_contents ?objects)"
    "map_abs ?objects = (object_of ials)(handle := None)"
    using map_drop_found [OF keys_ok_32 m r] i(3) by (auto simp: fun_upd_def eq_commute [of handle])
  have "r \<in># blocks ials" using object_block [OF inv r] ..
  from heap_free_block [OF inv this] obtain heap where heap:
    "simple_vma_heap_free (simple_heap ials) (rec_offset r) (rec_size r) = Some heap"
    "holes_inv (heap_holes heap)" "heap_strategy heap = heap_strategy (simple_heap ials)"
    "free_addrs (heap_holes heap) = free_space ials \<union> rec_span r" by blast
  let ?ials = "ials\<lparr>simple_heap := heap, simple_objects := ?objects,
    simple_allocated_objects := simple_allocated_objects ials - 1,
    simple_allocated_size := simple_allocated_size ials - rec_size r\<rparr>"
  have "simple_inv ?ials" by (rule simple_inv_del_object [OF inv heap(2,4) o(1,2)])
  moreover have "intel_allocator_simple_free ials handle = Some (True, ?ials)"
    using i heap(1) by (simp add: intel_allocator_simple_free_def Let_def)
  ultimately show ?thesis using heap o by auto
qed

lemma simple_free_unknown:
  assumes "simple_inv ials" "object_of ials handle = None"
  shows "intel_allocator_simple_free ials handle = Some (False, ials)"
  using search_entry_abs [OF simple_invD(1) [OF assms(1)], of handle] assms(2)
  by (simp add: intel_allocator_simple_free_def)

subsection \<open>Queries\<close>

lemma simple_is_allocated_iff:
  assumes inv: "simple_inv ials" and handle: "handle \<noteq> 0"
  shows "intel_allocator_simple_is_allocated ials handle sz offset = Some (\<exists>r. object_of ials handle = Some r \<and>
    rec_size r = sz \<and> DECANONICAL (rec_offset r) = DECANONICAL offset)"
proof -
  note search = map_search_abs [OF simple_invD(1) [OF inv], of handle]
  show ?thesis
    using object_block [OF inv, of handle] handle
    by (cases "object_of ials handle")
      (auto simp: intel_allocator_simple_is_allocated_def search same_record_def)
qed

lemma contents_empty_iff:
  assumes keys: "keys_ok hf eqf" and m: "map_of_keys hf eqf m"
  shows "map_contents m = {#} \<longleftrightarrow> map_abs m = (\<lambda>_. None)"
proof
  assume "map_abs m = (\<lambda>_. None)"
  then have "(k, r) \<notin># map_contents m" for k r
    using map_abs_Some_contents [OF m, of k r] keys_okD(1) [OF keys, of k] by auto
  then have "p \<notin># map_contents m" for p by (cases p) simp
  then show "map_contents m = {#}" by (metis multiset_nonemptyE)
next
  assume "map_contents m = {#}"
  then have "map_abs m k \<noteq> Some r" for k r using map_abs_Some_contents [OF m, of k r] by simp
  then have "map_abs m k = None" for k by (cases "map_abs m k") auto
  then show "map_abs m = (\<lambda>_. None)" by (simp add: fun_eq_iff)
qed

lemma simple_is_empty_iff:
  assumes inv: "simple_inv ials"
    and small: "size (map_contents (simple_objects ials)) \<le> 2 ^ 16" "size (map_contents (simple_reserved ials)) \<le> 2 ^ 16"
  shows "intel_allocator_simple_is_empty ials \<longleftrightarrow> object_of ials = (\<lambda>_. None) \<and> area_of ials = (\<lambda>_. None)"
proof -
  have zero: "(of_nat n :: u64) = 0 \<longleftrightarrow> n = 0" if "n \<le> 2 ^ 16" for n
    using that dvd_imp_le [of "2 ^ 64" n] by (auto simp: word_of_nat_eq_0_iff)
  note empty_32 = contents_empty_iff [OF keys_ok_32 simple_invD(1) [OF inv]]
    and empty_64 = contents_empty_iff [OF keys_ok_64 simple_invD(2) [OF inv]]
  show ?thesis
    using inv zero [OF small(1)] zero [OF small(2)]
    by (simp add: intel_allocator_simple_is_empty_def simple_inv_def empty_32 empty_64)
qed


subsection \<open>Reserved areas\<close>

text \<open>The asserted shape of an area, where it ends, and its size.\<close>

definition valid_area :: "u64 \<Rightarrow> u64 \<Rightarrow> bool" where
  "valid_area start end_addr \<longleftrightarrow> end_addr \<noteq> 0 \<and>
     (DECANONICAL end_addr > DECANONICAL start \<or> DECANONICAL end_addr = 0)"

definition area_end :: "u64 \<Rightarrow> nat" where
  "area_end end_addr = (if DECANONICAL end_addr = 0 then 2 ^ 48 else unat (DECANONICAL end_addr))"

definition area_size :: "u64 \<Rightarrow> u64 \<Rightarrow> u64" where
  "area_size start end_addr = get_size (DECANONICAL start) (DECANONICAL end_addr)"

lemma area_size_nat:
  assumes "valid_area start end_addr"
  shows "unat (area_size start end_addr) = area_end end_addr - unat (DECANONICAL start)"
    "unat (DECANONICAL start) < area_end end_addr" "area_end end_addr \<le> 2 ^ 48"
proof -
  note lt = DECANONICAL_less [of start] DECANONICAL_less [of end_addr]
  have p: "unat (push_bit GEN8_GTT_ADDRESS_WIDTH 1 :: u64) = 2 ^ 48"
    by (simp add: GEN8_GTT_ADDRESS_WIDTH_def)
  show "area_end end_addr \<le> 2 ^ 48" using lt by (simp add: area_end_def)
  show less: "unat (DECANONICAL start) < area_end end_addr"
    using assms lt by (auto simp: area_end_def valid_area_def word_less_nat_alt)
  show "unat (area_size start end_addr) = area_end end_addr - unat (DECANONICAL start)"
  proof (cases "DECANONICAL end_addr = 0")
    case True
    have "DECANONICAL start \<le> push_bit GEN8_GTT_ADDRESS_WIDTH 1"
      using lt(1) p by (simp add: word_le_nat_alt)
    then show ?thesis using True p by (simp add: area_size_def get_size_def area_end_def unat_sub)
  next
    case False
    then have "DECANONICAL start \<le> DECANONICAL end_addr" using assms by (auto simp: valid_area_def)
    then show ?thesis using False by (simp add: area_size_def get_size_def area_end_def unat_sub)
  qed
qed

lemma area_span:
  assumes "valid_area start end_addr"
  shows "unat (DECANONICAL start) + unat (area_size start end_addr) = area_end end_addr"
    "0 < unat (area_size start end_addr)"
    "unat (DECANONICAL start + area_size start end_addr) = area_end end_addr"
proof -
  show s: "unat (DECANONICAL start) + unat (area_size start end_addr) = area_end end_addr"
    "0 < unat (area_size start end_addr)" using area_size_nat [OF assms] by simp_all
  show "unat (DECANONICAL start + area_size start end_addr) = area_end end_addr"
    using s(1) area_size_nat(3) [OF assms] by (subst unat_range_end) simp_all
qed

abbreviation area_range :: "u64 \<Rightarrow> u64 \<Rightarrow> nat set" where
  "area_range start end_addr \<equiv> {unat (DECANONICAL start)..<area_end end_addr}"

lemma simple_reserve_cases:
  assumes inv: "simple_inv ials" and area: "valid_area start end_addr"
    and range: "unat (simple_start ials) \<le> unat (DECANONICAL start)" "area_end end_addr \<le> unat (simple_end ials)"
    and room: "size (map_contents (simple_reserved ials)) < 2 ^ 16"
  shows "\<exists>ials'. intel_allocator_simple_reserve ials handle start end_addr =
      Some (area_range start end_addr \<subseteq> free_space ials, ials') \<and> simple_inv ials' \<and>
    simple_start ials' = simple_start ials \<and> simple_end ials' = simple_end ials \<and>
    simple_objects ials' = simple_objects ials \<and>
    heap_strategy (simple_heap ials') = heap_strategy (simple_heap ials) \<and>
    (if area_range start end_addr \<subseteq> free_space ials
     then area_of ials' = (area_of ials)(DECANONICAL start \<mapsto>
         \<lparr>rec_handle = handle, rec_offset = DECANONICAL start, rec_size = area_size start end_addr,
          rec_pat_index = 0\<rparr>) \<and>
       size (map_contents (simple_reserved ials')) = size (map_contents (simple_reserved ials)) + 1 \<and>
       free_space ials' = free_space ials - area_range start end_addr
     else ials' = ials)"
proof -
  let ?s = "DECANONICAL start" and ?sz = "area_size start end_addr"
  let ?rec = "\<lparr>rec_handle = handle, rec_offset = ?s, rec_size = ?sz, rec_pat_index = 0\<rparr>"
  note span = area_span [OF area]
  have asserts: "end_addr \<noteq> 0" "DECANONICAL end_addr > ?s \<or> DECANONICAL end_addr = 0"
    "?s + ?sz \<le> simple_end ials" "?s \<ge> simple_start ials"
    using area range span(3) by (auto simp: valid_area_def word_le_nat_alt)
  have rs: "rec_span ?rec = area_range start end_addr" using span(1) by (simp add: rec_span_def)
  have top: "unat ?s + unat ?sz < 2 ^ 64"
    using area_size_nat(3) [OF area] by (simp add: span(1))
  obtain heap where heap: "simple_vma_heap_alloc_addr (simple_heap ials) ?s ?sz =
      Some (rec_span ?rec \<subseteq> free_space ials, heap)"
    "heap_strategy heap = heap_strategy (simple_heap ials)"
    "if rec_span ?rec \<subseteq> free_space ials
     then carves (heap_holes (simple_heap ials)) (unat ?s) (unat ?sz) (heap_holes heap)
     else heap = simple_heap ials"
    using vma_heap_alloc_addr_cases [OF simple_invD(3) [OF inv] span(2) top] by (auto simp: rec_span_def)
  show ?thesis
  proof (cases "rec_span ?rec \<subseteq> free_space ials")
    case False
    then have "intel_allocator_simple_reserve ials handle start end_addr = Some (False, ials)"
      using heap asserts
      by (simp add: intel_allocator_simple_reserve_def Let_def flip: area_size_def)
    then show ?thesis using False inv by (simp add: rs)
  next
    case True
    have c: "holes_inv (heap_holes heap)" "free_addrs (heap_holes heap) = free_space ials - rec_span ?rec"
      using heap(3) True by (simp_all add: carves_def rec_span_def)
    have "area_of ials ?s = None"
    proof (rule ccontr)
      assume "area_of ials ?s \<noteq> None"
      then obtain r where "area_of ials ?s = Some r" by auto
      from area_block [OF inv this] have r: "r \<in># blocks ials" "rec_offset r = ?s" by simp_all
      have "unat ?s \<in> rec_span r" using simple_invD(7) [OF inv r(1)] r(2) by (simp add: rec_span_def)
      then have "0 < cover {} (blocks ials) (unat ?s)" using cover_pos [OF r(1)] by blast
      moreover have "unat ?s \<in> free_space ials" using True span(2) by (auto simp: rec_span_def)
      ultimately have "2 \<le> cover (free_space ials) (blocks ials) (unat ?s)" by (simp add: cover_def)
      with simple_cover_le [OF inv, of "unat ?s"] show False by simp
    qed
    then obtain reserved where o: "map_put (simple_reserved ials) ?s ?rec = Some reserved"
      "map_of_keys igt_map_hash_64 igt_map_equal_64 reserved"
      "map_contents reserved = add_mset (?s, ?rec) (map_contents (simple_reserved ials))"
      "map_abs reserved = (area_of ials)(?s \<mapsto> ?rec)"
      using map_put_new [OF keys_ok_64 simple_invD(2) [OF inv] room, of ?s ?rec]
      by (auto simp: fun_upd_def eq_commute [of ?s])
    let ?ials = "ials\<lparr>simple_heap := heap, simple_reserved := reserved,
      simple_reserved_areas := simple_reserved_areas ials + 1,
      simple_reserved_size := simple_reserved_size ials + ?sz\<rparr>"
    have "simple_inv ?ials"
      using simple_inv_add_area [OF inv c, of reserved] True o span(2) by simp
    moreover have "intel_allocator_simple_reserve ials handle start end_addr = Some (True, ?ials)"
      using heap(1) True asserts o(1)
      by (simp add: intel_allocator_simple_reserve_def Let_def flip: area_size_def)
    ultimately show ?thesis using True c heap(2) o by (auto simp: rs)
  qed
qed


lemma simple_reserve_asserts:
  assumes "\<not> (valid_area start end_addr \<and> unat (simple_start ials) \<le> unat (DECANONICAL start) \<and>
    area_end end_addr \<le> unat (simple_end ials))"
  shows "intel_allocator_simple_reserve ials handle start end_addr = None"
proof (cases "valid_area start end_addr")
  case True
  then have "\<not> (DECANONICAL start + area_size start end_addr \<le> simple_end ials \<and> DECANONICAL start \<ge> simple_start ials)"
    using assms area_span(3) [OF True] by (auto simp: word_le_nat_alt)
  then show ?thesis
    by (auto simp: intel_allocator_simple_reserve_def igt_assert_def Let_def simp flip: area_size_def)
next
  case False
  then show ?thesis by (auto simp: intel_allocator_simple_reserve_def igt_assert_def valid_area_def Let_def)
qed

text \<open>The condition under which an area is unreserved: the whole area, by its owner.\<close>

definition owns_area :: "intel_allocator_simple \<Rightarrow> u32 \<Rightarrow> u64 \<Rightarrow> u64 \<Rightarrow> bool" where
  "owns_area ials handle start end_addr \<longleftrightarrow> (\<exists>r. area_of ials (DECANONICAL start) = Some r \<and>
     rec_size r = area_size start end_addr \<and> rec_handle r = handle)"

lemma simple_unreserve_cases:
  assumes inv: "simple_inv ials" and area: "valid_area start end_addr"
  shows "\<exists>ials'. intel_allocator_simple_unreserve ials handle start end_addr =
      Some (owns_area ials handle start end_addr, ials') \<and> simple_inv ials' \<and>
    simple_start ials' = simple_start ials \<and> simple_end ials' = simple_end ials \<and>
    simple_objects ials' = simple_objects ials \<and>
    heap_strategy (simple_heap ials') = heap_strategy (simple_heap ials) \<and>
    (if owns_area ials handle start end_addr
     then area_of ials' = (area_of ials)(DECANONICAL start := None) \<and>
       size (map_contents (simple_reserved ials')) + 1 = size (map_contents (simple_reserved ials)) \<and>
       free_space ials' = free_space ials \<union> area_range start end_addr
     else ials' = ials)"
proof -
  let ?s = "DECANONICAL start" and ?sz = "area_size start end_addr"
  note m = simple_invD(2) [OF inv]
  have asserts: "end_addr \<noteq> 0" "DECANONICAL end_addr > ?s \<or> DECANONICAL end_addr = 0"
    using area by (auto simp: valid_area_def)
  have unfold: "intel_allocator_simple_unreserve ials handle start end_addr = do {
     entry \<leftarrow> igt_map_search_entry (simple_reserved ials) ?s;
     (case (case entry of None \<Rightarrow> None | Some i \<Rightarrow> entry_data (map_table (simple_reserved ials) ! i)) of
        None \<Rightarrow> Some (False, ials)
      | Some rec \<Rightarrow>
          if rec_size rec \<noteq> ?sz then Some (False, ials)
          else if rec_handle rec \<noteq> handle then Some (False, ials)
          else do {
            heap \<leftarrow> simple_vma_heap_free (simple_heap ials) ?s ?sz;
            Some (True, ials\<lparr>simple_reserved := igt_map_remove_entry (simple_reserved ials) entry,
              simple_reserved_areas := simple_reserved_areas ials - 1,
              simple_reserved_size := simple_reserved_size ials - rec_size rec,
              simple_heap := heap\<rparr>)
          })
   }"
    unfolding intel_allocator_simple_unreserve_def Let_def area_size_def
      igt_assert_bind_True [OF asserts(1)] igt_assert_bind_True [OF asserts(2)] by (rule refl)
  show ?thesis
  proof (cases "owns_area ials handle start end_addr")
    case True
    then obtain r where r: "area_of ials ?s = Some r" "rec_size r = ?sz" "rec_handle r = handle"
      by (auto simp: owns_area_def)
    from area_block [OF inv r(1)] have b: "r \<in># blocks ials" "rec_offset r = ?s" by simp_all
    obtain i where i: "igt_map_search_entry (simple_reserved ials) ?s = Some (Some i)"
      "entry_data (map_table (simple_reserved ials) ! i) = Some r"
      "map_drop (simple_reserved ials) ?s = Some (igt_map_remove_entry (simple_reserved ials) (Some i))"
      using search_entry_abs [OF m, of ?s] r(1) by auto
    let ?reserved = "igt_map_remove_entry (simple_reserved ials) (Some i)"
    obtain k where o: "map_of_keys igt_map_hash_64 igt_map_equal_64 ?reserved"
      "map_contents (simple_reserved ials) = add_mset (k, r) (map_contents ?reserved)"
      "map_abs ?reserved = (area_of ials)(?s := None)"
      using map_drop_found [OF keys_ok_64 m r(1)] i(3) by (auto simp: fun_upd_def eq_commute [of ?s])
    from heap_free_block [OF inv b(1)] obtain heap where heap:
      "simple_vma_heap_free (simple_heap ials) ?s ?sz = Some heap"
      "holes_inv (heap_holes heap)" "heap_strategy heap = heap_strategy (simple_heap ials)"
      "free_addrs (heap_holes heap) = free_space ials \<union> rec_span r" by (auto simp: b(2) r(2))
    have rs: "rec_span r = area_range start end_addr"
      using area_span(1) [OF area] by (simp add: rec_span_def b(2) r(2))
    let ?ials = "ials\<lparr>simple_heap := heap, simple_reserved := ?reserved,
      simple_reserved_areas := simple_reserved_areas ials - 1,
      simple_reserved_size := simple_reserved_size ials - rec_size r\<rparr>"
    have "simple_inv ?ials" by (rule simple_inv_del_area [OF inv heap(2,4) o(1,2)])
    moreover have "intel_allocator_simple_unreserve ials handle start end_addr = Some (True, ?ials)"
      unfolding unfold using i heap(1) r by simp
    ultimately show ?thesis using True heap o by (auto simp: rs)
  next
    case False
    have "intel_allocator_simple_unreserve ials handle start end_addr = Some (False, ials)"
      unfolding unfold using search_entry_abs [OF m, of ?s] False by (auto simp: owns_area_def)
    then show ?thesis using False inv by simp
  qed
qed

lemma simple_is_reserved_iff:
  assumes inv: "simple_inv ials" and area: "valid_area start end_addr"
  shows "intel_allocator_simple_is_reserved ials start end_addr =
    Some (\<exists>r. area_of ials (DECANONICAL start) = Some r \<and> rec_size r = area_size start end_addr)"
proof -
  note search = map_search_abs [OF simple_invD(2) [OF inv], of "DECANONICAL start"]
  have asserts: "end_addr \<noteq> 0" "DECANONICAL end_addr > DECANONICAL start \<or> DECANONICAL end_addr = 0"
    using area by (auto simp: valid_area_def)
  show ?thesis
    using area_block [OF inv, of "DECANONICAL start"] asserts
    by (cases "area_of ials (DECANONICAL start)")
      (auto simp: intel_allocator_simple_is_reserved_def search Let_def igt_assert_def simp flip: area_size_def)
qed

subsection \<open>The report\<close>

text \<open>The holes add up to the free space, and free space and blocks to the range.\<close>

lemma free_addrs_finite: "finite (free_addrs hs)"
  by (induction hs) auto

lemma free_addrs_card: "holes_inv hs \<Longrightarrow> card (free_addrs hs) = sum_list (map (unat \<circ> hole_size) hs)"
proof (induction hs)
  case (Cons h hs)
  have "{hole_lo h..<hole_hi h} \<inter> free_addrs hs = {}"
    using Cons.prems by (fastforce simp: holes_inv_Cons free_addrs_def)
  then show ?case
    using Cons free_addrs_finite [of hs] by (simp add: card_Un_disjoint holes_inv_Cons hole_bounds)
qed simp

lemma sum_cover:
  assumes "finite A" "free \<subseteq> A" "\<forall>r \<in># bs. rec_span r \<subseteq> A"
  shows "(\<Sum>a\<in>A. cover free bs a) = card free + sum_mset (image_mset (unat \<circ> rec_size) bs)"
  using assms(3)
proof (induction bs)
  case empty
  have "(\<Sum>a\<in>A. of_bool (a \<in> free)) = card (A \<inter> {a. a \<in> free})"
    using assms(1) by (simp add: of_bool_def sum.If_cases)
  also have "A \<inter> {a. a \<in> free} = free" using assms(2) by auto
  finally show ?case by (simp add: cover_def)
next
  case (add r bs)
  have "cover free (add_mset r bs) a = of_bool (a \<in> rec_span r) + cover free bs a" for a
    by (simp add: cover_def)
  moreover have "(\<Sum>a\<in>A. of_bool (a \<in> rec_span r)) = card (A \<inter> {a. a \<in> rec_span r})"
    using assms(1) by (simp add: of_bool_def sum.If_cases)
  moreover have "A \<inter> {a. a \<in> rec_span r} = rec_span r" using add.prems by auto
  ultimately show ?case using add by (simp add: sum.distrib) (simp add: rec_span_def)
qed

lemma simple_total:
  assumes inv: "simple_inv ials"
  shows "sum_list (map (unat \<circ> hole_size) (heap_holes (simple_heap ials))) +
    sum_mset (image_mset (unat \<circ> rec_size) (blocks ials)) = unat (simple_end ials) - unat (simple_start ials)"
proof -
  let ?A = "{unat (simple_start ials)..<unat (simple_end ials)}"
  have "(\<Sum>a\<in>?A. cover (free_space ials) (blocks ials) a) =
      card (free_space ials) + sum_mset (image_mset (unat \<circ> rec_size) (blocks ials))"
    using free_space_bounds [OF inv] block_bounds [OF inv]
    by (intro sum_cover) (force simp: rec_span_def)+
  moreover have "(\<Sum>a\<in>?A. cover (free_space ials) (blocks ials) a) = (\<Sum>a\<in>?A. 1)"
    using simple_invD(8) [OF inv] by (intro sum.cong) auto
  ultimately show ?thesis using free_addrs_card [OF simple_invD(3) [OF inv]] by simp
qed

lemma sum_list_words: "sum_list (map hole_size hs) = of_nat (sum_list (map (unat \<circ> hole_size) hs))"
  by (induction hs) simp_all

lemma sum_mset_words: "sum_mset (image_mset f M) = of_nat (sum_mset (image_mset (\<lambda>x. unat (f x :: u64)) M))"
  by (induction M) simp_all

text \<open>The consistency checks of the full report never fail, and the free space it reports is the
  number of free addresses.\<close>

lemma simple_print_ok:
  assumes inv: "simple_inv ials"
  shows "intel_allocator_simple_print ials full = Some (of_nat (card (free_space ials)))"
proof -
  let ?hs = "heap_holes (simple_heap ials)" and ?o = "map_contents (simple_objects ials)"
    and ?r = "map_contents (simple_reserved ials)"
  let ?F = "sum_list (map (unat \<circ> hole_size) ?hs)"
    and ?O = "sum_mset (image_mset (\<lambda>x. unat (rec_size (snd x))) ?o)"
    and ?R = "sum_mset (image_mset (\<lambda>x. unat (rec_size (snd x))) ?r)"
  note inv' = inv [unfolded simple_inv_def]
  have le: "simple_start ials \<le> simple_end ials" using inv' by (simp add: word_le_nat_alt)
  have "?F + (?O + ?R) = unat (simple_end ials) - unat (simple_start ials)"
    using simple_total [OF inv] by (simp add: blocks_def comp_def image_mset.compositionality)
  then have tot: "?F + (?O + ?R) = unat (simple_total_size ials)"
    using inv' le by (simp add: unat_sub)
  have "of_nat (?F + (?O + ?R)) = (of_nat (unat (simple_total_size ials)) :: u64)" by (simp only: tot)
  then have "simple_total_size ials = of_nat ?F + of_nat ?O + of_nat ?R"
    by (simp only: of_nat_add add.assoc of_nat_unat ucast_id)
  moreover have a: "simple_allocated_size ials = of_nat ?O" "simple_reserved_size ials = of_nat ?R"
    using inv' sum_mset_words [of "rec_size \<circ> snd"] by simp_all
  ultimately have sub: "of_nat ?F = simple_total_size ials - simple_allocated_size ials - simple_reserved_size ials"
    by simp
  have lt: "?F < 2 ^ 64" using tot unat_u64_lt [of "simple_total_size ials"] by simp
  have "of_nat ?F \<le> simple_total_size ials"
    using tot lt by (simp add: word_le_nat_alt unat_of_nat)
  moreover have "mset (foreach_data (simple_objects ials)) = image_mset snd ?o"
    "mset (foreach_data (simple_reserved ials)) = image_mset snd ?r"
    using foreach_data_contents inv' by blast+
  then have "sum_list (map rec_size (foreach_data (simple_objects ials))) = simple_allocated_size ials"
    "length (foreach_data (simple_objects ials)) = size ?o"
    "sum_list (map rec_size (foreach_data (simple_reserved ials))) = simple_reserved_size ials"
    "length (foreach_data (simple_reserved ials)) = size ?r"
    using inv' by (simp_all flip: sum_mset_sum_list size_mset add: mset_map image_mset.compositionality)
  ultimately show ?thesis
    using sub inv' free_addrs_card [OF simple_invD(3) [OF inv]]
    by (simp add: intel_allocator_simple_print_def Let_def sum_list_words)
qed


subsection \<open>The backend contract\<close>

interpretation simple: allocator_backend simple_inv object_of
  "\<lambda>ials. size (map_contents (simple_objects ials)) < 2 ^ 16"
  intel_allocator_simple_alloc intel_allocator_simple_free intel_allocator_simple_is_allocated
proof unfold_locales
  fix s h r sz al pat st off
  show "simple_inv s \<Longrightarrow> object_of s h = Some r \<Longrightarrow> rec_handle r = h" using object_block by blast
  show "simple_inv s \<Longrightarrow> h \<noteq> 0 \<Longrightarrow> object_of s h = Some r \<Longrightarrow>
      intel_allocator_simple_alloc s h sz al pat st =
        (if rec_size r = sz \<and> rec_pat_index r = pat then Some (rec_offset r, s) else None)"
    by (rule simple_alloc_known)
  show "simple_inv s \<Longrightarrow> h \<noteq> 0 \<Longrightarrow> object_of s h = None \<Longrightarrow>
      size (map_contents (simple_objects s)) < 2 ^ 16 \<Longrightarrow> 0 < unat sz \<Longrightarrow> 0 < unat al \<Longrightarrow>
      \<exists>off s'. intel_allocator_simple_alloc s h sz al pat st = Some (off, s') \<and> simple_inv s' \<and>
        (off = ALLOC_INVALID_ADDRESS \<and> s' = s \<or> object_of s' = (object_of s)(h \<mapsto>
           \<lparr>rec_handle = h, rec_offset = off, rec_size = sz, rec_pat_index = pat\<rparr>))"
    using simple_alloc_new [of s h sz al pat st] by (fastforce split: if_splits)
  show "simple_inv s \<Longrightarrow> \<exists>s'. intel_allocator_simple_free s h = Some (object_of s h \<noteq> None, s') \<and>
      simple_inv s' \<and> object_of s' = (object_of s)(h := None)"
    using simple_free_known [of s h] simple_free_unknown [of s h]
    by (cases "object_of s h") (auto simp: fun_upd_idem)
  show "simple_inv s \<Longrightarrow> h \<noteq> 0 \<Longrightarrow> intel_allocator_simple_is_allocated s h sz off =
      Some (\<exists>r. object_of s h = Some r \<and> same_record r h sz off)"
    using simple_is_allocated_iff [of s h sz off] object_block [of s h] by (auto simp: same_record_def)
qed


subsection \<open>Sequences of calls\<close>

datatype simple_call =
  Simple_Alloc u32 u64 u64 u8 allocator_strategy
| Simple_Free u32
| Simple_Reserve u32 u64 u64
| Simple_Unreserve u32 u64 u64

fun simple_step :: "simple_call \<Rightarrow> intel_allocator_simple \<Rightarrow> intel_allocator_simple option" where
  "simple_step (Simple_Alloc handle sz alignment pat_index strategy) ials =
     map_option snd (intel_allocator_simple_alloc ials handle sz alignment pat_index strategy)"
| "simple_step (Simple_Free handle) ials = map_option snd (intel_allocator_simple_free ials handle)"
| "simple_step (Simple_Reserve handle start end_addr) ials =
     map_option snd (intel_allocator_simple_reserve ials handle start end_addr)"
| "simple_step (Simple_Unreserve handle start end_addr) ials =
     map_option snd (intel_allocator_simple_unreserve ials handle start end_addr)"

fun simple_run :: "simple_call list \<Rightarrow> intel_allocator_simple \<Rightarrow> intel_allocator_simple option" where
  "simple_run [] ials = Some ials"
| "simple_run (c # cs) ials = do { ials' \<leftarrow> simple_step c ials; simple_run cs ials' }"

definition simple_bounded :: "nat \<Rightarrow> intel_allocator_simple \<Rightarrow> bool" where
  "simple_bounded n ials \<longleftrightarrow> size (map_contents (simple_objects ials)) \<le> n \<and>
     size (map_contents (simple_reserved ials)) \<le> n"

lemma simple_alloc_step:
  assumes inv: "simple_inv ials" and b: "simple_bounded n ials" "n < 2 ^ 16"
    and run: "intel_allocator_simple_alloc ials handle sz alignment pat_index strategy = Some (off, ials')"
  shows "simple_inv ials' \<and> simple_bounded (n + 1) ials' \<and> simple_start ials' = simple_start ials \<and>
    simple_end ials' = simple_end ials"
proof -
  have h: "handle \<noteq> 0" using run by (auto simp: intel_allocator_simple_alloc_def)
  show ?thesis
  proof (cases "object_of ials handle")
    case (Some r)
    then show ?thesis
      using simple_alloc_known [OF inv h Some, of sz alignment pat_index strategy] run inv b
      by (auto simp: simple_bounded_def split: if_splits)
  next
    case None
    note search = map_search_abs [OF simple_invD(1) [OF inv], of handle, unfolded None]
    have "0 < sz" "0 < alignment"
      using run h search by (auto simp: intel_allocator_simple_alloc_def simple_vma_heap_alloc_def)
    then have sz: "0 < unat sz" "0 < unat alignment" by (simp_all add: unat_gt_0_word)
    have room: "size (map_contents (simple_objects ials)) < 2 ^ 16" using b by (simp add: simple_bounded_def)
    show ?thesis
      using simple_alloc_new [OF inv h None sz room, of pat_index strategy] run b
      by (auto simp: simple_bounded_def split: if_splits)
  qed
qed

lemma simple_reserve_step:
  assumes inv: "simple_inv ials" and b: "simple_bounded n ials" "n < 2 ^ 16"
    and run: "intel_allocator_simple_reserve ials handle start end_addr = Some (ok, ials')"
  shows "simple_inv ials' \<and> simple_bounded (n + 1) ials' \<and> simple_start ials' = simple_start ials \<and>
    simple_end ials' = simple_end ials"
proof -
  have area: "valid_area start end_addr" "unat (simple_start ials) \<le> unat (DECANONICAL start)"
    "area_end end_addr \<le> unat (simple_end ials)"
    using simple_reserve_asserts [of start end_addr ials handle] run by auto
  have room: "size (map_contents (simple_reserved ials)) < 2 ^ 16" using b by (simp add: simple_bounded_def)
  show ?thesis
    using simple_reserve_cases [OF inv area room, of handle] run b
    by (auto simp: simple_bounded_def split: if_splits)
qed

lemma simple_unreserve_step:
  assumes inv: "simple_inv ials" and b: "simple_bounded n ials"
    and run: "intel_allocator_simple_unreserve ials handle start end_addr = Some (ok, ials')"
  shows "simple_inv ials' \<and> simple_bounded (n + 1) ials' \<and> simple_start ials' = simple_start ials \<and>
    simple_end ials' = simple_end ials"
proof -
  have area: "valid_area start end_addr"
    using run by (auto simp: intel_allocator_simple_unreserve_def valid_area_def Let_def)
  show ?thesis
    using simple_unreserve_cases [OF inv area, of handle] run b
    by (auto simp: simple_bounded_def split: if_splits)
qed

lemma simple_free_step:
  assumes inv: "simple_inv ials" and b: "simple_bounded n ials"
    and run: "intel_allocator_simple_free ials handle = Some (ok, ials')"
  shows "simple_inv ials' \<and> simple_bounded (n + 1) ials' \<and> simple_start ials' = simple_start ials \<and>
    simple_end ials' = simple_end ials"
proof (cases "object_of ials handle")
  case None
  then show ?thesis using simple_free_unknown [OF inv None] run inv b by (simp add: simple_bounded_def)
next
  case (Some r)
  then show ?thesis using simple_free_known [OF inv Some] run b by (auto simp: simple_bounded_def)
qed

lemma simple_step_inv:
  assumes "simple_inv ials" "simple_bounded n ials" "n < 2 ^ 16" "simple_step c ials = Some ials'"
  shows "simple_inv ials' \<and> simple_bounded (n + 1) ials' \<and> simple_start ials' = simple_start ials \<and>
    simple_end ials' = simple_end ials"
  using assms(4) simple_alloc_step [OF assms(1-3)] simple_reserve_step [OF assms(1-3)]
    simple_unreserve_step [OF assms(1,2)] simple_free_step [OF assms(1,2)]
  by (cases c) auto

lemma simple_run_inv:
  assumes "simple_inv ials" "simple_bounded n ials" "n + length cs \<le> 2 ^ 16" "simple_run cs ials = Some ials'"
  shows "simple_inv ials' \<and> simple_bounded (n + length cs) ials' \<and> simple_start ials' = simple_start ials \<and>
    simple_end ials' = simple_end ials"
  using assms
proof (induction cs arbitrary: ials n)
  case (Cons c cs)
  then obtain ials1 where s: "simple_step c ials = Some ials1" "simple_run cs ials1 = Some ials'"
    by (auto split: bind_splits)
  have "n < 2 ^ 16" using Cons.prems(3) by simp
  from simple_step_inv [OF Cons.prems(1,2) this s(1)] have *: "simple_inv ials1" "simple_bounded (n + 1) ials1"
    "simple_start ials1 = simple_start ials" "simple_end ials1 = simple_end ials" by auto
  from Cons.IH [OF *(1,2) _ s(2)] Cons.prems(3) *(3,4) show ?case by simp
qed simp

text \<open>Two different records do not overlap.\<close>

lemma object_contents: "simple_inv ials \<Longrightarrow> object_of ials h = Some r \<Longrightarrow> (h, r) \<in># map_contents (simple_objects ials)"
  using map_abs_Some_contents [OF simple_invD(1), of ials h r] by auto

lemma area_contents: "simple_inv ials \<Longrightarrow> area_of ials a = Some r \<Longrightarrow> (a, r) \<in># map_contents (simple_reserved ials)"
  using map_abs_Some_contents [OF simple_invD(2), of ials a r] by auto

lemma two_in_image:
  assumes "p \<in># M" "q \<in># M" "p \<noteq> q"
  shows "\<exists>N. image_mset f M = add_mset (f p) N \<and> f q \<in># N"
proof -
  obtain N where M: "M = add_mset p N" using assms(1) by (metis insert_DiffM)
  then have "q \<in># N" using assms by auto
  then show ?thesis using M by auto
qed

lemma objects_disjoint:
  assumes inv: "simple_inv ials" and "object_of ials h = Some r" "object_of ials h' = Some r'" "h \<noteq> h'"
  shows "rec_span r \<inter> rec_span r' = {}"
proof -
  obtain N where "image_mset snd (map_contents (simple_objects ials)) = add_mset r N" "r' \<in># N"
    using two_in_image [OF object_contents [OF inv assms(2)] object_contents [OF inv assms(3)], of snd] assms(4)
    by auto
  then have "blocks ials = add_mset r (N + image_mset snd (map_contents (simple_reserved ials)))"
    "r' \<in># N + image_mset snd (map_contents (simple_reserved ials))" by (simp_all add: blocks_def)
  then show ?thesis by (rule blocks_disjoint [OF inv])
qed

lemma areas_disjoint:
  assumes inv: "simple_inv ials" and "area_of ials a = Some r" "area_of ials a' = Some r'" "a \<noteq> a'"
  shows "rec_span r \<inter> rec_span r' = {}"
proof -
  obtain N where "image_mset snd (map_contents (simple_reserved ials)) = add_mset r N" "r' \<in># N"
    using two_in_image [OF area_contents [OF inv assms(2)] area_contents [OF inv assms(3)], of snd] assms(4)
    by auto
  then have "blocks ials = add_mset r (N + image_mset snd (map_contents (simple_objects ials)))"
    "r' \<in># N + image_mset snd (map_contents (simple_objects ials))" by (simp_all add: blocks_def)
  then show ?thesis by (rule blocks_disjoint [OF inv])
qed

lemma object_area_disjoint:
  assumes inv: "simple_inv ials" and "object_of ials h = Some r" "area_of ials a = Some r'"
  shows "rec_span r \<inter> rec_span r' = {}"
proof -
  obtain M where M: "map_contents (simple_objects ials) = add_mset (h, r) M"
    using object_contents [OF inv assms(2)] by (metis insert_DiffM)
  have "blocks ials = add_mset r (image_mset snd M + image_mset snd (map_contents (simple_reserved ials)))"
    by (simp add: blocks_def M)
  moreover have "r' \<in># image_mset snd M + image_mset snd (map_contents (simple_reserved ials))"
    using area_contents [OF inv assms(3)] by force
  ultimately show ?thesis by (rule blocks_disjoint [OF inv])
qed


lemma block_not_free:
  assumes "simple_inv ials" "r \<in># blocks ials"
  shows "rec_span r \<inter> free_space ials = {}"
proof -
  obtain bs where bs: "blocks ials = add_mset r bs" using assms(2) by (metis insert_DiffM)
  have "\<forall>a. cover (free_space ials) (add_mset r bs) a \<le> 1" using simple_cover_le [OF assms(1)] unfolding bs by blast
  from cover_give(1) [OF this] show ?thesis by blast
qed

subsection \<open>Properties\<close>

text \<open>An allocator with one object and one reserved area, for the examples.\<close>

definition example_calls :: "simple_call list" where
  "example_calls = [Simple_Alloc 1 0x1000 0x1000 0 ALLOC_STRATEGY_NONE, Simple_Reserve 7 0x80000 0x90000]"

definition example_simple :: intel_allocator_simple where
  "example_simple = the (do {
     ials \<leftarrow> intel_allocator_simple_create 0x40000 0x100000 ALLOC_STRATEGY_NONE;
     simple_run example_calls ials
   })"

lemma example_area:
  "valid_area 0x80000 0x90000" "area_end 0x90000 = 0x90000" "DECANONICAL 0x80000 = 0x80000"
  "area_size 0x80000 0x90000 = 0x10000"
proof -
  have d: "DECANONICAL 0x80000 = 0x80000" "DECANONICAL 0x8ffff = 0x8ffff" "DECANONICAL 0x90000 = 0x90000"
    by (rule DECANONICAL_small; simp)+
  show "DECANONICAL 0x80000 = 0x80000" by (rule d)
  show "valid_area 0x80000 0x90000" "area_end 0x90000 = 0x90000" "area_size 0x80000 0x90000 = 0x10000"
    by (simp_all add: d valid_area_def area_end_def area_size_def get_size_def)
qed

lemma example_simple:
  "\<exists>ials. intel_allocator_simple_create 0x40000 0x100000 ALLOC_STRATEGY_NONE = Some ials \<and>
     simple_run example_calls ials = Some example_simple"
  "simple_inv example_simple"
  "object_of example_simple = [1 \<mapsto> \<lparr>rec_handle = 1, rec_offset = 0xff000, rec_size = 0x1000, rec_pat_index = 0\<rparr>]"
  "area_of example_simple = [0x80000 \<mapsto> \<lparr>rec_handle = 7, rec_offset = 0x80000, rec_size = 0x10000, rec_pat_index = 0\<rparr>]"
  "free_space example_simple = {0x40000..<0x80000} \<union> {0x90000..<0xff000}"
  "size (map_contents (simple_objects example_simple)) \<le> 2" "size (map_contents (simple_reserved example_simple)) \<le> 2"
  "simple_start example_simple = 0x40000" "simple_end example_simple = 0x100000"
proof -
  obtain s0 where s0: "intel_allocator_simple_create 0x40000 0x100000 ALLOC_STRATEGY_NONE = Some s0" "simple_inv s0"
    "simple_start s0 = 0x40000" "simple_end s0 = 0x100000" "object_of s0 = (\<lambda>_. None)" "area_of s0 = (\<lambda>_. None)"
    "heap_strategy (simple_heap s0) = ALLOC_STRATEGY_HIGH_TO_LOW"
    using simple_create_correct [of "0x40000" "0x100000" ALLOC_STRATEGY_NONE] by auto
  note e = contents_empty_iff [OF keys_ok_32 simple_invD(1) [OF s0(2)]] contents_empty_iff [OF keys_ok_64 simple_invD(2) [OF s0(2)]]
  have c0: "map_contents (simple_objects s0) = {#}" "map_contents (simple_reserved s0) = {#}"
    using e s0(5,6) by simp_all
  have f0: "free_space s0 = {0x40000..<0x100000}"
  proof (rule set_eqI)
    fix x
    have "of_bool (x \<in> free_space s0) = (of_bool (x \<in> {0x40000..<0x100000}) :: nat)"
      using simple_invD(8) [OF s0(2)] by (simp add: s0(3,4) cover_def blocks_def c0)
    then show "x \<in> free_space s0 \<longleftrightarrow> x \<in> {0x40000..<0x100000}" by (simp only: of_bool_eq_iff)
  qed
  have fit: "fits_free s0 0x1000 0x1000 0xff000" by (auto simp: fits_free_def f0)
  have eff: "effective_strategy (simple_heap s0) ALLOC_STRATEGY_NONE = ALLOC_STRATEGY_HIGH_TO_LOW"
    by (simp add: effective_strategy_def s0(7))
  have pre: "object_of s0 1 = None" "0 < unat (0x1000 :: u64)" "size (map_contents (simple_objects s0)) < 2 ^ 16" "(1 :: u32) \<noteq> 0"
    by (simp_all add: s0(5) c0)
  have fits: "\<exists>a. fits_free s0 0x1000 0x1000 a" using fit ..
  obtain r s1 where s1: "intel_allocator_simple_alloc s0 1 0x1000 0x1000 0 ALLOC_STRATEGY_NONE = Some (r, s1)"
    "simple_inv s1" "simple_start s1 = 0x40000" "simple_end s1 = 0x100000" "simple_reserved s1 = simple_reserved s0"
    "fits_free s0 0x1000 0x1000 (unat r)" "\<forall>a. fits_free s0 0x1000 0x1000 a \<longrightarrow> a \<le> unat r"
    "object_of s1 = (object_of s0)(1 \<mapsto> \<lparr>rec_handle = 1, rec_offset = r, rec_size = 0x1000, rec_pat_index = 0\<rparr>)"
    "size (map_contents (simple_objects s1)) = 1" "free_space s1 = free_space s0 - {unat r..<unat r + 0x1000}"
    using simple_alloc_new [OF s0(2) pre(4,1,2,2,3), of 0 ALLOC_STRATEGY_NONE]
    by (simp only: fits eff if_True s0(3,4) c0(1)) auto
  have "0xff000 \<le> unat r" using s1(7) fit by blast
  moreover have "unat r + 0xfff \<in> free_space s0" using s1(6) by (auto simp: fits_free_def)
  ultimately have "unat r = 0xff000" by (simp add: f0)
  then have r: "r = 0xff000" by (simp add: word_unat_eq_iff)
  have f1: "free_space s1 = {0x40000..<0xff000}" by (auto simp: s1(10) f0 r)
  have pre1: "unat (simple_start s1) \<le> unat (DECANONICAL 0x80000)" "area_end 0x90000 \<le> unat (simple_end s1)"
    "size (map_contents (simple_reserved s1)) < 2 ^ 16" by (simp_all add: example_area s1(3-5) c0(2))
  have sub: "area_range 0x80000 0x90000 \<subseteq> free_space s1" by (auto simp: example_area f1)
  obtain s2 where s2: "intel_allocator_simple_reserve s1 7 0x80000 0x90000 = Some (True, s2)"
    "simple_inv s2" "simple_start s2 = 0x40000" "simple_end s2 = 0x100000" "simple_objects s2 = simple_objects s1"
    "area_of s2 = (area_of s1)(0x80000 \<mapsto> \<lparr>rec_handle = 7, rec_offset = 0x80000, rec_size = 0x10000, rec_pat_index = 0\<rparr>)"
    "size (map_contents (simple_reserved s2)) = 1" "free_space s2 = free_space s1 - {0x80000..<0x90000}"
    using simple_reserve_cases [OF s1(2) example_area(1) pre1, of 7] sub s1(3-5) c0(2) by (auto simp: example_area)
  have run: "simple_run example_calls s0 = Some s2" using s1(1) s2(1) by (simp add: example_calls_def)
  have ex: "example_simple = s2" using s0(1) run by (simp add: example_simple_def)
  show "\<exists>ials. intel_allocator_simple_create 0x40000 0x100000 ALLOC_STRATEGY_NONE = Some ials \<and>
     simple_run example_calls ials = Some example_simple" using s0(1) run by (simp add: ex)
  show "simple_inv example_simple" "simple_start example_simple = 0x40000" "simple_end example_simple = 0x100000"
    "object_of example_simple = [1 \<mapsto> \<lparr>rec_handle = 1, rec_offset = 0xff000, rec_size = 0x1000, rec_pat_index = 0\<rparr>]"
    "area_of example_simple = [0x80000 \<mapsto> \<lparr>rec_handle = 7, rec_offset = 0x80000, rec_size = 0x10000, rec_pat_index = 0\<rparr>]"
    "size (map_contents (simple_objects example_simple)) \<le> 2" "size (map_contents (simple_reserved example_simple)) \<le> 2"
    using s2 s1(5,8,9) s0(5,6) r by (simp_all add: ex)
  show "free_space example_simple = {0x40000..<0x80000} \<union> {0x90000..<0xff000}" by (auto simp: ex s2(8) f1)
qed

lemma run_from_create:
  assumes "intel_allocator_simple_create start end_addr strategy = Some ials0" "unat start < unat end_addr"
    and "length cs \<le> 2 ^ 16" "simple_run cs ials0 = Some ials"
  shows "simple_inv ials" "simple_bounded (2 ^ 16) ials" "simple_start ials = start" "simple_end ials = end_addr"
proof -
  from simple_create_correct [OF assms(2), of strategy] assms(1)
  have s0: "simple_inv ials0" "object_of ials0 = (\<lambda>_. None)" "area_of ials0 = (\<lambda>_. None)"
    "simple_start ials0 = start" "simple_end ials0 = end_addr" by auto
  have "simple_bounded 0 ials0"
    using contents_empty_iff [OF keys_ok_32 simple_invD(1) [OF s0(1)]]
      contents_empty_iff [OF keys_ok_64 simple_invD(2) [OF s0(1)]] s0(2,3) by (simp add: simple_bounded_def)
  from simple_run_inv [OF s0(1) this _ assms(4)] assms(3) s0(4,5)
  show "simple_inv ials" "simple_bounded (2 ^ 16) ials" "simple_start ials = start" "simple_end ials = end_addr"
    by (auto simp: simple_bounded_def)
qed

text \<open>C5: Over any sequence of up to \<open>2 ^ 16\<close> calls that trips no assertion, on an allocator that was created
  with a range that is not empty, the objects and the reserved areas of the SIMPLE allocator stay inside its
  range and never overlap each other or the free space.\<close>

theorem simple_blocks_never_overlap:
  assumes "intel_allocator_simple_create start end_addr strategy = Some ials0" "unat start < unat end_addr"
    and "length cs \<le> 2 ^ 16" "simple_run cs ials0 = Some ials"
  shows "(\<forall>h h' r r'. object_of ials h = Some r \<and> object_of ials h' = Some r' \<and> h \<noteq> h' \<longrightarrow>
        rec_span r \<inter> rec_span r' = {}) \<and>
    (\<forall>h a r r'. object_of ials h = Some r \<and> area_of ials a = Some r' \<longrightarrow> rec_span r \<inter> rec_span r' = {}) \<and>
    (\<forall>a a' r r'. area_of ials a = Some r \<and> area_of ials a' = Some r' \<and> a \<noteq> a' \<longrightarrow>
        rec_span r \<inter> rec_span r' = {}) \<and>
    (\<forall>r. (\<exists>h. object_of ials h = Some r) \<or> (\<exists>a. area_of ials a = Some r) \<longrightarrow>
        rec_span r \<subseteq> {unat start..<unat end_addr} \<and> rec_span r \<inter> free_space ials = {})"
proof -
  note inv = run_from_create(1) [OF assms] and range = run_from_create(3,4) [OF assms]
  have "rec_span r \<subseteq> {unat start..<unat end_addr} \<and> rec_span r \<inter> free_space ials = {}"
    if "(\<exists>h. object_of ials h = Some r) \<or> (\<exists>a. area_of ials a = Some r)" for r
  proof -
    have b: "r \<in># blocks ials" using object_block [OF inv] area_block [OF inv] that by blast
    show ?thesis using block_bounds [OF inv b] block_not_free [OF inv b] range by (auto simp: rec_span_def)
  qed
  with objects_disjoint [OF inv] object_area_disjoint [OF inv] areas_disjoint [OF inv] show ?thesis by blast
qed

theorem simple_blocks_never_overlap_witness:
  "rec_span (the (object_of example_simple 1)) \<inter> rec_span (the (area_of example_simple 0x80000)) = {}"
proof -
  obtain ials where "intel_allocator_simple_create 0x40000 0x100000 ALLOC_STRATEGY_NONE = Some ials"
    "simple_run example_calls ials = Some example_simple" using example_simple(1) by blast
  note apart = simple_blocks_never_overlap [OF this(1) _ _ this(2), THEN conjunct2, THEN conjunct1]
  have len: "unat (0x40000 :: u64) < unat (0x100000 :: u64)" "length example_calls \<le> 2 ^ 16"
    by (simp_all add: example_calls_def)
  have o: "object_of example_simple 1 = Some (the (object_of example_simple 1))"
    "area_of example_simple 0x80000 = Some (the (area_of example_simple 0x80000))"
    by (simp_all add: example_simple(3,4))
  show ?thesis by (rule apart [OF len, rule_format]) (use o in blast)
qed

text \<open>The consistency checks that \<open>intel_allocator_simple_print\<close> asserts (holes, objects and reserved
  areas add up to the total, the statistics match the maps) hold after any sequence of calls, and the free
  space reported is the number of free addresses.\<close>

theorem simple_print_never_fails:
  assumes "intel_allocator_simple_create start end_addr strategy = Some ials0" "unat start < unat end_addr"
    and "length cs \<le> 2 ^ 16" "simple_run cs ials0 = Some ials"
  shows "intel_allocator_simple_print ials full = Some (of_nat (card (free_space ials)))"
  by (rule simple_print_ok [OF run_from_create(1) [OF assms]])

theorem simple_print_never_fails_witness:
  "intel_allocator_simple_print example_simple True = Some 0xaf000"
proof -
  obtain ials where "intel_allocator_simple_create 0x40000 0x100000 ALLOC_STRATEGY_NONE = Some ials"
    "simple_run example_calls ials = Some example_simple" using example_simple(1) by blast
  from simple_print_never_fails [OF this(1) _ _ this(2), of True]
  have "intel_allocator_simple_print example_simple True = Some (of_nat (card (free_space example_simple)))"
    by (simp add: example_calls_def)
  moreover have "card ({0x40000..<0x80000} \<union> {0x90000..<0xff000} :: nat set) = 0xaf000"
    by (subst card_Un_disjoint) auto
  ultimately show ?thesis by (simp add: example_simple(5))
qed

text \<open>C6: \<open>intel_allocator_simple_alloc\<close> of a new handle: the object gets the highest (or lowest) aligned free
  range, the free space loses exactly that range and the reserved areas stay; \<open>ALLOC_INVALID_ADDRESS\<close> is
  returned, with nothing changed, only when no aligned range of the size is free.\<close>

theorem simple_alloc_finds_best:
  assumes "simple_inv ials" "handle \<noteq> 0" "object_of ials handle = None" "0 < unat sz" "0 < unat alignment"
    and "size (map_contents (simple_objects ials)) < 2 ^ 16"
  shows "\<exists>r ials'. intel_allocator_simple_alloc ials handle sz alignment pat_index strategy = Some (r, ials') \<and>
    simple_inv ials' \<and> simple_reserved ials' = simple_reserved ials \<and>
    (if \<exists>a. fits_free ials sz alignment a
     then r \<noteq> ALLOC_INVALID_ADDRESS \<and> fits_free ials sz alignment (unat r) \<and>
       (\<forall>a. fits_free ials sz alignment a \<longrightarrow>
          (if effective_strategy (simple_heap ials) strategy = ALLOC_STRATEGY_HIGH_TO_LOW
           then a \<le> unat r else unat r \<le> a)) \<and>
       object_of ials' = (object_of ials)(handle \<mapsto>
         \<lparr>rec_handle = handle, rec_offset = r, rec_size = sz, rec_pat_index = pat_index\<rparr>) \<and>
       free_space ials' = free_space ials - {unat r..<unat r + unat sz}
     else r = ALLOC_INVALID_ADDRESS \<and> ials' = ials)"
  using simple_alloc_new [OF assms, of pat_index strategy] by (elim exE conjE) (intro exI conjI; (assumption | simp split: if_splits))

theorem simple_alloc_finds_best_witness:
  "\<exists>r ials'. intel_allocator_simple_alloc example_simple 2 0x1000 0x1000 0 ALLOC_STRATEGY_LOW_TO_HIGH = Some (r, ials') \<and>
    r = 0x40000"
proof -
  have pre: "object_of example_simple 2 = None" "size (map_contents (simple_objects example_simple)) < 2 ^ 16"
    using example_simple(3,6) by auto
  have fit: "fits_free example_simple 0x1000 0x1000 0x40000" by (auto simp: fits_free_def example_simple(5))
  have fits: "\<exists>a. fits_free example_simple 0x1000 0x1000 a" using fit ..
  have eff: "effective_strategy (simple_heap example_simple) ALLOC_STRATEGY_LOW_TO_HIGH \<noteq> ALLOC_STRATEGY_HIGH_TO_LOW"
    by (simp add: effective_strategy_def)
  obtain r ials' where r: "intel_allocator_simple_alloc example_simple 2 0x1000 0x1000 0 ALLOC_STRATEGY_LOW_TO_HIGH = Some (r, ials')"
    "fits_free example_simple 0x1000 0x1000 (unat r)"
    "\<forall>a. fits_free example_simple 0x1000 0x1000 a \<longrightarrow> unat r \<le> a"
    using simple_alloc_finds_best [OF example_simple(2) _ pre(1) _ _ pre(2), of "0x1000" "0x1000" 0 ALLOC_STRATEGY_LOW_TO_HIGH]
    by (simp only: fits eff if_True if_False) auto
  have "unat r \<in> free_space example_simple" using r(2) by (auto simp: fits_free_def)
  then have "unat r = 0x40000" using r(3) [rule_format, OF fit] by (simp add: example_simple(5))
  then have "r = 0x40000" by (simp add: word_unat_eq_iff)
  with r(1) show ?thesis by blast
qed

text \<open>C7: Allocating a new object on the SIMPLE allocator is idempotent and undone by freeing: asking again
  for the handle gives the same offset and changes nothing, the object is reported as allocated there,
  freeing it brings back the objects, the reserved areas and the free space from before, and a second free
  reports that nothing is allocated.\<close>

theorem simple_alloc_free_roundtrip:
  assumes "simple_inv ials" "handle \<noteq> 0" "object_of ials handle = None" "0 < unat sz" "0 < unat alignment"
    and "size (map_contents (simple_objects ials)) < 2 ^ 16"
    and "intel_allocator_simple_alloc ials handle sz alignment pat_index strategy = Some (r, ials')"
      "r \<noteq> ALLOC_INVALID_ADDRESS"
  shows "intel_allocator_simple_alloc ials' handle sz alignment' pat_index strategy' = Some (r, ials') \<and>
    intel_allocator_simple_is_allocated ials' handle sz r = Some True \<and>
    (\<exists>ials''. intel_allocator_simple_free ials' handle = Some (True, ials'') \<and> simple_inv ials'' \<and>
       object_of ials'' = object_of ials \<and> area_of ials'' = area_of ials \<and>
       free_space ials'' = free_space ials \<and>
       intel_allocator_simple_free ials'' handle = Some (False, ials''))"
proof -
  from simple_alloc_new [OF assms(1-6), of pat_index strategy] assms(7,8)
  have s': "simple_inv ials'" "simple_reserved ials' = simple_reserved ials" "fits_free ials sz alignment (unat r)"
    "object_of ials' = (object_of ials)(handle \<mapsto>
       \<lparr>rec_handle = handle, rec_offset = r, rec_size = sz, rec_pat_index = pat_index\<rparr>)"
    "free_space ials' = free_space ials - {unat r..<unat r + unat sz}" by (auto split: if_splits)
  have o: "object_of ials' handle = Some \<lparr>rec_handle = handle, rec_offset = r, rec_size = sz, rec_pat_index = pat_index\<rparr>"
    by (simp add: s'(4))
  from simple_free_known [OF s'(1) o] obtain ials'' where f:
    "intel_allocator_simple_free ials' handle = Some (True, ials'')" "simple_inv ials''"
    "simple_reserved ials'' = simple_reserved ials'" "object_of ials'' = (object_of ials')(handle := None)"
    "free_space ials'' = free_space ials' \<union> {unat r..<unat r + unat sz}" by (auto simp: rec_span_def)
  have restored: "object_of ials'' = object_of ials" using assms(3) by (auto simp: f(4) s'(4))
  then have "intel_allocator_simple_free ials'' handle = Some (False, ials'')"
    using simple_free_unknown [OF f(2), of handle] assms(3) by simp
  moreover have "intel_allocator_simple_alloc ials' handle sz alignment' pat_index strategy' = Some (r, ials')"
    using simple_alloc_known [OF s'(1) assms(2) o] assms(4) by simp
  ultimately show ?thesis
    using f(1,2) restored s'(2,3,5) f(3,5) simple_is_allocated_iff [OF s'(1) assms(2), of sz r] o
    by (auto simp: fits_free_def)
qed

theorem simple_alloc_free_roundtrip_witness:
  "\<exists>r ials' ials''. intel_allocator_simple_alloc example_simple 2 0x1000 0x1000 0 ALLOC_STRATEGY_NONE = Some (r, ials') \<and>
    intel_allocator_simple_free ials' 2 = Some (True, ials'') \<and> free_space ials'' = free_space example_simple"
proof -
  have pre: "object_of example_simple 2 = None" "size (map_contents (simple_objects example_simple)) < 2 ^ 16"
    using example_simple(3,6) by auto
  have "fits_free example_simple 0x1000 0x1000 0x40000" by (auto simp: fits_free_def example_simple(5))
  then have fits: "\<exists>a. fits_free example_simple 0x1000 0x1000 a" ..
  obtain r ials' where r: "intel_allocator_simple_alloc example_simple 2 0x1000 0x1000 0 ALLOC_STRATEGY_NONE = Some (r, ials')"
    "r \<noteq> ALLOC_INVALID_ADDRESS"
    using simple_alloc_new [OF example_simple(2) _ pre(1) _ _ pre(2), of "0x1000" "0x1000" 0 ALLOC_STRATEGY_NONE]
    by (simp only: fits if_True) auto
  from simple_alloc_free_roundtrip [OF example_simple(2) _ pre(1) _ _ pre(2) r, of 1 ALLOC_STRATEGY_NONE]
  have "\<exists>ials''. intel_allocator_simple_free ials' 2 = Some (True, ials'') \<and> free_space ials'' = free_space example_simple"
    by auto
  with r(1) show ?thesis by blast
qed

text \<open>Reserving a free area of the SIMPLE allocator and releasing it: a successful reserve reports the area
  as reserved, only the owner that reserved it can release it, and releasing it brings back the reserved
  areas, the objects and the free space from before.\<close>

theorem simple_reserve_unreserve_roundtrip:
  assumes "simple_inv ials" "valid_area start end_addr" "unat (simple_start ials) \<le> unat (DECANONICAL start)"
      "area_end end_addr \<le> unat (simple_end ials)" "size (map_contents (simple_reserved ials)) < 2 ^ 16"
    and "intel_allocator_simple_reserve ials handle start end_addr = Some (True, ials')"
  shows "intel_allocator_simple_is_reserved ials' start end_addr = Some True \<and>
    (\<forall>handle'. handle' \<noteq> handle \<longrightarrow>
       intel_allocator_simple_unreserve ials' handle' start end_addr = Some (False, ials')) \<and>
    (\<exists>ials''. intel_allocator_simple_unreserve ials' handle start end_addr = Some (True, ials'') \<and>
       simple_inv ials'' \<and> area_of ials'' = area_of ials \<and> object_of ials'' = object_of ials \<and>
       free_space ials'' = free_space ials \<and>
       intel_allocator_simple_is_reserved ials'' start end_addr = Some False)"
proof -
  let ?s = "DECANONICAL start"
  from simple_reserve_cases [OF assms(1-5), of handle] assms(6)
  have free: "area_range start end_addr \<subseteq> free_space ials" and s': "simple_inv ials'"
    "simple_objects ials' = simple_objects ials"
    "area_of ials' = (area_of ials)(?s \<mapsto> \<lparr>rec_handle = handle, rec_offset = ?s,
       rec_size = area_size start end_addr, rec_pat_index = 0\<rparr>)"
    "free_space ials' = free_space ials - area_range start end_addr" by (auto split: if_splits)
  have new: "area_of ials ?s = None"
  proof (cases "area_of ials ?s")
    case (Some r)
    then have r: "r \<in># blocks ials" "rec_offset r = ?s" using area_block [OF assms(1)] by auto
    have "0 < unat (rec_size r)" by (rule simple_invD(7) [OF assms(1) r(1)])
    then have "unat ?s \<in> rec_span r" by (simp add: rec_span_def r(2))
    moreover have "unat ?s \<in> free_space ials" using free area_span(1,2) [OF assms(2)] by auto
    ultimately show ?thesis using block_not_free [OF assms(1) r(1)] by auto
  qed simp
  have owner: "owns_area ials' handle' start end_addr \<longleftrightarrow> handle' = handle" for handle'
    by (auto simp: owns_area_def s'(3))
  have other: "intel_allocator_simple_unreserve ials' handle' start end_addr = Some (False, ials')"
    if "handle' \<noteq> handle" for handle'
    using simple_unreserve_cases [OF s'(1) assms(2), of handle'] owner [of handle'] that by auto
  from simple_unreserve_cases [OF s'(1) assms(2), of handle] owner [of handle]
  obtain ials'' where u: "intel_allocator_simple_unreserve ials' handle start end_addr = Some (True, ials'')"
    "simple_inv ials''" "simple_objects ials'' = simple_objects ials'" "area_of ials'' = (area_of ials')(?s := None)"
    "free_space ials'' = free_space ials' \<union> area_range start end_addr" by auto
  have restored: "area_of ials'' = area_of ials" using new by (auto simp: u(4) s'(3))
  then have "intel_allocator_simple_is_reserved ials'' start end_addr = Some False"
    using new by (simp add: simple_is_reserved_iff [OF u(2) assms(2)])
  moreover have "free_space ials'' = free_space ials" using free by (auto simp: u(5) s'(4))
  moreover have "intel_allocator_simple_is_reserved ials' start end_addr = Some True"
    by (simp add: simple_is_reserved_iff [OF s'(1) assms(2)] s'(3))
  ultimately show ?thesis using other u(1,2,3) restored s'(2) by simp
qed

lemma example_area_60:
  "valid_area 0x60000 0x70000" "area_end 0x70000 = 0x70000" "DECANONICAL 0x60000 = 0x60000"
proof -
  have d: "DECANONICAL 0x60000 = 0x60000" "DECANONICAL 0x70000 = 0x70000" by (rule DECANONICAL_small; simp)+
  show "DECANONICAL 0x60000 = 0x60000" by (rule d)
  show "valid_area 0x60000 0x70000" "area_end 0x70000 = 0x70000" by (simp_all add: d valid_area_def area_end_def)
qed

theorem simple_reserve_unreserve_roundtrip_witness:
  "\<exists>ials' ials''. intel_allocator_simple_reserve example_simple 9 0x60000 0x70000 = Some (True, ials') \<and>
    intel_allocator_simple_unreserve ials' 8 0x60000 0x70000 = Some (False, ials') \<and>
    intel_allocator_simple_unreserve ials' 9 0x60000 0x70000 = Some (True, ials'') \<and>
    free_space ials'' = free_space example_simple"
proof -
  have pre: "unat (simple_start example_simple) \<le> unat (DECANONICAL 0x60000)"
    "area_end 0x70000 \<le> unat (simple_end example_simple)" "size (map_contents (simple_reserved example_simple)) < 2 ^ 16"
    using example_simple(7-9) by (simp_all add: example_area_60)
  have "area_range 0x60000 0x70000 \<subseteq> free_space example_simple" by (auto simp: example_area_60 example_simple(5))
  with simple_reserve_cases [OF example_simple(2) example_area_60(1) pre, of 9]
  obtain ials' where "intel_allocator_simple_reserve example_simple 9 0x60000 0x70000 = Some (True, ials')" by auto
  from simple_reserve_unreserve_roundtrip [OF example_simple(2) example_area_60(1) pre this] this show ?thesis by auto
qed

end
