(* ===== verification/Intel_Allocator_Reloc.thy ===== *)
theory Intel_Allocator_Reloc
  imports Allocator_Backend Igt_Map_Correct
begin

text \<open>
  The RELOC allocator of \<open>lib/intel_allocator_reloc.c\<close>: offsets are handed out one after the
  other from \<open>start\<close> to \<open>end\<close>, then from \<open>start\<close> again, whatever was freed in between; only the
  records are kept. An operation takes \<open>ialr = ial->priv\<close>; \<open>None\<close> is a failed \<open>igt_assert\<close>.

  The lemmas show where an object is placed and that an allocation fails only when no aligned
  position can hold it, both for requests whose end does not exceed 64 bits; that the code's own
  range test lets through requests whose end does; and that the allocator meets the contract of
  theory \<open>Allocator_Backend\<close>.
\<close>

subsection \<open>Data\<close>

record intel_allocator_reloc =
  reloc_objects :: "(u32, intel_allocator_record) igt_map"
  reloc_prng :: u32
  reloc_start :: u64
  reloc_end :: u64
  reloc_offset :: u64
  reloc_allocated_objects :: u64

definition BIAS :: u64 where
  "BIAS = push_bit 10 256"

subsection \<open>Operations\<close>

text \<open>\<open>intel_allocator_reloc_create\<close>; \<open>ial\<close> is the address of the allocator, which seeds
  \<open>prng\<close>.\<close>

definition intel_allocator_reloc_create :: "u64 \<Rightarrow> u64 \<Rightarrow> u64 \<Rightarrow> intel_allocator_reloc option" where
  "intel_allocator_reloc_create ial start end_addr = do {
     let start = max start BIAS;
     igt_assert (start < end_addr);
     Some \<lparr>reloc_objects = igt_map_create igt_map_hash_32 igt_map_equal_32,
           reloc_prng = ucast ial, reloc_start = start, reloc_end = end_addr,
           reloc_offset = start, reloc_allocated_objects = 0\<rparr>
   }"

definition intel_allocator_reloc_get_address_range :: "intel_allocator_reloc \<Rightarrow> u64 \<times> u64" where
  "intel_allocator_reloc_get_address_range ialr = (reloc_start ialr, reloc_end ialr)"

definition intel_allocator_reloc_alloc ::
  "intel_allocator_reloc \<Rightarrow> u32 \<Rightarrow> u64 \<Rightarrow> u64 \<Rightarrow> u8 \<Rightarrow> allocator_strategy \<Rightarrow>
   (u64 \<times> intel_allocator_reloc) option" where
  "intel_allocator_reloc_alloc ialr handle sz alignment pat_index strategy = do {
     rec \<leftarrow> igt_map_search (reloc_objects ialr) handle;
     (case rec of
        Some rec \<Rightarrow> do {
          igt_assert (rec_size rec = sz);
          igt_assert (rec_pat_index rec = pat_index);
          Some (rec_offset rec, ialr)
        }
      | None \<Rightarrow>
          let aligned_offset = ALIGN (reloc_offset ialr) alignment;
              aligned_offset = (if aligned_offset + sz > reloc_end ialr
                then ALIGN (reloc_start ialr) alignment else aligned_offset)
          in if aligned_offset + sz > reloc_end ialr then Some (ALLOC_INVALID_ADDRESS, ialr)
             else do {
               let offset = aligned_offset;
               objects \<leftarrow> map_put (reloc_objects ialr) handle
                 \<lparr>rec_handle = handle, rec_offset = offset, rec_size = sz, rec_pat_index = pat_index\<rparr>;
               Some (offset, ialr\<lparr>reloc_objects := objects, reloc_offset := offset + sz,
                 reloc_allocated_objects := reloc_allocated_objects ialr + 1\<rparr>)
             })
   }"

definition intel_allocator_reloc_free ::
  "intel_allocator_reloc \<Rightarrow> u32 \<Rightarrow> (bool \<times> intel_allocator_reloc) option" where
  "intel_allocator_reloc_free ialr handle = do {
     entry \<leftarrow> igt_map_search_entry (reloc_objects ialr) handle;
     Some (case entry of
        None \<Rightarrow> (False, ialr)
      | Some i \<Rightarrow>
          let ialr' = ialr\<lparr>reloc_objects := igt_map_remove_entry (reloc_objects ialr) (Some i)\<rparr>
          in case entry_data (map_table (reloc_objects ialr) ! i) of
               None \<Rightarrow> (False, ialr')
             | Some rec \<Rightarrow> (True, ialr'\<lparr>reloc_allocated_objects := reloc_allocated_objects ialr - 1\<rparr>))
   }"

definition intel_allocator_reloc_is_allocated ::
  "intel_allocator_reloc \<Rightarrow> u32 \<Rightarrow> u64 \<Rightarrow> u64 \<Rightarrow> bool option" where
  "intel_allocator_reloc_is_allocated ialr handle sz offset = do {
     igt_assert (handle \<noteq> 0);
     rec \<leftarrow> igt_map_search (reloc_objects ialr) handle;
     Some (case rec of None \<Rightarrow> False | Some rec \<Rightarrow> same_record rec handle sz offset)
   }"

text \<open>The entries that \<open>intel_allocator_reloc_destroy\<close> frees.\<close>

definition intel_allocator_reloc_destroy ::
  "intel_allocator_reloc \<Rightarrow> (u32, intel_allocator_record) igt_map_entry list" where
  "intel_allocator_reloc_destroy ialr = igt_map_destroy (Some (reloc_objects ialr)) True"

definition intel_allocator_reloc_reserve ::
  "intel_allocator_reloc \<Rightarrow> u32 \<Rightarrow> u64 \<Rightarrow> u64 \<Rightarrow> (bool \<times> intel_allocator_reloc) option" where
  "intel_allocator_reloc_reserve ialr handle start end_addr = Some (False, ialr)"

definition intel_allocator_reloc_unreserve ::
  "intel_allocator_reloc \<Rightarrow> u32 \<Rightarrow> u64 \<Rightarrow> u64 \<Rightarrow> (bool \<times> intel_allocator_reloc) option" where
  "intel_allocator_reloc_unreserve ialr handle start end_addr = Some (False, ialr)"

definition intel_allocator_reloc_is_reserved ::
  "intel_allocator_reloc \<Rightarrow> u64 \<Rightarrow> u64 \<Rightarrow> bool option" where
  "intel_allocator_reloc_is_reserved ialr start end_addr = Some False"

definition intel_allocator_reloc_is_empty :: "intel_allocator_reloc \<Rightarrow> bool" where
  "intel_allocator_reloc_is_empty ialr \<longleftrightarrow> \<not> reloc_allocated_objects ialr \<noteq> 0"

subsection \<open>The invariant\<close>

definition reloc_inv :: "intel_allocator_reloc \<Rightarrow> bool" where
  "reloc_inv ialr \<longleftrightarrow>
     map_of_keys igt_map_hash_32 igt_map_equal_32 (reloc_objects ialr) \<and>
     (\<forall>(k, r) \<in># map_contents (reloc_objects ialr). k = rec_handle r) \<and>
     reloc_start ialr < reloc_end ialr \<and>
     reloc_allocated_objects ialr = of_nat (size (map_contents (reloc_objects ialr)))"

abbreviation reloc_object_of :: "intel_allocator_reloc \<Rightarrow> u32 \<Rightarrow> intel_allocator_record option" where
  "reloc_object_of ialr \<equiv> map_abs (reloc_objects ialr)"

abbreviation reloc_room :: "intel_allocator_reloc \<Rightarrow> bool" where
  "reloc_room ialr \<equiv> size (map_contents (reloc_objects ialr)) < 2 ^ 16"

lemma reloc_invD:
  assumes "reloc_inv ialr"
  shows "map_of_keys igt_map_hash_32 igt_map_equal_32 (reloc_objects ialr)"
    "reloc_start ialr < reloc_end ialr"
    "(k, r) \<in># map_contents (reloc_objects ialr) \<Longrightarrow> k = rec_handle r"
  using assms by (auto simp: reloc_inv_def)

lemma reloc_object_handle: "reloc_inv ialr \<Longrightarrow> reloc_object_of ialr h = Some r \<Longrightarrow> rec_handle r = h"
  using map_abs_Some_contents [OF reloc_invD(1), of ialr h r] reloc_invD(3) [of ialr h r]
  by (auto simp: igt_map_equal_32_def)

lemma reloc_create_correct:
  assumes "max start BIAS < end_addr"
  shows "\<exists>ialr. intel_allocator_reloc_create ial start end_addr = Some ialr \<and> reloc_inv ialr \<and>
    reloc_object_of ialr = (\<lambda>_. None) \<and> reloc_start ialr = max start BIAS \<and>
    reloc_offset ialr = max start BIAS \<and> reloc_end ialr = end_addr"
  using assms
  by (simp add: intel_allocator_reloc_create_def Let_def reloc_inv_def map_of_keys_create keys_ok_32 map_abs_create)

subsection \<open>Allocation\<close>

text \<open>The position the code computes.\<close>

definition reloc_position :: "intel_allocator_reloc \<Rightarrow> u64 \<Rightarrow> u64 \<Rightarrow> u64" where
  "reloc_position ialr sz alignment =
     (if ALIGN (reloc_offset ialr) alignment + sz > reloc_end ialr
      then ALIGN (reloc_start ialr) alignment else ALIGN (reloc_offset ialr) alignment)"

lemma reloc_alloc_known:
  assumes "reloc_inv ialr" "reloc_object_of ialr handle = Some r"
  shows "intel_allocator_reloc_alloc ialr handle sz alignment pat_index strategy =
    (if rec_size r = sz \<and> rec_pat_index r = pat_index then Some (rec_offset r, ialr) else None)"
  using assms map_search_abs [OF reloc_invD(1) [OF assms(1)]]
  by (simp add: intel_allocator_reloc_alloc_def igt_assert_def)

lemma reloc_alloc_new:
  assumes inv: "reloc_inv ialr" and new: "reloc_object_of ialr handle = None" and room: "reloc_room ialr"
  shows "\<exists>ialr'. intel_allocator_reloc_alloc ialr handle sz alignment pat_index strategy =
      Some (if reloc_position ialr sz alignment + sz > reloc_end ialr then ALLOC_INVALID_ADDRESS
            else reloc_position ialr sz alignment, ialr') \<and>
    reloc_inv ialr' \<and> reloc_start ialr' = reloc_start ialr \<and> reloc_end ialr' = reloc_end ialr \<and>
    (if reloc_position ialr sz alignment + sz > reloc_end ialr then ialr' = ialr
     else reloc_object_of ialr' = (reloc_object_of ialr)(handle \<mapsto>
         \<lparr>rec_handle = handle, rec_offset = reloc_position ialr sz alignment, rec_size = sz,
          rec_pat_index = pat_index\<rparr>) \<and>
       size (map_contents (reloc_objects ialr')) = size (map_contents (reloc_objects ialr)) + 1 \<and>
       reloc_offset ialr' = reloc_position ialr sz alignment + sz)"
proof -
  let ?p = "reloc_position ialr sz alignment"
  let ?rec = "\<lparr>rec_handle = handle, rec_offset = ?p, rec_size = sz, rec_pat_index = pat_index\<rparr>"
  note search = map_search_abs [OF reloc_invD(1) [OF inv], of handle, unfolded new]
  obtain objects where o: "map_put (reloc_objects ialr) handle ?rec = Some objects"
    "map_of_keys igt_map_hash_32 igt_map_equal_32 objects"
    "map_contents objects = add_mset (handle, ?rec) (map_contents (reloc_objects ialr))"
    "map_abs objects = (reloc_object_of ialr)(handle \<mapsto> ?rec)"
    using map_put_new [OF keys_ok_32 reloc_invD(1) [OF inv] room new, of ?rec]
    by (auto simp: fun_upd_def eq_commute [of handle] igt_map_equal_32_def)
  have run: "intel_allocator_reloc_alloc ialr handle sz alignment pat_index strategy =
      (if ?p + sz > reloc_end ialr then Some (ALLOC_INVALID_ADDRESS, ialr)
       else Some (?p, ialr\<lparr>reloc_objects := objects, reloc_offset := ?p + sz,
         reloc_allocated_objects := reloc_allocated_objects ialr + 1\<rparr>))"
    using o(1) unfolding intel_allocator_reloc_alloc_def Let_def reloc_position_def
    by (simp add: search)
  show ?thesis
    unfolding run using inv o(2-4) by (auto simp: reloc_inv_def add.commute)
qed

text \<open>Where that is, when no sum exceeds 64 bits: the first aligned position from the running offset on
  if the object fits there, otherwise the first one in the range; the allocation fails only if no
  aligned position of the range can hold the object.\<close>

definition reloc_no_wrap :: "intel_allocator_reloc \<Rightarrow> u64 \<Rightarrow> u64 \<Rightarrow> bool" where
  "reloc_no_wrap ialr sz alignment \<longleftrightarrow> unat (reloc_end ialr) + unat alignment + unat sz < 2 ^ 64"

definition reloc_fits :: "intel_allocator_reloc \<Rightarrow> u64 \<Rightarrow> u64 \<Rightarrow> nat \<Rightarrow> bool" where
  "reloc_fits ialr sz alignment a \<longleftrightarrow> unat alignment dvd a \<and> a + unat sz \<le> unat (reloc_end ialr)"

lemma reloc_position_correct:
  assumes range: "reloc_start ialr \<le> reloc_offset ialr" "reloc_offset ialr \<le> reloc_end ialr"
    and al: "unat alignment = 2 ^ k" and wrap: "reloc_no_wrap ialr sz alignment"
  shows "let p = reloc_position ialr sz alignment in
    (p + sz > reloc_end ialr \<longleftrightarrow>
       \<not> (\<exists>a\<ge>unat (reloc_start ialr). reloc_fits ialr sz alignment a)) \<and>
    (p + sz \<le> reloc_end ialr \<longrightarrow> reloc_fits ialr sz alignment (unat p) \<and>
       (let from = (if \<exists>a\<ge>unat (reloc_offset ialr). reloc_fits ialr sz alignment a
                    then unat (reloc_offset ialr) else unat (reloc_start ialr))
        in from \<le> unat p \<and> (\<forall>a\<ge>from. reloc_fits ialr sz alignment a \<longrightarrow> unat p \<le> a)))"
proof -
  let ?e = "unat (reloc_end ialr)"
  have aligned: "unat alignment dvd unat (ALIGN v alignment)" "unat v \<le> unat (ALIGN v alignment)"
    "\<And>w. unat alignment dvd w \<Longrightarrow> unat v \<le> w \<Longrightarrow> unat (ALIGN v alignment) \<le> w"
    "unat (ALIGN v alignment + sz) = unat (ALIGN v alignment) + unat sz"
    if v: "v \<le> reloc_end ialr" for v
  proof -
    have "unat v \<le> ?e" using v by (simp add: word_le_nat_alt)
    then have fits: "unat v + unat alignment \<le> 2 ^ 64" using wrap by (simp add: reloc_no_wrap_def)
    note l = ALIGN_least [OF al fits]
    show "unat alignment dvd unat (ALIGN v alignment)" "unat v \<le> unat (ALIGN v alignment)"
      "\<And>w. unat alignment dvd w \<Longrightarrow> unat v \<le> w \<Longrightarrow> unat (ALIGN v alignment) \<le> w" using l by blast+
    show "unat (ALIGN v alignment + sz) = unat (ALIGN v alignment) + unat sz"
      using l(3) \<open>unat v \<le> ?e\<close> wrap by (intro unat_add_no_wrap) (simp add: reloc_no_wrap_def)
  qed
  have fits_iff: "ALIGN v alignment + sz \<le> reloc_end ialr \<longleftrightarrow> (\<exists>a\<ge>unat v. reloc_fits ialr sz alignment a)"
    if v: "v \<le> reloc_end ialr" for v
  proof
    assume "ALIGN v alignment + sz \<le> reloc_end ialr"
    then have "reloc_fits ialr sz alignment (unat (ALIGN v alignment))"
      using aligned [OF v] by (simp add: reloc_fits_def word_le_nat_alt)
    then show "\<exists>a\<ge>unat v. reloc_fits ialr sz alignment a" using aligned(2) [OF v] by blast
  next
    assume "\<exists>a\<ge>unat v. reloc_fits ialr sz alignment a"
    then obtain a where "unat v \<le> a" "unat alignment dvd a" "a + unat sz \<le> ?e" by (auto simp: reloc_fits_def)
    moreover from this have "unat (ALIGN v alignment) \<le> a" using aligned(3) [OF v] by blast
    ultimately show "ALIGN v alignment + sz \<le> reloc_end ialr" by (simp add: word_le_nat_alt aligned(4) [OF v])
  qed
  have start: "reloc_start ialr \<le> reloc_end ialr" using range by simp
  have ge: "unat (reloc_start ialr) \<le> unat (reloc_offset ialr)" using range(1) by (simp add: word_le_nat_alt)
  have pos: "reloc_fits ialr sz alignment (unat (ALIGN v alignment)) \<and> unat v \<le> unat (ALIGN v alignment) \<and>
      (\<forall>a\<ge>unat v. reloc_fits ialr sz alignment a \<longrightarrow> unat (ALIGN v alignment) \<le> a)"
    if v: "v \<le> reloc_end ialr" "ALIGN v alignment + sz \<le> reloc_end ialr" for v
    using aligned [OF v(1)] v(2) by (auto simp: reloc_fits_def word_le_nat_alt)
  show ?thesis
  proof (cases "ALIGN (reloc_offset ialr) alignment + sz \<le> reloc_end ialr")
    case True
    then have p: "reloc_position ialr sz alignment = ALIGN (reloc_offset ialr) alignment"
      by (simp add: reloc_position_def not_less [symmetric])
    have "\<exists>a\<ge>unat (reloc_offset ialr). reloc_fits ialr sz alignment a"
      using fits_iff [OF range(2)] True by blast
    moreover from this have "\<exists>a\<ge>unat (reloc_start ialr). reloc_fits ialr sz alignment a"
      using ge order_trans by blast
    ultimately show ?thesis using True pos [OF range(2) True] by (simp add: p)
  next
    case False
    then have p: "reloc_position ialr sz alignment = ALIGN (reloc_start ialr) alignment"
      by (simp add: reloc_position_def not_le)
    have no: "\<not> (\<exists>a\<ge>unat (reloc_offset ialr). reloc_fits ialr sz alignment a)"
      using fits_iff [OF range(2)] False by blast
    show ?thesis using pos [OF start] fits_iff [OF start] by (auto simp: p no Let_def not_less)
  qed
qed


subsection \<open>Freeing and queries\<close>

lemma reloc_free_cases:
  assumes inv: "reloc_inv ialr"
  shows "\<exists>ialr'. intel_allocator_reloc_free ialr handle = Some (reloc_object_of ialr handle \<noteq> None, ialr') \<and>
    reloc_inv ialr' \<and> reloc_object_of ialr' = (reloc_object_of ialr)(handle := None) \<and>
    size (map_contents (reloc_objects ialr')) \<le> size (map_contents (reloc_objects ialr)) \<and>
    reloc_start ialr' = reloc_start ialr \<and> reloc_end ialr' = reloc_end ialr \<and>
    reloc_offset ialr' = reloc_offset ialr"
proof (cases "reloc_object_of ialr handle")
  case None
  then show ?thesis
    using search_entry_abs [OF reloc_invD(1) [OF inv], of handle] inv
    by (simp add: intel_allocator_reloc_free_def fun_upd_idem)
next
  case (Some r)
  note m = reloc_invD(1) [OF inv]
  obtain i where i: "igt_map_search_entry (reloc_objects ialr) handle = Some (Some i)"
    "entry_data (map_table (reloc_objects ialr) ! i) = Some r"
    "map_drop (reloc_objects ialr) handle = Some (igt_map_remove_entry (reloc_objects ialr) (Some i))"
    using search_entry_abs [OF m, of handle] Some by auto
  obtain k where o: "map_of_keys igt_map_hash_32 igt_map_equal_32 (igt_map_remove_entry (reloc_objects ialr) (Some i))"
    "map_contents (reloc_objects ialr) = add_mset (k, r) (map_contents (igt_map_remove_entry (reloc_objects ialr) (Some i)))"
    "map_abs (igt_map_remove_entry (reloc_objects ialr) (Some i)) = (reloc_object_of ialr)(handle := None)"
    using map_drop_found [OF keys_ok_32 m Some] i(3)
    by (auto simp: fun_upd_def eq_commute [of handle] igt_map_equal_32_def)
  show ?thesis using i inv o Some by (simp add: intel_allocator_reloc_free_def reloc_inv_def Let_def)
qed

lemma reloc_is_allocated_iff:
  assumes inv: "reloc_inv ialr" and handle: "handle \<noteq> 0"
  shows "intel_allocator_reloc_is_allocated ialr handle sz offset =
    Some (\<exists>r. reloc_object_of ialr handle = Some r \<and> same_record r handle sz offset)"
proof -
  note search = map_search_abs [OF reloc_invD(1) [OF inv], of handle]
  show ?thesis using handle
    by (cases "reloc_object_of ialr handle") (auto simp: intel_allocator_reloc_is_allocated_def search)
qed

interpretation reloc: allocator_backend reloc_inv reloc_object_of reloc_room
  intel_allocator_reloc_alloc intel_allocator_reloc_free intel_allocator_reloc_is_allocated
proof unfold_locales
  fix s h r sz al pat st off
  show "reloc_inv s \<Longrightarrow> reloc_object_of s h = Some r \<Longrightarrow> rec_handle r = h" by (rule reloc_object_handle)
  show "reloc_inv s \<Longrightarrow> h \<noteq> 0 \<Longrightarrow> reloc_object_of s h = Some r \<Longrightarrow>
      intel_allocator_reloc_alloc s h sz al pat st =
        (if rec_size r = sz \<and> rec_pat_index r = pat then Some (rec_offset r, s) else None)"
    by (rule reloc_alloc_known)
  show "reloc_inv s \<Longrightarrow> h \<noteq> 0 \<Longrightarrow> reloc_object_of s h = None \<Longrightarrow> reloc_room s \<Longrightarrow> 0 < unat sz \<Longrightarrow> 0 < unat al \<Longrightarrow>
      \<exists>off s'. intel_allocator_reloc_alloc s h sz al pat st = Some (off, s') \<and> reloc_inv s' \<and>
        (off = ALLOC_INVALID_ADDRESS \<and> s' = s \<or> reloc_object_of s' = (reloc_object_of s)(h \<mapsto>
           \<lparr>rec_handle = h, rec_offset = off, rec_size = sz, rec_pat_index = pat\<rparr>))"
    using reloc_alloc_new [of s h sz al pat st] by (fastforce split: if_splits)
  show "reloc_inv s \<Longrightarrow> \<exists>s'. intel_allocator_reloc_free s h = Some (reloc_object_of s h \<noteq> None, s') \<and>
      reloc_inv s' \<and> reloc_object_of s' = (reloc_object_of s)(h := None)"
    using reloc_free_cases [of s h] by blast
  show "reloc_inv s \<Longrightarrow> h \<noteq> 0 \<Longrightarrow> intel_allocator_reloc_is_allocated s h sz off =
      Some (\<exists>r. reloc_object_of s h = Some r \<and> same_record r h sz off)"
    by (rule reloc_is_allocated_iff)
qed

subsection \<open>Properties\<close>

definition example_reloc :: intel_allocator_reloc where
  "example_reloc = the (intel_allocator_reloc_create 0 0x40000 0x100000)"

lemma example_reloc:
  "reloc_inv example_reloc" "reloc_object_of example_reloc = (\<lambda>_. None)" "reloc_room example_reloc"
  "reloc_start example_reloc = 0x40000" "reloc_offset example_reloc = 0x40000" "reloc_end example_reloc = 0x100000"
proof -
  have "max 0x40000 BIAS = 0x40000" "max 0x40000 BIAS < 0x100000" by (simp_all add: BIAS_def push_bit_eq_mult)
  with reloc_create_correct [of "0x40000" "0x100000" 0]
  show "reloc_inv example_reloc" "reloc_object_of example_reloc = (\<lambda>_. None)"
    "reloc_start example_reloc = 0x40000" "reloc_offset example_reloc = 0x40000" "reloc_end example_reloc = 0x100000"
    by (auto simp: example_reloc_def)
  have "map_contents (reloc_objects example_reloc) = {#}"
    using map_of_keys_create [OF keys_ok_32, THEN conjunct2] by (simp add: example_reloc_def intel_allocator_reloc_create_def
        igt_assert_def Let_def BIAS_def push_bit_eq_mult)
  then show "reloc_room example_reloc" by simp
qed

lemma example_ALIGN: "ALIGN 0x40000 0x1000 = 0x40000"
  by (simp add: ALIGN_def ALIGN_MASK_def)

text \<open>C8: The RELOC allocator places a new object first-fit above its cursor, wrapping once to the start of
  its range: as long as the 64-bit sums do not wrap, the offset is the least aligned one at or above the
  cursor that fits below the end, else the least one that fits from the start, and the allocation fails
  exactly when no aligned offset fits the range. The cursor stays in the range.\<close>

theorem reloc_alloc_first_fit:
  assumes "reloc_inv ialr" "reloc_object_of ialr handle = None" "reloc_room ialr"
    and "reloc_start ialr \<le> reloc_offset ialr" "reloc_offset ialr \<le> reloc_end ialr"
    and "unat alignment = 2 ^ k" "reloc_no_wrap ialr sz alignment"
  shows "\<exists>r ialr'. intel_allocator_reloc_alloc ialr handle sz alignment pat_index strategy = Some (r, ialr') \<and>
    reloc_inv ialr' \<and> reloc_start ialr' \<le> reloc_offset ialr' \<and> reloc_offset ialr' \<le> reloc_end ialr' \<and>
    (if \<exists>a\<ge>unat (reloc_start ialr). reloc_fits ialr sz alignment a
     then reloc_fits ialr sz alignment (unat r) \<and>
       (let from = (if \<exists>a\<ge>unat (reloc_offset ialr). reloc_fits ialr sz alignment a
                    then unat (reloc_offset ialr) else unat (reloc_start ialr))
        in from \<le> unat r \<and> (\<forall>a\<ge>from. reloc_fits ialr sz alignment a \<longrightarrow> unat r \<le> a)) \<and>
       reloc_object_of ialr' = (reloc_object_of ialr)(handle \<mapsto>
         \<lparr>rec_handle = handle, rec_offset = r, rec_size = sz, rec_pat_index = pat_index\<rparr>) \<and>
       reloc_offset ialr' = r + sz
     else r = ALLOC_INVALID_ADDRESS \<and> ialr' = ialr)"
proof -
  let ?p = "reloc_position ialr sz alignment"
  note pos = reloc_position_correct [OF assms(4-7), unfolded Let_def]
  from reloc_alloc_new [OF assms(1-3), of sz alignment pat_index strategy]
  obtain ialr' where a: "intel_allocator_reloc_alloc ialr handle sz alignment pat_index strategy =
      Some (if ?p + sz > reloc_end ialr then ALLOC_INVALID_ADDRESS else ?p, ialr')"
    "reloc_inv ialr'" "reloc_start ialr' = reloc_start ialr" "reloc_end ialr' = reloc_end ialr"
    "if ?p + sz > reloc_end ialr then ialr' = ialr
     else reloc_object_of ialr' = (reloc_object_of ialr)(handle \<mapsto>
         \<lparr>rec_handle = handle, rec_offset = ?p, rec_size = sz, rec_pat_index = pat_index\<rparr>) \<and>
       size (map_contents (reloc_objects ialr')) = size (map_contents (reloc_objects ialr)) + 1 \<and>
       reloc_offset ialr' = ?p + sz" by blast
  show ?thesis
  proof (cases "?p + sz > reloc_end ialr")
    case True
    then have none: "(\<exists>a\<ge>unat (reloc_start ialr). reloc_fits ialr sz alignment a) = False" using pos by blast
    show ?thesis unfolding none if_False using True a assms(4,5) by auto
  next
    case False
    note a' = a(1,5) [unfolded if_not_P [OF False]]
    from False have fits: "\<exists>a\<ge>unat (reloc_start ialr). reloc_fits ialr sz alignment a" using pos by blast
    from False have le: "?p + sz \<le> reloc_end ialr" by (simp add: not_less)
    from pos this have p: "reloc_fits ialr sz alignment (unat ?p)" by blast
    have from_p: "(if \<exists>a\<ge>unat (reloc_offset ialr). reloc_fits ialr sz alignment a
        then unat (reloc_offset ialr) else unat (reloc_start ialr)) \<le> unat ?p" using pos le by blast
    moreover have "unat (reloc_start ialr) \<le> unat (reloc_offset ialr)" using assms(4) by (simp add: word_le_nat_alt)
    ultimately have "unat (reloc_start ialr) \<le> unat ?p" by (auto split: if_splits)
    moreover have "unat (?p + sz) = unat ?p + unat sz"
      using p unat_u64_lt [of "reloc_end ialr"] by (intro unat_add_no_wrap) (simp add: reloc_fits_def)
    ultimately have "reloc_start ialr \<le> ?p + sz" by (simp add: word_le_nat_alt)
    moreover have "\<forall>a\<ge>(if \<exists>a\<ge>unat (reloc_offset ialr). reloc_fits ialr sz alignment a
        then unat (reloc_offset ialr) else unat (reloc_start ialr)). reloc_fits ialr sz alignment a \<longrightarrow> unat ?p \<le> a"
      using pos le by blast
    ultimately show ?thesis unfolding if_P [OF fits] Let_def using le a' a(2-4) p from_p
      by (intro exI [of _ ?p] exI [of _ ialr']) simp
  qed
qed

theorem reloc_alloc_first_fit_witness:
  "\<exists>r ialr'. intel_allocator_reloc_alloc example_reloc 5 0x1000 0x1000 0 ALLOC_STRATEGY_NONE = Some (r, ialr') \<and>
    reloc_inv ialr' \<and> r = 0x40000"
proof -
  have al: "unat (0x1000 :: u64) = 2 ^ 12" by simp
  have nw: "reloc_no_wrap example_reloc 0x1000 0x1000" by (simp add: reloc_no_wrap_def example_reloc)
  have range: "reloc_start example_reloc \<le> reloc_offset example_reloc" "reloc_offset example_reloc \<le> reloc_end example_reloc"
    "reloc_object_of example_reloc 5 = None"
    by (simp_all add: example_reloc)
  have fit: "reloc_fits example_reloc 0x1000 0x1000 0x40000" by (simp add: reloc_fits_def example_reloc)
  then have ex: "\<exists>a\<ge>unat (reloc_start example_reloc). reloc_fits example_reloc 0x1000 0x1000 a"
    "\<exists>a\<ge>unat (reloc_offset example_reloc). reloc_fits example_reloc 0x1000 0x1000 a"
    by (auto simp: example_reloc(4,5))
  obtain r ialr' where r: "intel_allocator_reloc_alloc example_reloc 5 0x1000 0x1000 0 ALLOC_STRATEGY_NONE = Some (r, ialr')"
    "reloc_inv ialr'" "unat (reloc_offset example_reloc) \<le> unat r"
    "\<forall>a\<ge>unat (reloc_offset example_reloc). reloc_fits example_reloc 0x1000 0x1000 a \<longrightarrow> unat r \<le> a"
    using reloc_alloc_first_fit [OF example_reloc(1) range(3) example_reloc(3) range(1,2) al nw, of 0 ALLOC_STRATEGY_NONE]
    by (simp only: ex if_True Let_def) blast
  from r(4) [rule_format, OF _ fit] r(3) have "unat r = 0x40000" by (simp add: example_reloc(5))
  then have "r = 0x40000" by (simp add: word_unat_eq_iff)
  with r(1,2) show ?thesis by blast
qed

text \<open>The range check of \<open>intel_allocator_reloc_alloc\<close> is done in wrapping 64-bit arithmetic: when the end of
  the object wraps around to a value that is not above the end of the range, the allocation succeeds and
  records an object that reaches past the range.\<close>

theorem reloc_alloc_accepts_wrapped_end:
  assumes "reloc_inv ialr" "reloc_object_of ialr handle = None" "reloc_room ialr"
    and "2 ^ 64 \<le> unat (ALIGN (reloc_offset ialr) alignment) + unat sz"
    and "unat (ALIGN (reloc_offset ialr) alignment) + unat sz \<le> 2 ^ 64 + unat (reloc_end ialr)"
  shows "\<exists>ialr'. intel_allocator_reloc_alloc ialr handle sz alignment pat_index strategy =
      Some (ALIGN (reloc_offset ialr) alignment, ialr') \<and>
    reloc_object_of ialr' handle = Some \<lparr>rec_handle = handle, rec_offset = ALIGN (reloc_offset ialr) alignment,
      rec_size = sz, rec_pat_index = pat_index\<rparr> \<and>
    unat (reloc_end ialr) < unat (ALIGN (reloc_offset ialr) alignment) + unat sz"
proof -
  let ?p = "ALIGN (reloc_offset ialr) alignment"
  have "unat (?p + sz) = unat ?p + unat sz - 2 ^ 64"
  proof -
    have "unat ?p + unat sz < 2 ^ 64 + 2 ^ 64" using add_strict_mono [OF unat_u64_lt [of ?p] unat_u64_lt [of sz]] by simp
    then have "(unat ?p + unat sz) mod 2 ^ 64 = unat ?p + unat sz - 2 ^ 64"
      using assms(4) by (simp add: mod_if)
    then show ?thesis by (simp add: unat_word_ariths)
  qed
  then have "?p + sz \<le> reloc_end ialr" using assms(4,5) by (simp add: word_le_nat_alt)
  then have le: "\<not> ?p + sz > reloc_end ialr" by (simp add: not_less)
  then have pos: "reloc_position ialr sz alignment = ?p" by (simp only: reloc_position_def if_False)
  have "unat (reloc_end ialr) < unat ?p + unat sz" using assms(4) unat_u64_lt [of "reloc_end ialr"] by simp
  with reloc_alloc_new [OF assms(1-3), of sz alignment pat_index strategy, unfolded pos if_not_P [OF le]]
  show ?thesis by auto
qed

theorem reloc_alloc_accepts_wrapped_end_witness:
  "\<exists>ialr'. intel_allocator_reloc_alloc example_reloc 5 0xfffffffffffc0000 0x1000 0 ALLOC_STRATEGY_NONE =
    Some (0x40000, ialr')"
  using reloc_alloc_accepts_wrapped_end [OF example_reloc(1) _ example_reloc(3), of 5 "0x1000" "0xfffffffffffc0000" 0 ALLOC_STRATEGY_NONE]
  by (auto simp: example_reloc example_ALIGN)

end
