(* ===== verification/Intel_Allocator.thy ===== *)
theory Intel_Allocator
  imports Intel_Allocator_Simple Intel_Allocator_Reloc
begin

text \<open>
  The allocator service of \<open>lib/intel_allocator.c\<close>: the handles given to the callers, the
  allocator instances they refer to (one per (fd, ctx) or (fd, vm)), and \<open>handle_request\<close>, which
  serves the requests of \<open>lib/intel_allocator_msgchannel.h\<close> in the main process.

  A \<open>struct allocator\<close> lives at an address (a natural number) in the store \<open>st_als\<close>; \<open>malloc\<close>
  gives the next unused address. Each instance has its own \<open>struct intel_allocator\<close>, kept inside
  it; the table of function pointers is a case distinction on \<open>priv\<close>. The maps hold pointers: the
  key of \<open>ctx_map\<close> and \<open>vm_map\<close> is what their functions read through it (\<open>fd\<close>, \<open>ctx\<close>,
  \<open>vm\<close>), the data the address. The \<open>int32_t\<close> reference counts are integers. Requests run one
  at a time, as \<open>map_mutex\<close> and \<open>ial->mutex\<close> make them; \<open>None\<close> is a failed \<open>igt_assert\<close>
  or an access through a dangling or NULL pointer.

  The lemmas show that no pointer dangles, that the reference counts of an instance are the number
  of its handles, and what each request does to its own instance and to the others.
\<close>

subsection \<open>Allocator instances\<close>

datatype ial_priv = Reloc_Priv intel_allocator_reloc | Simple_Priv intel_allocator_simple

record intel_allocator =
  ial_fd :: u32
  ial_type :: u8
  ial_strategy :: allocator_strategy
  ial_default_alignment :: u64
  ial_refcount :: int
  ial_priv :: ial_priv

definition INTEL_ALLOCATOR_NONE :: u8 where "INTEL_ALLOCATOR_NONE = 0"
definition INTEL_ALLOCATOR_RELOC :: u8 where "INTEL_ALLOCATOR_RELOC = 1"
definition INTEL_ALLOCATOR_SIMPLE :: u8 where "INTEL_ALLOCATOR_SIMPLE = 2"

text \<open>\<open>intel_allocator_create\<close>; \<open>ial\<close> is the address of the new structure.\<close>

definition intel_allocator_create ::
  "u64 \<Rightarrow> u32 \<Rightarrow> u64 \<Rightarrow> u64 \<Rightarrow> u8 \<Rightarrow> allocator_strategy \<Rightarrow> u64 \<Rightarrow> intel_allocator option" where
  "intel_allocator_create ial fd start end_addr allocator_type strategy default_alignment = do {
     priv \<leftarrow> (if allocator_type = INTEL_ALLOCATOR_NONE then None
              else if allocator_type = INTEL_ALLOCATOR_RELOC then
                map_option Reloc_Priv (intel_allocator_reloc_create ial start end_addr)
              else if allocator_type = INTEL_ALLOCATOR_SIMPLE then
                map_option Simple_Priv (intel_allocator_simple_create start end_addr strategy)
              else None);
     Some \<lparr>ial_fd = fd, ial_type = allocator_type, ial_strategy = strategy,
           ial_default_alignment = default_alignment, ial_refcount = 0, ial_priv = priv\<rparr>
   }"

text \<open>The calls through the function pointers.\<close>

fun ial_get_address_range :: "ial_priv \<Rightarrow> u64 \<times> u64" where
  "ial_get_address_range (Reloc_Priv r) = intel_allocator_reloc_get_address_range r"
| "ial_get_address_range (Simple_Priv s) = intel_allocator_simple_get_address_range s"

fun ial_alloc ::
  "ial_priv \<Rightarrow> u32 \<Rightarrow> u64 \<Rightarrow> u64 \<Rightarrow> u8 \<Rightarrow> allocator_strategy \<Rightarrow> (u64 \<times> ial_priv) option" where
  "ial_alloc (Reloc_Priv r) handle sz alignment pat_index strategy =
     map_option (apsnd Reloc_Priv) (intel_allocator_reloc_alloc r handle sz alignment pat_index strategy)"
| "ial_alloc (Simple_Priv s) handle sz alignment pat_index strategy =
     map_option (apsnd Simple_Priv) (intel_allocator_simple_alloc s handle sz alignment pat_index strategy)"

fun ial_free :: "ial_priv \<Rightarrow> u32 \<Rightarrow> (bool \<times> ial_priv) option" where
  "ial_free (Reloc_Priv r) handle = map_option (apsnd Reloc_Priv) (intel_allocator_reloc_free r handle)"
| "ial_free (Simple_Priv s) handle = map_option (apsnd Simple_Priv) (intel_allocator_simple_free s handle)"

fun ial_is_allocated :: "ial_priv \<Rightarrow> u32 \<Rightarrow> u64 \<Rightarrow> u64 \<Rightarrow> bool option" where
  "ial_is_allocated (Reloc_Priv r) handle sz offset = intel_allocator_reloc_is_allocated r handle sz offset"
| "ial_is_allocated (Simple_Priv s) handle sz offset = intel_allocator_simple_is_allocated s handle sz offset"

fun ial_reserve :: "ial_priv \<Rightarrow> u32 \<Rightarrow> u64 \<Rightarrow> u64 \<Rightarrow> (bool \<times> ial_priv) option" where
  "ial_reserve (Reloc_Priv r) handle start end_addr =
     map_option (apsnd Reloc_Priv) (intel_allocator_reloc_reserve r handle start end_addr)"
| "ial_reserve (Simple_Priv s) handle start end_addr =
     map_option (apsnd Simple_Priv) (intel_allocator_simple_reserve s handle start end_addr)"

fun ial_unreserve :: "ial_priv \<Rightarrow> u32 \<Rightarrow> u64 \<Rightarrow> u64 \<Rightarrow> (bool \<times> ial_priv) option" where
  "ial_unreserve (Reloc_Priv r) handle start end_addr =
     map_option (apsnd Reloc_Priv) (intel_allocator_reloc_unreserve r handle start end_addr)"
| "ial_unreserve (Simple_Priv s) handle start end_addr =
     map_option (apsnd Simple_Priv) (intel_allocator_simple_unreserve s handle start end_addr)"

fun ial_is_reserved :: "ial_priv \<Rightarrow> u64 \<Rightarrow> u64 \<Rightarrow> bool option" where
  "ial_is_reserved (Reloc_Priv r) start end_addr = intel_allocator_reloc_is_reserved r start end_addr"
| "ial_is_reserved (Simple_Priv s) start end_addr = intel_allocator_simple_is_reserved s start end_addr"

fun ial_is_empty :: "ial_priv \<Rightarrow> bool" where
  "ial_is_empty (Reloc_Priv r) = intel_allocator_reloc_is_empty r"
| "ial_is_empty (Simple_Priv s) = intel_allocator_simple_is_empty s"

subsection \<open>Handles and maps\<close>

record allocator =
  al_fd :: u32
  al_ctx :: u32
  al_vm :: u32
  al_refcount :: int
  al_ial :: intel_allocator

record handle_entry =
  he_handle :: u64
  he_al :: nat

text \<open>The fields of a \<open>struct allocator\<close> that the key functions of the maps read.\<close>

record allocator_key =
  key_fd :: u32
  key_ctx :: u32
  key_vm :: u32

definition equal_handles :: "u64 \<Rightarrow> u64 \<Rightarrow> bool" where
  "equal_handles h1 h2 = (h1 = h2)"

definition equal_ctx :: "allocator_key \<Rightarrow> allocator_key \<Rightarrow> bool" where
  "equal_ctx a1 a2 = (key_fd a1 = key_fd a2 \<and> key_ctx a1 = key_ctx a2)"

definition equal_vm :: "allocator_key \<Rightarrow> allocator_key \<Rightarrow> bool" where
  "equal_vm a1 a2 = (key_fd a1 = key_fd a2 \<and> key_vm a1 = key_vm a2)"

definition hash_handles :: "u64 \<Rightarrow> u32" where
  "hash_handles h = (let hash = ucast h in hash * 0x9e370001)"

definition hash_instance :: "allocator_key \<Rightarrow> u32" where
  "hash_instance al = (let hash = scast (key_fd al) :: u64 in ucast (hash * 0x9e370001))"

record alloc_state =
  st_handles :: "(u64, handle_entry) igt_map"
  st_ctx_map :: "(allocator_key, nat) igt_map"
  st_vm_map :: "(allocator_key, nat) igt_map"
  st_next_handle :: u64
  st_als :: "nat \<Rightarrow> allocator option"
  st_next_al :: nat

text \<open>\<open>GET_MAP\<close>, and the write through the pointer it gives.\<close>

definition GET_MAP :: "alloc_state \<Rightarrow> u32 \<Rightarrow> (allocator_key, nat) igt_map" where
  "GET_MAP st vm = (if vm \<noteq> 0 then st_vm_map st else st_ctx_map st)"

definition set_map :: "alloc_state \<Rightarrow> u32 \<Rightarrow> (allocator_key, nat) igt_map \<Rightarrow> alloc_state" where
  "set_map st vm m = (if vm \<noteq> 0 then st\<lparr>st_vm_map := m\<rparr> else st\<lparr>st_ctx_map := m\<rparr>)"

definition al_key :: "allocator \<Rightarrow> allocator_key" where
  "al_key al = \<lparr>key_fd = al_fd al, key_ctx = al_ctx al, key_vm = al_vm al\<rparr>"

text \<open>The state after \<open>intel_allocator_init\<close> with nothing open.\<close>

definition init_state :: alloc_state where
  "init_state = \<lparr>st_handles = igt_map_create hash_handles equal_handles,
     st_ctx_map = igt_map_create hash_instance equal_ctx,
     st_vm_map = igt_map_create hash_instance equal_vm,
     st_next_handle = 1, st_als = (\<lambda>_. None), st_next_al = 1\<rparr>"

text \<open>\<open>__handle_create\<close> and \<open>__handle_destroy\<close>\<close>

definition handle_create :: "alloc_state \<Rightarrow> nat \<Rightarrow> (u64 \<times> alloc_state) option" where
  "handle_create st al = do {
     let h = st_next_handle st;
     handles \<leftarrow> map_put (st_handles st) h \<lparr>he_handle = h, he_al = al\<rparr>;
     Some (h, st\<lparr>st_next_handle := h + 1, st_handles := handles\<rparr>)
   }"

definition handle_destroy :: "alloc_state \<Rightarrow> u64 \<Rightarrow> alloc_state option" where
  "handle_destroy st h = do {
     (handles, _) \<leftarrow> igt_map_remove (st_handles st) h True;
     Some (st\<lparr>st_handles := handles\<rparr>)
   }"

text \<open>\<open>__allocator_find\<close> and \<open>__allocator_find_by_handle\<close>\<close>

definition allocator_find :: "alloc_state \<Rightarrow> u32 \<Rightarrow> u32 \<Rightarrow> u32 \<Rightarrow> nat option option" where
  "allocator_find st fd ctx vm =
     igt_map_search (GET_MAP st vm) \<lparr>key_fd = fd, key_ctx = ctx, key_vm = vm\<rparr>"

definition allocator_find_by_handle :: "alloc_state \<Rightarrow> u64 \<Rightarrow> nat option option" where
  "allocator_find_by_handle st handle = do {
     h \<leftarrow> igt_map_search (st_handles st) handle;
     Some (map_option he_al h)
   }"

text \<open>\<open>__allocator_create\<close> and \<open>__allocator_destroy\<close>\<close>

definition allocator_create ::
  "alloc_state \<Rightarrow> u32 \<Rightarrow> u32 \<Rightarrow> u32 \<Rightarrow> intel_allocator \<Rightarrow> (nat \<times> alloc_state) option" where
  "allocator_create st fd ctx vm ial = do {
     let a = st_next_al st;
     igt_assert (fd = ial_fd ial);
     let al = \<lparr>al_fd = fd, al_ctx = ctx, al_vm = vm, al_refcount = 0, al_ial = ial\<rparr>;
     m \<leftarrow> map_put (GET_MAP st vm) (al_key al) a;
     Some (a, (set_map st vm m)\<lparr>st_als := (st_als st)(a \<mapsto> al), st_next_al := a + 1\<rparr>)
   }"

definition allocator_destroy :: "alloc_state \<Rightarrow> nat \<Rightarrow> alloc_state option" where
  "allocator_destroy st a = do {
     al \<leftarrow> st_als st a;
     (m, freed) \<leftarrow> igt_map_remove (GET_MAP st (al_vm al)) (al_key al) True;
     freed \<leftarrow> freed;
     Some ((set_map st (al_vm al) m)\<lparr>st_als := (st_als st)(freed := None)\<rparr>)
   }"

text \<open>\<open>__allocator_get\<close> and \<open>__allocator_put\<close>\<close>

definition allocator_get :: "alloc_state \<Rightarrow> nat \<Rightarrow> (int \<times> alloc_state) option" where
  "allocator_get st a = do {
     al \<leftarrow> st_als st a;
     let refcount = ial_refcount (al_ial al);
     igt_assert (refcount \<ge> 0);
     Some (refcount, st\<lparr>st_als := (st_als st)(a \<mapsto> al\<lparr>al_refcount := al_refcount al + 1,
       al_ial := (al_ial al)\<lparr>ial_refcount := refcount + 1\<rparr>\<rparr>)\<rparr>)
   }"

definition allocator_put :: "alloc_state \<Rightarrow> nat \<Rightarrow> (bool \<times> alloc_state) option" where
  "allocator_put st a = do {
     al \<leftarrow> st_als st a;
     let refcount = ial_refcount (al_ial al);
     igt_assert (refcount \<ge> 1);
     igt_assert (refcount = 1 \<longrightarrow> al_refcount al = 1);
     Some (refcount = 1, st\<lparr>st_als := (st_als st)(a \<mapsto> al\<lparr>al_refcount := al_refcount al - 1,
       al_ial := (al_ial al)\<lparr>ial_refcount := refcount - 1\<rparr>\<rparr>)\<rparr>)
   }"

text \<open>\<open>allocator_open\<close>: the handle written to \<open>*ahndp\<close> and the instance returned.\<close>

definition allocator_open ::
  "alloc_state \<Rightarrow> u32 \<Rightarrow> u32 \<Rightarrow> u32 \<Rightarrow> u64 \<Rightarrow> u64 \<Rightarrow> u8 \<Rightarrow> allocator_strategy \<Rightarrow> u64 \<Rightarrow>
   (u64 \<times> nat \<times> alloc_state) option" where
  "allocator_open st fd ctx vm start end_addr allocator_type strategy default_alignment = do {
     found \<leftarrow> allocator_find st fd ctx vm;
     (a, st) \<leftarrow> (case found of
        Some a \<Rightarrow> Some (a, st)
      | None \<Rightarrow> do {
          ial \<leftarrow> intel_allocator_create (of_nat (st_next_al st)) fd start end_addr
                   allocator_type strategy default_alignment;
          allocator_create st fd ctx vm ial
        });
     al \<leftarrow> st_als st a;
     let ial = al_ial al;
     igt_assert (ial_type ial = allocator_type);
     igt_assert (ial_strategy ial = strategy);
     igt_assert (ial_default_alignment ial = default_alignment);
     (_, st) \<leftarrow> allocator_get st a;
     (ahnd, st) \<leftarrow> handle_create st a;
     Some (ahnd, a, st)
   }"

text \<open>\<open>allocator_close\<close>\<close>

definition allocator_close :: "alloc_state \<Rightarrow> u64 \<Rightarrow> (bool \<times> alloc_state) option" where
  "allocator_close st ahnd = do {
     found \<leftarrow> allocator_find_by_handle st ahnd;
     (case found of
        None \<Rightarrow> Some (False, st)
      | Some a \<Rightarrow> do {
          (released, st) \<leftarrow> allocator_put st a;
          al \<leftarrow> st_als st a;
          let is_empty = (released \<and> ial_is_empty (ial_priv (al_ial al)));
          st \<leftarrow> (if al_refcount al = 0 then allocator_destroy st a else Some st);
          st \<leftarrow> handle_destroy st ahnd;
          Some (is_empty, st)
        })
   }"


subsection \<open>Requests\<close>

text \<open>\<open>struct alloc_req\<close> and \<open>struct alloc_resp\<close>: the tagged unions as datatypes; the common
  field \<open>allocator_handle\<close> comes first where the request uses it.\<close>

datatype alloc_req =
  REQ_STOP
| REQ_OPEN u32 u32 u32 u64 u64 u8 allocator_strategy u64
| REQ_CLOSE u64
| REQ_ADDRESS_RANGE u64
| REQ_ALLOC u64 u32 u64 u64 u8 allocator_strategy
| REQ_FREE u64 u32
| REQ_IS_ALLOCATED u64 u32 u64 u64
| REQ_RESERVE u64 u32 u64 u64
| REQ_UNRESERVE u64 u32 u64 u64
| REQ_RESERVE_IF_NOT_ALLOCATED u64 u32 u64 u64
| REQ_IS_RESERVED u64 u64 u64

datatype alloc_resp =
  RESP_OPEN u64
| RESP_CLOSE bool
| RESP_ADDRESS_RANGE u64 u64
| RESP_ALLOC u64
| RESP_FREE bool
| RESP_IS_ALLOCATED bool
| RESP_RESERVE bool
| RESP_UNRESERVE bool
| RESP_IS_RESERVED bool
| RESP_RESERVE_IF_NOT_ALLOCATED bool bool

text \<open>What a request other than stop, open and close does to \<open>ial->priv\<close>. The alignment of an
  allocation is at least the default alignment.\<close>

fun ial_request :: "intel_allocator \<Rightarrow> alloc_req \<Rightarrow> (alloc_resp \<times> ial_priv) option" where
  "ial_request ial (REQ_ADDRESS_RANGE ahnd) =
     (case ial_get_address_range (ial_priv ial) of (start, end_addr) \<Rightarrow>
        Some (RESP_ADDRESS_RANGE start end_addr, ial_priv ial))"
| "ial_request ial (REQ_ALLOC ahnd handle sz alignment pat_index strategy) =
     map_option (apfst RESP_ALLOC) (ial_alloc (ial_priv ial) handle sz
       (max (ial_default_alignment ial) alignment) pat_index strategy)"
| "ial_request ial (REQ_FREE ahnd handle) = map_option (apfst RESP_FREE) (ial_free (ial_priv ial) handle)"
| "ial_request ial (REQ_IS_ALLOCATED ahnd handle sz offset) = do {
     allocated \<leftarrow> ial_is_allocated (ial_priv ial) handle sz offset;
     Some (RESP_IS_ALLOCATED allocated, ial_priv ial)
   }"
| "ial_request ial (REQ_RESERVE ahnd handle start end_addr) =
     map_option (apfst RESP_RESERVE) (ial_reserve (ial_priv ial) handle start end_addr)"
| "ial_request ial (REQ_UNRESERVE ahnd handle start end_addr) =
     map_option (apfst RESP_UNRESERVE) (ial_unreserve (ial_priv ial) handle start end_addr)"
| "ial_request ial (REQ_RESERVE_IF_NOT_ALLOCATED ahnd handle start end_addr) = do {
     let sz = end_addr - start;
     allocated \<leftarrow> ial_is_allocated (ial_priv ial) handle sz start;
     if allocated then Some (RESP_RESERVE_IF_NOT_ALLOCATED True False, ial_priv ial)
     else map_option (apfst (RESP_RESERVE_IF_NOT_ALLOCATED False))
            (ial_reserve (ial_priv ial) handle start end_addr)
   }"
| "ial_request ial (REQ_IS_RESERVED ahnd start end_addr) = do {
     reserved \<leftarrow> ial_is_reserved (ial_priv ial) start end_addr;
     Some (RESP_IS_RESERVED reserved, ial_priv ial)
   }"
| "ial_request ial _ = None"

fun req_handle :: "alloc_req \<Rightarrow> u64" where
  "req_handle (REQ_CLOSE ahnd) = ahnd"
| "req_handle (REQ_ADDRESS_RANGE ahnd) = ahnd"
| "req_handle (REQ_ALLOC ahnd _ _ _ _ _) = ahnd"
| "req_handle (REQ_FREE ahnd _) = ahnd"
| "req_handle (REQ_IS_ALLOCATED ahnd _ _ _) = ahnd"
| "req_handle (REQ_RESERVE ahnd _ _ _) = ahnd"
| "req_handle (REQ_UNRESERVE ahnd _ _ _) = ahnd"
| "req_handle (REQ_RESERVE_IF_NOT_ALLOCATED ahnd _ _ _) = ahnd"
| "req_handle (REQ_IS_RESERVED ahnd _ _) = ahnd"
| "req_handle _ = 0"

text \<open>\<open>handle_request\<close> in the process that owns the allocators. The response to \<open>REQ_STOP\<close> is
  the zeroed structure, whose response type is \<open>RESP_OPEN\<close>.\<close>

definition handle_request :: "alloc_state \<Rightarrow> alloc_req \<Rightarrow> (alloc_resp \<times> alloc_state) option" where
  "handle_request st req = (case req of
     REQ_STOP \<Rightarrow> Some (RESP_OPEN 0, st)
   | REQ_OPEN fd ctx vm start end_addr allocator_type strategy default_alignment \<Rightarrow> do {
       (ahnd, _, st) \<leftarrow> allocator_open st fd ctx vm start end_addr allocator_type strategy default_alignment;
       Some (RESP_OPEN ahnd, st)
     }
   | REQ_CLOSE ahnd \<Rightarrow> do {
       found \<leftarrow> allocator_find_by_handle st ahnd;
       (case found of
          None \<Rightarrow> Some (RESP_CLOSE False, st)
        | Some a \<Rightarrow> do {
            (is_empty, st) \<leftarrow> allocator_close st ahnd;
            Some (RESP_CLOSE is_empty, st)
          })
     }
   | _ \<Rightarrow> do {
       found \<leftarrow> allocator_find_by_handle st (req_handle req);
       a \<leftarrow> found;
       al \<leftarrow> st_als st a;
       (resp, priv) \<leftarrow> ial_request (al_ial al) req;
       Some (resp, st\<lparr>st_als := (st_als st)(a \<mapsto> al\<lparr>al_ial := (al_ial al)\<lparr>ial_priv := priv\<rparr>\<rparr>)\<rparr>)
     })"

text \<open>\<open>allocator_thread_loop\<close>: the requests received are served in order until \<open>REQ_STOP\<close>; the
  responses sent are collected.\<close>

fun allocator_thread_loop :: "alloc_state \<Rightarrow> alloc_req list \<Rightarrow> (alloc_resp list \<times> alloc_state) option" where
  "allocator_thread_loop st [] = Some ([], st)"
| "allocator_thread_loop st (req # reqs) =
     (if req = REQ_STOP then Some ([], st)
      else do {
        (resp, st) \<leftarrow> handle_request st req;
        (resps, st) \<leftarrow> allocator_thread_loop st reqs;
        Some (resp # resps, st)
      })"

text \<open>\<open>__free_maps\<close> of the handles, and \<open>intel_allocator_init\<close> over a previous state. Closing all
  handles empties the instance maps; \<open>None\<close> for the maps is the first call.\<close>

fun close_all :: "alloc_state \<Rightarrow> u64 list \<Rightarrow> alloc_state option" where
  "close_all st [] = Some st"
| "close_all st (h # hs) = do { (_, st) \<leftarrow> allocator_close st h; close_all st hs }"

definition intel_allocator_init :: "alloc_state option \<Rightarrow> alloc_state option" where
  "intel_allocator_init previous = (case previous of
     None \<Rightarrow> Some init_state
   | Some st \<Rightarrow> do {
       st \<leftarrow> close_all st (map he_handle (foreach_data (st_handles st)));
       Some (st\<lparr>st_handles := st_handles init_state, st_ctx_map := st_ctx_map init_state,
         st_vm_map := st_vm_map init_state, st_next_handle := 1\<rparr>)
     })"

subsection \<open>The backends together\<close>

fun ial_ok :: "ial_priv \<Rightarrow> bool" where
  "ial_ok (Reloc_Priv r) = reloc_inv r"
| "ial_ok (Simple_Priv s) = simple_inv s"

fun ial_record_of :: "ial_priv \<Rightarrow> u32 \<Rightarrow> intel_allocator_record option" where
  "ial_record_of (Reloc_Priv r) = reloc_object_of r"
| "ial_record_of (Simple_Priv s) = object_of s"

fun ial_room :: "ial_priv \<Rightarrow> bool" where
  "ial_room (Reloc_Priv r) = reloc_room r"
| "ial_room (Simple_Priv s) = (size (map_contents (simple_objects s)) < 2 ^ 16)"

interpretation ial: allocator_backend ial_ok ial_record_of ial_room ial_alloc ial_free ial_is_allocated
proof unfold_locales
  fix p h r sz al pat st off
  show "ial_ok p \<Longrightarrow> ial_record_of p h = Some r \<Longrightarrow> rec_handle r = h"
    by (cases p) (auto dest: reloc.record_handle simple.record_handle)
  show "ial_ok p \<Longrightarrow> h \<noteq> 0 \<Longrightarrow> ial_record_of p h = Some r \<Longrightarrow> ial_alloc p h sz al pat st =
      (if rec_size r = sz \<and> rec_pat_index r = pat then Some (rec_offset r, p) else None)"
    by (cases p) (auto simp: reloc.alloc_known simple.alloc_known)
  show "ial_ok p \<Longrightarrow> h \<noteq> 0 \<Longrightarrow> ial_record_of p h = None \<Longrightarrow> ial_room p \<Longrightarrow> 0 < unat sz \<Longrightarrow> 0 < unat al \<Longrightarrow>
      \<exists>off p'. ial_alloc p h sz al pat st = Some (off, p') \<and> ial_ok p' \<and>
        (off = ALLOC_INVALID_ADDRESS \<and> p' = p \<or> ial_record_of p' = (ial_record_of p)(h \<mapsto>
           \<lparr>rec_handle = h, rec_offset = off, rec_size = sz, rec_pat_index = pat\<rparr>))"
    using reloc.alloc_new [of _ h sz al pat st] simple.alloc_new [of _ h sz al pat st] by (cases p) fastforce+
  show "ial_ok p \<Longrightarrow> \<exists>p'. ial_free p h = Some (ial_record_of p h \<noteq> None, p') \<and> ial_ok p' \<and>
      ial_record_of p' = (ial_record_of p)(h := None)"
    using reloc.free_record [of _ h] simple.free_record [of _ h] by (cases p) fastforce+
  show "ial_ok p \<Longrightarrow> h \<noteq> 0 \<Longrightarrow> ial_is_allocated p h sz off =
      Some (\<exists>r. ial_record_of p h = Some r \<and> same_record r h sz off)"
    by (cases p) (auto simp: reloc.is_allocated_record simple.is_allocated_record)
qed


subsection \<open>The invariant of the service\<close>

lemma keys_ok_handles: "keys_ok hash_handles equal_handles"
  by (auto simp: keys_ok_def equal_handles_def)

lemma keys_ok_ctx: "keys_ok hash_instance equal_ctx"
  by (auto simp: keys_ok_def equal_ctx_def hash_instance_def)

lemma keys_ok_vm: "keys_ok hash_instance equal_vm"
  by (auto simp: keys_ok_def equal_vm_def hash_instance_def)

definition equal_map :: "u32 \<Rightarrow> allocator_key \<Rightarrow> allocator_key \<Rightarrow> bool" where
  "equal_map vm = (if vm \<noteq> 0 then equal_vm else equal_ctx)"

lemma keys_ok_map: "keys_ok hash_instance (equal_map vm)"
  by (simp add: equal_map_def keys_ok_ctx keys_ok_vm)

text \<open>The instance a handle refers to, and the number of handles of an instance.\<close>

definition handle_al :: "alloc_state \<Rightarrow> u64 \<Rightarrow> nat option" where
  "handle_al st h = map_option he_al (map_abs (st_handles st) h)"

definition refs :: "alloc_state \<Rightarrow> nat \<Rightarrow> nat" where
  "refs st a = size (filter_mset (\<lambda>(h, e). he_al e = a) (map_contents (st_handles st)))"

definition maps_ok :: "alloc_state \<Rightarrow> bool" where
  "maps_ok st \<longleftrightarrow> map_of_keys hash_handles equal_handles (st_handles st) \<and>
     map_of_keys hash_instance equal_ctx (st_ctx_map st) \<and>
     map_of_keys hash_instance equal_vm (st_vm_map st)"

definition handles_ok :: "alloc_state \<Rightarrow> bool" where
  "handles_ok st \<longleftrightarrow> (\<forall>(h, e) \<in># map_contents (st_handles st).
     h = he_handle e \<and> 0 < unat h \<and> unat h < unat (st_next_handle st) \<and> st_als st (he_al e) \<noteq> None)"

definition al_ok :: "alloc_state \<Rightarrow> nat \<Rightarrow> allocator \<Rightarrow> bool" where
  "al_ok st a al \<longleftrightarrow> a < st_next_al st \<and> 0 < refs st a \<and>
     al_refcount al = int (refs st a) \<and> ial_refcount (al_ial al) = int (refs st a) \<and>
     ial_fd (al_ial al) = al_fd al \<and> ial_ok (ial_priv (al_ial al)) \<and>
     map_abs (GET_MAP st (al_vm al)) (al_key al) = Some a"

definition entries_ok :: "alloc_state \<Rightarrow> bool" where
  "entries_ok st \<longleftrightarrow>
     (\<forall>k a. map_abs (st_ctx_map st) k = Some a \<longrightarrow>
        (\<exists>al. st_als st a = Some al \<and> al_vm al = 0 \<and> equal_ctx k (al_key al))) \<and>
     (\<forall>k a. map_abs (st_vm_map st) k = Some a \<longrightarrow>
        (\<exists>al. st_als st a = Some al \<and> al_vm al \<noteq> 0 \<and> equal_vm k (al_key al)))"

definition service_inv :: "alloc_state \<Rightarrow> bool" where
  "service_inv st \<longleftrightarrow> maps_ok st \<and> handles_ok st \<and> 0 < unat (st_next_handle st) \<and>
     (\<forall>a al. st_als st a = Some al \<longrightarrow> al_ok st a al) \<and> entries_ok st"

text \<open>Bounds on the sizes, in terms of the number of requests served.\<close>

fun ial_bounded :: "nat \<Rightarrow> ial_priv \<Rightarrow> bool" where
  "ial_bounded n (Reloc_Priv r) = (size (map_contents (reloc_objects r)) \<le> n)"
| "ial_bounded n (Simple_Priv s) = simple_bounded n s"

definition service_bounded :: "nat \<Rightarrow> alloc_state \<Rightarrow> bool" where
  "service_bounded n st \<longleftrightarrow> size (map_contents (st_handles st)) \<le> n \<and>
     size (map_contents (st_ctx_map st)) \<le> n \<and> size (map_contents (st_vm_map st)) \<le> n \<and>
     unat (st_next_handle st) \<le> n + 1 \<and>
     (\<forall>a al. st_als st a = Some al \<longrightarrow> ial_bounded n (ial_priv (al_ial al)))"

lemma service_invD:
  assumes "service_inv st"
  shows "map_of_keys hash_handles equal_handles (st_handles st)"
    "map_of_keys hash_instance equal_ctx (st_ctx_map st)"
    "map_of_keys hash_instance equal_vm (st_vm_map st)"
    "map_of_keys hash_instance (equal_map vm) (GET_MAP st vm)"
    "st_als st a = Some al \<Longrightarrow> al_ok st a al"
  using assms by (auto simp: service_inv_def maps_ok_def equal_map_def GET_MAP_def)

lemma service_inv_entry:
  assumes "service_inv st" "map_abs (GET_MAP st vm) k = Some a"
  shows "\<exists>al. st_als st a = Some al \<and> (al_vm al = 0 \<longleftrightarrow> vm = 0) \<and> equal_map vm k (al_key al)"
  using assms by (fastforce simp: service_inv_def entries_ok_def GET_MAP_def equal_map_def split: if_splits)

text \<open>Every handle leads to a live instance.\<close>

lemma find_by_handle: "service_inv st \<Longrightarrow> allocator_find_by_handle st h = Some (handle_al st h)"
  using map_search_abs [OF service_invD(1), of st h] by (simp add: allocator_find_by_handle_def handle_al_def)

lemma handle_al_contents:
  assumes "service_inv st"
  shows "handle_al st h = Some a \<longleftrightarrow> (\<exists>e. (h, e) \<in># map_contents (st_handles st) \<and> he_al e = a)"
  using map_abs_Some_contents [OF service_invD(1) [OF assms], of h]
  by (fastforce simp: handle_al_def equal_handles_def)

lemma handle_al_live:
  assumes inv: "service_inv st" and h: "handle_al st h = Some a"
  shows "\<exists>al. st_als st a = Some al \<and> al_ok st a al" "0 < unat h" "unat h < unat (st_next_handle st)"
proof -
  obtain e where e: "(h, e) \<in># map_contents (st_handles st)" "he_al e = a"
    using handle_al_contents [OF inv] h by blast
  then have *: "0 < unat h" "unat h < unat (st_next_handle st)" "st_als st a \<noteq> None"
    using inv by (auto simp: service_inv_def handles_ok_def)
  show "0 < unat h" "unat h < unat (st_next_handle st)" by fact+
  show "\<exists>al. st_als st a = Some al \<and> al_ok st a al" using *(3) service_invD(5) [OF inv] by auto
qed

lemma handle_al_next: "service_inv st \<Longrightarrow> handle_al st (st_next_handle st) = None"
  using handle_al_live(3) [of st "st_next_handle st"] by (cases "handle_al st (st_next_handle st)") auto

lemma refs_zero:
  assumes "handles_ok st" "st_als st a = None"
  shows "refs st a = 0"
proof -
  have "filter_mset (\<lambda>(h, e). he_al e = a) (map_contents (st_handles st)) =
      filter_mset (\<lambda>_. False) (map_contents (st_handles st))"
    using assms by (intro filter_mset_cong) (auto simp: handles_ok_def)
  then show ?thesis by (simp add: refs_def)
qed

subsection \<open>Creating and destroying a handle\<close>

lemma handle_create_correct:
  assumes m: "map_of_keys hash_handles equal_handles (st_handles st)" and new: "map_abs (st_handles st) (st_next_handle st) = None"
    and room: "size (map_contents (st_handles st)) < 2 ^ 16"
  shows "\<exists>st'. handle_create st a = Some (st_next_handle st, st') \<and>
    map_of_keys hash_handles equal_handles (st_handles st') \<and>
    map_contents (st_handles st') = add_mset (st_next_handle st, \<lparr>he_handle = st_next_handle st, he_al = a\<rparr>)
      (map_contents (st_handles st)) \<and>
    handle_al st' = (handle_al st)(st_next_handle st \<mapsto> a) \<and>
    st' = st\<lparr>st_next_handle := st_next_handle st + 1, st_handles := st_handles st'\<rparr>"
proof -
  obtain m' where "map_put (st_handles st) (st_next_handle st) \<lparr>he_handle = st_next_handle st, he_al = a\<rparr> = Some m'"
    "map_of_keys hash_handles equal_handles m'"
    "map_contents m' = add_mset (st_next_handle st, \<lparr>he_handle = st_next_handle st, he_al = a\<rparr>) (map_contents (st_handles st))"
    "map_abs m' = (\<lambda>q. if equal_handles (st_next_handle st) q then Some \<lparr>he_handle = st_next_handle st, he_al = a\<rparr>
       else map_abs (st_handles st) q)"
    using map_put_new [OF keys_ok_handles m room new] by blast
  then show ?thesis by (auto simp: handle_create_def Let_def handle_al_def equal_handles_def fun_eq_iff)
qed

lemma handle_destroy_correct:
  assumes m: "map_of_keys hash_handles equal_handles (st_handles st)" and h: "map_abs (st_handles st) h = Some e"
  shows "\<exists>st'. handle_destroy st h = Some st' \<and>
    map_of_keys hash_handles equal_handles (st_handles st') \<and>
    map_contents (st_handles st) = add_mset (h, e) (map_contents (st_handles st')) \<and>
    handle_al st' = (handle_al st)(h := None) \<and> st' = st\<lparr>st_handles := st_handles st'\<rparr>"
proof -
  obtain m' k where "igt_map_remove (st_handles st) h True = Some (m', Some e)"
    "map_of_keys hash_handles equal_handles m'" "equal_handles h k"
    "map_contents (st_handles st) = add_mset (k, e) (map_contents m')"
    "map_abs m' = (\<lambda>q. if equal_handles h q then None else map_abs (st_handles st) q)"
    using map_remove_found [OF keys_ok_handles m h] by blast
  then show ?thesis by (auto simp: handle_destroy_def handle_al_def equal_handles_def fun_eq_iff)
qed


subsection \<open>Open\<close>

text \<open>The state just before a handle is attached: the instance \<open>a\<close> may have no handle yet.\<close>

definition attachable :: "alloc_state \<Rightarrow> nat \<Rightarrow> bool" where
  "attachable st a \<longleftrightarrow> maps_ok st \<and> handles_ok st \<and> 0 < unat (st_next_handle st) \<and> entries_ok st \<and>
     (\<forall>b al. st_als st b = Some al \<longrightarrow> b < st_next_al st \<and> (b \<noteq> a \<longrightarrow> 0 < refs st b) \<and>
        al_refcount al = int (refs st b) \<and> ial_refcount (al_ial al) = int (refs st b) \<and>
        ial_fd (al_ial al) = al_fd al \<and> ial_ok (ial_priv (al_ial al)) \<and>
        map_abs (GET_MAP st (al_vm al)) (al_key al) = Some b)"

lemma service_inv_attachable: "service_inv st \<Longrightarrow> attachable st a"
  by (auto simp: service_inv_def attachable_def al_ok_def)

definition bump :: "int \<Rightarrow> allocator \<Rightarrow> allocator" where
  "bump d al = al\<lparr>al_refcount := al_refcount al + d,
     al_ial := (al_ial al)\<lparr>ial_refcount := ial_refcount (al_ial al) + d\<rparr>\<rparr>"

lemma bump_simps [simp]:
  "al_fd (bump d al) = al_fd al" "al_ctx (bump d al) = al_ctx al" "al_vm (bump d al) = al_vm al"
  "al_key (bump d al) = al_key al" "al_refcount (bump d al) = al_refcount al + d"
  "ial_refcount (al_ial (bump d al)) = ial_refcount (al_ial al) + d"
  "ial_fd (al_ial (bump d al)) = ial_fd (al_ial al)" "ial_priv (al_ial (bump d al)) = ial_priv (al_ial al)"
  "ial_type (al_ial (bump d al)) = ial_type (al_ial al)"
  "ial_strategy (al_ial (bump d al)) = ial_strategy (al_ial al)"
  "ial_default_alignment (al_ial (bump d al)) = ial_default_alignment (al_ial al)"
  by (simp_all add: bump_def al_key_def)

text \<open>The instance store does not matter for the maps, and a map entry survives an update of the
  instance that keeps its key.\<close>

lemma entries_ok_update:
  assumes "entries_ok st" "st_als st a = Some al" "al_vm al' = al_vm al" "al_key al' = al_key al"
    and "st_ctx_map st' = st_ctx_map st" "st_vm_map st' = st_vm_map st" "st_als st' = (st_als st)(a \<mapsto> al')"
  shows "entries_ok st'"
  unfolding entries_ok_def
proof (intro conjI allI impI)
  fix k b assume "map_abs (st_ctx_map st') k = Some b"
  then have "map_abs (st_ctx_map st) k = Some b" using assms(5) by simp
  then obtain al0 where "st_als st b = Some al0" "al_vm al0 = 0" "equal_ctx k (al_key al0)"
    using assms(1) unfolding entries_ok_def by blast
  then show "\<exists>al. st_als st' b = Some al \<and> al_vm al = 0 \<and> equal_ctx k (al_key al)"
    using assms by (cases "b = a") auto
next
  fix k b assume "map_abs (st_vm_map st') k = Some b"
  then have "map_abs (st_vm_map st) k = Some b" using assms(6) by simp
  then obtain al0 where "st_als st b = Some al0" "al_vm al0 \<noteq> 0" "equal_vm k (al_key al0)"
    using assms(1) unfolding entries_ok_def by blast
  then show "\<exists>al. st_als st' b = Some al \<and> al_vm al \<noteq> 0 \<and> equal_vm k (al_key al)"
    using assms by (cases "b = a") auto
qed

lemma attach_correct:
  assumes pre: "attachable st a" and al: "st_als st a = Some al"
    and room: "size (map_contents (st_handles st)) < 2 ^ 16" and nxt: "unat (st_next_handle st) + 1 < 2 ^ 64"
  shows "\<exists>r st1 st2. allocator_get st a = Some (r, st1) \<and> handle_create st1 a = Some (st_next_handle st, st2) \<and>
    service_inv st2 \<and> st_als st2 = (st_als st)(a \<mapsto> bump 1 al) \<and>
    handle_al st2 = (handle_al st)(st_next_handle st \<mapsto> a) \<and>
    st_next_handle st2 = st_next_handle st + 1 \<and> st_next_al st2 = st_next_al st \<and>
    st_ctx_map st2 = st_ctx_map st \<and> st_vm_map st2 = st_vm_map st \<and>
    size (map_contents (st_handles st2)) = size (map_contents (st_handles st)) + 1"
proof -
  let ?h = "st_next_handle st" and ?st1 = "st\<lparr>st_als := (st_als st)(a \<mapsto> bump 1 al)\<rparr>"
  have ref: "al_refcount al = int (refs st a)" "ial_refcount (al_ial al) = int (refs st a)"
    using pre al by (auto simp: attachable_def)
  then have get: "allocator_get st a = Some (ial_refcount (al_ial al), ?st1)"
    using al by (simp add: allocator_get_def bump_def Let_def)
  have m: "map_of_keys hash_handles equal_handles (st_handles ?st1)"
    using pre by (simp add: attachable_def maps_ok_def)
  have new: "map_abs (st_handles ?st1) (st_next_handle ?st1) = None"
  proof (rule ccontr)
    assume "\<not> ?thesis"
    then obtain e where "(?h, e) \<in># map_contents (st_handles st)"
      using map_abs_Some_contents [OF m, of ?h] by (auto simp: equal_handles_def)
    then show False using pre by (auto simp: attachable_def handles_ok_def)
  qed
  obtain st2 where c: "handle_create ?st1 a = Some (?h, st2)"
    "map_of_keys hash_handles equal_handles (st_handles st2)"
    "map_contents (st_handles st2) = add_mset (?h, \<lparr>he_handle = ?h, he_al = a\<rparr>) (map_contents (st_handles st))"
    "handle_al st2 = (handle_al ?st1)(?h \<mapsto> a)"
    "st2 = ?st1\<lparr>st_next_handle := ?h + 1, st_handles := st_handles st2\<rparr>"
    using handle_create_correct [OF m new] room by auto
  have f: "st_als st2 = (st_als st)(a \<mapsto> bump 1 al)" "st_next_handle st2 = ?h + 1"
    "st_next_al st2 = st_next_al st" "st_ctx_map st2 = st_ctx_map st" "st_vm_map st2 = st_vm_map st"
    by (subst c(5), simp)+
  have ha: "handle_al ?st1 = handle_al st" by (simp add: handle_al_def fun_eq_iff)
  have refs: "refs st2 b = refs st b + (if b = a then 1 else 0)" for b
    by (simp add: refs_def c(3))
  have gm: "GET_MAP st2 vm = GET_MAP st vm" for vm by (simp add: GET_MAP_def f)
  have nh: "unat (?h + 1) = unat ?h + 1" using nxt by (subst unat_add_no_wrap) simp_all
  have hok: "handles_ok st" using pre by (simp add: attachable_def)
  have pos: "0 < unat ?h" using pre by (simp add: attachable_def)
  have "handles_ok st2"
    unfolding handles_ok_def
  proof (intro ballI, clarify)
    fix h e assume "(h, e) \<in># map_contents (st_handles st2)"
    then consider "h = ?h" "e = \<lparr>he_handle = ?h, he_al = a\<rparr>" | "(h, e) \<in># map_contents (st_handles st)"
      by (auto simp: c(3))
    then show "h = he_handle e \<and> 0 < unat h \<and> unat h < unat (st_next_handle st2) \<and> st_als st2 (he_al e) \<noteq> None"
    proof cases
      case 1
      then show ?thesis using pos nh by (simp add: f)
    next
      case 2
      with hok have "h = he_handle e" "0 < unat h" "unat h < unat ?h" "st_als st (he_al e) \<noteq> None"
        by (auto simp: handles_ok_def)
      then show ?thesis using nh by (simp add: f)
    qed
  qed
  moreover have "maps_ok st2" using pre c(2) by (simp add: attachable_def maps_ok_def f)
  moreover have "entries_ok st2"
    using entries_ok_update [of st a al "bump 1 al" st2] pre al f by (simp add: attachable_def)
  moreover have "al_ok st2 b al'" if "st_als st2 b = Some al'" for b al'
    using that pre al ref by (auto simp: al_ok_def attachable_def f refs gm split: if_splits)
  ultimately have "service_inv st2" using nh by (simp add: service_inv_def f)
  then show ?thesis using get c f ha by (auto simp: c(3))
qed


text \<open>What \<open>intel_allocator_create\<close> returns. With \<open>end = 0\<close> the SIMPLE allocator would take the
  range to the end of the 64-bit address space, which the callers never ask for.\<close>

lemma simple_create_range:
  assumes "intel_allocator_simple_create start end_addr strategy = Some s" "end_addr \<noteq> 0"
  shows "unat start < unat end_addr"
proof -
  have "start + (end_addr - start) = 0 \<or> start + (end_addr - start) > start"
    using assms(1) by (auto simp: intel_allocator_simple_create_def simple_vma_heap_init_def
        simple_vma_heap_free_def split: bind_splits)
  then show ?thesis using assms(2) by (simp add: word_less_nat_alt)
qed

lemma allocator_create_priv:
  assumes run: "intel_allocator_create ptr fd start end_addr allocator_type strategy default_alignment = Some ial"
    and e: "end_addr \<noteq> 0"
  shows "ial_fd ial = fd" "ial_type ial = allocator_type" "ial_strategy ial = strategy"
    "ial_default_alignment ial = default_alignment" "ial_refcount ial = 0"
    "ial_ok (ial_priv ial)" "ial_record_of (ial_priv ial) = (\<lambda>_. None)" "ial_bounded 0 (ial_priv ial)"
proof -
  show "ial_fd ial = fd" "ial_type ial = allocator_type" "ial_strategy ial = strategy"
    "ial_default_alignment ial = default_alignment" "ial_refcount ial = 0"
    using run by (auto simp: intel_allocator_create_def split: bind_splits)
  consider (r) s where "intel_allocator_reloc_create ptr start end_addr = Some s" "ial_priv ial = Reloc_Priv s"
    | (s) s where "intel_allocator_simple_create start end_addr strategy = Some s" "ial_priv ial = Simple_Priv s"
    using run by (auto simp: intel_allocator_create_def split: bind_splits if_splits)
  then have "ial_ok (ial_priv ial) \<and> ial_record_of (ial_priv ial) = (\<lambda>_. None) \<and> ial_bounded 0 (ial_priv ial)"
  proof cases
    case r
    then have "max start BIAS < end_addr" by (auto simp: intel_allocator_reloc_create_def Let_def)
    from reloc_create_correct [OF this, of ptr] r
    have *: "reloc_inv s" "reloc_object_of s = (\<lambda>_. None)" by auto
    moreover from this have "map_contents (reloc_objects s) = {#}"
      using contents_empty_iff [OF keys_ok_32 reloc_invD(1)] by blast
    ultimately show ?thesis by (simp add: r)
  next
    case s
    from simple_create_correct [OF simple_create_range [OF s(1) e], of strategy] s(1)
    have *: "simple_inv s" "object_of s = (\<lambda>_. None)" "area_of s = (\<lambda>_. None)" by auto
    moreover from this have "map_contents (simple_objects s) = {#}" "map_contents (simple_reserved s) = {#}"
      using contents_empty_iff [OF keys_ok_32 simple_invD(1)] contents_empty_iff [OF keys_ok_64 simple_invD(2)]
      by blast+
    ultimately show ?thesis by (simp add: s simple_bounded_def)
  qed
  then show "ial_ok (ial_priv ial)" "ial_record_of (ial_priv ial) = (\<lambda>_. None)" "ial_bounded 0 (ial_priv ial)"
    by auto
qed

lemma GET_MAP_set_map [simp]:
  "GET_MAP (set_map st vm m) vm' = (if (vm = 0) = (vm' = 0) then m else GET_MAP st vm')"
  "st_handles (set_map st vm m) = st_handles st" "st_als (set_map st vm m) = st_als st"
  "st_next_handle (set_map st vm m) = st_next_handle st" "st_next_al (set_map st vm m) = st_next_al st"
  by (auto simp: GET_MAP_def set_map_def)

lemma maps_of_GET_MAP: "st_ctx_map st = GET_MAP st 0" "st_vm_map st = GET_MAP st 1"
  by (simp_all add: GET_MAP_def)

lemma entries_ok_GET_MAP:
  "entries_ok st \<longleftrightarrow> (\<forall>vm k a. map_abs (GET_MAP st vm) k = Some a \<longrightarrow>
     (\<exists>al. st_als st a = Some al \<and> (al_vm al = 0 \<longleftrightarrow> vm = 0) \<and> equal_map vm k (al_key al)))"
  (is "_ \<longleftrightarrow> ?r")
proof
  show "entries_ok st \<Longrightarrow> ?r" by (fastforce simp: entries_ok_def GET_MAP_def equal_map_def)
  assume r: ?r
  show "entries_ok st"
    unfolding entries_ok_def
    using r [rule_format, of 0] r [rule_format, of 1] by (auto simp: GET_MAP_def equal_map_def)
qed

lemma maps_ok_GET_MAP:
  "maps_ok st \<longleftrightarrow> map_of_keys hash_handles equal_handles (st_handles st) \<and>
     (\<forall>vm. map_of_keys hash_instance (equal_map vm) (GET_MAP st vm))"
  (is "_ \<longleftrightarrow> ?r")
proof
  assume r: ?r
  then show "maps_ok st"
    using conjunct2 [OF r, rule_format, of 0] conjunct2 [OF r, rule_format, of 1]
    by (simp add: maps_ok_def GET_MAP_def equal_map_def)
qed (auto simp: maps_ok_def GET_MAP_def equal_map_def)

lemma equal_map_cong: "(vm = 0) = (vm' = 0) \<Longrightarrow> equal_map vm = equal_map vm'"
  by (auto simp: equal_map_def)

lemma al_next_free: "service_inv st \<Longrightarrow> st_als st (st_next_al st) = None"
  using service_invD(5) [of st "st_next_al st"] by (cases "st_als st (st_next_al st)") (auto simp: al_ok_def)

text \<open>A new instance, before its first handle.\<close>

lemma allocator_create_correct:
  assumes inv: "service_inv st" and fd: "ial_fd ial = fd" "ial_refcount ial = 0" "ial_ok (ial_priv ial)"
    and new: "map_abs (GET_MAP st vm) \<lparr>key_fd = fd, key_ctx = ctx, key_vm = vm\<rparr> = None"
    and room: "size (map_contents (GET_MAP st vm)) < 2 ^ 16"
  shows "\<exists>st1. allocator_create st fd ctx vm ial = Some (st_next_al st, st1) \<and>
    attachable st1 (st_next_al st) \<and>
    st_als st1 = (st_als st)(st_next_al st \<mapsto>
      \<lparr>al_fd = fd, al_ctx = ctx, al_vm = vm, al_refcount = 0, al_ial = ial\<rparr>) \<and>
    st_handles st1 = st_handles st \<and> st_next_handle st1 = st_next_handle st \<and>
    map_abs (GET_MAP st1 vm) \<lparr>key_fd = fd, key_ctx = ctx, key_vm = vm\<rparr> = Some (st_next_al st) \<and>
    size (map_contents (st_ctx_map st1)) \<le> size (map_contents (st_ctx_map st)) + 1 \<and>
    size (map_contents (st_vm_map st1)) \<le> size (map_contents (st_vm_map st)) + 1"
proof -
  let ?a = "st_next_al st" and ?k = "\<lparr>key_fd = fd, key_ctx = ctx, key_vm = vm\<rparr>"
  let ?al = "\<lparr>al_fd = fd, al_ctx = ctx, al_vm = vm, al_refcount = 0, al_ial = ial\<rparr>"
  have key: "al_key ?al = ?k" by (simp add: al_key_def)
  obtain m where m: "map_put (GET_MAP st vm) ?k ?a = Some m" "map_of_keys hash_instance (equal_map vm) m"
    "map_contents m = add_mset (?k, ?a) (map_contents (GET_MAP st vm))"
    "map_abs m = (\<lambda>q. if equal_map vm ?k q then Some ?a else map_abs (GET_MAP st vm) q)"
    using map_put_new [OF keys_ok_map service_invD(4) [OF inv] room new] by blast
  define st1 where "st1 = (set_map st vm m)\<lparr>st_als := (st_als st)(?a \<mapsto> ?al), st_next_al := ?a + 1\<rparr>"
  have run: "allocator_create st fd ctx vm ial = Some (?a, st1)"
    using m(1) fd(1) by (simp add: allocator_create_def Let_def key st1_def)
  have gm: "GET_MAP st1 w = (if (vm = 0) = (w = 0) then m else GET_MAP st w)" for w
    by (auto simp: st1_def GET_MAP_def set_map_def)
  have f: "st_als st1 = (st_als st)(?a \<mapsto> ?al)" "st_handles st1 = st_handles st"
    "st_next_handle st1 = st_next_handle st" "st_next_al st1 = ?a + 1" by (simp_all add: st1_def)
  have none: "st_als st ?a = None" by (rule al_next_free [OF inv])
  have hok: "handles_ok st" using inv by (simp add: service_inv_def)
  have refs: "refs st1 b = refs st b" for b by (simp add: refs_def f)
  have refs0: "refs st ?a = 0" by (rule refs_zero [OF hok none])
  have refl: "equal_map vm ?k ?k" using keys_okD(1) [OF keys_ok_map] .
  have keep: "map_abs (GET_MAP st1 w) k = Some b"
    if old: "map_abs (GET_MAP st w) k = Some b" for w k b
  proof (cases "(vm = 0) = (w = 0)")
    case True
    have g: "GET_MAP st w = GET_MAP st vm" using True by (simp add: GET_MAP_def)
    have "\<not> equal_map vm ?k k"
    proof
      assume e: "equal_map vm ?k k"
      obtain k' where "(k', b) \<in># map_contents (GET_MAP st vm)" "equal_map vm k k'"
        using map_abs_Some_contents [OF service_invD(4) [OF inv]] old g by metis
      moreover have "equal_map vm ?k k'" using keys_okD(3) [OF keys_ok_map e] calculation(2) by blast
      ultimately show False using map_abs_Some_contents [OF service_invD(4) [OF inv], of vm ?k b] new by auto
    qed
    then show ?thesis using old True g by (simp add: gm m(4))
  qed (simp add: gm old)
  have "maps_ok st1"
    unfolding maps_ok_GET_MAP f
  proof (intro conjI allI)
    show "map_of_keys hash_handles equal_handles (st_handles st)" by (rule service_invD [OF inv])
    show "map_of_keys hash_instance (equal_map w) (GET_MAP st1 w)" for w
      using m(2) service_invD(4) [OF inv, of w] by (auto simp: gm equal_map_def split: if_splits)
  qed
  moreover have "handles_ok st1" using hok by (fastforce simp: handles_ok_def f)
  moreover have "entries_ok st1"
    unfolding entries_ok_GET_MAP
  proof (intro allI impI)
    fix w k b assume e: "map_abs (GET_MAP st1 w) k = Some b"
    show "\<exists>al. st_als st1 b = Some al \<and> (al_vm al = 0 \<longleftrightarrow> w = 0) \<and> equal_map w k (al_key al)"
    proof (cases "(vm = 0) = (w = 0) \<and> equal_map vm ?k k")
      case True
      then have "b = ?a" using e by (simp add: gm m(4))
      moreover have "equal_map w k ?k" using True keys_okD(2) [OF keys_ok_map] equal_map_cong [of vm w] by metis
      ultimately show ?thesis using True by (simp add: f key)
    next
      case False
      have "(vm = 0) = (w = 0) \<Longrightarrow> GET_MAP st w = GET_MAP st vm" by (simp add: GET_MAP_def)
      then have "map_abs (GET_MAP st w) k = Some b"
        using e [unfolded gm] False by (auto simp: m(4) split: if_splits)
      from service_inv_entry [OF inv this] none show ?thesis by (auto simp: f)
    qed
  qed
  moreover have "b < st_next_al st1 \<and> (b \<noteq> ?a \<longrightarrow> 0 < refs st1 b) \<and> al_refcount al = int (refs st1 b) \<and>
      ial_refcount (al_ial al) = int (refs st1 b) \<and> ial_fd (al_ial al) = al_fd al \<and>
      ial_ok (ial_priv (al_ial al)) \<and> map_abs (GET_MAP st1 (al_vm al)) (al_key al) = Some b"
    if b: "st_als st1 b = Some al" for b al
  proof (cases "b = ?a")
    case True
    then have "al = ?al" using b by (simp add: f)
    then show ?thesis using True fd refs0 refl by (simp add: f refs gm m(4) al_key_def)
  next
    case False
    then have "al_ok st b al" using service_invD(5) [OF inv] b by (simp add: f)
    then show ?thesis using keep by (auto simp: al_ok_def f refs)
  qed
  moreover have "0 < unat (st_next_handle st1)" using inv by (simp add: service_inv_def f)
  ultimately have "attachable st1 ?a" unfolding attachable_def by blast
  moreover have "size (map_contents (st_ctx_map st1)) \<le> size (map_contents (st_ctx_map st)) + 1"
    "size (map_contents (st_vm_map st1)) \<le> size (map_contents (st_vm_map st)) + 1"
    using m(3) unfolding maps_of_GET_MAP gm by (auto simp: GET_MAP_def split: if_splits)
  ultimately show ?thesis using run f refl by (simp add: gm m(4))
qed


text \<open>Open on an instance that exists: its parameters have to agree, and it gets one more handle.\<close>

abbreviation key_of :: "u32 \<Rightarrow> u32 \<Rightarrow> u32 \<Rightarrow> allocator_key" where
  "key_of fd ctx vm \<equiv> \<lparr>key_fd = fd, key_ctx = ctx, key_vm = vm\<rparr>"

lemma ial_bounded_mono: "ial_bounded n p \<Longrightarrow> n \<le> m \<Longrightarrow> ial_bounded m p"
  by (cases p) (auto simp: simple_bounded_def)

lemma ial_bounded_Suc: "ial_bounded n p \<Longrightarrow> ial_bounded (Suc n) p"
  by (erule ial_bounded_mono) simp

lemma service_bounded_next:
  assumes "service_bounded n st" "n < 2 ^ 16"
  shows "unat (st_next_handle st) + 1 < 2 ^ 64" "size (map_contents (st_handles st)) < 2 ^ 16"
    "size (map_contents (GET_MAP st vm)) < 2 ^ 16" "unat (st_next_handle st + 1) = unat (st_next_handle st) + 1"
  using assms by (auto simp: service_bounded_def GET_MAP_def unat_add_no_wrap)

lemma find_instance: "service_inv st \<Longrightarrow> allocator_find st fd ctx vm = Some (map_abs (GET_MAP st vm) (key_of fd ctx vm))"
  using map_search_abs [OF service_invD(4)] by (simp add: allocator_find_def)

lemma open_existing:
  assumes inv: "service_inv st" and b: "service_bounded n st" "n < 2 ^ 16"
    and found: "map_abs (GET_MAP st vm) (key_of fd ctx vm) = Some a"
  shows "\<exists>al. st_als st a = Some al \<and>
    (if ial_type (al_ial al) = allocator_type \<and> ial_strategy (al_ial al) = strategy \<and>
        ial_default_alignment (al_ial al) = default_alignment
     then \<exists>st'. allocator_open st fd ctx vm start end_addr allocator_type strategy default_alignment =
         Some (st_next_handle st, a, st') \<and> service_inv st' \<and> service_bounded (n + 1) st' \<and>
       handle_al st' = (handle_al st)(st_next_handle st \<mapsto> a) \<and> st_als st' = (st_als st)(a \<mapsto> bump 1 al) \<and>
       st_next_handle st' = st_next_handle st + 1 \<and>
       (\<forall>vm k. map_abs (GET_MAP st' vm) k = map_abs (GET_MAP st vm) k)
     else allocator_open st fd ctx vm start end_addr allocator_type strategy default_alignment = None)"
proof -
  obtain al where al: "st_als st a = Some al" using service_inv_entry [OF inv found] by blast
  obtain r st1 st2 where s: "allocator_get st a = Some (r, st1)"
    "handle_create st1 a = Some (st_next_handle st, st2)" "service_inv st2"
    "st_als st2 = (st_als st)(a \<mapsto> bump 1 al)" "handle_al st2 = (handle_al st)(st_next_handle st \<mapsto> a)"
    "st_next_handle st2 = st_next_handle st + 1" "st_ctx_map st2 = st_ctx_map st" "st_vm_map st2 = st_vm_map st"
    "size (map_contents (st_handles st2)) = size (map_contents (st_handles st)) + 1"
    using attach_correct [OF service_inv_attachable [OF inv] al service_bounded_next(2) [OF b]
        service_bounded_next(1) [OF b]] by blast
  have "service_bounded (n + 1) st2"
    using b(1) s al service_bounded_next(4) [OF b]
    by (auto simp: service_bounded_def intro: ial_bounded_Suc)
  moreover have "GET_MAP st2 w = GET_MAP st w" for w using s by (simp add: GET_MAP_def)
  ultimately show ?thesis
    using al s find_instance [OF inv, of fd ctx vm] found
    by (auto simp: allocator_open_def Let_def igt_assert_def)
qed

lemma open_new:
  assumes inv: "service_inv st" and b: "service_bounded n st" "n < 2 ^ 16"
    and new: "map_abs (GET_MAP st vm) (key_of fd ctx vm) = None" and e: "end_addr \<noteq> 0"
  shows "case intel_allocator_create (of_nat (st_next_al st)) fd start end_addr allocator_type strategy default_alignment of
      None \<Rightarrow> allocator_open st fd ctx vm start end_addr allocator_type strategy default_alignment = None
    | Some ial \<Rightarrow> \<exists>st'. allocator_open st fd ctx vm start end_addr allocator_type strategy default_alignment =
         Some (st_next_handle st, st_next_al st, st') \<and> service_inv st' \<and> service_bounded (n + 1) st' \<and>
       handle_al st' = (handle_al st)(st_next_handle st \<mapsto> st_next_al st) \<and>
       st_als st' = (st_als st)(st_next_al st \<mapsto> bump 1
         \<lparr>al_fd = fd, al_ctx = ctx, al_vm = vm, al_refcount = 0, al_ial = ial\<rparr>) \<and>
       st_next_handle st' = st_next_handle st + 1 \<and>
       map_abs (GET_MAP st' vm) (key_of fd ctx vm) = Some (st_next_al st)"
proof (cases "intel_allocator_create (of_nat (st_next_al st)) fd start end_addr allocator_type strategy default_alignment")
  case None
  then show ?thesis using find_instance [OF inv, of fd ctx vm] new by (simp add: allocator_open_def)
next
  case (Some ial)
  note p = allocator_create_priv [OF Some e]
  let ?a = "st_next_al st"
  let ?al = "\<lparr>al_fd = fd, al_ctx = ctx, al_vm = vm, al_refcount = 0, al_ial = ial\<rparr>"
  obtain st0 where c: "allocator_create st fd ctx vm ial = Some (?a, st0)" "attachable st0 ?a"
    "st_als st0 = (st_als st)(?a \<mapsto> ?al)" "st_handles st0 = st_handles st"
    "st_next_handle st0 = st_next_handle st" "map_abs (GET_MAP st0 vm) (key_of fd ctx vm) = Some ?a"
    "size (map_contents (st_ctx_map st0)) \<le> size (map_contents (st_ctx_map st)) + 1"
    "size (map_contents (st_vm_map st0)) \<le> size (map_contents (st_vm_map st)) + 1"
    using allocator_create_correct [OF inv p(1,5,6) new service_bounded_next(3) [OF b]] by blast
  have al: "st_als st0 ?a = Some ?al" by (simp add: c)
  obtain r st1 st2 where s: "allocator_get st0 ?a = Some (r, st1)"
    "handle_create st1 ?a = Some (st_next_handle st, st2)" "service_inv st2"
    "st_als st2 = (st_als st0)(?a \<mapsto> bump 1 ?al)" "handle_al st2 = (handle_al st0)(st_next_handle st \<mapsto> ?a)"
    "st_next_handle st2 = st_next_handle st + 1" "st_ctx_map st2 = st_ctx_map st0" "st_vm_map st2 = st_vm_map st0"
    "size (map_contents (st_handles st2)) = size (map_contents (st_handles st)) + 1"
    using attach_correct [OF c(2) al] service_bounded_next(1,2) [OF b] c(4,5) by auto
  have h: "handle_al st0 = handle_al st" by (simp add: handle_al_def fun_eq_iff c)
  have "ial_bounded (n + 1) (ial_priv ial)" using p(8) by (rule ial_bounded_mono) simp
  then have "service_bounded (n + 1) st2"
    using b(1) s c service_bounded_next(4) [OF b]
    by (auto simp: service_bounded_def intro: ial_bounded_Suc)
  moreover have "GET_MAP st2 w = GET_MAP st0 w" for w using s by (simp add: GET_MAP_def)
  ultimately show ?thesis
    using Some al s c h p find_instance [OF inv, of fd ctx vm] new by (auto simp: allocator_open_def Let_def)
qed


subsection \<open>Close\<close>

text \<open>Dropping a handle, after the reference counts were dropped.\<close>

lemma detach_handle:
  assumes m: "map_of_keys hash_handles equal_handles (st_handles st)" and h: "handle_al st h = Some a"
  shows "\<exists>st'. handle_destroy st h = Some st' \<and> map_of_keys hash_handles equal_handles (st_handles st') \<and>
    handle_al st' = (handle_al st)(h := None) \<and> (\<forall>b. refs st b = refs st' b + (if b = a then 1 else 0)) \<and>
    set_mset (map_contents (st_handles st')) \<subseteq> set_mset (map_contents (st_handles st)) \<and>
    size (map_contents (st_handles st')) \<le> size (map_contents (st_handles st)) \<and>
    st' = st\<lparr>st_handles := st_handles st'\<rparr>"
proof -
  obtain e where e: "map_abs (st_handles st) h = Some e" "he_al e = a" using h by (auto simp: handle_al_def)
  obtain st' where s: "handle_destroy st h = Some st'" "map_of_keys hash_handles equal_handles (st_handles st')"
    "map_contents (st_handles st) = add_mset (h, e) (map_contents (st_handles st'))"
    "handle_al st' = (handle_al st)(h := None)" "st' = st\<lparr>st_handles := st_handles st'\<rparr>"
    using handle_destroy_correct [OF m e(1)] by blast
  have "refs st b = refs st' b + (if b = a then 1 else 0)" for b using e(2) by (auto simp: refs_def s(3))
  then show ?thesis using s by (intro exI [of _ st']) auto
qed

lemma alloc_state_handles_update:
  assumes "st' = st\<lparr>st_handles := st_handles st'\<rparr>"
  shows "st_als st' = st_als st" "st_ctx_map st' = st_ctx_map st" "st_vm_map st' = st_vm_map st"
    "st_next_handle st' = st_next_handle st" "st_next_al st' = st_next_al st" "GET_MAP st' vm = GET_MAP st vm"
  by (subst assms, simp add: GET_MAP_def)+

text \<open>Destroying an instance removes its map entry and nothing else.\<close>

lemma allocator_destroy_correct:
  assumes inv: "service_inv st" and al: "st_als st a = Some al" "al_key al' = al_key al" "al_vm al' = al_vm al"
    and st1: "st1 = st\<lparr>st_als := (st_als st)(a \<mapsto> al')\<rparr>"
  shows "\<exists>st2. allocator_destroy st1 a = Some st2 \<and> st_als st2 = (st_als st)(a := None) \<and>
    st_handles st2 = st_handles st \<and> st_next_handle st2 = st_next_handle st \<and> st_next_al st2 = st_next_al st \<and>
    (\<forall>vm. map_of_keys hash_instance (equal_map vm) (GET_MAP st2 vm)) \<and>
    (\<forall>vm k. map_abs (GET_MAP st2 vm) k =
       (if (vm = 0 \<longleftrightarrow> al_vm al = 0) \<and> equal_map vm (al_key al) k then None else map_abs (GET_MAP st vm) k)) \<and>
    (\<forall>vm. size (map_contents (GET_MAP st2 vm)) \<le> size (map_contents (GET_MAP st vm)))"
proof -
  let ?vm = "al_vm al"
  have found: "map_abs (GET_MAP st ?vm) (al_key al) = Some a"
    using service_invD(5) [OF inv al(1)] by (simp add: al_ok_def)
  obtain m k where m: "igt_map_remove (GET_MAP st ?vm) (al_key al) True = Some (m, Some a)"
    "map_of_keys hash_instance (equal_map ?vm) m"
    "map_contents (GET_MAP st ?vm) = add_mset (k, a) (map_contents m)"
    "map_abs m = (\<lambda>q. if equal_map ?vm (al_key al) q then None else map_abs (GET_MAP st ?vm) q)"
    using map_remove_found [OF keys_ok_map service_invD(4) [OF inv] found] by blast
  define st2 where "st2 = (set_map st ?vm m)\<lparr>st_als := (st_als st)(a := None)\<rparr>"
  have run: "allocator_destroy st1 a = Some st2"
  proof -
    have "GET_MAP st1 ?vm = GET_MAP st ?vm" by (simp add: st1 GET_MAP_def)
    then show ?thesis using m(1) al(2,3)
      by (cases "?vm = 0") (simp_all add: allocator_destroy_def st1 st2_def set_map_def GET_MAP_def)
  qed
  have gm: "GET_MAP st2 w = (if (?vm = 0) = (w = 0) then m else GET_MAP st w)" for w
    by (auto simp: st2_def GET_MAP_def set_map_def)
  have same: "(?vm = 0) = (w = 0) \<Longrightarrow> GET_MAP st w = GET_MAP st ?vm \<and> equal_map w = equal_map ?vm" for w
    by (auto simp: GET_MAP_def equal_map_def)
  have "map_of_keys hash_instance (equal_map w) (GET_MAP st2 w)" for w
    using m(2) service_invD(4) [OF inv, of w] same [of w] by (simp add: gm)
  moreover have "map_abs (GET_MAP st2 w) k =
      (if (w = 0 \<longleftrightarrow> ?vm = 0) \<and> equal_map w (al_key al) k then None else map_abs (GET_MAP st w) k)" for w k
    using same [of w] by (auto simp: gm m(4))
  moreover have "size (map_contents (GET_MAP st2 w)) \<le> size (map_contents (GET_MAP st w))" for w
    using same [of w] m(3) by (simp add: gm)
  ultimately show ?thesis using run by (auto simp: st2_def)
qed

text \<open>The map entries of an instance are those of its key, and different instances have different
  keys.\<close>

lemma instance_entry:
  assumes inv: "service_inv st" and al: "st_als st a = Some al" and e: "map_abs (GET_MAP st vm) k = Some a"
  shows "(vm = 0 \<longleftrightarrow> al_vm al = 0) \<and> equal_map vm (al_key al) k"
  using service_inv_entry [OF inv e] al keys_okD(2) [OF keys_ok_map] by auto

lemma instance_keys_differ:
  assumes inv: "service_inv st" and al: "st_als st a = Some al" "st_als st b = Some al'" and ne: "b \<noteq> a"
  shows "\<not> ((al_vm al' = 0 \<longleftrightarrow> al_vm al = 0) \<and> equal_map (al_vm al') (al_key al) (al_key al'))"
proof
  assume c: "(al_vm al' = 0 \<longleftrightarrow> al_vm al = 0) \<and> equal_map (al_vm al') (al_key al) (al_key al')"
  have g: "GET_MAP st (al_vm al') = GET_MAP st (al_vm al)" using c by (simp add: GET_MAP_def)
  have e: "map_abs (GET_MAP st (al_vm al)) (al_key al) = Some a" "map_abs (GET_MAP st (al_vm al)) (al_key al') = Some b"
    using service_invD(5) [OF inv al(1)] service_invD(5) [OF inv al(2)] g by (simp_all add: al_ok_def)
  then obtain k where k: "(k, b) \<in># map_contents (GET_MAP st (al_vm al))" "equal_map (al_vm al) (al_key al') k"
    using map_abs_Some_contents [OF service_invD(4) [OF inv]] by metis
  have "equal_map (al_vm al) (al_key al) k"
    using c k(2) keys_okD(3) [OF keys_ok_map] equal_map_cong [of "al_vm al'" "al_vm al"] by metis
  then have "map_abs (GET_MAP st (al_vm al)) (al_key al) = Some b"
    using map_abs_Some_contents [OF service_invD(4) [OF inv]] k(1) by blast
  then show False using e(1) ne by simp
qed

lemma close_correct:
  assumes inv: "service_inv st" and h: "handle_al st h = Some a" and al: "st_als st a = Some al"
    and b: "service_bounded n st"
  shows "\<exists>st'. allocator_close st h = Some (refs st a = 1 \<and> ial_is_empty (ial_priv (al_ial al)), st') \<and>
    service_inv st' \<and> service_bounded n st' \<and> handle_al st' = (handle_al st)(h := None) \<and>
    st_als st' = (if refs st a = 1 then (st_als st)(a := None) else (st_als st)(a \<mapsto> bump (- 1) al)) \<and>
    st_next_handle st' = st_next_handle st \<and>
    (\<forall>vm k. map_abs (GET_MAP st' vm) k =
       (if refs st a = 1 \<and> (vm = 0 \<longleftrightarrow> al_vm al = 0) \<and> equal_map vm (al_key al) k then None
        else map_abs (GET_MAP st vm) k))"
proof -
  have aok: "al_ok st a al" using service_invD(5) [OF inv al] .
  let ?al1 = "bump (- 1) al" and ?st1 = "st\<lparr>st_als := (st_als st)(a \<mapsto> bump (- 1) al)\<rparr>"
  have put: "allocator_put st a = Some (refs st a = 1, ?st1)"
    using aok al by (auto simp: allocator_put_def al_ok_def bump_def Let_def igt_assert_def)
  have hok: "handles_ok st" and eok: "entries_ok st" using inv by (auto simp: service_inv_def)
  show ?thesis
  proof (cases "refs st a = 1")
    case last: True
    obtain st2 where s2: "allocator_destroy ?st1 a = Some st2" "st_als st2 = (st_als st)(a := None)"
      "st_handles st2 = st_handles st" "st_next_handle st2 = st_next_handle st" "st_next_al st2 = st_next_al st"
      "\<forall>vm. map_of_keys hash_instance (equal_map vm) (GET_MAP st2 vm)"
      "\<forall>vm k. map_abs (GET_MAP st2 vm) k =
         (if (vm = 0 \<longleftrightarrow> al_vm al = 0) \<and> equal_map vm (al_key al) k then None else map_abs (GET_MAP st vm) k)"
      "\<forall>vm. size (map_contents (GET_MAP st2 vm)) \<le> size (map_contents (GET_MAP st vm))"
      using allocator_destroy_correct [OF inv al bump_simps(4) bump_simps(3) refl] by blast
    have m2: "map_of_keys hash_handles equal_handles (st_handles st2)" "handle_al st2 h = Some a"
      using service_invD(1) [OF inv] h by (simp_all add: s2 handle_al_def)
    obtain st3 where s3: "handle_destroy st2 h = Some st3" "map_of_keys hash_handles equal_handles (st_handles st3)"
      "handle_al st3 = (handle_al st2)(h := None)" "\<forall>b. refs st2 b = refs st3 b + (if b = a then 1 else 0)"
      "set_mset (map_contents (st_handles st3)) \<subseteq> set_mset (map_contents (st_handles st2))"
      "size (map_contents (st_handles st3)) \<le> size (map_contents (st_handles st2))"
      "st3 = st2\<lparr>st_handles := st_handles st3\<rparr>"
      using detach_handle [OF m2] by blast
    note f = alloc_state_handles_update [OF s3(7)]
    have run: "allocator_close st h = Some (ial_is_empty (ial_priv (al_ial al)), st3)"
      using find_by_handle [OF inv, of h] h put last aok s2(1) s3(1)
      by (simp add: allocator_close_def Let_def al_ok_def)
    have refs: "refs st b = refs st3 b + (if b = a then 1 else 0)" for b
      using s3(4) by (simp add: refs_def s2(3))
    have ha: "handle_al st2 = handle_al st" by (simp add: handle_al_def fun_eq_iff s2(3))
    have "handles_ok st3"
      unfolding handles_ok_def
    proof (intro ballI, clarify)
      fix h' e assume mem: "(h', e) \<in># map_contents (st_handles st3)"
      then have "(h', e) \<in># map_contents (st_handles st)" using s3(5) s2(3) by auto
      then have *: "h' = he_handle e" "0 < unat h'" "unat h' < unat (st_next_handle st)" "st_als st (he_al e) \<noteq> None"
        using hok by (auto simp: handles_ok_def)
      have "refs st3 a = 0" using refs [of a] last by simp
      then have "he_al e \<noteq> a" using mem by (auto simp: refs_def filter_mset_eq_conv)
      then show "h' = he_handle e \<and> 0 < unat h' \<and> unat h' < unat (st_next_handle st3) \<and> st_als st3 (he_al e) \<noteq> None"
        using * by (simp add: f s2)
    qed
    moreover have "maps_ok st3" using s2(6) s3(2) by (simp add: maps_ok_GET_MAP f)
    moreover have "entries_ok st3"
      unfolding entries_ok_GET_MAP
    proof (intro allI impI)
      fix vm k b assume "map_abs (GET_MAP st3 vm) k = Some b"
      then have *: "map_abs (GET_MAP st vm) k = Some b"
        "\<not> ((vm = 0 \<longleftrightarrow> al_vm al = 0) \<and> equal_map vm (al_key al) k)" by (auto simp: f s2(7) split: if_splits)
      then have "b \<noteq> a" using instance_entry [OF inv al, of vm k] by blast
      then show "\<exists>al. st_als st3 b = Some al \<and> (al_vm al = 0 \<longleftrightarrow> vm = 0) \<and> equal_map vm k (al_key al)"
        using service_inv_entry [OF inv *(1)] by (simp add: f s2)
    qed
    moreover have "al_ok st3 b al'" if "st_als st3 b = Some al'" for b al'
    proof -
      have ba: "b \<noteq> a" "st_als st b = Some al'" using that by (auto simp: f s2 split: if_splits)
      then have ok: "al_ok st b al'" using service_invD(5) [OF inv] by blast
      then have e: "map_abs (GET_MAP st (al_vm al')) (al_key al') = Some b" by (simp add: al_ok_def)
      have "\<not> ((al_vm al' = 0 \<longleftrightarrow> al_vm al = 0) \<and> equal_map (al_vm al') (al_key al) (al_key al'))"
        using instance_keys_differ [OF inv al ba(2)] ba(1) by blast
      then have "map_abs (GET_MAP st3 (al_vm al')) (al_key al') = Some b" using e by (auto simp: f s2(7))
      then show ?thesis using ok refs [of b] ba(1) by (simp add: al_ok_def f s2)
    qed
    ultimately have "service_inv st3" using inv by (simp add: service_inv_def f s2)
    moreover have "service_bounded n st3"
      using b le_trans [OF s2(8) [rule_format, of 0]] le_trans [OF s2(8) [rule_format, of 1]] s3(6)
      unfolding service_bounded_def f s2 maps_of_GET_MAP by (auto split: if_splits)
    ultimately show ?thesis using run last s3(3) s2(7) by (auto simp: f s2 ha)
  next
    case more: False
    have m1: "map_of_keys hash_handles equal_handles (st_handles ?st1)" "handle_al ?st1 h = Some a"
      using service_invD(1) [OF inv] h by (simp_all add: handle_al_def)
    obtain st3 where s3: "handle_destroy ?st1 h = Some st3" "map_of_keys hash_handles equal_handles (st_handles st3)"
      "handle_al st3 = (handle_al ?st1)(h := None)" "\<forall>b. refs ?st1 b = refs st3 b + (if b = a then 1 else 0)"
      "set_mset (map_contents (st_handles st3)) \<subseteq> set_mset (map_contents (st_handles ?st1))"
      "size (map_contents (st_handles st3)) \<le> size (map_contents (st_handles ?st1))"
      "st3 = ?st1\<lparr>st_handles := st_handles st3\<rparr>"
      using detach_handle [OF m1] by blast
    note f = alloc_state_handles_update [OF s3(7)]
    have refs: "refs st b = refs st3 b + (if b = a then 1 else 0)" for b
      using s3(4) by (simp add: refs_def)
    have g1: "GET_MAP ?st1 vm = GET_MAP st vm" for vm by (simp add: GET_MAP_def)
    have ha: "handle_al ?st1 = handle_al st" by (simp add: handle_al_def fun_eq_iff)
    have run: "allocator_close st h = Some (False, st3)"
      using find_by_handle [OF inv, of h] h put more aok s3(1)
      by (simp add: allocator_close_def Let_def al_ok_def)
    have "handles_ok st3"
      using hok s3(5) al unfolding handles_ok_def by (fastforce simp: f)
    moreover have "maps_ok st3" using service_invD(4) [OF inv] s3(2) by (simp add: maps_ok_GET_MAP f g1)
    moreover have "entries_ok st3"
      using entries_ok_update [OF eok al, of ?al1 st3] by (simp add: f)
    moreover have "al_ok st3 c al'" if "st_als st3 c = Some al'" for c al'
      using that service_invD(5) [OF inv, of c] aok refs [of c] more
      by (auto simp: al_ok_def f g1 split: if_splits)
    ultimately have "service_inv st3" using inv by (simp add: service_inv_def f)
    moreover have "service_bounded n st3" using b s3(6) al by (auto simp: service_bounded_def f)
    ultimately show ?thesis using run more s3(3) by (auto simp: f g1 ha)
  qed
qed


subsection \<open>Requests and sequences of requests\<close>

lemma reloc_alloc_step:
  assumes inv: "reloc_inv r" and b: "size (map_contents (reloc_objects r)) \<le> n" "n < 2 ^ 16"
    and run: "intel_allocator_reloc_alloc r handle sz alignment pat_index strategy = Some (off, r')"
  shows "reloc_inv r' \<and> size (map_contents (reloc_objects r')) \<le> n + 1"
proof (cases "reloc_object_of r handle")
  case None
  have "reloc_room r" using b by simp
  from reloc_alloc_new [OF inv None this, of sz alignment pat_index strategy] run b(1)
  show ?thesis by (auto split: if_splits)
next
  case (Some rec)
  from reloc_alloc_known [OF inv Some, of sz alignment pat_index strategy] run inv b(1)
  show ?thesis by (auto split: if_splits)
qed

lemma ial_alloc_step:
  assumes "ial_ok p" "ial_bounded n p" "n < 2 ^ 16"
    and "ial_alloc p handle sz alignment pat_index strategy = Some (off, p')"
  shows "ial_ok p' \<and> ial_bounded (n + 1) p'"
proof (cases p)
  case (Reloc_Priv r)
  with assms reloc_alloc_step [of r n] show ?thesis by fastforce
next
  case (Simple_Priv s)
  with assms simple_alloc_step [of s n] show ?thesis by fastforce
qed

lemma ial_free_step:
  assumes "ial_ok p" "ial_bounded n p" and "ial_free p handle = Some (freed, p')"
  shows "ial_ok p' \<and> ial_bounded (n + 1) p'"
proof (cases p)
  case (Reloc_Priv r)
  with assms reloc_free_cases [of r handle] show ?thesis by fastforce
next
  case (Simple_Priv s)
  with assms simple_free_step [of s n] show ?thesis by fastforce
qed

lemma ial_reserve_step:
  assumes "ial_ok p" "ial_bounded n p" "n < 2 ^ 16" and "ial_reserve p handle start end_addr = Some (ok, p')"
  shows "ial_ok p' \<and> ial_bounded (n + 1) p'"
proof (cases p)
  case (Reloc_Priv r)
  with assms show ?thesis by (auto simp: intel_allocator_reloc_reserve_def)
next
  case (Simple_Priv s)
  with assms simple_reserve_step [of s n] show ?thesis by fastforce
qed

lemma ial_unreserve_step:
  assumes "ial_ok p" "ial_bounded n p" and "ial_unreserve p handle start end_addr = Some (ok, p')"
  shows "ial_ok p' \<and> ial_bounded (n + 1) p'"
proof (cases p)
  case (Reloc_Priv r)
  with assms show ?thesis by (auto simp: intel_allocator_reloc_unreserve_def)
next
  case (Simple_Priv s)
  with assms simple_unreserve_step [of s n] show ?thesis by fastforce
qed

lemma ial_request_step:
  assumes ok: "ial_ok (ial_priv ial)" "ial_bounded n (ial_priv ial)" "n < 2 ^ 16"
    and run: "ial_request ial req = Some (resp, p')"
  shows "ial_ok p' \<and> ial_bounded (n + 1) p'"
proof -
  have same: "p' = ial_priv ial \<Longrightarrow> ?thesis" using ok ial_bounded_mono [of n _ "n + 1"] by auto
  show ?thesis
    using run same ial_alloc_step [OF ok] ial_free_step [OF ok(1,2)] ial_reserve_step [OF ok]
      ial_unreserve_step [OF ok(1,2)]
    by (cases req) (auto split: bind_splits if_splits prod.splits)
qed

text \<open>Requests that go to one instance.\<close>

definition to_instance :: "alloc_req \<Rightarrow> bool" where
  "to_instance req \<longleftrightarrow> (case req of REQ_STOP \<Rightarrow> False | REQ_OPEN _ _ _ _ _ _ _ _ \<Rightarrow> False
     | REQ_CLOSE _ \<Rightarrow> False | _ \<Rightarrow> True)"

definition set_priv :: "allocator \<Rightarrow> ial_priv \<Rightarrow> allocator" where
  "set_priv al p = al\<lparr>al_ial := (al_ial al)\<lparr>ial_priv := p\<rparr>\<rparr>"

lemma set_priv_simps [simp]:
  "al_key (set_priv al p) = al_key al" "al_vm (set_priv al p) = al_vm al" "al_fd (set_priv al p) = al_fd al"
  "al_refcount (set_priv al p) = al_refcount al" "ial_priv (al_ial (set_priv al p)) = p"
  "ial_refcount (al_ial (set_priv al p)) = ial_refcount (al_ial al)"
  "ial_fd (al_ial (set_priv al p)) = ial_fd (al_ial al)"
  by (simp_all add: set_priv_def al_key_def)

lemma handle_request_instance:
  assumes inv: "service_inv st" and r: "to_instance req"
  shows "handle_request st req = (case handle_al st (req_handle req) of
      None \<Rightarrow> None
    | Some a \<Rightarrow> do {
        (resp, p) \<leftarrow> ial_request (al_ial (the (st_als st a))) req;
        Some (resp, st\<lparr>st_als := (st_als st)(a \<mapsto> set_priv (the (st_als st a)) p)\<rparr>)
      })"
proof (cases "handle_al st (req_handle req)")
  case None
  then show ?thesis using r find_by_handle [OF inv, of "req_handle req"]
    by (cases req) (auto simp: handle_request_def to_instance_def)
next
  case (Some a)
  obtain al where "st_als st a = Some al" using handle_al_live [OF inv Some] by blast
  then show ?thesis using Some r find_by_handle [OF inv, of "req_handle req"]
    by (cases req) (auto simp: handle_request_def to_instance_def set_priv_def)
qed

lemma set_priv_inv:
  assumes inv: "service_inv st" and al: "st_als st a = Some al" and p: "ial_ok p" "ial_bounded (n + 1) p"
    and b: "service_bounded n st"
  shows "service_inv (st\<lparr>st_als := (st_als st)(a \<mapsto> set_priv al p)\<rparr>)"
    "service_bounded (n + 1) (st\<lparr>st_als := (st_als st)(a \<mapsto> set_priv al p)\<rparr>)"
    "handle_al (st\<lparr>st_als := (st_als st)(a \<mapsto> set_priv al p)\<rparr>) = handle_al st"
proof -
  let ?st = "st\<lparr>st_als := (st_als st)(a \<mapsto> set_priv al p)\<rparr>"
  have g: "GET_MAP ?st vm = GET_MAP st vm" "refs ?st c = refs st c" for vm c by (simp_all add: GET_MAP_def refs_def)
  show "handle_al ?st = handle_al st" by (simp add: handle_al_def fun_eq_iff)
  show "service_bounded (n + 1) ?st"
    using b p(2) by (auto simp: service_bounded_def intro: ial_bounded_Suc)
  have "entries_ok st" using inv by (simp add: service_inv_def)
  from entries_ok_update [OF this al, of "set_priv al p" ?st] have "entries_ok ?st" by simp
  moreover have "handles_ok ?st" using inv by (auto simp: service_inv_def handles_ok_def)
  moreover have "maps_ok ?st" using inv by (simp add: service_inv_def maps_ok_def)
  moreover have "al_ok ?st c al'" if "st_als ?st c = Some al'" for c al'
    using that service_invD(5) [OF inv, of c] service_invD(5) [OF inv al] p(1)
    by (auto simp: al_ok_def g split: if_splits)
  ultimately show "service_inv ?st" using inv by (simp add: service_inv_def)
qed

definition req_ok :: "alloc_req \<Rightarrow> bool" where
  "req_ok req \<longleftrightarrow> (case req of REQ_OPEN fd ctx vm start end_addr _ _ _ \<Rightarrow> end_addr \<noteq> 0 | _ \<Rightarrow> True)"

lemma service_bounded_Suc: "service_bounded n st \<Longrightarrow> service_bounded (n + 1) st"
  by (auto simp: service_bounded_def intro: ial_bounded_Suc)

lemma handle_request_inv:
  assumes inv: "service_inv st" and b: "service_bounded n st" "n < 2 ^ 16" and ok: "req_ok req"
    and run: "handle_request st req = Some (resp, st')"
  shows "service_inv st' \<and> service_bounded (n + 1) st'"
proof (cases "to_instance req")
  case True
  from run [unfolded handle_request_instance [OF inv True]]
  obtain a p where a: "handle_al st (req_handle req) = Some a"
    "ial_request (al_ial (the (st_als st a))) req = Some (resp, p)"
    "st' = st\<lparr>st_als := (st_als st)(a \<mapsto> set_priv (the (st_als st a)) p)\<rparr>"
    by (auto split: option.splits bind_splits)
  obtain al where al: "st_als st a = Some al" "al_ok st a al" using handle_al_live [OF inv a(1)] by blast
  have "ial_ok (ial_priv (al_ial al))" "ial_bounded n (ial_priv (al_ial al))"
    using al b(1) by (auto simp: al_ok_def service_bounded_def)
  from ial_request_step [OF this b(2)] a(2) al(1) have p: "ial_ok p" "ial_bounded (n + 1) p" by auto
  show ?thesis using set_priv_inv [OF inv al(1) p b(1)] a(3) al(1) by simp
next
  case False
  then consider (stop) "req = REQ_STOP" | (opens) fd ctx vm start end_addr ty str al
      where "req = REQ_OPEN fd ctx vm start end_addr ty str al" | (close) h where "req = REQ_CLOSE h"
    by (cases req) (auto simp: to_instance_def)
  then show ?thesis
  proof cases
    case stop
    then show ?thesis using run inv service_bounded_Suc [OF b(1)] by (auto simp: handle_request_def)
  next
    case opens
    then have e: "end_addr \<noteq> 0" using ok by (simp add: req_ok_def)
    obtain ahnd a where o: "allocator_open st fd ctx vm start end_addr ty str al = Some (ahnd, a, st')"
      using run opens by (auto simp: handle_request_def split: bind_splits)
    show ?thesis
    proof (cases "map_abs (GET_MAP st vm) (key_of fd ctx vm)")
      case None
      from open_new [OF inv b None e, of start ty str al] o show ?thesis by (auto split: option.splits)
    next
      case (Some c)
      from open_existing [OF inv b Some, of ty str al start end_addr] o show ?thesis by (auto split: if_splits)
    qed
  next
    case close
    show ?thesis
    proof (cases "handle_al st h")
      case None
      then show ?thesis using run close inv find_by_handle [OF inv, of h] service_bounded_Suc [OF b(1)]
        by (auto simp: handle_request_def)
    next
      case (Some a)
      obtain al where al: "st_als st a = Some al" using handle_al_live [OF inv Some] by blast
      from close_correct [OF inv Some al b(1)] run close Some find_by_handle [OF inv, of h] show ?thesis
        by (auto simp: handle_request_def dest: service_bounded_Suc)
    qed
  qed
qed

lemma thread_loop_inv:
  assumes "service_inv st" "service_bounded n st" "n + length reqs \<le> 2 ^ 16" "\<forall>r \<in> set reqs. req_ok r"
    "allocator_thread_loop st reqs = Some (resps, st')"
  shows "service_inv st' \<and> service_bounded (n + length reqs) st'"
  using assms
proof (induction reqs arbitrary: st n resps)
  case (Cons req reqs)
  show ?case
  proof (cases "req = REQ_STOP")
    case True
    have "service_bounded m st \<Longrightarrow> service_bounded (m + k) st" for m k
      by (induction k) (auto dest: service_bounded_Suc)
    from this [OF Cons.prems(2), of "length (req # reqs)"] show ?thesis using True Cons.prems by simp
  next
    case False
    then obtain resp st1 resps' where s: "handle_request st req = Some (resp, st1)"
      "allocator_thread_loop st1 reqs = Some (resps', st')"
      using Cons.prems(5) by (auto split: bind_splits)
    have "n < 2 ^ 16" "req_ok req" using Cons.prems by simp_all
    from handle_request_inv [OF Cons.prems(1,2) this s(1)] have "service_inv st1" "service_bounded (n + 1) st1" by auto
    from Cons.IH [OF this _ _ s(2)] Cons.prems show ?thesis by simp
  qed
qed simp

lemma init_state_inv: "service_inv init_state" "service_bounded 0 init_state" "handle_al init_state = (\<lambda>_. None)"
proof -
  have c: "map_contents (igt_map_create hash_handles equal_handles) = {#}"
    "map_contents (igt_map_create hash_instance equal_ctx) = {#}"
    "map_contents (igt_map_create hash_instance equal_vm) = {#}"
    using map_of_keys_create keys_ok_handles keys_ok_ctx keys_ok_vm by blast+
  show "service_inv init_state"
    by (simp add: service_inv_def init_state_def maps_ok_def handles_ok_def entries_ok_def c
        map_of_keys_create map_abs_create keys_ok_handles keys_ok_ctx keys_ok_vm)
  show "service_bounded 0 init_state" by (simp add: service_bounded_def init_state_def c)
  show "handle_al init_state = (\<lambda>_. None)"
    by (simp add: handle_al_def fun_eq_iff init_state_def map_abs_create keys_ok_handles)
qed


subsection \<open>Initialisation over a previous state\<close>

lemma close_all_correct:
  assumes "service_inv st" "service_bounded n st"
  shows "\<exists>st'. close_all st hs = Some st' \<and> service_inv st' \<and> service_bounded n st' \<and>
    handle_al st' = (\<lambda>h. if h \<in> set hs then None else handle_al st h)"
  using assms
proof (induction hs arbitrary: st)
  case (Cons h hs)
  have "\<exists>r st1. allocator_close st h = Some (r, st1) \<and> service_inv st1 \<and> service_bounded n st1 \<and>
      handle_al st1 = (handle_al st)(h := None)"
  proof (cases "handle_al st h")
    case None
    then have "allocator_close st h = Some (False, st)"
      using find_by_handle [OF Cons.prems(1), of h] by (simp add: allocator_close_def)
    with None Cons.prems show ?thesis by (auto simp: fun_upd_idem)
  next
    case (Some a)
    obtain al where al: "st_als st a = Some al" using handle_al_live [OF Cons.prems(1) Some] by blast
    from close_correct [OF Cons.prems(1) Some al Cons.prems(2)] show ?thesis by blast
  qed
  then obtain r st1 where s: "allocator_close st h = Some (r, st1)" "service_inv st1" "service_bounded n st1"
    "handle_al st1 = (handle_al st)(h := None)" by blast
  from Cons.IH [OF s(2,3)] s(1,4) show ?case by (auto simp: fun_eq_iff)
qed auto

lemma no_handles_no_instances:
  assumes inv: "service_inv st" and none: "handle_al st = (\<lambda>_. None)"
  shows "st_als st = (\<lambda>_. None)"
proof (rule ext, rule ccontr)
  fix a assume "st_als st a \<noteq> None"
  then obtain al where "st_als st a = Some al" by blast
  from service_invD(5) [OF inv this] have "0 < refs st a" by (simp add: al_ok_def)
  then obtain h e where "(h, e) \<in># map_contents (st_handles st)" "he_al e = a"
    by (fastforce simp: refs_def simp flip: nonempty_has_size elim!: multiset_nonemptyE)
  then have "handle_al st h = Some a" using handle_al_contents [OF inv] by blast
  with none show False by simp
qed

lemma init_correct:
  assumes inv: "service_inv st" "service_bounded n st"
  shows "\<exists>st'. intel_allocator_init (Some st) = Some st' \<and> service_inv st' \<and> service_bounded 0 st' \<and>
    handle_al st' = (\<lambda>_. None) \<and> st_als st' = (\<lambda>_. None) \<and> st_next_handle st' = 1"
proof -
  let ?hs = "map he_handle (foreach_data (st_handles st))"
  obtain st1 where s: "close_all st ?hs = Some st1" "service_inv st1"
    "handle_al st1 = (\<lambda>h. if h \<in> set ?hs then None else handle_al st h)"
    using close_all_correct [OF inv] by blast
  have fd: "mset (foreach_data (st_handles st)) = image_mset snd (map_contents (st_handles st))"
    by (rule foreach_data_contents [OF service_invD(1) [OF inv(1)]])
  have "handle_al st h = None" if "h \<notin> set ?hs" for h
  proof (rule ccontr)
    assume "handle_al st h \<noteq> None"
    then obtain e where e: "(h, e) \<in># map_contents (st_handles st)" using handle_al_contents [OF inv(1)] by blast
    then have "h = he_handle e" using inv(1) by (auto simp: service_inv_def handles_ok_def)
    moreover have "e \<in> set (foreach_data (st_handles st))"
      using e fd by (metis image_eqI set_image_mset set_mset_mset snd_conv)
    ultimately show False using that by auto
  qed
  then have none: "handle_al st1 = (\<lambda>_. None)" using s(3) by (auto simp: fun_eq_iff)
  have als: "st_als st1 = (\<lambda>_. None)" by (rule no_handles_no_instances [OF s(2) none])
  let ?st = "st1\<lparr>st_handles := st_handles init_state, st_ctx_map := st_ctx_map init_state,
    st_vm_map := st_vm_map init_state, st_next_handle := 1\<rparr>"
  have i: "maps_ok init_state" "map_contents (st_handles init_state) = {#}"
    "map_contents (st_ctx_map init_state) = {#}" "map_contents (st_vm_map init_state) = {#}"
    using init_state_inv by (auto simp: service_inv_def service_bounded_def)
  have "service_inv ?st"
    using i by (simp add: service_inv_def maps_ok_def handles_ok_def entries_ok_def als)
      (simp add: init_state_def map_abs_create keys_ok_ctx keys_ok_vm)
  moreover have "service_bounded 0 ?st" using i by (simp add: service_bounded_def als)
  moreover have "handle_al ?st = (\<lambda>_. None)"
    using init_state_inv(3) by (simp add: handle_al_def fun_eq_iff)
  ultimately show ?thesis using s(1) als by (simp add: intel_allocator_init_def)
qed

end
