(* ===== verification/Allocator_Service.thy ===== *)
theory Allocator_Service
  imports Intel_Allocator
begin

text \<open>
  What the processes that talk to the allocator service (\<^verbatim>\<open>lib/intel_allocator.c\<close>) can rely on, from
  the invariant of \<^verbatim>\<open>Intel_Allocator\<close>: reference counts, sharing of instances between handles, isolation
  of instances from each other, the effect of the last close, and that no two objects of an instance
  overlap.
\<close>

subsection \<open>Reference counts and handles\<close>

lemma refs_card:
  assumes inv: "service_inv st"
  shows "refs st a = card {h. handle_al st h = Some a}"
proof -
  let ?xs = "map_items (st_handles st)"
  have m: "map_inv (st_handles st)" "key_equals_function (st_handles st) = equal_handles"
    using service_invD(1) [OF inv] by (auto simp: map_of_keys_def)
  have "distinct (map fst ?xs)"
    by (rule distinct_keys_fst [of equal_handles]) (use m table_inv_distinct_keys [of "st_handles st"] in \<open>auto simp: equal_handles_def map_inv_def\<close>)
  then have d: "distinct (map fst (filter (\<lambda>(h, e). he_al e = a) ?xs))" by (rule distinct_map_filter)
  have "refs st a = length (filter (\<lambda>(h, e). he_al e = a) ?xs)"
    by (simp add: refs_def map_contents_def flip: mset_filter)
  also have "\<dots> = card (set (map fst (filter (\<lambda>(h, e). he_al e = a) ?xs)))"
    using distinct_card [OF d] by simp
  also have "set (map fst (filter (\<lambda>(h, e). he_al e = a) ?xs)) = {h. handle_al st h = Some a}"
    using handle_al_contents [OF inv, of _ a] by (force simp: map_contents_def)
  finally show ?thesis .
qed

lemma loop_from_init:
  assumes "length reqs \<le> 2 ^ 16" "\<forall>r \<in> set reqs. req_ok r"
    and "allocator_thread_loop init_state reqs = Some (resps, st)"
  shows "service_inv st" "service_bounded (length reqs) st"
  using thread_loop_inv [OF init_state_inv(1,2) _ assms(2,3)] assms(1) by simp_all

subsection \<open>One request\<close>

text \<open>Opening: the new handle, and the instance it is attached to.\<close>

lemma open_request:
  assumes inv: "service_inv st" and b: "service_bounded n st" "n < 2 ^ 16" and e: "end_addr \<noteq> 0"
    and run: "handle_request st (REQ_OPEN fd ctx vm start end_addr ty strategy al) = Some (resp, st')"
  shows "resp = RESP_OPEN (st_next_handle st) \<and> handle_al st (st_next_handle st) = None \<and>
    (\<exists>a. handle_al st' = (handle_al st)(st_next_handle st \<mapsto> a) \<and>
       (\<forall>b. b \<noteq> a \<longrightarrow> st_als st' b = st_als st b) \<and>
       (case map_abs (GET_MAP st vm) (key_of fd ctx vm) of
          Some b \<Rightarrow> a = b \<and> st_als st' a = map_option (bump 1) (st_als st a)
        | None \<Rightarrow> st_als st a = None) \<and>
       map_abs (GET_MAP st' vm) (key_of fd ctx vm) = Some a)"
proof -
  obtain ahnd a where o: "allocator_open st fd ctx vm start end_addr ty strategy al = Some (ahnd, a, st')"
    "resp = RESP_OPEN ahnd" using run by (auto simp: handle_request_def split: bind_splits)
  have fresh: "handle_al st (st_next_handle st) = None" by (rule handle_al_next [OF inv])
  show ?thesis
  proof (cases "map_abs (GET_MAP st vm) (key_of fd ctx vm)")
    case None
    from open_new [OF inv b None e, of start ty strategy al] o None fresh al_next_free [OF inv] show ?thesis
      by (auto split: option.splits)
  next
    case (Some c)
    from open_existing [OF inv b Some, of ty strategy al start end_addr] o Some fresh show ?thesis
      by (auto split: if_splits)
  qed
qed

text \<open>Allocating on a SIMPLE instance.\<close>

lemma alloc_request:
  assumes inv: "service_inv st" and h: "handle_al st h = Some a" "st_als st a = Some al"
    "ial_priv (al_ial al) = Simple_Priv s"
    and new: "object \<noteq> 0" "object_of s object = None" and sz: "0 < unat sz"
      "0 < unat (max (ial_default_alignment (al_ial al)) alignment)"
    and room: "size (map_contents (simple_objects s)) < 2 ^ 16"
  shows "\<exists>r s'. handle_request st (REQ_ALLOC h object sz alignment pat strategy) =
      Some (RESP_ALLOC r, st\<lparr>st_als := (st_als st)(a \<mapsto> set_priv al (Simple_Priv s'))\<rparr>) \<and>
    intel_allocator_simple_alloc s object sz (max (ial_default_alignment (al_ial al)) alignment) pat strategy = Some (r, s')"
proof -
  have i: "to_instance (REQ_ALLOC h object sz alignment pat strategy)" by (simp add: to_instance_def)
  have "simple_inv s" using service_invD(5) [OF inv h(2)] h(3) by (simp add: al_ok_def)
  from simple_alloc_new [OF this new sz room, of pat strategy] show ?thesis
    using handle_request_instance [OF inv i] h by auto
qed

subsection \<open>An example\<close>

text \<open>Two opens of the same context, and an object allocated through each handle.\<close>

definition example_open :: alloc_req where
  "example_open = REQ_OPEN 3 1 0 0x40000 0x100000 INTEL_ALLOCATOR_SIMPLE ALLOC_STRATEGY_HIGH_TO_LOW 0x1000"

definition example_reqs :: "alloc_req list" where
  "example_reqs = [example_open, example_open, REQ_ALLOC 1 5 0x2000 0 0 ALLOC_STRATEGY_NONE,
     REQ_ALLOC 2 6 0x1000 0x1000 0 ALLOC_STRATEGY_LOW_TO_HIGH]"

definition example_service :: alloc_state where
  "example_service = snd (the (allocator_thread_loop init_state example_reqs))"

lemma example_service:
  "\<exists>resps. allocator_thread_loop init_state example_reqs = Some (resps, example_service)"
  "\<exists>al s. handle_al example_service = [1 \<mapsto> 1, 2 \<mapsto> 1] \<and> st_als example_service = [1 \<mapsto> al] \<and>
     ial_priv (al_ial al) = Simple_Priv s \<and> ial_type (al_ial al) = INTEL_ALLOCATOR_SIMPLE \<and>
     ial_strategy (al_ial al) = ALLOC_STRATEGY_HIGH_TO_LOW \<and> ial_default_alignment (al_ial al) = 0x1000 \<and>
     map_abs (GET_MAP example_service 0) (key_of 3 1 0) = Some 1"
proof -
  obtain s0 where s0: "intel_allocator_simple_create 0x40000 0x100000 ALLOC_STRATEGY_HIGH_TO_LOW = Some s0"
    "simple_inv s0" "object_of s0 = (\<lambda>_. None)"
    using simple_create_correct [of "0x40000" "0x100000" ALLOC_STRATEGY_HIGH_TO_LOW] by auto
  let ?ial = "\<lparr>ial_fd = 3, ial_type = INTEL_ALLOCATOR_SIMPLE, ial_strategy = ALLOC_STRATEGY_HIGH_TO_LOW,
    ial_default_alignment = 0x1000, ial_refcount = 0, ial_priv = Simple_Priv s0\<rparr>"
  let ?al = "bump 1 \<lparr>al_fd = 3, al_ctx = 1, al_vm = 0, al_refcount = 0, al_ial = ?ial\<rparr>"
  have ial: "intel_allocator_create p 3 0x40000 0x100000 INTEL_ALLOCATOR_SIMPLE ALLOC_STRATEGY_HIGH_TO_LOW 0x1000 = Some ?ial" for p
    by (simp add: intel_allocator_create_def INTEL_ALLOCATOR_NONE_def INTEL_ALLOCATOR_RELOC_def INTEL_ALLOCATOR_SIMPLE_def s0)
  have none: "map_abs (GET_MAP init_state 0) (key_of 3 1 0) = None" "st_next_handle init_state = 1" "st_next_al init_state = 1"
    "st_als init_state = (\<lambda>_. None)"
    by (simp_all add: init_state_def GET_MAP_def map_abs_create keys_ok_ctx)
  from open_new [OF init_state_inv(1,2) _ none(1), of "0x100000" "0x40000" INTEL_ALLOCATOR_SIMPLE ALLOC_STRATEGY_HIGH_TO_LOW "0x1000"]
  obtain st1 where st1: "handle_request init_state example_open = Some (RESP_OPEN 1, st1)" "service_inv st1"
    "service_bounded 1 st1" "handle_al st1 = [1 \<mapsto> 1]" "st_als st1 = [1 \<mapsto> ?al]" "st_next_handle st1 = 2"
    "map_abs (GET_MAP st1 0) (key_of 3 1 0) = Some 1"
    unfolding ial by (auto simp: none init_state_inv(3) handle_request_def example_open_def)
  from open_existing [OF st1(2,3) _ st1(7), of INTEL_ALLOCATOR_SIMPLE ALLOC_STRATEGY_HIGH_TO_LOW "0x1000" "0x40000" "0x100000"]
  obtain st2 where st2: "handle_request st1 example_open = Some (RESP_OPEN 2, st2)" "service_inv st2"
    "handle_al st2 = [1 \<mapsto> 1, 2 \<mapsto> 1]" "st_als st2 = [1 \<mapsto> bump 1 ?al]" 
    "map_abs (GET_MAP st2 0) (key_of 3 1 0) = Some 1"
    by (auto simp: st1(4-7) handle_request_def example_open_def)
  have "service_bounded 0 init_state" by (rule init_state_inv)
  have c0: "size (map_contents (simple_objects s0)) = 0"
    using contents_empty_iff [OF keys_ok_32 simple_invD(1) [OF s0(2)]] s0(3) by simp
  obtain r3 s3 where st3: "handle_request st2 (REQ_ALLOC 1 5 0x2000 0 0 ALLOC_STRATEGY_NONE) =
      Some (RESP_ALLOC r3, st2\<lparr>st_als := (st_als st2)(1 \<mapsto> set_priv (bump 1 ?al) (Simple_Priv s3))\<rparr>)"
    "intel_allocator_simple_alloc s0 5 0x2000 (max 0x1000 0) 0 ALLOC_STRATEGY_NONE = Some (r3, s3)"
    using alloc_request [OF st2(2), of 1 1 "bump 1 ?al" s0 5 "0x2000" 0 0 ALLOC_STRATEGY_NONE] st2(3,4) s0(3) c0
    by auto
  let ?al3 = "set_priv (bump 1 ?al) (Simple_Priv s3)" and ?st3 = "st2\<lparr>st_als := [1 \<mapsto> set_priv (bump 1 ?al) (Simple_Priv s3)]\<rparr>"
  have inv3: "service_inv ?st3"
  proof -
    have "service_bounded (1 + 1) st2"
      using handle_request_inv [OF st1(2,3) _ _ st2(1)] by (simp add: req_ok_def example_open_def)
    from handle_request_inv [OF st2(2) this _ _ st3(1)] show ?thesis by (simp add: req_ok_def st2(4))
  qed
  from simple_alloc_new [OF s0(2), of 5 "0x2000" "max 0x1000 0" 0 ALLOC_STRATEGY_NONE] st3(2) s0(3) c0
  have o3: "object_of s3 6 = None" "size (map_contents (simple_objects s3)) \<le> 1" by (auto split: if_splits)
  have h3: "handle_al ?st3 2 = Some 1" "st_als ?st3 1 = Some ?al3"
  proof -
    have "handle_al ?st3 = handle_al st2" by (simp add: handle_al_def fun_eq_iff)
    then show "handle_al ?st3 2 = Some 1" by (simp add: st2(3))
  qed simp
  obtain r4 s4 where st4: "handle_request ?st3 (REQ_ALLOC 2 6 0x1000 0x1000 0 ALLOC_STRATEGY_LOW_TO_HIGH) =
      Some (RESP_ALLOC r4, ?st3\<lparr>st_als := (st_als ?st3)(1 \<mapsto> set_priv ?al3 (Simple_Priv s4))\<rparr>)"
    using alloc_request [OF inv3 h3, of s3 6 "0x1000" "0x1000" 0 ALLOC_STRATEGY_LOW_TO_HIGH] o3
    by (auto simp: set_priv_def)
  let ?st4 = "?st3\<lparr>st_als := (st_als ?st3)(1 \<mapsto> set_priv ?al3 (Simple_Priv s4))\<rparr>"
  have run: "\<exists>resps. allocator_thread_loop init_state example_reqs = Some (resps, ?st4)"
    using st1(1) st2(1) st3(1) st4 by (simp add: example_reqs_def st2(4)) (simp add: example_open_def)
  then have ex: "example_service = ?st4" by (auto simp: example_service_def)
  show "\<exists>resps. allocator_thread_loop init_state example_reqs = Some (resps, example_service)"
    using run by (simp add: ex)
  have "handle_al ?st4 = handle_al st2" "GET_MAP ?st4 0 = GET_MAP st2 0" by (simp_all add: handle_al_def GET_MAP_def fun_eq_iff)
  then show "\<exists>al s. handle_al example_service = [1 \<mapsto> 1, 2 \<mapsto> 1] \<and> st_als example_service = [1 \<mapsto> al] \<and>
     ial_priv (al_ial al) = Simple_Priv s \<and> ial_type (al_ial al) = INTEL_ALLOCATOR_SIMPLE \<and>
     ial_strategy (al_ial al) = ALLOC_STRATEGY_HIGH_TO_LOW \<and> ial_default_alignment (al_ial al) = 0x1000 \<and>
     map_abs (GET_MAP example_service 0) (key_of 3 1 0) = Some 1"
    by (intro exI [of _ "set_priv ?al3 (Simple_Priv s4)"] exI [of _ s4]) (simp add: ex st2(3-5), simp add: set_priv_def bump_def)
qed

subsection \<open>Properties\<close>

lemma example_reqs_ok: "length example_reqs = 4" "length example_reqs \<le> 2 ^ 16" "\<forall>r \<in> set example_reqs. req_ok r"
  by (simp_all add: example_reqs_def req_ok_def example_open_def)

lemma example_service_inv: "service_inv example_service" "service_bounded 4 example_service"
  using example_service(1) loop_from_init [OF example_reqs_ok(2,3)] unfolding example_reqs_ok(1) by blast+

text \<open>C2: After any sequence of up to \<open>2 ^ 16\<close> requests served from a fresh service, every handle leads to a
  live instance, every live instance is held by at least one handle, and both of its reference counts are
  the number of handles that lead to it.\<close>

theorem service_refcounts:
  assumes "length reqs \<le> 2 ^ 16" "\<forall>r \<in> set reqs. req_ok r"
    and "allocator_thread_loop init_state reqs = Some (resps, st)"
  shows "(\<forall>h a. handle_al st h = Some a \<longrightarrow> st_als st a \<noteq> None) \<and>
    (\<forall>a al. st_als st a = Some al \<longrightarrow> {h. handle_al st h = Some a} \<noteq> {} \<and>
       al_refcount al = int (card {h. handle_al st h = Some a}) \<and>
       ial_refcount (al_ial al) = int (card {h. handle_al st h = Some a}))"
proof -
  note inv = loop_from_init(1) [OF assms]
  have "{h. handle_al st h = Some a} \<noteq> {}" if "0 < refs st a" for a
    using that refs_card [OF inv, of a] by (metis card.empty less_irrefl)
  then show ?thesis
    using handle_al_live [OF inv] service_invD(5) [OF inv] refs_card [OF inv] by (fastforce simp: al_ok_def)
qed

theorem service_refcounts_witness:
  "\<exists>al. st_als example_service 1 = Some al \<and> al_refcount al = 2"
proof -
  obtain resps al s where e: "allocator_thread_loop init_state example_reqs = Some (resps, example_service)"
    "handle_al example_service = [1 \<mapsto> 1, 2 \<mapsto> 1]" "st_als example_service 1 = Some al" using example_service by auto
  have "{h. handle_al example_service h = Some 1} = {1, 2}" by (auto simp: e(2) split: if_splits)
  then have "card {h. handle_al example_service h = Some 1} = 2" by simp
  with service_refcounts [OF example_reqs_ok(2,3) e(1)] e(3) show ?thesis by auto
qed

text \<open>C1: The objects and reserved areas of a SIMPLE instance never overlap each other or its free space and lie
  in the range of the instance, after any sequence of at most \<open>2 ^ 16\<close> requests of any clients that the
  service answered, when every open among them names an end address.\<close>

theorem service_objects_never_overlap:
  assumes "length reqs \<le> 2 ^ 16" "\<forall>r \<in> set reqs. req_ok r"
    and "allocator_thread_loop init_state reqs = Some (resps, st)"
    and "handle_al st h = Some a" "st_als st a = Some al" "ial_priv (al_ial al) = Simple_Priv s"
  shows "(\<forall>o1 o2 r1 r2. object_of s o1 = Some r1 \<and> object_of s o2 = Some r2 \<and> o1 \<noteq> o2 \<longrightarrow>
      rec_span r1 \<inter> rec_span r2 = {}) \<and>
    (\<forall>o1 a2 r1 r2. object_of s o1 = Some r1 \<and> area_of s a2 = Some r2 \<longrightarrow> rec_span r1 \<inter> rec_span r2 = {}) \<and>
    (\<forall>a1 a2 r1 r2. area_of s a1 = Some r1 \<and> area_of s a2 = Some r2 \<and> a1 \<noteq> a2 \<longrightarrow>
      rec_span r1 \<inter> rec_span r2 = {}) \<and>
    (\<forall>r. (\<exists>ob. object_of s ob = Some r) \<or> (\<exists>ar. area_of s ar = Some r) \<longrightarrow>
      rec_span r \<subseteq> {unat (simple_start s)..<unat (simple_end s)} \<and> rec_span r \<inter> free_space s = {})"
proof -
  have inv: "simple_inv s"
    using service_invD(5) [OF loop_from_init(1) [OF assms(1-3)] assms(5)] assms(6) by (simp add: al_ok_def)
  have "rec_span r \<subseteq> {unat (simple_start s)..<unat (simple_end s)} \<and> rec_span r \<inter> free_space s = {}"
    if "(\<exists>ob. object_of s ob = Some r) \<or> (\<exists>ar. area_of s ar = Some r)" for r
  proof -
    have b: "r \<in># blocks s" using object_block [OF inv] area_block [OF inv] that by blast
    show ?thesis using block_bounds [OF inv b] block_not_free [OF inv b] by (auto simp: rec_span_def)
  qed
  with objects_disjoint [OF inv] object_area_disjoint [OF inv] areas_disjoint [OF inv] show ?thesis by blast
qed

theorem service_objects_never_overlap_witness:
  "\<exists>al s. st_als example_service 1 = Some al \<and> ial_priv (al_ial al) = Simple_Priv s \<and>
    (\<forall>r1 r2. object_of s 5 = Some r1 \<and> object_of s 6 = Some r2 \<longrightarrow> rec_span r1 \<inter> rec_span r2 = {})"
proof -
  obtain resps al s where e: "allocator_thread_loop init_state example_reqs = Some (resps, example_service)"
    "handle_al example_service 1 = Some 1" "st_als example_service 1 = Some al" "ial_priv (al_ial al) = Simple_Priv s"
    using example_service by auto
  have "(5 :: u32) \<noteq> 6" by simp
  with service_objects_never_overlap [OF example_reqs_ok(2,3) e, THEN conjunct1] e(3,4) show ?thesis by blast
qed

text \<open>C4: Every open that is answered hands out a new handle, the next one of the counter, which moves on.
  When an instance is open for the file descriptor and context (or VM), the open shares it and increments
  its counts, if it asks for the same type, strategy and alignment, and is stopped by an assertion
  otherwise; when there is none, it makes an instance of its own, with one reference, the parameters it asks
  for and no object allocated, and is stopped only when the allocator cannot be created. No other instance
  and no other handle changes. The end address is not 0, and fewer than
  \<open>2 ^ 16\<close> requests were served before.\<close>

theorem service_open_shares_instance:
  assumes "service_inv st" "service_bounded n st" "n < 2 ^ 16" "end_addr \<noteq> 0"
  defines "h \<equiv> st_next_handle st" and "new \<equiv> st_next_al st"
  shows "case map_abs (GET_MAP st vm) (key_of fd ctx vm) of
      Some a \<Rightarrow> \<exists>al. st_als st a = Some al \<and>
       (if ial_type (al_ial al) = ty \<and> ial_strategy (al_ial al) = strategy \<and> ial_default_alignment (al_ial al) = alignment
        then \<exists>st'. handle_request st (REQ_OPEN fd ctx vm start end_addr ty strategy alignment) = Some (RESP_OPEN h, st') \<and>
          service_inv st' \<and> service_bounded (n + 1) st' \<and> st_next_handle st' = h + 1 \<and>
          handle_al st h = None \<and> handle_al st' = (handle_al st)(h \<mapsto> a) \<and> st_als st' = (st_als st)(a \<mapsto> bump 1 al) \<and>
          (\<forall>vm k. map_abs (GET_MAP st' vm) k = map_abs (GET_MAP st vm) k)
        else handle_request st (REQ_OPEN fd ctx vm start end_addr ty strategy alignment) = None)
    | None \<Rightarrow> (case intel_allocator_create (of_nat new) fd start end_addr ty strategy alignment of
        None \<Rightarrow> handle_request st (REQ_OPEN fd ctx vm start end_addr ty strategy alignment) = None
      | Some ial \<Rightarrow> \<exists>st'. handle_request st (REQ_OPEN fd ctx vm start end_addr ty strategy alignment) = Some (RESP_OPEN h, st') \<and>
          service_inv st' \<and> service_bounded (n + 1) st' \<and> st_next_handle st' = h + 1 \<and>
          handle_al st h = None \<and> handle_al st' = (handle_al st)(h \<mapsto> new) \<and> st_als st new = None \<and>
          st_als st' = (st_als st)(new \<mapsto> \<lparr>al_fd = fd, al_ctx = ctx, al_vm = vm, al_refcount = 1,
            al_ial = ial\<lparr>ial_refcount := 1\<rparr>\<rparr>) \<and>
          ial_type ial = ty \<and> ial_strategy ial = strategy \<and> ial_default_alignment ial = alignment \<and>
          ial_record_of (ial_priv ial) = (\<lambda>_. None) \<and> map_abs (GET_MAP st' vm) (key_of fd ctx vm) = Some new)"
proof (cases "map_abs (GET_MAP st vm) (key_of fd ctx vm)")
  case None
  show ?thesis
  proof (cases "intel_allocator_create (of_nat new) fd start end_addr ty strategy alignment")
    case (Some ial)
    note p = allocator_create_priv [OF Some assms(4)]
    have b: "bump 1 \<lparr>al_fd = fd, al_ctx = ctx, al_vm = vm, al_refcount = 0, al_ial = ial\<rparr> =
        \<lparr>al_fd = fd, al_ctx = ctx, al_vm = vm, al_refcount = 1, al_ial = ial\<lparr>ial_refcount := 1\<rparr>\<rparr>"
      using p(5) by (simp add: bump_def)
    from open_new [OF assms(1-3) None assms(4), of start ty strategy alignment] p(2-4,7)
      handle_al_next [OF assms(1)] al_next_free [OF assms(1)] None Some show ?thesis
      by (auto simp: h_def new_def handle_request_def b)
  qed (use open_new [OF assms(1-3) None assms(4), of start ty strategy alignment] None in
      \<open>auto simp: new_def handle_request_def\<close>)
next
  case (Some a)
  obtain al where al: "st_als st a = Some al"
    using open_existing [OF assms(1-3) Some, of ty strategy alignment start end_addr] by blast
  with open_existing [OF assms(1-3) Some, of ty strategy alignment start end_addr] handle_al_next [OF assms(1)] Some
  show ?thesis
    by (cases "ial_type (al_ial al) = ty \<and> ial_strategy (al_ial al) = strategy \<and> ial_default_alignment (al_ial al) = alignment")
      (auto simp: h_def handle_request_def)
qed

theorem service_open_shares_instance_witness:
  "\<exists>st'. handle_request example_service example_open = Some (RESP_OPEN (st_next_handle example_service), st') \<and>
    handle_al st' (st_next_handle example_service) = Some 1"
proof -
  obtain al where e: "st_als example_service 1 = Some al" "ial_type (al_ial al) = INTEL_ALLOCATOR_SIMPLE"
    "ial_strategy (al_ial al) = ALLOC_STRATEGY_HIGH_TO_LOW" "ial_default_alignment (al_ial al) = 0x1000"
    "map_abs (GET_MAP example_service 0) (key_of 3 1 0) = Some 1" using example_service(2) by auto
  from service_open_shares_instance [OF example_service_inv, where end_addr = "0x100000" and vm = 0 and fd = 3
      and ctx = 1 and ty = INTEL_ALLOCATOR_SIMPLE and strategy = ALLOC_STRATEGY_HIGH_TO_LOW and alignment = "0x1000"
      and start = "0x40000"] e
  show ?thesis by (auto simp: example_open_def)
qed

text \<open>C3: Closing a handle never fails: an unknown handle is answered with false and nothing changes; otherwise
  that handle alone is gone, the instance goes with its last handle and only then, and the answer is true
  exactly when the last handle was closed on an instance with nothing allocated.\<close>

theorem service_close:
  assumes "service_inv st" "service_bounded n st"
  shows "\<exists>resp st'. handle_request st (REQ_CLOSE h) = Some (resp, st') \<and> service_inv st' \<and>
    handle_al st' = (handle_al st)(h := None) \<and>
    (case handle_al st h of
       None \<Rightarrow> resp = RESP_CLOSE False \<and> st' = st
     | Some a \<Rightarrow> (\<exists>al. st_als st a = Some al \<and>
         (if {h'. handle_al st h' = Some a} = {h}
          then resp = RESP_CLOSE (ial_is_empty (ial_priv (al_ial al))) \<and> st_als st' = (st_als st)(a := None)
          else resp = RESP_CLOSE False \<and> st_als st' = (st_als st)(a \<mapsto> bump (- 1) al))))"
proof (cases "handle_al st h")
  case None
  then show ?thesis using assms find_by_handle [OF assms(1), of h] by (simp add: handle_request_def fun_upd_idem)
next
  case (Some a)
  obtain al where al: "st_als st a = Some al" using handle_al_live [OF assms(1) Some] by blast
  have one: "refs st a = 1 \<longleftrightarrow> {h'. handle_al st h' = Some a} = {h}"
  proof -
    have "h \<in> {h'. handle_al st h' = Some a}" using Some by simp
    then show ?thesis unfolding refs_card [OF assms(1)] by (metis card_1_singletonE is_singletonI is_singleton_altdef singletonD)
  qed
  from close_correct [OF assms(1) Some al assms(2)] obtain st' where
    "allocator_close st h = Some (refs st a = 1 \<and> ial_is_empty (ial_priv (al_ial al)), st')" "service_inv st'"
    "handle_al st' = (handle_al st)(h := None)"
    "st_als st' = (if refs st a = 1 then (st_als st)(a := None) else (st_als st)(a \<mapsto> bump (- 1) al))" by blast
  then show ?thesis using Some al find_by_handle [OF assms(1), of h]
    by (cases "{h'. handle_al st h' = Some a} = {h}") (simp_all add: handle_request_def one [unfolded One_nat_def])
qed

theorem service_close_witness:
  "\<exists>st'. handle_request example_service (REQ_CLOSE 1) = Some (RESP_CLOSE False, st') \<and>
    handle_al st' = [2 \<mapsto> 1]"
proof -
  obtain al where e: "handle_al example_service = [1 \<mapsto> 1, 2 \<mapsto> 1]" using example_service(2) by auto
  have "{h'. handle_al example_service h' = Some 1} \<noteq> {1}"
  proof
    assume "{h'. handle_al example_service h' = Some 1} = {1}"
    moreover have "2 \<in> {h'. handle_al example_service h' = Some 1}" by (simp add: e)
    ultimately show False by simp
  qed
  moreover have "(handle_al example_service)(1 := None) = [2 \<mapsto> 1]" by (auto simp: e)
  ultimately show ?thesis using service_close [OF example_service_inv, of 1]
    by (auto simp: e split: if_splits)
qed

text \<open>Re-initialising the service over a previous state closes every handle, which destroys every instance,
  and starts numbering handles from 1 again; nothing of the old state survives.\<close>

theorem service_init_drops_everything:
  assumes "service_inv st" "service_bounded n st"
  shows "\<exists>st'. intel_allocator_init (Some st) = Some st' \<and> service_inv st' \<and> service_bounded 0 st' \<and>
    handle_al st' = (\<lambda>_. None) \<and> st_als st' = (\<lambda>_. None) \<and> st_next_handle st' = 1"
  by (rule init_correct [OF assms])

theorem service_init_drops_everything_witness:
  "\<exists>st'. intel_allocator_init (Some example_service) = Some st' \<and> st_als st' = (\<lambda>_. None)"
  using service_init_drops_everything [OF example_service_inv] by blast

end
