(* ===== verification/Xe_Vm_Bind.thy ===== *)
theory Xe_Vm_Bind
  imports Igt_Macros
begin

text \<open>
  Binding objects to a GPU address space with the Xe driver: the wrappers of the VM bind ioctl in
  \<^verbatim>\<open>lib/xe/xe_ioctl.c\<close> and the batched \<^verbatim>\<open>xe_bind_unbind_async\<close> of \<^verbatim>\<open>lib/xe/xe_util.c\<close>.

  The driver is a parameter: \<open>xe_env\<close> answers every call from the calls made before it. A function
  takes the trace of the calls made so far and returns it extended; \<open>None\<close> is a failed
  \<open>igt_assert\<close>. The list of synchronisation objects and the array of operations, which the code
  passes by address and count, are HOL lists.
\<close>

subsection \<open>Calls to the driver\<close>

type_synonym u16 = "16 word"

definition DRM_XE_VM_BIND_OP_MAP :: u32 where "DRM_XE_VM_BIND_OP_MAP = 0"
definition DRM_XE_VM_BIND_OP_UNMAP :: u32 where "DRM_XE_VM_BIND_OP_UNMAP = 1"
definition DRM_XE_VM_BIND_OP_MAP_USERPTR :: u32 where "DRM_XE_VM_BIND_OP_MAP_USERPTR = 2"
definition DRM_XE_VM_BIND_OP_UNMAP_ALL :: u32 where "DRM_XE_VM_BIND_OP_UNMAP_ALL = 3"
definition DRM_XE_VM_BIND_OP_PREFETCH :: u32 where "DRM_XE_VM_BIND_OP_PREFETCH = 4"

text \<open>\<open>struct drm_xe_vm_bind_op\<close> without its padding; \<open>op_obj_offset\<close> is also the user pointer.\<close>

record drm_xe_vm_bind_op =
  op_obj :: u32
  op_pat_index :: u16
  op_obj_offset :: u64
  op_range :: u64
  op_addr :: u64
  op_op :: u32
  op_flags :: u32
  op_prefetch_mem_region_instance :: u32

text \<open>\<open>struct drm_xe_sync\<close> of type \<open>DRM_XE_SYNC_TYPE_SYNCOBJ\<close>: the handle, and whether
  \<open>DRM_XE_SYNC_FLAG_SIGNAL\<close> is set.\<close>

record drm_xe_sync =
  sync_handle :: u32
  sync_signal :: bool

text \<open>\<open>struct drm_xe_vm_bind\<close>\<close>

record drm_xe_vm_bind =
  bind_extensions :: u64
  bind_vm_id :: u32
  bind_exec_queue_id :: u32
  bind_ops :: "drm_xe_vm_bind_op list"
  bind_syncs :: "drm_xe_sync list"

datatype drm_call =
  XE_VM_BIND drm_xe_vm_bind
| SYNCOBJ_CREATE | SYNCOBJ_SIGNAL u32 | SYNCOBJ_WAIT u32 | SYNCOBJ_DESTROY u32

text \<open>The driver: the result of a call (zero for success) and the handle of a new syncobj, from the
  calls before it, and the write-back PAT index of the platform.\<close>

record xe_env =
  env_ioctl :: "drm_call list \<Rightarrow> drm_call \<Rightarrow> int"
  env_syncobj_create :: "drm_call list \<Rightarrow> u32"
  env_pat_idx_wb :: u8

definition DEFAULT_PAT_INDEX :: u8 where
  "DEFAULT_PAT_INDEX = - 1"

text \<open>A call that is asserted to succeed.\<close>

definition issue :: "xe_env \<Rightarrow> drm_call \<Rightarrow> drm_call list \<Rightarrow> drm_call list option" where
  "issue env c tr = do { igt_assert (env_ioctl env tr c = 0); Some (tr @ [c]) }"

definition syncobj_create :: "xe_env \<Rightarrow> drm_call list \<Rightarrow> (u32 \<times> drm_call list) option" where
  "syncobj_create env tr = do {
     tr' \<leftarrow> issue env SYNCOBJ_CREATE tr;
     Some (env_syncobj_create env tr, tr')
   }"

subsection \<open>The ioctl wrappers\<close>

definition xe_vm_bind_array ::
  "xe_env \<Rightarrow> u32 \<Rightarrow> u32 \<Rightarrow> drm_xe_vm_bind_op list \<Rightarrow> drm_xe_sync list \<Rightarrow> drm_call list \<Rightarrow> drm_call list option" where
  "xe_vm_bind_array env vm exec_queue ops syncs tr = do {
     igt_assert (length ops > 1);
     issue env (XE_VM_BIND \<lparr>bind_extensions = 0, bind_vm_id = vm, bind_exec_queue_id = exec_queue,
       bind_ops = ops, bind_syncs = syncs\<rparr>) tr
   }"

text \<open>\<open>__xe_vm_bind\<close> and the version that asserts success. The request as a definition of its own.\<close>

definition vm_bind_request ::
  "xe_env \<Rightarrow> u32 \<Rightarrow> u32 \<Rightarrow> u32 \<Rightarrow> u64 \<Rightarrow> u64 \<Rightarrow> u64 \<Rightarrow> u32 \<Rightarrow> u32 \<Rightarrow> drm_xe_sync list \<Rightarrow> u32 \<Rightarrow> u8 \<Rightarrow> u64 \<Rightarrow>
   drm_xe_vm_bind" where
  "vm_bind_request env vm exec_queue bo offset addr sz op flags syncs prefetch_region pat_index ext =
     \<lparr>bind_extensions = ext, bind_vm_id = vm, bind_exec_queue_id = exec_queue,
      bind_ops = [\<lparr>op_obj = bo,
        op_pat_index = ucast (if pat_index = DEFAULT_PAT_INDEX then env_pat_idx_wb env else pat_index),
        op_obj_offset = offset, op_range = sz, op_addr = addr, op_op = op, op_flags = flags,
        op_prefetch_mem_region_instance = prefetch_region\<rparr>],
      bind_syncs = syncs\<rparr>"

definition xe_vm_bind ::
  "xe_env \<Rightarrow> u32 \<Rightarrow> u32 \<Rightarrow> u32 \<Rightarrow> u64 \<Rightarrow> u64 \<Rightarrow> u64 \<Rightarrow> u32 \<Rightarrow> u32 \<Rightarrow> drm_xe_sync list \<Rightarrow> u32 \<Rightarrow> u8 \<Rightarrow> u64 \<Rightarrow>
   drm_call list \<Rightarrow> int \<times> drm_call list" where
  "xe_vm_bind env vm exec_queue bo offset addr sz op flags syncs prefetch_region pat_index ext tr =
     (let c = XE_VM_BIND (vm_bind_request env vm exec_queue bo offset addr sz op flags syncs prefetch_region pat_index ext)
      in (if env_ioctl env tr c \<noteq> 0 then - env_ioctl env tr c else 0, tr @ [c]))"

definition xe_vm_bind_assert ::
  "xe_env \<Rightarrow> u32 \<Rightarrow> u32 \<Rightarrow> u32 \<Rightarrow> u64 \<Rightarrow> u64 \<Rightarrow> u64 \<Rightarrow> u32 \<Rightarrow> u32 \<Rightarrow> drm_xe_sync list \<Rightarrow> u32 \<Rightarrow> u64 \<Rightarrow>
   drm_call list \<Rightarrow> drm_call list option" where
  "xe_vm_bind_assert env vm exec_queue bo offset addr sz op flags syncs prefetch_region ext tr =
     (case xe_vm_bind env vm exec_queue bo offset addr sz op flags syncs prefetch_region DEFAULT_PAT_INDEX ext tr of
        (r, tr) \<Rightarrow> do { igt_assert (r = 0); Some tr })"

definition xe_vm_unbind_all_async ::
  "xe_env \<Rightarrow> u32 \<Rightarrow> u32 \<Rightarrow> u32 \<Rightarrow> drm_xe_sync list \<Rightarrow> drm_call list \<Rightarrow> drm_call list option" where
  "xe_vm_unbind_all_async env vm exec_queue bo syncs =
     xe_vm_bind_assert env vm exec_queue bo 0 0 0 DRM_XE_VM_BIND_OP_UNMAP_ALL 0 syncs 0 0"

definition xe_vm_prefetch_async ::
  "xe_env \<Rightarrow> u32 \<Rightarrow> u32 \<Rightarrow> u64 \<Rightarrow> u64 \<Rightarrow> u64 \<Rightarrow> drm_xe_sync list \<Rightarrow> u32 \<Rightarrow> drm_call list \<Rightarrow> drm_call list option" where
  "xe_vm_prefetch_async env vm exec_queue offset addr sz syncs region =
     xe_vm_bind_assert env vm exec_queue 0 offset addr sz DRM_XE_VM_BIND_OP_PREFETCH 0 syncs region 0"

definition xe_vm_bind_async ::
  "xe_env \<Rightarrow> u32 \<Rightarrow> u32 \<Rightarrow> u32 \<Rightarrow> u64 \<Rightarrow> u64 \<Rightarrow> u64 \<Rightarrow> drm_xe_sync list \<Rightarrow> drm_call list \<Rightarrow> drm_call list option" where
  "xe_vm_bind_async env vm exec_queue bo offset addr sz syncs =
     xe_vm_bind_assert env vm exec_queue bo offset addr sz DRM_XE_VM_BIND_OP_MAP 0 syncs 0 0"

definition xe_vm_bind_async_flags ::
  "xe_env \<Rightarrow> u32 \<Rightarrow> u32 \<Rightarrow> u32 \<Rightarrow> u64 \<Rightarrow> u64 \<Rightarrow> u64 \<Rightarrow> drm_xe_sync list \<Rightarrow> u32 \<Rightarrow> drm_call list \<Rightarrow> drm_call list option" where
  "xe_vm_bind_async_flags env vm exec_queue bo offset addr sz syncs flags =
     xe_vm_bind_assert env vm exec_queue bo offset addr sz DRM_XE_VM_BIND_OP_MAP flags syncs 0 0"

definition xe_vm_bind_userptr_async ::
  "xe_env \<Rightarrow> u32 \<Rightarrow> u32 \<Rightarrow> u64 \<Rightarrow> u64 \<Rightarrow> u64 \<Rightarrow> drm_xe_sync list \<Rightarrow> drm_call list \<Rightarrow> drm_call list option" where
  "xe_vm_bind_userptr_async env vm exec_queue userptr addr sz syncs =
     xe_vm_bind_assert env vm exec_queue 0 userptr addr sz DRM_XE_VM_BIND_OP_MAP_USERPTR 0 syncs 0 0"

definition xe_vm_bind_userptr_async_flags ::
  "xe_env \<Rightarrow> u32 \<Rightarrow> u32 \<Rightarrow> u64 \<Rightarrow> u64 \<Rightarrow> u64 \<Rightarrow> drm_xe_sync list \<Rightarrow> u32 \<Rightarrow> drm_call list \<Rightarrow> drm_call list option" where
  "xe_vm_bind_userptr_async_flags env vm exec_queue userptr addr sz syncs flags =
     xe_vm_bind_assert env vm exec_queue 0 userptr addr sz DRM_XE_VM_BIND_OP_MAP_USERPTR flags syncs 0 0"

definition xe_vm_unbind_async ::
  "xe_env \<Rightarrow> u32 \<Rightarrow> u32 \<Rightarrow> u64 \<Rightarrow> u64 \<Rightarrow> u64 \<Rightarrow> drm_xe_sync list \<Rightarrow> drm_call list \<Rightarrow> drm_call list option" where
  "xe_vm_unbind_async env vm exec_queue offset addr sz syncs =
     xe_vm_bind_assert env vm exec_queue 0 offset addr sz DRM_XE_VM_BIND_OP_UNMAP 0 syncs 0 0"

text \<open>\<open>__xe_vm_bind_sync\<close>, with the two functions built on it.\<close>

definition xe_vm_bind_sync_op ::
  "xe_env \<Rightarrow> u32 \<Rightarrow> u32 \<Rightarrow> u64 \<Rightarrow> u64 \<Rightarrow> u64 \<Rightarrow> u32 \<Rightarrow> drm_call list \<Rightarrow> drm_call list option" where
  "xe_vm_bind_sync_op env vm bo offset addr sz op tr = do {
     (h, tr) \<leftarrow> syncobj_create env tr;
     tr \<leftarrow> xe_vm_bind_assert env vm 0 bo offset addr sz op 0 [\<lparr>sync_handle = h, sync_signal = True\<rparr>] 0 0 tr;
     tr \<leftarrow> issue env (SYNCOBJ_WAIT h) tr;
     issue env (SYNCOBJ_DESTROY h) tr
   }"

definition xe_vm_bind_sync ::
  "xe_env \<Rightarrow> u32 \<Rightarrow> u32 \<Rightarrow> u64 \<Rightarrow> u64 \<Rightarrow> u64 \<Rightarrow> drm_call list \<Rightarrow> drm_call list option" where
  "xe_vm_bind_sync env vm bo offset addr sz = xe_vm_bind_sync_op env vm bo offset addr sz DRM_XE_VM_BIND_OP_MAP"

definition xe_vm_unbind_sync ::
  "xe_env \<Rightarrow> u32 \<Rightarrow> u64 \<Rightarrow> u64 \<Rightarrow> u64 \<Rightarrow> drm_call list \<Rightarrow> drm_call list option" where
  "xe_vm_unbind_sync env vm offset addr sz = xe_vm_bind_sync_op env vm 0 offset addr sz DRM_XE_VM_BIND_OP_UNMAP"

subsection \<open>Batched bind and unbind\<close>

datatype xe_bind_op = XE_OBJECT_BIND | XE_OBJECT_UNBIND

record xe_object =
  xo_handle :: u32
  xo_offset :: u64
  xo_size :: u64
  xo_pat_index :: u8
  xo_bind_op :: xe_bind_op

text \<open>\<open>xe_alloc_bind_ops\<close>: one operation per object; an unbind keeps the zero object that \<open>calloc\<close>
  gave it.\<close>

definition xe_bind_op_of :: "xe_env \<Rightarrow> xe_object \<Rightarrow> drm_xe_vm_bind_op" where
  "xe_bind_op_of env obj =
     \<lparr>op_obj = (case xo_bind_op obj of XE_OBJECT_BIND \<Rightarrow> xo_handle obj | XE_OBJECT_UNBIND \<Rightarrow> 0),
      op_pat_index = ucast (if xo_pat_index obj = DEFAULT_PAT_INDEX then env_pat_idx_wb env else xo_pat_index obj),
      op_obj_offset = 0, op_range = ALIGN (xo_size obj) 4096, op_addr = xo_offset obj,
      op_op = (case xo_bind_op obj of XE_OBJECT_BIND \<Rightarrow> DRM_XE_VM_BIND_OP_MAP
               | XE_OBJECT_UNBIND \<Rightarrow> DRM_XE_VM_BIND_OP_UNMAP),
      op_flags = 0, op_prefetch_mem_region_instance = 0\<rparr>"

definition xe_alloc_bind_ops :: "xe_env \<Rightarrow> xe_object list \<Rightarrow> drm_xe_vm_bind_op list" where
  "xe_alloc_bind_ops env obj_list = map (xe_bind_op_of env) obj_list"

definition xe_bind_unbind_async ::
  "xe_env \<Rightarrow> u32 \<Rightarrow> u32 \<Rightarrow> xe_object list \<Rightarrow> u32 \<Rightarrow> u32 \<Rightarrow> drm_call list \<Rightarrow> drm_call list option" where
  "xe_bind_unbind_async env vm bind_engine obj_list sync_in sync_out tr =
     (let ops = xe_alloc_bind_ops env obj_list
      in if ops = [] then (if sync_out \<noteq> 0 then issue env (SYNCOBJ_SIGNAL sync_out) tr else Some tr)
         else do {
           (out, tr) \<leftarrow> (if sync_out = 0 then syncobj_create env tr else Some (sync_out, tr));
           let tabsyncs = [\<lparr>sync_handle = sync_in, sync_signal = False\<rparr>, \<lparr>sync_handle = out, sync_signal = True\<rparr>];
           let syncs = (if sync_in \<noteq> 0 then tabsyncs else drop 1 tabsyncs);
           tr \<leftarrow> (if length ops = 1 then
                    (let op = ops ! 0
                     in if op_op op AND 0xffff = DRM_XE_VM_BIND_OP_MAP
                        then xe_vm_bind_async env vm bind_engine (op_obj op) 0 (op_addr op) (op_range op) syncs tr
                        else xe_vm_unbind_async env vm bind_engine 0 (op_addr op) (op_range op) syncs tr)
                  else xe_vm_bind_array env vm bind_engine ops syncs tr);
           if sync_out = 0 then do {
             tr \<leftarrow> issue env (SYNCOBJ_WAIT out) tr;
             issue env (SYNCOBJ_DESTROY out) tr
           } else Some tr
         })"

end
