(* ===== verification/Bind_Tracking.thy ===== *)
theory Bind_Tracking
  imports Igt_Map_Correct Allocator_Backend Xe_Vm_Bind
begin

text \<open>
  The bookkeeping in \<^verbatim>\<open>lib/intel_allocator.c\<close> of what has to be bound to and unbound from a VM: every open
  allocator handle has a \<open>struct ahnd_info\<close> with a map from object handles to
  \<open>struct allocator_object\<close>. \<open>track_object\<close> records allocations and frees, \<open>__xe_op_bind\<close> turns
  what is pending into one batch for \<open>xe_bind_unbind_async\<close>.

  An \<open>ahnd_info\<close> or an \<open>allocator_object\<close> is pointed to by exactly one map entry, so it is stored
  in the entry by value, and a write through the pointer is \<open>map_modify\<close>.
\<close>

subsection \<open>Data\<close>

datatype allocator_bind_op = BOUND | TO_BIND | TO_UNBIND

record allocator_object =
  obj_handle :: u32
  obj_offset :: u64
  obj_size :: u64
  obj_pat_index :: u8
  obj_bind_op :: allocator_bind_op

datatype intel_driver = INTEL_DRIVER_I915 | INTEL_DRIVER_XE

record ahnd_info =
  ai_fd :: u32
  ai_ahnd :: u64
  ai_vm :: u32
  ai_driver :: intel_driver
  ai_bind_map :: "(u32, allocator_object) igt_map"

type_synonym ahnd_map = "(u64, ahnd_info) igt_map"

text \<open>The slot of an entry with new data, and a write through the data pointer of the entry of a key.\<close>

fun set_data :: "'v \<Rightarrow> ('k, 'v) igt_map_entry \<Rightarrow> ('k, 'v) igt_map_entry" where
  "set_data v (Present_Entry h k _) = Present_Entry h k v"
| "set_data v e = e"

definition set_data_at :: "('k, 'v) igt_map \<Rightarrow> nat \<Rightarrow> 'v \<Rightarrow> ('k, 'v) igt_map" where
  "set_data_at m i v = m\<lparr>map_table := (map_table m)[i := set_data v (map_table m ! i)]\<rparr>"

definition map_modify :: "('k, 'v) igt_map \<Rightarrow> 'k \<Rightarrow> ('v \<Rightarrow> 'v) \<Rightarrow> ('k, 'v) igt_map option" where
  "map_modify m key f = do {
     i \<leftarrow> igt_map_search_entry m key;
     i \<leftarrow> i;
     v \<leftarrow> entry_data (map_table m ! i);
     Some (set_data_at m i (f v))
   }"

subsection \<open>Operations\<close>

text \<open>\<open>track_ahnd\<close>; \<open>driver\<close> is \<open>get_intel_driver(fd)\<close>.\<close>

definition track_ahnd :: "intel_driver \<Rightarrow> ahnd_map \<Rightarrow> u32 \<Rightarrow> u64 \<Rightarrow> u32 \<Rightarrow> ahnd_map option" where
  "track_ahnd driver ahnd_map fd ahnd vm = do {
     ainfo \<leftarrow> igt_map_search ahnd_map ahnd;
     (case ainfo of
        None \<Rightarrow> map_put ahnd_map ahnd \<lparr>ai_fd = fd, ai_ahnd = ahnd, ai_vm = vm, ai_driver = driver,
          ai_bind_map = igt_map_create igt_map_hash_32 igt_map_equal_32\<rparr>
      | Some _ \<Rightarrow> Some ahnd_map)
   }"

definition untrack_ahnd :: "ahnd_map \<Rightarrow> u64 \<Rightarrow> ahnd_map option" where
  "untrack_ahnd ahnd_map ahnd = do {
     ainfo \<leftarrow> igt_map_search ahnd_map ahnd;
     (case ainfo of
        Some _ \<Rightarrow> do { (ahnd_map, _) \<leftarrow> igt_map_remove ahnd_map ahnd True; Some ahnd_map }
      | None \<Rightarrow> Some ahnd_map)
   }"

definition is_same ::
  "allocator_object \<Rightarrow> u32 \<Rightarrow> u64 \<Rightarrow> u64 \<Rightarrow> u8 \<Rightarrow> allocator_bind_op \<Rightarrow> bool" where
  "is_same obj handle offset sz pat_index bind_op \<longleftrightarrow>
     obj_handle obj = handle \<and> obj_offset obj = offset \<and> obj_size obj = sz \<and>
     obj_pat_index obj = pat_index \<and> (obj_bind_op obj = bind_op \<or> obj_bind_op obj = BOUND)"

text \<open>The part of \<open>track_object\<close> that works on \<open>ainfo->bind_map\<close>.\<close>

definition track_in_bind_map ::
  "(u32, allocator_object) igt_map \<Rightarrow> u32 \<Rightarrow> u64 \<Rightarrow> u64 \<Rightarrow> u8 \<Rightarrow> allocator_bind_op \<Rightarrow>
   (u32, allocator_object) igt_map option" where
  "track_in_bind_map bind_map handle offset sz pat_index bind_op = do {
     obj \<leftarrow> igt_map_search bind_map handle;
     (case obj of
        Some obj \<Rightarrow>
          (if bind_op = TO_BIND then do {
             igt_assert (is_same obj handle offset sz pat_index bind_op = True);
             Some bind_map
           }
           else if bind_op = TO_UNBIND then
             (if obj_bind_op obj = TO_BIND then map_option fst (igt_map_remove bind_map (obj_handle obj) True)
              else if obj_bind_op obj = BOUND then map_modify bind_map handle (\<lambda>obj. obj\<lparr>obj_bind_op := bind_op\<rparr>)
              else Some bind_map)
           else Some bind_map)
      | None \<Rightarrow>
          (if bind_op = TO_UNBIND then Some bind_map
           else map_put bind_map handle \<lparr>obj_handle = handle, obj_offset = offset, obj_size = sz,
             obj_pat_index = pat_index, obj_bind_op = bind_op\<rparr>))
   }"

definition track_object ::
  "ahnd_map \<Rightarrow> u64 \<Rightarrow> u32 \<Rightarrow> u64 \<Rightarrow> u64 \<Rightarrow> u8 \<Rightarrow> allocator_bind_op \<Rightarrow> ahnd_map option" where
  "track_object ahnd_map allocator_handle handle offset sz pat_index bind_op =
     (if offset = ALLOC_INVALID_ADDRESS then Some ahnd_map
      else do {
        ainfo \<leftarrow> igt_map_search ahnd_map allocator_handle;
        ainfo \<leftarrow> ainfo;
        if ai_driver ainfo = INTEL_DRIVER_I915 then Some ahnd_map
        else do {
          bind_map \<leftarrow> track_in_bind_map (ai_bind_map ainfo) handle offset sz pat_index bind_op;
          map_modify ahnd_map allocator_handle (\<lambda>ainfo. ainfo\<lparr>ai_bind_map := bind_map\<rparr>)
        }
      })"

text \<open>The loop of \<open>__xe_op_bind\<close>: \<open>pos\<close> is the entry visited last, \<open>obj_list\<close> the list built so
  far, to which \<open>igt_list_add\<close> adds at the front.\<close>

definition xe_object_of :: "allocator_object \<Rightarrow> xe_object" where
  "xe_object_of obj = \<lparr>xo_handle = obj_handle obj, xo_offset = obj_offset obj, xo_size = obj_size obj,
     xo_pat_index = obj_pat_index obj,
     xo_bind_op = (if obj_bind_op obj = TO_BIND then XE_OBJECT_BIND else XE_OBJECT_UNBIND)\<rparr>"

definition xe_op_step ::
  "(u32, allocator_object) igt_map \<Rightarrow> nat \<Rightarrow> allocator_object \<Rightarrow> (u32, allocator_object) igt_map option" where
  "xe_op_step m i obj =
     (if obj_bind_op obj = TO_BIND then Some (set_data_at m i (obj\<lparr>obj_bind_op := BOUND\<rparr>))
      else map_option fst (igt_map_remove m (obj_handle obj) True))"

lemma map_size_set_data_at [simp]: "map_size (set_data_at m i v) = map_size m"
  by (simp add: set_data_at_def)

lemma map_size_remove: "igt_map_remove m key d = Some (m', x) \<Longrightarrow> map_size m' = map_size m"
  by (auto simp: igt_map_remove_def igt_map_remove_entry_def split: bind_splits option.splits)

lemma map_size_xe_op_step: "xe_op_step m i obj = Some m' \<Longrightarrow> map_size m' = map_size m"
  by (auto simp: xe_op_step_def map_size_remove split: if_splits)

lemma igt_map_next_entry_None_bounds: "igt_map_next_entry m None = Some j \<Longrightarrow> j < map_size m"
  by (auto simp: igt_map_next_entry_def find_Some_iff)

function xe_op_loop ::
  "(u32, allocator_object) igt_map \<Rightarrow> nat option \<Rightarrow> xe_object list \<Rightarrow>
   (xe_object list \<times> (u32, allocator_object) igt_map) option" where
  "xe_op_loop m pos obj_list = (case igt_map_next_entry m pos of
     None \<Rightarrow> Some (obj_list, m)
   | Some i \<Rightarrow> do {
       obj \<leftarrow> entry_data (map_table m ! i);
       if obj_bind_op obj = BOUND then xe_op_loop m (Some i) obj_list
       else do {
         m' \<leftarrow> xe_op_step m i obj;
         xe_op_loop m' (Some i) (xe_object_of obj # obj_list)
       }
     })"
  by pat_completeness auto
termination
  by (relation "measure (\<lambda>(m, pos, l). map_size m - (case pos of None \<Rightarrow> 0 | Some i \<Rightarrow> Suc i))")
    (auto split: option.splits dest!: map_size_xe_op_step dest: igt_map_next_entry_bounds igt_map_next_entry_None_bounds)

declare xe_op_loop.simps [simp del]

text \<open>\<open>__xe_op_bind\<close>: the calls made and the new bind map. \<open>intel_allocator_bind\<close> looks the handle up.\<close>

definition xe_op_bind ::
  "xe_env \<Rightarrow> ahnd_info \<Rightarrow> u32 \<Rightarrow> u32 \<Rightarrow> drm_call list \<Rightarrow> ((u32, allocator_object) igt_map \<times> drm_call list) option" where
  "xe_op_bind env ainfo sync_in sync_out tr = do {
     (obj_list, m) \<leftarrow> xe_op_loop (ai_bind_map ainfo) None [];
     tr \<leftarrow> xe_bind_unbind_async env (ai_vm ainfo) 0 obj_list sync_in sync_out tr;
     Some (m, tr)
   }"

definition intel_allocator_bind ::
  "xe_env \<Rightarrow> ahnd_map \<Rightarrow> u64 \<Rightarrow> u32 \<Rightarrow> u32 \<Rightarrow> drm_call list \<Rightarrow> (ahnd_map \<times> drm_call list) option" where
  "intel_allocator_bind env ahnd_map allocator_handle sync_in sync_out tr = do {
     ainfo \<leftarrow> igt_map_search ahnd_map allocator_handle;
     ainfo \<leftarrow> ainfo;
     (bind_map, tr) \<leftarrow> xe_op_bind env ainfo sync_in sync_out tr;
     ahnd_map \<leftarrow> map_modify ahnd_map allocator_handle (\<lambda>ainfo. ainfo\<lparr>ai_bind_map := bind_map\<rparr>);
     Some (ahnd_map, tr)
   }"

subsection \<open>Writing through a data pointer\<close>

lemma set_data_at_put_entry:
  assumes "map_table m ! i = Present_Entry h k v0"
  shows "set_data_at m i v = put_entry m i h k v"
  using assms by (simp add: set_data_at_def put_entry_def)

lemma set_data_at_correct:
  assumes m: "map_of_keys hf eqf m" and i: "i < map_size m" "map_table m ! i = Present_Entry h k v0"
  shows "map_of_keys hf eqf (set_data_at m i v)" "map_items (set_data_at m i v) =
    table_items (take i (map_table m)) @ (k, v) # table_items (drop (Suc i) (map_table m))"
    "map_items m = table_items (take i (map_table m)) @ (k, v0) # table_items (drop (Suc i) (map_table m))"
proof -
  have inv: "table_inv m" "map_entries m + map_deleted_entries m \<le> map_max_entries m"
    "hash_function m = hf" "key_equals_function m = eqf"
    using m by (auto simp: map_of_keys_def map_inv_def)
  note keys = keys_okD [OF table_invD(2) [OF inv(1)]]
  have len: "length (map_table m) = map_size m" using inv(1) by (rule table_invD)
  have hash: "h = hash_function m k" by (rule table_inv_hash [OF inv(1) i])
  obtain n where n: "n < map_size m" "probe m h n = i" "\<forall>j<n. \<not> entry_is_free (slot m h j)"
    using table_inv_reach [OF inv(1) i] by blast
  have only: "\<forall>j<map_size m. \<forall>h' k' v'. map_table m ! j = Present_Entry h' k' v' \<longrightarrow>
      key_equals_function m k k' \<longrightarrow> j = i"
    using table_inv_unique [OF inv(1) _ i(1) _ i(2)] keys(2) by blast
  have "table_inv (put_entry m i h k v)"
    by (rule put_entry_inv [OF inv(1) n(1) hash n(2) [symmetric] n(3) only])
  then show "map_of_keys hf eqf (set_data_at m i v)"
    using inv i by (simp add: set_data_at_put_entry [OF i(2)] map_of_keys_def map_inv_def)
      (simp add: put_entry_def)
  show "map_items (set_data_at m i v) =
      table_items (take i (map_table m)) @ (k, v) # table_items (drop (Suc i) (map_table m))"
    using i len by (simp add: map_items_def set_data_at_def upd_conv_take_nth_drop table_items_append)
  show "map_items m = table_items (take i (map_table m)) @ (k, v0) # table_items (drop (Suc i) (map_table m))"
    using i len id_take_nth_drop [of i "map_table m"]
    by (metis map_items_def append_Cons table_items.simps(2) table_items_append)
qed

lemma map_modify_found:
  assumes keys: "keys_ok hf eqf" and m: "map_of_keys hf eqf m" and q: "map_abs m q = Some v"
  shows "\<exists>m'. map_modify m q f = Some m' \<and> map_of_keys hf eqf m' \<and>
    map_abs m' = (\<lambda>q'. if eqf q q' then Some (f v) else map_abs m q') \<and>
    (\<exists>k M. eqf q k \<and> map_contents m = add_mset (k, v) M \<and> map_contents m' = add_mset (k, f v) M)"
proof -
  note eq = keys_okD [OF keys]
  have inv: "table_inv m" and kf: "key_equals_function m = eqf" using m by (auto simp: map_of_keys_def map_inv_def)
  obtain i k where i: "igt_map_search_entry m q = Some (Some i)" "i < map_size m"
    "map_table m ! i = Present_Entry (hash_function m q) k v" "eqf q k"
  proof -
    obtain i where s: "igt_map_search_entry m q = Some (Some i)" "entry_data (map_table m ! i) = Some v"
      using search_entry_abs [OF m, of q] q by auto
    with search_entry_cases [OF inv, of q] that show thesis by (auto simp: kf)
  qed
  note set = set_data_at_correct(1,2) [OF m i(2,3), of "f v"] set_data_at_correct(3) [OF m i(2,3)]
  let ?M = "mset (table_items (take i (map_table m)) @ table_items (drop (Suc i) (map_table m)))"
  have c: "map_contents m = add_mset (k, v) ?M" "map_contents (set_data_at m i (f v)) = add_mset (k, f v) ?M"
    by (simp_all add: map_contents_def set(2,3))
  have run: "map_modify m q f = Some (set_data_at m i (f v))" by (simp add: map_modify_def i)
  have single: "k' = k \<and> w = v" if "(k', w) \<in># map_contents m" "eqf q k'" for k' w
  proof -
    have "filter_mset (\<lambda>(k', _). eqf q k') (map_contents m) = {#(k, v)#}"
      by (rule map_contents_single [OF m keys _ i(4)]) (simp add: c)
    moreover have "(k', w) \<in># filter_mset (\<lambda>(k', _). eqf q k') (map_contents m)" using that by simp
    ultimately show ?thesis by simp
  qed
  have other: "map_abs (set_data_at m i (f v)) q' = map_abs m q'" if q': "\<not> eqf q q'" for q'
  proof -
    have "\<not> eqf q' k" using q' i(4) eq(2,3) by blast
    then have "map_abs (set_data_at m i (f v)) q' = Some w \<longleftrightarrow> map_abs m q' = Some w" for w
      unfolding map_abs_Some_contents [OF set(1)] map_abs_Some_contents [OF m] c by auto
    then show ?thesis by (metis not_Some_eq)
  qed
  have "map_abs (set_data_at m i (f v)) q' = Some (f v)" if "eqf q q'" for q'
    unfolding map_abs_Some_contents [OF set(1)] c using eq(3) [OF eq(2) [OF that] i(4)] by auto
  then have "map_abs (set_data_at m i (f v)) = (\<lambda>q'. if eqf q q' then Some (f v) else map_abs m q')"
    using other by auto
  with run set(1) c i(4) show ?thesis by blast
qed

subsection \<open>Collecting the pending operations\<close>

text \<open>What happens to one entry, and the operations that go into the batch.\<close>

definition settle :: "u32 \<times> allocator_object \<Rightarrow> (u32 \<times> allocator_object) list" where
  "settle = (\<lambda>(k, obj). case obj_bind_op obj of
     BOUND \<Rightarrow> [(k, obj)] | TO_BIND \<Rightarrow> [(k, obj\<lparr>obj_bind_op := BOUND\<rparr>)] | TO_UNBIND \<Rightarrow> [])"

definition pending :: "(u32 \<times> allocator_object) list \<Rightarrow> xe_object list" where
  "pending xs = map (xe_object_of \<circ> snd) (filter (\<lambda>(k, obj). obj_bind_op obj \<noteq> BOUND) xs)"

lemma pending_simps [simp]:
  "pending [] = []"
  "pending ((k, obj) # xs) = (if obj_bind_op obj = BOUND then pending xs else xe_object_of obj # pending xs)"
  by (simp_all add: pending_def)

text \<open>The map is keyed by the handles of its objects.\<close>

definition bind_map_ok :: "(u32, allocator_object) igt_map \<Rightarrow> bool" where
  "bind_map_ok m \<longleftrightarrow> map_of_keys igt_map_hash_32 igt_map_equal_32 m \<and>
     (\<forall>(k, obj) \<in># map_contents m. k = obj_handle obj)"

lemma bind_map_okD:
  assumes "bind_map_ok m"
  shows "map_of_keys igt_map_hash_32 igt_map_equal_32 m" "(k, obj) \<in> set (map_items m) \<Longrightarrow> obj_handle obj = k"
  using assms by (auto simp: bind_map_ok_def map_contents_def)

lemma bind_map_okI:
  assumes "map_of_keys igt_map_hash_32 igt_map_equal_32 m"
    and "\<And>k obj. (k, obj) \<in> set (map_items m) \<Longrightarrow> obj_handle obj = k"
  shows "bind_map_ok m"
  using assms by (auto simp: bind_map_ok_def map_contents_def)

text \<open>One visited entry: its slot, and only its slot, is settled.\<close>

lemma xe_op_step_correct:
  assumes m: "bind_map_ok m" and i: "i < map_size m" "map_table m ! i = Present_Entry h k obj"
    and op: "obj_bind_op obj \<noteq> BOUND"
  shows "\<exists>m' e. xe_op_step m i obj = Some m' \<and> bind_map_ok m' \<and> map_size m' = map_size m \<and>
    map_table m' = (map_table m)[i := e] \<and> table_items [e] = settle (k, obj)"
proof -
  note keys = bind_map_okD(1) [OF m]
  have inv: "table_inv m" "hash_function m = igt_map_hash_32" "key_equals_function m = igt_map_equal_32"
    using keys by (auto simp: map_of_keys_def map_inv_def)
  have len: "length (map_table m) = map_size m" using inv(1) by (rule table_invD)
  have mem: "(k, obj) \<in> set (map_items m)" using map_items_iff [OF inv(1)] i by blast
  then have k: "obj_handle obj = k" by (rule bind_map_okD(2) [OF m])
  show ?thesis
  proof (cases "obj_bind_op obj = TO_BIND")
    case True
    let ?o = "obj\<lparr>obj_bind_op := BOUND\<rparr>"
    note set = set_data_at_correct(1,2) [OF keys i, of ?o] set_data_at_correct(3) [OF keys i]
    have "obj_handle x = k'" if "(k', x) \<in> set (map_items (set_data_at m i ?o))" for k' x
      using that bind_map_okD(2) [OF m, of k' x] k unfolding set(2,3) by auto
    with set(1) have "bind_map_ok (set_data_at m i ?o)" by (rule bind_map_okI)
    then show ?thesis using True i
      by (intro exI [of _ "set_data_at m i ?o"] exI [of _ "Present_Entry h k ?o"])
        (simp add: xe_op_step_def settle_def set_data_at_def)
  next
    case False
    then have unbind: "obj_bind_op obj = TO_UNBIND" using op by (cases "obj_bind_op obj") auto
    have found: "map_abs m k = Some obj" using map_abs_Some [OF inv(1)] mem by (auto simp: inv igt_map_equal_32_def)
    obtain j where j: "igt_map_search_entry m k = Some (Some j)" "j < map_size m"
      "map_table m ! j = Present_Entry (hash_function m k) k obj"
      using search_entry_cases [OF inv(1), of k] search_entry_abs [OF keys, of k] found
      by (auto simp: inv igt_map_equal_32_def)
    have "j = i" by (rule table_inv_unique [OF inv(1) j(2) i(1) j(3) i(2)]) (simp add: inv igt_map_equal_32_def)
    have run: "igt_map_remove m k True = Some (igt_map_remove_entry m (Some i), Some obj)"
      using j \<open>j = i\<close> i by (simp add: igt_map_remove_def)
    from igt_map_remove_delete_function [OF inv(1), of k] found run
    have rem: "removed m k (igt_map_remove_entry m (Some i))" by simp
    have keys': "map_of_keys igt_map_hash_32 igt_map_equal_32 (igt_map_remove_entry m (Some i))"
      using keys rem removed_map_inv [of m k] by (auto simp: map_of_keys_def removed_def)
    have "set (map_items (igt_map_remove_entry m (Some i))) \<subseteq> set (map_items m)"
      using rem by (metis removed_def set_mset_filter set_mset_mset Collect_subset mem_Collect_eq subsetI)
    then have "bind_map_ok (igt_map_remove_entry m (Some i))"
      using bind_map_okD(2) [OF m] by (intro bind_map_okI [OF keys']) blast
    then show ?thesis using unbind k run i
      by (intro exI [of _ "igt_map_remove_entry m (Some i)"] exI [of _ "Deleted_Entry h obj"])
        (simp add: xe_op_step_def settle_def igt_map_remove_entry_def)
  qed
qed

lemma table_items_none: "\<forall>e \<in> set es. \<not> entry_is_present e \<Longrightarrow> table_items es = []"
  by (induction es rule: table_items.induct) auto

text \<open>The whole loop, from the slot after \<open>pos\<close> on.\<close>

lemma xe_op_loop_correct:
  assumes "bind_map_ok m" "(case pos of None \<Rightarrow> 0 | Some i \<Rightarrow> Suc i) = from" "from \<le> map_size m"
  shows "\<exists>m'. xe_op_loop m pos objs = Some (rev (pending (table_items (drop from (map_table m)))) @ objs, m') \<and>
    bind_map_ok m' \<and> map_size m' = map_size m \<and>
    map_items m' = table_items (take from (map_table m)) @ concat (map settle (table_items (drop from (map_table m))))"
  using assms
proof (induction m pos objs arbitrary: "from" rule: xe_op_loop.induct)
  case (1 m pos objs)
  have keys: "map_of_keys igt_map_hash_32 igt_map_equal_32 m" by (rule bind_map_okD [OF "1.prems"(1)])
  then have len: "length (map_table m) = map_size m" by (auto simp: map_of_keys_def map_inv_def dest: table_invD)
  let ?T = "map_table m"
  have nxt: "igt_map_next_entry m pos = find (\<lambda>i. entry_is_present (?T ! i)) [from..<map_size m]"
    using "1.prems"(2) by (cases pos) (auto simp: igt_map_next_entry_def)
  show ?case
  proof (cases "igt_map_next_entry m pos")
    case None
    then have "\<not> entry_is_present (?T ! i)" if "from \<le> i" "i < map_size m" for i
      using that by (auto simp: nxt find_None_iff)
    then have none: "table_items (drop from ?T) = []"
      by (intro table_items_none) (auto simp: in_set_conv_nth len)
    then have "map_items m = table_items (take from ?T)"
      by (metis map_items_def append_Nil2 append_take_drop_id table_items_append)
    with None none "1.prems"(1) show ?thesis by (simp add: xe_op_loop.simps [of m pos])
  next
    case (Some i)
    from Some obtain n where n: "n < length [from..<map_size m]" "entry_is_present (?T ! ([from..<map_size m] ! n))"
      "i = [from..<map_size m] ! n" "\<forall>j<n. \<not> entry_is_present (?T ! ([from..<map_size m] ! j))"
      by (auto simp: nxt find_Some_iff)
    then have i: "from \<le> i" "i < map_size m" "entry_is_present (?T ! i)" by auto
    have before: "\<not> entry_is_present (?T ! j)" if "from \<le> j" "j < i" for j
      using n(4) [rule_format, of "j - from"] n(1,3) that by auto
    obtain h k obj where e: "?T ! i = Present_Entry h k obj" using i(3) by (cases "?T ! i") auto
    have "drop from ?T = take (i - from) (drop from ?T) @ drop (i - from) (drop from ?T)"
      by (rule append_take_drop_id [symmetric])
    moreover have "drop (i - from) (drop from ?T) = drop i ?T" "take (i - from) (drop from ?T) = drop from (take i ?T)"
      using i(1) by (simp_all add: drop_take)
    moreover have "drop i ?T = ?T ! i # drop (Suc i) ?T" using i(2) len by (simp add: Cons_nth_drop_Suc)
    ultimately have split: "drop from ?T = drop from (take i ?T) @ ?T ! i # drop (Suc i) ?T" by (simp only:)
    have gap: "table_items (drop from (take i ?T)) = []"
      using before i(2) len by (intro table_items_none) (auto simp: in_set_conv_nth)
    have items: "table_items (drop from ?T) = (k, obj) # table_items (drop (Suc i) ?T)"
      unfolding split by (simp add: table_items_append gap e)
    have "take i ?T = take from ?T @ drop from (take i ?T)"
      using i(1) append_take_drop_id [of "from" "take i ?T"] by (simp add: min_absorb1)
    then have take: "table_items (take i ?T) = table_items (take from ?T)"
      by (rule ssubst) (simp add: table_items_append gap)
    show ?thesis
    proof (cases "obj_bind_op obj = BOUND")
      case True
      have "table_items (take (Suc i) ?T) = table_items (take from ?T) @ [(k, obj)]"
        using i(2) len e take by (simp add: take_Suc_conv_app_nth table_items_append)
      with "1.IH"(1) [OF Some _ True "1.prems"(1), of "Suc i"] Some e True i(2) items show ?thesis
        by (simp add: xe_op_loop.simps [of m pos] settle_def)
    next
      case False
      from xe_op_step_correct [OF "1.prems"(1) i(2) e False]
      obtain m1 e1 where s: "xe_op_step m i obj = Some m1" "bind_map_ok m1" "map_size m1 = map_size m"
        "map_table m1 = ?T[i := e1]" "table_items [e1] = settle (k, obj)" by blast
      have t: "take (Suc i) (map_table m1) = take i ?T @ [e1]" "drop (Suc i) (map_table m1) = drop (Suc i) ?T"
        using i(2) len by (simp_all add: s(4) take_Suc_conv_app_nth)
      have "table_items (take (Suc i) (map_table m1)) = table_items (take from ?T) @ settle (k, obj)"
        unfolding t using s(5) take by (simp add: table_items_append del: table_items.simps)
      with "1.IH"(2) [OF Some _ False s(1,2), of "Suc i"] s Some e False i(2) items t(2) show ?thesis
        by (simp add: xe_op_loop.simps [of m pos])
    qed
  qed
qed

subsection \<open>The bind map as a lookup function\<close>

lemma bind_map_abs: "bind_map_ok m \<Longrightarrow> map_abs m h = Some obj \<longleftrightarrow> (h, obj) \<in> set (map_items m)"
  using map_abs_Some_contents [OF bind_map_okD(1)] by (auto simp: map_contents_def igt_map_equal_32_def)

lemma bind_map_handle: "bind_map_ok m \<Longrightarrow> map_abs m h = Some obj \<Longrightarrow> obj_handle obj = h"
  by (auto simp: bind_map_abs dest: bind_map_okD(2))

lemma bind_map_ok_create: "bind_map_ok (igt_map_create igt_map_hash_32 igt_map_equal_32)"
  by (simp add: bind_map_ok_def map_of_keys_create keys_ok_32)

text \<open>What binding leaves of an object.\<close>

definition settled :: "allocator_object option \<Rightarrow> allocator_object option" where
  "settled r = (case r of None \<Rightarrow> None
     | Some obj \<Rightarrow> if obj_bind_op obj = TO_UNBIND then None else Some (obj\<lparr>obj_bind_op := BOUND\<rparr>))"

lemma obj_bound_idem: "obj_bind_op obj = BOUND \<Longrightarrow> obj\<lparr>obj_bind_op := BOUND\<rparr> = obj"
  by (cases obj) simp

lemma settle_settled: "(h, obj') \<in> set (settle (k, obj)) \<longleftrightarrow> h = k \<and> settled (Some obj) = Some obj'"
  by (cases "obj_bind_op obj") (auto simp: settle_def settled_def obj_bound_idem)

text \<open>\<open>__xe_op_bind\<close> collects the pending objects, each once, and settles the map.\<close>

lemma xe_op_loop_abs:
  assumes m: "bind_map_ok m"
  shows "\<exists>objs m'. xe_op_loop m None [] = Some (objs, m') \<and> bind_map_ok m' \<and>
    (\<forall>h. map_abs m' h = settled (map_abs m h)) \<and>
    set objs = {xe_object_of obj | obj h. map_abs m h = Some obj \<and> obj_bind_op obj \<noteq> BOUND} \<and>
    length objs = card {h. \<exists>obj. map_abs m h = Some obj \<and> obj_bind_op obj \<noteq> BOUND} \<and>
    size (map_contents m') \<le> size (map_contents m)"
proof -
  from xe_op_loop_correct [OF m, of None 0 "[]"] obtain m' where
    l: "xe_op_loop m None [] = Some (rev (pending (map_items m)), m')" "bind_map_ok m'"
    "map_items m' = concat (map settle (map_items m))" by (auto simp: map_items_def)
  have "map_abs m' h = Some obj' \<longleftrightarrow> settled (map_abs m h) = Some obj'" for h obj'
  proof -
    have "map_abs m' h = Some obj' \<longleftrightarrow> (\<exists>k obj. (k, obj) \<in> set (map_items m) \<and> (h, obj') \<in> set (settle (k, obj)))"
      by (auto simp: bind_map_abs [OF l(2)] l(3))
    also have "\<dots> \<longleftrightarrow> (\<exists>obj. map_abs m h = Some obj \<and> settled (Some obj) = Some obj')"
      by (auto simp: settle_settled bind_map_abs [OF m])
    also have "\<dots> \<longleftrightarrow> settled (map_abs m h) = Some obj'"
      by (cases "map_abs m h") (auto simp: settled_def)
    finally show ?thesis .
  qed
  then have "map_abs m' h = settled (map_abs m h)" for h by (metis not_Some_eq)
  moreover have "set (pending (map_items m)) = {xe_object_of obj | obj h. map_abs m h = Some obj \<and> obj_bind_op obj \<noteq> BOUND}"
    by (force simp: pending_def bind_map_abs [OF m])
  moreover have "length (pending (map_items m)) = card {h. \<exists>obj. map_abs m h = Some obj \<and> obj_bind_op obj \<noteq> BOUND}"
  proof -
    let ?xs = "filter (\<lambda>(k, obj). obj_bind_op obj \<noteq> BOUND) (map_items m)"
    have keys: "map_of_keys igt_map_hash_32 igt_map_equal_32 m" by (rule bind_map_okD [OF m])
    have "distinct_keys igt_map_equal_32 (map_items m)"
      using keys table_inv_distinct_keys [of m] by (auto simp: map_of_keys_def map_inv_def)
    then have "distinct (map fst (map_items m))"
      by (rule distinct_keys_fst [rotated]) (simp add: igt_map_equal_32_def)
    then have "distinct (map fst ?xs)" by (rule distinct_map_filter)
    then have "length ?xs = card (fst ` set ?xs)" using distinct_card [of "map fst ?xs"] by simp
    also have "fst ` set ?xs = {h. \<exists>obj. map_abs m h = Some obj \<and> obj_bind_op obj \<noteq> BOUND}"
      by (force simp: bind_map_abs [OF m])
    finally show ?thesis by (simp add: pending_def)
  qed
  moreover have "length (concat (map settle xs)) \<le> length xs" for xs
    by (induction xs) (auto simp: settle_def split: allocator_bind_op.splits)
  then have "size (map_contents m') \<le> size (map_contents m)" by (simp add: map_contents_def l(3))
  ultimately show ?thesis using l(1,2) by auto
qed

text \<open>\<open>track_object\<close> on the bind map.\<close>

lemma track_bind_correct:
  assumes m: "bind_map_ok m" and room: "size (map_contents m) < 2 ^ 16"
  shows "case map_abs m h of
      Some obj \<Rightarrow> track_in_bind_map m h offset sz pat TO_BIND =
        (if is_same obj h offset sz pat TO_BIND then Some m else None)
    | None \<Rightarrow> \<exists>m'. track_in_bind_map m h offset sz pat TO_BIND = Some m' \<and> bind_map_ok m' \<and>
        map_abs m' = (map_abs m)(h \<mapsto> \<lparr>obj_handle = h, obj_offset = offset, obj_size = sz,
          obj_pat_index = pat, obj_bind_op = TO_BIND\<rparr>) \<and>
        size (map_contents m') = size (map_contents m) + 1"
proof (cases "map_abs m h")
  case None
  note keys = bind_map_okD(1) [OF m]
  let ?o = "\<lparr>obj_handle = h, obj_offset = offset, obj_size = sz, obj_pat_index = pat, obj_bind_op = TO_BIND\<rparr>"
  obtain m' where p: "map_put m h ?o = Some m'" "map_of_keys igt_map_hash_32 igt_map_equal_32 m'"
    "map_contents m' = add_mset (h, ?o) (map_contents m)"
    "map_abs m' = (\<lambda>q'. if igt_map_equal_32 h q' then Some ?o else map_abs m q')"
    using map_put_new [OF keys_ok_32 keys room None] by blast
  have "bind_map_ok m'" using m p(2,3) by (auto simp: bind_map_ok_def)
  then show ?thesis using p None map_search_abs [OF keys, of h]
    by (auto simp: track_in_bind_map_def igt_map_equal_32_def fun_eq_iff)
next
  case (Some obj)
  then show ?thesis using map_search_abs [OF bind_map_okD(1) [OF m], of h]
    by (auto simp: track_in_bind_map_def igt_assert_def)
qed

definition after_free :: "allocator_object option \<Rightarrow> allocator_object option" where
  "after_free r = (case r of None \<Rightarrow> None
     | Some obj \<Rightarrow> if obj_bind_op obj = TO_BIND then None else Some (obj\<lparr>obj_bind_op := TO_UNBIND\<rparr>))"

lemma track_unbind_correct:
  assumes m: "bind_map_ok m"
  shows "\<exists>m'. track_in_bind_map m h offset sz pat TO_UNBIND = Some m' \<and> bind_map_ok m' \<and>
    map_abs m' = (map_abs m)(h := after_free (map_abs m h)) \<and>
    size (map_contents m') \<le> size (map_contents m)"
proof -
  note keys = bind_map_okD(1) [OF m]
  have inv: "table_inv m" "map_inv m" "hash_function m = igt_map_hash_32" "key_equals_function m = igt_map_equal_32"
    using keys by (auto simp: map_of_keys_def map_inv_def)
  note search = map_search_abs [OF keys, of h]
  show ?thesis
  proof (cases "map_abs m h")
    case None
    then show ?thesis using m search by (simp add: track_in_bind_map_def after_free_def fun_upd_idem)
  next
    case (Some obj)
    have h: "obj_handle obj = h" by (rule bind_map_handle [OF m Some])
    consider "obj_bind_op obj = TO_BIND" | "obj_bind_op obj = BOUND" | "obj_bind_op obj = TO_UNBIND"
      by (cases "obj_bind_op obj") auto
    then show ?thesis
    proof cases
      case 1
      from map_remove_found [OF keys_ok_32 keys Some] obtain m1 k where d: "igt_map_remove m h True = Some (m1, Some obj)"
        "map_of_keys igt_map_hash_32 igt_map_equal_32 m1" "map_contents m = add_mset (k, obj) (map_contents m1)"
        "map_abs m1 = (\<lambda>q'. if igt_map_equal_32 h q' then None else map_abs m q')" by blast
      have "bind_map_ok m1" using m d(2,3) by (auto simp: bind_map_ok_def)
      then show ?thesis using 1 Some h search d
        by (auto simp: track_in_bind_map_def after_free_def igt_map_equal_32_def fun_eq_iff)
    next
      case 2
      from map_modify_found [OF keys_ok_32 keys Some, of "\<lambda>obj. obj\<lparr>obj_bind_op := TO_UNBIND\<rparr>"]
      obtain m1 k M where d: "map_modify m h (\<lambda>obj. obj\<lparr>obj_bind_op := TO_UNBIND\<rparr>) = Some m1"
        "map_of_keys igt_map_hash_32 igt_map_equal_32 m1" "map_contents m = add_mset (k, obj) M"
        "map_contents m1 = add_mset (k, obj\<lparr>obj_bind_op := TO_UNBIND\<rparr>) M"
        "map_abs m1 = (\<lambda>q'. if igt_map_equal_32 h q' then Some (obj\<lparr>obj_bind_op := TO_UNBIND\<rparr>) else map_abs m q')"
        by blast
      have "bind_map_ok m1" using m d(2-4) by (auto simp: bind_map_ok_def)
      then show ?thesis using 2 Some search d
        by (auto simp: track_in_bind_map_def after_free_def igt_map_equal_32_def fun_eq_iff)
    next
      case 3
      have "after_free (Some obj) = Some obj" using 3 by (cases obj) (simp add: after_free_def)
      then show ?thesis using 3 Some m search by (simp add: track_in_bind_map_def fun_upd_idem)
    qed
  qed
qed

end
