(* ===== verification/Vm_Binding.thy ===== *)
theory Vm_Binding
  imports Bind_Tracking
begin

text \<open>
  What \<open>track_object\<close> and \<open>intel_allocator_bind\<close> achieve together: the VM maps exactly the objects
  that are allocated, at their offsets. The effect of a bind request on a VM is the one documented in
  \<^verbatim>\<open>include/drm-uapi/xe_drm.h\<close>: the operations of a request take effect in order, \<open>MAP\<close> binds a range
  of an object to an address range and \<open>UNMAP\<close> removes the bindings of an address range.
\<close>

subsection \<open>The effect of bind requests\<close>

type_synonym vm_mapping = "nat \<Rightarrow> (u32 \<times> nat) option"

definition op_covers :: "drm_xe_vm_bind_op \<Rightarrow> nat \<Rightarrow> bool" where
  "op_covers op a \<longleftrightarrow> unat (op_addr op) \<le> a \<and> a < unat (op_addr op) + unat (op_range op)"

definition op_effect :: "drm_xe_vm_bind_op \<Rightarrow> vm_mapping \<Rightarrow> vm_mapping" where
  "op_effect op g = (\<lambda>a.
     if op_covers op a then
       (if op_op op = DRM_XE_VM_BIND_OP_MAP
        then Some (op_obj op, unat (op_obj_offset op) + (a - unat (op_addr op)))
        else if op_op op = DRM_XE_VM_BIND_OP_UNMAP then None else g a)
     else g a)"

fun call_effect :: "u32 \<Rightarrow> drm_call \<Rightarrow> vm_mapping \<Rightarrow> vm_mapping" where
  "call_effect vm (XE_VM_BIND b) g = (if bind_vm_id b = vm then fold op_effect (bind_ops b) g else g)"
| "call_effect vm _ g = g"

definition vm_after :: "u32 \<Rightarrow> drm_call list \<Rightarrow> vm_mapping" where
  "vm_after vm tr = fold (call_effect vm) tr (\<lambda>_. None)"

lemma vm_after_append: "vm_after vm (tr @ tr') = fold (call_effect vm) tr' (vm_after vm tr)"
  by (simp add: vm_after_def)

subsection \<open>The batch\<close>

text \<open>The driver answers 0 to each call of a list, made in this order after the calls of a trace, and the
  calls a batch consists of. With one operation the wrapper for a single bind is used, which takes the default
  PAT index.\<close>

fun accepts :: "xe_env \<Rightarrow> drm_call list \<Rightarrow> drm_call list \<Rightarrow> bool" where
  "accepts env tr [] \<longleftrightarrow> True"
| "accepts env tr (c # cs) \<longleftrightarrow> env_ioctl env tr c = 0 \<and> accepts env (tr @ [c]) cs"

definition batch_ops :: "xe_env \<Rightarrow> xe_object list \<Rightarrow> drm_xe_vm_bind_op list" where
  "batch_ops env objs =
     (if length objs = 1 then map (\<lambda>op. op\<lparr>op_pat_index := ucast (env_pat_idx_wb env)\<rparr>) (xe_alloc_bind_ops env objs)
      else xe_alloc_bind_ops env objs)"

definition batch_syncs :: "u32 \<Rightarrow> u32 \<Rightarrow> drm_xe_sync list" where
  "batch_syncs sync_in out =
     (if sync_in = 0 then [] else [\<lparr>sync_handle = sync_in, sync_signal = False\<rparr>]) @ [\<lparr>sync_handle = out, sync_signal = True\<rparr>]"

definition batch_calls :: "xe_env \<Rightarrow> u32 \<Rightarrow> u32 \<Rightarrow> xe_object list \<Rightarrow> u32 \<Rightarrow> u32 \<Rightarrow> u32 \<Rightarrow> drm_call list" where
  "batch_calls env vm engine objs sync_in sync_out new =
     (let out = (if sync_out = 0 then new else sync_out);
          bind = XE_VM_BIND \<lparr>bind_extensions = 0, bind_vm_id = vm, bind_exec_queue_id = engine,
            bind_ops = batch_ops env objs, bind_syncs = batch_syncs sync_in out\<rparr>
      in if objs = [] then (if sync_out = 0 then [] else [SYNCOBJ_SIGNAL sync_out])
         else if sync_out = 0 then [SYNCOBJ_CREATE, bind, SYNCOBJ_WAIT out, SYNCOBJ_DESTROY out]
         else [bind])"

lemma xe_vm_bind_assert_issue:
  "xe_vm_bind_assert env vm q bo offset addr sz op flags syncs region ext tr =
    issue env (XE_VM_BIND (vm_bind_request env vm q bo offset addr sz op flags syncs region DEFAULT_PAT_INDEX ext)) tr"
  by (simp add: xe_vm_bind_assert_def xe_vm_bind_def issue_def Let_def igt_assert_def)

lemma op_op_masked:
  "DRM_XE_VM_BIND_OP_MAP AND 0xffff = DRM_XE_VM_BIND_OP_MAP"
  "DRM_XE_VM_BIND_OP_UNMAP AND 0xffff = DRM_XE_VM_BIND_OP_UNMAP"
  "DRM_XE_VM_BIND_OP_UNMAP \<noteq> DRM_XE_VM_BIND_OP_MAP"
  by (simp_all add: DRM_XE_VM_BIND_OP_MAP_def DRM_XE_VM_BIND_OP_UNMAP_def)

lemma xe_bind_unbind_async_calls:
  "xe_bind_unbind_async env vm engine objs sync_in sync_out tr =
    (let calls = batch_calls env vm engine objs sync_in sync_out (env_syncobj_create env tr)
     in if accepts env tr calls then Some (tr @ calls) else None)"
proof -
  note [simp] = issue_def xe_vm_bind_assert_issue igt_assert_def
  consider "objs = []" | obj where "objs = [obj]" | obj obj' rest where "objs = obj # obj' # rest"
    by (metis neq_Nil_conv)
  then show ?thesis
  proof cases
    case 1
    then show ?thesis by (simp add: xe_bind_unbind_async_def xe_alloc_bind_ops_def batch_calls_def Let_def)
  next
    case 2
    then show ?thesis
      by (cases "xo_bind_op obj")
        (simp_all add: xe_bind_unbind_async_def xe_alloc_bind_ops_def batch_calls_def batch_ops_def batch_syncs_def
          Let_def syncobj_create_def xe_vm_bind_async_def xe_vm_unbind_async_def vm_bind_request_def xe_bind_op_of_def
          op_op_masked)
  next
    case 3
    then show ?thesis
      by (simp add: xe_bind_unbind_async_def xe_alloc_bind_ops_def batch_calls_def batch_ops_def batch_syncs_def
          Let_def syncobj_create_def xe_vm_bind_array_def)
  qed
qed

subsection \<open>Tracked objects and the VM\<close>

definition obj_span :: "allocator_object \<Rightarrow> nat set" where
  "obj_span obj = {unat (obj_offset obj)..<unat (obj_offset obj) + unat (ALIGN (obj_size obj) 4096)}"

text \<open>The VM maps the objects of \<open>objs\<close>, each from its first byte on, and nothing else.\<close>

definition vm_maps :: "vm_mapping \<Rightarrow> (u32 \<Rightarrow> allocator_object option) \<Rightarrow> bool" where
  "vm_maps g objs \<longleftrightarrow> (\<forall>a h k. g a = Some (h, k) \<longleftrightarrow>
     (\<exists>obj. objs h = Some obj \<and> a \<in> obj_span obj \<and> k = a - unat (obj_offset obj)))"

definition in_vm :: "(u32 \<Rightarrow> allocator_object option) \<Rightarrow> u32 \<Rightarrow> allocator_object option" where
  "in_vm objs h = (case objs h of None \<Rightarrow> None
     | Some obj \<Rightarrow> if obj_bind_op obj = TO_BIND then None else Some obj)"

definition objs_apart :: "(u32 \<Rightarrow> allocator_object option) \<Rightarrow> bool" where
  "objs_apart objs \<longleftrightarrow> (\<forall>h h' obj obj'. objs h = Some obj \<and> objs h' = Some obj' \<and> h \<noteq> h' \<longrightarrow>
     obj_span obj \<inter> obj_span obj' = {})"

lemma objs_apartD:
  "objs_apart objs \<Longrightarrow> objs h = Some obj \<Longrightarrow> objs h' = Some obj' \<Longrightarrow> a \<in> obj_span obj \<Longrightarrow> a \<in> obj_span obj' \<Longrightarrow> h = h'"
  unfolding objs_apart_def by blast

lemma objs_apartI:
  "(\<And>h h' obj obj' a. objs h = Some obj \<Longrightarrow> objs h' = Some obj' \<Longrightarrow> a \<in> obj_span obj \<Longrightarrow> a \<in> obj_span obj' \<Longrightarrow> h = h') \<Longrightarrow>
   objs_apart objs"
  unfolding objs_apart_def by blast

abbreviation tracked_objs :: "ahnd_info \<Rightarrow> u32 \<Rightarrow> allocator_object option" where
  "tracked_objs ai \<equiv> map_abs (ai_bind_map ai)"

lemma in_vm_Some: "in_vm objs h = Some obj \<longleftrightarrow> objs h = Some obj \<and> obj_bind_op obj \<noteq> TO_BIND"
  by (auto simp: in_vm_def split: option.splits)

lemma settled_Some: "settled r = Some obj' \<longleftrightarrow>
    (\<exists>obj. r = Some obj \<and> obj_bind_op obj \<noteq> TO_UNBIND \<and> obj' = obj\<lparr>obj_bind_op := BOUND\<rparr>)"
  by (auto simp: settled_def split: option.splits)

lemma obj_span_op [simp]: "obj_span (obj\<lparr>obj_bind_op := op\<rparr>) = obj_span obj"
  by (simp add: obj_span_def)

lemma op_effect_other: "\<not> op_covers op a \<Longrightarrow> op_effect op g a = g a"
  by (simp add: op_effect_def)

lemma fold_op_effect:
  assumes "\<forall>op\<in>set ops. op_covers op a \<longrightarrow> (\<forall>g. op_effect op g a = e)"
  shows "fold op_effect ops g a = (if \<exists>op\<in>set ops. op_covers op a then e else g a)"
  using assms
proof (induction ops arbitrary: g)
  case (Cons op ops)
  then show ?case by (cases "op_covers op a") (auto simp: op_effect_other)
qed simp

text \<open>The operation of an object covers its range; binding maps it there and unbinding clears it.\<close>

lemma op_of_object:
  "op_covers (xe_bind_op_of env (xe_object_of obj)) a \<longleftrightarrow> a \<in> obj_span obj"
  "a \<in> obj_span obj \<Longrightarrow> op_effect (xe_bind_op_of env (xe_object_of obj)) g a =
    (if obj_bind_op obj = TO_BIND then Some (obj_handle obj, a - unat (obj_offset obj)) else None)"
  by (auto simp: op_covers_def op_effect_def xe_bind_op_of_def xe_object_of_def obj_span_def op_op_masked)

lemma op_pat_irrelevant:
  "op_covers (op\<lparr>op_pat_index := p\<rparr>) = op_covers op" "op_effect (op\<lparr>op_pat_index := p\<rparr>) = op_effect op"
  by (auto simp: op_covers_def op_effect_def fun_eq_iff)

lemma fold_batch_ops: "fold op_effect (batch_ops env objs) g = fold op_effect (xe_alloc_bind_ops env objs) g"
  by (simp add: batch_ops_def fold_map comp_def op_pat_irrelevant)

lemma vm_after_batch:
  "vm_after vm (tr @ batch_calls env vm engine objs sync_in sync_out new) =
    fold op_effect (xe_alloc_bind_ops env objs) (vm_after vm tr)"
  by (simp add: vm_after_append batch_calls_def Let_def fold_batch_ops xe_alloc_bind_ops_def)

lemma batch_brings_vm_up_to_date:
  assumes m: "bind_map_ok m" and apart: "objs_apart (map_abs m)" and g: "vm_maps g (in_vm (map_abs m))"
    and l: "set objs = {xe_object_of obj | obj h. map_abs m h = Some obj \<and> obj_bind_op obj \<noteq> BOUND}"
  shows "vm_maps (fold op_effect (xe_alloc_bind_ops env objs) g) (\<lambda>h. settled (map_abs m h))"
proof -
  let ?S = "map_abs m"
  have ops: "set (xe_alloc_bind_ops env objs) =
      {xe_bind_op_of env (xe_object_of obj) | obj h. ?S h = Some obj \<and> obj_bind_op obj \<noteq> BOUND}"
    by (auto simp: xe_alloc_bind_ops_def l)
  have "fold op_effect (xe_alloc_bind_ops env objs) g a = Some (h, k) \<longleftrightarrow>
      (\<exists>obj'. settled (?S h) = Some obj' \<and> a \<in> obj_span obj' \<and> k = a - unat (obj_offset obj'))" for a h k
  proof (cases "\<exists>h0 obj0. ?S h0 = Some obj0 \<and> a \<in> obj_span obj0")
    case True
    then obtain h0 obj0 where o: "?S h0 = Some obj0" "a \<in> obj_span obj0" by blast
    have only: "h' = h0 \<and> obj' = obj0" if "?S h' = Some obj'" "a \<in> obj_span obj'" for h' obj'
    proof -
      have "h' = h0" by (rule objs_apartD [OF apart that(1) o(1) that(2) o(2)])
      then show ?thesis using o that by simp
    qed
    have h0: "obj_handle obj0 = h0" by (rule bind_map_handle [OF m o(1)])
    let ?e = "if obj_bind_op obj0 = TO_BIND then Some (h0, a - unat (obj_offset obj0)) else None"
    have "\<forall>op\<in>set (xe_alloc_bind_ops env objs). op_covers op a \<longrightarrow> (\<forall>g. op_effect op g a = ?e)"
      using only by (auto simp: ops op_of_object dest: bind_map_handle [OF m])
    from fold_op_effect [OF this, of g]
    have f: "fold op_effect (xe_alloc_bind_ops env objs) g a =
        (if \<exists>op\<in>set (xe_alloc_bind_ops env objs). op_covers op a then ?e else g a)" .
    have c: "(\<exists>op\<in>set (xe_alloc_bind_ops env objs). op_covers op a) \<longleftrightarrow> obj_bind_op obj0 \<noteq> BOUND"
    proof
      assume "\<exists>op\<in>set (xe_alloc_bind_ops env objs). op_covers op a"
      then obtain obj h where "?S h = Some obj" "obj_bind_op obj \<noteq> BOUND" "a \<in> obj_span obj"
        by (auto simp: ops op_of_object)
      then show "obj_bind_op obj0 \<noteq> BOUND" using only by blast
    next
      assume "obj_bind_op obj0 \<noteq> BOUND"
      then have "xe_bind_op_of env (xe_object_of obj0) \<in> set (xe_alloc_bind_ops env objs)" using o(1) by (auto simp: ops)
      then show "\<exists>op\<in>set (xe_alloc_bind_ops env objs). op_covers op a" using o(2) op_of_object(1) by blast
    qed
    have ga: "g a = Some (h', k') \<longleftrightarrow> h' = h0 \<and> k' = a - unat (obj_offset obj0) \<and> obj_bind_op obj0 \<noteq> TO_BIND" for h' k'
      using o unfolding g [unfolded vm_maps_def, rule_format] in_vm_Some by (auto dest: only)
    have goal: "(\<exists>obj'. settled (?S h) = Some obj' \<and> a \<in> obj_span obj' \<and> k = a - unat (obj_offset obj')) \<longleftrightarrow>
        h = h0 \<and> obj_bind_op obj0 \<noteq> TO_UNBIND \<and> k = a - unat (obj_offset obj0)"
      using o unfolding settled_Some by (auto dest: only)
    show ?thesis unfolding goal f c by (cases "obj_bind_op obj0") (auto simp: ga)
  next
    case False
    then have none: "\<not> op_covers op a" if "op \<in> set (xe_alloc_bind_ops env objs)" for op
      using that by (auto simp: ops op_of_object)
    then have pre: "\<forall>op\<in>set (xe_alloc_bind_ops env objs). op_covers op a \<longrightarrow> (\<forall>g. op_effect op g a = None)"
      and no: "(\<exists>op\<in>set (xe_alloc_bind_ops env objs). op_covers op a) = False" by blast+
    from fold_op_effect [OF pre, of g] have "fold op_effect (xe_alloc_bind_ops env objs) g a = g a"
      unfolding no if_False .
    moreover have "g a \<noteq> Some (h, k)" using g False by (auto simp: vm_maps_def in_vm_Some)
    moreover have "\<not> (settled (?S h) = Some obj' \<and> a \<in> obj_span obj')" for obj' using False by (auto simp: settled_Some)
    ultimately show ?thesis by auto
  qed
  then show ?thesis by (auto simp: vm_maps_def)
qed

text \<open>A handle opened on an empty VM, and the operations on it: allocations of objects whose address
  ranges are not in use by a tracked object, frees, and binds.\<close>

definition span_unused :: "ahnd_info \<Rightarrow> u32 \<Rightarrow> u64 \<Rightarrow> u64 \<Rightarrow> bool" where
  "span_unused ai h offset sz \<longleftrightarrow> (\<forall>h' obj. tracked_objs ai h' = Some obj \<and> h' \<noteq> h \<longrightarrow>
     obj_span obj \<inter> {unat offset..<unat offset + unat (ALIGN sz 4096)} = {})"

inductive tracked :: "xe_env \<Rightarrow> ahnd_info \<Rightarrow> drm_call list \<Rightarrow> bool" for env where
  open_handle: "ai_bind_map ai = igt_map_create igt_map_hash_32 igt_map_equal_32 \<Longrightarrow> tracked env ai []"
| alloc_object: "tracked env ai tr \<Longrightarrow> size (map_contents (ai_bind_map ai)) < 2 ^ 16 \<Longrightarrow>
    span_unused ai h offset sz \<Longrightarrow>
    track_in_bind_map (ai_bind_map ai) h offset sz pat TO_BIND = Some m \<Longrightarrow>
    tracked env (ai\<lparr>ai_bind_map := m\<rparr>) tr"
| free_object: "tracked env ai tr \<Longrightarrow>
    track_in_bind_map (ai_bind_map ai) h 0 0 0 TO_UNBIND = Some m \<Longrightarrow>
    tracked env (ai\<lparr>ai_bind_map := m\<rparr>) tr"
| bind_objects: "tracked env ai tr \<Longrightarrow> xe_op_bind env ai sync_in sync_out tr = Some (m, tr') \<Longrightarrow>
    tracked env (ai\<lparr>ai_bind_map := m\<rparr>) tr'"

lemma xe_op_bind_correct:
  assumes m: "bind_map_ok (ai_bind_map ai)"
  shows "\<exists>objs m' calls. calls = batch_calls env (ai_vm ai) 0 objs sync_in sync_out (env_syncobj_create env tr) \<and>
    xe_op_bind env ai sync_in sync_out tr = (if accepts env tr calls then Some (m', tr @ calls) else None) \<and>
    bind_map_ok m' \<and> (\<forall>h. map_abs m' h = settled (tracked_objs ai h)) \<and>
    set objs = {xe_object_of obj | obj h. tracked_objs ai h = Some obj \<and> obj_bind_op obj \<noteq> BOUND} \<and>
    length objs = card {h. \<exists>obj. tracked_objs ai h = Some obj \<and> obj_bind_op obj \<noteq> BOUND}"
proof -
  obtain objs m' where l: "xe_op_loop (ai_bind_map ai) None [] = Some (objs, m')" "bind_map_ok m'"
    "\<forall>h. map_abs m' h = settled (tracked_objs ai h)"
    "set objs = {xe_object_of obj | obj h. tracked_objs ai h = Some obj \<and> obj_bind_op obj \<noteq> BOUND}"
    "length objs = card {h. \<exists>obj. tracked_objs ai h = Some obj \<and> obj_bind_op obj \<noteq> BOUND}"
    using xe_op_loop_abs [OF m] by blast
  then show ?thesis using xe_bind_unbind_async_calls [of env "ai_vm ai" 0 objs sync_in sync_out tr]
    by (intro exI [of _ objs] exI [of _ m']) (simp add: xe_op_bind_def Let_def)
qed

lemma tracked_inv:
  assumes t: "tracked env ai tr"
  shows "bind_map_ok (ai_bind_map ai) \<and> objs_apart (tracked_objs ai) \<and>
    vm_maps (vm_after (ai_vm ai) tr) (in_vm (tracked_objs ai))"
  using t
proof induction
  case (open_handle ai)
  then show ?case
    by (simp add: bind_map_ok_create map_abs_create keys_ok_32 objs_apart_def vm_maps_def vm_after_def in_vm_def)
next
  case (alloc_object ai tr h offset sz pat m)
  let ?o = "\<lparr>obj_handle = h, obj_offset = offset, obj_size = sz, obj_pat_index = pat, obj_bind_op = TO_BIND\<rparr>"
  show ?case
  proof (cases "tracked_objs ai h")
    case None
    with track_bind_correct [of "ai_bind_map ai" h offset sz pat] alloc_object
    have m: "bind_map_ok m" "map_abs m = (tracked_objs ai)(h \<mapsto> ?o)" by auto
    have u: "obj_span obj \<inter> obj_span ?o = {}" "obj_span ?o \<inter> obj_span obj = {}"
      if "tracked_objs ai h' = Some obj" "h' \<noteq> h" for h' obj
    proof -
      have "obj_span ?o = {unat offset..<unat offset + unat (ALIGN sz 4096)}" by (simp add: obj_span_def)
      then show "obj_span obj \<inter> obj_span ?o = {}" "obj_span ?o \<inter> obj_span obj = {}"
        using alloc_object.hyps(3) that unfolding span_unused_def by blast+
    qed
    have "objs_apart (tracked_objs ai)" using alloc_object.IH by blast
    then have "objs_apart (map_abs m)"
      unfolding m(2) using u by (intro objs_apartI) (auto dest: objs_apartD split: if_splits)
    moreover have "in_vm (map_abs m) = in_vm (tracked_objs ai)" using None by (auto simp: m(2) in_vm_def fun_eq_iff)
    ultimately show ?thesis using m(1) alloc_object.IH by simp
  next
    case (Some obj)
    with track_bind_correct [of "ai_bind_map ai" h offset sz pat] alloc_object have "m = ai_bind_map ai"
      by (auto split: if_splits)
    then show ?thesis using alloc_object.IH by simp
  qed
next
  case (free_object ai tr h m)
  with track_unbind_correct [of "ai_bind_map ai" h 0 0 0]
  have m: "bind_map_ok m" "map_abs m = (tracked_objs ai)(h := after_free (tracked_objs ai h))" by auto
  have f: "after_free (tracked_objs ai h) = Some obj' \<longleftrightarrow> (\<exists>obj. in_vm (tracked_objs ai) h = Some obj \<and>
      obj' = obj\<lparr>obj_bind_op := TO_UNBIND\<rparr>)" for obj'
    by (auto simp: after_free_def in_vm_def split: option.splits)
  have "in_vm (map_abs m) h' = Some obj' \<longleftrightarrow>
      (if h' = h then after_free (tracked_objs ai h) = Some obj' else in_vm (tracked_objs ai) h' = Some obj')" for h' obj'
    by (auto simp: m(2) in_vm_def after_free_def split: option.splits)
  then have "(\<exists>obj'. in_vm (map_abs m) h' = Some obj' \<and> a \<in> obj_span obj' \<and> k = a - unat (obj_offset obj')) \<longleftrightarrow>
      (\<exists>obj'. in_vm (tracked_objs ai) h' = Some obj' \<and> a \<in> obj_span obj' \<and> k = a - unat (obj_offset obj'))" for h' a k
    by (cases "h' = h") (auto simp: f)
  then have "vm_maps g (in_vm (map_abs m)) = vm_maps g (in_vm (tracked_objs ai))" for g
    by (simp only: vm_maps_def)
  moreover have "objs_apart (map_abs m)"
  proof (rule objs_apartI)
    fix h1 h2 obj1 obj2 a
    assume o: "map_abs m h1 = Some obj1" "map_abs m h2 = Some obj2" "a \<in> obj_span obj1" "a \<in> obj_span obj2"
    have old: "\<exists>obj. tracked_objs ai h' = Some obj \<and> obj_span obj = obj_span obj'" if "map_abs m h' = Some obj'" for h' obj'
      using that by (auto simp: m(2) f in_vm_Some split: if_splits)
    show "h1 = h2" using old [OF o(1)] old [OF o(2)] o(3,4) free_object.IH objs_apartD by blast
  qed
  ultimately show ?case using m(1) free_object.IH by simp
next
  case (bind_objects ai tr sync_in sync_out m tr')
  with xe_op_bind_correct [of ai env sync_in sync_out tr] obtain objs where
    b: "tr' = tr @ batch_calls env (ai_vm ai) 0 objs sync_in sync_out (env_syncobj_create env tr)"
    "bind_map_ok m" "\<forall>h. map_abs m h = settled (tracked_objs ai h)"
    "set objs = {xe_object_of obj | obj h. tracked_objs ai h = Some obj \<and> obj_bind_op obj \<noteq> BOUND}"
    by (auto split: if_splits)
  have "map_abs m = (\<lambda>h. settled (tracked_objs ai h))" using b(3) by auto
  moreover have "in_vm (\<lambda>h. settled (tracked_objs ai h)) = (\<lambda>h. settled (tracked_objs ai h))"
    by (auto simp: in_vm_def settled_def fun_eq_iff split: option.splits)
  moreover have "objs_apart (\<lambda>h. settled (tracked_objs ai h))"
    using bind_objects.IH by (intro objs_apartI) (auto simp: settled_Some dest: objs_apartD)
  moreover have "vm_maps (vm_after (ai_vm ai) tr') (\<lambda>h. settled (tracked_objs ai h))"
    unfolding b(1) vm_after_batch using batch_brings_vm_up_to_date [OF _ _ _ b(4)] bind_objects.IH by blast
  ultimately show ?case using b(2) by simp
qed

subsection \<open>Reusing an address before the unbind\<close>

text \<open>Maps with the smallest table, to follow a few operations slot by slot.\<close>

definition small_map :: "(u32, allocator_object) igt_map_entry list \<Rightarrow> nat \<Rightarrow> (u32, allocator_object) igt_map" where
  "small_map t n = \<lparr>map_table = t, hash_function = igt_map_hash_32, key_equals_function = igt_map_equal_32,
     map_size = 5, map_rehash = 3, map_max_entries = 2, map_size_index = 0, map_entries = n,
     map_deleted_entries = 0\<rparr>"

lemma small_map_simps [simp]:
  "map_table (small_map t n) = t" "hash_function (small_map t n) = igt_map_hash_32"
  "key_equals_function (small_map t n) = igt_map_equal_32" "map_size (small_map t n) = 5"
  "map_max_entries (small_map t n) = 2" "map_entries (small_map t n) = n" "map_deleted_entries (small_map t n) = 0"
  "map_table_update f (small_map t n) = small_map (f t) n"
  "map_entries_update g (small_map t n) = small_map t (g n)"
  "map_deleted_entries_update (\<lambda>_. 0) (small_map t n) = small_map t n"
  by (simp_all add: small_map_def)

lemma small_map_create:
  "igt_map_create igt_map_hash_32 igt_map_equal_32 = small_map (replicate 5 Free_Entry) 0"
proof -
  have "hash_sizes ! 0 = (2, 5, 3)" by (simp add: hash_sizes_def)
  then show ?thesis by (simp add: igt_map_create_def set_size_index_def small_map_def)
qed

lemma small_map_put:
  assumes "n < 2" "t ! (unat (igt_map_hash_32 h) mod 5) = Free_Entry"
  shows "map_put (small_map t n) h v =
    Some (small_map (t[unat (igt_map_hash_32 h) mod 5 := Present_Entry (igt_map_hash_32 h) h v]) (n + 1))"
proof -
  have "igt_map_insert True (small_map t n) h v = insert_probe (small_map t n) (igt_map_hash_32 h) h v"
    using assms(1) igt_map_insert_pre_hashed.simps(2) [of 31 True "small_map t n"]
    by (simp add: igt_map_insert_def)
  then show ?thesis using assms(2)
    by (simp add: map_put_def insert_probe_def insert_loop.simps [of "small_map t n"] start_hash_address_def)
qed

lemma small_map_search:
  "t ! (unat (igt_map_hash_32 h) mod 5) = Free_Entry \<Longrightarrow> igt_map_search_entry (small_map t n) h = Some None"
  "t ! (unat (igt_map_hash_32 h) mod 5) = Present_Entry (igt_map_hash_32 h) h v \<Longrightarrow>
   igt_map_search_entry (small_map t n) h = Some (Some (unat (igt_map_hash_32 h) mod 5))"
  by (simp_all add: igt_map_search_entry_def igt_map_search_pre_hashed_def search_loop.simps [of "small_map t n"]
      start_hash_address_def igt_map_equal_32_def)

lemma small_slots: "unat (igt_map_hash_32 1) mod 5 = 4" "unat (igt_map_hash_32 2) mod 5 = 2"
  by (simp_all add: igt_map_hash_32_def)

definition object_at :: "u32 \<Rightarrow> u64 \<Rightarrow> allocator_bind_op \<Rightarrow> allocator_object" where
  "object_at h offset op =
     \<lparr>obj_handle = h, obj_offset = offset, obj_size = 0x1000, obj_pat_index = 0, obj_bind_op = op\<rparr>"

abbreviation slot_of :: "u32 \<Rightarrow> u64 \<Rightarrow> allocator_bind_op \<Rightarrow> (u32, allocator_object) igt_map_entry" where
  "slot_of h offset op \<equiv> Present_Entry (igt_map_hash_32 h) h (object_at h offset op)"

text \<open>The bind map after allocating, binding and freeing object 2, and allocating object 1 at the same
  address.\<close>

definition reuse_map :: "u64 \<Rightarrow> (u32, allocator_object) igt_map" where
  "reuse_map offset = small_map [Free_Entry, Free_Entry, slot_of 2 offset TO_UNBIND, Free_Entry, slot_of 1 offset TO_BIND] 2"

lemma reuse_map_reached:
  "\<exists>m1 m2 m3. track_in_bind_map (igt_map_create igt_map_hash_32 igt_map_equal_32) 2 offset 0x1000 0 TO_BIND = Some m1 \<and>
     xe_op_loop m1 None [] = Some ([xe_object_of (object_at 2 offset TO_BIND)], m2) \<and>
     track_in_bind_map m2 2 0 0 0 TO_UNBIND = Some m3 \<and>
     track_in_bind_map m3 1 offset 0x1000 0 TO_BIND = Some (reuse_map offset)"
proof (intro exI conjI)
  let ?t = "\<lambda>op. [Free_Entry, Free_Entry, slot_of 2 offset op, Free_Entry, Free_Entry]"
  have free: "replicate 5 Free_Entry = [Free_Entry, Free_Entry, Free_Entry, Free_Entry, Free_Entry]"
    by (simp add: numeral_nat)
  have upt: "[0..<5] = [0, 1, 2, 3, 4]" "[Suc 2..<5] = [3, 4]" by (simp_all add: upt_rec)
  show "track_in_bind_map (igt_map_create igt_map_hash_32 igt_map_equal_32) 2 offset 0x1000 0 TO_BIND = Some (small_map (?t TO_BIND) 1)"
    by (simp add: track_in_bind_map_def igt_map_search_def small_map_create free small_map_search(1) small_map_put
        small_slots flip: object_at_def)
  show "xe_op_loop (small_map (?t TO_BIND) 1) None [] =
      Some ([xe_object_of (object_at 2 offset TO_BIND)], small_map (?t BOUND) 1)"
    by (simp add: xe_op_loop.simps igt_map_next_entry_def upt xe_op_step_def set_data_at_def object_at_def)
  show "track_in_bind_map (small_map (?t BOUND) 1) 2 0 0 0 TO_UNBIND = Some (small_map (?t TO_UNBIND) 1)"
    by (simp add: track_in_bind_map_def igt_map_search_def small_map_search(2) [of _ _ "object_at 2 offset BOUND"]
        map_modify_def set_data_at_def small_slots) (simp add: object_at_def)
  show "track_in_bind_map (small_map (?t TO_UNBIND) 1) 1 offset 0x1000 0 TO_BIND = Some (reuse_map offset)"
    by (simp add: track_in_bind_map_def igt_map_search_def small_map_search(1) small_map_put small_slots
        reuse_map_def numeral_2_eq_2 flip: object_at_def)
qed

lemma reuse_map_bind:
  "\<exists>m. xe_op_loop (reuse_map offset) None [] =
      Some ([xe_object_of (object_at 1 offset TO_BIND), xe_object_of (object_at 2 offset TO_UNBIND)], m) \<and>
    map_table m = [Free_Entry, Free_Entry, Deleted_Entry (igt_map_hash_32 2) (object_at 2 offset TO_UNBIND),
      Free_Entry, slot_of 1 offset BOUND] \<and> key_equals_function m = igt_map_equal_32"
proof -
  have upt: "[0..<5] = [0, 1, 2, 3, 4]" "[Suc 2..<5] = [3, 4]" by (simp_all add: upt_rec)
  let ?t = "\<lambda>e. [Free_Entry, Free_Entry, e, Free_Entry, slot_of 1 offset TO_BIND]"
  have found: "igt_map_search_entry (reuse_map offset) 2 = Some (Some 2)"
    unfolding reuse_map_def using small_map_search(2) [of "?t (slot_of 2 offset TO_UNBIND)" 2] by (simp add: small_slots)
  have step: "xe_op_step (reuse_map offset) 2 (object_at 2 offset TO_UNBIND) = Some (igt_map_remove_entry (reuse_map offset) (Some 2))"
    using found by (simp add: xe_op_step_def igt_map_remove_def object_at_def)
  show ?thesis
    using step by (simp add: xe_op_loop.simps igt_map_next_entry_def upt reuse_map_def igt_map_remove_entry_def
        xe_op_step_def [of _ 4] set_data_at_def object_at_def small_map_def)
qed

subsection \<open>Properties\<close>

text \<open>The driver receives one bind request for a list of objects: all operations in list order, the input
  fence first when there is one, and the output fence last; without an output fence one is created, waited for
  and destroyed. For an empty list only the output fence is signalled. A call that the driver refuses stops the
  program.\<close>

theorem xe_batch_is_one_request:
  "xe_bind_unbind_async env vm engine objs sync_in sync_out tr =
    (let calls = batch_calls env vm engine objs sync_in sync_out (env_syncobj_create env tr)
     in if accepts env tr calls then Some (tr @ calls) else None)"
  by (rule xe_bind_unbind_async_calls)

definition example_env :: xe_env where
  "example_env = \<lparr>env_ioctl = (\<lambda>_ _. 0), env_syncobj_create = (\<lambda>tr. of_nat (length tr) + 1), env_pat_idx_wb = 3\<rparr>"

lemma example_env: "accepts example_env tr cs" "env_pat_idx_wb example_env = 3"
  by (induction cs arbitrary: tr) (simp_all add: example_env_def)

text \<open>A single pending object is bound with the write-back PAT index, whatever PAT index the object asks
  for; only batches of two and more use the PAT index of each object.\<close>

theorem xe_single_bind_ignores_pat_index:
  assumes "\<forall>tr c. env_ioctl env tr c = 0" "sync_out \<noteq> 0"
  shows "xe_bind_unbind_async env vm engine [obj] 0 sync_out tr =
    Some (tr @ [XE_VM_BIND \<lparr>bind_extensions = 0, bind_vm_id = vm, bind_exec_queue_id = engine,
      bind_ops = [(xe_bind_op_of env obj)\<lparr>op_pat_index := ucast (env_pat_idx_wb env)\<rparr>],
      bind_syncs = [\<lparr>sync_handle = sync_out, sync_signal = True\<rparr>]\<rparr>]) \<and>
   xe_bind_unbind_async env vm engine [obj, obj'] 0 sync_out tr =
    Some (tr @ [XE_VM_BIND \<lparr>bind_extensions = 0, bind_vm_id = vm, bind_exec_queue_id = engine,
      bind_ops = [xe_bind_op_of env obj, xe_bind_op_of env obj'],
      bind_syncs = [\<lparr>sync_handle = sync_out, sync_signal = True\<rparr>]\<rparr>])"
  using assms by (simp add: xe_bind_unbind_async_calls batch_calls_def batch_ops_def batch_syncs_def xe_alloc_bind_ops_def)

theorem xe_single_bind_ignores_pat_index_witness:
  "let obj = \<lparr>xo_handle = 1, xo_offset = 0x40000, xo_size = 0x1000, xo_pat_index = 9, xo_bind_op = XE_OBJECT_BIND\<rparr>
   in op_pat_index (xe_bind_op_of example_env obj) = 9 \<and>
     xe_bind_unbind_async example_env 7 0 [obj] 0 5 [] =
       Some [XE_VM_BIND \<lparr>bind_extensions = 0, bind_vm_id = 7, bind_exec_queue_id = 0,
         bind_ops = [(xe_bind_op_of example_env obj)\<lparr>op_pat_index := 3\<rparr>],
         bind_syncs = [\<lparr>sync_handle = 5, sync_signal = True\<rparr>]\<rparr>]"
proof -
  have "\<forall>tr c. env_ioctl example_env tr c = 0" by (simp add: example_env_def)
  from xe_single_bind_ignores_pat_index [OF this, of 5 7 0 _ "[]"] show ?thesis
    by (simp add: Let_def xe_bind_op_of_def example_env(2) DEFAULT_PAT_INDEX_def)
qed

text \<open>C13: A bind brings the VM up to date. After any sequence of operations on a handle - allocations at
  address ranges that no tracked object has (freed objects count until they are unbound) with fewer than
  \<open>2 ^ 16\<close> objects tracked, frees and binds - a bind issues one batch of calls for exactly the objects that
  are pending. Whatever the driver is, the bind is stopped by an assertion exactly when the driver refuses one
  of these calls; otherwise every object still allocated is then recorded as bound, every freed object is
  forgotten, and the calls leave the VM mapping exactly the allocated objects, each from its offset on.\<close>

theorem bind_brings_vm_up_to_date:
  assumes "tracked env ai tr"
  shows "\<exists>objs m calls. calls = batch_calls env (ai_vm ai) 0 objs sync_in sync_out (env_syncobj_create env tr) \<and>
    set objs = {xe_object_of obj | obj h. tracked_objs ai h = Some obj \<and> obj_bind_op obj \<noteq> BOUND} \<and>
    length objs = card {h. \<exists>obj. tracked_objs ai h = Some obj \<and> obj_bind_op obj \<noteq> BOUND} \<and>
    xe_op_bind env ai sync_in sync_out tr = (if accepts env tr calls then Some (m, tr @ calls) else None) \<and>
    (\<forall>h. map_abs m h = settled (tracked_objs ai h)) \<and> vm_maps (vm_after (ai_vm ai) (tr @ calls)) (map_abs m)"
proof -
  note inv = tracked_inv [OF assms]
  from xe_op_bind_correct [of ai env sync_in sync_out tr] inv obtain objs m calls where
    b: "calls = batch_calls env (ai_vm ai) 0 objs sync_in sync_out (env_syncobj_create env tr)"
    "xe_op_bind env ai sync_in sync_out tr = (if accepts env tr calls then Some (m, tr @ calls) else None)"
    "\<forall>h. map_abs m h = settled (tracked_objs ai h)"
    "set objs = {xe_object_of obj | obj h. tracked_objs ai h = Some obj \<and> obj_bind_op obj \<noteq> BOUND}"
    "length objs = card {h. \<exists>obj. tracked_objs ai h = Some obj \<and> obj_bind_op obj \<noteq> BOUND}" by blast
  have "vm_maps (vm_after (ai_vm ai) (tr @ calls)) (\<lambda>h. settled (tracked_objs ai h))"
    unfolding b(1) vm_after_batch using batch_brings_vm_up_to_date [OF _ _ _ b(4)] inv by blast
  moreover have "map_abs m = (\<lambda>h. settled (tracked_objs ai h))" using b(3) by auto
  ultimately show ?thesis using b by (intro exI [of _ objs] exI [of _ m] exI [of _ calls]) simp
qed

definition example_ai :: ahnd_info where
  "example_ai = \<lparr>ai_fd = 3, ai_ahnd = 1, ai_vm = 7, ai_driver = INTEL_DRIVER_XE,
     ai_bind_map = igt_map_create igt_map_hash_32 igt_map_equal_32\<rparr>"

theorem bind_brings_vm_up_to_date_witness:
  "\<exists>m1 m tr'. track_in_bind_map (ai_bind_map example_ai) 2 0x40000 0x1000 0 TO_BIND = Some m1 \<and>
    xe_op_bind example_env (example_ai\<lparr>ai_bind_map := m1\<rparr>) 0 0 [] = Some (m, tr') \<and>
    vm_after 7 tr' 0x40010 = Some (2, 0x10)"
proof -
  have ai: "ai_bind_map example_ai = igt_map_create igt_map_hash_32 igt_map_equal_32" by (simp add: example_ai_def)
  have t0: "tracked example_env example_ai []" by (rule open_handle) (rule ai)
  have c0: "size (map_contents (ai_bind_map example_ai)) < 2 ^ 16" by (simp add: ai map_of_keys_create keys_ok_32)
  have n0: "tracked_objs example_ai = (\<lambda>_. None)" by (simp add: ai map_abs_create keys_ok_32)
  let ?o = "\<lparr>obj_handle = 2, obj_offset = 0x40000, obj_size = 0x1000, obj_pat_index = 0, obj_bind_op = TO_BIND\<rparr>"
  obtain m1 where m1: "track_in_bind_map (ai_bind_map example_ai) 2 0x40000 0x1000 0 TO_BIND = Some m1"
    "map_abs m1 = [2 \<mapsto> ?o]"
    using track_bind_correct [of "ai_bind_map example_ai" 2 "0x40000" "0x1000" 0] c0 n0 bind_map_ok_create by (auto simp: ai)
  have "tracked example_env (example_ai\<lparr>ai_bind_map := m1\<rparr>) []"
    by (rule alloc_object [OF t0 c0 _ m1(1)]) (simp add: span_unused_def n0)
  from bind_brings_vm_up_to_date [OF this, of 0 0] obtain m tr' where
    b: "xe_op_bind example_env (example_ai\<lparr>ai_bind_map := m1\<rparr>) 0 0 [] = Some (m, tr')"
    "\<forall>h. map_abs m h = settled (map_abs m1 h)" "vm_maps (vm_after 7 tr') (map_abs m)"
    by (auto simp: example_ai_def example_env(1))
  have "map_abs m 2 = Some (?o\<lparr>obj_bind_op := BOUND\<rparr>)" by (simp add: b(2) m1(2) settled_def)
  moreover have "unat (ALIGN 0x1000 4096) = 0x1000" by (simp add: ALIGN_def ALIGN_MASK_def)
  ultimately have "vm_after 7 tr' 0x40010 = Some (2, 0x10)"
    using b(3) unfolding vm_maps_def by (fastforce simp: obj_span_def)
  with m1(1) b(1) show ?thesis by blast
qed

text \<open>C14: The order of a batch is that of the hash table, so an address that is freed and reused between two
  binds can end up unmapped: after allocating, binding and freeing object 2 and allocating object 1 at the same
  address, the batch binds object 1 first and then unbinds the address, and the VM maps nothing there although
  object 1 is recorded as bound.\<close>

theorem bind_loses_reused_address:
  assumes "op_covers (xe_bind_op_of env (xe_object_of (object_at 1 offset TO_BIND))) a"
  shows "\<exists>m1 l1 m2 m3 m4 l4 m5.
     track_in_bind_map (igt_map_create igt_map_hash_32 igt_map_equal_32) 2 offset 0x1000 0 TO_BIND = Some m1 \<and>
     xe_op_loop m1 None [] = Some (l1, m2) \<and>
     track_in_bind_map m2 2 0 0 0 TO_UNBIND = Some m3 \<and>
     track_in_bind_map m3 1 offset 0x1000 0 TO_BIND = Some m4 \<and>
     xe_op_loop m4 None [] = Some (l4, m5) \<and>
     map_abs m5 1 = Some (object_at 1 offset BOUND) \<and>
     fold op_effect (xe_alloc_bind_ops env l4) g a = None"
proof -
  obtain m5 where m5: "xe_op_loop (reuse_map offset) None [] =
      Some ([xe_object_of (object_at 1 offset TO_BIND), xe_object_of (object_at 2 offset TO_UNBIND)], m5)"
    "map_table m5 = [Free_Entry, Free_Entry, Deleted_Entry (igt_map_hash_32 2) (object_at 2 offset TO_UNBIND),
      Free_Entry, slot_of 1 offset BOUND]" "key_equals_function m5 = igt_map_equal_32" using reuse_map_bind by blast
  then have "map_abs m5 1 = Some (object_at 1 offset BOUND)"
    by (simp add: map_abs_def map_items_def igt_map_equal_32_def)
  moreover have "fold op_effect (xe_alloc_bind_ops env [xe_object_of (object_at 1 offset TO_BIND),
      xe_object_of (object_at 2 offset TO_UNBIND)]) g a = None"
  proof -
    have "a \<in> obj_span (object_at 2 offset TO_UNBIND)" using assms by (simp add: op_of_object obj_span_def object_at_def)
    then show ?thesis by (simp add: xe_alloc_bind_ops_def op_of_object object_at_def)
  qed
  ultimately show ?thesis using reuse_map_reached [of offset] m5(1) by blast
qed

theorem bind_loses_reused_address_witness:
  "\<exists>m4 l4 m5. xe_op_loop m4 None [] = Some (l4, m5) \<and> map_abs m5 1 = Some (object_at 1 0x40000 BOUND) \<and>
    fold op_effect (xe_alloc_bind_ops example_env l4) (\<lambda>_. None) 0x40010 = None"
proof -
  have "unat (ALIGN 0x1000 4096) = 0x1000" by (simp add: ALIGN_def ALIGN_MASK_def)
  then have "op_covers (xe_bind_op_of example_env (xe_object_of (object_at 1 0x40000 TO_BIND))) 0x40010"
    by (simp add: op_of_object obj_span_def object_at_def)
  from bind_loses_reused_address [OF this, of "\<lambda>_. None"] show ?thesis by blast
qed

end
