(* ===== verification/Allocator_Client.thy ===== *)
theory Allocator_Client
  imports Allocator_Service Vm_Binding
begin

text \<open>
  The functions of \<^verbatim>\<open>lib/intel_allocator.c\<close> that tests call: each sends one request to the service
  (\<open>handle_request\<close> of \<^verbatim>\<open>Intel_Allocator\<close>), checks the type of the response and, for open, close,
  alloc and free, keeps the bind tracking of \<^verbatim>\<open>Bind_Tracking\<close> up to date.

  What the functions ask the devices about is a parameter, the record \<open>device_info\<close>, indexed by the
  file descriptor. \<open>None\<close> is a failed \<open>igt_assert\<close>.
\<close>

subsection \<open>State and devices\<close>

record client_state =
  cl_service :: alloc_state
  cl_ahnd_map :: ahnd_map

text \<open>The queries that \<open>open\<close> makes: i915 ones and, for Xe, the default alignment and the number of
  address bits of a VM (\<open>None\<close> when \<open>xe_device_get\<close> finds nothing).\<close>

record device_info =
  dev_driver :: "u32 \<Rightarrow> intel_driver"
  dev_safe_start_offset :: "u32 \<Rightarrow> u64"
  dev_can_report_gtt_size :: "u32 \<Rightarrow> bool"
  dev_aperture_size :: "u32 \<Rightarrow> u64"
  dev_uses_full_ppgtt :: "u32 \<Rightarrow> bool"
  dev_safe_alignment :: "u32 \<Rightarrow> u64"
  dev_xe_va_bits :: "u32 \<Rightarrow> nat option"
  dev_xe_default_alignment :: "u32 \<Rightarrow> u64"

definition RESERVED :: u64 where
  "RESERVED = 4096"

text \<open>A request to the service.\<close>

definition send :: "client_state \<Rightarrow> alloc_req \<Rightarrow> (alloc_resp \<times> client_state) option" where
  "send cl req = do {
     (resp, st) \<leftarrow> handle_request (cl_service cl) req;
     Some (resp, cl\<lparr>cl_service := st\<rparr>)
   }"

subsection \<open>Open and close\<close>

text \<open>The range and alignment that \<open>__intel_allocator_open_full\<close> puts into the request.\<close>

definition open_range :: "device_info \<Rightarrow> u32 \<Rightarrow> u64 \<Rightarrow> u64 \<Rightarrow> u64 \<Rightarrow> (u64 \<times> u64 \<times> u64) option" where
  "open_range dev fd start end_addr default_alignment =
     (case dev_driver dev fd of
        INTEL_DRIVER_I915 \<Rightarrow> do {
          let req_start = (if start = 0 then dev_safe_start_offset dev fd else start);
          req_end \<leftarrow> (if end_addr = 0 then do {
                          igt_assert (dev_can_report_gtt_size dev fd);
                          let gtt_size = dev_aperture_size dev fd;
                          Some (if \<not> dev_uses_full_ppgtt dev fd then gtt_size div 2 else gtt_size - RESERVED)
                        } else Some end_addr);
          let req_alignment = (if default_alignment = 0 then dev_safe_alignment dev fd else default_alignment);
          Some (ALIGN req_start req_alignment, req_end, req_alignment)
        }
      | INTEL_DRIVER_XE \<Rightarrow> do {
          va_bits \<leftarrow> dev_xe_va_bits dev fd;
          let req_alignment = (if default_alignment = 0 then dev_xe_default_alignment dev fd else default_alignment);
          let req_end = (if end_addr = 0 then push_bit va_bits 1 else end_addr);
          Some (start, req_end, req_alignment)
        })"

definition intel_allocator_open_both ::
  "device_info \<Rightarrow> client_state \<Rightarrow> u32 \<Rightarrow> u32 \<Rightarrow> u32 \<Rightarrow> u64 \<Rightarrow> u64 \<Rightarrow> u8 \<Rightarrow> allocator_strategy \<Rightarrow> u64 \<Rightarrow>
   (u64 \<times> client_state) option" where
  "intel_allocator_open_both dev cl fd ctx vm start end_addr allocator_type strategy default_alignment = do {
     (req_start, req_end, req_alignment) \<leftarrow> open_range dev fd start end_addr default_alignment;
     (resp, cl) \<leftarrow> send cl (REQ_OPEN fd ctx vm req_start req_end allocator_type strategy req_alignment);
     (case resp of
        RESP_OPEN ahnd \<Rightarrow> do {
          igt_assert (ahnd \<noteq> 0);
          ahnd_map \<leftarrow> track_ahnd (dev_driver dev fd) (cl_ahnd_map cl) fd ahnd (if ctx \<noteq> 0 then ctx else vm);
          Some (ahnd, cl\<lparr>cl_ahnd_map := ahnd_map\<rparr>)
        }
      | _ \<Rightarrow> None)
   }"

definition intel_allocator_open_full ::
  "device_info \<Rightarrow> client_state \<Rightarrow> u32 \<Rightarrow> u32 \<Rightarrow> u64 \<Rightarrow> u64 \<Rightarrow> u8 \<Rightarrow> allocator_strategy \<Rightarrow> u64 \<Rightarrow>
   (u64 \<times> client_state) option" where
  "intel_allocator_open_full dev cl fd ctx start end_addr allocator_type strategy default_alignment =
     intel_allocator_open_both dev cl fd ctx 0 start end_addr allocator_type strategy default_alignment"

definition intel_allocator_open_vm_full ::
  "device_info \<Rightarrow> client_state \<Rightarrow> u32 \<Rightarrow> u32 \<Rightarrow> u64 \<Rightarrow> u64 \<Rightarrow> u8 \<Rightarrow> allocator_strategy \<Rightarrow> u64 \<Rightarrow>
   (u64 \<times> client_state) option" where
  "intel_allocator_open_vm_full dev cl fd vm start end_addr allocator_type strategy default_alignment = do {
     igt_assert (vm \<noteq> 0);
     intel_allocator_open_both dev cl fd 0 vm start end_addr allocator_type strategy default_alignment
   }"

definition intel_allocator_open :: "device_info \<Rightarrow> client_state \<Rightarrow> u32 \<Rightarrow> u32 \<Rightarrow> u8 \<Rightarrow> (u64 \<times> client_state) option" where
  "intel_allocator_open dev cl fd ctx allocator_type =
     intel_allocator_open_full dev cl fd ctx 0 0 allocator_type ALLOC_STRATEGY_HIGH_TO_LOW 0"

definition intel_allocator_open_vm :: "device_info \<Rightarrow> client_state \<Rightarrow> u32 \<Rightarrow> u32 \<Rightarrow> u8 \<Rightarrow> (u64 \<times> client_state) option" where
  "intel_allocator_open_vm dev cl fd vm allocator_type =
     intel_allocator_open_vm_full dev cl fd vm 0 0 allocator_type ALLOC_STRATEGY_HIGH_TO_LOW 0"

definition intel_allocator_close :: "client_state \<Rightarrow> u64 \<Rightarrow> (bool \<times> client_state) option" where
  "intel_allocator_close cl allocator_handle = do {
     (resp, cl) \<leftarrow> send cl (REQ_CLOSE allocator_handle);
     (case resp of
        RESP_CLOSE is_empty \<Rightarrow> do {
          ahnd_map \<leftarrow> untrack_ahnd (cl_ahnd_map cl) allocator_handle;
          Some (is_empty, cl\<lparr>cl_ahnd_map := ahnd_map\<rparr>)
        }
      | _ \<Rightarrow> None)
   }"

subsection \<open>Objects\<close>

definition intel_allocator_get_address_range :: "client_state \<Rightarrow> u64 \<Rightarrow> ((u64 \<times> u64) \<times> client_state) option" where
  "intel_allocator_get_address_range cl allocator_handle = do {
     (resp, cl) \<leftarrow> send cl (REQ_ADDRESS_RANGE allocator_handle);
     (case resp of RESP_ADDRESS_RANGE start end_addr \<Rightarrow> Some ((start, end_addr), cl) | _ \<Rightarrow> None)
   }"

text \<open>\<open>track_object\<close> on the client's state\<close>

definition track :: "client_state \<Rightarrow> u64 \<Rightarrow> u32 \<Rightarrow> u64 \<Rightarrow> u64 \<Rightarrow> u8 \<Rightarrow> allocator_bind_op \<Rightarrow> client_state option" where
  "track cl allocator_handle handle offset sz pat_index bind_op = do {
     ahnd_map \<leftarrow> track_object (cl_ahnd_map cl) allocator_handle handle offset sz pat_index bind_op;
     Some (cl\<lparr>cl_ahnd_map := ahnd_map\<rparr>)
   }"

text \<open>\<open>__intel_allocator_alloc\<close>\<close>

definition intel_allocator_alloc_any ::
  "client_state \<Rightarrow> u64 \<Rightarrow> u32 \<Rightarrow> u64 \<Rightarrow> u64 \<Rightarrow> u8 \<Rightarrow> allocator_strategy \<Rightarrow> (u64 \<times> client_state) option" where
  "intel_allocator_alloc_any cl allocator_handle handle sz alignment pat_index strategy = do {
     igt_assert (alignment AND (alignment - 1) = 0);
     (resp, cl) \<leftarrow> send cl (REQ_ALLOC allocator_handle handle sz alignment pat_index strategy);
     (case resp of
        RESP_ALLOC offset \<Rightarrow> do {
          cl \<leftarrow> track cl allocator_handle handle offset sz pat_index TO_BIND;
          Some (offset, cl)
        }
      | _ \<Rightarrow> None)
   }"

definition intel_allocator_alloc_with_strategy ::
  "client_state \<Rightarrow> u64 \<Rightarrow> u32 \<Rightarrow> u64 \<Rightarrow> u64 \<Rightarrow> allocator_strategy \<Rightarrow> (u64 \<times> client_state) option" where
  "intel_allocator_alloc_with_strategy cl allocator_handle handle sz alignment strategy = do {
     (offset, cl) \<leftarrow> intel_allocator_alloc_any cl allocator_handle handle sz alignment DEFAULT_PAT_INDEX strategy;
     igt_assert (offset \<noteq> ALLOC_INVALID_ADDRESS);
     Some (offset, cl)
   }"

definition intel_allocator_alloc :: "client_state \<Rightarrow> u64 \<Rightarrow> u32 \<Rightarrow> u64 \<Rightarrow> u64 \<Rightarrow> (u64 \<times> client_state) option" where
  "intel_allocator_alloc cl allocator_handle handle sz alignment = do {
     (offset, cl) \<leftarrow> intel_allocator_alloc_any cl allocator_handle handle sz alignment DEFAULT_PAT_INDEX
       ALLOC_STRATEGY_NONE;
     igt_assert (offset \<noteq> ALLOC_INVALID_ADDRESS);
     Some (offset, cl)
   }"

definition get_offset_pat_index :: "client_state \<Rightarrow> u64 \<Rightarrow> u32 \<Rightarrow> u64 \<Rightarrow> u64 \<Rightarrow> u8 \<Rightarrow> (u64 \<times> client_state) option" where
  "get_offset_pat_index cl ahnd handle sz alignment pat_index = do {
     (offset, cl) \<leftarrow> intel_allocator_alloc_any cl ahnd handle sz alignment pat_index ALLOC_STRATEGY_NONE;
     igt_assert (offset \<noteq> ALLOC_INVALID_ADDRESS);
     Some (offset, cl)
   }"

definition intel_allocator_free :: "client_state \<Rightarrow> u64 \<Rightarrow> u32 \<Rightarrow> (bool \<times> client_state) option" where
  "intel_allocator_free cl allocator_handle handle = do {
     (resp, cl) \<leftarrow> send cl (REQ_FREE allocator_handle handle);
     (case resp of
        RESP_FREE freed \<Rightarrow> do {
          cl \<leftarrow> track cl allocator_handle handle 0 0 0 TO_UNBIND;
          Some (freed, cl)
        }
      | _ \<Rightarrow> None)
   }"

definition intel_allocator_is_allocated ::
  "client_state \<Rightarrow> u64 \<Rightarrow> u32 \<Rightarrow> u64 \<Rightarrow> u64 \<Rightarrow> (bool \<times> client_state) option" where
  "intel_allocator_is_allocated cl allocator_handle handle sz offset = do {
     (resp, cl) \<leftarrow> send cl (REQ_IS_ALLOCATED allocator_handle handle sz offset);
     (case resp of RESP_IS_ALLOCATED allocated \<Rightarrow> Some (allocated, cl) | _ \<Rightarrow> None)
   }"

definition intel_allocator_reserve ::
  "client_state \<Rightarrow> u64 \<Rightarrow> u32 \<Rightarrow> u64 \<Rightarrow> u64 \<Rightarrow> (bool \<times> client_state) option" where
  "intel_allocator_reserve cl allocator_handle handle sz offset = do {
     (resp, cl) \<leftarrow> send cl (REQ_RESERVE allocator_handle handle offset (offset + sz));
     (case resp of RESP_RESERVE reserved \<Rightarrow> Some (reserved, cl) | _ \<Rightarrow> None)
   }"

definition intel_allocator_unreserve ::
  "client_state \<Rightarrow> u64 \<Rightarrow> u32 \<Rightarrow> u64 \<Rightarrow> u64 \<Rightarrow> (bool \<times> client_state) option" where
  "intel_allocator_unreserve cl allocator_handle handle sz offset = do {
     (resp, cl) \<leftarrow> send cl (REQ_UNRESERVE allocator_handle handle offset (offset + sz));
     (case resp of RESP_UNRESERVE unreserved \<Rightarrow> Some (unreserved, cl) | _ \<Rightarrow> None)
   }"

definition intel_allocator_is_reserved :: "client_state \<Rightarrow> u64 \<Rightarrow> u64 \<Rightarrow> u64 \<Rightarrow> (bool \<times> client_state) option" where
  "intel_allocator_is_reserved cl allocator_handle sz offset = do {
     (resp, cl) \<leftarrow> send cl (REQ_IS_RESERVED allocator_handle offset (offset + sz));
     (case resp of RESP_IS_RESERVED reserved \<Rightarrow> Some (reserved, cl) | _ \<Rightarrow> None)
   }"

text \<open>The result with the value written to \<open>*is_allocatedp\<close>.\<close>

definition intel_allocator_reserve_if_not_allocated ::
  "client_state \<Rightarrow> u64 \<Rightarrow> u32 \<Rightarrow> u64 \<Rightarrow> u64 \<Rightarrow> ((bool \<times> bool) \<times> client_state) option" where
  "intel_allocator_reserve_if_not_allocated cl allocator_handle handle sz offset = do {
     (resp, cl) \<leftarrow> send cl (REQ_RESERVE_IF_NOT_ALLOCATED allocator_handle handle offset (offset + sz));
     (case resp of RESP_RESERVE_IF_NOT_ALLOCATED allocated reserved \<Rightarrow> Some ((reserved, allocated), cl) | _ \<Rightarrow> None)
   }"

text \<open>\<open>intel_allocator_print\<close> in the process that owns the allocators: the assertions of the backend's
  \<open>print\<close>, of which the RELOC backend has none.\<close>

fun ial_print :: "ial_priv \<Rightarrow> bool \<Rightarrow> unit option" where
  "ial_print (Reloc_Priv r) full = Some ()"
| "ial_print (Simple_Priv s) full = map_option (\<lambda>_. ()) (intel_allocator_simple_print s full)"

definition intel_allocator_print :: "client_state \<Rightarrow> u64 \<Rightarrow> unit option" where
  "intel_allocator_print cl allocator_handle = do {
     igt_assert (allocator_handle \<noteq> 0);
     found \<leftarrow> allocator_find_by_handle (cl_service cl) allocator_handle;
     a \<leftarrow> found;
     al \<leftarrow> st_als (cl_service cl) a;
     ial_print (ial_priv (al_ial al)) True
   }"

text \<open>The inline helpers of \<^verbatim>\<open>lib/intel_allocator.h\<close>; \<open>relocs\<close> is \<open>gem_has_relocations(fd)\<close>.\<close>

definition get_simple_ahnd :: "bool \<Rightarrow> device_info \<Rightarrow> client_state \<Rightarrow> u32 \<Rightarrow> u32 \<Rightarrow> (u64 \<times> client_state) option" where
  "get_simple_ahnd relocs dev cl fd ctx =
     (if relocs then Some (0, cl) else intel_allocator_open dev cl fd ctx INTEL_ALLOCATOR_SIMPLE)"

definition get_simple_l2h_ahnd :: "bool \<Rightarrow> device_info \<Rightarrow> client_state \<Rightarrow> u32 \<Rightarrow> u32 \<Rightarrow> (u64 \<times> client_state) option" where
  "get_simple_l2h_ahnd relocs dev cl fd ctx =
     (if relocs then Some (0, cl)
      else intel_allocator_open_full dev cl fd ctx 0 0 INTEL_ALLOCATOR_SIMPLE ALLOC_STRATEGY_LOW_TO_HIGH 0)"

definition get_simple_h2l_ahnd :: "bool \<Rightarrow> device_info \<Rightarrow> client_state \<Rightarrow> u32 \<Rightarrow> u32 \<Rightarrow> (u64 \<times> client_state) option" where
  "get_simple_h2l_ahnd relocs dev cl fd ctx =
     (if relocs then Some (0, cl)
      else intel_allocator_open_full dev cl fd ctx 0 0 INTEL_ALLOCATOR_SIMPLE ALLOC_STRATEGY_HIGH_TO_LOW 0)"

definition get_reloc_ahnd :: "bool \<Rightarrow> device_info \<Rightarrow> client_state \<Rightarrow> u32 \<Rightarrow> u32 \<Rightarrow> (u64 \<times> client_state) option" where
  "get_reloc_ahnd relocs dev cl fd ctx =
     (if relocs then Some (0, cl) else intel_allocator_open dev cl fd ctx INTEL_ALLOCATOR_RELOC)"

definition put_ahnd :: "client_state \<Rightarrow> u64 \<Rightarrow> (bool \<times> client_state) option" where
  "put_ahnd cl ahnd = (if ahnd = 0 then Some (True, cl) else intel_allocator_close cl ahnd)"

definition get_offset :: "client_state \<Rightarrow> u64 \<Rightarrow> u32 \<Rightarrow> u64 \<Rightarrow> u64 \<Rightarrow> (u64 \<times> client_state) option" where
  "get_offset cl ahnd handle sz alignment =
     (if ahnd = 0 then Some (0, cl) else intel_allocator_alloc cl ahnd handle sz alignment)"

definition put_offset :: "client_state \<Rightarrow> u64 \<Rightarrow> u32 \<Rightarrow> (bool \<times> client_state) option" where
  "put_offset cl ahnd handle = (if ahnd = 0 then Some (False, cl) else intel_allocator_free cl ahnd handle)"

text \<open>Binding, on the client's state.\<close>

definition client_bind ::
  "xe_env \<Rightarrow> client_state \<Rightarrow> u64 \<Rightarrow> u32 \<Rightarrow> u32 \<Rightarrow> drm_call list \<Rightarrow> (client_state \<times> drm_call list) option" where
  "client_bind env cl allocator_handle sync_in sync_out tr = do {
     (ahnd_map, tr) \<leftarrow> intel_allocator_bind env (cl_ahnd_map cl) allocator_handle sync_in sync_out tr;
     Some (cl\<lparr>cl_ahnd_map := ahnd_map\<rparr>, tr)
   }"

subsection \<open>The invariant\<close>

text \<open>The handles that are tracked are the open ones, and the bind maps are keyed by object handle. \<open>n\<close>
  bounds the number of calls made.\<close>

definition ahnd_info_ok :: "nat \<Rightarrow> u64 \<Rightarrow> ahnd_info \<Rightarrow> bool" where
  "ahnd_info_ok n h ai \<longleftrightarrow> ai_ahnd ai = h \<and> bind_map_ok (ai_bind_map ai) \<and> size (map_contents (ai_bind_map ai)) \<le> n"

definition client_inv :: "nat \<Rightarrow> client_state \<Rightarrow> bool" where
  "client_inv n cl \<longleftrightarrow> service_inv (cl_service cl) \<and> service_bounded n (cl_service cl) \<and>
     map_of_keys igt_map_hash_64 igt_map_equal_64 (cl_ahnd_map cl) \<and> size (map_contents (cl_ahnd_map cl)) \<le> n \<and>
     (\<forall>h. map_abs (cl_ahnd_map cl) h = None \<longleftrightarrow> handle_al (cl_service cl) h = None) \<and>
     (\<forall>h ai. map_abs (cl_ahnd_map cl) h = Some ai \<longrightarrow> ahnd_info_ok n h ai)"

lemma client_invD:
  assumes "client_inv n cl"
  shows "service_inv (cl_service cl)" "service_bounded n (cl_service cl)"
    "map_of_keys igt_map_hash_64 igt_map_equal_64 (cl_ahnd_map cl)" "size (map_contents (cl_ahnd_map cl)) \<le> n"
    "map_abs (cl_ahnd_map cl) h = None \<longleftrightarrow> handle_al (cl_service cl) h = None"
    "map_abs (cl_ahnd_map cl) h = Some ai \<Longrightarrow> ahnd_info_ok n h ai"
  using assms by (auto simp: client_inv_def)

lemma ahnd_info_ok_Suc: "ahnd_info_ok n h ai \<Longrightarrow> ahnd_info_ok (n + 1) h ai"
  by (simp add: ahnd_info_ok_def)

lemma client_inv_Suc: "client_inv n cl \<Longrightarrow> client_inv (n + 1) cl"
  using service_bounded_Suc [of n "cl_service cl"] by (auto simp: client_inv_def ahnd_info_ok_def intro: le_SucI)

text \<open>A request that goes to one instance.\<close>

lemma send_inv:
  assumes inv: "client_inv n cl" "n < 2 ^ 16" and req: "to_instance req" and run: "send cl req = Some (resp, cl')"
  shows "client_inv (n + 1) cl' \<and> cl_ahnd_map cl' = cl_ahnd_map cl \<and>
    handle_al (cl_service cl') = handle_al (cl_service cl)"
proof -
  note s = client_invD(1,2) [OF inv(1)]
  obtain st where st: "handle_request (cl_service cl) req = Some (resp, st)" "cl' = cl\<lparr>cl_service := st\<rparr>"
    using run by (auto simp: send_def split: bind_splits)
  have "req_ok req" using req by (cases req) (auto simp: req_ok_def to_instance_def)
  from handle_request_inv [OF s inv(2) this st(1)] have new: "service_inv st" "service_bounded (n + 1) st" by auto
  have "handle_al st = handle_al (cl_service cl)"
    using st(1) unfolding handle_request_instance [OF s(1) req]
    by (auto simp: handle_al_def fun_eq_iff split: option.splits bind_splits)
  then show ?thesis using inv(1) new st(2) by (auto simp: client_inv_def ahnd_info_ok_def intro: le_SucI)
qed

text \<open>Rewriting the bind map of a tracked handle.\<close>

lemma modify_bind_map:
  assumes inv: "client_inv n cl" and ai: "map_abs (cl_ahnd_map cl) h = Some ai"
    and m: "bind_map_ok m" "size (map_contents m) \<le> n + 1"
  shows "\<exists>am. map_modify (cl_ahnd_map cl) h (\<lambda>ai. ai\<lparr>ai_bind_map := m\<rparr>) = Some am \<and>
    map_abs am = (map_abs (cl_ahnd_map cl))(h \<mapsto> ai\<lparr>ai_bind_map := m\<rparr>) \<and> client_inv (n + 1) (cl\<lparr>cl_ahnd_map := am\<rparr>)"
proof -
  obtain am k M where am: "map_modify (cl_ahnd_map cl) h (\<lambda>ai. ai\<lparr>ai_bind_map := m\<rparr>) = Some am"
    "map_of_keys igt_map_hash_64 igt_map_equal_64 am"
    "map_abs am = (\<lambda>q. if igt_map_equal_64 h q then Some (ai\<lparr>ai_bind_map := m\<rparr>) else map_abs (cl_ahnd_map cl) q)"
    "map_contents (cl_ahnd_map cl) = add_mset (k, ai) M" "map_contents am = add_mset (k, ai\<lparr>ai_bind_map := m\<rparr>) M"
    using map_modify_found [OF keys_ok_64 client_invD(3) [OF inv] ai] by blast
  have abs: "map_abs am = (map_abs (cl_ahnd_map cl))(h \<mapsto> ai\<lparr>ai_bind_map := m\<rparr>)"
    by (auto simp: am(3) igt_map_equal_64_def fun_eq_iff)
  have "ai_ahnd ai = h" using client_invD(6) [OF inv ai] by (simp add: ahnd_info_ok_def)
  then have "client_inv (n + 1) (cl\<lparr>cl_ahnd_map := am\<rparr>)"
    using client_inv_Suc [OF inv] client_invD(5) [OF inv, of h] ai am(2,4,5) m
    by (auto simp: client_inv_def abs ahnd_info_ok_def)
  with am(1) abs show ?thesis by blast
qed

lemma track_inv:
  assumes inv: "client_inv n cl" "n < 2 ^ 16" and op: "op \<noteq> BOUND"
    and run: "track cl h ob offset sz pat op = Some cl'"
  shows "client_inv (n + 1) cl' \<and> cl_service cl' = cl_service cl"
proof -
  note search = map_search_abs [OF client_invD(3) [OF inv(1)], of h]
  obtain am where am: "track_object (cl_ahnd_map cl) h ob offset sz pat op = Some am" "cl' = cl\<lparr>cl_ahnd_map := am\<rparr>"
    using run by (auto simp: track_def split: bind_splits)
  show ?thesis
  proof (cases "am = cl_ahnd_map cl")
    case True
    then show ?thesis using client_inv_Suc [OF inv(1)] am(2) by simp
  next
    case False
    then obtain ai m where ai: "map_abs (cl_ahnd_map cl) h = Some ai"
      "track_in_bind_map (ai_bind_map ai) ob offset sz pat op = Some m"
      "map_modify (cl_ahnd_map cl) h (\<lambda>ai. ai\<lparr>ai_bind_map := m\<rparr>) = Some am"
      using am(1) by (auto simp: track_object_def search split: if_splits bind_splits)
    have ok: "bind_map_ok (ai_bind_map ai)" "size (map_contents (ai_bind_map ai)) \<le> n"
      using client_invD(6) [OF inv(1) ai(1)] by (auto simp: ahnd_info_ok_def)
    have "bind_map_ok m \<and> size (map_contents m) \<le> n + 1"
    proof (cases op)
      case TO_BIND
      have "size (map_contents (ai_bind_map ai)) < 2 ^ 16" using ok(2) inv(2) by simp
      from track_bind_correct [OF ok(1) this, of ob offset sz pat] show ?thesis
        using ai(2) ok TO_BIND by (auto split: option.splits if_splits)
    next
      case TO_UNBIND
      from track_unbind_correct [OF ok(1), of ob offset sz pat] show ?thesis using ai(2) ok TO_UNBIND by auto
    qed (use op in simp)
    then have m: "bind_map_ok m" "size (map_contents m) \<le> n + 1" by auto
    from modify_bind_map [OF inv(1) ai(1) m] ai(3) am(2) show ?thesis by auto
  qed
qed

subsection \<open>What the calls do\<close>

lemma open_both_correct:
  assumes inv: "client_inv n cl" "n < 2 ^ 16"
    and range: "open_range dev fd start end_addr al = Some (s, e, al')" "e \<noteq> 0"
    and run: "intel_allocator_open_both dev cl fd ctx vm start end_addr ty strategy al = Some (ahnd, cl')"
  shows "client_inv (n + 1) cl' \<and> handle_al (cl_service cl) ahnd = None \<and>
    (\<exists>a. handle_al (cl_service cl') = (handle_al (cl_service cl))(ahnd \<mapsto> a)) \<and>
    map_abs (cl_ahnd_map cl') = (map_abs (cl_ahnd_map cl))(ahnd \<mapsto>
      \<lparr>ai_fd = fd, ai_ahnd = ahnd, ai_vm = (if ctx \<noteq> 0 then ctx else vm), ai_driver = dev_driver dev fd,
       ai_bind_map = igt_map_create igt_map_hash_32 igt_map_equal_32\<rparr>)"
proof -
  note si = client_invD(1,2) [OF inv(1)]
  let ?ai = "\<lparr>ai_fd = fd, ai_ahnd = ahnd, ai_vm = (if ctx \<noteq> 0 then ctx else vm), ai_driver = dev_driver dev fd,
       ai_bind_map = igt_map_create igt_map_hash_32 igt_map_equal_32\<rparr>"
  obtain st am where r: "handle_request (cl_service cl) (REQ_OPEN fd ctx vm s e ty strategy al') = Some (RESP_OPEN ahnd, st)"
    "track_ahnd (dev_driver dev fd) (cl_ahnd_map cl) fd ahnd (if ctx \<noteq> 0 then ctx else vm) = Some am"
    "cl' = cl\<lparr>cl_service := st, cl_ahnd_map := am\<rparr>"
    using run range(1) by (auto simp: intel_allocator_open_both_def send_def split: bind_splits alloc_resp.splits)
  from open_request [OF si inv(2) range(2) r(1)] obtain a where o: "ahnd = st_next_handle (cl_service cl)"
    "handle_al (cl_service cl) ahnd = None" "handle_al st = (handle_al (cl_service cl))(ahnd \<mapsto> a)" by auto
  have "service_inv st \<and> service_bounded (n + 1) st"
    by (rule handle_request_inv [OF si inv(2) _ r(1)]) (simp add: req_ok_def range(2))
  note st = this [THEN conjunct1] this [THEN conjunct2]
  have none: "map_abs (cl_ahnd_map cl) ahnd = None" using client_invD(5) [OF inv(1), of ahnd] o(2) by simp
  have room: "size (map_contents (cl_ahnd_map cl)) < 2 ^ 16" using client_invD(4) [OF inv(1)] inv(2) by simp
  obtain am' where am: "map_put (cl_ahnd_map cl) ahnd ?ai = Some am'" "map_of_keys igt_map_hash_64 igt_map_equal_64 am'"
    "map_contents am' = add_mset (ahnd, ?ai) (map_contents (cl_ahnd_map cl))"
    "map_abs am' = (\<lambda>q. if igt_map_equal_64 ahnd q then Some ?ai else map_abs (cl_ahnd_map cl) q)"
    using map_put_new [OF keys_ok_64 client_invD(3) [OF inv(1)] room none] by blast
  have "am = am'" using r(2) am(1) map_search_abs [OF client_invD(3) [OF inv(1)], of ahnd] none
    by (simp add: track_ahnd_def)
  have abs: "map_abs am = (map_abs (cl_ahnd_map cl))(ahnd \<mapsto> ?ai)"
    by (auto simp: am(4) \<open>am = am'\<close> igt_map_equal_64_def fun_eq_iff)
  have "ahnd_info_ok (n + 1) ahnd ?ai"
    by (simp add: ahnd_info_ok_def bind_map_ok_create map_of_keys_create keys_ok_32)
  moreover have "ahnd_info_ok (n + 1) h ai" if "map_abs (cl_ahnd_map cl) h = Some ai" for h ai
    using ahnd_info_ok_Suc client_invD(6) [OF inv(1) that] by blast
  ultimately have "client_inv (n + 1) cl'"
    using inv(1) st o(3) am(2,3) [folded \<open>am = am'\<close>] by (auto simp: client_inv_def r(3) abs)
  then show ?thesis using o abs r(3) by auto
qed

lemma close_client_correct:
  assumes inv: "client_inv n cl"
  shows "\<exists>is_empty cl'. intel_allocator_close cl h = Some (is_empty, cl') \<and> client_inv n cl' \<and>
    handle_al (cl_service cl') = (handle_al (cl_service cl))(h := None) \<and>
    map_abs (cl_ahnd_map cl') = (map_abs (cl_ahnd_map cl))(h := None)"
proof -
  note si = client_invD(1,2) [OF inv]
  have "\<exists>is_empty st. handle_request (cl_service cl) (REQ_CLOSE h) = Some (RESP_CLOSE is_empty, st) \<and>
      service_inv st \<and> service_bounded n st \<and> handle_al st = (handle_al (cl_service cl))(h := None)"
  proof (cases "handle_al (cl_service cl) h")
    case None
    then show ?thesis using si find_by_handle [OF si(1), of h] by (auto simp: handle_request_def fun_upd_idem)
  next
    case (Some a)
    obtain al where al: "st_als (cl_service cl) a = Some al" using handle_al_live [OF si(1) Some] by blast
    from close_correct [OF si(1) Some al si(2)] Some find_by_handle [OF si(1), of h] show ?thesis
      by (auto simp: handle_request_def)
  qed
  then obtain is_empty st where st: "handle_request (cl_service cl) (REQ_CLOSE h) = Some (RESP_CLOSE is_empty, st)"
    "service_inv st" "service_bounded n st" "handle_al st = (handle_al (cl_service cl))(h := None)" by blast
  note search = map_search_abs [OF client_invD(3) [OF inv], of h]
  have "\<exists>am. untrack_ahnd (cl_ahnd_map cl) h = Some am \<and> map_of_keys igt_map_hash_64 igt_map_equal_64 am \<and>
      map_abs am = (map_abs (cl_ahnd_map cl))(h := None) \<and> size (map_contents am) \<le> n"
  proof (cases "map_abs (cl_ahnd_map cl) h")
    case None
    then show ?thesis using client_invD(3,4) [OF inv] search by (simp add: untrack_ahnd_def fun_upd_idem)
  next
    case (Some ai)
    from map_remove_found [OF keys_ok_64 client_invD(3) [OF inv] Some] client_invD(4) [OF inv] search Some
    show ?thesis by (auto simp: untrack_ahnd_def igt_map_equal_64_def fun_eq_iff)
  qed
  then obtain am where am: "untrack_ahnd (cl_ahnd_map cl) h = Some am" "map_of_keys igt_map_hash_64 igt_map_equal_64 am"
    "map_abs am = (map_abs (cl_ahnd_map cl))(h := None)" "size (map_contents am) \<le> n" by blast
  have "client_inv n (cl\<lparr>cl_service := st, cl_ahnd_map := am\<rparr>)"
    using inv st am by (auto simp: client_inv_def split: if_splits)
  then show ?thesis using st(1,4) am(1,3) by (auto simp: intel_allocator_close_def send_def)
qed


subsection \<open>Sequences of calls\<close>

datatype client_call =
  Client_Open u32 u32 u32 u64 u64 u8 allocator_strategy u64
| Client_Close u64
| Client_Alloc u64 u32 u64 u64 u8 allocator_strategy
| Client_Free u64 u32
| Client_Reserve u64 u32 u64 u64
| Client_Unreserve u64 u32 u64 u64
| Client_Bind u64 u32 u32

fun client_step ::
  "device_info \<Rightarrow> xe_env \<Rightarrow> client_call \<Rightarrow> client_state \<times> drm_call list \<Rightarrow> (client_state \<times> drm_call list) option" where
  "client_step dev env (Client_Open fd ctx vm start end_addr ty strategy al) (cl, tr) =
     map_option (\<lambda>r. (snd r, tr)) (intel_allocator_open_both dev cl fd ctx vm start end_addr ty strategy al)"
| "client_step dev env (Client_Close h) (cl, tr) = map_option (\<lambda>r. (snd r, tr)) (intel_allocator_close cl h)"
| "client_step dev env (Client_Alloc h ob sz al pat strategy) (cl, tr) =
     map_option (\<lambda>r. (snd r, tr)) (intel_allocator_alloc_any cl h ob sz al pat strategy)"
| "client_step dev env (Client_Free h ob) (cl, tr) = map_option (\<lambda>r. (snd r, tr)) (intel_allocator_free cl h ob)"
| "client_step dev env (Client_Reserve h ob sz offset) (cl, tr) =
     map_option (\<lambda>r. (snd r, tr)) (intel_allocator_reserve cl h ob sz offset)"
| "client_step dev env (Client_Unreserve h ob sz offset) (cl, tr) =
     map_option (\<lambda>r. (snd r, tr)) (intel_allocator_unreserve cl h ob sz offset)"
| "client_step dev env (Client_Bind h sync_in sync_out) (cl, tr) = client_bind env cl h sync_in sync_out tr"

fun client_run ::
  "device_info \<Rightarrow> xe_env \<Rightarrow> client_call list \<Rightarrow> client_state \<times> drm_call list \<Rightarrow> (client_state \<times> drm_call list) option" where
  "client_run dev env [] s = Some s"
| "client_run dev env (c # cs) s = do { s' \<leftarrow> client_step dev env c s; client_run dev env cs s' }"

definition init_client :: client_state where
  "init_client = \<lparr>cl_service = init_state, cl_ahnd_map = igt_map_create igt_map_hash_64 igt_map_equal_64\<rparr>"

text \<open>The range an open asks for does not end at zero.\<close>

definition call_ok :: "device_info \<Rightarrow> client_call \<Rightarrow> bool" where
  "call_ok dev c = (case c of
     Client_Open fd ctx vm start end_addr ty strategy al \<Rightarrow>
       (case open_range dev fd start end_addr al of None \<Rightarrow> True | Some (s, e, al) \<Rightarrow> e \<noteq> 0)
   | _ \<Rightarrow> True)"

lemma init_client_inv: "client_inv 0 init_client"
  using init_state_inv
  by (simp add: client_inv_def init_client_def map_of_keys_create map_abs_create keys_ok_64)

text \<open>An alloc or free: a request and the tracking that follows it, counted as one step of the bound
  each.\<close>

lemma alloc_any_steps:
  assumes "intel_allocator_alloc_any cl h ob sz al pat strategy = Some (offset, cl')"
  shows "\<exists>cl1. send cl (REQ_ALLOC h ob sz al pat strategy) = Some (RESP_ALLOC offset, cl1) \<and>
    track cl1 h ob offset sz pat TO_BIND = Some cl'"
  using assms by (auto simp: intel_allocator_alloc_any_def split: bind_splits alloc_resp.splits)

lemma free_steps:
  assumes "intel_allocator_free cl h ob = Some (r, cl')"
  shows "\<exists>cl1. send cl (REQ_FREE h ob) = Some (RESP_FREE r, cl1) \<and> track cl1 h ob 0 0 0 TO_UNBIND = Some cl'"
  using assms by (auto simp: intel_allocator_free_def split: bind_splits alloc_resp.splits)

lemma client_bind_inv:
  assumes inv: "client_inv n cl" "n < 2 ^ 16" and run: "client_bind env cl h sync_in sync_out tr = Some (cl', tr')"
  shows "client_inv (n + 1) cl'"
proof -
  note search = map_search_abs [OF client_invD(3) [OF inv(1)], of h]
  obtain ai m am where b: "map_abs (cl_ahnd_map cl) h = Some ai" "xe_op_bind env ai sync_in sync_out tr = Some (m, tr')"
    "map_modify (cl_ahnd_map cl) h (\<lambda>ai. ai\<lparr>ai_bind_map := m\<rparr>) = Some am" "cl' = cl\<lparr>cl_ahnd_map := am\<rparr>"
    using run by (auto simp: client_bind_def intel_allocator_bind_def search split: bind_splits)
  have ok: "bind_map_ok (ai_bind_map ai)" "size (map_contents (ai_bind_map ai)) \<le> n"
    using client_invD(6) [OF inv(1) b(1)] by (auto simp: ahnd_info_ok_def)
  obtain l where "xe_op_loop (ai_bind_map ai) None [] = Some (l, m)"
    using b(2) by (auto simp: xe_op_bind_def split: bind_splits)
  then have m: "bind_map_ok m" "size (map_contents m) \<le> n + 1" using xe_op_loop_abs [OF ok(1)] ok(2) by auto
  from modify_bind_map [OF inv(1) b(1) m] b(3,4) show ?thesis by auto
qed

lemma client_step_inv:
  assumes inv: "client_inv n cl" "n + 1 < 2 ^ 16" and ok: "call_ok dev c"
    and run: "client_step dev env c (cl, tr) = Some (cl', tr')"
  shows "client_inv (n + 2) cl'"
proof (cases c)
  case (Client_Open fd ctx vm start end_addr ty strategy al)
  then obtain ahnd where o: "intel_allocator_open_both dev cl fd ctx vm start end_addr ty strategy al = Some (ahnd, cl')"
    using run by auto
  then obtain s e al' where r: "open_range dev fd start end_addr al = Some (s, e, al')"
    by (auto simp: intel_allocator_open_both_def split: bind_splits)
  have "e \<noteq> 0" using ok r Client_Open by (simp add: call_ok_def)
  from open_both_correct [OF inv(1) _ r this o] inv(2) have "client_inv (n + 1) cl'" by simp
  from client_inv_Suc [OF this] show ?thesis by simp
next
  case (Client_Close h)
  then have "client_inv n cl'" using close_client_correct [OF inv(1), of h] run by auto
  from client_inv_Suc [OF client_inv_Suc [OF this]] show ?thesis by simp
next
  case (Client_Alloc h ob sz al pat strategy)
  then obtain offset cl1 where s: "send cl (REQ_ALLOC h ob sz al pat strategy) = Some (RESP_ALLOC offset, cl1)"
    "track cl1 h ob offset sz pat TO_BIND = Some cl'" using run alloc_any_steps [of cl h ob sz al pat strategy] by auto
  have "client_inv (n + 1) cl1" using send_inv [OF inv(1) _ _ s(1)] inv(2) by (simp add: to_instance_def)
  from track_inv [OF this inv(2) _ s(2)] show ?thesis by simp
next
  case (Client_Free h ob)
  then obtain r cl1 where s: "send cl (REQ_FREE h ob) = Some (RESP_FREE r, cl1)"
    "track cl1 h ob 0 0 0 TO_UNBIND = Some cl'" using run free_steps [of cl h ob] by auto
  have "client_inv (n + 1) cl1" using send_inv [OF inv(1) _ _ s(1)] inv(2) by (simp add: to_instance_def)
  from track_inv [OF this inv(2) _ s(2)] show ?thesis by simp
next
  case (Client_Reserve h ob sz offset)
  then obtain resp where "send cl (REQ_RESERVE h ob offset (offset + sz)) = Some (resp, cl')"
    using run by (auto simp: intel_allocator_reserve_def split: bind_splits alloc_resp.splits)
  from send_inv [OF inv(1) _ _ this] inv(2) have "client_inv (n + 1) cl'" by (simp add: to_instance_def)
  from client_inv_Suc [OF this] show ?thesis by simp
next
  case (Client_Unreserve h ob sz offset)
  then obtain resp where "send cl (REQ_UNRESERVE h ob offset (offset + sz)) = Some (resp, cl')"
    using run by (auto simp: intel_allocator_unreserve_def split: bind_splits alloc_resp.splits)
  from send_inv [OF inv(1) _ _ this] inv(2) have "client_inv (n + 1) cl'" by (simp add: to_instance_def)
  from client_inv_Suc [OF this] show ?thesis by simp
next
  case (Client_Bind h sync_in sync_out)
  then have "client_inv (n + 1) cl'" using client_bind_inv [OF inv(1), of env h sync_in sync_out tr] inv(2) run by auto
  from client_inv_Suc [OF this] show ?thesis by simp
qed

lemma client_run_inv:
  assumes "client_inv n cl" "n + 2 * length cs < 2 ^ 16" "\<forall>c \<in> set cs. call_ok dev c"
    "client_run dev env cs (cl, tr) = Some (cl', tr')"
  shows "client_inv (n + 2 * length cs) cl'"
  using assms
proof (induction cs arbitrary: n cl tr)
  case (Cons c cs)
  then obtain cl1 tr1 where s: "client_step dev env c (cl, tr) = Some (cl1, tr1)"
    "client_run dev env cs (cl1, tr1) = Some (cl', tr')" by (auto split: bind_splits)
  have "client_inv (n + 2) cl1" using client_step_inv [OF Cons.prems(1) _ _ s(1)] Cons.prems(2,3) by simp
  from Cons.IH [OF this _ _ s(2)] Cons.prems(2,3) show ?case by (simp add: algebra_simps)
qed simp

subsection \<open>Properties\<close>

text \<open>C17: Through any sequence of up to 30000 calls of the client functions, the handles whose objects are
  tracked are exactly the open handles of the service, each under its own handle, and their bind maps are
  keyed by the handles of the objects in them.\<close>

theorem client_tracks_open_handles:
  assumes "length cs \<le> 30000" "\<forall>c \<in> set cs. call_ok dev c"
    and "client_run dev env cs (init_client, []) = Some (cl, tr)"
  shows "(\<forall>h. map_abs (cl_ahnd_map cl) h \<noteq> None \<longleftrightarrow> handle_al (cl_service cl) h \<noteq> None) \<and>
    (\<forall>h ai. map_abs (cl_ahnd_map cl) h = Some ai \<longrightarrow> ai_ahnd ai = h \<and>
       (\<forall>ob obj. map_abs (ai_bind_map ai) ob = Some obj \<longrightarrow> obj_handle obj = ob))"
proof -
  have inv: "client_inv (0 + 2 * length cs) cl"
    using client_run_inv [OF init_client_inv _ assms(2,3)] assms(1) by simp
  show ?thesis using client_invD(5,6) [OF inv] by (auto simp: ahnd_info_ok_def dest: bind_map_handle)
qed

text \<open>Closing through the client function never fails, whatever the handle: the handle is closed and no
  longer tracked, and every other handle stays open and tracked as it was.\<close>

theorem client_close_untracks:
  assumes "client_inv n cl"
  shows "\<exists>is_empty cl'. intel_allocator_close cl h = Some (is_empty, cl') \<and> client_inv n cl' \<and>
    handle_al (cl_service cl') = (handle_al (cl_service cl))(h := None) \<and>
    map_abs (cl_ahnd_map cl') = (map_abs (cl_ahnd_map cl))(h := None)"
  by (rule close_client_correct [OF assms])

theorem client_close_untracks_witness:
  "\<exists>is_empty cl'. intel_allocator_close init_client 5 = Some (is_empty, cl') \<and> map_abs (cl_ahnd_map cl') 5 = None"
  using client_close_untracks [OF init_client_inv, of 5] by auto

text \<open>On an Xe device an object that was bound and then freed has to be unbound before its handle is used
  again: allocating it before the next bind either finds no space or is stopped by the assertion in
  \<open>track_object\<close>.\<close>

theorem client_realloc_needs_unbind:
  assumes "client_inv n cl" "n < 2 ^ 16" "map_abs (cl_ahnd_map cl) h = Some ai" "ai_driver ai = INTEL_DRIVER_XE"
    and "map_abs (ai_bind_map ai) ob = Some obj" "obj_bind_op obj = TO_UNBIND"
    and "intel_allocator_alloc_any cl h ob sz al pat strategy = Some (offset, cl')"
  shows "offset = ALLOC_INVALID_ADDRESS"
proof (rule ccontr)
  assume ok: "offset \<noteq> ALLOC_INVALID_ADDRESS"
  from alloc_any_steps [OF assms(7)] obtain cl1 where s: "send cl (REQ_ALLOC h ob sz al pat strategy) = Some (RESP_ALLOC offset, cl1)"
    "track cl1 h ob offset sz pat TO_BIND = Some cl'" by blast
  from send_inv [OF assms(1,2) _ s(1)] have cl1: "cl_ahnd_map cl1 = cl_ahnd_map cl" by (simp add: to_instance_def)
  note search = map_search_abs [OF client_invD(3) [OF assms(1)], of h]
  have m: "bind_map_ok (ai_bind_map ai)" "size (map_contents (ai_bind_map ai)) < 2 ^ 16"
    using client_invD(6) [OF assms(1,3)] assms(2) by (auto simp: ahnd_info_ok_def)
  from track_bind_correct [OF m, of ob offset sz pat] assms(5,6)
  have "track_in_bind_map (ai_bind_map ai) ob offset sz pat TO_BIND = None" by (simp add: is_same_def)
  then show False using s(2) ok assms(3,4) search by (simp add: track_def track_object_def cl1)
qed


subsection \<open>Examples\<close>

definition example_dev :: device_info where
  "example_dev = \<lparr>dev_driver = (\<lambda>_. INTEL_DRIVER_XE), dev_safe_start_offset = (\<lambda>_. 0),
     dev_can_report_gtt_size = (\<lambda>_. False), dev_aperture_size = (\<lambda>_. 0), dev_uses_full_ppgtt = (\<lambda>_. True),
     dev_safe_alignment = (\<lambda>_. 0), dev_xe_va_bits = (\<lambda>_. Some 48), dev_xe_default_alignment = (\<lambda>_. 0x1000)\<rparr>"

definition example_client_open :: client_call where
  "example_client_open = Client_Open 3 1 0 0x40000 0x100000 INTEL_ALLOCATOR_SIMPLE ALLOC_STRATEGY_HIGH_TO_LOW 0x1000"

lemma example_client:
  "\<exists>cl al s. intel_allocator_open_both example_dev init_client 3 1 0 0x40000 0x100000 INTEL_ALLOCATOR_SIMPLE
      ALLOC_STRATEGY_HIGH_TO_LOW 0x1000 = Some (1, cl) \<and> client_inv 1 cl \<and>
    handle_al (cl_service cl) = [1 \<mapsto> 1] \<and> st_als (cl_service cl) = [1 \<mapsto> al] \<and>
    ial_priv (al_ial al) = Simple_Priv s \<and> object_of s = (\<lambda>_. None) \<and> simple_end s = 0x100000 \<and>
    size (map_contents (simple_objects s)) = 0 \<and> ial_default_alignment (al_ial al) = 0x1000 \<and>
    (\<exists>ai. map_abs (cl_ahnd_map cl) = [1 \<mapsto> ai] \<and> ai_driver ai = INTEL_DRIVER_XE)"
proof -
  obtain s0 where s0: "intel_allocator_simple_create 0x40000 0x100000 ALLOC_STRATEGY_HIGH_TO_LOW = Some s0"
    "simple_inv s0" "object_of s0 = (\<lambda>_. None)" "simple_end s0 = 0x100000"
    using simple_create_correct [of "0x40000" "0x100000" ALLOC_STRATEGY_HIGH_TO_LOW] by auto
  have c0: "size (map_contents (simple_objects s0)) = 0"
    using contents_empty_iff [OF keys_ok_32 simple_invD(1) [OF s0(2)]] s0(3) by simp
  let ?ial = "\<lparr>ial_fd = 3, ial_type = INTEL_ALLOCATOR_SIMPLE, ial_strategy = ALLOC_STRATEGY_HIGH_TO_LOW,
    ial_default_alignment = 0x1000, ial_refcount = 0, ial_priv = Simple_Priv s0\<rparr>"
  let ?al = "bump 1 \<lparr>al_fd = 3, al_ctx = 1, al_vm = 0, al_refcount = 0, al_ial = ?ial\<rparr>"
  have ial: "intel_allocator_create p 3 0x40000 0x100000 INTEL_ALLOCATOR_SIMPLE ALLOC_STRATEGY_HIGH_TO_LOW 0x1000 = Some ?ial" for p
    by (simp add: intel_allocator_create_def INTEL_ALLOCATOR_NONE_def INTEL_ALLOCATOR_RELOC_def INTEL_ALLOCATOR_SIMPLE_def s0)
  have none: "map_abs (GET_MAP init_state 0) (key_of 3 1 0) = None" "st_next_handle init_state = 1" "st_next_al init_state = 1"
    "st_als init_state = (\<lambda>_. None)"
    by (simp_all add: init_state_def GET_MAP_def map_abs_create keys_ok_ctx)
  from open_new [OF init_state_inv(1,2) _ none(1), of "0x100000" "0x40000" INTEL_ALLOCATOR_SIMPLE ALLOC_STRATEGY_HIGH_TO_LOW "0x1000"]
  obtain st where st: "handle_request init_state (REQ_OPEN 3 1 0 0x40000 0x100000 INTEL_ALLOCATOR_SIMPLE
      ALLOC_STRATEGY_HIGH_TO_LOW 0x1000) = Some (RESP_OPEN 1, st)" "handle_al st = [1 \<mapsto> 1]" "st_als st = [1 \<mapsto> ?al]"
    unfolding ial by (auto simp: none init_state_inv(3) handle_request_def)
  have range: "open_range example_dev 3 0x40000 0x100000 0x1000 = Some (0x40000, 0x100000, 0x1000)"
    by (simp add: open_range_def example_dev_def)
  have am0: "map_of_keys igt_map_hash_64 igt_map_equal_64 (cl_ahnd_map init_client)"
    "map_abs (cl_ahnd_map init_client) = (\<lambda>_. None)" "size (map_contents (cl_ahnd_map init_client)) < 2 ^ 16"
    by (simp_all add: init_client_def map_of_keys_create map_abs_create keys_ok_64)
  let ?ai = "\<lparr>ai_fd = 3, ai_ahnd = 1, ai_vm = 1, ai_driver = INTEL_DRIVER_XE,
    ai_bind_map = igt_map_create igt_map_hash_32 igt_map_equal_32\<rparr>"
  have n1: "map_abs (cl_ahnd_map init_client) 1 = None" by (simp add: am0(2))
  obtain am where am: "map_put (cl_ahnd_map init_client) 1 ?ai = Some am"
    using map_put_new [OF keys_ok_64 am0(1,3) n1] by blast
  have "track_ahnd INTEL_DRIVER_XE (cl_ahnd_map init_client) 3 1 1 = Some am"
    using am map_search_abs [OF am0(1), of 1] n1 by (simp add: track_ahnd_def)
  then have run: "intel_allocator_open_both example_dev init_client 3 1 0 0x40000 0x100000 INTEL_ALLOCATOR_SIMPLE
      ALLOC_STRATEGY_HIGH_TO_LOW 0x1000 = Some (1, \<lparr>cl_service = st, cl_ahnd_map = am\<rparr>)"
    using range st(1) by (simp add: intel_allocator_open_both_def send_def init_client_def) (simp add: example_dev_def)
  from open_both_correct [OF init_client_inv _ range _ run]
  have o: "client_inv 1 \<lparr>cl_service = st, cl_ahnd_map = am\<rparr>" "map_abs am = [1 \<mapsto> ?ai]"
    by (auto simp: am0(2) example_dev_def)
  have "ai_driver ?ai = INTEL_DRIVER_XE" by simp
  with run o st(2,3) s0(3,4) c0 show ?thesis
    by (intro exI [of _ "\<lparr>cl_service = st, cl_ahnd_map = am\<rparr>"] exI [of _ ?al] exI [of _ s0] conjI) auto
qed

theorem client_tracks_open_handles_witness:
  "\<exists>cl tr. client_run example_dev example_env [example_client_open] (init_client, []) = Some (cl, tr) \<and>
    map_abs (cl_ahnd_map cl) 1 \<noteq> None \<and> handle_al (cl_service cl) 1 \<noteq> None \<and> map_abs (cl_ahnd_map cl) 2 = None"
proof -
  obtain cl where cl: "intel_allocator_open_both example_dev init_client 3 1 0 0x40000 0x100000 INTEL_ALLOCATOR_SIMPLE
      ALLOC_STRATEGY_HIGH_TO_LOW 0x1000 = Some (1, cl)" "handle_al (cl_service cl) = [1 \<mapsto> 1]" using example_client by blast
  have run: "client_run example_dev example_env [example_client_open] (init_client, []) = Some (cl, [])"
    using cl(1) by (simp add: example_client_open_def)
  have ok: "length [example_client_open] \<le> 30000" "\<forall>c \<in> set [example_client_open]. call_ok example_dev c"
    by (simp_all add: call_ok_def example_client_open_def open_range_def example_dev_def)
  have h: "handle_al (cl_service cl) 1 \<noteq> None" "handle_al (cl_service cl) 2 = None" by (simp_all add: cl(2))
  from client_tracks_open_handles [OF ok run, THEN conjunct1] h
  have "map_abs (cl_ahnd_map cl) 1 \<noteq> None" "map_abs (cl_ahnd_map cl) 2 = None" by blast+
  with run h(1) show ?thesis by blast
qed

theorem client_realloc_needs_unbind_witness:
  "\<exists>cl ai obj cl'. map_abs (cl_ahnd_map cl) 1 = Some ai \<and> map_abs (ai_bind_map ai) 2 = Some obj \<and>
    obj_bind_op obj = TO_UNBIND \<and>
    intel_allocator_alloc_any cl 1 2 0x1000000 0x1000 0 ALLOC_STRATEGY_NONE = Some (ALLOC_INVALID_ADDRESS, cl')"
proof -
  obtain cl al s ai where cl: "client_inv 1 cl" "handle_al (cl_service cl) = [1 \<mapsto> 1]" "st_als (cl_service cl) = [1 \<mapsto> al]"
    "ial_priv (al_ial al) = Simple_Priv s" "object_of s = (\<lambda>_. None)" "simple_end s = 0x100000"
    "size (map_contents (simple_objects s)) = 0" "ial_default_alignment (al_ial al) = 0x1000"
    "map_abs (cl_ahnd_map cl) = [1 \<mapsto> ai]" "ai_driver ai = INTEL_DRIVER_XE" using example_client by blast
  obtain m1 l m2 m3 where m: "track_in_bind_map (igt_map_create igt_map_hash_32 igt_map_equal_32) 2 0x40000 0x1000 0 TO_BIND = Some m1"
    "xe_op_loop m1 None [] = Some (l, m2)" "track_in_bind_map m2 2 0 0 0 TO_UNBIND = Some m3"
    using reuse_map_reached [of "0x40000"] by blast
  let ?o = "\<lparr>obj_handle = 2, obj_offset = 0x40000, obj_size = 0x1000, obj_pat_index = 0, obj_bind_op = TO_BIND\<rparr>"
  have "map_abs (igt_map_create igt_map_hash_32 igt_map_equal_32 :: (u32, allocator_object) igt_map) = (\<lambda>_. None)"
    "size (map_contents (igt_map_create igt_map_hash_32 igt_map_equal_32 :: (u32, allocator_object) igt_map)) = 0"
    by (simp_all add: map_abs_create map_of_keys_create keys_ok_32)
  with track_bind_correct [OF bind_map_ok_create, of 2 "0x40000" "0x1000" 0] m(1)
  have m1: "bind_map_ok m1" "map_abs m1 = [2 \<mapsto> ?o]" "size (map_contents m1) = 1" by auto
  have m2: "bind_map_ok m2" "map_abs m2 2 = Some (?o\<lparr>obj_bind_op := BOUND\<rparr>)" "size (map_contents m2) \<le> 1"
    using xe_op_loop_abs [OF m1(1)] m(2) m1(2,3) by (auto simp: settled_def)
  have m3: "bind_map_ok m3" "map_abs m3 2 = Some (?o\<lparr>obj_bind_op := TO_UNBIND\<rparr>)" "size (map_contents m3) \<le> 1 + 1"
    using track_unbind_correct [OF m2(1), of 2 0 0 0] m(3) m2(2,3) by (auto simp: after_free_def)
  have ai: "map_abs (cl_ahnd_map cl) 1 = Some ai" by (simp add: cl(9))
  obtain am where am: "map_abs am = (map_abs (cl_ahnd_map cl))(1 \<mapsto> ai\<lparr>ai_bind_map := m3\<rparr>)"
    "client_inv (1 + 1) (cl\<lparr>cl_ahnd_map := am\<rparr>)" using modify_bind_map [OF cl(1) ai m3(1,3)] by blast
  let ?cl = "cl\<lparr>cl_ahnd_map := am\<rparr>"
  have h: "handle_al (cl_service cl) 1 = Some 1" "st_als (cl_service cl) 1 = Some al" "object_of s 2 = None"
    by (simp_all add: cl(2,3,5))
  have room: "size (map_contents (simple_objects s)) < 2 ^ 16" by (simp add: cl(7))
  have sinv: "simple_inv s" using service_invD(5) [OF client_invD(1) [OF cl(1)] h(2)] cl(4) by (simp add: al_ok_def)
  have mx: "max (ial_default_alignment (al_ial al)) 0x1000 = 0x1000" by (simp add: cl(8))
  obtain r s' where r: "handle_request (cl_service cl) (REQ_ALLOC 1 2 0x1000000 0x1000 0 ALLOC_STRATEGY_NONE) =
      Some (RESP_ALLOC r, (cl_service cl)\<lparr>st_als := (st_als (cl_service cl))(1 \<mapsto> set_priv al (Simple_Priv s'))\<rparr>)"
    "intel_allocator_simple_alloc s 2 0x1000000 0x1000 0 ALLOC_STRATEGY_NONE = Some (r, s')"
    using alloc_request [OF client_invD(1) [OF cl(1)] h(1,2) cl(4) _ h(3) _ _ room, of "0x1000000" "0x1000" 0 ALLOC_STRATEGY_NONE]
    by (auto simp: mx)
  have "\<not> fits_free s 0x1000000 0x1000 a" for a
  proof
    assume "fits_free s 0x1000000 0x1000 a"
    then have "a + 0xffffff \<in> free_space s" by (auto simp: fits_free_def)
    then have "0 < cover (free_space s) (blocks s) (a + 0xffffff)" by (simp add: cover_def)
    then show False using simple_invD(8) [OF sinv, of "a + 0xffffff"] cl(6) by (simp split: if_splits)
  qed
  then have "r = ALLOC_INVALID_ADDRESS"
    using simple_alloc_new [OF sinv _ h(3) _ _ room, of "0x1000000" "0x1000" 0 ALLOC_STRATEGY_NONE] r(2) by auto
  have "\<exists>cl'. intel_allocator_alloc_any ?cl 1 2 0x1000000 0x1000 0 ALLOC_STRATEGY_NONE = Some (r, cl')"
    using r(1) \<open>r = ALLOC_INVALID_ADDRESS\<close> by (simp add: intel_allocator_alloc_any_def send_def track_def track_object_def)
  then obtain cl' where run: "intel_allocator_alloc_any ?cl 1 2 0x1000000 0x1000 0 ALLOC_STRATEGY_NONE = Some (r, cl')" ..
  have ai': "map_abs (cl_ahnd_map ?cl) 1 = Some (ai\<lparr>ai_bind_map := m3\<rparr>)" "ai_driver (ai\<lparr>ai_bind_map := m3\<rparr>) = INTEL_DRIVER_XE"
    "map_abs (ai_bind_map (ai\<lparr>ai_bind_map := m3\<rparr>)) 2 = Some (?o\<lparr>obj_bind_op := TO_UNBIND\<rparr>)"
    by (simp_all add: am(1) cl(10) m3(2))
  have "r = ALLOC_INVALID_ADDRESS" by (rule client_realloc_needs_unbind [OF am(2) _ ai' _ run]) simp_all
  with run ai'(1,3) show ?thesis
    by (intro exI [of _ ?cl] exI [of _ "ai\<lparr>ai_bind_map := m3\<rparr>"] exI [of _ "?o\<lparr>obj_bind_op := TO_UNBIND\<rparr>"] exI [of _ cl']) simp
qed

end
