(* ===== verification/Igt_Vec.thy ===== *)
theory Igt_Vec
  imports Prelude
begin

text \<open>
  The growable array of \<open>lib/igt_vec.c\<close>. Elements are blocks of \<open>elem_size\<close> bytes in one
  buffer, and pointers to elements are byte offsets into it. The C functions compute in
  \<open>int\<close>; a product or sum that leaves its range is undefined behaviour there and the error
  \<open>Int_Overflow\<close> here. The abstraction \<open>vec_list\<close> is the list of the stored blocks.
\<close>

datatype vec_error = Assert_Failed | Int_Overflow

record igt_vec =
  elems :: "u8 list"
  elem_size :: int
  vsize :: int
  vlen :: int

definition c_int :: "int \<Rightarrow> vec_error + int" where
  "c_int x = (if - (2 ^ 31) \<le> x \<and> x < 2 ^ 31 then Inr x else Inl Int_Overflow)"

text \<open>\<open>realloc\<close> keeps the bytes that fit and leaves the rest undetermined: \<open>junk\<close>.\<close>

definition realloc_bytes :: "(nat \<Rightarrow> u8) \<Rightarrow> u8 list \<Rightarrow> nat \<Rightarrow> u8 list" where
  "realloc_bytes junk bs n = map (\<lambda>i. if i < length bs then bs ! i else junk i) [0..<n]"

text \<open>\<open>memcpy\<close> and \<open>memmove\<close> into the buffer at an offset.\<close>

definition write_bytes :: "u8 list \<Rightarrow> nat \<Rightarrow> u8 list \<Rightarrow> u8 list" where
  "write_bytes bs off new = take off bs @ new @ drop (off + length new) bs"

definition read_bytes :: "u8 list \<Rightarrow> nat \<Rightarrow> nat \<Rightarrow> u8 list" where
  "read_bytes bs off n = take n (drop off bs)"

definition igt_vec_init :: "int \<Rightarrow> igt_vec" where
  "igt_vec_init es = \<lparr>elems = [], elem_size = es, vsize = 0, vlen = 0\<rparr>"

definition igt_vec_fini :: "igt_vec \<Rightarrow> igt_vec" where
  "igt_vec_fini vec = \<lparr>elems = [], elem_size = 0, vsize = 0, vlen = 0\<rparr>"

definition igt_vec_elem :: "igt_vec \<Rightarrow> int \<Rightarrow> vec_error + nat" where
  "igt_vec_elem vec idx =
    (if 0 \<le> idx \<and> idx < vlen vec
     then (case c_int (idx * elem_size vec) of Inl e \<Rightarrow> Inl e | Inr off \<Rightarrow> Inr (nat off))
     else Inl Assert_Failed)"

text \<open>The comparison \<open>vec->len++ >= vec->size\<close> reads the old length. \<open>mem_ok\<close> is whether
  \<open>realloc\<close> succeeds.\<close>

definition igt_vec_grow :: "bool \<Rightarrow> (nat \<Rightarrow> u8) \<Rightarrow> igt_vec \<Rightarrow> vec_error + (igt_vec \<times> nat)" where
  "igt_vec_grow mem_ok junk vec =
    (case c_int (vlen vec + 1) of Inl e \<Rightarrow> Inl e | Inr n \<Rightarrow>
      (let v1 = vec\<lparr>vlen := n\<rparr> in
       (case (if vsize vec \<le> vlen vec
              then (case c_int (if vsize vec \<noteq> 0 then vsize vec * 2 else 8) of Inl e \<Rightarrow> Inl e | Inr s \<Rightarrow>
                   (case c_int (s * elem_size vec) of Inl e \<Rightarrow> Inl e | Inr b \<Rightarrow>
                     if mem_ok
                     then Inr (v1\<lparr>vsize := s, elems := realloc_bytes junk (elems vec) (nat b)\<rparr>)
                     else Inl Assert_Failed))
              else Inr v1) of
          Inl e \<Rightarrow> Inl e
        | Inr v2 \<Rightarrow> (case igt_vec_elem v2 (vlen v2 - 1) of Inl e \<Rightarrow> Inl e | Inr p \<Rightarrow> Inr (v2, p)))))"

definition igt_vec_push :: "bool \<Rightarrow> (nat \<Rightarrow> u8) \<Rightarrow> igt_vec \<Rightarrow> u8 list \<Rightarrow> vec_error + igt_vec" where
  "igt_vec_push mem_ok junk vec elem =
    (case igt_vec_grow mem_ok junk vec of Inl e \<Rightarrow> Inl e
     | Inr (v, p) \<Rightarrow> Inr (v\<lparr>elems := write_bytes (elems v) p (take (nat (elem_size vec)) elem)\<rparr>))"

definition igt_vec_length :: "igt_vec \<Rightarrow> int" where
  "igt_vec_length vec = vlen vec"

function index_loop :: "igt_vec \<Rightarrow> u8 list \<Rightarrow> int \<Rightarrow> vec_error + int" where
  "index_loop vec elem i =
    (if i < vlen vec
     then (case igt_vec_elem vec i of Inl e \<Rightarrow> Inl e
           | Inr p \<Rightarrow> if read_bytes (elems vec) p (nat (elem_size vec)) = take (nat (elem_size vec)) elem
                     then Inr i else index_loop vec elem (i + 1))
     else Inr (- 1))"
  by pat_completeness auto
termination by (relation "measure (\<lambda>(vec, elem, i). nat (vlen vec - i))") auto

declare index_loop.simps [simp del]

definition igt_vec_index :: "igt_vec \<Rightarrow> u8 list \<Rightarrow> vec_error + int" where
  "igt_vec_index vec elem = index_loop vec elem 0"

definition igt_vec_remove :: "igt_vec \<Rightarrow> int \<Rightarrow> vec_error + igt_vec" where
  "igt_vec_remove vec idx =
    (if 0 \<le> idx \<and> idx < vlen vec
     then (case igt_vec_elem vec idx of Inl e \<Rightarrow> Inl e | Inr dst \<Rightarrow>
          (case igt_vec_elem vec (idx + 1) of Inl e \<Rightarrow> Inl e | Inr src \<Rightarrow>
          (case c_int ((vlen vec - 1 - idx) * elem_size vec) of Inl e \<Rightarrow> Inl e | Inr n \<Rightarrow>
            Inr (vec\<lparr>elems := write_bytes (elems vec) dst (read_bytes (elems vec) src (nat n)),
                     vlen := vlen vec - 1\<rparr>))))
     else Inl Assert_Failed)"

subsection \<open>Abstraction to lists\<close>

definition vec_block :: "igt_vec \<Rightarrow> nat \<Rightarrow> u8 list" where
  "vec_block vec i = read_bytes (elems vec) (i * nat (elem_size vec)) (nat (elem_size vec))"

definition vec_list :: "igt_vec \<Rightarrow> u8 list list" where
  "vec_list vec = map (vec_block vec) [0..<nat (vlen vec)]"

definition vec_ok :: "igt_vec \<Rightarrow> bool" where
  "vec_ok vec \<longleftrightarrow> 0 < elem_size vec \<and> 0 \<le> vlen vec \<and> vlen vec \<le> vsize vec \<and>
     length (elems vec) = nat (vsize vec) * nat (elem_size vec) \<and>
     vsize vec * elem_size vec < 2 ^ 31"

lemma length_vec_list [simp]: "length (vec_list vec) = nat (vlen vec)"
  by (simp add: vec_list_def)

lemma c_int_ok: "0 \<le> x \<Longrightarrow> x < 2 ^ 31 \<Longrightarrow> c_int x = Inr x"
  by (simp add: c_int_def)

lemma elem_mult_le:
  fixes i n es :: int
  assumes "0 < es" "i \<le> n"
  shows "i * es \<le> n * es"
  using assms by (intro mult_right_mono) auto

lemma c_int_mult:
  assumes "0 < es" "0 \<le> i" "i \<le> n" "n * es < 2 ^ 31"
  shows "c_int (i * es) = Inr (i * es)"
  using order.strict_trans1 [OF elem_mult_le [OF assms(1,3)] assms(4)] assms(1,2)
  by (intro c_int_ok) simp_all

lemma size_small: "vec_ok vec \<Longrightarrow> vsize vec < 2 ^ 31"
  using elem_mult_le [of "elem_size vec" 1 "elem_size vec"] mult_left_mono [of 1 "elem_size vec" "vsize vec"]
  by (simp add: vec_ok_def)

lemma vec_elem_ok:
  assumes "vec_ok vec" "0 \<le> idx" "idx < vlen vec"
  shows "igt_vec_elem vec idx = Inr (nat idx * nat (elem_size vec))"
proof -
  have "c_int (idx * elem_size vec) = Inr (idx * elem_size vec)"
    using assms by (intro c_int_mult [of _ _ "vsize vec"]) (auto simp: vec_ok_def)
  then show ?thesis using assms by (simp add: igt_vec_elem_def nat_mult_distrib)
qed

lemma block_end_le:
  fixes i n es k :: nat
  assumes "i < n" "k < es"
  shows "i * es + k < n * es"
proof -
  have "i * es + k < (i + 1) * es" using assms(2) by simp
  also have "\<dots> \<le> n * es" using assms(1) by (intro mult_le_mono1) simp
  finally show ?thesis .
qed

lemma length_read_bytes:
  "off + n \<le> length bs \<Longrightarrow> length (read_bytes bs off n) = n"
  by (simp add: read_bytes_def)

lemma nth_read_bytes:
  "off + n \<le> length bs \<Longrightarrow> k < n \<Longrightarrow> read_bytes bs off n ! k = bs ! (off + k)"
  by (simp add: read_bytes_def)

lemma read_bytes_cong:
  assumes "off + n \<le> length bs" "off' + n \<le> length cs"
    and "\<And>k. k < n \<Longrightarrow> bs ! (off + k) = cs ! (off' + k)"
  shows "read_bytes bs off n = read_bytes cs off' n"
  using assms by (intro nth_equalityI) (auto simp: length_read_bytes nth_read_bytes)

lemma length_write_bytes:
  "off + length new \<le> length bs \<Longrightarrow> length (write_bytes bs off new) = length bs"
  by (simp add: write_bytes_def)

lemma nth_write_bytes:
  assumes "off + length new \<le> length bs" "i < length bs"
  shows "write_bytes bs off new ! i
    = (if off \<le> i \<and> i < off + length new then new ! (i - off) else bs ! i)"
  using assms by (auto simp: write_bytes_def nth_append min_def)

lemma nth_realloc_bytes:
  "i < n \<Longrightarrow> i < length bs \<Longrightarrow> realloc_bytes junk bs n ! i = bs ! i"
  by (simp add: realloc_bytes_def)

lemma length_realloc_bytes [simp]: "length (realloc_bytes junk bs n) = n"
  by (simp add: realloc_bytes_def)

text \<open>Block \<open>i\<close> of a valid vector is inside the buffer.\<close>

lemma block_inside:
  assumes "vec_ok vec" "i < nat (vlen vec)"
  shows "i * nat (elem_size vec) + nat (elem_size vec) \<le> length (elems vec)"
proof -
  have "(i + 1) * nat (elem_size vec) \<le> nat (vsize vec) * nat (elem_size vec)"
    using assms by (intro mult_le_mono1) (auto simp: vec_ok_def)
  then show ?thesis using assms by (simp add: vec_ok_def add.commute)
qed

subsection \<open>Push\<close>

text \<open>The number of blocks the buffer has room for after the next block is appended.\<close>

definition next_size :: "igt_vec \<Rightarrow> int" where
  "next_size vec = (if vlen vec < vsize vec then vsize vec else if vsize vec = 0 then 8 else 2 * vsize vec)"

lemma vec_grow_ok:
  assumes ok: "vec_ok vec" and fits: "vlen vec = vsize vec \<longrightarrow> mem_ok \<and> next_size vec * elem_size vec < 2 ^ 31"
  shows "\<exists>v. igt_vec_grow mem_ok junk vec = Inr (v, nat (vlen vec) * nat (elem_size vec)) \<and>
    vec_ok v \<and> elem_size v = elem_size vec \<and> vlen v = vlen vec + 1 \<and> vsize v = next_size vec \<and>
    (\<forall>i < length (elems vec). i < length (elems v) \<and> elems v ! i = elems vec ! i)"
proof -
  have es: "0 < elem_size vec" and l0: "0 \<le> vlen vec" "vlen vec \<le> vsize vec" using ok by (auto simp: vec_ok_def)
  show ?thesis
  proof (cases "vlen vec = vsize vec")
    case False
    then have "c_int (vlen vec + 1) = Inr (vlen vec + 1)"
      using size_small [OF ok] l0 False by (intro c_int_ok) auto
    moreover have "vec_ok (vec\<lparr>vlen := vlen vec + 1\<rparr>)" using ok False by (auto simp: vec_ok_def)
    ultimately show ?thesis
      using vec_elem_ok [of "vec\<lparr>vlen := vlen vec + 1\<rparr>" "vlen vec"] l0 False
      by (auto simp: igt_vec_grow_def Let_def next_size_def)
  next
    case True
    define s where "s = (if vsize vec \<noteq> 0 then vsize vec * 2 else 8)"
    have s: "vlen vec < s" "0 < s" "vsize vec \<le> s" and n: "next_size vec = s"
      using True l0 by (auto simp: s_def next_size_def)
    have mem: mem_ok and sb: "s * elem_size vec < 2 ^ 31" using True fits n by auto
    have "s * 1 \<le> s * elem_size vec" using es s(2) by (intro mult_left_mono) auto
    then have "s < 2 ^ 31" using sb by simp
    then have c: "c_int (vlen vec + 1) = Inr (vlen vec + 1)" "c_int s = Inr s"
      using s l0 by (simp_all add: c_int_def)
    have c': "c_int (s * elem_size vec) = Inr (s * elem_size vec)"
      using sb es s(2) by (intro c_int_ok) simp_all
    define v where "v = vec\<lparr>vlen := vlen vec + 1, vsize := s,
      elems := realloc_bytes junk (elems vec) (nat (s * elem_size vec))\<rparr>"
    have v: "vec_ok v"
      using es l0 s sb by (simp add: v_def vec_ok_def nat_mult_distrib)
    have "igt_vec_elem v (vlen vec) = Inr (nat (vlen vec) * nat (elem_size vec))"
      using vec_elem_ok [OF v, of "vlen vec"] l0 by (simp add: v_def)
    then have g: "igt_vec_grow mem_ok junk vec = Inr (v, nat (vlen vec) * nat (elem_size vec))"
      using mem True c c' by (simp add: igt_vec_grow_def Let_def v_def s_def [symmetric])
    have "nat (vsize vec) * nat (elem_size vec) \<le> nat (s * elem_size vec)"
      using s es by (simp add: nat_mult_distrib mult_le_mono1 nat_mono)
    then have "\<forall>i < length (elems vec). i < length (elems v) \<and> elems v ! i = elems vec ! i"
      using ok by (auto simp: v_def vec_ok_def nth_realloc_bytes)
    then show ?thesis using g v n by (auto simp: v_def)
  qed
qed

text \<open>The blocks of a vector after a write of one block.\<close>

lemma vec_list_write:
  assumes ok: "vec_ok v" and i: "i < nat (vlen v)" and new: "length new = nat (elem_size v)"
  shows "vec_list (v\<lparr>elems := write_bytes (elems v) (i * nat (elem_size v)) new\<rparr>) = (vec_list v)[i := new]"
    and "vec_ok (v\<lparr>elems := write_bytes (elems v) (i * nat (elem_size v)) new\<rparr>)"
proof -
  let ?es = "nat (elem_size v)"
  let ?v = "v\<lparr>elems := write_bytes (elems v) (i * ?es) new\<rparr>"
  have li: "i * ?es + ?es \<le> length (elems v)" by (rule block_inside [OF ok i])
  then have len: "length (elems ?v) = length (elems v)" using new by (simp add: length_write_bytes)
  show ok': "vec_ok ?v" using ok len by (simp add: vec_ok_def)
  show "vec_list ?v = (vec_list v)[i := new]"
  proof (rule nth_equalityI)
    fix j assume "j < length (vec_list ?v)"
    then have j: "j < nat (vlen v)" by simp
    have lj: "j * ?es + ?es \<le> length (elems v)" by (rule block_inside [OF ok j])
    have "vec_block ?v j = (if j = i then new else vec_block v j)"
    proof (rule nth_equalityI)
      show "length (vec_block ?v j) = length (if j = i then new else vec_block v j)"
        using lj len new by (auto simp: vec_block_def length_read_bytes)
      fix k assume "k < length (vec_block ?v j)"
      then have k: "k < ?es" using lj len by (simp add: vec_block_def length_read_bytes)
      have "\<not> (i * ?es \<le> j * ?es + k \<and> j * ?es + k < i * ?es + ?es)" if "j \<noteq> i"
      proof (cases "j < i")
        case True
        then show ?thesis using block_end_le [of j i k ?es] k by simp
      next
        case False
        then have "(i + 1) * ?es \<le> j * ?es" using that by (intro mult_le_mono1) simp
        then show ?thesis by simp
      qed
      then show "vec_block ?v j ! k = (if j = i then new else vec_block v j) ! k"
        using k lj li len new by (auto simp: vec_block_def nth_read_bytes nth_write_bytes)
    qed
    then show "vec_list ?v ! j = (vec_list v)[i := new] ! j"
      using j by (simp add: vec_list_def nth_list_update)
  qed simp
qed

lemma vec_list_grown:
  assumes "vec_ok vec" "vec_ok v" "elem_size v = elem_size vec" "vlen v = vlen vec + 1"
    and "\<forall>i < length (elems vec). i < length (elems v) \<and> elems v ! i = elems vec ! i"
  shows "\<exists>x. vec_list v = vec_list vec @ [x]"
proof -
  have l: "nat (vlen v) = nat (vlen vec) + 1"
    using assms(1,4) by (simp add: vec_ok_def nat_add_distrib)
  have "vec_block v i = vec_block vec i" if i: "i < nat (vlen vec)" for i
  proof -
    have e: "i * nat (elem_size vec) + nat (elem_size vec) \<le> length (elems vec)"
      by (rule block_inside [OF assms(1) i])
    have e': "i * nat (elem_size vec) + nat (elem_size vec) \<le> length (elems v)"
      using block_inside [OF assms(2), of i] i l assms(3) by simp
    show ?thesis
      unfolding vec_block_def assms(3) by (rule read_bytes_cong [OF e' e]) (use assms(5) e in auto)
  qed
  then have "vec_list v = vec_list vec @ [vec_block v (nat (vlen vec))]"
    by (simp add: vec_list_def l)
  then show ?thesis ..
qed

lemma vec_push_ok:
  assumes ok: "vec_ok vec" and el: "length elem = nat (elem_size vec)"
    and fits: "vlen vec = vsize vec \<longrightarrow> mem_ok \<and> next_size vec * elem_size vec < 2 ^ 31"
  shows "\<exists>v. igt_vec_push mem_ok junk vec elem = Inr v \<and> vec_ok v \<and>
    elem_size v = elem_size vec \<and> vsize v = next_size vec \<and> vec_list v = vec_list vec @ [elem]"
proof -
  obtain v where g: "igt_vec_grow mem_ok junk vec = Inr (v, nat (vlen vec) * nat (elem_size vec))"
    and v: "vec_ok v" "elem_size v = elem_size vec" "vlen v = vlen vec + 1" "vsize v = next_size vec"
    and same: "\<forall>i < length (elems vec). i < length (elems v) \<and> elems v ! i = elems vec ! i"
    using vec_grow_ok [OF ok fits] by blast
  obtain x where x: "vec_list v = vec_list vec @ [x]" using vec_list_grown [OF ok v(1-3) same] by blast
  have i: "nat (vlen vec) < nat (vlen v)" using v ok by (simp add: vec_ok_def)
  show ?thesis
    using vec_list_write [OF v(1) i, of elem] el v g x by (simp add: igt_vec_push_def list_update_append)
qed

subsection \<open>Index and remove\<close>

lemma index_loop_ok:
  assumes "vec_ok vec" "0 \<le> i" "length elem = nat (elem_size vec)"
  shows "index_loop vec elem i =
    Inr (if elem \<in> set (drop (nat i) (vec_list vec))
         then i + int (length (takeWhile (\<lambda>b. b \<noteq> elem) (drop (nat i) (vec_list vec)))) else - 1)"
  using assms
proof (induction vec elem i rule: index_loop.induct)
  case (1 vec elem i)
  show ?case
  proof (cases "i < vlen vec")
    case False
    then show ?thesis by (subst index_loop.simps) (simp add: nat_le_iff)
  next
    case True
    then have n: "nat i < length (vec_list vec)" using 1 by simp
    have b: "vec_list vec ! nat i = vec_block vec (nat i)" using n by (simp add: vec_list_def)
    have d: "drop (nat i) (vec_list vec) = vec_block vec (nat i) # drop (nat (i + 1)) (vec_list vec)"
      using Cons_nth_drop_Suc [OF n] 1 b by (simp add: nat_add_distrib)
    have e: "igt_vec_elem vec i = Inr (nat i * nat (elem_size vec))" using vec_elem_ok 1 True by blast
    show ?thesis
      using 1 True e by (subst index_loop.simps) (auto simp: d vec_block_def)
  qed
qed

lemma vec_remove_ok:
  assumes ok: "vec_ok vec" and i: "0 \<le> idx" "idx + 1 < vlen vec"
  shows "\<exists>v. igt_vec_remove vec idx = Inr v \<and> vec_ok v \<and>
    vec_list v = take (nat idx) (vec_list vec) @ drop (nat idx + 1) (vec_list vec)"
proof -
  let ?es = "nat (elem_size vec)" and ?d = "nat idx" and ?n = "nat (vlen vec)"
  have es: "0 < elem_size vec" using ok by (simp add: vec_ok_def)
  define m where "m = ?n - 1 - ?d"
  have m: "nat ((vlen vec - 1 - idx) * elem_size vec) = m * ?es"
    using i by (simp add: m_def nat_mult_distrib nat_diff_distrib)
  have c: "c_int ((vlen vec - 1 - idx) * elem_size vec) = Inr ((vlen vec - 1 - idx) * elem_size vec)"
    using es i ok by (intro c_int_mult [of _ _ "vsize vec"]) (auto simp: vec_ok_def)
  define rd where "rd = read_bytes (elems vec) ((?d + 1) * ?es) (m * ?es)"
  define bs where "bs = write_bytes (elems vec) (?d * ?es) rd"
  define v where "v = vec\<lparr>elems := bs, vlen := vlen vec - 1\<rparr>"
  have r: "igt_vec_remove vec idx = Inr v"
    using i vec_elem_ok [OF ok, of idx] vec_elem_ok [OF ok, of "idx + 1"] c m
    by (simp add: igt_vec_remove_def v_def bs_def rd_def nat_add_distrib)
  have dm: "?d + 1 + m = ?n" using i by (simp add: m_def)
  have "?n * ?es \<le> length (elems vec)"
    using ok by (auto simp: vec_ok_def intro!: mult_le_mono1)
  then have fit: "(?d + 1) * ?es + m * ?es \<le> length (elems vec)"
    by (simp only: dm [symmetric] add_mult_distrib)
  have lr: "length rd = m * ?es"
    unfolding rd_def by (rule length_read_bytes [OF fit])
  have lb: "length bs = length (elems vec)"
    unfolding bs_def using fit lr by (intro length_write_bytes) simp
  have nb: "bs ! q = (if ?d * ?es \<le> q \<and> q < ?d * ?es + m * ?es
      then rd ! (q - ?d * ?es) else elems vec ! q)"
    if "q < length bs" for q
    unfolding bs_def using that fit lb by (subst nth_write_bytes) (simp_all add: lr)
  have vok: "vec_ok v" using ok i lb by (auto simp: v_def vec_ok_def)
  have "vec_block v j = vec_block vec (if j < ?d then j else j + 1)" if j: "j < ?n - 1" for j
  proof -
    have e: "(if j < ?d then j else j + 1) * ?es + ?es \<le> length (elems vec)"
      by (rule block_inside [OF ok]) (use j in auto)
    have e': "j * ?es + ?es \<le> length bs"
      using block_inside [OF ok, of j] j lb by simp
    have "bs ! (j * ?es + k) = elems vec ! ((if j < ?d then j else j + 1) * ?es + k)" if k: "k < ?es" for k
    proof (cases "j < ?d")
      case True
      have "j * ?es + k < ?d * ?es" using block_end_le [OF True k] .
      then show ?thesis using True e' k by (subst nb) simp_all
    next
      case False
      then have a: "?d * ?es \<le> j * ?es" by (intro mult_le_mono1) simp
      have "j * ?es + k < (?d + m) * ?es" using j k dm by (intro block_end_le) auto
      then have b: "j * ?es + k < ?d * ?es + m * ?es" by (simp add: add_mult_distrib)
      then have "rd ! (j * ?es + k - ?d * ?es)
        = elems vec ! ((?d + 1) * ?es + (j * ?es + k - ?d * ?es))"
        unfolding rd_def using a b by (intro nth_read_bytes [OF fit]) linarith
      then show ?thesis
        using False trans_le_add1 [OF a, of k] b e' k by (subst nb) (simp_all add: add.commute add.left_commute)
    qed
    then show ?thesis
      unfolding vec_block_def v_def using read_bytes_cong [OF e' e] by simp
  qed
  then have "vec_list v = take ?d (vec_list vec) @ drop (?d + 1) (vec_list vec)"
    using i by (intro nth_equalityI) (auto simp: vec_list_def v_def nth_append nat_diff_distrib min_def)
  then show ?thesis using r vok by blast
qed

text \<open>Removing the last element asks for the address of the element after it, and the bounds check
  of \<open>igt_vec_elem\<close> fails.\<close>

lemma vec_remove_last:
  assumes "vec_ok vec" "0 < vlen vec"
  shows "igt_vec_remove vec (vlen vec - 1) = Inl Assert_Failed"
  using vec_elem_ok [OF assms(1), of "vlen vec - 1"] assms by (simp add: igt_vec_remove_def igt_vec_elem_def)

subsection \<open>Properties\<close>

text \<open>C21: A vector is the list of the blocks pushed into it: a push appends one block, and the other blocks
  keep their bytes. A buffer with room keeps its size; a full one has room for 8 blocks after the first push
  and for twice as many as before after every later one. The index of a block is then the first position that
  holds it, or -1. A push to a full vector needs memory for the larger buffer, whose size in bytes has to be an
  \<^verbatim>\<open>int\<close>.\<close>

theorem vec_push_appends:
  assumes "vec_ok vec" "length elem = nat (elem_size vec)" "length probe = nat (elem_size vec)"
    and "vlen vec = vsize vec \<Longrightarrow> mem_ok \<and> (if vsize vec = 0 then 8 else 2 * vsize vec) * elem_size vec < 2 ^ 31"
  shows "\<exists>v. igt_vec_push mem_ok junk vec elem = Inr v \<and> vec_ok v \<and>
    vec_list v = vec_list vec @ [elem] \<and> igt_vec_length v = igt_vec_length vec + 1 \<and> elem_size v = elem_size vec \<and>
    vsize v = (if vlen vec < vsize vec then vsize vec else if vsize vec = 0 then 8 else 2 * vsize vec) \<and>
    igt_vec_index v probe = Inr (if probe \<in> set (vec_list vec @ [elem])
      then int (length (takeWhile (\<lambda>b. b \<noteq> probe) (vec_list vec @ [elem]))) else - 1)"
proof -
  have "vlen vec = vsize vec \<longrightarrow> mem_ok \<and> next_size vec * elem_size vec < 2 ^ 31"
    using assms(4) by (simp add: next_size_def)
  then obtain v where v: "igt_vec_push mem_ok junk vec elem = Inr v" "vec_ok v"
      "elem_size v = elem_size vec" "vsize v = next_size vec" "vec_list v = vec_list vec @ [elem]"
    using vec_push_ok [OF assms(1,2)] by metis
  have "nat (vlen v) = nat (vlen vec) + 1"
    using arg_cong [OF v(5), of length] by simp
  then have "igt_vec_length v = igt_vec_length vec + 1"
    using v(2) assms(1) unfolding vec_ok_def igt_vec_length_def by linarith
  then show ?thesis
    using v index_loop_ok [OF v(2), of 0 probe] assms(3) by (simp add: igt_vec_index_def next_size_def)
qed

theorem vec_push_appends_witness:
  "\<exists>v. igt_vec_push True (\<lambda>_. 0) (igt_vec_init 2) [1, 2] = Inr v \<and> vec_ok v \<and>
    vec_list v = [[1, 2]] \<and> vsize v = 8 \<and> igt_vec_index v [1, 2] = Inr 0"
  using vec_push_appends [of "igt_vec_init 2" "[1, 2]" "[1, 2]" True "\<lambda>_. 0"]
  by (auto simp: igt_vec_init_def vec_ok_def vec_list_def)

text \<open>\<open>igt_vec_remove\<close> deletes an element that is not the last one and keeps the others in
  order, but it aborts on the last element of every vector: the source of the \<open>memmove\<close> is asked for
  with an index equal to the length, which the assertion of \<open>igt_vec_elem\<close> refuses.\<close>

theorem vec_remove_aborts_on_last:
  assumes "vec_ok vec" "0 \<le> idx" "idx < vlen vec"
  shows "if idx + 1 = vlen vec then igt_vec_remove vec idx = Inl Assert_Failed
    else (\<exists>v. igt_vec_remove vec idx = Inr v \<and> vec_ok v \<and>
      vec_list v = take (nat idx) (vec_list vec) @ drop (nat idx + 1) (vec_list vec))"
proof (cases "idx + 1 = vlen vec")
  case True
  then have "idx = vlen vec - 1" by simp
  then show ?thesis using vec_remove_last assms by simp
qed (use vec_remove_ok assms in auto)

theorem vec_remove_aborts_on_last_witness:
  "igt_vec_remove \<lparr>elems = [7, 9], elem_size = 1, vsize = 2, vlen = 2\<rparr> 1 = Inl Assert_Failed"
  using vec_remove_aborts_on_last [of "\<lparr>elems = [7, 9], elem_size = 1, vsize = 2, vlen = 2\<rparr>" 1]
  by (simp add: vec_ok_def)

end
