(* ===== verification/Igt_List.thy ===== *)
theory Igt_List
  imports Prelude
begin

text \<open>
  The circular doubly-linked list of \<open>lib/igt_list.c\<close> and the iteration macros of
  \<open>lib/igt_list.h\<close>, on a heap that maps addresses to \<open>struct igt_list_head\<close>. The code writes
  through aliased pointers, so every assignment is one update of the heap, in the order of the
  source; following a pointer that is NULL or points to no node is \<open>None\<close>. The abstraction
  \<open>is_list h head xs\<close> says that the ring through \<open>head\<close> visits exactly the nodes \<open>xs\<close>.
\<close>

record igt_list_head =
  lprev :: nat
  lnext :: nat

type_synonym list_heap = "nat \<rightharpoonup> igt_list_head"

definition deref :: "list_heap \<Rightarrow> nat \<Rightarrow> igt_list_head option" where
  "deref h p = (if p = 0 then None else h p)"

definition set_prev :: "nat \<Rightarrow> nat \<Rightarrow> list_heap \<Rightarrow> list_heap option" where
  "set_prev p v h = do { n \<leftarrow> deref h p; Some (h(p \<mapsto> n\<lparr>lprev := v\<rparr>)) }"

definition set_next :: "nat \<Rightarrow> nat \<Rightarrow> list_heap \<Rightarrow> list_heap option" where
  "set_next p v h = do { n \<leftarrow> deref h p; Some (h(p \<mapsto> n\<lparr>lnext := v\<rparr>)) }"

definition IGT_INIT_LIST_HEAD :: "nat \<Rightarrow> list_heap \<Rightarrow> list_heap option" where
  "IGT_INIT_LIST_HEAD p h = do { h1 \<leftarrow> set_prev p p h; set_next p p h1 }"

definition igt_list_add :: "nat \<Rightarrow> nat \<Rightarrow> list_heap \<Rightarrow> list_heap option" where
  "igt_list_add elem head h = do {
     h1 \<leftarrow> set_prev elem head h;
     hd \<leftarrow> deref h1 head;
     h2 \<leftarrow> set_next elem (lnext hd) h1;
     h3 \<leftarrow> set_next head elem h2;
     e \<leftarrow> deref h3 elem;
     set_prev (lnext e) elem h3 }"

definition igt_list_add_tail :: "nat \<Rightarrow> nat \<Rightarrow> list_heap \<Rightarrow> list_heap option" where
  "igt_list_add_tail elem head h = do { hd \<leftarrow> deref h head; igt_list_add elem (lprev hd) h }"

definition igt_list_del :: "nat \<Rightarrow> list_heap \<Rightarrow> list_heap option" where
  "igt_list_del elem h = do {
     e \<leftarrow> deref h elem;
     h1 \<leftarrow> set_next (lprev e) (lnext e) h;
     e1 \<leftarrow> deref h1 elem;
     h2 \<leftarrow> set_prev (lnext e1) (lprev e1) h1;
     h3 \<leftarrow> set_next elem 0 h2;
     set_prev elem 0 h3 }"

definition igt_list_del_init :: "nat \<Rightarrow> list_heap \<Rightarrow> list_heap option" where
  "igt_list_del_init elem h = do { h1 \<leftarrow> igt_list_del elem h; IGT_INIT_LIST_HEAD elem h1 }"

definition igt_list_move :: "nat \<Rightarrow> nat \<Rightarrow> list_heap \<Rightarrow> list_heap option" where
  "igt_list_move elem lst h = do { h1 \<leftarrow> igt_list_del elem h; igt_list_add elem lst h1 }"

definition igt_list_move_tail :: "nat \<Rightarrow> nat \<Rightarrow> list_heap \<Rightarrow> list_heap option" where
  "igt_list_move_tail elem lst h = do { h1 \<leftarrow> igt_list_del elem h; igt_list_add_tail elem lst h1 }"

partial_function (option) length_loop :: "list_heap \<Rightarrow> nat \<Rightarrow> nat \<Rightarrow> nat \<Rightarrow> nat option" where
  "length_loop h head e count =
    (if e \<noteq> head then do { n \<leftarrow> deref h e; length_loop h head (lnext n) (count + 1) } else Some count)"

definition igt_list_length :: "nat \<Rightarrow> list_heap \<Rightarrow> nat option" where
  "igt_list_length head h = do { hd \<leftarrow> deref h head; length_loop h head (lnext hd) 0 }"

definition igt_list_empty :: "nat \<Rightarrow> list_heap \<Rightarrow> bool option" where
  "igt_list_empty head h = do { hd \<leftarrow> deref h head; Some (lnext hd = head) }"

text \<open>The iteration macros, with the loop body as a function on the heap and a state of its own.
  The safe variants read the successor before the body runs.\<close>

partial_function (option) for_each_loop ::
    "(nat \<Rightarrow> list_heap \<times> 's \<Rightarrow> (list_heap \<times> 's) option) \<Rightarrow> nat \<Rightarrow> nat \<Rightarrow> list_heap \<times> 's \<Rightarrow> (list_heap \<times> 's) option" where
  "for_each_loop body head pos st =
    (if pos \<noteq> head then do {
       st1 \<leftarrow> body pos st;
       n \<leftarrow> deref (fst st1) pos;
       for_each_loop body head (lnext n) st1 } else Some st)"

definition igt_list_for_each_entry ::
    "(nat \<Rightarrow> list_heap \<times> 's \<Rightarrow> (list_heap \<times> 's) option) \<Rightarrow> nat \<Rightarrow> list_heap \<times> 's \<Rightarrow> (list_heap \<times> 's) option" where
  "igt_list_for_each_entry body head st = do {
     hd \<leftarrow> deref (fst st) head; for_each_loop body head (lnext hd) st }"

partial_function (option) for_each_safe_loop ::
    "(nat \<Rightarrow> list_heap \<times> 's \<Rightarrow> (list_heap \<times> 's) option) \<Rightarrow> nat \<Rightarrow> nat \<Rightarrow> nat \<Rightarrow> list_heap \<times> 's \<Rightarrow> (list_heap \<times> 's) option" where
  "for_each_safe_loop body head pos tmp st =
    (if pos \<noteq> head then do {
       st1 \<leftarrow> body pos st;
       n \<leftarrow> deref (fst st1) tmp;
       for_each_safe_loop body head tmp (lnext n) st1 } else Some st)"

definition igt_list_for_each_entry_safe ::
    "(nat \<Rightarrow> list_heap \<times> 's \<Rightarrow> (list_heap \<times> 's) option) \<Rightarrow> nat \<Rightarrow> list_heap \<times> 's \<Rightarrow> (list_heap \<times> 's) option" where
  "igt_list_for_each_entry_safe body head st = do {
     hd \<leftarrow> deref (fst st) head;
     n \<leftarrow> deref (fst st) (lnext hd);
     for_each_safe_loop body head (lnext hd) (lnext n) st }"

subsection \<open>The ring of a list\<close>

definition nx :: "list_heap \<Rightarrow> nat \<Rightarrow> nat" where
  "nx h p = lnext (the (h p))"

definition pv :: "list_heap \<Rightarrow> nat \<Rightarrow> nat" where
  "pv h p = lprev (the (h p))"

fun linked :: "(nat \<Rightarrow> nat) \<Rightarrow> (nat \<Rightarrow> nat) \<Rightarrow> nat list \<Rightarrow> bool" where
  "linked n p (a # b # r) \<longleftrightarrow> n a = b \<and> p b = a \<and> linked n p (b # r)"
| "linked n p [a] \<longleftrightarrow> True"
| "linked n p [] \<longleftrightarrow> True"

definition is_list :: "list_heap \<Rightarrow> nat \<Rightarrow> nat list \<Rightarrow> bool" where
  "is_list h head xs \<longleftrightarrow> distinct (head # xs) \<and> 0 \<notin> set (head # xs) \<and> set (head # xs) \<subseteq> dom h \<and>
     linked (nx h) (pv h) (head # xs @ [head])"

lemma linked_append: "linked n p (xs @ a # ys) \<longleftrightarrow> linked n p (xs @ [a]) \<and> linked n p (a # ys)"
  by (induction xs rule: linked.induct [of "\<lambda>_ _ xs. linked n p (xs @ a # ys) \<longleftrightarrow> linked n p (xs @ [a]) \<and> linked n p (a # ys)" n p])
    (auto simp: neq_Nil_conv)

lemma linked_cong:
  assumes "\<And>q. q \<in> set (butlast xs) \<Longrightarrow> n q = n' q" "\<And>q. q \<in> set (tl xs) \<Longrightarrow> p q = p' q"
  shows "linked n p xs \<longleftrightarrow> linked n' p' xs"
  using assms
proof (induction n p xs rule: linked.induct)
  case (1 n p a b r)
  have "linked n p (b # r) \<longleftrightarrow> linked n' p' (b # r)"
    by (rule 1(1)) (use 1(2,3) in \<open>auto split: if_splits dest: list.set_sel(2)\<close>)
  then show ?case using 1(2) [of a] 1(3) [of b] by simp
qed auto

lemma deref_Some: "p \<noteq> 0 \<Longrightarrow> p \<in> dom h \<Longrightarrow> deref h p = Some (the (h p))"
  by (auto simp: deref_def)

lemma set_next_Some:
  assumes "p \<noteq> 0" "p \<in> dom h"
  shows "\<exists>h'. set_next p v h = Some h' \<and> dom h' = dom h \<and> nx h' = (nx h)(p := v) \<and> pv h' = pv h \<and>
    (\<forall>q. q \<noteq> p \<longrightarrow> h' q = h q)"
  using assms by (intro exI [of _ "h(p \<mapsto> the (h p)\<lparr>lnext := v\<rparr>)"])
    (auto simp: set_next_def deref_Some nx_def pv_def fun_eq_iff)

lemma set_prev_Some:
  assumes "p \<noteq> 0" "p \<in> dom h"
  shows "\<exists>h'. set_prev p v h = Some h' \<and> dom h' = dom h \<and> nx h' = nx h \<and> pv h' = (pv h)(p := v) \<and>
    (\<forall>q. q \<noteq> p \<longrightarrow> h' q = h q)"
  using assms by (intro exI [of _ "h(p \<mapsto> the (h p)\<lparr>lprev := v\<rparr>)"])
    (auto simp: set_prev_def deref_Some nx_def pv_def fun_eq_iff)

text \<open>What \<open>igt_list_add\<close> and \<open>igt_list_del\<close> do to the two pointer fields.\<close>

lemma list_add_effect:
  assumes "elem \<noteq> 0" "elem \<in> dom h" "head \<noteq> 0" "head \<in> dom h" "elem \<noteq> head"
    "nx h head \<noteq> 0" "nx h head \<in> dom h"
  shows "\<exists>h'. igt_list_add elem head h = Some h' \<and> dom h' = dom h \<and>
    nx h' = (nx h)(elem := nx h head, head := elem) \<and>
    pv h' = (pv h)(elem := head, nx h head := elem) \<and>
    (\<forall>q. q \<notin> {elem, head, nx h head} \<longrightarrow> h' q = h q)"
proof -
  obtain h1 where h1: "set_prev elem head h = Some h1" "dom h1 = dom h" "nx h1 = nx h"
      "pv h1 = (pv h)(elem := head)" "\<forall>q. q \<noteq> elem \<longrightarrow> h1 q = h q"
    using set_prev_Some assms by metis
  obtain h2 where h2: "set_next elem (nx h head) h1 = Some h2" "dom h2 = dom h1"
      "nx h2 = (nx h1)(elem := nx h head)" "pv h2 = pv h1" "\<forall>q. q \<noteq> elem \<longrightarrow> h2 q = h1 q"
    using set_next_Some [of elem h1] assms h1(2) by metis
  obtain h3 where h3: "set_next head elem h2 = Some h3" "dom h3 = dom h2"
      "nx h3 = (nx h2)(head := elem)" "pv h3 = pv h2" "\<forall>q. q \<noteq> head \<longrightarrow> h3 q = h2 q"
    using set_next_Some [of head h2] assms h1(2) h2(2) by metis
  obtain h4 where h4: "set_prev (nx h head) elem h3 = Some h4" "dom h4 = dom h3"
      "nx h4 = nx h3" "pv h4 = (pv h3)(nx h head := elem)" "\<forall>q. q \<noteq> nx h head \<longrightarrow> h4 q = h3 q"
    using set_prev_Some [of "nx h head" h3] assms h1(2) h2(2) h3(2) by metis
  have n3: "nx h3 elem = nx h head" using h3(3) h2(3) assms(5) by simp
  have d: "deref h1 head = Some (the (h1 head))" "deref h3 elem = Some (the (h3 elem))"
    using assms h1(2) h2(2) h3(2) by (auto intro!: deref_Some)
  have "igt_list_add elem head h = Some h4"
    using h1 h2(1) h3(1) h4(1) d n3 by (simp add: igt_list_add_def nx_def [symmetric])
  then show ?thesis using h1 h2 h3 h4 by auto
qed

lemma list_del_effect:
  assumes "elem \<noteq> 0" "elem \<in> dom h" "pv h elem \<noteq> 0" "pv h elem \<in> dom h" "pv h elem \<noteq> elem"
    "nx h elem \<noteq> 0" "nx h elem \<in> dom h"
  shows "\<exists>h'. igt_list_del elem h = Some h' \<and> dom h' = dom h \<and>
    nx h' = (nx h)(pv h elem := nx h elem, elem := 0) \<and>
    pv h' = (pv h)(nx h elem := pv h elem, elem := 0) \<and>
    (\<forall>q. q \<notin> {elem, pv h elem, nx h elem} \<longrightarrow> h' q = h q)"
proof -
  obtain h1 where h1: "set_next (pv h elem) (nx h elem) h = Some h1" "dom h1 = dom h"
      "nx h1 = (nx h)(pv h elem := nx h elem)" "pv h1 = pv h" "\<forall>q. q \<noteq> pv h elem \<longrightarrow> h1 q = h q"
    using set_next_Some assms by metis
  obtain h2 where h2: "set_prev (nx h elem) (pv h elem) h1 = Some h2" "dom h2 = dom h1"
      "nx h2 = nx h1" "pv h2 = (pv h1)(nx h elem := pv h elem)" "\<forall>q. q \<noteq> nx h elem \<longrightarrow> h2 q = h1 q"
    using set_prev_Some [of "nx h elem" h1] assms h1(2) by metis
  obtain h3 where h3: "set_next elem 0 h2 = Some h3" "dom h3 = dom h2"
      "nx h3 = (nx h2)(elem := 0)" "pv h3 = pv h2" "\<forall>q. q \<noteq> elem \<longrightarrow> h3 q = h2 q"
    using set_next_Some [of elem h2] assms h1(2) h2(2) by metis
  obtain h4 where h4: "set_prev elem 0 h3 = Some h4" "dom h4 = dom h3"
      "nx h4 = nx h3" "pv h4 = (pv h3)(elem := 0)" "\<forall>q. q \<noteq> elem \<longrightarrow> h4 q = h3 q"
    using set_prev_Some [of elem h3] assms h1(2) h2(2) h3(2) by metis
  have d: "deref h elem = Some (the (h elem))" "deref h1 elem = Some (the (h1 elem))"
    using assms h1(2) by (auto intro!: deref_Some)
  have e1: "nx h1 elem = nx h elem" "pv h1 elem = pv h elem" using h1 assms(5) by simp_all
  have "igt_list_del elem h = Some h4"
    using h1(1) h2(1) h3(1) h4(1) d e1 by (simp add: igt_list_del_def nx_def [symmetric] pv_def [symmetric])
  then show ?thesis using h1 h2 h3 h4 by auto
qed

lemma linked_at:
  "linked n p (us @ a # b # vs) \<longleftrightarrow> linked n p (us @ [a]) \<and> n a = b \<and> p b = a \<and> linked n p (b # vs)"
  by (subst linked_append) simp

lemma linked_off_link:
  assumes L: "distinct (butlast (us @ a # b # vs))" "distinct (tl (us @ a # b # vs))"
    and e: "e \<notin> set (us @ a # b # vs)"
    and n': "\<And>q. q \<noteq> a \<Longrightarrow> q \<noteq> e \<Longrightarrow> n' q = n q" and p': "\<And>q. q \<noteq> b \<Longrightarrow> q \<noteq> e \<Longrightarrow> p' q = p q"
  shows "linked n' p' (us @ [a]) \<longleftrightarrow> linked n p (us @ [a])"
    and "linked n' p' (b # vs) \<longleftrightarrow> linked n p (b # vs)"
proof -
  have d: "distinct (us @ a # butlast (b # vs))" using L(1) by (simp add: butlast_append)
  have t: "us \<noteq> [] \<Longrightarrow> distinct (tl us @ a # b # vs)" "distinct (b # vs)" using L(2)
    by (cases us; simp)+
  show "linked n' p' (us @ [a]) \<longleftrightarrow> linked n p (us @ [a])"
  proof (rule linked_cong)
    fix q assume "q \<in> set (butlast (us @ [a]))"
    then show "n' q = n q" using d e by (intro n') auto
  next
    fix q assume q: "q \<in> set (tl (us @ [a]))"
    then have "us \<noteq> []" by (cases us) auto
    then show "p' q = p q" using q t(1) e list.set_sel(2) [of us] by (intro p') auto
  qed
  show "linked n' p' (b # vs) \<longleftrightarrow> linked n p (b # vs)"
  proof (rule linked_cong)
    fix q assume q: "q \<in> set (butlast (b # vs))"
    then have "q \<in> set (b # vs)" by (rule in_set_butlastD)
    then show "n' q = n q" using q d e by (intro n') auto
  next
    fix q assume "q \<in> set (tl (b # vs))"
    then show "p' q = p q" using t e by (intro p') auto
  qed
qed

lemma ring_distinct:
  assumes "distinct (head # xs)"
  shows "distinct (butlast (head # xs @ [head]))" "distinct (tl (head # xs @ [head]))"
  using assms by (auto simp: butlast_append)

text \<open>The node before and the node after a position of the list.\<close>

definition before :: "nat \<Rightarrow> nat list \<Rightarrow> nat" where "before head ys = last (head # ys)"

definition after :: "nat \<Rightarrow> nat list \<Rightarrow> nat" where "after head zs = hd (zs @ [head])"

lemma ring_split: "head # (ys @ zs) @ [head] = butlast (head # ys) @ before head ys # after head zs # tl (zs @ [head])"
proof -
  have "head # ys = butlast (head # ys) @ [before head ys]" by (simp add: before_def)
  moreover have "zs @ [head] = after head zs # tl (zs @ [head])" by (cases zs) (simp_all add: after_def)
  ultimately show ?thesis
    by (metis append.assoc append_Cons append_Nil)
qed

lemma ring_split_mid: "head # (ys @ e # zs) @ [head]
    = butlast (head # ys) @ before head ys # e # after head zs # tl (zs @ [head])"
proof -
  have "head # ys = butlast (head # ys) @ [before head ys]" by (simp add: before_def)
  moreover have "zs @ [head] = after head zs # tl (zs @ [head])" by (cases zs) (simp_all add: after_def)
  ultimately show ?thesis
    by (metis append.assoc append_Cons append_Nil)
qed

lemma before_in: "before head ys \<in> set (head # ys)"
  unfolding before_def by (rule last_in_set) simp

lemma after_in: "after head zs \<in> set (head # zs)"
  by (cases zs) (simp_all add: after_def)

lemma is_list_at:
  assumes "is_list h head (ys @ zs)"
  shows "nx h (before head ys) = after head zs" "pv h (after head zs) = before head ys"
  using assms unfolding is_list_def ring_split linked_at by auto

lemma is_list_node:
  assumes "is_list h head xs" "q \<in> set (head # xs)"
  shows "q \<noteq> 0" "q \<in> dom h"
proof -
  have z: "0 \<notin> set (head # xs)" and s: "set (head # xs) \<subseteq> dom h" 
    using assms(1) by (simp_all add: is_list_def)
  show "q \<noteq> 0" using z assms(2) by (metis (no_types))
  show "q \<in> dom h" by (rule subsetD [OF s assms(2)])
qed

lemma is_list_cong:
  assumes "is_list h head xs" "\<And>q. q \<in> set (head # xs) \<Longrightarrow> h' q = h q"
  shows "is_list h' head xs"
proof -
  have n: "nx h' q = nx h q" "pv h' q = pv h q" if "q \<in> set (head # xs)" for q
    using assms(2) [OF that] by (simp_all add: nx_def pv_def)
  have "linked (nx h') (pv h') (head # xs @ [head]) \<longleftrightarrow> linked (nx h) (pv h) (head # xs @ [head])"
    by (rule linked_cong) (use n in \<open>auto dest!: in_set_butlastD split: if_splits\<close>)
  moreover have "set (head # xs) \<subseteq> dom h'"
    using assms unfolding is_list_def by (metis domIff subset_iff)
  ultimately show ?thesis using assms(1) unfolding is_list_def by blast
qed

lemma list_add_ok:
  assumes l: "is_list h head (ys @ zs)" and e: "e \<noteq> 0" "e \<in> dom h" "e \<notin> set (head # ys @ zs)"
  shows "\<exists>h'. igt_list_add e (before head ys) h = Some h' \<and> is_list h' head (ys @ e # zs) \<and>
    dom h' = dom h \<and> (\<forall>q. q \<notin> set (e # head # ys @ zs) \<longrightarrow> h' q = h q)"
proof -
  let ?a = "before head ys" and ?b = "after head zs"
  have in': "?a \<in> set (head # ys @ zs)" "?b \<in> set (head # ys @ zs)"
    using before_in [of head ys] after_in [of head zs] by auto
  note ab = is_list_at [OF l]
  note na = is_list_node [OF l in'(1)] and nb = is_list_node [OF l in'(2)]
  have ne: "e \<noteq> ?a" "e \<noteq> ?b" using e(3) in' by blast+
  obtain h' where h': "igt_list_add e ?a h = Some h'" "dom h' = dom h"
      "nx h' = (nx h)(e := ?b, ?a := e)" "pv h' = (pv h)(e := ?a, ?b := e)"
      "\<forall>q. q \<notin> {e, ?a, ?b} \<longrightarrow> h' q = h q"
    using list_add_effect [OF e(1,2) na ne(1), unfolded ab(1), OF nb] by blast
  have d: "distinct (head # ys @ zs)" using l by (simp add: is_list_def)
  have ring: "e \<notin> set (head # (ys @ zs) @ [head])" using e by simp
  have L: "linked (nx h) (pv h) (head # (ys @ zs) @ [head])" using l by (simp add: is_list_def)
  have n': "nx h' q = nx h q" if "q \<noteq> ?a" "q \<noteq> e" for q using that by (simp add: h'(3))
  have p': "pv h' q = pv h q" if "q \<noteq> ?b" "q \<noteq> e" for q using that by (simp add: h'(4))
  note off = linked_off_link [where n = "nx h" and p = "pv h" and n' = "nx h'" and p' = "pv h'",
      OF ring_distinct(1,2) [OF d, unfolded ring_split] ring [unfolded ring_split] n' p']
  have L': "linked (nx h') (pv h') (butlast (head # ys) @ [?a])" "linked (nx h') (pv h') (?b # tl (zs @ [head]))"
    using off L [unfolded ring_split linked_at] by blast+
  have "nx h' ?a = e" "pv h' e = ?a" "nx h' e = ?b" "pv h' ?b = e"
    using ne by (simp_all add: h'(3,4))
  then have "linked (nx h') (pv h') (head # (ys @ e # zs) @ [head])"
    unfolding ring_split_mid linked_at using L' by simp
  then have "is_list h' head (ys @ e # zs)"
    using l e h'(2) by (auto simp: is_list_def)
  then show ?thesis using h' in' by auto
qed

lemma list_del_ok:
  assumes l: "is_list h head (ys @ e # zs)"
  shows "\<exists>h'. igt_list_del e h = Some h' \<and> is_list h' head (ys @ zs) \<and>
    dom h' = dom h \<and> nx h' e = 0 \<and> pv h' e = 0 \<and> (\<forall>q. q \<notin> set (e # head # ys @ zs) \<longrightarrow> h' q = h q)"
proof -
  let ?a = "before head ys" and ?b = "after head zs"
  have in': "?a \<in> set (head # ys @ zs)" "?b \<in> set (head # ys @ zs)"
    using before_in [of head ys] after_in [of head zs] by auto
  have d: "distinct (head # ys @ zs)" "e \<notin> set (head # ys @ zs)" using l by (auto simp: is_list_def)
  have m: "linked (nx h) (pv h) (butlast (head # ys) @ ?a # e # ?b # tl (zs @ [head]))"
    using l unfolding is_list_def ring_split_mid [symmetric] by simp
  then have ab: "nx h ?a = e" "pv h e = ?a" "nx h e = ?b" "pv h ?b = e"
    and L: "linked (nx h) (pv h) (butlast (head # ys) @ [?a])" "linked (nx h) (pv h) (?b # tl (zs @ [head]))"
    unfolding linked_at by simp_all
  have sub: "set (head # ys @ zs) \<subseteq> set (head # ys @ e # zs)" by auto
  note na = is_list_node [OF l subsetD [OF sub in'(1)]] and nb = is_list_node [OF l subsetD [OF sub in'(2)]]
  have ne: "e \<noteq> ?a" "e \<noteq> ?b" using d(2) in' by blast+
  have e: "e \<noteq> 0" "e \<in> dom h" using is_list_node [OF l] by simp_all
  obtain h' where h': "igt_list_del e h = Some h'" "dom h' = dom h"
      "nx h' = (nx h)(?a := ?b, e := 0)" "pv h' = (pv h)(?b := ?a, e := 0)"
      "\<forall>q. q \<notin> {e, ?a, ?b} \<longrightarrow> h' q = h q"
    using list_del_effect [OF e, unfolded ab(2,3), OF na ne(1) [symmetric] nb] by blast
  have ring: "e \<notin> set (head # (ys @ zs) @ [head])" using d by simp
  have n': "nx h' q = nx h q" if "q \<noteq> ?a" "q \<noteq> e" for q using that by (simp add: h'(3))
  have p': "pv h' q = pv h q" if "q \<noteq> ?b" "q \<noteq> e" for q using that by (simp add: h'(4))
  note off = linked_off_link [where n = "nx h" and p = "pv h" and n' = "nx h'" and p' = "pv h'",
      OF ring_distinct(1,2) [OF d(1), unfolded ring_split] ring [unfolded ring_split] n' p']
  have "nx h' ?a = ?b" "pv h' ?b = ?a" using ne by (simp_all add: h'(3,4))
  then have "linked (nx h') (pv h') (head # (ys @ zs) @ [head])"
    unfolding ring_split linked_at using off L by blast
  then have "is_list h' head (ys @ zs)"
    using l h'(2) by (auto simp: is_list_def)
  then show ?thesis using h' in' by auto
qed

subsection \<open>The other operations\<close>

lemma is_list_head:
  assumes "is_list h head xs"
  shows "deref h head = Some (the (h head))" "lnext (the (h head)) = after head xs"
    "lprev (the (h head)) = before head xs"
proof -
  show "deref h head = Some (the (h head))"
    using is_list_node [OF assms] by (intro deref_Some) simp_all
  show "lnext (the (h head)) = after head xs"
    using is_list_at(1) [of h head "[]" xs] assms by (simp add: before_def nx_def)
  show "lprev (the (h head)) = before head xs"
    using is_list_at(2) [of h head xs "[]"] assms by (simp add: after_def pv_def)
qed

lemma list_init_ok:
  assumes "p \<noteq> 0" "p \<in> dom h"
  shows "\<exists>h'. IGT_INIT_LIST_HEAD p h = Some h' \<and> is_list h' p [] \<and> (\<forall>q. q \<noteq> p \<longrightarrow> h' q = h q)"
proof -
  obtain h1 where h1: "set_prev p p h = Some h1" "dom h1 = dom h" "pv h1 = (pv h)(p := p)"
      "\<forall>q. q \<noteq> p \<longrightarrow> h1 q = h q"
    using set_prev_Some assms by metis
  obtain h2 where h2: "set_next p p h1 = Some h2" "dom h2 = dom h1" "nx h2 = (nx h1)(p := p)" "pv h2 = pv h1"
      "\<forall>q. q \<noteq> p \<longrightarrow> h2 q = h1 q"
    using set_next_Some [of p h1] assms h1(2) by metis
  have "is_list h2 p []" using assms h1 h2 by (simp add: is_list_def)
  then show ?thesis using h1 h2 by (simp add: IGT_INIT_LIST_HEAD_def)
qed

lemma list_add_tail_ok:
  assumes l: "is_list h head xs" and e: "e \<noteq> 0" "e \<in> dom h" "e \<notin> set (head # xs)"
  shows "\<exists>h'. igt_list_add_tail e head h = Some h' \<and> is_list h' head (xs @ [e]) \<and>
    dom h' = dom h \<and> (\<forall>q. q \<notin> set (e # head # xs) \<longrightarrow> h' q = h q)"
  using list_add_ok [of h head xs "[]" e] is_list_head [OF l] assms by (simp add: igt_list_add_tail_def)

text \<open>Moving an element from one list to the front or the back of another, disjoint one.\<close>

lemma list_move_ok:
  assumes l1: "is_list h hd1 (ys @ e # zs)" and l2: "is_list h hd2 ws"
    and dis: "set (hd1 # ys @ e # zs) \<inter> set (hd2 # ws) = {}"
  shows "\<exists>h'. igt_list_move e hd2 h = Some h' \<and> is_list h' hd1 (ys @ zs) \<and> is_list h' hd2 (e # ws) \<and>
      (\<forall>q. q \<notin> set (e # hd1 # ys @ zs @ hd2 # ws) \<longrightarrow> h' q = h q)"
    and "\<exists>h'. igt_list_move_tail e hd2 h = Some h' \<and> is_list h' hd1 (ys @ zs) \<and> is_list h' hd2 (ws @ [e]) \<and>
      (\<forall>q. q \<notin> set (e # hd1 # ys @ zs @ hd2 # ws) \<longrightarrow> h' q = h q)"
proof -
  obtain h1 where h1: "igt_list_del e h = Some h1" "is_list h1 hd1 (ys @ zs)" "dom h1 = dom h"
      "\<forall>q. q \<notin> set (e # hd1 # ys @ zs) \<longrightarrow> h1 q = h q"
    using list_del_ok [OF l1] by blast
  have l2': "is_list h1 hd2 ws"
    by (rule is_list_cong [OF l2]) (use h1(4) dis in auto)
  have e: "e \<noteq> 0" "e \<in> dom h1" using is_list_node [OF l1, of e] h1(3) by simp_all
  have ne: "e \<notin> set (hd2 # ws)" using dis by auto
  have nd: "e \<notin> set (hd1 # ys @ zs)" using l1 by (auto simp: is_list_def)
  have keep: "is_list h2 hd1 (ys @ zs)" if "\<forall>q. q \<notin> set (e # hd2 # ws) \<longrightarrow> h2 q = h1 q" for h2
    by (rule is_list_cong [OF h1(2)]) (use that dis nd in auto)
  obtain h2 where h2: "igt_list_add e hd2 h1 = Some h2" "is_list h2 hd2 (e # ws)"
      "\<forall>q. q \<notin> set (e # hd2 # ws) \<longrightarrow> h2 q = h1 q"
    using list_add_ok [of h1 hd2 "[]" ws e] l2' e ne by (auto simp: before_def)
  show "\<exists>h'. igt_list_move e hd2 h = Some h' \<and> is_list h' hd1 (ys @ zs) \<and> is_list h' hd2 (e # ws) \<and>
      (\<forall>q. q \<notin> set (e # hd1 # ys @ zs @ hd2 # ws) \<longrightarrow> h' q = h q)"
    using h1(1,4) h2 keep [OF h2(3)] by (simp add: igt_list_move_def)
  obtain h3 where h3: "igt_list_add_tail e hd2 h1 = Some h3" "is_list h3 hd2 (ws @ [e])"
      "\<forall>q. q \<notin> set (e # hd2 # ws) \<longrightarrow> h3 q = h1 q"
    using list_add_tail_ok [OF l2' e ne] by auto
  show "\<exists>h'. igt_list_move_tail e hd2 h = Some h' \<and> is_list h' hd1 (ys @ zs) \<and> is_list h' hd2 (ws @ [e]) \<and>
      (\<forall>q. q \<notin> set (e # hd1 # ys @ zs @ hd2 # ws) \<longrightarrow> h' q = h q)"
    using h1(1,4) h3 keep [OF h3(3)] by (simp add: igt_list_move_tail_def)
qed

lemma list_del_init_ok:
  assumes l: "is_list h head (ys @ e # zs)"
  shows "\<exists>h'. igt_list_del_init e h = Some h' \<and> is_list h' head (ys @ zs) \<and> is_list h' e [] \<and>
    (\<forall>q. q \<notin> set (e # head # ys @ zs) \<longrightarrow> h' q = h q)"
proof -
  obtain h1 where h1: "igt_list_del e h = Some h1" "is_list h1 head (ys @ zs)" "dom h1 = dom h"
      "\<forall>q. q \<notin> set (e # head # ys @ zs) \<longrightarrow> h1 q = h q"
    using list_del_ok [OF l] by blast
  obtain h2 where h2: "IGT_INIT_LIST_HEAD e h1 = Some h2" "is_list h2 e []" "\<forall>q. q \<noteq> e \<longrightarrow> h2 q = h1 q"
    using list_init_ok [of e h1] is_list_node [OF l, of e] h1(3) by auto
  have "is_list h2 head (ys @ zs)"
    by (rule is_list_cong [OF h1(2)]) (use h2(3) l in \<open>auto simp: is_list_def\<close>)
  then show ?thesis using h1 h2 by (simp add: igt_list_del_init_def)
qed

lemma length_loop_ok:
  "is_list h head (ys @ zs) \<Longrightarrow> length_loop h head (after head zs) c = Some (c + length zs)"
proof (induction zs arbitrary: ys c)
  case Nil
  then show ?case by (subst length_loop.simps) (simp add: after_def)
next
  case (Cons z zs)
  have ne: "z \<noteq> head" using Cons.prems by (auto simp: is_list_def)
  have "nx h z = after head zs"
    using is_list_at(1) [of h head "ys @ [z]" zs] Cons.prems by (simp add: before_def)
  moreover have "deref h z = Some (the (h z))"
    using is_list_node [OF Cons.prems, of z] by (intro deref_Some) simp_all
  moreover have "after head (z # zs) = z" by (simp add: after_def)
  ultimately show ?case
    using Cons.IH [of "ys @ [z]" "c + 1"] Cons.prems ne by (subst length_loop.simps) (simp add: nx_def)
qed

lemma list_length_ok: "is_list h head xs \<Longrightarrow> igt_list_length head h = Some (length xs)"
  using length_loop_ok [of h head "[]" xs 0] is_list_head [of h head xs] by (simp add: igt_list_length_def)

lemma list_empty_ok: "is_list h head xs \<Longrightarrow> igt_list_empty head h = Some (xs = [])"
  using is_list_head [of h head xs] by (cases xs) (auto simp: igt_list_empty_def after_def is_list_def)

subsection \<open>Iteration\<close>

text \<open>A loop body that records the nodes it sees and deletes some of them.\<close>

definition del_body :: "(nat \<Rightarrow> bool) \<Rightarrow> nat \<Rightarrow> list_heap \<times> nat list \<Rightarrow> (list_heap \<times> nat list) option" where
  "del_body P pos st = (if P pos then do { h1 \<leftarrow> igt_list_del pos (fst st); Some (h1, snd st @ [pos]) }
     else Some (fst st, snd st @ [pos]))"

lemma for_each_safe_loop_ok:
  "is_list h head (ys @ zs) \<Longrightarrow>
   \<exists>h'. for_each_safe_loop (del_body P) head (after head zs) (nx h (after head zs)) (h, acc) = Some (h', acc @ zs) \<and>
     is_list h' head (ys @ filter (\<lambda>q. \<not> P q) zs) \<and> (\<forall>q. q \<notin> set (head # ys @ zs) \<longrightarrow> h' q = h q)"
proof (induction zs arbitrary: ys acc h)
  case Nil
  then show ?case by (subst for_each_safe_loop.simps) (simp add: after_def)
next
  case (Cons z zs)
  have ne: "z \<noteq> head" using Cons.prems by (auto simp: is_list_def)
  have tmp: "nx h z = after head zs"
    using is_list_at(1) [of h head "ys @ [z]" zs] Cons.prems by (simp add: before_def)
  have pos: "after head (z # zs) = z" by (simp add: after_def)
  obtain h1 ys1 where h1: "del_body P z (h, acc) = Some (h1, acc @ [z])"
      and l1: "is_list h1 head (ys1 @ zs)" and ys1: "ys1 = ys @ filter (\<lambda>q. \<not> P q) [z]"
      and fr: "\<forall>q. q \<notin> set (z # head # ys @ zs) \<longrightarrow> h1 q = h q"
    using list_del_ok [OF Cons.prems] Cons.prems by (cases "P z") (auto simp: del_body_def)
  have d: "deref h1 (after head zs) = Some (the (h1 (after head zs)))"
    using is_list_node [OF l1] after_in [of head zs] by (intro deref_Some) auto
  obtain h' where h': "for_each_safe_loop (del_body P) head (after head zs) (nx h1 (after head zs)) (h1, acc @ [z])
        = Some (h', (acc @ [z]) @ zs)" "is_list h' head (ys1 @ filter (\<lambda>q. \<not> P q) zs)"
      "\<forall>q. q \<notin> set (head # ys1 @ zs) \<longrightarrow> h' q = h1 q"
    using Cons.IH [OF l1] by blast
  have "for_each_safe_loop (del_body P) head z (after head zs) (h, acc) = Some (h', acc @ z # zs)"
    using h'(1) h1 d ne by (subst for_each_safe_loop.simps) (simp add: nx_def)
  moreover have "is_list h' head (ys @ filter (\<lambda>q. \<not> P q) (z # zs))" using h'(2) ys1 by (cases "P z") simp_all
  moreover have "\<forall>q. q \<notin> set (head # ys @ z # zs) \<longrightarrow> h' q = h q"
    using h'(3) fr ys1 by (auto split: if_splits)
  ultimately show ?case unfolding pos tmp by blast
qed

lemma for_each_loop_ok:
  "is_list h head (ys @ zs) \<Longrightarrow>
   for_each_loop (\<lambda>pos st. Some (fst st, snd st @ [pos])) head (after head zs) (h, acc) = Some (h, acc @ zs)"
proof (induction zs arbitrary: ys acc)
  case Nil
  then show ?case by (subst for_each_loop.simps) (simp add: after_def)
next
  case (Cons z zs)
  have ne: "z \<noteq> head" using Cons.prems by (auto simp: is_list_def)
  have "nx h z = after head zs"
    using is_list_at(1) [of h head "ys @ [z]" zs] Cons.prems by (simp add: before_def)
  moreover have "deref h z = Some (the (h z))"
    using is_list_node [OF Cons.prems, of z] by (intro deref_Some) simp_all
  moreover have "after head (z # zs) = z" by (simp add: after_def)
  ultimately show ?case
    using Cons.IH [of "ys @ [z]" "acc @ [z]"] Cons.prems ne by (subst for_each_loop.simps) (simp add: nx_def)
qed

subsection \<open>Properties\<close>

text \<open>C20: The pointer operations implement lists. Two rings are given, one that holds \<open>ys @ e # zs\<close> and one,
  apart from it, that holds \<open>ws\<close>. A deletion of \<open>e\<close> leaves \<open>ys @ zs\<close> and clears both pointers of the node, or
  makes it a ring of its own (\<open>del_init\<close>); an insertion of a node that is not in the first ring, after a node
  or before the head, puts it at that place; moves transfer \<open>e\<close> to the front or the end of the other ring; the
  length is the number of nodes (the walk ends). Every operation succeeds and writes only nodes of the rings it
  works on and the node it inserts.\<close>

theorem list_ops_refine_lists:
  assumes l1: "is_list h hd1 (ys @ e # zs)" and l2: "is_list h hd2 ws"
    and dis: "set (hd1 # ys @ e # zs) \<inter> set (hd2 # ws) = {}"
    and f: "f \<noteq> 0" "f \<in> dom h" "f \<notin> set (hd1 # ys @ e # zs)"
  shows "(\<exists>h'. igt_list_del e h = Some h' \<and> is_list h' hd1 (ys @ zs) \<and> is_list h' hd2 ws \<and>
       h' e = Some \<lparr>lprev = 0, lnext = 0\<rparr> \<and> (\<forall>q. q \<notin> set (e # hd1 # ys @ zs) \<longrightarrow> h' q = h q)) \<and>
    (\<exists>h'. igt_list_add f e h = Some h' \<and> is_list h' hd1 (ys @ e # f # zs) \<and>
       (\<forall>q. q \<notin> set (f # hd1 # ys @ e # zs) \<longrightarrow> h' q = h q)) \<and>
    (\<exists>h'. igt_list_add f hd1 h = Some h' \<and> is_list h' hd1 (f # ys @ e # zs) \<and>
       (\<forall>q. q \<notin> set (f # hd1 # ys @ e # zs) \<longrightarrow> h' q = h q)) \<and>
    (\<exists>h'. igt_list_add_tail f hd1 h = Some h' \<and> is_list h' hd1 (ys @ e # zs @ [f]) \<and>
       (\<forall>q. q \<notin> set (f # hd1 # ys @ e # zs) \<longrightarrow> h' q = h q)) \<and>
    (\<exists>h'. igt_list_move e hd2 h = Some h' \<and> is_list h' hd1 (ys @ zs) \<and> is_list h' hd2 (e # ws) \<and>
       (\<forall>q. q \<notin> set (e # hd1 # ys @ zs @ hd2 # ws) \<longrightarrow> h' q = h q)) \<and>
    (\<exists>h'. igt_list_move_tail e hd2 h = Some h' \<and> is_list h' hd1 (ys @ zs) \<and> is_list h' hd2 (ws @ [e]) \<and>
       (\<forall>q. q \<notin> set (e # hd1 # ys @ zs @ hd2 # ws) \<longrightarrow> h' q = h q)) \<and>
    (\<exists>h'. igt_list_del_init e h = Some h' \<and> is_list h' hd1 (ys @ zs) \<and> is_list h' e [] \<and> is_list h' hd2 ws \<and>
       (\<forall>q. q \<notin> set (e # hd1 # ys @ zs) \<longrightarrow> h' q = h q)) \<and>
    igt_list_length hd2 h = Some (length ws) \<and> igt_list_empty hd2 h = Some (ws = [])"
proof -
  obtain h' where h': "igt_list_del e h = Some h'" "is_list h' hd1 (ys @ zs)" "dom h' = dom h"
      "nx h' e = 0" "pv h' e = 0" "\<forall>q. q \<notin> set (e # hd1 # ys @ zs) \<longrightarrow> h' q = h q"
    using list_del_ok [OF l1] by blast
  have "is_list h' hd2 ws" by (rule is_list_cong [OF l2]) (use h'(6) dis in auto)
  moreover have "h' e = Some \<lparr>lprev = 0, lnext = 0\<rparr>"
  proof -
    have "e \<in> dom h'" using is_list_node(2) [OF l1, of e] h'(3) by simp
    then obtain n where "h' e = Some n" by blast
    then show ?thesis using h'(4,5) by (simp add: nx_def pv_def igt_list_head.equality)
  qed
  ultimately have d: "\<exists>h'. igt_list_del e h = Some h' \<and> is_list h' hd1 (ys @ zs) \<and> is_list h' hd2 ws \<and>
      h' e = Some \<lparr>lprev = 0, lnext = 0\<rparr> \<and> (\<forall>q. q \<notin> set (e # hd1 # ys @ zs) \<longrightarrow> h' q = h q)"
    using h' by blast
  have a: "\<exists>h'. igt_list_add f e h = Some h' \<and> is_list h' hd1 (ys @ e # f # zs) \<and>
      (\<forall>q. q \<notin> set (f # hd1 # ys @ e # zs) \<longrightarrow> h' q = h q)"
    using list_add_ok [of h hd1 "ys @ [e]" zs f] l1 f by (auto simp: before_def)
  have b: "\<exists>h'. igt_list_add f hd1 h = Some h' \<and> is_list h' hd1 (f # ys @ e # zs) \<and>
      (\<forall>q. q \<notin> set (f # hd1 # ys @ e # zs) \<longrightarrow> h' q = h q)"
    using list_add_ok [of h hd1 "[]" "ys @ e # zs" f] l1 f by (auto simp: before_def)
  have c: "\<exists>h'. igt_list_add_tail f hd1 h = Some h' \<and> is_list h' hd1 (ys @ e # zs @ [f]) \<and>
      (\<forall>q. q \<notin> set (f # hd1 # ys @ e # zs) \<longrightarrow> h' q = h q)"
    using list_add_tail_ok [OF l1 f] by auto
  have i: "\<exists>h'. igt_list_del_init e h = Some h' \<and> is_list h' hd1 (ys @ zs) \<and> is_list h' e [] \<and> is_list h' hd2 ws \<and>
      (\<forall>q. q \<notin> set (e # hd1 # ys @ zs) \<longrightarrow> h' q = h q)"
  proof -
    obtain h' where h': "igt_list_del_init e h = Some h'" "is_list h' hd1 (ys @ zs)" "is_list h' e []"
        "\<forall>q. q \<notin> set (e # hd1 # ys @ zs) \<longrightarrow> h' q = h q"
      using list_del_init_ok [OF l1] by blast
    moreover have "is_list h' hd2 ws" by (rule is_list_cong [OF l2]) (use h'(4) dis in auto)
    ultimately show ?thesis by blast
  qed
  show ?thesis
    using d a b c i list_move_ok [OF l1 l2 dis] list_length_ok [OF l2] list_empty_ok [OF l2] by (intro conjI) assumption+
qed

definition sample_heap :: list_heap where
  "sample_heap = [1 \<mapsto> \<lparr>lprev = 3, lnext = 2\<rparr>, 2 \<mapsto> \<lparr>lprev = 1, lnext = 3\<rparr>, 3 \<mapsto> \<lparr>lprev = 2, lnext = 1\<rparr>,
     4 \<mapsto> \<lparr>lprev = 4, lnext = 4\<rparr>, 5 \<mapsto> \<lparr>lprev = 0, lnext = 0\<rparr>]"

theorem list_ops_refine_lists_witness:
  "(\<exists>h'. igt_list_del 2 sample_heap = Some h' \<and> is_list h' 1 [3]) \<and>
   (\<exists>h'. igt_list_add_tail 5 1 sample_heap = Some h' \<and> is_list h' 1 [2, 3, 5])"
proof -
  have l1: "is_list sample_heap 1 ([] @ 2 # [3])" and l2: "is_list sample_heap 4 []"
    by (auto simp: is_list_def sample_heap_def nx_def pv_def)
  have dis: "set ((1 :: nat) # [] @ 2 # [3]) \<inter> set (4 # []) = {}" by simp
  have f: "(5 :: nat) \<noteq> 0" "5 \<in> dom sample_heap" "5 \<notin> set ((1 :: nat) # [] @ 2 # [3])" by (auto simp: sample_heap_def)
  show ?thesis using list_ops_refine_lists [OF l1 l2 dis f] by auto
qed

text \<open>\<open>igt_list_for_each_entry_safe\<close> stays on the list when its body deletes the current node:
  the loop ends after visiting every node once in order, and the list is left with exactly the nodes
  that were not deleted. The plain \<open>igt_list_for_each_entry\<close> visits every node once in order when
  the body does not touch the list.\<close>

theorem list_for_each_safe_filters:
  assumes "is_list h head xs"
  shows "(\<exists>h'. igt_list_for_each_entry_safe (del_body P) head (h, []) = Some (h', xs) \<and>
       is_list h' head (filter (\<lambda>q. \<not> P q) xs) \<and> (\<forall>q. q \<notin> set (head # xs) \<longrightarrow> h' q = h q)) \<and>
    igt_list_for_each_entry (\<lambda>pos st. Some (fst st, snd st @ [pos])) head (h, []) = Some (h, xs)"
proof -
  have d: "deref h (after head xs) = Some (the (h (after head xs)))"
    using is_list_node [OF assms] after_in [of head xs] by (intro deref_Some) auto
  show ?thesis
    using for_each_safe_loop_ok [of h head "[]" xs P "[]"] for_each_loop_ok [of h head "[]" xs "[]"]
      assms is_list_head [OF assms] d
    by (simp add: igt_list_for_each_entry_safe_def igt_list_for_each_entry_def nx_def)
qed

theorem list_for_each_safe_filters_witness:
  "\<exists>h'. igt_list_for_each_entry_safe (del_body even) 1 (sample_heap, []) = Some (h', [2, 3]) \<and> is_list h' 1 [3]"
proof -
  have "is_list sample_heap 1 [2, 3]" by (auto simp: is_list_def sample_heap_def nx_def pv_def)
  from list_for_each_safe_filters [OF this, of even] show ?thesis by auto
qed

end
