(* ===== verification/Igt_Primes.thy ===== *)
theory Igt_Primes
  imports Igt_Macros Complex_Main
begin

unbundle bit_operations_syntax

text \<open>
  The prime numbers of \<open>lib/igt_primes.c\<close>: a bitmap that grows by \<open>realloc\<close> and is filled by the
  sieve of Eratosthenes, with trial division when there is no memory. The static variables of
  \<open>igt_next_prime_number\<close> are the record \<open>primes_state\<close>; \<open>unsigned long\<close> is 64 bits wide. An
  access outside the bitmap is \<open>None\<close>. \<open>sqrt\<close> of the C library, truncated, is the parameter
  \<open>fsqrt\<close>, and what \<open>realloc\<close> leaves in fresh memory is \<open>junk\<close>.
\<close>

definition BITS_PER_LONG :: u64 where "BITS_PER_LONG = 64"

definition BITMAP_FIRST_WORD_MASK :: "u64 \<Rightarrow> u64" where
  "BITMAP_FIRST_WORD_MASK start = push_bit (unat (start AND (BITS_PER_LONG - 1))) (NOT 0)"

definition round_mask :: "u64 \<Rightarrow> u64" where "round_mask y = y - 1"

definition round_up :: "u64 \<Rightarrow> u64 \<Rightarrow> u64" where
  "round_up x y = ((x - 1) OR round_mask y) + 1"

definition round_down :: "u64 \<Rightarrow> u64 \<Rightarrow> u64" where
  "round_down x y = x AND NOT (round_mask y)"

definition word_at :: "u64 list \<Rightarrow> u64 \<Rightarrow> u64 option" where
  "word_at addr i = (if unat i < length addr then Some (addr ! unat i) else None)"

definition bit_of :: "u64 \<Rightarrow> u64" where
  "bit_of nr = push_bit (unat (nr mod BITS_PER_LONG)) 1"

definition clear_bit :: "u64 \<Rightarrow> u64 list \<Rightarrow> u64 list option" where
  "clear_bit nr addr = do {
     w \<leftarrow> word_at addr (nr div BITS_PER_LONG);
     Some (addr[unat (nr div BITS_PER_LONG) := w AND NOT (bit_of nr)]) }"

text \<open>\<open>__builtin_ffsl\<close>: one plus the index of the lowest set bit, 0 for 0.\<close>

definition ffsl :: "u64 \<Rightarrow> nat" where
  "ffsl w = (if w = 0 then 0 else length (takeWhile (\<lambda>i. \<not> bit w i) [0..<64]) + 1)"

partial_function (option) find_loop :: "u64 list \<Rightarrow> u64 \<Rightarrow> u64 \<Rightarrow> u64 \<Rightarrow> u64 \<Rightarrow> u64 option" where
  "find_loop addr nbits invert start tmp =
    (if tmp = 0 then
       (let start1 = start + BITS_PER_LONG in
        if nbits \<le> start1 then Some nbits
        else do { w \<leftarrow> word_at addr (start1 div BITS_PER_LONG);
                  find_loop addr nbits invert start1 (w XOR invert) })
     else Some (min (start + of_nat (ffsl tmp) - 1) nbits))"

definition find_next_bit_inv :: "u64 list \<Rightarrow> u64 \<Rightarrow> u64 \<Rightarrow> u64 \<Rightarrow> u64 option" where
  "find_next_bit_inv addr nbits start invert =
    (if nbits = 0 \<or> nbits \<le> start then Some nbits
     else do {
       w \<leftarrow> word_at addr (start div BITS_PER_LONG);
       find_loop addr nbits invert (round_down start BITS_PER_LONG)
         ((w XOR invert) AND BITMAP_FIRST_WORD_MASK start) })"

definition find_next_bit :: "u64 list \<Rightarrow> u64 \<Rightarrow> u64 \<Rightarrow> u64 option" where
  "find_next_bit addr sz offset = find_next_bit_inv addr sz offset 0"

text \<open>Trial division: the inner loop ends at the largest divisor that is at most its start, or at 1.\<close>

function trial_loop :: "u64 \<Rightarrow> u64 \<Rightarrow> u64" where
  "trial_loop x y = (if 1 < y then (if x mod y = 0 then y else trial_loop x (y - 1)) else y)"
  by pat_completeness auto
termination
  by (relation "measure (\<lambda>(x, y). unat y)") (auto simp: word_less_nat_alt unat_sub word_le_nat_alt)

declare trial_loop.simps [simp del]

partial_function (option) slow_next_prime_number :: "(u64 \<Rightarrow> u64) \<Rightarrow> u64 \<Rightarrow> u64 option" where
  "slow_next_prime_number fsqrt x =
    (let x1 = x + 1 in
     if trial_loop x1 (fsqrt x1 + 1) = 1 then Some x1 else slow_next_prime_number fsqrt x1)"

partial_function (option) mark_loop :: "u64 \<Rightarrow> u64 \<Rightarrow> u64 \<Rightarrow> u64 list \<Rightarrow> u64 list option" where
  "mark_loop x m end' primes =
    (if m < end' then do { p \<leftarrow> clear_bit m primes; mark_loop x (m + x) end' p } else Some primes)"

definition mark_multiples :: "u64 \<Rightarrow> u64 list \<Rightarrow> u64 \<Rightarrow> u64 \<Rightarrow> (u64 list \<times> u64) option" where
  "mark_multiples x primes start end' = do {
     p \<leftarrow> mark_loop x (if 2 * x < start then (start div x + 1) * x else 2 * x) end' primes;
     Some (p, x) }"

record primes_state =
  primes :: "u64 list"
  plast :: u64
  last_sz :: u64

text \<open>The static variables before the first call.\<close>

definition primes_init :: primes_state where
  "primes_init = \<lparr>primes = [], plast = 0, last_sz = 0\<rparr>"

definition realloc_longs :: "(nat \<Rightarrow> u64) \<Rightarrow> u64 list \<Rightarrow> u64 \<Rightarrow> u64 list" where
  "realloc_longs junk ws bytes =
    map (\<lambda>i. if i < length ws then ws ! i else junk i) [0..<unat bytes div 8]"

definition memset_ff :: "u64 list \<Rightarrow> u64 \<Rightarrow> u64 \<Rightarrow> u64 list option" where
  "memset_ff ws from bytes =
    (let k = unat from; n = unat bytes div 8 in
     if k + n \<le> length ws then Some (take k ws @ replicate n (NOT 0) @ drop (k + n) ws) else None)"

partial_function (option) sieve_loop ::
    "u64 \<Rightarrow> u64 list \<Rightarrow> u64 \<Rightarrow> u64 \<Rightarrow> u64 \<Rightarrow> (u64 list \<times> u64) option" where
  "sieve_loop y nprimes start sz lst =
    (if y < sz then do {
       (p, l) \<leftarrow> mark_multiples y nprimes start sz;
       y1 \<leftarrow> find_next_bit p sz (y + 1);
       sieve_loop y1 p start sz l }
     else Some (nprimes, lst))"

definition igt_next_prime_number ::
    "(u64 \<Rightarrow> u64) \<Rightarrow> bool \<Rightarrow> (nat \<Rightarrow> u64) \<Rightarrow> u64 \<Rightarrow> primes_state \<Rightarrow> (primes_state \<times> u64) option" where
  "igt_next_prime_number fsqrt mem_ok junk x st =
    (if x = 0 then Some (st, 1)
     else if x = 1 then Some (st, 2)
     else if plast st \<le> x then
       (if x * x < x then do { r \<leftarrow> slow_next_prime_number fsqrt x; Some (st, r) }
        else if \<not> mem_ok then do { r \<leftarrow> slow_next_prime_number fsqrt x; Some (st, r) }
        else do {
          let sz = round_up (x * x) BITS_PER_LONG;
          nprimes \<leftarrow> memset_ff (realloc_longs junk (primes st) (sz div 8))
            (last_sz st div BITS_PER_LONG) ((sz - last_sz st) div 8);
          (p, l) \<leftarrow> sieve_loop 2 nprimes (last_sz st) sz (plast st);
          let st1 = \<lparr>primes = p, plast = l, last_sz = sz\<rparr>;
          r \<leftarrow> find_next_bit p l (x + 1);
          Some (st1, r) })
     else do { r \<leftarrow> find_next_bit (primes st) (plast st) (x + 1); Some (st, r) })"

subsection \<open>The bitmap\<close>

definition bm :: "u64 list \<Rightarrow> nat \<Rightarrow> bool" where
  "bm p i = bit (p ! (i div 64)) (i mod 64)"

lemma unat_div_64: "unat (x div BITS_PER_LONG) = unat x div 64"
  by (simp add: BITS_PER_LONG_def unat_div)

lemma unat_mod_64: "unat (x mod BITS_PER_LONG) = unat x mod 64"
  by (simp add: BITS_PER_LONG_def unat_mod)

lemma word_at_ok: "unat nr < 64 * length p \<Longrightarrow> word_at p (nr div BITS_PER_LONG) = Some (p ! (unat nr div 64))"
  by (simp add: word_at_def unat_div_64 less_mult_imp_div_less mult.commute)

lemma clear_bit_ok:
  assumes "unat nr < 64 * length p"
  shows "\<exists>p'. clear_bit nr p = Some p' \<and> length p' = length p \<and>
    (\<forall>i < 64 * length p. bm p' i \<longleftrightarrow> bm p i \<and> i \<noteq> unat nr)"
proof -
  define k where "k = unat nr div 64"
  define w where "w = p ! k"
  define p' where "p' = p[k := w AND NOT (bit_of nr)]"
  have c: "clear_bit nr p = Some p'"
    using word_at_ok [OF assms] by (simp add: clear_bit_def unat_div_64 p'_def w_def k_def)
  have "bm p' i \<longleftrightarrow> bm p i \<and> i \<noteq> unat nr" if i: "i < 64 * length p" for i
  proof (cases "i div 64 = k")
    case True
    have k: "k < length p" using True i by (metis less_mult_imp_div_less mult.commute)
    have "i = unat nr \<longleftrightarrow> i mod 64 = unat nr mod 64"
      using True unfolding k_def by (metis div_mult_mod_eq)
    moreover have "bit (bit_of nr) (i mod 64) \<longleftrightarrow> i mod 64 = unat nr mod 64"
      by (auto simp: bit_of_def unat_mod_64 bit_exp_iff)
    ultimately show ?thesis
      using k True by (simp add: bm_def p'_def w_def bit_and_iff bit_not_iff)
  next
    case False
    then show ?thesis by (auto simp: bm_def p'_def k_def)
  qed
  then show ?thesis using c by (auto simp: p'_def)
qed

subsection \<open>Finding the next set bit\<close>

text \<open>\<open>first_set P lo hi r\<close>: \<open>r\<close> is the first position from \<open>lo\<close> below \<open>hi\<close> where \<open>P\<close> holds,
  or \<open>hi\<close> when there is none.\<close>

definition first_set :: "(nat \<Rightarrow> bool) \<Rightarrow> nat \<Rightarrow> nat \<Rightarrow> nat \<Rightarrow> bool" where
  "first_set P lo hi r \<longleftrightarrow> r \<le> hi \<and> (\<forall>i. lo \<le> i \<and> i < r \<longrightarrow> \<not> P i) \<and> (r < hi \<longrightarrow> lo \<le> r \<and> P r)"

lemma ffsl_ok:
  assumes "w \<noteq> 0"
  shows "\<exists>k < 64. ffsl w = k + 1 \<and> bit w k \<and> (\<forall>j < k. \<not> bit w j)"
proof -
  obtain n where n: "bit w n" using assms by (metis bit_eq_iff bit_0_eq bot_apply bot_bool_def)
  then have n64: "n < 64" using bit_imp_le_length by fastforce
  define k where "k = length (takeWhile (\<lambda>i. \<not> bit w i) [0..<64])"
  have "\<not> bit w ([0..<64] ! j)" if "j < k" for j
    using that nth_length_takeWhile unfolding k_def by (metis nth_mem set_takeWhileD takeWhile_nth)
  moreover have k: "k < 64"
  proof (rule ccontr)
    assume "\<not> k < 64"
    then have "takeWhile (\<lambda>i. \<not> bit w i) [0..<64] = [0..<64]"
      by (metis k_def length_takeWhile_le length_upt diff_zero nle_le not_le takeWhile_eq_take take_all)
    then have "\<not> bit w n" using n64 by (simp add: takeWhile_eq_all_conv)
    then show False using n by simp
  qed
  moreover have "bit w ([0..<64] ! k)"
    using nth_length_takeWhile [of "\<lambda>i. \<not> bit w i" "[0..<64]"] k unfolding k_def by simp
  ultimately show ?thesis using assms by (auto simp: ffsl_def k_def)
qed

lemma find_loop_ok:
  assumes "unat nbits \<le> 64 * length p" "unat nbits + 64 < 2 ^ 64" "unat start = 64 * q" "unat start < unat nbits"
    and "\<And>k. k < 64 \<Longrightarrow> bit tmp k \<longleftrightarrow> lo \<le> 64 * q + k \<and> bm p (64 * q + k)"
    and "\<And>i. lo \<le> i \<Longrightarrow> i < 64 * q \<Longrightarrow> \<not> bm p i" "lo < 64 * q + 64"
  shows "\<exists>r. find_loop p nbits 0 start tmp = Some r \<and> first_set (bm p) lo (unat nbits) (unat r)"
  using assms
proof (induction "unat nbits - unat start" arbitrary: start q tmp rule: less_induct)
  case less
  show ?case
  proof (cases "tmp = 0")
    case False
    obtain k where k: "k < 64" "ffsl tmp = k + 1" "bit tmp k" "\<forall>j < k. \<not> bit tmp j" using ffsl_ok [OF False] by blast
    have u: "unat (start + of_nat (ffsl tmp) - 1) = 64 * q + k"
    proof -
      have e: "start + of_nat (ffsl tmp) - 1 = start + of_nat k" by (simp add: k(2))
      moreover have "unat (of_nat k :: u64) = k" using k(1) by (simp add: unat_of_nat take_bit_nat_eq_self)
      ultimately have "unat start + unat (of_nat k :: u64) < 2 ^ 64" "unat (of_nat k :: u64) = k"
        using less.prems(2,3,4) k(1) by simp_all
      then show ?thesis unfolding e using less.prems(3) by (simp add: unat_add_no_wrap)
    qed
    have none: "\<not> bm p i" if "lo \<le> i" "i < 64 * q + k" for i
    proof (cases "i < 64 * q")
      case False
      then have "\<not> bit tmp (i - 64 * q)" using k(4) that by simp
      then show ?thesis using less.prems(5) [of "i - 64 * q"] False that k(1) by simp
    qed (use less.prems(6) that in blast)
    have "unat (min (start + of_nat (ffsl tmp) - 1) nbits) = min (64 * q + k) (unat nbits)"
      using u by (auto simp: min_def word_le_nat_alt)
    then have "first_set (bm p) lo (unat nbits) (unat (min (start + of_nat (ffsl tmp) - 1) nbits))"
      using none less.prems(5) [OF k(1)] k(3) by (auto simp: first_set_def)
    then show ?thesis using False by (subst find_loop.simps) simp
  next
    case True
    define s1 where "s1 = start + BITS_PER_LONG"
    have s1: "unat s1 = 64 * (q + 1)"
      using less.prems(2-4) by (simp add: s1_def BITS_PER_LONG_def unat_add_no_wrap)
    have none: "\<not> bm p i" if "lo \<le> i" "i < 64 * (q + 1)" for i
    proof (cases "i < 64 * q")
      case False
      then show ?thesis using less.prems(5) [of "i - 64 * q"] True that by simp
    qed (use less.prems(6) that in blast)
    show ?thesis
    proof (cases "nbits \<le> s1")
      case nb: True
      have "first_set (bm p) lo (unat nbits) (unat nbits)"
        using none nb s1 by (auto simp: first_set_def word_le_nat_alt)
      then show ?thesis using True nb by (subst find_loop.simps) (simp add: s1_def Let_def)
    next
      case False
      then have lt: "unat s1 < unat nbits" by (simp add: word_le_nat_alt)
      have w: "word_at p (s1 div BITS_PER_LONG) = Some (p ! (q + 1))"
        using word_at_ok [of s1 p] s1 lt less.prems(1) by simp
      have "\<exists>r. find_loop p nbits 0 s1 (p ! (q + 1)) = Some r \<and> first_set (bm p) lo (unat nbits) (unat r)"
      proof (rule less.hyps [where q = "q + 1"])
        show "unat nbits - unat s1 < unat nbits - unat start" using lt s1 less.prems(3) by simp
        show "bit (p ! (q + 1)) k \<longleftrightarrow> lo \<le> 64 * (q + 1) + k \<and> bm p (64 * (q + 1) + k)" if "k < 64" for k
        proof -
          have "(k + 64 * (q + 1)) div 64 = q + 1" "(k + 64 * (q + 1)) mod 64 = k"
            using that by (simp_all only: div_mult_self2 mod_mult_self2) simp_all
          then show ?thesis using less.prems(7) by (simp add: bm_def add.commute)
        qed
        show "lo < 64 * (q + 1) + 64" using less.prems(7) by simp
      qed (use less.prems lt s1 none in auto)
      then show ?thesis using True False w by (subst find_loop.simps) (simp add: s1_def Let_def)
    qed
  qed
qed

lemma and_63: "unat (x AND (BITS_PER_LONG - 1)) = unat x mod 64"
proof -
  have "x AND (BITS_PER_LONG - 1) = take_bit 6 x"
    by (simp add: BITS_PER_LONG_def take_bit_eq_mask mask_eq_exp_minus_1)
  then show ?thesis by (simp add: unsigned_take_bit_eq) (simp add: take_bit_eq_mod)
qed

lemma unat_round_down: "unat (round_down x BITS_PER_LONG) = 64 * (unat x div 64)"
proof -
  have "round_down x BITS_PER_LONG = x AND NOT (mask 6)"
    by (simp add: round_down_def round_mask_def BITS_PER_LONG_def mask_eq_exp_minus_1)
  then have "unat (round_down x BITS_PER_LONG) = unat x - unat x mod 2 ^ 6"
    by (simp only: and_not_mask_nat)
  then show ?thesis by (simp add: minus_mod_eq_mult_div)
qed

lemma find_next_bit_ok:
  assumes "unat nbits \<le> 64 * length p" "unat nbits + 64 < 2 ^ 64"
  shows "\<exists>r. find_next_bit p nbits start = Some r \<and>
    (if unat start < unat nbits then first_set (bm p) (unat start) (unat nbits) (unat r) else r = nbits)"
proof (cases "unat start < unat nbits")
  case False
  then show ?thesis by (auto simp: find_next_bit_def find_next_bit_inv_def word_le_nat_alt)
next
  case True
  define q where "q = unat start div 64"
  have q: "unat start = 64 * q + unat start mod 64" by (simp add: q_def)
  have w: "word_at p (start div BITS_PER_LONG) = Some (p ! q)"
    using word_at_ok [of start p] True assms(1) by (simp add: q_def)
  have rd: "unat (round_down start BITS_PER_LONG) = 64 * q" by (simp add: unat_round_down q_def)
  let ?t = "p ! q AND BITMAP_FIRST_WORD_MASK start"
  have t: "bit ?t k \<longleftrightarrow> unat start \<le> 64 * q + k \<and> bm p (64 * q + k)" if "k < 64" for k
  proof -
    have "bit (BITMAP_FIRST_WORD_MASK start) k \<longleftrightarrow> unat start mod 64 \<le> k"
      using that by (auto simp: BITMAP_FIRST_WORD_MASK_def and_63 bit_push_bit_iff bit_not_iff bit_mask_iff)
    moreover have "(64 * q + k) div 64 = q" "(64 * q + k) mod 64 = k" using that by simp_all
    ultimately show ?thesis using q by (auto simp: bm_def bit_and_iff)
  qed
  have "\<exists>r. find_loop p nbits 0 (round_down start BITS_PER_LONG) ?t = Some r \<and>
      first_set (bm p) (unat start) (unat nbits) (unat r)"
  proof (rule find_loop_ok [OF assms rd])
    show "unat (round_down start BITS_PER_LONG) < unat nbits" using True q rd by simp
    show "unat start < 64 * q + 64"
    proof -
      have "unat start mod 64 < 64" by simp
      then show ?thesis using q by linarith
    qed
  qed (use t q in auto)
  then show ?thesis
    using True w by (auto simp: find_next_bit_def find_next_bit_inv_def word_le_nat_alt)
qed

text \<open>The search after a position below the end, as the callers use it.\<close>

lemma find_after:
  assumes "unat nbits \<le> 64 * length p" "unat nbits < 2 ^ 62" "unat x < unat nbits"
  shows "\<exists>r. find_next_bit p nbits (x + 1) = Some r \<and> unat x < unat r \<and> unat r \<le> unat nbits \<and>
    (\<forall>i. unat x < i \<and> i < unat r \<longrightarrow> \<not> bm p i) \<and> (unat r < unat nbits \<longrightarrow> bm p (unat r))"
proof -
  have x1: "unat (x + 1) = Suc (unat x)" using assms(2,3) by (subst unat_add_no_wrap) simp_all
  have big: "unat nbits + 64 < 2 ^ 64" using assms(2) by simp
  obtain r where r: "find_next_bit p nbits (x + 1) = Some r"
      "if Suc (unat x) < unat nbits then first_set (bm p) (Suc (unat x)) (unat nbits) (unat r) else r = nbits"
    using find_next_bit_ok [OF assms(1) big, of "x + 1", unfolded x1] by blast
  show ?thesis
  proof (cases "Suc (unat x) < unat nbits")
    case True
    then have f: "first_set (bm p) (Suc (unat x)) (unat nbits) (unat r)" using r(2) by simp
    moreover have "unat x < unat r" using f True by (cases "unat r < unat nbits") (auto simp: first_set_def)
    ultimately show ?thesis using r(1) by (auto simp: first_set_def)
  next
    case False
    then show ?thesis using r assms(3) by auto
  qed
qed

subsection \<open>Marking multiples\<close>

lemma mark_loop_ok:
  assumes "0 < unat x" "unat e \<le> 64 * length p" "unat e + unat x < 2 ^ 64"
  shows "\<exists>p'. mark_loop x m e p = Some p' \<and> length p' = length p \<and>
    (\<forall>i < 64 * length p. bm p' i \<longleftrightarrow> bm p i \<and> \<not> (i < unat e \<and> unat m \<le> i \<and> unat x dvd i - unat m))"
  using assms
proof (induction "unat e - unat m" arbitrary: m p rule: less_induct)
  case less
  show ?case
  proof (cases "m < e")
    case False
    then have "unat e \<le> unat m" by (simp add: word_le_nat_alt not_less)
    then show ?thesis using False by (subst mark_loop.simps) auto
  next
    case True
    then have lt: "unat m < unat e" by (simp add: word_less_nat_alt)
    obtain p1 where p1: "clear_bit m p = Some p1" "length p1 = length p"
        "\<forall>i < 64 * length p. bm p1 i \<longleftrightarrow> bm p i \<and> i \<noteq> unat m"
      using clear_bit_ok [of m p] lt less.prems(2) by auto
    have mx: "unat (m + x) = unat m + unat x" using lt less.prems(3) by (intro unat_add_no_wrap) simp
    obtain p2 where p2: "mark_loop x (m + x) e p1 = Some p2" "length p2 = length p"
        "\<forall>i < 64 * length p. bm p2 i \<longleftrightarrow> bm p1 i \<and> \<not> (i < unat e \<and> unat m + unat x \<le> i \<and> unat x dvd i - (unat m + unat x))"
    proof -
      have "unat e - unat (m + x) < unat e - unat m" using mx lt less.prems(1) by linarith
      from less.hyps [OF this less.prems(1) _ less.prems(3), of p1] show thesis
        using that less.prems(2) p1(2) by (auto simp: mx)
    qed
    have step: "unat m \<le> i \<and> unat x dvd i - unat m \<longleftrightarrow>
        i = unat m \<or> (unat m + unat x \<le> i \<and> unat x dvd i - (unat m + unat x))" for i
    proof (cases "unat m + unat x \<le> i")
      case True
      have "unat x dvd i - (unat m + unat x) \<longleftrightarrow> unat x dvd i - unat m"
        using True dvd_minus_self [of "unat x" "i - unat m"] by (auto simp: diff_diff_left)
      then show ?thesis using True less.prems(1) by auto
    next
      case False
      then have "i = unat m" if "unat m \<le> i" "unat x dvd i - unat m"
        using that dvd_imp_le [of "unat x" "i - unat m"] by (cases "i = unat m") auto
      then show ?thesis using False by auto
    qed
    have "bm p2 i \<longleftrightarrow> bm p i \<and> \<not> (i < unat e \<and> unat m \<le> i \<and> unat x dvd i - unat m)"
      if "i < 64 * length p" for i
      using p1(3) p2(3) that step [of i] lt by auto
    then show ?thesis using True p1(1) p2(1,2) by (subst mark_loop.simps) auto
  qed
qed

text \<open>The first multiple that is cleared. For \<open>2 * x < start\<close> it is the first one above \<open>start\<close>,
  so a multiple that is equal to \<open>start\<close> is skipped.\<close>

definition first_marked :: "nat \<Rightarrow> nat \<Rightarrow> nat" where
  "first_marked x start = (if 2 * x < start then (start div x + 1) * x else 2 * x)"

lemma mark_multiples_ok:
  assumes x: "0 < unat x" "unat x < unat e" and e: "unat e \<le> 64 * length p" "unat e < 2 ^ 62"
    and st: "unat start \<le> unat e"
  shows "\<exists>p'. mark_multiples x p start e = Some (p', x) \<and> length p' = length p \<and>
    (\<forall>i < 64 * length p. bm p' i \<longleftrightarrow>
       bm p i \<and> \<not> (i < unat e \<and> unat x dvd i \<and> first_marked (unat x) (unat start) \<le> i))"
proof -
  define m where "m = (if 2 * x < start then (start div x + 1) * x else 2 * x)"
  have two: "unat (2 * x) = 2 * unat x" using x e(2) by (subst unat_mult_no_wrap) simp_all
  have le: "unat start div unat x * unat x \<le> unat start" by simp
  have d: "unat start div unat x < 2 ^ 62" using st e(2) div_le_dividend [of "unat start" "unat x"] by linarith
  have "unat (start div x + 1) = unat start div unat x + 1"
    using d by (subst unat_add_no_wrap) (simp_all add: unat_div)
  moreover have "unat start div unat x * unat x + unat x < 2 ^ 62 + 2 ^ 62"
    using le st x e(2) by (intro add_strict_mono) linarith+
  then have "(unat start div unat x + 1) * unat x < 2 ^ 64" by simp
  ultimately have big: "unat ((start div x + 1) * x) = (unat start div unat x + 1) * unat x"
    by (subst unat_mult_no_wrap) simp_all
  have m: "unat m = first_marked (unat x) (unat start)"
    using two big by (simp add: m_def first_marked_def word_less_nat_alt)
  have dvd: "unat x dvd unat m" by (simp add: m first_marked_def)
  obtain p' where p': "mark_loop x m e p = Some p'" "length p' = length p"
      "\<forall>i < 64 * length p. bm p' i \<longleftrightarrow> bm p i \<and> \<not> (i < unat e \<and> unat m \<le> i \<and> unat x dvd i - unat m)"
    using mark_loop_ok [of x e p m] x e by auto
  have "unat x dvd i - unat m \<longleftrightarrow> unat x dvd i" if "unat m \<le> i" for i
    using that dvd by (metis dvd_diffD dvd_diff_nat)
  then have "bm p' i \<longleftrightarrow> bm p i \<and> \<not> (i < unat e \<and> unat x dvd i \<and> unat m \<le> i)" if "i < 64 * length p" for i
    using p'(3) that by blast
  then show ?thesis using p'(1,2) m by (simp add: mark_multiples_def m_def)
qed

subsection \<open>The sieve\<close>

definition is_prime :: "nat \<Rightarrow> bool" where
  "is_prime n \<longleftrightarrow> 2 \<le> n \<and> (\<forall>d\<in>{2..<n}. \<not> d dvd n)"

lemma dvd_pos_le: "d dvd n \<Longrightarrow> 2 \<le> n \<Longrightarrow> d \<le> (n :: nat)"
  by (rule dvd_imp_le) simp_all

lemma is_prime_iff: "is_prime n \<longleftrightarrow> 2 \<le> n \<and> (\<forall>d. 2 \<le> d \<and> d dvd n \<longrightarrow> d = n)"
proof (intro iffI conjI allI impI)
  fix d assume p: "is_prime n" and d: "2 \<le> d \<and> d dvd n"
  then have "d \<le> n" using dvd_pos_le by (simp add: is_prime_def)
  then show "d = n" using p d by (cases "d < n") (auto simp: is_prime_def)
qed (auto simp: is_prime_def)

lemma is_prime_code: "is_prime n \<longleftrightarrow> 2 \<le> n \<and> list_all (\<lambda>d. n mod d \<noteq> 0) [2..<n]"
  by (auto simp: is_prime_def list_all_iff dvd_eq_mod_eq_0)

text \<open>\<open>n\<close> is not a multiple of a smaller number from 2 up to (not including) \<open>y\<close>.\<close>

definition unmarked :: "nat \<Rightarrow> nat \<Rightarrow> bool" where
  "unmarked y n \<longleftrightarrow> (\<forall>d\<in>{2..<y}. d dvd n \<longrightarrow> d = n)"

lemma unmarked_prime: "2 \<le> n \<Longrightarrow> n \<le> y \<Longrightarrow> unmarked y n \<longleftrightarrow> is_prime n"
proof -
  assume a: "2 \<le> n" "n \<le> y"
  have "d < y \<or> d = n" if "d dvd n" for d using dvd_pos_le [OF that a(1)] a(2) by linarith
  then show ?thesis using a(1) unfolding unmarked_def is_prime_iff by (meson atLeastLessThan_iff)
qed

lemma unmarked_Suc: "2 \<le> y \<Longrightarrow> unmarked (y + 1) n \<longleftrightarrow> unmarked y n \<and> (y dvd n \<longrightarrow> y = n)"
  by (auto simp: unmarked_def less_Suc_eq)

lemmas unmarked_Suc' = unmarked_Suc [unfolded Suc_eq_plus1 [symmetric]]

text \<open>Numbers that are marked themselves mark nothing new.\<close>

lemma unmarked_skip:
  assumes "y \<le> y1" and "\<forall>i. y \<le> i \<and> i < y1 \<longrightarrow> \<not> unmarked y i" and n: "0 < n"
  shows "unmarked y1 n \<longleftrightarrow> unmarked y n"
proof
  assume a: "unmarked y n"
  have "d = n" if d: "2 \<le> d" "d < y1" "d dvd n" for d
  proof (cases "d < y")
    case False
    then have "\<not> unmarked y d" using assms(2) d by simp
    then obtain c where c: "2 \<le> c" "c < y" "c dvd d" "c \<noteq> d" by (auto simp: unmarked_def)
    then have "c dvd n" using d(3) dvd_trans by blast
    then have "c = n" using a c by (simp add: unmarked_def)
    moreover have "c \<le> d" "d \<le> n" using c(3) d dvd_imp_le n by auto
    ultimately show ?thesis using c(4) by simp
  qed (use a d in \<open>simp add: unmarked_def\<close>)
  then show "unmarked y1 n" by (simp add: unmarked_def)
qed (use assms(1) in \<open>auto simp: unmarked_def\<close>)

definition sieved :: "nat \<Rightarrow> u64 list \<Rightarrow> nat \<Rightarrow> bool" where
  "sieved sz p l \<longleftrightarrow> (\<forall>i. 2 \<le> i \<and> i < sz \<longrightarrow> (bm p i \<longleftrightarrow> is_prime i)) \<and>
     is_prime l \<and> l < sz \<and> (\<forall>q. l < q \<and> q < sz \<longrightarrow> \<not> is_prime q)"

lemma sieve_loop_fresh:
  assumes "unat sz \<le> 64 * length p" "unat sz < 2 ^ 62" "2 \<le> unat y" "unat y \<le> unat sz"
    and "\<And>i. 2 \<le> i \<Longrightarrow> i < unat sz \<Longrightarrow> bm p i \<longleftrightarrow> unmarked (unat y) i"
    and "unat y < unat sz \<Longrightarrow> is_prime (unat y)"
    and "2 < unat y \<Longrightarrow> is_prime (unat l) \<and> unat l < unat y \<and> (\<forall>q. unat l < q \<and> q < unat y \<longrightarrow> \<not> is_prime q)"
    and "2 < unat sz"
  shows "\<exists>p' l'. sieve_loop y p 0 sz l = Some (p', l') \<and> length p' = length p \<and> sieved (unat sz) p' (unat l')"
  using assms
proof (induction "unat sz - unat y" arbitrary: y p l rule: less_induct)
  case less
  show ?case
  proof (cases "y < sz")
    case False
    then have "unat y = unat sz" using less.prems(4) by (simp add: word_less_nat_alt)
    then have "sieved (unat sz) p (unat l)"
      using less.prems(5,7,8) by (auto simp: sieved_def unmarked_prime)
    then show ?thesis using False by (subst sieve_loop.simps) simp
  next
    case True
    then have lt: "unat y < unat sz" by (simp add: word_less_nat_alt)
    obtain p1 where p1: "mark_multiples y p 0 sz = Some (p1, y)" "length p1 = length p"
        "\<forall>i < 64 * length p. bm p1 i \<longleftrightarrow> bm p i \<and> \<not> (i < unat sz \<and> unat y dvd i \<and> 2 * unat y \<le> i)"
      using mark_multiples_ok [of y sz p 0] less.prems lt by (auto simp: first_marked_def)
    have y1: "unat (y + 1) = unat y + 1" using lt less.prems(2) by (subst unat_add_no_wrap) simp_all
    have mult: "unat y dvd i \<and> 2 * unat y \<le> i \<longleftrightarrow> unat y dvd i \<and> i \<noteq> unat y" if "2 \<le> i" for i
    proof -
      have "2 * unat y \<le> i" if dv: "unat y dvd i" "i \<noteq> unat y"
      proof -
        obtain k where k: "i = unat y * k" using dv(1) by (rule dvdE)
        have "k \<noteq> 0" using k \<open>2 \<le> i\<close> by (cases k) simp_all
        moreover have "k \<noteq> 1" using k dv(2) by auto
        ultimately show ?thesis unfolding k by (cases k) auto
      qed
      then show ?thesis using less.prems(3) by auto
    qed
    have b1: "bm p1 i \<longleftrightarrow> unmarked (unat y + 1) i" if "2 \<le> i" "i < unat sz" for i
      using p1(3) less.prems(1,3,5) that mult [OF that(1)] by (auto simp: unmarked_Suc')
    obtain r where r: "find_next_bit p1 sz (y + 1) = Some r"
        and r1: "unat y < unat r" "unat r \<le> unat sz" "unat r < unat sz \<Longrightarrow> bm p1 (unat r)"
        and gap: "\<forall>i. unat y < i \<and> i < unat r \<longrightarrow> \<not> bm p1 i"
      using find_after [of sz p1 y] less.prems(1,2) p1(2) lt by auto
    have none: "\<forall>i. unat y + 1 \<le> i \<and> i < unat r \<longrightarrow> \<not> unmarked (unat y + 1) i"
      using gap b1 r1(2) less.prems(3) by auto
    have "\<exists>p' l'. sieve_loop r p1 0 sz y = Some (p', l') \<and> length p' = length p1 \<and> sieved (unat sz) p' (unat l')"
    proof (rule less.hyps)
      show "unat sz - unat r < unat sz - unat y" using r1 lt by simp
      show b: "bm p1 i \<longleftrightarrow> unmarked (unat r) i" if "2 \<le> i" "i < unat sz" for i
        using b1 [OF that] unmarked_skip [OF _ none, of i] r1(1) that by simp
      show "is_prime (unat r)" if "unat r < unat sz"
        using b [of "unat r"] r1 that less.prems(3) by (simp add: unmarked_prime)
      have "\<not> is_prime q" if q: "unat y < q" "q < unat r" for q
      proof -
        obtain d where "2 \<le> d" "d < unat y + 1" "d dvd q" using none [rule_format, of q] q by (auto simp: unmarked_def)
        then show ?thesis using q(1) by (auto simp: is_prime_iff)
      qed
      then show "is_prime (unat y) \<and> unat y < unat r \<and> (\<forall>q. unat y < q \<and> q < unat r \<longrightarrow> \<not> is_prime q)"
        using less.prems(6) [OF lt] r1 by auto
    qed (use less.prems r1 p1 in auto)
    then show ?thesis using True p1(1,2) r by (subst sieve_loop.simps) simp
  qed
qed

subsection \<open>Growing the bitmap\<close>

lemma unat_round_up:
  assumes "0 < unat x" "unat x < 2 ^ 63"
  shows "unat (round_up x BITS_PER_LONG) = 64 * ((unat x - 1) div 64 + 1)"
proof -
  have m: "round_mask BITS_PER_LONG = mask 6"
    by (simp add: round_mask_def BITS_PER_LONG_def mask_eq_exp_minus_1)
  have x1: "unat (x - 1) = unat x - 1" using assms(1) by (simp add: unat_sub word_le_nat_alt)
  have "(x - 1) OR mask 6 = ((x - 1) AND NOT (mask 6)) OR mask 6"
    by (rule bit_word_eqI) (auto simp: bit_simps)
  also have "\<dots> = ((x - 1) AND NOT (mask 6)) + mask 6"
    by (rule disjunctive_add [symmetric]) (auto simp: bit_simps)
  finally have "round_up x BITS_PER_LONG = ((x - 1) AND NOT (mask 6)) + mask 6 + 1"
    by (simp only: round_up_def m)
  also have "\<dots> = ((x - 1) AND NOT (mask 6)) + 64"
    by (simp add: mask_eq_exp_minus_1)
  finally have r: "round_up x BITS_PER_LONG = ((x - 1) AND NOT (mask 6)) + 64" .
  have n: "unat ((x - 1) AND NOT (mask 6)) = 64 * ((unat x - 1) div 64)"
    unfolding and_not_mask_nat x1 by (simp add: minus_mod_eq_mult_div)
  have "unat ((x - 1) AND NOT (mask 6)) + unat (64 :: u64) < 2 ^ 64"
    unfolding n using assms div_times_less_eq_dividend [of "unat x - 1" 64] by (simp add: mult.commute)
  then show ?thesis unfolding r by (simp add: unat_add_no_wrap n)
qed

lemma grow_ok:
  assumes p: "64 * length p = unat last'" and le: "unat last' \<le> unat sz" and sz: "64 dvd unat sz"
  shows "\<exists>b. memset_ff (realloc_longs junk p (sz div 8)) (last' div BITS_PER_LONG) ((sz - last') div 8) = Some b \<and>
    64 * length b = unat sz \<and> (\<forall>i < unat sz. bm b i \<longleftrightarrow> (i < unat last' \<longrightarrow> bm p i))"
proof -
  obtain n where n: "unat sz = 64 * n" using sz by blast
  define l where "l = length p"
  have ln: "l \<le> n" using le p n by (simp add: l_def)
  have q: "realloc_longs junk p (sz div 8) = p @ map junk [l..<n]" (is "_ = ?r")
    using ln by (intro nth_equalityI) (auto simp: realloc_longs_def unat_div n l_def nth_append)
  have k: "unat (last' div BITS_PER_LONG) = l" using p by (simp add: unat_div_64 l_def)
  have "unat (sz - last') = 64 * (n - l)" using le p n by (simp add: unat_sub word_le_nat_alt l_def)
  then have c: "unat ((sz - last') div 8) div 8 = n - l" by (simp add: unat_div)
  define b where "b = p @ replicate (n - l) (NOT 0 :: u64)"
  have "memset_ff ?r (last' div BITS_PER_LONG) ((sz - last') div 8) = Some b"
    using ln by (simp add: memset_ff_def k c b_def l_def)
  moreover have "64 * length b = unat sz" using ln n by (simp add: b_def l_def)
  moreover have "bm b i \<longleftrightarrow> (i < unat last' \<longrightarrow> bm p i)" if i: "i < unat sz" for i
  proof (cases "i < unat last'")
    case True
    then have "i div 64 < length p" using p by (simp add: less_mult_imp_div_less mult.commute)
    then show ?thesis using True by (simp add: bm_def b_def nth_append)
  next
    case False
    then have "length p \<le> i div 64" using p by (metis div_le_mono nonzero_mult_div_cancel_left not_less zero_neq_numeral)
    moreover have "i div 64 < n" using i n by (simp add: less_mult_imp_div_less mult.commute)
    ultimately show ?thesis using False ln by (simp add: bm_def b_def nth_append l_def bit_not_iff)
  qed
  ultimately show ?thesis using q by auto
qed

definition primes_ok :: "primes_state \<Rightarrow> bool" where
  "primes_ok st \<longleftrightarrow> 64 * length (primes st) = unat (last_sz st) \<and> 64 \<le> unat (last_sz st) \<and>
     unat (last_sz st) < 2 ^ 62 \<and> sieved (unat (last_sz st)) (primes st) (unat (plast st))"

definition next_prime :: "nat \<Rightarrow> nat \<Rightarrow> bool" where
  "next_prime x r \<longleftrightarrow> is_prime r \<and> x < r \<and> (\<forall>q. x < q \<and> q < r \<longrightarrow> \<not> is_prime q)"

text \<open>A lookup below the last prime of the bitmap.\<close>

lemma lookup_next_prime:
  assumes s: "sieved (unat sz) p (unat l)" and len: "64 * length p = unat sz" and big: "unat sz < 2 ^ 62"
    and x: "2 \<le> unat x" "unat x < unat l"
  shows "\<exists>r. find_next_bit p l (x + 1) = Some r \<and> next_prime (unat x) (unat r)"
proof -
  have l: "is_prime (unat l)" "unat l < unat sz" using s by (simp_all add: sieved_def)
  obtain r where r: "find_next_bit p l (x + 1) = Some r" "unat x < unat r" "unat r \<le> unat l"
      "\<forall>i. unat x < i \<and> i < unat r \<longrightarrow> \<not> bm p i" "unat r < unat l \<longrightarrow> bm p (unat r)"
    using find_after [of l p x] l(2) len big x(2) by auto
  have "\<not> is_prime q" if "unat x < q" "q < unat r" for q
    using s r(3,4) that x(1) l(2) by (simp add: sieved_def)
  moreover have "is_prime (unat r)"
    using s r x(1) l by (cases "unat r < unat l") (auto simp: sieved_def)
  ultimately show ?thesis using r by (auto simp: next_prime_def)
qed

subsection \<open>The first call with memory\<close>

lemma is_prime_2: "is_prime 2" by (simp add: is_prime_def)

lemma square_bound:
  assumes "2 \<le> unat x" "unat x < 2 ^ 31"
  shows "unat (x * x) = unat x * unat x" "unat x * unat x < 2 ^ 62"
    "unat x * unat x \<le> unat (round_up (x * x) BITS_PER_LONG)"
    "unat (round_up (x * x) BITS_PER_LONG) < 2 ^ 62" "64 \<le> unat (round_up (x * x) BITS_PER_LONG)"
    "64 dvd unat (round_up (x * x) BITS_PER_LONG)" "\<not> x * x < x"
proof -
  have "unat x * unat x \<le> (2 ^ 31 - 1) * (2 ^ 31 - 1)" using assms(2) by (intro mult_le_mono) auto
  then have b: "unat x * unat x \<le> 4611686014132420609" by simp
  then show "unat x * unat x < 2 ^ 62" by simp
  show sq: "unat (x * x) = unat x * unat x" using b by (intro unat_mult_no_wrap) simp
  have pos: "0 < unat x * unat x" using assms(1) by simp
  have r: "unat (round_up (x * x) BITS_PER_LONG) = 64 * ((unat x * unat x - 1) div 64 + 1)"
    using unat_round_up [of "x * x"] sq b pos by simp
  define n where "n = unat x * unat x - 1"
  have n: "unat x * unat x = n + 1" using pos by (simp add: n_def)
  have r': "unat (round_up (x * x) BITS_PER_LONG) = 64 * (n div 64 + 1)" using r by (simp add: n_def)
  define k where "k = n div 64"
  have m: "n < 64 * (k + 1)" "64 * k \<le> n" unfolding k_def by simp_all
  show "unat x * unat x \<le> unat (round_up (x * x) BITS_PER_LONG)"
    using r' [folded k_def] n m by linarith
  show "unat (round_up (x * x) BITS_PER_LONG) < 2 ^ 62"
    using r' [folded k_def] n m b by simp
  show "64 \<le> unat (round_up (x * x) BITS_PER_LONG)" "64 dvd unat (round_up (x * x) BITS_PER_LONG)"
    by (simp_all add: r)
  have "unat x * 1 \<le> unat x * unat x" using assms(1) by (intro mult_le_mono2) simp
  then show "\<not> x * x < x" by (auto simp: word_less_nat_alt sq)
qed

lemma first_sieve:
  assumes x: "2 \<le> unat x" "unat x < 2 ^ 31"
    and q: "is_prime q" "unat x < q" "q < unat x * unat x"
  shows "\<exists>st r. igt_next_prime_number fsqrt True junk x primes_init = Some (st, r) \<and>
    primes_ok st \<and> last_sz st = round_up (x * x) BITS_PER_LONG \<and> next_prime (unat x) (unat r)"
proof -
  define sz where "sz = round_up (x * x) BITS_PER_LONG"
  note sb = square_bound [OF x, folded sz_def]
  obtain b where b: "memset_ff (realloc_longs junk [] (sz div 8)) (0 div BITS_PER_LONG) ((sz - 0) div 8) = Some b"
      "64 * length b = unat sz" "\<forall>i < unat sz. bm b i"
    using grow_ok [of "[]" 0 sz junk] sb(6) by auto
  have "bm b i \<longleftrightarrow> unmarked (unat (2 :: u64)) i" if "i < unat sz" for i
    using b(3) that by (simp add: unmarked_def)
  then obtain p l where p: "sieve_loop 2 b 0 sz 0 = Some (p, l)" "length p = length b" "sieved (unat sz) p (unat l)"
    using sieve_loop_fresh [of sz b 2 0] b(2) sb(4,5) is_prime_2 by auto
  have "q \<le> unat l"
  proof (rule ccontr)
    assume "\<not> q \<le> unat l"
    then show False using p(3) q sb(3) by (auto simp: sieved_def)
  qed
  then have "unat x < unat l" using q(2) by simp
  then obtain r where r: "find_next_bit p l (x + 1) = Some r" "next_prime (unat x) (unat r)"
    using lookup_next_prime [OF p(3) _ sb(4) x(1)] p(2) b(2) by auto
  have nz: "x \<noteq> 0" "x \<noteq> 1" using x(1) by auto
  have "igt_next_prime_number fsqrt True junk x primes_init
      = Some (\<lparr>primes = p, plast = l, last_sz = sz\<rparr>, r)"
    using nz sb(7) b(1) p(1) r(1)
    by (simp add: igt_next_prime_number_def primes_init_def sz_def [symmetric] Let_def)
  moreover have "primes_ok \<lparr>primes = p, plast = l, last_sz = sz\<rparr>"
    using p(2,3) b(2) sb(4,5) by (simp add: primes_ok_def)
  ultimately show ?thesis using r(2) by (auto simp: sz_def)
qed

lemma later_lookup:
  assumes "primes_ok st" "2 \<le> unat x" "unat x < unat (plast st)"
  shows "\<exists>r. igt_next_prime_number fsqrt mem_ok junk x st = Some (st, r) \<and> next_prime (unat x) (unat r)"
proof -
  obtain r where r: "find_next_bit (primes st) (plast st) (x + 1) = Some r" "next_prime (unat x) (unat r)"
    using lookup_next_prime [of "last_sz st" "primes st" "plast st" x] assms by (auto simp: primes_ok_def)
  have "x \<noteq> 0" "x \<noteq> 1" "\<not> plast st \<le> x" using assms(2,3) by (auto simp: word_le_nat_alt)
  then show ?thesis using r by (simp add: igt_next_prime_number_def)
qed

subsection \<open>Trial division\<close>

lemma trial_loop_1:
  assumes "1 \<le> unat y"
  shows "trial_loop x y = 1 \<longleftrightarrow> (\<forall>d. 2 \<le> d \<and> d \<le> unat y \<longrightarrow> \<not> d dvd unat x)"
  using assms
proof (induction x y rule: trial_loop.induct)
  case (1 x y)
  show ?case
  proof (cases "1 < y")
    case False
    then have "unat y = 1" using 1(2) by (simp add: word_less_nat_alt)
    then have "y = 1" by (simp add: word_unat_eq_iff)
    then show ?thesis by (subst trial_loop.simps) auto
  next
    case True
    then have y: "1 < unat y" by (simp add: word_less_nat_alt)
    have y1: "unat (y - 1) = unat y - 1" using y by (simp add: unat_sub word_le_nat_alt)
    have dv: "x mod y = 0 \<longleftrightarrow> unat y dvd unat x"
      by (simp add: word_unat_eq_iff unat_mod dvd_eq_mod_eq_0)
    show ?thesis
    proof (cases "x mod y = 0")
      case True
      then have "trial_loop x y = y" using \<open>1 < y\<close> by (subst trial_loop.simps) simp
      moreover have "y \<noteq> 1" using y by auto
      moreover have "2 \<le> unat y \<and> unat y \<le> unat y \<and> unat y dvd unat x" using dv True y by simp
      ultimately show ?thesis by metis
    next
      case False
      then have "trial_loop x y = trial_loop x (y - 1)" using \<open>1 < y\<close> by (subst trial_loop.simps) simp
      moreover have "(\<forall>d. 2 \<le> d \<and> d \<le> unat y \<longrightarrow> \<not> d dvd unat x) \<longleftrightarrow>
          (\<forall>d. 2 \<le> d \<and> d \<le> unat y - 1 \<longrightarrow> \<not> d dvd unat x)"
      proof -
        have "d \<le> unat y \<longleftrightarrow> d \<le> unat y - 1 \<or> d = unat y" for d using y by auto
        then show ?thesis using dv False by blast
      qed
      ultimately show ?thesis using 1(1) [OF True False] y y1 by simp
    qed
  qed
qed

text \<open>What the loop needs of the truncated \<open>sqrt\<close>: one more than it is at least the root, and
  below the number itself. The value may be off by one, as the double nearest to a large number is.\<close>

definition sqrt_close :: "(u64 \<Rightarrow> u64) \<Rightarrow> nat \<Rightarrow> bool" where
  "sqrt_close fsqrt n \<longleftrightarrow> (\<forall>z. 3 \<le> unat z \<and> unat z \<le> n \<longrightarrow>
     unat (fsqrt z) + 1 < unat z \<and> unat z < (unat (fsqrt z) + 2) * (unat (fsqrt z) + 2))"

lemma trial_division:
  assumes "sqrt_close fsqrt n" "3 \<le> unat z" "unat z \<le> n"
  shows "trial_loop z (fsqrt z + 1) = 1 \<longleftrightarrow> is_prime (unat z)"
proof -
  let ?f = "unat (fsqrt z)"
  have f: "?f + 1 < unat z" "unat z < (?f + 2) * (?f + 2)" using assms by (auto simp: sqrt_close_def)
  have f1: "unat (fsqrt z + 1) = ?f + 1" using f(1) unat_u64_lt [of z] by (subst unat_add_no_wrap) simp_all
  have "is_prime (unat z)" if small: "\<forall>d. 2 \<le> d \<and> d \<le> ?f + 1 \<longrightarrow> \<not> d dvd unat z"
  proof -
    have "d = unat z" if d: "2 \<le> d" "d dvd unat z" for d
    proof (rule ccontr)
      assume "d \<noteq> unat z"
      obtain e where e: "unat z = d * e" using d(2) by (rule dvdE)
      have "e \<noteq> 0" "e \<noteq> 1" using e \<open>d \<noteq> unat z\<close> assms(2) by (auto intro: Nat.gr0I)
      then have "2 \<le> e" by simp
      moreover have "e dvd unat z" using e by simp
      ultimately have "\<not> e \<le> ?f + 1" "\<not> d \<le> ?f + 1" using small d by blast+
      then have "?f + 2 \<le> d" "?f + 2 \<le> e" by linarith+
      then have "(?f + 2) * (?f + 2) \<le> unat z" unfolding e by (rule mult_le_mono)
      then show False using f(2) by simp
    qed
    then show ?thesis using assms(2) by (simp add: is_prime_iff)
  qed
  moreover have "\<not> d dvd unat z" if "is_prime (unat z)" "2 \<le> d" "d \<le> ?f + 1" for d
    using that f(1) by (auto simp: is_prime_def)
  ultimately show ?thesis unfolding trial_loop_1 [of "fsqrt z + 1", unfolded f1, simplified]
    using f1 by (auto simp: trial_loop_1)
qed

lemma slow_next_prime_ok:
  assumes "is_prime q" "unat x < q" "q < 2 ^ 62" "2 \<le> unat x" "sqrt_close fsqrt q"
  shows "\<exists>r. slow_next_prime_number fsqrt x = Some r \<and> next_prime (unat x) (unat r)"
  using assms
proof (induction "q - unat x" arbitrary: x rule: less_induct)
  case less
  have x1: "unat (x + 1) = unat x + 1" using less.prems(2,3) by (subst unat_add_no_wrap) simp_all
  have t: "trial_loop (x + 1) (fsqrt (x + 1) + 1) = 1 \<longleftrightarrow> is_prime (unat x + 1)"
    using trial_division [of fsqrt q "x + 1"] less.prems x1 by simp
  show ?case
  proof (cases "is_prime (unat x + 1)")
    case True
    then have "next_prime (unat x) (unat (x + 1))" using x1 by (auto simp: next_prime_def)
    then show ?thesis using True t by (subst slow_next_prime_number.simps) (simp add: Let_def)
  next
    case False
    then have "q \<noteq> unat x + 1" using less.prems(1) by auto
    then have lt: "unat x + 1 < q" "q - (unat x + 1) < q - unat x" using less.prems(2) by linarith+
    obtain r where r: "slow_next_prime_number fsqrt (x + 1) = Some r" "next_prime (unat x + 1) (unat r)"
      using less.hyps [of "x + 1", unfolded x1, OF lt(2) less.prems(1) lt(1) less.prems(3) _ less.prems(5)]
        less.prems(4) by auto
    have "\<not> is_prime p" if "unat x < p" "p < unat r" for p
      using r(2) False that by (cases "p = unat x + 1") (auto simp: next_prime_def)
    then have "next_prime (unat x) (unat r)" using r(2) by (auto simp: next_prime_def)
    then show ?thesis using False t r(1) by (subst slow_next_prime_number.simps) (simp add: Let_def)
  qed
qed

subsection \<open>The second sieve\<close>

text \<open>When the bitmap grows, no pass clears the bit of the old size: a smaller prime starts at the
  first multiple above it, and no prime is half of it.\<close>

lemma sieve_loop_again:
  assumes "unat sz \<le> 64 * length p" "unat sz < 2 ^ 62" "2 \<le> unat y" "unat y \<le> unat sz"
    and start: "unat start < unat sz" "64 dvd unat start" "64 \<le> unat start"
    and "\<And>i. 2 \<le> i \<Longrightarrow> i < unat start \<Longrightarrow> bm p i \<longleftrightarrow> is_prime i" "bm p (unat start)"
    and "unat y < unat sz \<Longrightarrow> bm p (unat y)" "unat start < unat y \<Longrightarrow> unat start \<le> unat l" "unat l < unat sz"
  shows "\<exists>p' l'. sieve_loop y p start sz l = Some (p', l') \<and> length p' = length p \<and>
    (\<forall>i. 2 \<le> i \<and> i < unat start \<longrightarrow> (bm p' i \<longleftrightarrow> is_prime i)) \<and> bm p' (unat start) \<and>
    unat start \<le> unat l' \<and> unat l' < unat sz"
  using assms
proof (induction "unat sz - unat y" arbitrary: y p l rule: less_induct)
  case less
  show ?case
  proof (cases "y < sz")
    case False
    then have "unat y = unat sz" using less.prems(4) by (simp add: word_less_nat_alt)
    then show ?thesis using less.prems False by (subst sieve_loop.simps) auto
  next
    case True
    then have lt: "unat y < unat sz" by (simp add: word_less_nat_alt)
    let ?S = "unat start" and ?m = "first_marked (unat y) (unat start)"
    obtain p1 where p1: "mark_multiples y p start sz = Some (p1, y)" "length p1 = length p"
        "\<forall>i < 64 * length p. bm p1 i \<longleftrightarrow> bm p i \<and> \<not> (i < unat sz \<and> unat y dvd i \<and> ?m \<le> i)"
      using mark_multiples_ok [of y sz p start] less.prems lt by auto
    have m: "?S < ?m"
    proof (cases "2 * unat y < ?S")
      case True
      have "?S < (?S div unat y + 1) * unat y"
        using less.prems(3) dividend_less_div_times [of "unat y" ?S] by simp
      then show ?thesis using True by (simp add: first_marked_def)
    next
      case False
      have "2 * unat y \<noteq> ?S"
      proof
        assume h: "2 * unat y = ?S"
        then have "is_prime (unat y)" using less.prems(3,7,8,10) lt by auto
        moreover obtain k where "?S = 64 * k" using less.prems(6) by (rule dvdE)
        then have "2 dvd unat y" using h by simp
        ultimately have "2 = unat y" unfolding is_prime_iff by blast
        then show False using h less.prems(7) by simp
      qed
      then show ?thesis using False by (simp add: first_marked_def)
    qed
    have same: "bm p1 i \<longleftrightarrow> bm p i" if "i \<le> ?S" for i
      using p1(3) m that less.prems(1,5) by auto
    obtain r where r: "find_next_bit p1 sz (y + 1) = Some r" "unat y < unat r" "unat r \<le> unat sz"
        "\<forall>i. unat y < i \<and> i < unat r \<longrightarrow> \<not> bm p1 i" "unat r < unat sz \<longrightarrow> bm p1 (unat r)"
      using find_after [of sz p1 y] less.prems(1,2) p1(2) lt by auto
    have "\<exists>p' l'. sieve_loop r p1 start sz y = Some (p', l') \<and> length p' = length p1 \<and>
      (\<forall>i. 2 \<le> i \<and> i < ?S \<longrightarrow> (bm p' i \<longleftrightarrow> is_prime i)) \<and> bm p' ?S \<and> ?S \<le> unat l' \<and> unat l' < unat sz"
    proof (rule less.hyps)
      show "unat sz - unat r < unat sz - unat y" using r lt by linarith
      show "bm p1 i \<longleftrightarrow> is_prime i" if "2 \<le> i" "i < ?S" for i
        using same [of i] less.prems(8) that by simp
      show "bm p1 ?S" using same [of ?S] less.prems(9) by simp
      show "?S \<le> unat y" if "?S < unat r"
      proof (rule ccontr)
        assume "\<not> ?S \<le> unat y"
        then show False using r(4) that \<open>bm p1 ?S\<close> by auto
      qed
    qed (use less.prems r p1 lt in auto)
    then show ?thesis using True p1(1,2) r(1) by (subst sieve_loop.simps) simp
  qed
qed

lemma second_sieve:
  assumes ok: "primes_ok st" and l31: "unat (plast st) < 2 ^ 31"
    and gt: "unat (last_sz st) < unat (plast st) * unat (plast st)"
    and al: "64 dvd unat (last_sz st)"
  shows "\<exists>st'. igt_next_prime_number fsqrt True junk (plast st) st = Some (st', last_sz st)"
proof -
  let ?x = "plast st" and ?S = "last_sz st"
  have s: "64 * length (primes st) = unat ?S" "64 \<le> unat ?S" "unat ?S < 2 ^ 62"
      "sieved (unat ?S) (primes st) (unat ?x)" using ok by (auto simp: primes_ok_def)
  have x: "2 \<le> unat ?x" "unat ?x < unat ?S" using s(4) by (auto simp: sieved_def is_prime_def)
  define sz where "sz = round_up (?x * ?x) BITS_PER_LONG"
  note sb = square_bound [OF x(1) l31, folded sz_def]
  have lt: "unat ?S < unat sz" using gt sb(3) by linarith
  obtain b where b: "memset_ff (realloc_longs junk (primes st) (sz div 8)) (?S div BITS_PER_LONG) ((sz - ?S) div 8) = Some b"
      "64 * length b = unat sz" "\<forall>i < unat sz. bm b i \<longleftrightarrow> (i < unat ?S \<longrightarrow> bm (primes st) i)"
    using grow_ok [OF s(1), of sz junk] lt sb(6) by auto
  have low: "bm b i \<longleftrightarrow> is_prime i" if "2 \<le> i" "i < unat ?S" for i
    using b(3) s(4) that lt by (simp add: sieved_def)
  obtain p l where p: "sieve_loop 2 b ?S sz ?x = Some (p, l)" "length p = length b"
      "\<forall>i. 2 \<le> i \<and> i < unat ?S \<longrightarrow> (bm p i \<longleftrightarrow> is_prime i)" "bm p (unat ?S)"
      "unat ?S \<le> unat l" "unat l < unat sz"
    using sieve_loop_again [of sz b 2 ?S ?x] b(2,3) sb(4,5) lt al s(2) x low [of 2] is_prime_2 low by auto
  obtain r where r: "find_next_bit p l (?x + 1) = Some r" "unat ?x < unat r" "unat r \<le> unat l"
      "\<forall>i. unat ?x < i \<and> i < unat r \<longrightarrow> \<not> bm p i" "unat r < unat l \<longrightarrow> bm p (unat r)"
    using find_after [of l p ?x] p(2,5,6) b(2) sb(4) x(2) by auto
  have "unat r \<le> unat ?S" using r(2,4) p(4) x(2) by (meson not_le)
  moreover have "\<not> unat r < unat ?S"
  proof
    assume h: "unat r < unat ?S"
    then have "bm p (unat r)" using r(5) p(5) by simp
    then have "is_prime (unat r)" using p(3) h r(2) x(1) by simp
    then show False using s(4) h r(2) by (simp add: sieved_def)
  qed
  ultimately have "r = ?S" by (simp add: word_unat_eq_iff)
  moreover have "?x \<noteq> 0" "?x \<noteq> 1" using x(1) by auto
  ultimately show ?thesis
    using sb(7) b(1) p(1) r(1) by (simp add: igt_next_prime_number_def sz_def [symmetric] Let_def)
qed

subsection \<open>Properties\<close>

text \<open>C22: The first call that needs a sieve returns the smallest prime above its argument, with or
  without memory: the sieve of Eratosthenes and the trial division agree. With memory it leaves a bitmap that
  covers the square of the argument, in which of the numbers from 2 on exactly the primes are set, and the
  calls that this bitmap can answer are right as well, and leave it as it is. The argument is at least 2 and
  below \<open>2 ^ 31\<close>, so that its square does not wrap; that a prime lies between a number and its square is the
  known theorem the assumption on \<open>p\<close> stands for; and the square root of the C library, which the trial
  division uses, is the parameter \<open>fsqrt\<close>, which may be off by less than 2 (\<open>sqrt_close\<close>).\<close>

theorem next_prime_first_sieve:
  assumes x: "2 \<le> unat x" "unat x < 2 ^ 31"
    and p: "is_prime p" "unat x < p" "p < unat x * unat x" and sq: "sqrt_close fsqrt p"
  shows "(\<exists>st r. igt_next_prime_number fsqrt mem_ok junk x primes_init = Some (st, r) \<and>
     next_prime (unat x) (unat r) \<and> (mem_ok \<longrightarrow>
       unat x * unat x \<le> unat (last_sz st) \<and> unat (last_sz st) = 64 * length (primes st) \<and>
       (\<forall>i. 2 \<le> i \<and> i < unat (last_sz st) \<longrightarrow> (bm (primes st) i \<longleftrightarrow> is_prime i)) \<and>
       is_prime (unat (plast st)) \<and> (\<forall>q. is_prime q \<and> q < unat (last_sz st) \<longrightarrow> q \<le> unat (plast st)) \<and>
       (\<forall>x2. 2 \<le> unat x2 \<and> unat x2 < unat (plast st) \<longrightarrow>
         (\<exists>r2. igt_next_prime_number fsqrt mem_ok junk x2 st = Some (st, r2) \<and>
           next_prime (unat x2) (unat r2)))))"
proof (cases mem_ok)
  case True
  obtain st r where st: "igt_next_prime_number fsqrt mem_ok junk x primes_init = Some (st, r)"
      "primes_ok st" "next_prime (unat x) (unat r)" "last_sz st = round_up (x * x) BITS_PER_LONG"
    using first_sieve [OF x p, of fsqrt junk] True by auto
  have "unat x * unat x \<le> unat (last_sz st)" using square_bound [OF x] st(4) by simp
  moreover have s: "sieved (unat (last_sz st)) (primes st) (unat (plast st))" "unat (last_sz st) = 64 * length (primes st)"
    using st(2) by (simp_all add: primes_ok_def)
  moreover have "q \<le> unat (plast st)" if "is_prime q" "q < unat (last_sz st)" for q
    using s(1) that unfolding sieved_def by (meson not_le)
  ultimately show ?thesis using st(1,3) later_lookup [OF st(2), of _ fsqrt mem_ok junk]
    by (intro exI [of _ st] exI [of _ r]) (auto simp: sieved_def)
next
  case False
  have "p < 2 ^ 62" using p(3) square_bound(2) [OF x] by simp
  then obtain r where r: "slow_next_prime_number fsqrt x = Some r" "next_prime (unat x) (unat r)"
    using slow_next_prime_ok [OF p(1,2) _ x(1) sq] by blast
  have "x \<noteq> 0" "x \<noteq> 1" using x(1) by auto
  then show ?thesis using r False by (simp add: igt_next_prime_number_def primes_init_def)
qed

text \<open>The truncated square root over the reals meets what the loop needs.\<close>

definition real_sqrt :: "u64 \<Rightarrow> u64" where
  "real_sqrt z = of_nat (nat \<lfloor>sqrt (real (unat z))\<rfloor>)"

lemma floor_sqrt_bounds:
  fixes n :: nat
  defines "f \<equiv> nat \<lfloor>sqrt (real n)\<rfloor>"
  shows "f * f \<le> n" "n < (f + 1) * (f + 1)"
proof -
  have f0: "real f \<le> sqrt (real n)" "sqrt (real n) < real f + 1" by (simp_all add: f_def)
  have "real f * real f \<le> sqrt (real n) * sqrt (real n)" using f0(1) by (intro mult_mono) auto
  then have "real (f * f) \<le> real n" by simp
  then show "f * f \<le> n" by (simp only: of_nat_le_iff)
  have "sqrt (real n) * sqrt (real n) < (real f + 1) * (real f + 1)"
    using f0(2) by (intro mult_strict_mono) auto
  then have "real n < real ((f + 1) * (f + 1))" by (simp add: algebra_simps)
  then show "n < (f + 1) * (f + 1)" by (simp only: of_nat_less_iff)
qed

lemma real_sqrt_close: "sqrt_close real_sqrt n"
  unfolding sqrt_close_def
proof (intro allI impI)
  fix z :: u64 assume z: "3 \<le> unat z \<and> unat z \<le> n"
  define f where "f = nat \<lfloor>sqrt (real (unat z))\<rfloor>"
  have lo: "f * f \<le> unat z" and hi: "unat z < (f + 1) * (f + 1)"
    using floor_sqrt_bounds [of "unat z"] by (simp_all only: f_def)
  have "f + 1 < unat z"
  proof (cases "f \<le> 1")
    case True then show ?thesis using z hi by (cases f) auto
  next
    case False
    then have "2 * f \<le> f * f" by (intro mult_le_mono1) simp
    then show ?thesis using lo False z hi by linarith
  qed
  moreover from this have "unat (real_sqrt z) = f"
  proof -
    have "real_sqrt z = of_nat f" by (simp only: real_sqrt_def f_def)
    then show ?thesis using \<open>f + 1 < unat z\<close> unat_u64_lt [of z] by (simp add: unat_of_nat take_bit_nat_eq_self)
  qed
  moreover have "unat z < (f + 2) * (f + 2)" using hi by simp
  ultimately show "unat (real_sqrt z) + 1 < unat z \<and> unat z < (unat (real_sqrt z) + 2) * (unat (real_sqrt z) + 2)"
    by simp
qed

theorem next_prime_first_sieve_witness:
  "\<exists>st r. igt_next_prime_number real_sqrt True (\<lambda>_. 0) 7 primes_init = Some (st, r) \<and> unat r = 11"
proof -
  have p: "is_prime 11" "\<not> is_prime 8" "\<not> is_prime 9" "\<not> is_prime 10"
    by (simp_all add: is_prime_code)
  then obtain st r where r: "igt_next_prime_number real_sqrt True (\<lambda>_. 0) 7 primes_init = Some (st, r)"
      "next_prime 7 (unat r)"
    using next_prime_first_sieve [of 7 11 real_sqrt True "\<lambda>_. 0"] real_sqrt_close by auto
  have "\<not> 11 < unat r" using r(2) p(1) by (auto simp: next_prime_def)
  moreover have "7 < unat r" "is_prime (unat r)" using r(2) by (auto simp: next_prime_def)
  ultimately have "unat r = 8 \<or> unat r = 9 \<or> unat r = 10 \<or> unat r = 11" by arith
  then show ?thesis using r(1) p \<open>is_prime (unat r)\<close> by auto
qed

text \<open>The second sieve is wrong. A caller that walks through the primes, as
  \<open>for_each_prime_number\<close> does, reaches the last prime of the bitmap and makes it grow; the multiples
  are then cleared from the first one above the old size, so the bit of the old size itself stays set
  and that multiple of 64 is returned as the next prime.\<close>

theorem next_prime_returns_bitmap_size:
  assumes "primes_ok st" "unat (plast st) < 2 ^ 31"
    and "unat (last_sz st) < unat (plast st) * unat (plast st)" "64 dvd unat (last_sz st)"
  shows "(\<exists>st'. igt_next_prime_number fsqrt True junk (plast st) st = Some (st', last_sz st)) \<and>
    \<not> is_prime (unat (last_sz st))"
proof -
  have "2 dvd unat (last_sz st)" using assms(4) by (rule dvd_trans [rotated]) simp
  moreover have "unat (last_sz st) \<noteq> 2" using assms(1) by (simp add: primes_ok_def)
  ultimately have "\<not> is_prime (unat (last_sz st))" unfolding is_prime_iff by (auto dest!: spec [of _ 2])
  then show ?thesis using second_sieve assms by blast
qed

text \<open>From a fresh start: 3 is the prime after 2, and after the walk up to 61 the next one is 64.\<close>

theorem next_prime_returns_bitmap_size_witness:
  "\<exists>st st'. igt_next_prime_number real_sqrt True (\<lambda>_. 0) 2 primes_init = Some (st, 3) \<and>
     igt_next_prime_number real_sqrt True (\<lambda>_. 0) 61 st = Some (st', 64)"
proof -
  have p: "is_prime 3" "is_prime 61" "\<not> is_prime 62" "\<not> is_prime 63"
    by (simp_all add: is_prime_code)
  obtain st r where st: "igt_next_prime_number real_sqrt True (\<lambda>_. 0) 2 primes_init = Some (st, r)"
      "primes_ok st" "last_sz st = round_up (2 * 2) BITS_PER_LONG" "next_prime 2 (unat r)"
    using first_sieve [of 2 3 real_sqrt "\<lambda>_. 0"] p(1) by auto
  have "\<not> 3 < unat r" "2 < unat r" using st(4) p(1) by (auto simp: next_prime_def)
  then have r: "r = 3" by (simp add: word_unat_eq_iff)
  have sz: "last_sz st = 64" by (simp add: st(3) round_up_def round_mask_def BITS_PER_LONG_def)
  have s: "sieved 64 (primes st) (unat (plast st))" using st(2) sz by (simp add: primes_ok_def)
  have "unat (plast st) = 61"
  proof (rule ccontr)
    assume n: "unat (plast st) \<noteq> 61"
    have l: "is_prime (unat (plast st))" "unat (plast st) < 64" "\<not> unat (plast st) < 61"
      using s p(2) by (auto simp: sieved_def)
    then have "unat (plast st) = 61 \<or> unat (plast st) = 62 \<or> unat (plast st) = 63" by arith
    then show False using l(1) p n by auto
  qed
  moreover from this have "plast st = 61" by (simp add: word_unat_eq_iff)
  ultimately show ?thesis
    using next_prime_returns_bitmap_size [of st real_sqrt "\<lambda>_. 0"] st(1,2) r sz by auto
qed

end
