(* ===== verification/Igt_Collection.thy ===== *)
theory Igt_Collection
  imports Igt_Macros
begin

unbundle bit_operations_syntax

text \<open>
  The combinatorics library \<open>lib/igt_collection.c\<close>: collections of at most 16 elements and an
  iterator over their subsets, combinations and variations. \<open>None\<close> is a failed \<open>igt_assert\<close> (or an
  access outside an array, or a loop that does not end). The iterator holds the collection it was
  created on as a value: the code keeps a pointer to a collection its callers leave alone.
\<close>

definition IGT_COLLECTION_MAXSIZE :: nat where "IGT_COLLECTION_MAXSIZE = 16"

datatype iter_algo = SUBSET | COMBINATION | VARIATION_R | VARIATION_NR

record collection_data =
  dvalue :: int
  dptr :: nat

record igt_collection =
  csize :: nat
  cset :: "collection_data list"

record collection_iter =
  iset :: igt_collection
  algorithm :: iter_algo
  iinit :: bool
  result_size :: nat
  result :: igt_collection
  result_bits :: u32
  current_result_size :: nat
  idxs :: "nat list"

text \<open>What \<open>calloc\<close> returns.\<close>

definition zero_data :: collection_data where
  "zero_data = \<lparr>dvalue = 0, dptr = 0\<rparr>"

definition zero_collection :: igt_collection where
  "zero_collection = \<lparr>csize = 0, cset = replicate IGT_COLLECTION_MAXSIZE zero_data\<rparr>"

definition igt_collection_create :: "bool \<Rightarrow> int \<Rightarrow> igt_collection option" where
  "igt_collection_create mem_ok sz = do {
     igt_assert (0 < sz \<and> sz \<le> int IGT_COLLECTION_MAXSIZE);
     igt_assert mem_ok;
     Some (fold (\<lambda>i s. s\<lparr>cset := (cset s)[i := (cset s ! i)\<lparr>dvalue := int i\<rparr>]\<rparr>) [0..<nat sz]
       (zero_collection\<lparr>csize := nat sz\<rparr>)) }"

definition igt_collection_duplicate :: "bool \<Rightarrow> igt_collection \<Rightarrow> igt_collection option" where
  "igt_collection_duplicate mem_ok src = do { igt_assert mem_ok; Some src }"

definition igt_collection_set_value :: "igt_collection \<Rightarrow> int \<Rightarrow> int \<Rightarrow> igt_collection option" where
  "igt_collection_set_value coll index val = do {
     igt_assert (0 \<le> index \<and> index < int (csize coll));
     Some (coll\<lparr>cset := (cset coll)[nat index := (cset coll ! nat index)\<lparr>dvalue := val\<rparr>]\<rparr>) }"

definition igt_collection_get_value :: "igt_collection \<Rightarrow> int \<Rightarrow> int option" where
  "igt_collection_get_value coll index = do {
     igt_assert (0 \<le> index \<and> index < int (csize coll));
     Some (dvalue (cset coll ! nat index)) }"

definition igt_collection_set_pointer :: "igt_collection \<Rightarrow> int \<Rightarrow> nat \<Rightarrow> igt_collection option" where
  "igt_collection_set_pointer coll index ptr = do {
     igt_assert (0 \<le> index \<and> index < int (csize coll));
     Some (coll\<lparr>cset := (cset coll)[nat index := (cset coll ! nat index)\<lparr>dptr := ptr\<rparr>]\<rparr>) }"

definition igt_collection_get_pointer :: "igt_collection \<Rightarrow> int \<Rightarrow> nat option" where
  "igt_collection_get_pointer coll index = do {
     igt_assert (0 \<le> index \<and> index < int (csize coll));
     Some (dptr (cset coll ! nat index)) }"

definition igt_collection_iter_create :: "bool \<Rightarrow> igt_collection \<Rightarrow> int \<Rightarrow> iter_algo \<Rightarrow> collection_iter option" where
  "igt_collection_iter_create mem_ok coll rsize alg = do {
     igt_assert (0 < rsize \<and> rsize \<le> int IGT_COLLECTION_MAXSIZE);
     (if alg \<noteq> VARIATION_R then igt_assert (rsize \<le> int (csize coll)) else Some ());
     igt_assert mem_ok;
     Some \<lparr>iset = coll, algorithm = alg, iinit = True, result_size = nat rsize,
       result = zero_collection, result_bits = 0, current_result_size = 0,
       idxs = replicate IGT_COLLECTION_MAXSIZE 0\<rparr> }"

text \<open>\<open>igt_hweight\<close> on 32 bits.\<close>

definition igt_hweight :: "u32 \<Rightarrow> nat" where
  "igt_hweight x = length (filter (bit x) [0..<32])"

text \<open>The loop that copies the chosen elements to the front of the result.\<close>

definition fill_result :: "igt_collection \<Rightarrow> u32 \<Rightarrow> igt_collection \<Rightarrow> igt_collection" where
  "fill_result coll bits cur = fst (fold (\<lambda>i (c, pos).
       if bits AND push_bit i 1 = 0 then (c, pos)
       else (c\<lparr>cset := (cset c)[pos := cset coll ! i], csize := pos + 1\<rparr>, pos + 1))
     [0..<csize coll] (cur, 0))"

text \<open>One step of the subset search: the next bit pattern, or the next size.\<close>

definition subset_bump :: "collection_iter \<Rightarrow> collection_iter" where
  "subset_bump iter =
    (let b = result_bits iter + 1 in
     if b AND push_bit (csize (iset iter)) 1 \<noteq> 0
     then iter\<lparr>current_result_size := current_result_size iter + 1, result_bits := 0\<rparr>
     else iter\<lparr>result_bits := b\<rparr>)"

partial_function (option) subset_loop :: "collection_iter \<Rightarrow> collection_iter option" where
  "subset_loop iter =
    (if igt_hweight (result_bits iter) \<noteq> current_result_size iter then subset_loop (subset_bump iter)
     else Some iter)"

definition igt_collection_iter_subsets :: "collection_iter \<Rightarrow> (collection_iter \<times> igt_collection option) option" where
  "igt_collection_iter_subsets iter =
    (let it1 = (if iinit iter
       then iter\<lparr>iinit := False, result_bits := 0, current_result_size := 0,
              result := (result iter)\<lparr>csize := 0\<rparr>\<rparr>
       else subset_bump iter) in
     if \<not> iinit iter \<and> result_size it1 < current_result_size it1 then Some (it1, None)
     else do {
       it2 \<leftarrow> subset_loop it1;
       if result_size it2 < current_result_size it2 then Some (it2, None)
       else (let c = fill_result (iset it2) (result_bits it2) (result it2) in
             Some (it2\<lparr>result := c\<rparr>, Some c)) })"

partial_function (option) combination_loop :: "nat \<Rightarrow> u32 \<Rightarrow> u32 option" where
  "combination_loop k bits =
    (if igt_hweight bits \<noteq> k then combination_loop k (bits + 1) else Some bits)"

definition igt_collection_iter_combination :: "collection_iter \<Rightarrow> (collection_iter \<times> igt_collection option) option" where
  "igt_collection_iter_combination iter =
    (let it1 = (if iinit iter
       then iter\<lparr>iinit := False, result_bits := 0, result := (result iter)\<lparr>csize := result_size iter\<rparr>\<rparr>
       else iter\<lparr>result_bits := result_bits iter + 1\<rparr>) in do {
     b \<leftarrow> combination_loop (result_size it1) (result_bits it1);
     let it2 = it1\<lparr>result_bits := b\<rparr>;
     if b AND push_bit (csize (iset it2)) 1 \<noteq> 0 then Some (it2, None)
     else (let c = fill_result (iset it2) b (result it2) in Some (it2\<lparr>result := c\<rparr>, Some c)) })"

text \<open>The counter of the variations: the last index runs fastest, and only the first one may reach the
  size of the collection.\<close>

fun inc_idxs :: "nat \<Rightarrow> nat \<Rightarrow> nat list \<Rightarrow> nat list" where
  "inc_idxs n 0 ix = ix"
| "inc_idxs n (Suc i) ix =
    (let ix1 = ix[i := ix ! i + 1] in
     if ix1 ! i = n \<and> 0 < i then inc_idxs n i (ix1[i := ix1 ! i mod n]) else ix1)"

definition variation_init :: "collection_iter \<Rightarrow> collection_iter" where
  "variation_init iter =
    (if iinit iter
     then iter\<lparr>iinit := False, result := (result iter)\<lparr>csize := result_size iter\<rparr>,
            idxs := fold (\<lambda>i ix. ix[i := 0]) [0..<result_size iter] (idxs iter)\<rparr>
     else iter)"

definition copy_by_index :: "collection_iter \<Rightarrow> igt_collection" where
  "copy_by_index iter = fold (\<lambda>i c. c\<lparr>cset := (cset c)[i := cset (iset iter) ! (idxs iter ! i)]\<rparr>)
     [0..<result_size iter] (result iter)"

definition igt_collection_iter_variation_r :: "collection_iter \<Rightarrow> (collection_iter \<times> igt_collection option) option" where
  "igt_collection_iter_variation_r iter =
    (let it1 = variation_init iter; n = csize (iset it1) in
     if idxs it1 ! 0 = n then Some (it1, None)
     else (let c = copy_by_index it1 in
       Some (it1\<lparr>result := c, idxs := inc_idxs n (result_size it1) (idxs it1)\<rparr>, Some c)))"

fun index_in_use :: "bool list \<Rightarrow> nat list \<Rightarrow> bool" where
  "index_in_use in_use [] = False"
| "index_in_use in_use (x # xs) = (if in_use ! x then True else index_in_use (in_use[x := True]) xs)"

partial_function (option) variation_nr_retry :: "collection_iter \<Rightarrow> (collection_iter \<times> igt_collection option) option" where
  "variation_nr_retry it1 =
    (let n = csize (iset it1) in
     if idxs it1 ! 0 = n then Some (it1, None)
     else (let c = copy_by_index it1;
               skip = index_in_use (replicate IGT_COLLECTION_MAXSIZE False) (take (result_size it1) (idxs it1));
               it2 = it1\<lparr>result := c, idxs := inc_idxs n (result_size it1) (idxs it1)\<rparr> in
           if skip then variation_nr_retry it2 else Some (it2, Some c)))"

definition igt_collection_iter_variation_nr :: "collection_iter \<Rightarrow> (collection_iter \<times> igt_collection option) option" where
  "igt_collection_iter_variation_nr iter = variation_nr_retry (variation_init iter)"

definition igt_collection_iter_next :: "collection_iter \<Rightarrow> (collection_iter \<times> igt_collection option) option" where
  "igt_collection_iter_next iter = (case algorithm iter of
     SUBSET \<Rightarrow> igt_collection_iter_subsets iter
   | COMBINATION \<Rightarrow> igt_collection_iter_combination iter
   | VARIATION_R \<Rightarrow> igt_collection_iter_variation_r iter
   | VARIATION_NR \<Rightarrow> igt_collection_iter_variation_nr iter)"

text \<open>The iterator is freed (\<open>None\<close>) with the last result.\<close>

definition igt_collection_iter_next_or_end ::
    "collection_iter \<Rightarrow> (collection_iter option \<times> igt_collection option) option" where
  "igt_collection_iter_next_or_end iter = do {
     (it, r) \<leftarrow> igt_collection_iter_next iter;
     Some (if r = None then (None, None) else (Some it, r)) }"

text \<open>The \<open>for_each_*\<close> macros, with the results a loop body sees.\<close>

definition coll_list :: "igt_collection \<Rightarrow> collection_data list" where
  "coll_list c = take (csize c) (cset c)"

partial_function (option) for_each_loop :: "collection_iter \<Rightarrow> collection_data list list option" where
  "for_each_loop iter = do {
     (it, r) \<leftarrow> igt_collection_iter_next_or_end iter;
     (case (it, r) of
        (Some it1, Some c) \<Rightarrow> do { rest \<leftarrow> for_each_loop it1; Some (coll_list c # rest) }
      | _ \<Rightarrow> Some []) }"

definition for_each_collection :: "iter_algo \<Rightarrow> int \<Rightarrow> igt_collection \<Rightarrow> collection_data list list option" where
  "for_each_collection alg rsize coll = do {
     iter \<leftarrow> igt_collection_iter_create True coll rsize alg;
     for_each_loop iter }"

subsection \<open>Copying the chosen elements\<close>

lemma bit_test: "bits AND 2 ^ i = (0 :: u32) \<longleftrightarrow> \<not> (i < 32 \<and> bit bits i)"
proof -
  have "bit (bits AND 2 ^ i) j \<longleftrightarrow> j = i \<and> i < 32 \<and> bit bits i" for j
    by (auto simp: bit_and_iff bit_exp_iff dest: bit_imp_le_length)
  then show ?thesis by (metis bit_eq_iff bit_0_eq bot_apply bot_bool_def)
qed

definition pick :: "igt_collection \<Rightarrow> nat \<Rightarrow> collection_data list" where
  "pick S b = map (\<lambda>i. cset S ! i) (filter (bit b) [0..<csize S])"

definition popcount :: "nat \<Rightarrow> nat" where
  "popcount b = length (filter (bit b) [0..<32])"

lemma igt_hweight_popcount: "igt_hweight w = popcount (unat w)"
proof -
  have "filter (bit w) [0..<32] = filter (bit (unat w)) [0..<32]"
    by (rule filter_cong) (auto simp: bit_unsigned_iff)
  then show ?thesis by (simp add: igt_hweight_def popcount_def)
qed

definition coll_ok :: "igt_collection \<Rightarrow> bool" where
  "coll_ok S \<longleftrightarrow> 0 < csize S \<and> csize S \<le> 16 \<and> length (cset S) = 16"

lemma fill_result_ok:
  assumes S: "coll_ok S" and c: "length (cset cur) = 16"
    and z: "(\<exists>i < csize S. bit (unat bits) i) \<or> csize cur = 0"
  shows "coll_list (fill_result S bits cur) = pick S (unat bits)" "length (cset (fill_result S bits cur)) = 16"
    "csize (fill_result S bits cur) = length (pick S (unat bits))"
proof -
  let ?f = "\<lambda>i (c, pos). if bits AND push_bit i 1 = 0 then (c, pos)
       else (c\<lparr>cset := (cset c)[pos := cset S ! i], csize := pos + 1\<rparr>, pos + 1)"
  define ch where "ch m = map (\<lambda>i. cset S ! i) (filter (bit (unat bits)) [0..<m])" for m
  have step: "\<exists>c'. fold ?f [0..<m] (cur, 0) = (c', length (ch m)) \<and> length (cset c') = 16 \<and>
      take (length (ch m)) (cset c') = ch m \<and> csize c' = (if ch m = [] then csize cur else length (ch m)) \<and>
      length (ch m) \<le> m" if "m \<le> 16" for m
    using that
  proof (induction m)
    case 0
    then show ?case using c by (simp add: ch_def)
  next
    case (Suc m)
    then obtain c' where c': "fold ?f [0..<m] (cur, 0) = (c', length (ch m))" "length (cset c') = 16"
        "take (length (ch m)) (cset c') = ch m" "csize c' = (if ch m = [] then csize cur else length (ch m))"
        "length (ch m) \<le> m" by auto
    have b: "bits AND 2 ^ m = 0 \<longleftrightarrow> \<not> bit (unat bits) m"
      using Suc.prems by (simp add: bit_test bit_unsigned_iff)
    have "take (Suc (length (ch m))) ((cset c')[length (ch m) := cset S ! m]) = ch m @ [cset S ! m]"
      using c'(2,3,5) Suc.prems by (simp add: take_Suc_conv_app_nth)
    then show ?case
      using c' b Suc.prems by (cases "bit (unat bits) m") (auto simp: ch_def)
  qed
  have n: "csize S \<le> 16" using S by (simp add: coll_ok_def)
  obtain c' where c': "fill_result S bits cur = c'" "length (cset c') = 16"
      "take (length (ch (csize S))) (cset c') = ch (csize S)"
      "csize c' = (if ch (csize S) = [] then csize cur else length (ch (csize S)))"
    using step [OF n] by (auto simp: fill_result_def)
  have "csize c' = length (ch (csize S))"
  proof (cases "\<exists>i < csize S. bit (unat bits) i")
    case True
    then have "ch (csize S) \<noteq> []" by (auto simp: ch_def filter_empty_conv)
    then show ?thesis using c'(4) by simp
  next
    case False
    then have "csize cur = 0" using z by blast
    then show ?thesis using c'(4) by simp
  qed
  then show "coll_list (fill_result S bits cur) = pick S (unat bits)" "length (cset (fill_result S bits cur)) = 16"
      "csize (fill_result S bits cur) = length (pick S (unat bits))"
    using c' by (simp_all add: coll_list_def pick_def ch_def)
qed

lemma bit_high: "b < 2 ^ n \<Longrightarrow> bit (b :: nat) i \<Longrightarrow> i < n"
  by (metis bit_take_bit_iff take_bit_nat_eq_self)

lemma popcount_eq: "b < 2 ^ n \<Longrightarrow> n \<le> 32 \<Longrightarrow> popcount b = length (filter (bit b) [0..<n])"
proof -
  assume a: "b < 2 ^ n" "n \<le> 32"
  have "[0..<32] = [0..<n] @ [n..<32]" using a(2) by (metis le_add_diff_inverse upt_add_eq_append zero_le)
  moreover have "filter (bit b) [n..<32] = []" using bit_high [OF a(1)] by (fastforce simp: filter_empty_conv)
  ultimately show ?thesis by (simp add: popcount_def)
qed

lemma popcount_mask: "n \<le> 32 \<Longrightarrow> popcount (mask n) = n"
proof -
  assume n: "n \<le> 32"
  have "filter (bit (mask n :: nat)) [0..<n] = [0..<n]" by (simp add: filter_id_conv bit_mask_iff)
  then show ?thesis using popcount_eq [of "mask n" n] n by (simp add: mask_eq_exp_minus_1)
qed

text \<open>The first pattern with \<open>k\<close> bits above \<open>2 ^ n\<close>: the search for a combination ends below
  \<open>2 ^ (n + 1)\<close>.\<close>

lemma popcount_above:
  assumes "0 < k" "k \<le> n" "n < 32"
  shows "popcount (2 ^ n + mask (k - 1)) = k" "2 ^ n + mask (k - 1) < (2 :: nat) ^ (n + 1)"
proof -
  have "(2 :: nat) ^ (k - 1) \<le> 2 ^ n" using assms by (intro power_increasing) auto
  moreover have "mask (k - 1) < (2 :: nat) ^ (k - 1)" by (simp add: mask_eq_exp_minus_1)
  ultimately have "mask (k - 1) < (2 :: nat) ^ n" by linarith
  then show "2 ^ n + mask (k - 1) < (2 :: nat) ^ (n + 1)" by simp
  have b: "bit (2 ^ n + mask (k - 1) :: nat) i \<longleftrightarrow> i = n \<or> i < k - 1" for i
  proof -
    have "(2 :: nat) ^ n + mask (k - 1) = 2 ^ n OR mask (k - 1)"
      by (rule disjunctive_add) (use assms in \<open>auto simp: bit_exp_iff bit_mask_iff\<close>)
    then show ?thesis by (auto simp: bit_or_iff bit_exp_iff bit_mask_iff)
  qed
  have u: "[0..<32] = [0..<k - 1] @ [k - 1..<n] @ n # [Suc n..<32]"
  proof -
    have "[0..<32] = [0..<k - 1] @ [k - 1..<32]"
      using assms upt_add_eq_append [of 0 "k - 1" "32 - (k - 1)"] by simp
    moreover have "[k - 1..<32] = [k - 1..<n] @ [n..<32]"
      using assms upt_add_eq_append [of "k - 1" n "32 - n"] by simp
    ultimately show ?thesis using assms by (simp add: upt_conv_Cons)
  qed
  have "filter (\<lambda>i. i = n \<or> i < k - 1) [0..<32] = [0..<k - 1] @ [n]"
    unfolding u using assms by (auto simp: filter_id_conv filter_empty_conv)
  moreover have "bit (2 ^ n + mask (k - 1) :: nat) = (\<lambda>i. i = n \<or> i < k - 1)" using b by (intro ext)
  ultimately show "popcount (2 ^ n + mask (k - 1)) = k"
    using assms by (simp only: popcount_def) simp
qed

subsection \<open>Scanning for the next match\<close>

text \<open>A search from \<open>t\<close> that stops at the first match splits the list of matches below a bound.\<close>

lemma filter_first:
  assumes "t \<le> r" "\<And>v. t \<le> v \<Longrightarrow> v < r \<Longrightarrow> \<not> P v" "r < hi \<Longrightarrow> P r"
  shows "filter P [t..<hi] = (if r < hi then r # filter P [Suc r..<hi] else [])"
proof (cases "r < hi")
  case True
  then have "[t..<hi] = [t..<r] @ r # [Suc r..<hi]"
    using assms(1) upt_add_eq_append [of t r "hi - r"] by (simp add: upt_conv_Cons)
  moreover have "filter P [t..<r] = []" using assms(2) by (auto simp: filter_empty_conv)
  ultimately show ?thesis using True assms(3) by simp
next
  case False
  then show ?thesis using assms(2) by (auto simp: filter_empty_conv)
qed

lemma combination_loop_ok:
  assumes "unat w \<le> v" "v < 2 ^ 32" "popcount v = k"
  shows "\<exists>r. combination_loop k w = Some r \<and> unat w \<le> unat r \<and> unat r \<le> v \<and> popcount (unat r) = k \<and>
    (\<forall>u. unat w \<le> u \<and> u < unat r \<longrightarrow> popcount u \<noteq> k)"
  using assms
proof (induction "v - unat w" arbitrary: w rule: less_induct)
  case less
  show ?case
  proof (cases "popcount (unat w) = k")
    case True
    then show ?thesis using less.prems by (subst combination_loop.simps) (auto simp: igt_hweight_popcount)
  next
    case False
    then have lt: "unat w < v" using less.prems by (cases "unat w = v") auto
    then have w1: "unat (w + 1) = Suc (unat w)" using less.prems(2) by (subst unat_add_no_wrap) simp_all
    then obtain r where r: "combination_loop k (w + 1) = Some r" "Suc (unat w) \<le> unat r" "unat r \<le> v"
        "popcount (unat r) = k" "\<forall>u. Suc (unat w) \<le> u \<and> u < unat r \<longrightarrow> popcount u \<noteq> k"
    proof -
      have "v - unat (w + 1) < v - unat w" "unat (w + 1) \<le> v" using w1 lt by linarith+
      from less.hyps [OF this less.prems(2,3), unfolded w1] show thesis using that by blast
    qed
    have "\<forall>u. unat w \<le> u \<and> u < unat r \<longrightarrow> popcount u \<noteq> k"
      using r(5) False by (metis le_eq_less_or_eq Suc_leI)
    then show ?thesis using r False by (subst combination_loop.simps) (auto simp: igt_hweight_popcount)
  qed
qed

lemma bit_of_range:
  assumes "2 ^ n \<le> r" "r < 2 ^ (n + 1)"
  shows "bit (r :: nat) n"
proof -
  have "r div 2 ^ n = 1"
    using assms by (intro div_nat_eqI) auto
  then show ?thesis by (simp add: bit_iff_odd)
qed

lemma pick_nonempty:
  assumes "b < 2 ^ csize S" "csize S \<le> 32" "0 < popcount b"
  shows "\<exists>i < csize S. bit b i" "length (pick S b) = popcount b"
proof -
  show l: "length (pick S b) = popcount b" using popcount_eq [OF assms(1,2)] by (simp add: pick_def)
  show "\<exists>i < csize S. bit b i" using assms(3) popcount_eq [OF assms(1,2)]
    by (auto simp: filter_empty_conv length_greater_0_conv simp del: length_0_conv)
qed

text \<open>The position a combination iterator searches from.\<close>

definition comb_at :: "igt_collection \<Rightarrow> nat \<Rightarrow> collection_iter \<Rightarrow> nat \<Rightarrow> bool" where
  "comb_at S k it w \<longleftrightarrow> iset it = S \<and> algorithm it = COMBINATION \<and> result_size it = k \<and>
     length (cset (result it)) = 16 \<and> w = (if iinit it then 0 else Suc (unat (result_bits it))) \<and> w \<le> 2 ^ csize S"

lemma comb_step:
  assumes S: "coll_ok S" and k: "0 < k" "k \<le> csize S" and at: "comb_at S k it w"
  shows "\<exists>it' r. w \<le> r \<and> popcount r = k \<and> (\<forall>u. w \<le> u \<and> u < r \<longrightarrow> popcount u \<noteq> k) \<and>
    (if r < 2 ^ csize S
     then \<exists>c. igt_collection_iter_next it = Some (it', Some c) \<and> coll_list c = pick S r \<and> comb_at S k it' (Suc r)
     else igt_collection_iter_next it = Some (it', None))"
proof -
  let ?n = "csize S" and ?v = "2 ^ csize S + mask (k - 1) :: nat"
  have n: "?n \<le> 16" using S by (simp add: coll_ok_def)
  have p16: "(2 :: nat) ^ ?n \<le> 2 ^ 16" using n by (intro power_increasing) auto
  have v: "popcount ?v = k" "?v < 2 ^ (?n + 1)" using popcount_above [of k ?n] k n by auto
  have "(2 :: nat) ^ (?n + 1) \<le> 2 ^ 17" using p16 by simp
  from less_le_trans [OF v(2) this] have v32: "?v < 2 ^ 32" by simp
  define it1 where "it1 = (if iinit it
       then it\<lparr>iinit := False, result_bits := 0, result := (result it)\<lparr>csize := result_size it\<rparr>\<rparr>
       else it\<lparr>result_bits := result_bits it + 1\<rparr>)"
  have w1: "unat (result_bits it1) = w"
  proof (cases "iinit it")
    case False
    then have "unat (result_bits it) < 2 ^ 16" using at p16 by (auto simp: comb_at_def)
    then have "unat (result_bits it + 1) = Suc (unat (result_bits it))" by (subst unat_add_no_wrap) simp_all
    then show ?thesis using False at by (simp add: it1_def comb_at_def)
  qed (use at in \<open>simp add: it1_def comb_at_def\<close>)
  have it1: "iset it1 = S" "algorithm it1 = COMBINATION" "result_size it1 = k" "length (cset (result it1)) = 16"
      "\<not> iinit it1"
    using at by (auto simp: it1_def comb_at_def)
  have "w \<le> ?v" using at by (simp add: comb_at_def)
  then obtain r where r: "combination_loop k (result_bits it1) = Some r" "w \<le> unat r" "unat r \<le> ?v"
      "popcount (unat r) = k" "\<forall>u. w \<le> u \<and> u < unat r \<longrightarrow> popcount u \<noteq> k"
    using combination_loop_ok [of "result_bits it1" ?v k] w1 v(1) v32 by auto
  have test: "r AND 2 ^ ?n = 0 \<longleftrightarrow> unat r < 2 ^ ?n"
  proof -
    have "bit (unat r) ?n \<longleftrightarrow> \<not> unat r < 2 ^ ?n"
      using bit_of_range [of ?n "unat r"] r(3) v(2) bit_high [of "unat r" ?n ?n] by fastforce
    then show ?thesis using n by (simp add: bit_test bit_unsigned_iff)
  qed
  define it2 where "it2 = it1\<lparr>result_bits := r\<rparr>"
  define c where "c = fill_result S r (result it1)"
  have nxt: "igt_collection_iter_next it = (if unat r < 2 ^ ?n then Some (it2\<lparr>result := c\<rparr>, Some c) else Some (it2, None))"
    using at it1 r(1) test
    by (simp add: igt_collection_iter_next_def comb_at_def igt_collection_iter_combination_def
        it1_def [symmetric] Let_def it2_def c_def)
  show ?thesis
  proof (cases "unat r < 2 ^ ?n")
    case True
    have "\<exists>i < ?n. bit (unat r) i" using pick_nonempty(1) [OF True] n r(4) k(1) by simp
    then have "coll_list c = pick S (unat r)" "length (cset c) = 16"
      using fill_result_ok [OF S it1(4), of r] by (auto simp: c_def)
    moreover from this have "comb_at S k (it2\<lparr>result := c\<rparr>) (Suc (unat r))"
      using it1 True by (simp add: comb_at_def it2_def)
    ultimately show ?thesis using nxt True r by auto
  next
    case False
    then show ?thesis using nxt r by (intro exI [of _ it2] exI [of _ "unat r"]) simp
  qed
qed

lemma for_each_loop_step:
  "igt_collection_iter_next it = Some (it', Some c) \<Longrightarrow>
     for_each_loop it = do { rest \<leftarrow> for_each_loop it'; Some (coll_list c # rest) }"
  "igt_collection_iter_next it = Some (it', None) \<Longrightarrow> for_each_loop it = Some []"
  by (subst for_each_loop.simps; simp add: igt_collection_iter_next_or_end_def)+

lemma comb_run:
  assumes "coll_ok S" "0 < k" "k \<le> csize S" "comb_at S k it w"
  shows "for_each_loop it = Some (map (pick S) (filter (\<lambda>b. popcount b = k) [w..<2 ^ csize S]))"
  using assms(4)
proof (induction "2 ^ csize S - w" arbitrary: it w rule: less_induct)
  case less
  obtain it' r where r: "w \<le> r" "popcount r = k" "\<forall>u. w \<le> u \<and> u < r \<longrightarrow> popcount u \<noteq> k"
      "if r < 2 ^ csize S
       then \<exists>c. igt_collection_iter_next it = Some (it', Some c) \<and> coll_list c = pick S r \<and> comb_at S k it' (Suc r)
       else igt_collection_iter_next it = Some (it', None)"
    using comb_step [OF assms(1-3) less.prems] by blast
  have f: "filter (\<lambda>b. popcount b = k) [w..<2 ^ csize S]
      = (if r < 2 ^ csize S then r # filter (\<lambda>b. popcount b = k) [Suc r..<2 ^ csize S] else [])"
    using r by (intro filter_first) auto
  show ?case
  proof (cases "r < 2 ^ csize S")
    case True
    then obtain c where c: "igt_collection_iter_next it = Some (it', Some c)" "coll_list c = pick S r" "comb_at S k it' (Suc r)"
      using r(4) by auto
    have "2 ^ csize S - Suc r < 2 ^ csize S - w" using True r(1) by linarith
    then show ?thesis using less.hyps [OF _ c(3)] for_each_loop_step(1) [OF c(1)] c(2) f True by simp
  next
    case False
    then show ?thesis using r(4) f for_each_loop_step(2) by auto
  qed
qed

subsection \<open>Subsets\<close>

text \<open>The subset search walks through pairs of a size and a pattern; both are one position.\<close>

definition sub_pos :: "collection_iter \<Rightarrow> nat" where
  "sub_pos it = current_result_size it * 2 ^ csize (iset it) + unat (result_bits it)"

definition sub_match :: "nat \<Rightarrow> nat \<Rightarrow> bool" where
  "sub_match n t \<longleftrightarrow> popcount (t mod 2 ^ n) = t div 2 ^ n"

lemma sub_pos_match:
  assumes "unat (result_bits it) < 2 ^ csize (iset it)"
  shows "sub_match (csize (iset it)) (sub_pos it) \<longleftrightarrow> igt_hweight (result_bits it) = current_result_size it"
    "sub_pos it mod 2 ^ csize (iset it) = unat (result_bits it)"
    "sub_pos it div 2 ^ csize (iset it) = current_result_size it"
proof -
  show m: "sub_pos it mod 2 ^ csize (iset it) = unat (result_bits it)"
    "sub_pos it div 2 ^ csize (iset it) = current_result_size it"
    using assms by (simp_all add: sub_pos_def)
  show "sub_match (csize (iset it)) (sub_pos it) \<longleftrightarrow> igt_hweight (result_bits it) = current_result_size it"
    unfolding sub_match_def m igt_hweight_popcount ..
qed

lemma subset_bump_ok:
  assumes "unat (result_bits it) < 2 ^ csize (iset it)" "csize (iset it) \<le> 16"
  shows "sub_pos (subset_bump it) = Suc (sub_pos it)"
    "unat (result_bits (subset_bump it)) < 2 ^ csize (iset it)"
    "iset (subset_bump it) = iset it" "algorithm (subset_bump it) = algorithm it"
    "result_size (subset_bump it) = result_size it" "result (subset_bump it) = result it"
    "iinit (subset_bump it) = iinit it"
proof -
  let ?n = "csize (iset it)" and ?b = "result_bits it + 1"
  have "(2 :: nat) ^ ?n \<le> 2 ^ 16" using assms(2) by (intro power_increasing) auto
  then have b: "unat ?b = Suc (unat (result_bits it))"
    using assms(1) by (subst unat_add_no_wrap) simp_all
  have test: "?b AND 2 ^ ?n = 0 \<longleftrightarrow> Suc (unat (result_bits it)) < 2 ^ ?n"
  proof -
    have "(2 :: nat) ^ ?n < 2 ^ (?n + 1)" by simp
    then have "bit (unat ?b) ?n \<longleftrightarrow> \<not> unat ?b < 2 ^ ?n"
      using bit_of_range [of ?n "unat ?b"] bit_high [of "unat ?b" ?n ?n] assms(1) b by fastforce
    moreover have "bit (unat ?b) ?n \<longleftrightarrow> bit ?b ?n" using assms(2) by (simp only: bit_unsigned_iff) simp
    ultimately have "?b AND 2 ^ ?n = 0 \<longleftrightarrow> unat ?b < 2 ^ ?n" using assms(2) by (simp only: bit_test) auto
    then show ?thesis by (simp only: b)
  qed
  show "sub_pos (subset_bump it) = Suc (sub_pos it)"
    "unat (result_bits (subset_bump it)) < 2 ^ csize (iset it)"
    using test b assms(1) by (auto simp: subset_bump_def Let_def sub_pos_def not_less)
qed (simp_all add: subset_bump_def Let_def)

lemma subset_loop_ok:
  assumes "unat (result_bits it) < 2 ^ csize (iset it)" "csize (iset it) \<le> 16"
    and "sub_pos it \<le> v" "sub_match (csize (iset it)) v"
  shows "\<exists>it'. subset_loop it = Some it' \<and> sub_pos it \<le> sub_pos it' \<and> sub_pos it' \<le> v \<and>
    sub_match (csize (iset it)) (sub_pos it') \<and>
    (\<forall>u. sub_pos it \<le> u \<and> u < sub_pos it' \<longrightarrow> \<not> sub_match (csize (iset it)) u) \<and>
    unat (result_bits it') < 2 ^ csize (iset it) \<and> iset it' = iset it \<and> algorithm it' = algorithm it \<and>
    result_size it' = result_size it \<and> result it' = result it \<and> iinit it' = iinit it"
  using assms
proof (induction "v - sub_pos it" arbitrary: it rule: less_induct)
  case less
  note m = sub_pos_match(1) [OF less.prems(1)]
  show ?case
  proof (cases "sub_match (csize (iset it)) (sub_pos it)")
    case True
    then show ?thesis using less.prems m by (subst subset_loop.simps) auto
  next
    case False
    note b = subset_bump_ok [OF less.prems(1,2)]
    have lt: "sub_pos it < v" using False less.prems(3,4) by (cases "sub_pos it = v") auto
    have "v - sub_pos (subset_bump it) < v - sub_pos it" "sub_pos (subset_bump it) \<le> v"
      using b(1) lt by linarith+
    from less.hyps [OF this(1) _ _ this(2), unfolded b(1,3), OF b(2) less.prems(2,4)]
    obtain it' where it': "subset_loop (subset_bump it) = Some it'" "Suc (sub_pos it) \<le> sub_pos it'" "sub_pos it' \<le> v"
        "sub_match (csize (iset it)) (sub_pos it')"
        "\<forall>u. Suc (sub_pos it) \<le> u \<and> u < sub_pos it' \<longrightarrow> \<not> sub_match (csize (iset it)) u"
        "unat (result_bits it') < 2 ^ csize (iset it)" "iset it' = iset it" "algorithm it' = algorithm it"
        "result_size it' = result_size it" "result it' = result it" "iinit it' = iinit it"
      using b by auto
    have "\<forall>u. sub_pos it \<le> u \<and> u < sub_pos it' \<longrightarrow> \<not> sub_match (csize (iset it)) u"
      using it'(5) False by (metis le_eq_less_or_eq Suc_leI)
    then show ?thesis using it' m False by (subst subset_loop.simps) auto
  qed
qed

definition sub_at :: "igt_collection \<Rightarrow> nat \<Rightarrow> collection_iter \<Rightarrow> nat \<Rightarrow> bool" where
  "sub_at S k it t \<longleftrightarrow> iset it = S \<and> algorithm it = SUBSET \<and> result_size it = k \<and>
     length (cset (result it)) = 16 \<and> t \<le> (k + 1) * 2 ^ csize S \<and>
     (if iinit it then t = 0 else unat (result_bits it) < 2 ^ csize S \<and> t = Suc (sub_pos it))"

lemma popcount_0: "b < 2 ^ 32 \<Longrightarrow> popcount b = 0 \<Longrightarrow> b = 0"
proof -
  assume a: "b < 2 ^ 32" "popcount b = 0"
  have "\<not> bit b i" for i
    using a(2) bit_high [OF a(1), of i] by (auto simp: popcount_def filter_empty_conv)
  then show "b = 0" by (simp add: bit_eq_iff)
qed

lemma sub_step:
  assumes S: "coll_ok S" and k: "0 < k" "k \<le> csize S" and at: "sub_at S k it t"
  shows "\<exists>it' r. t \<le> r \<and> (\<forall>u. t \<le> u \<and> u < r \<longrightarrow> \<not> sub_match (csize S) u) \<and>
    (if r < (k + 1) * 2 ^ csize S
     then sub_match (csize S) r \<and> (\<exists>c. igt_collection_iter_next it = Some (it', Some c) \<and>
       coll_list c = pick S (r mod 2 ^ csize S) \<and> sub_at S k it' (Suc r))
     else igt_collection_iter_next it = Some (it', None))"
proof -
  let ?n = "csize S" and ?N = "2 ^ csize S :: nat"
  have n: "?n \<le> 16" using S by (simp add: coll_ok_def)
  have N: "0 < ?N" by simp
  define it1 where "it1 = (if iinit it
       then it\<lparr>iinit := False, result_bits := 0, current_result_size := 0,
              result := (result it)\<lparr>csize := 0\<rparr>\<rparr>
       else subset_bump it)"
  have it1: "iset it1 = S" "algorithm it1 = SUBSET" "result_size it1 = k" "length (cset (result it1)) = 16"
      "\<not> iinit it1" "unat (result_bits it1) < ?N" "sub_pos it1 = t" "t = 0 \<longrightarrow> csize (result it1) = 0"
    using at subset_bump_ok [of it] n by (auto simp: it1_def sub_at_def sub_pos_def)
  have crs: "k < current_result_size it1 \<longleftrightarrow> (k + 1) * ?N \<le> t"
    using sub_pos_match(3) [of it1] it1(1,6,7) by (metis N Suc_eq_plus1 Suc_le_eq less_eq_div_iff_mult_less_eq)
  show ?thesis
  proof (cases "k < current_result_size it1")
    case True
    then have "\<not> iinit it" by (auto simp: it1_def)
    then have "igt_collection_iter_next it = Some (it1, None)"
      using True at it1(3)
      by (simp add: igt_collection_iter_next_def sub_at_def igt_collection_iter_subsets_def it1_def Let_def)
    then show ?thesis using True crs by (intro exI [of _ it1] exI [of _ t]) auto
  next
    case False
    then have t: "t < (k + 1) * ?N" using crs by simp
    define m where "m = ?N - 1"
    define v where "v = ?n * ?N + m"
    have m: "popcount m = ?n" "m < ?N" using popcount_mask [of ?n] n N by (simp_all add: mask_eq_exp_minus_1 m_def)
    then have v: "sub_match ?n v" by (simp add: sub_match_def v_def)
    have "(k + 1) * ?N \<le> (?n + 1) * ?N" using k(2) by (intro mult_le_mono1) simp
    with t have "t < (?n + 1) * ?N" by (rule less_le_trans)
    then have "t \<le> v" using N by (simp add: v_def m_def)
    then obtain it2 where it2: "subset_loop it1 = Some it2" "t \<le> sub_pos it2"
        "sub_match ?n (sub_pos it2)" "\<forall>u. t \<le> u \<and> u < sub_pos it2 \<longrightarrow> \<not> sub_match ?n u"
        "unat (result_bits it2) < ?N" "iset it2 = S" "algorithm it2 = SUBSET"
        "result_size it2 = k" "result it2 = result it1" "\<not> iinit it2"
      using subset_loop_ok [of it1 v] it1 n v by auto
    have crs2: "k < current_result_size it2 \<longleftrightarrow> (k + 1) * ?N \<le> sub_pos it2"
      using sub_pos_match(3) [of it2] it2(5,6) by (metis N Suc_eq_plus1 Suc_le_eq less_eq_div_iff_mult_less_eq)
    define c where "c = fill_result S (result_bits it2) (result it1)"
    have nxt: "igt_collection_iter_next it = (if k < current_result_size it2 then Some (it2, None)
        else Some (it2\<lparr>result := c\<rparr>, Some c))"
      using at False it1(3) it2(1,6,8,9)
      by (simp add: igt_collection_iter_next_def sub_at_def igt_collection_iter_subsets_def it1_def [symmetric]
          Let_def c_def)
    show ?thesis
    proof (cases "k < current_result_size it2")
      case True
      then show ?thesis using nxt crs2 it2(2,4) by (intro exI [of _ it2] exI [of _ "sub_pos it2"]) auto
    next
      case False
      have b: "sub_pos it2 mod ?N = unat (result_bits it2)" using sub_pos_match(2) [of it2] it2(5,6) by simp
      have "(\<exists>i < ?n. bit (unat (result_bits it2)) i) \<or> csize (result it1) = 0"
      proof (cases "popcount (unat (result_bits it2)) = 0")
        case True
        then have "unat (result_bits it2) = 0" using popcount_0 [of "unat (result_bits it2)"] unat_u32_lt [of "result_bits it2"] by simp
        moreover have "sub_pos it2 div ?N = 0" using it2(3) b True by (simp add: sub_match_def)
        ultimately have "sub_pos it2 = 0" using b by (metis div_mult_mod_eq add_0 mult_0)
        then show ?thesis using it2(2) it1(8) by simp
      next
        case False
        then show ?thesis using pick_nonempty(1) [OF it2(5)] n by simp
      qed
      then have c: "coll_list c = pick S (sub_pos it2 mod ?N)" "length (cset c) = 16"
        using fill_result_ok [OF S it1(4), of "result_bits it2"] b by (auto simp: c_def)
      have "sub_at S k (it2\<lparr>result := c\<rparr>) (Suc (sub_pos it2))"
        using it2 c(2) False crs2 by (simp add: sub_at_def sub_pos_def)
      then show ?thesis
        using nxt False crs2 it2(2-4) c(1)
        by (intro exI [of _ "it2\<lparr>result := c\<rparr>"] exI [of _ "sub_pos it2"]) auto
    qed
  qed
qed

lemma sub_run:
  assumes "coll_ok S" "0 < k" "k \<le> csize S" "sub_at S k it t"
  shows "for_each_loop it = Some (map (\<lambda>t. pick S (t mod 2 ^ csize S)) (filter (sub_match (csize S)) [t..<(k + 1) * 2 ^ csize S]))"
  using assms(4)
proof (induction "(k + 1) * 2 ^ csize S - t" arbitrary: it t rule: less_induct)
  case less
  let ?M = "(k + 1) * 2 ^ csize S"
  obtain it' r where r: "t \<le> r" "\<forall>u. t \<le> u \<and> u < r \<longrightarrow> \<not> sub_match (csize S) u"
      "if r < ?M
       then sub_match (csize S) r \<and> (\<exists>c. igt_collection_iter_next it = Some (it', Some c) \<and>
         coll_list c = pick S (r mod 2 ^ csize S) \<and> sub_at S k it' (Suc r))
       else igt_collection_iter_next it = Some (it', None)"
    using sub_step [OF assms(1-3) less.prems] by blast
  have f: "filter (sub_match (csize S)) [t..<?M]
      = (if r < ?M then r # filter (sub_match (csize S)) [Suc r..<?M] else [])"
    using r by (intro filter_first) auto
  show ?case
  proof (cases "r < ?M")
    case True
    then obtain c where c: "igt_collection_iter_next it = Some (it', Some c)" "coll_list c = pick S (r mod 2 ^ csize S)"
        "sub_at S k it' (Suc r)"
      using r(3) by auto
    have "?M - Suc r < ?M - t" using True r(1) by linarith
    then show ?thesis using less.hyps [OF _ c(3)] for_each_loop_step(1) [OF c(1)] c(2) f True by simp
  next
    case False
    then show ?thesis using r(3) f for_each_loop_step(2) by auto
  qed
qed

lemma sub_filter:
  "map (\<lambda>t. f (t mod 2 ^ n)) (filter (sub_match n) [0..<m * 2 ^ n])
    = concat (map (\<lambda>s. map f (filter (\<lambda>b. popcount b = s) [0..<2 ^ n])) [0..<m])"
proof (induction m)
  case (Suc m)
  let ?N = "2 ^ n :: nat"
  have u: "[0..<Suc m * ?N] = [0..<m * ?N] @ map (\<lambda>b. b + m * ?N) [0..<?N]"
  proof -
    have "[0..<Suc m * ?N] = [0..<m * ?N] @ [m * ?N..<m * ?N + ?N]"
      using upt_add_eq_append [of 0 "m * ?N" ?N] by (simp add: add.commute)
    moreover have "[m * ?N..<m * ?N + ?N] = map (\<lambda>b. b + m * ?N) [0..<?N]"
      by (simp add: map_add_upt add.commute)
    ultimately show ?thesis by simp
  qed
  have "filter (sub_match n) (map (\<lambda>b. b + m * ?N) [0..<?N]) = map (\<lambda>b. b + m * ?N) (filter (\<lambda>b. popcount b = m) [0..<?N])"
    unfolding filter_map by (rule arg_cong [OF filter_cong]) (auto simp: sub_match_def)
  moreover have "map (\<lambda>t. f (t mod ?N)) (map (\<lambda>b. b + m * ?N) (filter (\<lambda>b. popcount b = m) [0..<?N]))
      = map f (filter (\<lambda>b. popcount b = m) [0..<?N])"
    by simp
  ultimately show ?case unfolding u using Suc.IH by simp
qed simp

subsection \<open>Variations\<close>

text \<open>The counter shows the base-\<open>n\<close> digits of the number of the tuple; the first digit also takes the
  value \<open>n\<close>, after the last tuple.\<close>

fun digs :: "nat \<Rightarrow> nat \<Rightarrow> nat \<Rightarrow> nat list" where
  "digs n 0 j = []"
| "digs n (Suc 0) j = [j]"
| "digs n (Suc (Suc i)) j = digs n (Suc i) (j div n) @ [j mod n]"

lemma length_digs [simp]: "length (digs n k j) = k"
  by (induction n k j rule: digs.induct) simp_all

lemma digs_first: "digs n (Suc i) j ! 0 = j div n ^ i"
proof (induction i arbitrary: j)
  case (Suc i)
  have "digs n (Suc (Suc i)) j ! 0 = digs n (Suc i) (j div n) ! 0"
    unfolding digs.simps by (subst nth_append) simp
  then show ?case by (simp add: Suc.IH div_mult2_eq)
qed simp

lemma digs_bound: "j < n ^ k \<Longrightarrow> set (digs n k j) \<subseteq> {..<n}"
proof (induction n k j rule: digs.induct)
  case (3 n i j)
  have "j div n < n ^ Suc i" using 3(2) by (simp add: less_mult_imp_div_less mult.commute)
  moreover have "0 < n" using 3(2) by (cases n) auto
  ultimately show ?case using 3(1) by simp
qed simp_all

lemma digs_zero: "digs n k 0 = replicate k 0"
proof (induction k)
  case (Suc k)
  then show ?case by (cases k) (simp_all add: replicate_append_same)
qed simp

lemma digs_stop:
  assumes "0 < n" "0 < k" "j \<le> n ^ k"
  shows "digs n k j ! 0 = n \<longleftrightarrow> j = n ^ k"
proof -
  obtain i where k: "k = Suc i" using assms(2) by (cases k) auto
  have p: "0 < n ^ i" using assms(1) by simp
  have "j div n ^ i = n \<longleftrightarrow> j = n ^ k"
  proof
    assume "j div n ^ i = n"
    then have "n * n ^ i \<le> j" by (metis div_times_less_eq_dividend)
    then show "j = n ^ k" using assms(3) k by simp
  qed (use k p in simp)
  then show ?thesis by (simp add: k digs_first)
qed

lemma inc_idxs_ok:
  assumes "0 < n" "take (Suc i) ix = digs n (Suc i) j" "i < length ix"
  shows "take (Suc i) (inc_idxs n (Suc i) ix) = digs n (Suc i) (Suc j) \<and>
    length (inc_idxs n (Suc i) ix) = length ix \<and> drop (Suc i) (inc_idxs n (Suc i) ix) = drop (Suc i) ix"
  using assms(2,3)
proof (induction i arbitrary: ix j)
  case 0
  then have "ix ! 0 = j" by (cases ix) simp_all
  then show ?case using 0 by (cases ix) simp_all
next
  case (Suc i)
  have t: "take (Suc i) ix = digs n (Suc i) (j div n)" "ix ! Suc i = j mod n"
    using Suc.prems by (simp_all add: take_Suc_conv_app_nth)
  show ?case
  proof (cases "Suc (j mod n) = n")
    case False
    then have "Suc j mod n = Suc (j mod n)" "Suc j div n = j div n"
      by (simp_all add: mod_Suc div_Suc)
    then show ?thesis using False t Suc.prems by (simp add: Let_def take_Suc_conv_app_nth)
  next
    case True
    then have m: "Suc j mod n = 0" "Suc j div n = Suc (j div n)" by (simp_all add: mod_Suc div_Suc)
    let ?ix = "ix[Suc i := 0]"
    have "inc_idxs n (Suc (Suc i)) ix = inc_idxs n (Suc i) ?ix"
      using True t Suc.prems by (simp add: Let_def)
    moreover have r: "take (Suc i) (inc_idxs n (Suc i) ?ix) = digs n (Suc i) (Suc (j div n))"
        "length (inc_idxs n (Suc i) ?ix) = length ix"
        "drop (Suc i) (inc_idxs n (Suc i) ?ix) = drop (Suc i) ?ix"
      using Suc.IH [of ?ix "j div n"] t Suc.prems by simp_all
    moreover have "inc_idxs n (Suc i) ?ix ! Suc i = 0" "drop (Suc (Suc i)) (inc_idxs n (Suc i) ?ix) = drop (Suc (Suc i)) ix"
    proof -
      have d: "drop (Suc i) ?ix = 0 # drop (Suc (Suc i)) ix"
        using Suc.prems(2) by (simp add: Cons_nth_drop_Suc [symmetric])
      then show "inc_idxs n (Suc i) ?ix ! Suc i = 0"
        using r(2,3) Suc.prems(2) by (metis Cons_nth_drop_Suc list.inject)
      show "drop (Suc (Suc i)) (inc_idxs n (Suc i) ?ix) = drop (Suc (Suc i)) ix"
        using r(3) d by (metis drop_Suc list.sel(3) tl_drop)
    qed
    ultimately show ?thesis using m Suc.prems(2) by (simp add: take_Suc_conv_app_nth)
  qed
qed

text \<open>Every tuple over \<open>{..<n}\<close> is the digits of one number.\<close>

lemma digs_inj: "0 < n \<Longrightarrow> digs n k i = digs n k j \<Longrightarrow> 0 < k \<Longrightarrow> i = j"
proof (induction n k i arbitrary: j rule: digs.induct)
  case (3 n m i)
  then have "i div n = j div n" "i mod n = j mod n" by auto
  then show ?case by (metis div_mult_mod_eq)
qed simp_all

lemma digs_surj:
  assumes "0 < n" "0 < k" "length l = k" "set l \<subseteq> {..<n}"
  shows "\<exists>j < n ^ k. digs n k j = l"
  using assms
proof (induction k arbitrary: l)
  case (Suc k)
  show ?case
  proof (cases k)
    case 0
    then obtain x where "l = [x]" using Suc.prems by (cases l) auto
    then show ?thesis using Suc.prems 0 by auto
  next
    case (Suc i)
    have "l \<noteq> []" using Suc.prems(3) by auto
    then have l: "l = butlast l @ [last l]" by simp
    have "set (butlast l) \<subseteq> {..<n}" using Suc.prems(4) by (meson in_set_butlastD subset_iff)
    then obtain j where j: "j < n ^ k" "digs n k j = butlast l"
      using Suc.IH [of "butlast l"] Suc.prems Suc by auto
    have la: "last l < n" using Suc.prems(4) \<open>l \<noteq> []\<close> by (meson last_in_set lessThan_iff subset_iff)
    have "digs n (Suc k) (j * n + last l) = l" using Suc j la l by simp
    moreover have "j * n + last l < n ^ Suc k"
    proof -
      have "j * n + last l < (j + 1) * n" using la by simp
      also have "\<dots> \<le> n ^ k * n" using j(1) by (intro mult_le_mono1) simp
      finally show ?thesis by (simp add: mult.commute)
    qed
    ultimately show ?thesis by blast
  qed
qed simp

lemma digs_all:
  assumes "0 < n" "0 < k"
  shows "set (map (digs n k) [0..<n ^ k]) = {l. length l = k \<and> set l \<subseteq> {..<n}}" "distinct (map (digs n k) [0..<n ^ k])"
proof -
  show "set (map (digs n k) [0..<n ^ k]) = {l. length l = k \<and> set l \<subseteq> {..<n}}"
  proof (intro equalityI subsetI)
    fix l assume "l \<in> set (map (digs n k) [0..<n ^ k])"
    then obtain j where "j < n ^ k" "l = digs n k j" by auto
    then show "l \<in> {l. length l = k \<and> set l \<subseteq> {..<n}}" using digs_bound [of j n k] by simp
  next
    fix l assume "l \<in> {l. length l = k \<and> set l \<subseteq> {..<n}}"
    then obtain j where "j < n ^ k" "digs n k j = l" using digs_surj [OF assms, of l] by auto
    then show "l \<in> set (map (digs n k) [0..<n ^ k])" by auto
  qed
  show "distinct (map (digs n k) [0..<n ^ k])"
    using digs_inj assms by (auto simp: distinct_map inj_on_def)
qed

lemma fold_clear:
  "k \<le> length ix \<Longrightarrow> fold (\<lambda>i ix. ix[i := 0]) [0..<k] ix = replicate k 0 @ drop k ix"
proof (induction k)
  case (Suc k)
  then have "drop k ix = ix ! k # drop (Suc k) ix" by (simp add: Cons_nth_drop_Suc)
  then show ?case using Suc by (simp add: list_update_append replicate_append_same flip: append_assoc)
qed simp

lemma copy_by_index_ok:
  assumes "length (cset (result it)) = 16" "result_size it \<le> 16" "length (idxs it) = 16"
    and "csize (result it) = result_size it"
  shows "coll_list (copy_by_index it) = map (\<lambda>i. cset (iset it) ! i) (take (result_size it) (idxs it))"
    "length (cset (copy_by_index it)) = 16" "csize (copy_by_index it) = result_size it"
proof -
  let ?f = "\<lambda>i c. c\<lparr>cset := (cset c)[i := cset (iset it) ! (idxs it ! i)]\<rparr>"
  have step: "take m (cset (fold ?f [0..<m] (result it))) = map (\<lambda>i. cset (iset it) ! i) (take m (idxs it)) \<and>
      length (cset (fold ?f [0..<m] (result it))) = 16 \<and> csize (fold ?f [0..<m] (result it)) = result_size it"
    if "m \<le> 16" for m
    using that
  proof (induction m)
    case (Suc m)
    then show ?case using assms(3) by (simp add: take_Suc_conv_app_nth)
  qed (use assms in simp)
  from step [OF assms(2)]
  show "coll_list (copy_by_index it) = map (\<lambda>i. cset (iset it) ! i) (take (result_size it) (idxs it))"
    "length (cset (copy_by_index it)) = 16" "csize (copy_by_index it) = result_size it"
    by (simp_all add: copy_by_index_def coll_list_def)
qed

text \<open>An iterator that shows tuple \<open>j\<close>, before and after its first call.\<close>

definition var_st :: "igt_collection \<Rightarrow> nat \<Rightarrow> iter_algo \<Rightarrow> collection_iter \<Rightarrow> nat \<Rightarrow> bool" where
  "var_st S k alg it j \<longleftrightarrow> iset it = S \<and> algorithm it = alg \<and> result_size it = k \<and> \<not> iinit it \<and>
     length (cset (result it)) = 16 \<and> csize (result it) = k \<and> length (idxs it) = 16 \<and>
     take k (idxs it) = digs (csize S) k j \<and> j \<le> csize S ^ k"

definition var_at :: "igt_collection \<Rightarrow> nat \<Rightarrow> iter_algo \<Rightarrow> collection_iter \<Rightarrow> nat \<Rightarrow> bool" where
  "var_at S k alg it j \<longleftrightarrow> algorithm it = alg \<and> var_st S k alg (variation_init it) j"

lemma var_st_at: "var_st S k alg it j \<Longrightarrow> var_at S k alg it j"
  by (simp add: var_at_def variation_init_def var_st_def)

lemma var_step:
  assumes S: "coll_ok S" and k: "0 < k" "k \<le> 16" and st: "var_st S k alg it j"
  shows "idxs it ! 0 = csize S \<longleftrightarrow> j = csize S ^ k"
    "j < csize S ^ k \<Longrightarrow> var_st S k alg (it\<lparr>result := copy_by_index it, idxs := inc_idxs (csize S) k (idxs it)\<rparr>) (Suc j) \<and>
       coll_list (copy_by_index it) = map (\<lambda>i. cset S ! i) (digs (csize S) k j)"
proof -
  have n: "0 < csize S" using S by (simp add: coll_ok_def)
  have j: "j \<le> csize S ^ k" "take k (idxs it) = digs (csize S) k j" "length (idxs it) = 16"
    using st by (simp_all add: var_st_def)
  have "idxs it ! 0 = digs (csize S) k j ! 0" using j(2) k(1) by (metis nth_take)
  then show "idxs it ! 0 = csize S \<longleftrightarrow> j = csize S ^ k" using digs_stop [OF n k(1) j(1)] by simp
  assume lt: "j < csize S ^ k"
  obtain i where i: "k = Suc i" using k(1) by (cases k) auto
  have inc: "take k (inc_idxs (csize S) k (idxs it)) = digs (csize S) k (Suc j)"
      "length (inc_idxs (csize S) k (idxs it)) = 16"
    using inc_idxs_ok [OF n, of i "idxs it" j] j k(2) i by simp_all
  have c: "coll_list (copy_by_index it) = map (\<lambda>i. cset S ! i) (digs (csize S) k j)"
      "length (cset (copy_by_index it)) = 16" "csize (copy_by_index it) = k"
    using copy_by_index_ok [of it] st k(2) by (simp_all add: var_st_def)
  show "var_st S k alg (it\<lparr>result := copy_by_index it, idxs := inc_idxs (csize S) k (idxs it)\<rparr>) (Suc j) \<and>
      coll_list (copy_by_index it) = map (\<lambda>i. cset S ! i) (digs (csize S) k j)"
    using st inc c lt by (simp add: var_st_def)
qed

lemma var_r_run:
  assumes "coll_ok S" "0 < k" "k \<le> 16" "var_at S k VARIATION_R it j"
  shows "for_each_loop it = Some (map (\<lambda>j. map (\<lambda>i. cset S ! i) (digs (csize S) k j)) [j..<csize S ^ k])"
  using assms(4)
proof (induction "csize S ^ k - j" arbitrary: it j rule: less_induct)
  case less
  define it1 where "it1 = variation_init it"
  have st: "var_st S k VARIATION_R it1 j" "algorithm it = VARIATION_R" using less.prems by (simp_all add: var_at_def it1_def)
  note v = var_step [OF assms(1-3) st(1)]
  have f: "iset it1 = S" "result_size it1 = k" using st(1) by (simp_all add: var_st_def)
  let ?it2 = "it1\<lparr>result := copy_by_index it1, idxs := inc_idxs (csize S) k (idxs it1)\<rparr>"
  have nxt: "igt_collection_iter_next it = (if j = csize S ^ k then Some (it1, None) else Some (?it2, Some (copy_by_index it1)))"
    using v(1) st(2) f
    by (simp add: igt_collection_iter_next_def igt_collection_iter_variation_r_def it1_def [symmetric] Let_def)
  show ?case
  proof (cases "j = csize S ^ k")
    case True
    then show ?thesis using nxt for_each_loop_step(2) by auto
  next
    case False
    then have lt: "j < csize S ^ k" using st(1) by (simp add: var_st_def)
    have "csize S ^ k - Suc j < csize S ^ k - j" using lt by linarith
    moreover have "var_at S k VARIATION_R ?it2 (Suc j)" using v(2) [OF lt] by (intro var_st_at) simp
    ultimately have "for_each_loop ?it2 = Some (map (\<lambda>j. map (\<lambda>i. cset S ! i) (digs (csize S) k j)) [Suc j..<csize S ^ k])"
      by (rule less.hyps)
    then show ?thesis using nxt False for_each_loop_step(1) [of it ?it2 "copy_by_index it1"] v(2) [OF lt] lt
      by (simp add: upt_conv_Cons)
  qed
qed

lemma index_in_use_ok:
  "\<forall>x\<in>set xs. x < length u \<Longrightarrow> index_in_use u xs \<longleftrightarrow> \<not> distinct xs \<or> (\<exists>x\<in>set xs. u ! x)"
proof (induction u xs rule: index_in_use.induct)
  case (2 u x xs)
  show ?case
  proof (cases "u ! x")
    case False
    have "(\<exists>y\<in>set xs. u[x := True] ! y) \<longleftrightarrow> x \<in> set xs \<or> (\<exists>y\<in>set xs. u ! y)"
      using 2(2) by (auto simp: nth_list_update)
    then show ?thesis using 2 False by auto
  qed simp
qed simp

lemma var_nr_retry_ok:
  assumes S: "coll_ok S" and k: "0 < k" "k \<le> 16" and "var_st S k VARIATION_NR it j"
  shows "\<exists>it' r. j \<le> r \<and> (\<forall>u. j \<le> u \<and> u < r \<longrightarrow> \<not> distinct (digs (csize S) k u)) \<and>
    (if r < csize S ^ k
     then distinct (digs (csize S) k r) \<and> (\<exists>c. variation_nr_retry it = Some (it', Some c) \<and>
       coll_list c = map (\<lambda>i. cset S ! i) (digs (csize S) k r) \<and> var_st S k VARIATION_NR it' (Suc r))
     else variation_nr_retry it = Some (it', None))"
  using assms(4)
proof (induction "csize S ^ k - j" arbitrary: it j rule: less_induct)
  case less
  note v = var_step [OF assms(1-3) less.prems]
  have f: "iset it = S" "result_size it = k" "take k (idxs it) = digs (csize S) k j" "j \<le> csize S ^ k"
    using less.prems by (simp_all add: var_st_def)
  let ?it2 = "it\<lparr>result := copy_by_index it, idxs := inc_idxs (csize S) k (idxs it)\<rparr>"
  show ?case
  proof (cases "j = csize S ^ k")
    case True
    then have "variation_nr_retry it = Some (it, None)"
      using v(1) f by (subst variation_nr_retry.simps) (simp add: Let_def)
    then show ?thesis using True by (intro exI [of _ it] exI [of _ j]) auto
  next
    case False
    then have lt: "j < csize S ^ k" using f(4) by simp
    have "\<forall>x\<in>set (digs (csize S) k j). x < 16" using digs_bound [OF lt] S by (auto simp: coll_ok_def)
    then have use: "index_in_use (replicate IGT_COLLECTION_MAXSIZE False) (digs (csize S) k j)
        \<longleftrightarrow> \<not> distinct (digs (csize S) k j)"
      by (subst index_in_use_ok) (auto simp: IGT_COLLECTION_MAXSIZE_def)
    have r: "variation_nr_retry it = (if distinct (digs (csize S) k j) then Some (?it2, Some (copy_by_index it))
        else variation_nr_retry ?it2)"
      using v(1) f False use by (subst variation_nr_retry.simps) (simp add: Let_def)
    show ?thesis
    proof (cases "distinct (digs (csize S) k j)")
      case True
      then show ?thesis using r v(2) [OF lt] lt by (intro exI [of _ ?it2] exI [of _ j]) auto
    next
      case False
      have "csize S ^ k - Suc j < csize S ^ k - j" using lt by linarith
      from less.hyps [OF this conjunct1 [OF v(2) [OF lt]]]
      obtain it' r' where r': "Suc j \<le> r'" "\<forall>u. Suc j \<le> u \<and> u < r' \<longrightarrow> \<not> distinct (digs (csize S) k u)"
          "if r' < csize S ^ k
           then distinct (digs (csize S) k r') \<and> (\<exists>c. variation_nr_retry ?it2 = Some (it', Some c) \<and>
             coll_list c = map (\<lambda>i. cset S ! i) (digs (csize S) k r') \<and> var_st S k VARIATION_NR it' (Suc r'))
           else variation_nr_retry ?it2 = Some (it', None)"
        by blast
      have "\<forall>u. j \<le> u \<and> u < r' \<longrightarrow> \<not> distinct (digs (csize S) k u)"
        using r'(2) False by (metis le_eq_less_or_eq Suc_leI)
      then show ?thesis using r'(1,3) r False by (intro exI [of _ it'] exI [of _ r']) auto
    qed
  qed
qed

lemma var_nr_run:
  assumes "coll_ok S" "0 < k" "k \<le> 16" "var_at S k VARIATION_NR it j"
  shows "for_each_loop it = Some (map (\<lambda>j. map (\<lambda>i. cset S ! i) (digs (csize S) k j))
    (filter (\<lambda>j. distinct (digs (csize S) k j)) [j..<csize S ^ k]))"
  using assms(4)
proof (induction "csize S ^ k - j" arbitrary: it j rule: less_induct)
  case less
  let ?P = "\<lambda>j. distinct (digs (csize S) k j)"
  have st: "var_st S k VARIATION_NR (variation_init it) j" "algorithm it = VARIATION_NR"
    using less.prems by (simp_all add: var_at_def)
  have nxt: "igt_collection_iter_next it = variation_nr_retry (variation_init it)"
    using st(2) by (simp add: igt_collection_iter_next_def igt_collection_iter_variation_nr_def)
  obtain it' r where r: "j \<le> r" "\<forall>u. j \<le> u \<and> u < r \<longrightarrow> \<not> ?P u"
      "if r < csize S ^ k
       then ?P r \<and> (\<exists>c. variation_nr_retry (variation_init it) = Some (it', Some c) \<and>
         coll_list c = map (\<lambda>i. cset S ! i) (digs (csize S) k r) \<and> var_st S k VARIATION_NR it' (Suc r))
       else variation_nr_retry (variation_init it) = Some (it', None)"
    using var_nr_retry_ok [OF assms(1-3) st(1)] by blast
  have f: "filter ?P [j..<csize S ^ k] = (if r < csize S ^ k then r # filter ?P [Suc r..<csize S ^ k] else [])"
    using r by (intro filter_first) auto
  show ?case
  proof (cases "r < csize S ^ k")
    case True
    then obtain c where c: "igt_collection_iter_next it = Some (it', Some c)"
        "coll_list c = map (\<lambda>i. cset S ! i) (digs (csize S) k r)" "var_at S k VARIATION_NR it' (Suc r)"
      using r(3) nxt var_st_at by auto
    have "csize S ^ k - Suc r < csize S ^ k - j" using True r(1) by linarith
    then show ?thesis using less.hyps [OF _ c(3)] for_each_loop_step(1) [OF c(1)] c(2) f True by simp
  next
    case False
    then show ?thesis using r(3) f nxt for_each_loop_step(2) by auto
  qed
qed

subsection \<open>The whole iteration\<close>

lemma iter_create_ok:
  assumes "0 < k" "k \<le> 16" "alg = VARIATION_R \<or> k \<le> csize S"
  shows "igt_collection_iter_create True S (int k) alg = Some \<lparr>iset = S, algorithm = alg, iinit = True,
    result_size = k, result = zero_collection, result_bits = 0, current_result_size = 0, idxs = replicate 16 0\<rparr>"
  using assms by (auto simp: igt_collection_iter_create_def IGT_COLLECTION_MAXSIZE_def)

lemma for_each_combination_ok:
  assumes "coll_ok S" "0 < k" "k \<le> csize S"
  shows "for_each_collection COMBINATION (int k) S = Some (map (pick S) (filter (\<lambda>b. popcount b = k) [0..<2 ^ csize S]))"
proof -
  have "k \<le> 16" using assms by (simp add: coll_ok_def)
  then show ?thesis
    using iter_create_ok [of k COMBINATION S] assms comb_run [OF assms]
    by (simp add: for_each_collection_def comb_at_def zero_collection_def IGT_COLLECTION_MAXSIZE_def)
qed

lemma for_each_subset_ok:
  assumes "coll_ok S" "0 < k" "k \<le> csize S"
  shows "for_each_collection SUBSET (int k) S
    = Some (concat (map (\<lambda>s. map (pick S) (filter (\<lambda>b. popcount b = s) [0..<2 ^ csize S])) [0..<k + 1]))"
proof -
  have "k \<le> 16" using assms by (simp add: coll_ok_def)
  then have c: "igt_collection_iter_create True S (int k) SUBSET = Some \<lparr>iset = S, algorithm = SUBSET, iinit = True,
      result_size = k, result = zero_collection, result_bits = 0, current_result_size = 0, idxs = replicate 16 0\<rparr>"
    using iter_create_ok [of k SUBSET S] assms by simp
  show ?thesis
    unfolding sub_filter [of "pick S" "csize S" "k + 1", symmetric] for_each_collection_def c
    by (simp only: Option.bind.bind_lunit, rule sub_run [OF assms])
      (simp add: sub_at_def zero_collection_def IGT_COLLECTION_MAXSIZE_def)
qed

lemma variation_start:
  assumes "0 < k" "k \<le> 16"
  shows "var_at S k alg \<lparr>iset = S, algorithm = alg, iinit = True, result_size = k, result = zero_collection,
    result_bits = 0, current_result_size = 0, idxs = replicate 16 0\<rparr> 0"
  using assms by (simp add: var_at_def var_st_def variation_init_def fold_clear digs_zero zero_collection_def
      IGT_COLLECTION_MAXSIZE_def min_def)

lemma for_each_variation_r_ok:
  assumes "coll_ok S" "0 < k" "k \<le> 16"
  shows "for_each_collection VARIATION_R (int k) S
    = Some (map (\<lambda>j. map (\<lambda>i. cset S ! i) (digs (csize S) k j)) [0..<csize S ^ k])"
  using iter_create_ok [of k VARIATION_R S] assms var_r_run [OF assms variation_start [OF assms(2,3)]]
  by (simp add: for_each_collection_def)

lemma for_each_variation_nr_ok:
  assumes "coll_ok S" "0 < k" "k \<le> csize S"
  shows "for_each_collection VARIATION_NR (int k) S
    = Some (map (\<lambda>j. map (\<lambda>i. cset S ! i) (digs (csize S) k j))
        (filter (\<lambda>j. distinct (digs (csize S) k j)) [0..<csize S ^ k]))"
proof -
  have k: "k \<le> 16" using assms by (simp add: coll_ok_def)
  show ?thesis
    using iter_create_ok [of k VARIATION_NR S] assms k var_nr_run [OF assms(1,2) k variation_start [OF assms(2) k]]
    by (simp add: for_each_collection_def)
qed

subsection \<open>Combinations as index lists\<close>

text \<open>The patterns with \<open>k\<close> bits are the increasing index lists of length \<open>k\<close>, each once.\<close>

definition comb_indices :: "nat \<Rightarrow> nat \<Rightarrow> nat list list" where
  "comb_indices n k = map (\<lambda>b. filter (bit b) [0..<n]) (filter (\<lambda>b. popcount b = k) [0..<2 ^ n])"

lemma bits_eqI:
  assumes "b < (2 :: nat) ^ n" "c < 2 ^ n" "filter (bit b) [0..<n] = filter (bit c) [0..<n]"
  shows "b = c"
proof (rule bit_eqI)
  fix i
  have "i \<in> set (filter (bit b) [0..<n]) \<longleftrightarrow> i \<in> set (filter (bit c) [0..<n])" using assms(3) by simp
  then show "bit b i \<longleftrightarrow> bit c i" using bit_high [OF assms(1), of i] bit_high [OF assms(2), of i] by auto
qed

lemma bits_surj:
  assumes "sorted_wrt (<) l" "set l \<subseteq> {..<n}"
  shows "\<exists>b < (2 :: nat) ^ n. filter (bit b) [0..<n] = l"
  using assms
proof (induction n arbitrary: l)
  case (Suc n)
  show ?case
  proof (cases "n \<in> set l")
    case False
    then have "set l \<subseteq> {..<n}" using Suc.prems(2) by (auto simp: less_Suc_eq)
    then obtain b :: nat where b: "b < 2 ^ n" "filter (bit b) [0..<n] = l" using Suc.IH Suc.prems(1) by blast
    moreover have "\<not> bit b n" using bit_high [OF b(1), of n] by auto
    moreover have "b < 2 ^ Suc n" using b(1) by simp
    ultimately show ?thesis by (intro exI [of _ b]) simp
  next
    case True
    then obtain xs ys where l: "l = xs @ n # ys" by (meson split_list)
    have "ys = []"
    proof (rule ccontr)
      assume "ys \<noteq> []"
      then obtain y where "y \<in> set ys" by (cases ys) auto
      then have "n < y" "y < Suc n" using Suc.prems l by (auto simp: sorted_wrt_append)
      then show False by simp
    qed
    then have xs: "sorted_wrt (<) xs" "set xs \<subseteq> {..<n}" using Suc.prems l by (auto simp: sorted_wrt_append)
    then obtain b :: nat where b: "b < 2 ^ n" "filter (bit b) [0..<n] = xs" using Suc.IH by blast
    have bit: "bit (b + 2 ^ n) i \<longleftrightarrow> bit b i \<or> i = n" for i
    proof -
      have "b + 2 ^ n = b OR 2 ^ n"
        by (rule disjunctive_add) (use bit_high [OF b(1)] in \<open>auto simp: bit_exp_iff\<close>)
      then show ?thesis by (auto simp: bit_or_iff bit_exp_iff)
    qed
    have "filter (bit (b + 2 ^ n)) [0..<n] = xs"
      unfolding b(2) [symmetric] by (rule filter_cong) (auto simp: bit)
    then have "filter (bit (b + 2 ^ n)) [0..<Suc n] = l" using l \<open>ys = []\<close> by (simp add: bit)
    moreover have "b + 2 ^ n < 2 ^ Suc n" using b(1) by simp
    ultimately show ?thesis by blast
  qed
qed simp

lemma comb_indices_all:
  assumes "n \<le> 32"
  shows "set (comb_indices n k) = {l. sorted_wrt (<) l \<and> set l \<subseteq> {..<n} \<and> length l = k}" "distinct (comb_indices n k)"
proof -
  have len: "length (filter (bit b) [0..<n]) = popcount b" if "b < 2 ^ n" for b
    using popcount_eq [OF that assms] by simp
  show "set (comb_indices n k) = {l. sorted_wrt (<) l \<and> set l \<subseteq> {..<n} \<and> length l = k}"
  proof (intro equalityI subsetI)
    fix l assume "l \<in> set (comb_indices n k)"
    then obtain b :: nat where "b < 2 ^ n" "popcount b = k" "l = filter (bit b) [0..<n]" by (auto simp: comb_indices_def)
    then show "l \<in> {l. sorted_wrt (<) l \<and> set l \<subseteq> {..<n} \<and> length l = k}"
      using len [of b] by (auto simp: sorted_wrt_filter)
  next
    fix l assume "l \<in> {l. sorted_wrt (<) l \<and> set l \<subseteq> {..<n} \<and> length l = k}"
    then obtain b :: nat where "b < 2 ^ n" "filter (bit b) [0..<n] = l" "length l = k" using bits_surj [of l n] by auto
    then show "l \<in> set (comb_indices n k)" using len [of b] by (auto simp: comb_indices_def)
  qed
  show "distinct (comb_indices n k)"
    using bits_eqI by (auto simp: comb_indices_def distinct_map inj_on_def)
qed

subsection \<open>Properties\<close>

text \<open>C18: Iterating over the combinations of size \<open>k\<close> ends, and shows the elements at every strictly
  increasing list of \<open>k\<close> indices exactly once; iterating over the subsets ends and shows the
  combinations of the sizes 0 to \<open>k\<close>, in this order.\<close>

theorem for_each_subsets_complete:
  assumes "coll_ok S" "0 < k" "k \<le> csize S"
  shows "(\<exists>sel. for_each_collection COMBINATION (int k) S = Some (map (map (\<lambda>i. cset S ! i)) (sel k)) \<and>
     for_each_collection SUBSET (int k) S = Some (concat (map (\<lambda>s. map (map (\<lambda>i. cset S ! i)) (sel s)) [0..<k + 1])) \<and>
     (\<forall>s. distinct (sel s) \<and>
       set (sel s) = {l. sorted_wrt (<) l \<and> set l \<subseteq> {..<csize S} \<and> length l = s}))"
proof -
  have n: "csize S \<le> 32" using assms(1) by (simp add: coll_ok_def)
  have p: "map (pick S) (filter (\<lambda>b. popcount b = s) [0..<2 ^ csize S]) = map (map (\<lambda>i. cset S ! i)) (comb_indices (csize S) s)" for s
    by (simp add: comb_indices_def pick_def [abs_def])
  show ?thesis
    using for_each_combination_ok [OF assms] for_each_subset_ok [OF assms] comb_indices_all [OF n]
    unfolding p by (intro exI [of _ "comb_indices (csize S)"] conjI allI)
qed

definition sample_coll :: igt_collection where
  "sample_coll = \<lparr>csize = 3, cset = replicate 16 zero_data\<rparr>"

theorem for_each_subsets_complete_witness:
  "\<exists>rs. for_each_collection COMBINATION 2 sample_coll = Some rs \<and> length rs = card {l. sorted_wrt (<) l \<and> set l \<subseteq> {..<3} \<and> length (l :: nat list) = 2}"
proof -
  have "coll_ok sample_coll" by (simp add: coll_ok_def sample_coll_def)
  from for_each_subsets_complete [OF this, of 2]
  obtain sel where "for_each_collection COMBINATION 2 sample_coll = Some (map (map (\<lambda>i. cset sample_coll ! i)) (sel 2))"
      "distinct (sel 2)" "set (sel 2) = {l. sorted_wrt (<) l \<and> set l \<subseteq> {..<3} \<and> length l = 2}"
    by (auto simp: sample_coll_def)
  then show ?thesis by (auto simp: distinct_card [symmetric])
qed

text \<open>C19: Iterating over the variations with repetition ends and shows every tuple of \<open>k\<close> indices
  exactly once; without repetition it shows exactly those with distinct indices, in the same order.\<close>

theorem for_each_variations_complete:
  assumes "coll_ok S" "0 < k" "k \<le> 16"
  shows "(\<exists>tup. for_each_collection VARIATION_R (int k) S = Some (map (map (\<lambda>i. cset S ! i)) tup) \<and>
     (k \<le> csize S \<longrightarrow> for_each_collection VARIATION_NR (int k) S = Some (map (map (\<lambda>i. cset S ! i)) (filter distinct tup))) \<and>
     distinct tup \<and> set tup = {l. length l = k \<and> set l \<subseteq> {..<csize S}})"
proof -
  let ?tup = "map (digs (csize S) k) [0..<csize S ^ k]"
  have n: "0 < csize S" using assms(1) by (simp add: coll_ok_def)
  have "for_each_collection VARIATION_R (int k) S = Some (map (map (\<lambda>i. cset S ! i)) ?tup)"
    using for_each_variation_r_ok [OF assms] by simp
  moreover have "for_each_collection VARIATION_NR (int k) S = Some (map (map (\<lambda>i. cset S ! i)) (filter distinct ?tup))"
    if "k \<le> csize S"
    using for_each_variation_nr_ok [OF assms(1,2) that] by (simp add: filter_map o_def)
  ultimately show ?thesis using digs_all [OF n assms(2)] by blast
qed

theorem for_each_variations_complete_witness:
  "\<exists>rs. for_each_collection VARIATION_R 2 sample_coll = Some rs"
proof -
  have "coll_ok sample_coll" by (simp add: coll_ok_def sample_coll_def)
  from for_each_variations_complete [OF this, of 2] show ?thesis by auto
qed

end
