(* ===== verification/Uwildmat.thy ===== *)
theory Uwildmat
  imports Igt_Macros
begin

unbundle bit_operations_syntax

text \<open>
  The pattern matcher of \<open>lib/uwildmat/uwildmat.c\<close>, which selects subtests by name. A C string
  is the list of its bytes before the terminating NUL. A text pointer is the rest of the text; a
  pattern pointer is an index into the whole pattern, because the code reads past the end of a
  sub-pattern, and \<open>end\<close> of the code is the index before \<open>e\<close> here. \<open>tolower\<close> is the one of the C
  locale. \<open>Any_Char\<close>, \<open>Star\<close> and the other tokens below are the specification.
\<close>

text \<open>The byte a pointer shows: the NUL at the end of the string.\<close>

definition ch :: "u8 list \<Rightarrow> u8" where
  "ch s = (case s of [] \<Rightarrow> 0 | c # _ \<Rightarrow> c)"

definition pat_at :: "u8 list \<Rightarrow> nat \<Rightarrow> u8" where
  "pat_at pat i = (if i < length pat then pat ! i else 0)"

definition tolower :: "u32 \<Rightarrow> u32" where
  "tolower c = (if 65 \<le> c \<and> c \<le> 90 then c + 32 else c)"

definition tolower8 :: "u8 \<Rightarrow> u8" where
  "tolower8 c = ucast (tolower (ucast c))"

subsection \<open>UTF-8\<close>

definition ISUTF8 :: "u8 \<Rightarrow> bool" where
  "ISUTF8 c = (c AND 0xC0 = 0xC0)"

function lead_loop :: "u8 \<Rightarrow> u8 \<Rightarrow> nat \<Rightarrow> nat" where
  "lead_loop msk c len =
    (if 0 < msk \<and> c AND msk = msk then lead_loop (drop_bit 1 msk) c (len + 1) else len)"
  by pat_completeness auto
termination
proof (relation "measure (\<lambda>(msk, c, len). unat msk)")
  fix msk c :: u8 and len :: nat
  assume "0 < msk \<and> c AND msk = msk"
  then have "0 < unat msk" by (simp add: word_less_nat_alt)
  then show "((drop_bit 1 msk, c, len + 1), (msk, c, len)) \<in> measure (\<lambda>(msk, c, len). unat msk)"
    by (simp add: drop_bit_eq_div unat_div)
qed simp

declare lead_loop.simps [simp del]

text \<open>What is left of the expected continuation bytes, and the text behind them.\<close>

fun cont_loop :: "u8 list \<Rightarrow> nat \<Rightarrow> nat \<times> u8 list" where
  "cont_loop s 0 = (0, s)"
| "cont_loop s (Suc left) = (if ch s AND 0xC0 = 0x80 then cont_loop (tl s) left else (Suc left, s))"

definition utf8_length :: "u8 list \<Rightarrow> nat option \<Rightarrow> nat" where
  "utf8_length start avail =
    (let len = lead_loop 0x80 (ch start) 0 in
     if len < 2 \<or> 6 < len then 1
     else if (case avail of Some n \<Rightarrow> n < len | None \<Rightarrow> False) then 1
     else if fst (cont_loop (tl start) (len - 1)) = 0 then len else 1)"

lemma length_cont_loop: "length (snd (cont_loop s n)) \<le> length s"
  by (induction s n rule: cont_loop.induct) auto

function is_valid_utf8 :: "u8 list \<Rightarrow> bool" where
  "is_valid_utf8 p =
    (if ch p = 0 then True
     else (let len = lead_loop 0x80 (ch p) 0; p1 = tl p in
       if len = 0 then is_valid_utf8 p1
       else if len < 2 \<or> 6 < len then False
       else (let r = cont_loop p1 (len - 1) in
         if 0 < fst r then False else is_valid_utf8 (snd r))))"
  by pat_completeness auto
termination
proof (relation "measure length")
  fix p :: "u8 list" and len p1 r
  assume a: "ch p \<noteq> 0" "p1 = tl p"
  then have l: "length (tl p) < length p" by (cases p) (auto simp: ch_def)
  show "(p1, p) \<in> measure length" using a l by simp
  assume "r = cont_loop p1 (len - 1)"
  then show "(snd r, p) \<in> measure length" using a l length_cont_loop [of p1 "len - 1"] by simp
qed simp

declare is_valid_utf8.simps [simp del]

text \<open>The value and the length of the character at a pointer.\<close>

definition utf8_decode :: "u8 list \<Rightarrow> nat option \<Rightarrow> u32 \<times> nat" where
  "utf8_decode start avail =
    (let len = utf8_length start avail in
     if len < 2 then (ucast (ch start), 1)
     else (let msk = (push_bit (7 - len) 1 - 1 :: u8) in
       (fold (\<lambda>b v. push_bit 6 v OR ucast (b AND 0x3F)) (take (len - 1) (tl start))
          (ucast (ch start AND msk)), len)))"

lemma utf8_length_pos: "0 < utf8_length s a"
  by (simp add: utf8_length_def Let_def split: option.splits)

lemma utf8_decode_pos: "0 < snd (utf8_decode s a)"
  by (simp add: utf8_decode_def Let_def)

text \<open>One encoded character: a single byte without the high bit, or a byte with two to six leading
  ones and as many bytes in all, the others continuation bytes.\<close>

definition utf8_char :: "u8 list \<Rightarrow> bool" where
  "utf8_char cs \<longleftrightarrow> cs \<noteq> [] \<and> (let n = lead_loop 0x80 (hd cs) 0 in
     if n = 0 then length cs = 1
     else 2 \<le> n \<and> n \<le> 6 \<and> length cs = n \<and> (\<forall>b\<in>set (tl cs). b AND 0xC0 = 0x80))"

lemma cont_loop_ok:
  "fst (cont_loop s n) = 0 \<longleftrightarrow> (n \<le> length s \<and> (\<forall>b\<in>set (take n s). b AND 0xC0 = 0x80))"
  "fst (cont_loop s n) = 0 \<Longrightarrow> snd (cont_loop s n) = drop n s"
proof (induction s n rule: cont_loop.induct)
  case (2 s left)
  case 1 show ?case using 2(1) by (cases s) (auto simp: ch_def)
  case 2 show ?case using 2 "2.IH"(2) by (cases s) (auto simp: ch_def split: if_splits)
qed simp_all

lemma utf8_cons:
  assumes "c \<noteq> 0"
  shows "is_valid_utf8 (c # r) \<longleftrightarrow> (\<exists>cs q. c # r = cs @ q \<and> utf8_char cs \<and> is_valid_utf8 q)"
proof -
  define n where "n = lead_loop 0x80 c 0"
  have eq: "is_valid_utf8 (c # r) \<longleftrightarrow> (if n = 0 then is_valid_utf8 r
      else 2 \<le> n \<and> n \<le> 6 \<and> fst (cont_loop r (n - 1)) = 0 \<and> is_valid_utf8 (snd (cont_loop r (n - 1))))"
    using assms by (subst is_valid_utf8.simps) (auto simp: ch_def n_def Let_def)
  have ch: "utf8_char (c # t) \<longleftrightarrow> (if n = 0 then t = []
      else 2 \<le> n \<and> n \<le> 6 \<and> length t = n - 1 \<and> (\<forall>b\<in>set t. b AND 0xC0 = 0x80))" for t
    by (auto simp: utf8_char_def n_def [symmetric] Let_def)
  have split: "(\<exists>cs q. c # r = cs @ q \<and> utf8_char cs \<and> is_valid_utf8 q) \<longleftrightarrow>
      (\<exists>t q. r = t @ q \<and> utf8_char (c # t) \<and> is_valid_utf8 q)"
  proof
    assume "\<exists>cs q. c # r = cs @ q \<and> utf8_char cs \<and> is_valid_utf8 q"
    then obtain cs q where a: "c # r = cs @ q" "utf8_char cs" "is_valid_utf8 q" by blast
    then obtain t where "cs = c # t" by (cases cs) (auto simp: utf8_char_def)
    then show "\<exists>t q. r = t @ q \<and> utf8_char (c # t) \<and> is_valid_utf8 q" using a by auto
  next
    assume "\<exists>t q. r = t @ q \<and> utf8_char (c # t) \<and> is_valid_utf8 q"
    then obtain t q where "r = t @ q" "utf8_char (c # t)" "is_valid_utf8 q" by blast
    then have "c # r = (c # t) @ q" "utf8_char (c # t)" "is_valid_utf8 q" by simp_all
    then show "\<exists>cs q. c # r = cs @ q \<and> utf8_char cs \<and> is_valid_utf8 q" by blast
  qed
  show ?thesis
  proof (cases "n = 0")
    case True
    then show ?thesis unfolding split eq ch by auto
  next
    case False
    have "(\<exists>t q. r = t @ q \<and> length t = n - 1 \<and> (\<forall>b\<in>set t. b AND 0xC0 = 0x80) \<and> is_valid_utf8 q) \<longleftrightarrow>
        fst (cont_loop r (n - 1)) = 0 \<and> is_valid_utf8 (snd (cont_loop r (n - 1)))"
    proof
      assume "\<exists>t q. r = t @ q \<and> length t = n - 1 \<and> (\<forall>b\<in>set t. b AND 0xC0 = 0x80) \<and> is_valid_utf8 q"
      then obtain t q where t: "r = t @ q" "length t = n - 1" "\<forall>b\<in>set t. b AND 0xC0 = 0x80" "is_valid_utf8 q" by blast
      then have z: "fst (cont_loop r (n - 1)) = 0" using cont_loop_ok(1) [of r "n - 1"] by simp
      then show "fst (cont_loop r (n - 1)) = 0 \<and> is_valid_utf8 (snd (cont_loop r (n - 1)))"
        using cont_loop_ok(2) [OF z] t by simp
    next
      assume z: "fst (cont_loop r (n - 1)) = 0 \<and> is_valid_utf8 (snd (cont_loop r (n - 1)))"
      then show "\<exists>t q. r = t @ q \<and> length t = n - 1 \<and> (\<forall>b\<in>set t. b AND 0xC0 = 0x80) \<and> is_valid_utf8 q"
        using cont_loop_ok [of r "n - 1"]
        by (intro exI [of _ "take (n - 1) r"] exI [of _ "drop (n - 1) r"]) auto
    qed
    then show ?thesis unfolding split eq ch using False by auto
  qed
qed

lemma utf8_nil: "is_valid_utf8 []"
  by (subst is_valid_utf8.simps) (simp add: ch_def)

lemma is_valid_utf8_iff:
  assumes "0 \<notin> set p"
  shows "is_valid_utf8 p \<longleftrightarrow> (\<exists>cs. p = concat cs \<and> (\<forall>c\<in>set cs. utf8_char c))"
  using assms
proof (induction "length p" arbitrary: p rule: less_induct)
  case less
  show ?case
  proof (cases p)
    case Nil
    then show ?thesis using utf8_nil by (auto intro: exI [of _ "[]"])
  next
    case (Cons c r)
    have IH: "is_valid_utf8 q \<longleftrightarrow> (\<exists>cs. q = concat cs \<and> (\<forall>c\<in>set cs. utf8_char c))"
      if "p = x @ q" "utf8_char x" for x q
      using less.hyps [of q] less.prems that by (cases x) (auto simp: utf8_char_def)
    have "is_valid_utf8 p \<longleftrightarrow> (\<exists>x q. p = x @ q \<and> utf8_char x \<and> (\<exists>cs. q = concat cs \<and> (\<forall>c\<in>set cs. utf8_char c)))"
    proof -
      have "is_valid_utf8 p \<longleftrightarrow> (\<exists>x q. p = x @ q \<and> utf8_char x \<and> is_valid_utf8 q)"
        unfolding Cons by (rule utf8_cons) (use less.prems Cons in auto)
      then show ?thesis using IH by blast
    qed
    also have "\<dots> \<longleftrightarrow> (\<exists>cs. p = concat cs \<and> (\<forall>c\<in>set cs. utf8_char c))"
    proof
      assume "\<exists>x q. p = x @ q \<and> utf8_char x \<and> (\<exists>cs. q = concat cs \<and> (\<forall>c\<in>set cs. utf8_char c))"
      then obtain x cs where "p = concat (x # cs)" "\<forall>c\<in>set (x # cs). utf8_char c" by auto
      then show "\<exists>cs. p = concat cs \<and> (\<forall>c\<in>set cs. utf8_char c)" by blast
    next
      assume "\<exists>cs. p = concat cs \<and> (\<forall>c\<in>set cs. utf8_char c)"
      then obtain cs where cs: "p = concat cs" "\<forall>c\<in>set cs. utf8_char c" by blast
      then show "\<exists>x q. p = x @ q \<and> utf8_char x \<and> (\<exists>cs. q = concat cs \<and> (\<forall>c\<in>set cs. utf8_char c))"
        using Cons by (cases cs) auto
    qed
    finally show ?thesis .
  qed
qed

subsection \<open>Character classes\<close>

function class_loop :: "u32 \<Rightarrow> bool \<Rightarrow> u32 \<Rightarrow> bool \<Rightarrow> u8 list \<Rightarrow> bool" where
  "class_loop text reversed first allowrange p =
    (if p = [] then reversed
     else if allowrange \<and> ch p = 45 \<and> 1 < length p
     then (let p1 = tl p; d = utf8_decode p1 (Some (length p1)); p2 = drop (snd d) p1; lastc = fst d in
       if (first \<le> text \<and> text \<le> lastc) \<or> (first \<le> tolower text \<and> tolower text \<le> lastc) then \<not> reversed
       else class_loop text reversed first False p2)
     else (let d = utf8_decode p (Some (length p)); p2 = drop (snd d) p; first1 = fst d in
       if text = first1 \<or> tolower text = first1 then \<not> reversed
       else class_loop text reversed first1 True p2))"
  by pat_completeness auto
termination
  by (relation "measure (\<lambda>(text, reversed, first, allowrange, p). length p)")
    (auto simp: utf8_decode_pos)

declare class_loop.simps [simp del]

definition match_class :: "u32 \<Rightarrow> u8 list \<Rightarrow> bool" where
  "match_class text cls =
    (let reversed = (ch cls = 94) in
     class_loop text reversed 0 False (if reversed then tl cls else cls))"

subsection \<open>Patterns\<close>

datatype match_result = Matched | Not_Matched | Abort

definition char_width :: "u8 list \<Rightarrow> nat" where
  "char_width t = (if ISUTF8 (ch t) then utf8_length t None else 1)"

lemma char_width_pos: "0 < char_width t"
  by (simp add: char_width_def utf8_length_pos)

function skip_stars :: "u8 list \<Rightarrow> nat \<Rightarrow> nat" where
  "skip_stars pat p = (if pat_at pat p = 42 then skip_stars pat (p + 1) else p)"
  by pat_completeness auto
termination
  by (relation "measure (\<lambda>(pat, p). length pat - p)") (auto simp: pat_at_def split: if_splits)

declare skip_stars.simps [simp del]

function skip_to :: "u8 \<Rightarrow> u8 list \<Rightarrow> u8 list" where
  "skip_to c t = (if ch t \<noteq> 0 \<and> ch t \<noteq> c then skip_to c (drop (char_width t) t) else t)"
  by pat_completeness auto
termination
  by (relation "measure (\<lambda>(c, t). length t)") (auto simp: ch_def char_width_pos split: list.splits)

declare skip_to.simps [simp del]

text \<open>\<open>memchr\<close> for a closing bracket from \<open>q\<close> up to the end of the sub-pattern.\<close>

definition find_bracket :: "u8 list \<Rightarrow> nat \<Rightarrow> nat \<Rightarrow> nat option" where
  "find_bracket pat q e = List.find (\<lambda>i. pat_at pat i = 93) [q..<e]"

lemma skip_stars_ge: "p \<le> skip_stars pat p"
  by (induction pat p rule: skip_stars.induct) (subst skip_stars.simps, auto)

lemma skip_to_length: "length (skip_to c t) \<le> length t"
proof (induction c t rule: skip_to.induct)
  case (1 c t)
  then show ?case by (subst skip_to.simps) (auto simp: order_trans)
qed

text \<open>The matcher on a text and a sub-pattern: the loop of \<open>match_pattern\<close> and, from a star on, its
  inner loop. The recursive calls of the code restart the outer loop, so they are the same function.\<close>

definition ismeta :: "u8 \<Rightarrow> bool" where
  "ismeta c = (c = 91 \<or> c = 63 \<or> c = 92)"

lemma find_bracket_ge: "find_bracket pat q e = Some r \<Longrightarrow> q \<le> r \<and> r < e \<and> pat_at pat r = 93"
  by (auto simp: find_bracket_def find_Some_iff)

lemma ch_nonempty: "ch t \<noteq> 0 \<Longrightarrow> 0 < length t"
  by (auto simp: ch_def split: list.splits)

lemma star_steps:
  "p < e \<Longrightarrow> \<not> e \<le> skip_stars pat (Suc p) \<Longrightarrow> e - skip_stars pat (Suc p) < e - p"
  "ch t \<noteq> 0 \<Longrightarrow> length t - char_width t < length t"
  "ch (skip_to c t) \<noteq> 0 \<Longrightarrow> length (skip_to c t) - Suc 0 < length t"
proof -
  show "e - skip_stars pat (Suc p) < e - p" if "p < e" "\<not> e \<le> skip_stars pat (Suc p)"
    using that skip_stars_ge [of "Suc p" pat] by linarith
  show "length t - char_width t < length t" if "ch t \<noteq> 0"
    using ch_nonempty [OF that] char_width_pos [of t] by linarith
  show "length (skip_to c t) - Suc 0 < length t" if "ch (skip_to c t) \<noteq> 0"
    using ch_nonempty [OF that] skip_to_length [of c t] by linarith
qed

text \<open>It returns: each step moves forward in the sub-pattern; the loop of a star moves forward in the text.\<close>

function (sequential) match_pattern :: "u8 list \<Rightarrow> u8 list \<Rightarrow> nat \<Rightarrow> nat \<Rightarrow> match_result"
  and star_loop :: "u8 list \<Rightarrow> u8 list \<Rightarrow> nat \<Rightarrow> nat \<Rightarrow> match_result" where
  "match_pattern pat text p e =
    (if \<not> p < e then (if ch text = 0 then Matched else Not_Matched)
     else if ch text = 0 \<and> pat_at pat p \<noteq> 42 then Abort
     else if pat_at pat p = 63 then match_pattern pat (drop (char_width text) text) (p + 1) e
     else if pat_at pat p = 42 then
       (let p1 = skip_stars pat (p + 1) in if e \<le> p1 then Matched else star_loop pat text p1 e)
     else if pat_at pat p = 91 then
       (let p1 = p + 1; q = p1 + (if pat_at pat p1 = 94 then 1 else 0) + 1 in
        if e \<le> q then Abort
        else (case find_bracket pat q e of
            None \<Rightarrow> Abort
          | Some endclass \<Rightarrow>
            (let d = utf8_decode text None in
             if \<not> match_class (fst d) (take (endclass - p1) (drop p1 pat)) then Not_Matched
             else match_pattern pat (drop (snd d) text) (endclass + 1) e)))
     else if pat_at pat p = 92 \<and> pat_at pat (p + 1) = 0 then Abort
     else (let p1 = (if pat_at pat p = 92 then p + 1 else p) in
       if ch text \<noteq> pat_at pat p1 \<and> tolower8 (ch text) \<noteq> pat_at pat p1 then Not_Matched
       else match_pattern pat (tl text) (p1 + 1) e))"
| "star_loop pat text p e =
    (if ch text = 0 then Abort
     else if ismeta (pat_at pat p) then
       (let matched = match_pattern pat text p e in
        if matched \<noteq> Not_Matched then matched else star_loop pat (drop (char_width text) text) p e)
     else
       (let text1 = skip_to (pat_at pat p) text in
        if ch text1 = 0 then Abort
        else (let matched = match_pattern pat (tl text1) (p + 1) e in
          if matched \<noteq> Not_Matched then matched else star_loop pat (tl text1) p e)))"
  by pat_completeness auto

termination
proof (relation "(\<lambda>x. case x of Inl (pat, text, p, e) \<Rightarrow> e - p | Inr (pat, text, p, e) \<Rightarrow> e - p) <*mlex*>
    (\<lambda>x. case x of Inl _ \<Rightarrow> 0 | Inr (pat, text, p, e) \<Rightarrow> Suc (length text)) <*mlex*> {}")
  show "wf ((\<lambda>x. case x of Inl (pat, text, p, e) \<Rightarrow> e - p | Inr (pat, text, p, e) \<Rightarrow> e - p) <*mlex*>
    (\<lambda>x. case x of Inl _ \<Rightarrow> 0 | Inr (pat, text, p, e) \<Rightarrow> Suc (length text)) <*mlex*> {})"
    by (simp add: wf_mlex)
qed (auto simp: mlex_iff star_steps dest: find_bracket_ge)

declare match_pattern.simps [simp del] star_loop.simps [simp del]

subsection \<open>Expressions\<close>

datatype uwildmat_result = UWILDMAT_FAIL | UWILDMAT_MATCH | UWILDMAT_POISON

text \<open>The scan for the closing bracket inside the comma search.\<close>

function skip_class :: "u8 list \<Rightarrow> nat \<Rightarrow> nat \<Rightarrow> nat" where
  "skip_class pat split e = (if split < e \<and> pat_at pat split \<noteq> 93 then skip_class pat (split + 1) e else split)"
  by pat_completeness auto
termination by (relation "measure (\<lambda>(pat, split, e). e - split)") auto

declare skip_class.simps [simp del]

lemma skip_class_ge: "split \<le> skip_class pat split e"
  by (induction pat split e rule: skip_class.induct) (subst skip_class.simps, auto)

definition after_class :: "u8 list \<Rightarrow> nat \<Rightarrow> nat \<Rightarrow> nat" where
  "after_class pat split e =
    (if pat_at pat split = 91
     then skip_class pat (if pat_at pat (split + 1) = 93 then split + 2 else split + 1) e
     else split)"

lemma after_class_ge: "split \<le> after_class pat split e"
  using skip_class_ge [of "split + 2" pat e] skip_class_ge [of "split + 1" pat e] by (auto simp: after_class_def)

text \<open>The first unescaped comma from \<open>split\<close> on.\<close>

function find_comma :: "u8 list \<Rightarrow> bool \<Rightarrow> nat \<Rightarrow> nat \<Rightarrow> nat" where
  "find_comma pat escaped split e =
    (if split < e then
       (let s1 = after_class pat split e in
        if pat_at pat s1 = 44 \<and> \<not> escaped then s1
        else find_comma pat (if pat_at pat s1 = 92 then \<not> escaped else False) (s1 + 1) e)
     else split)"
  by pat_completeness auto
termination
proof (relation "measure (\<lambda>(pat, escaped, split, e). e - split)")
  fix pat escaped split e s1
  assume "split < (e :: nat)" "s1 = after_class pat split e"
  then show "((pat, if pat_at pat s1 = 92 then \<not> escaped else False, s1 + 1, e), pat, escaped, split, e)
      \<in> measure (\<lambda>(pat, escaped, split, e). e - split)"
    using after_class_ge [of split pat e] by simp
qed simp

declare find_comma.simps [simp del]

lemma find_comma_ge: "split \<le> find_comma pat escaped split e"
proof (induction pat escaped split e rule: find_comma.induct)
  case (1 pat escaped split e)
  then show ?case
    using after_class_ge [of split pat e] by (subst find_comma.simps) (auto simp: Let_def)
qed

lemma comma_step:
  "p \<le> n \<Longrightarrow> Suc n - (find_comma pat b (if r then p + 1 else p) e + 1) < Suc n - p"
  using find_comma_ge [of "if r then p + 1 else p" pat b e] by (simp split: if_splits)

text \<open>The main loop: \<open>(match, poisoned)\<close> is the state of the code, \<open>e\<close> the end of the expression.
  The variable \<open>poison\<close> is set in every round when \<open>allowpoison\<close> and stays false otherwise.\<close>

function expression_loop :: "u8 list \<Rightarrow> u8 list \<Rightarrow> bool \<Rightarrow> nat \<Rightarrow> bool \<Rightarrow> bool \<Rightarrow> bool \<times> bool" where
  "expression_loop pat text allowpoison p match poisoned =
    (let e = length pat in
     if p \<le> e then
       (let poison = (allowpoison \<and> pat_at pat p = 64);
            reverse = (pat_at pat p = 33 \<or> poison);
            p1 = (if reverse then p + 1 else p);
            split = find_comma pat False p1 e in
        if (match = (\<not> reverse) \<and> poison = poisoned) then expression_loop pat text allowpoison (split + 1) match poisoned
        else if match_pattern pat text p1 split = Matched
        then expression_loop pat text allowpoison (split + 1) (\<not> reverse) poison
        else expression_loop pat text allowpoison (split + 1) match poisoned)
     else (match, poisoned))"
  by pat_completeness auto
termination
proof (relation "measure (\<lambda>(pat, text, a, p, m, q). Suc (length pat) - p)")
qed (simp_all only: in_measure split_conv comma_step wf_measure)

declare expression_loop.simps [simp del]

definition match_expression :: "u8 list \<Rightarrow> u8 list \<Rightarrow> bool \<Rightarrow> uwildmat_result" where
  "match_expression text start allowpoison =
    (if ch start = 0 then (if ch text = 0 then UWILDMAT_MATCH else UWILDMAT_FAIL)
     else (let r = expression_loop start text allowpoison 0 False False in
       if snd r then UWILDMAT_POISON else if fst r then UWILDMAT_MATCH else UWILDMAT_FAIL))"

definition uwildmat :: "u8 list \<Rightarrow> u8 list \<Rightarrow> bool" where
  "uwildmat text pat =
    (if pat_at pat 0 = 42 \<and> pat_at pat 1 = 0 then True else match_expression text pat False = UWILDMAT_MATCH)"

definition uwildmat_poison :: "u8 list \<Rightarrow> u8 list \<Rightarrow> uwildmat_result" where
  "uwildmat_poison text pat =
    (if pat_at pat 0 = 42 \<and> pat_at pat 1 = 0 then UWILDMAT_MATCH else match_expression text pat True)"

definition uwildmat_simple :: "u8 list \<Rightarrow> u8 list \<Rightarrow> bool" where
  "uwildmat_simple text pat =
    (if pat_at pat 0 = 42 \<and> pat_at pat 1 = 0 then True else match_pattern pat text 0 (length pat) = Matched)"

subsection \<open>The language of a pattern\<close>

text \<open>A sub-pattern is a list of tokens; every token but the star stands for one character. An
  unfinished escape or class is \<open>Bad\<close> and matches nothing.\<close>

datatype wtoken = Lit u8 | Any_Char | Star | Class "u8 list" | Bad

function tokens :: "u8 list \<Rightarrow> nat \<Rightarrow> nat \<Rightarrow> wtoken list" where
  "tokens pat p e =
    (if \<not> p < e then []
     else if pat_at pat p = 63 then Any_Char # tokens pat (p + 1) e
     else if pat_at pat p = 42 then Star # tokens pat (skip_stars pat (p + 1)) e
     else if pat_at pat p = 91 then
       (let q = p + (if pat_at pat (p + 1) = 94 then 1 else 0) + 2 in
        if e \<le> q then [Bad]
        else (case find_bracket pat q e of None \<Rightarrow> [Bad]
          | Some r \<Rightarrow> Class (take (r - (p + 1)) (drop (p + 1) pat)) # tokens pat (r + 1) e))
     else if pat_at pat p = 92 then (if pat_at pat (p + 1) = 0 then [Bad] else Lit (pat_at pat (p + 1)) # tokens pat (p + 2) e)
     else Lit (pat_at pat p) # tokens pat (p + 1) e)"
  by pat_completeness auto
termination
proof (relation "measure (\<lambda>(pat, p, e). e - p)")
  fix pat p e assume "\<not> \<not> p < (e :: nat)"
  then show "((pat, skip_stars pat (p + 1), e), pat, p, e) \<in> measure (\<lambda>(pat, p, e). e - p)"
    using skip_stars_ge [of "p + 1" pat] by simp
qed (auto dest: find_bracket_ge)

declare tokens.simps [simp del]

fun tok_char :: "wtoken \<Rightarrow> u8 \<Rightarrow> bool" where
  "tok_char (Lit c) x = (x = c)"
| "tok_char Any_Char x = True"
| "tok_char (Class cls) x = match_class (ucast x) cls"
| "tok_char _ x = False"

fun tmatch :: "wtoken list \<Rightarrow> u8 list \<Rightarrow> bool" where
  "tmatch [] t = (t = [])"
| "tmatch (tok # ts) t =
    (if tok = Star then (\<exists>k \<le> length t. tmatch ts (drop k t))
     else (case t of [] \<Rightarrow> False | x # t1 \<Rightarrow> tok_char tok x \<and> tmatch ts t1))"

text \<open>Names of tests: 7-bit characters, none of them an upper case letter.\<close>

definition plain :: "u8 list \<Rightarrow> bool" where
  "plain t \<longleftrightarrow> (\<forall>x\<in>set t. x \<noteq> 0 \<and> x < 128 \<and> tolower8 x = x)"

lemma plain_simps [simp]: "plain []" "plain (x # t) \<longleftrightarrow> x \<noteq> 0 \<and> x < 128 \<and> tolower8 x = x \<and> plain t"
  by (auto simp: plain_def)

lemma plain_drop: "plain t \<Longrightarrow> plain (drop k t)"
  by (auto simp: plain_def dest: in_set_dropD)

lemma plain_ch: "plain t \<Longrightarrow> ch t = 0 \<longleftrightarrow> t = []"
  by (cases t) (auto simp: ch_def)

lemma ascii_no_high: "x < 128 \<Longrightarrow> 128 \<le> m \<Longrightarrow> x AND m \<noteq> (m :: u8)"
  using word_and_le2 [of x m] by (metis leD order_trans)

lemma plain_width: "plain t \<Longrightarrow> char_width t = 1"
  by (cases t) (auto simp: char_width_def ch_def ISUTF8_def ascii_no_high)

lemma plain_decode: "plain (x # t) \<Longrightarrow> utf8_decode (x # t) None = (ucast x, 1)"
proof -
  assume "plain (x # t)"
  then have "x AND 128 \<noteq> 128" using ascii_no_high [of x 128] by simp
  then have "lead_loop 128 x 0 = 0" by (subst lead_loop.simps) simp
  then show ?thesis by (simp add: utf8_decode_def utf8_length_def ch_def)
qed

lemma plain_skip_to: "plain t \<Longrightarrow> skip_to c t = dropWhile (\<lambda>x. x \<noteq> c) t"
proof (induction t)
  case (Cons x t)
  then show ?case using plain_width [OF Cons.prems] by (subst skip_to.simps) (auto simp: ch_def)
qed (subst skip_to.simps, simp add: ch_def)

text \<open>What a result says of the tokens and the text: a match, and for an abort that no later part of
  the text matches either.\<close>

definition result_ok :: "wtoken list \<Rightarrow> u8 list \<Rightarrow> match_result \<Rightarrow> bool" where
  "result_ok ts t r \<longleftrightarrow> (r = Matched \<longleftrightarrow> tmatch ts t) \<and> (r = Abort \<longrightarrow> (\<forall>k. \<not> tmatch ts (drop k t)))"

lemma tmatch_no_later:
  assumes "\<forall>k. \<not> tmatch ts (drop k t)" "tok \<noteq> Star"
  shows "\<not> tmatch (tok # ts) (drop k t)"
proof (cases "drop k t")
  case (Cons y u)
  then have "u = drop (Suc k) t" by (metis drop_Suc list.sel(3) tl_drop)
  then show ?thesis using assms Cons by simp
qed (use assms(2) in simp)

lemma result_ok_step:
  assumes "tok \<noteq> Star" "tok_char tok x" "result_ok ts t r"
  shows "result_ok (tok # ts) (x # t) r"
proof -
  have "\<not> tmatch (tok # ts) (drop k (x # t))" if a: "\<forall>k. \<not> tmatch ts (drop k t)" for k
  proof (cases "drop k (x # t)")
    case (Cons y u)
    have "u = drop k t" using Cons by (metis drop_Suc drop_Suc_Cons list.sel(3) tl_drop)
    then show ?thesis using a Cons assms(1) by simp
  qed (use assms(1) in simp)
  then show ?thesis using assms by (auto simp: result_ok_def)
qed

lemma result_ok_fail: "tok \<noteq> Star \<Longrightarrow> \<not> tok_char tok x \<Longrightarrow> result_ok (tok # ts) (x # t) Not_Matched"
  by (simp add: result_ok_def)

lemma result_ok_empty: "tok \<noteq> Star \<Longrightarrow> result_ok (tok # ts) [] Abort"
  by (simp add: result_ok_def)

lemma result_ok_bad: "result_ok [Bad] t Abort"
  by (auto simp: result_ok_def split: list.splits)

lemma result_ok_star:
  assumes "r \<noteq> Not_Matched" "r = Matched \<longleftrightarrow> (\<exists>k \<le> length t. tmatch ts (drop k t))"
  shows "result_ok (Star # ts) t r"
proof -
  have "\<not> tmatch (Star # ts) (drop j t)" if a: "\<forall>k \<le> length t. \<not> tmatch ts (drop k t)" for j
  proof
    assume "tmatch (Star # ts) (drop j t)"
    then obtain k where "tmatch ts (drop (k + j) t)" by auto
    then have "tmatch ts (drop (min (k + j) (length t)) t)"
      by (cases "k + j \<le> length t") simp_all
    then show False using a by (metis min.cobounded2)
  qed
  then show ?thesis using assms by (auto simp: result_ok_def simp del: drop_drop)
qed

lemma skip_stars_not_star: "pat_at pat (skip_stars pat p) \<noteq> 42"
  by (induction pat p rule: skip_stars.induct) (subst skip_stars.simps, auto)

lemma tokens_empty: "\<not> p < e \<Longrightarrow> tokens pat p e = []"
  by (subst tokens.simps) simp

lemma tokens_nonempty: "p < e \<Longrightarrow> pat_at pat p \<noteq> 42 \<Longrightarrow> \<exists>tok ts. tokens pat p e = tok # ts \<and> tok \<noteq> Star"
  by (subst tokens.simps) (auto simp: Let_def split: option.splits)

lemma tokens_literal:
  "p < e \<Longrightarrow> pat_at pat p \<noteq> 42 \<Longrightarrow> \<not> ismeta (pat_at pat p) \<Longrightarrow>
    tokens pat p e = Lit (pat_at pat p) # tokens pat (p + 1) e"
  by (subst tokens.simps) (simp add: ismeta_def)

lemma find_char: "dropWhile (\<lambda>x. x \<noteq> c) t = [] \<or> (\<exists>u. dropWhile (\<lambda>x. x \<noteq> c) t = c # u)"
  by (induction t) auto

text \<open>Where a literal can match: at its first occurrence, or behind it.\<close>

lemma tmatch_from_char:
  assumes "dropWhile (\<lambda>x. x \<noteq> c) t = c # u"
  shows "(\<exists>k \<le> length t. tmatch (Lit c # ts) (drop k t)) \<longleftrightarrow>
    tmatch ts u \<or> (\<exists>k \<le> length u. tmatch (Lit c # ts) (drop k u))"
  using assms
proof (induction t)
  case (Cons x t)
  have split: "(\<exists>k \<le> length (x # t). tmatch (Lit c # ts) (drop k (x # t))) \<longleftrightarrow>
      tmatch (Lit c # ts) (x # t) \<or> (\<exists>k \<le> length t. tmatch (Lit c # ts) (drop k t))"
    by (metis (no_types, lifting) Suc_le_mono drop0 drop_Suc_Cons le0 length_Cons not0_implies_Suc)
  show ?case
  proof (cases "x = c")
    case True
    then show ?thesis using split Cons.prems by simp
  next
    case False
    then show ?thesis using split Cons by simp
  qed
qed simp

lemma tmatch_no_char:
  "dropWhile (\<lambda>x. x \<noteq> c) t = [] \<Longrightarrow> \<not> tmatch (Lit c # ts) (drop k t)"
  by (auto split: list.splits) (metis in_set_dropD list.set_intros(1))

text \<open>The loop of a star, when the matcher is right behind the star.\<close>

lemma star_ok:
  assumes pe: "p < e" "pat_at pat p \<noteq> 42"
    and here: "\<And>t. plain t \<Longrightarrow> result_ok (tokens pat p e) t (match_pattern pat t p e)"
    and there: "\<And>t. plain t \<Longrightarrow> result_ok (tokens pat (p + 1) e) t (match_pattern pat t (p + 1) e)"
    and pl: "plain s"
  shows "star_loop pat s p e \<noteq> Not_Matched \<and>
    (star_loop pat s p e = Matched \<longleftrightarrow> (\<exists>k \<le> length s. tmatch (tokens pat p e) (drop k s)))"
  using pl
proof (induction "length s" arbitrary: s rule: less_induct)
  case less
  obtain tok ts where tk: "tokens pat p e = tok # ts" "tok \<noteq> Star" using tokens_nonempty [OF pe] by blast
  show ?case
  proof (cases "ismeta (pat_at pat p)")
    case True
    show ?thesis
    proof (cases s)
      case Nil
      then show ?thesis using tk by (subst star_loop.simps, subst (2) star_loop.simps) (simp add: ch_def)
    next
      case (Cons x t)
      have ne: "ch s \<noteq> 0" using less.prems Cons by (simp add: ch_def)
      have w: "drop (char_width s) s = t" using plain_width [OF less.prems] Cons by simp
      define m where "m = match_pattern pat s p e"
      have m: "result_ok (tokens pat p e) s m" using here [OF less.prems] by (simp add: m_def)
      have eq: "star_loop pat s p e = (if m \<noteq> Not_Matched then m else star_loop pat t p e)"
        using True ne w by (subst star_loop.simps) (simp add: m_def Let_def)
      have ex: "(\<exists>k \<le> length s. tmatch (tokens pat p e) (drop k s)) \<longleftrightarrow>
          tmatch (tokens pat p e) s \<or> (\<exists>k \<le> length t. tmatch (tokens pat p e) (drop k t))"
        unfolding Cons
        by (metis (no_types, lifting) Suc_le_mono drop0 drop_Suc_Cons le0 length_Cons not0_implies_Suc)
      have IH: "star_loop pat t p e \<noteq> Not_Matched \<and>
          (star_loop pat t p e = Matched \<longleftrightarrow> (\<exists>k \<le> length t. tmatch (tokens pat p e) (drop k t)))"
        using less.hyps [of t] less.prems Cons by simp
      show ?thesis
      proof (cases m)
        case Matched
        then show ?thesis unfolding eq ex using m by (simp add: result_ok_def)
      next
        case Not_Matched
        then show ?thesis unfolding eq ex using m IH by (simp add: result_ok_def)
      next
        case Abort
        then show ?thesis unfolding eq using m by (simp add: result_ok_def)
      qed
    qed
  next
    case False
    let ?c = "pat_at pat p"
    have lit: "tokens pat p e = Lit ?c # tokens pat (p + 1) e" using tokens_literal pe False by blast
    have sk: "skip_to ?c s = dropWhile (\<lambda>x. x \<noteq> ?c) s" using plain_skip_to less.prems by blast
    show ?thesis
    proof (cases "dropWhile (\<lambda>x. x \<noteq> ?c) s")
      case Nil
      then have "skip_to ?c s = []" by (simp only: sk)
      then have "star_loop pat s p e = Abort"
        using False by (subst star_loop.simps) (simp add: ch_def)
      then show ?thesis using tmatch_no_char [OF Nil] lit by simp
    next
      case (Cons y u)
      then have cu: "dropWhile (\<lambda>x. x \<noteq> ?c) s = ?c # u" using find_char by (metis list.inject list.distinct(1))
      then have "?c # u = drop (length (takeWhile (\<lambda>x. x \<noteq> ?c) s)) s" by (simp add: dropWhile_eq_drop)
      then have pu: "plain (?c # u)" using plain_drop less.prems by metis
      have lu: "length u < length s"
        using cu length_dropWhile_le [of "\<lambda>x. x \<noteq> ?c" s] by simp
      have ne: "ch s \<noteq> 0" using less.prems cu by (cases s) (auto simp: ch_def)
      define m where "m = match_pattern pat u (p + 1) e"
      have m: "result_ok (tokens pat (p + 1) e) u m" using there pu by (simp add: m_def)
      have eq: "star_loop pat s p e = (if m \<noteq> Not_Matched then m else star_loop pat u p e)"
        using False ne pu sk cu by (subst star_loop.simps) (simp add: m_def Let_def ch_def)
      have IH: "star_loop pat u p e \<noteq> Not_Matched \<and>
          (star_loop pat u p e = Matched \<longleftrightarrow> (\<exists>k \<le> length u. tmatch (tokens pat p e) (drop k u)))"
        using less.hyps [OF lu] pu by simp
      have no: "\<not> tmatch (Lit ?c # tokens pat (p + 1) e) (drop k u)" if a: "\<forall>k. \<not> tmatch (tokens pat (p + 1) e) (drop k u)" for k
        using tmatch_no_later [OF a, of "Lit ?c"] by simp
      show ?thesis
      proof (cases m)
        case Matched
        then show ?thesis unfolding eq lit tmatch_from_char [OF cu] using m by (simp add: result_ok_def)
      next
        case Not_Matched
        then show ?thesis unfolding eq lit tmatch_from_char [OF cu] using m IH [unfolded lit] by (simp add: result_ok_def)
      next
        case Abort
        then show ?thesis unfolding eq lit tmatch_from_char [OF cu] using m no
          by (auto simp: result_ok_def)
      qed
    qed
  qed
qed

text \<open>One step of the matcher on a text that is not empty, by the kind of the pattern byte.\<close>

lemma match_step:
  assumes "p < e" "pat_at pat p \<noteq> 42" "plain (x # t)"
  shows "\<exists>tok ts. tokens pat p e = tok # ts \<and> tok \<noteq> Star \<and>
    (match_pattern pat (x # t) p e = Abort \<and> tok # ts = [Bad] \<or>
     (\<exists>p1 > p. ts = tokens pat p1 e \<and> match_pattern pat (x # t) p e =
       (if tok_char tok x then match_pattern pat t p1 e else Not_Matched)))"
proof -
  have x: "x \<noteq> 0" "ch (x # t) = x" "tolower8 x = x" "char_width (x # t) = 1"
    "utf8_decode (x # t) None = (ucast x, 1)"
    using assms(3) plain_width [OF assms(3)] plain_decode [OF assms(3)] by (auto simp: ch_def)
  let ?q = "p + (if pat_at pat (p + 1) = 94 then 1 else 0) + 2"
  consider "pat_at pat p = 63" | "pat_at pat p = 91" "e \<le> ?q" | "pat_at pat p = 91" "\<not> e \<le> ?q" "find_bracket pat ?q e = None"
    | r where "pat_at pat p = 91" "\<not> e \<le> ?q" "find_bracket pat ?q e = Some r"
    | "pat_at pat p = 92" "pat_at pat (p + 1) = 0" | "pat_at pat p = 92" "pat_at pat (p + 1) \<noteq> 0"
    | "pat_at pat p \<noteq> 63" "pat_at pat p \<noteq> 91" "pat_at pat p \<noteq> 92"
    by blast
  then show ?thesis
  proof cases
    case 1
    have "tokens pat p e = Any_Char # tokens pat (p + 1) e" using assms 1 by (subst tokens.simps) simp
    moreover have "match_pattern pat (x # t) p e = match_pattern pat t (p + 1) e"
      using assms 1 x by (subst match_pattern.simps) simp
    ultimately show ?thesis by (intro exI [of _ Any_Char] exI [of _ "tokens pat (p + 1) e"]) auto
  next
    case 2
    have "tokens pat p e = [Bad]" using assms 2 by (subst tokens.simps) simp
    moreover have "match_pattern pat (x # t) p e = Abort" using assms 2 x by (subst match_pattern.simps) simp
    ultimately show ?thesis by simp
  next
    case 3
    have "tokens pat p e = [Bad]" using assms 3 by (subst tokens.simps) simp
    moreover have "match_pattern pat (x # t) p e = Abort" using assms 3 x by (subst match_pattern.simps) simp
    ultimately show ?thesis by simp
  next
    case 4
    let ?tok = "Class (take (r - (p + 1)) (drop (p + 1) pat))"
    have "tokens pat p e = ?tok # tokens pat (r + 1) e" using assms 4 by (subst tokens.simps) simp
    moreover have "match_pattern pat (x # t) p e = (if tok_char ?tok x then match_pattern pat t (r + 1) e else Not_Matched)"
      using assms 4 x by (subst match_pattern.simps) (simp add: Let_def)
    moreover have "p < r + 1" using find_bracket_ge [OF 4(3)] by simp
    ultimately show ?thesis by (intro exI [of _ ?tok] exI [of _ "tokens pat (r + 1) e"]) auto
  next
    case 5
    have "tokens pat p e = [Bad]" using assms 5 by (subst tokens.simps) simp
    moreover have "match_pattern pat (x # t) p e = Abort" using assms 5 x by (subst match_pattern.simps) simp
    ultimately show ?thesis by simp
  next
    case 6
    let ?tok = "Lit (pat_at pat (p + 1))"
    have "tokens pat p e = ?tok # tokens pat (p + 2) e" using assms 6 by (subst tokens.simps) simp
    moreover have "match_pattern pat (x # t) p e = (if tok_char ?tok x then match_pattern pat t (p + 2) e else Not_Matched)"
      using assms 6 x by (subst match_pattern.simps) (simp add: Let_def)
    ultimately show ?thesis by (intro exI [of _ ?tok] exI [of _ "tokens pat (p + 2) e"] conjI disjI2 exI [of _ "p + 2"]) simp_all
  next
    case 7
    let ?tok = "Lit (pat_at pat p)"
    have "tokens pat p e = ?tok # tokens pat (p + 1) e" using assms 7 by (subst tokens.simps) simp
    moreover have "match_pattern pat (x # t) p e = (if tok_char ?tok x then match_pattern pat t (p + 1) e else Not_Matched)"
      using assms 7 x by (subst match_pattern.simps) (simp add: Let_def)
    ultimately show ?thesis by (intro exI [of _ ?tok] exI [of _ "tokens pat (p + 1) e"]) auto
  qed
qed

lemma match_ok: "plain s \<Longrightarrow> result_ok (tokens pat p e) s (match_pattern pat s p e)"
proof (induction "e - p" arbitrary: s p rule: less_induct)
  case less
  show ?case
  proof (cases "p < e")
    case False
    then show ?thesis using less.prems by (subst match_pattern.simps) (auto simp: tokens_empty result_ok_def plain_ch)
  next
    case pe: True
    show ?thesis
    proof (cases "pat_at pat p = 42")
      case True
      let ?p1 = "skip_stars pat (p + 1)"
      have p1: "p < ?p1" using skip_stars_ge [of "p + 1" pat] by simp
      have tk: "tokens pat p e = Star # tokens pat ?p1 e" using pe True by (subst tokens.simps) simp
      show ?thesis
      proof (cases "e \<le> ?p1")
        case e: True
        then have "match_pattern pat s p e = Matched"
          using pe True by (subst match_pattern.simps) (simp add: Let_def)
        then show ?thesis unfolding tk using e by (auto simp: result_ok_def tokens_empty)
      next
        case False
        then have m: "match_pattern pat s p e = star_loop pat s ?p1 e"
          using pe True by (subst match_pattern.simps) (simp add: Let_def)
        have "e - ?p1 < e - p" "e - (?p1 + 1) < e - p" using p1 pe by linarith+
        then show ?thesis
          unfolding tk m
          using star_ok [of ?p1 e pat s] False skip_stars_not_star less.hyps less.prems
          by (intro result_ok_star) auto
      qed
    next
      case ns: False
      show ?thesis
      proof (cases s)
        case Nil
        obtain tok ts where "tokens pat p e = tok # ts" "tok \<noteq> Star" using tokens_nonempty [OF pe ns] by blast
        moreover have "match_pattern pat s p e = Abort"
          using pe ns Nil by (subst match_pattern.simps) (simp add: ch_def)
        ultimately show ?thesis using Nil result_ok_empty by simp
      next
        case (Cons x t)
        have pl: "plain (x # t)" using less.prems Cons by simp
        obtain tok ts where tk: "tokens pat p e = tok # ts" "tok \<noteq> Star"
          and m: "match_pattern pat (x # t) p e = Abort \<and> tok # ts = [Bad] \<or>
            (\<exists>p1 > p. ts = tokens pat p1 e \<and> match_pattern pat (x # t) p e =
              (if tok_char tok x then match_pattern pat t p1 e else Not_Matched))"
          using match_step [OF pe ns pl] by blast
        from m show ?thesis
        proof
          assume "match_pattern pat (x # t) p e = Abort \<and> tok # ts = [Bad]"
          then show ?thesis unfolding tk Cons using result_ok_bad by simp
        next
          assume "\<exists>p1 > p. ts = tokens pat p1 e \<and> match_pattern pat (x # t) p e =
              (if tok_char tok x then match_pattern pat t p1 e else Not_Matched)"
          then obtain p1 where p1: "p < p1" "ts = tokens pat p1 e" "match_pattern pat (x # t) p e =
              (if tok_char tok x then match_pattern pat t p1 e else Not_Matched)" by blast
          have "e - p1 < e - p" using p1(1) pe by linarith
          then have "result_ok ts t (match_pattern pat t p1 e)" using less.hyps pl p1(2) by simp
          then show ?thesis unfolding tk Cons p1(3)
            using tk(2) result_ok_step result_ok_fail by simp
        qed
      qed
    qed
  qed
qed

subsection \<open>The language of an expression\<close>

text \<open>A sub-pattern of an expression: inverted, poisonous, and the range of the pattern.\<close>

record subpattern =
  sp_reverse :: bool
  sp_poison :: bool
  sp_start :: nat
  sp_end :: nat

function subpatterns :: "u8 list \<Rightarrow> bool \<Rightarrow> nat \<Rightarrow> subpattern list" where
  "subpatterns pat allowpoison p =
    (if p \<le> length pat then
       (let poison = (allowpoison \<and> pat_at pat p = 64);
            reverse = (pat_at pat p = 33 \<or> poison);
            p1 = (if reverse then p + 1 else p);
            split = find_comma pat False p1 (length pat) in
        \<lparr>sp_reverse = reverse, sp_poison = poison, sp_start = p1, sp_end = split\<rparr>
          # subpatterns pat allowpoison (split + 1))
     else [])"
  by pat_completeness auto
termination
proof (relation "measure (\<lambda>(pat, a, p). Suc (length pat) - p)")
qed (simp_all only: in_measure split_conv comma_step wf_measure)

declare subpatterns.simps [simp del]

definition sp_matches :: "u8 list \<Rightarrow> u8 list \<Rightarrow> subpattern \<Rightarrow> bool" where
  "sp_matches pat t sp = tmatch (tokens pat (sp_start sp) (sp_end sp)) t"

text \<open>The last sub-pattern that matches decides.\<close>

definition verdict :: "u8 list \<Rightarrow> u8 list \<Rightarrow> bool \<Rightarrow> uwildmat_result" where
  "verdict t pat allowpoison =
    (if pat = [] then (if t = [] then UWILDMAT_MATCH else UWILDMAT_FAIL)
     else (case rev (filter (sp_matches pat t) (subpatterns pat allowpoison 0)) of
         [] \<Rightarrow> UWILDMAT_FAIL
       | sp # _ \<Rightarrow> if sp_poison sp then UWILDMAT_POISON
           else if sp_reverse sp then UWILDMAT_FAIL else UWILDMAT_MATCH))"

definition decide :: "u8 list \<Rightarrow> u8 list \<Rightarrow> bool \<times> bool \<Rightarrow> subpattern list \<Rightarrow> bool \<times> bool" where
  "decide pat t st sps = (case rev (filter (sp_matches pat t) sps) of
     [] \<Rightarrow> st | sp # _ \<Rightarrow> (\<not> sp_reverse sp, sp_poison sp))"

lemma decide_Nil [simp]: "decide pat t st [] = st"
  by (simp add: decide_def)

lemma decide_Cons: "decide pat t st (sp # sps) =
    decide pat t (if sp_matches pat t sp then (\<not> sp_reverse sp, sp_poison sp) else st) sps"
  by (auto simp: decide_def split: list.splits)

lemma matched_iff: "plain t \<Longrightarrow> match_pattern pat t p e = Matched \<longleftrightarrow> tmatch (tokens pat p e) t"
  using match_ok [of t pat p e] by (simp add: result_ok_def)

lemma expression_loop_ok:
  assumes "plain t"
  shows "expression_loop pat t allowpoison p m q = decide pat t (m, q) (subpatterns pat allowpoison p)"
proof (induction "Suc (length pat) - p" arbitrary: p m q rule: less_induct)
  case less
  show ?case
  proof (cases "p \<le> length pat")
    case False
    then show ?thesis by (subst expression_loop.simps, subst subpatterns.simps) simp
  next
    case True
    define poison where "poison = (allowpoison \<and> pat_at pat p = 64)"
    define reverse where "reverse = (pat_at pat p = 33 \<or> poison)"
    define p1 where "p1 = (if reverse then p + 1 else p)"
    define sp where "sp = find_comma pat False p1 (length pat)"
    have sub: "subpatterns pat allowpoison p = \<lparr>sp_reverse = reverse, sp_poison = poison, sp_start = p1, sp_end = sp\<rparr>
        # subpatterns pat allowpoison (sp + 1)"
      using True by (subst subpatterns.simps) (simp add: Let_def poison_def reverse_def p1_def sp_def)
    have loop: "expression_loop pat t allowpoison p m q =
        (if m = (\<not> reverse) \<and> poison = q then expression_loop pat t allowpoison (sp + 1) m q
         else if tmatch (tokens pat p1 sp) t then expression_loop pat t allowpoison (sp + 1) (\<not> reverse) poison
         else expression_loop pat t allowpoison (sp + 1) m q)"
      unfolding expression_loop.simps [of pat t allowpoison p m q] Let_def poison_def [symmetric]
        reverse_def [symmetric] p1_def [symmetric] sp_def [symmetric] matched_iff [OF assms]
      by (simp only: True if_True)
    have "Suc (length pat) - (sp + 1) < Suc (length pat) - p"
      unfolding sp_def p1_def by (rule comma_step [OF True])
    then have IH: "expression_loop pat t allowpoison (sp + 1) m' q' = decide pat t (m', q') (subpatterns pat allowpoison (sp + 1))" for m' q'
      by (rule less.hyps)
    show ?thesis unfolding loop sub decide_Cons IH by (auto simp: sp_matches_def)
  qed
qed

lemma match_expression_ok:
  assumes "plain t" "0 \<notin> set pat"
  shows "match_expression t pat allowpoison = verdict t pat allowpoison"
proof (cases pat)
  case Nil
  then show ?thesis using plain_ch [OF assms(1)] by (simp add: match_expression_def verdict_def ch_def)
next
  case (Cons c r)
  then have "ch pat \<noteq> 0" using assms(2) by (auto simp: ch_def)
  then show ?thesis using Cons
    by (auto simp: match_expression_def verdict_def expression_loop_ok [OF assms(1)] decide_def split: list.splits)
qed

text \<open>The shortcut for the pattern that is a single star.\<close>

lemma single_star:
  assumes "0 \<notin> set pat"
  shows "pat_at pat 0 = 42 \<and> pat_at pat 1 = 0 \<longleftrightarrow> pat = [42]"
proof (cases pat)
  case (Cons c r)
  then show ?thesis using assms by (cases r) (auto simp: pat_at_def)
qed (simp add: pat_at_def)

lemma star_tokens: "tokens [42] 0 1 = [Star]"
  by (subst tokens.simps) (simp add: pat_at_def skip_stars.simps tokens_empty)

lemmas star_tokens' = star_tokens [simplified]

lemma star_verdict: "verdict t [42] allowpoison = UWILDMAT_MATCH"
proof -
  have "find_comma [42] False 0 1 = 1"
    by (subst find_comma.simps, subst find_comma.simps) (simp add: after_class_def pat_at_def)
  then have "subpatterns [42] allowpoison 0 = [\<lparr>sp_reverse = False, sp_poison = False, sp_start = 0, sp_end = 1\<rparr>]"
    by (subst subpatterns.simps, subst subpatterns.simps) (simp add: pat_at_def)
  moreover have "\<exists>k \<le> length t. t = [] \<or> length t = k" by (intro exI [of _ "length t"]) simp
  ultimately show ?thesis by (auto simp: verdict_def sp_matches_def star_tokens')
qed

subsection \<open>An escaped bracket at the end of a pattern\<close>

definition ordinary :: "u8 \<Rightarrow> bool" where
  "ordinary c \<longleftrightarrow> c \<notin> {0, 33, 42, 44, 63, 64, 91, 92, 93}"

lemma tmatch_lits: "tmatch (map Lit l @ ts) t \<longleftrightarrow> (\<exists>u. t = l @ u \<and> tmatch ts u)"
proof (induction l arbitrary: t)
  case (Cons c l)
  then show ?case by (cases t) auto
qed simp

lemma pat_at_app: "i < length l \<Longrightarrow> pat_at (l @ r) i = l ! i"
  "pat_at (l @ r) (length l + k) = pat_at r k"
  by (simp_all add: pat_at_def nth_append)

lemma tokens_lits:
  assumes "\<forall>c\<in>set l. ordinary c" "i \<le> length l" "length l \<le> e"
  shows "tokens (l @ r) i e = map Lit (drop i l) @ tokens (l @ r) (length l) e"
  using assms(2)
proof (induction "length l - i" arbitrary: i)
  case (Suc n)
  then have i: "i < length l" by simp
  have o: "ordinary (l ! i)" using assms(1) i by simp
  have "tokens (l @ r) i e = Lit (l ! i) # tokens (l @ r) (i + 1) e"
    using o i assms(3) by (subst tokens.simps) (simp add: pat_at_app ordinary_def)
  then show ?case using Suc i by (simp add: Cons_nth_drop_Suc [symmetric])
qed simp

lemma find_comma_lits:
  assumes "\<forall>c\<in>set l. ordinary c" "i \<le> length l" "length l \<le> e"
  shows "find_comma (l @ r) False i e = find_comma (l @ r) False (length l) e"
  using assms(2)
proof (induction "length l - i" arbitrary: i)
  case (Suc n)
  then have i: "i < length l" by simp
  have o: "ordinary (l ! i)" using assms(1) i by simp
  have "find_comma (l @ r) False i e = find_comma (l @ r) False (i + 1) e"
    using o i assms(3) by (subst find_comma.simps) (simp add: pat_at_app ordinary_def after_class_def Let_def)
  then show ?case using Suc i by simp
qed simp

lemma bracket_pattern:
  assumes l: "\<forall>c\<in>set l. ordinary c"
  defines "pat \<equiv> l @ [92, 91]"
  shows "tokens pat 0 (length l + 2) = map Lit l @ [Lit 91]"
    "tokens pat 0 (length l + 3) = map Lit l @ [Lit 91, Lit 0]"
    "subpatterns pat False 0 = [\<lparr>sp_reverse = False, sp_poison = False, sp_start = 0, sp_end = length l + 3\<rparr>]"
proof -
  have at: "pat_at pat (length l) = 92" "pat_at pat (Suc (length l)) = 91" "pat_at pat (Suc (Suc (length l))) = 0"
    unfolding pat_def using pat_at_app(2) [of l "[92, 91]" 0] pat_at_app(2) [of l "[92, 91]" 1]
      pat_at_app(2) [of l "[92, 91]" 2] by (simp_all add: pat_at_def)
  have "tokens pat (length l) (length l + 2) = [Lit 91]" using at
    by (subst tokens.simps) (simp add: tokens_empty)
  then show "tokens pat 0 (length l + 2) = map Lit l @ [Lit 91]"
    using tokens_lits [OF l, of 0 "length l + 2" "[92, 91]"] by (simp add: pat_def)
  have "tokens pat (length l + 2) (length l + 3) = [Lit 0]" using at
    by (subst tokens.simps) (simp add: tokens_empty)
  then have "tokens pat (length l) (length l + 3) = [Lit 91, Lit 0]" using at
    by (subst tokens.simps) simp
  then show "tokens pat 0 (length l + 3) = map Lit l @ [Lit 91, Lit 0]"
    using tokens_lits [OF l, of 0 "length l + 3" "[92, 91]"] by (simp add: pat_def)
  have e: "length pat = length l + 2" by (simp add: pat_def)
  have "after_class pat (length l + 1) (length l + 2) = length l + 2"
    using at by (simp add: after_class_def skip_class.simps)
  then have "find_comma pat True (length l + 1) (length l + 2) = length l + 3"
    using at by (subst find_comma.simps) (simp add: Let_def, subst find_comma.simps, simp)
  then have "find_comma pat False (length l) (length l + 2) = length l + 3"
    using at by (subst find_comma.simps) (simp add: Let_def after_class_def)
  then have fc: "find_comma pat False 0 (length pat) = length l + 3"
    using find_comma_lits [OF l, of 0 "length l + 2" "[92, 91]"] e by (simp add: pat_def)
  have "pat_at pat 0 \<noteq> 33"
    using l by (cases l) (auto simp: pat_def pat_at_def ordinary_def)
  then show "subpatterns pat False 0 = [\<lparr>sp_reverse = False, sp_poison = False, sp_start = 0, sp_end = length l + 3\<rparr>]"
    using fc e by (subst subpatterns.simps, subst subpatterns.simps) (simp add: Let_def)
qed

subsection \<open>The entry points\<close>

text \<open>For texts of 7-bit characters without upper case letters: a sub-pattern matches when its tokens can be
  laid along the text (a star covers any part of it, every other token one character), the last sub-pattern that
  matches decides, and the aborts and shortcuts of the code change nothing.\<close>

lemma uwildmat_verdict:
  assumes "plain t" "0 \<notin> set pat"
  shows "uwildmat t pat \<longleftrightarrow> verdict t pat False = UWILDMAT_MATCH"
    and "uwildmat_poison t pat = verdict t pat True"
    and "uwildmat_simple t pat \<longleftrightarrow> tmatch (tokens pat 0 (length pat)) t"
  using match_expression_ok [OF assms] single_star [OF assms(2)] star_verdict matched_iff [OF assms(1)] star_tokens'
  by (auto simp: uwildmat_def uwildmat_poison_def uwildmat_simple_def)

subsection \<open>Properties\<close>

text \<open>A pattern of ordinary characters that ends in an escaped bracket matches no name at all:
  the search for the comma takes the escaped bracket for the start of a class and runs one byte past
  the end of the pattern, so the terminating NUL becomes part of the sub-pattern. The same pattern
  given to \<open>uwildmat_simple\<close> matches the name it stands for.\<close>

theorem uwildmat_escaped_bracket:
  assumes "\<forall>c\<in>set l. ordinary c" "plain t"
  shows "\<not> uwildmat t (l @ [92, 91]) \<and> (uwildmat_simple t (l @ [92, 91]) \<longleftrightarrow> t = l @ [91])"
proof -
  let ?pat = "l @ [92, 91] :: u8 list"
  have z: "0 \<notin> set ?pat" using assms(1) by (auto simp: ordinary_def)
  note lang = match_expression_ok [OF assms(2) z] single_star [OF z] matched_iff [OF assms(2)]
  have "\<not> sp_matches ?pat t \<lparr>sp_reverse = False, sp_poison = False, sp_start = 0, sp_end = length l + 3\<rparr>"
    using assms(2) by (auto simp: sp_matches_def bracket_pattern(2) [OF assms(1)] tmatch_lits plain_def split: list.splits)
  then have "verdict t ?pat False = UWILDMAT_FAIL"
    by (simp add: verdict_def bracket_pattern(3) [OF assms(1)])
  moreover have "?pat \<noteq> [42]" by (cases l) auto
  moreover have "tmatch (tokens ?pat 0 (length l + 2)) t \<longleftrightarrow> t = l @ [91]"
  proof -
    have "tmatch [Lit 91] u \<longleftrightarrow> u = [91]" for u by (cases u) auto
    then show ?thesis unfolding bracket_pattern(1) [OF assms(1)] tmatch_lits by blast
  qed
  ultimately show ?thesis using lang by (simp add: uwildmat_def uwildmat_simple_def)
qed

theorem uwildmat_escaped_bracket_witness:
  "\<not> uwildmat [97, 91] [97, 92, 91] \<and> uwildmat_simple [97, 91] [97, 92, 91]"
  using uwildmat_escaped_bracket [of "[97]" "[97, 91]"] by (simp add: ordinary_def tolower8_def tolower_def)

text \<open>The comparison that ignores the case of the text is forgotten behind a star: a lower case
  letter as the pattern matches the upper case letter, and a star before it, which may be empty, makes
  the match fail.\<close>

theorem uwildmat_star_minds_case:
  assumes "97 \<le> c" "c \<le> 122"
  shows "uwildmat_simple [c - 32] [c] \<and> \<not> uwildmat_simple [c - 32] [42, c]"
proof -
  define x where "x = c - 32"
  have c: "97 \<le> unat c" "unat c \<le> 122" using assms by (simp_all add: word_le_nat_alt)
  have x: "unat x = unat c - 32" using c by (simp add: x_def unat_sub word_le_nat_alt)
  have u: "unat (ucast x :: u32) = unat x" using c x by (simp add: unsigned_ucast_eq take_bit_nat_eq_self)
  have up: "tolower (ucast x) = ucast x + 32" 
  proof -
    have "65 \<le> unat c - 32" "unat c - 32 \<le> 90" using c by linarith+
    then show ?thesis using x u by (simp add: tolower_def word_le_nat_alt)
  qed
  have "unat (ucast x + 32 :: u32) = unat c" using c x u by (subst unat_add_no_wrap) simp_all
  then have low: "tolower8 x = c"
    using c by (simp add: tolower8_def up word_unat_eq_iff unsigned_ucast_eq take_bit_nat_eq_self)
  have ne: "x \<noteq> 0" "x \<noteq> c" "c \<noteq> 0" "c \<noteq> 42" "c \<noteq> 63" "c \<noteq> 91" "c \<noteq> 92" "x < 128"
    using c x by (auto simp: word_less_nat_alt)
  have "match_pattern [c] [x] 0 1 = Matched"
    using ne low by (subst match_pattern.simps, subst match_pattern.simps) (simp add: pat_at_def ch_def)
  moreover have "skip_stars [42, c] 1 = 1" using ne by (subst skip_stars.simps) (simp add: pat_at_def)
  moreover have "skip_to c [x] = []"
  proof -
    have "char_width [x] = 1" using ascii_no_high [of x 192] ne by (simp add: char_width_def ch_def ISUTF8_def)
    moreover have "skip_to c [] = []" by (subst skip_to.simps) (simp add: ch_def)
    ultimately show ?thesis using ne by (subst skip_to.simps) (simp add: ch_def)
  qed
  ultimately have "match_pattern [c] [x] 0 1 = Matched" "match_pattern [42, c] [x] 0 (Suc (Suc 0)) = Abort"
    using ne by (simp_all add: match_pattern.simps star_loop.simps pat_at_def ch_def ismeta_def)
  then show ?thesis using ne by (simp add: uwildmat_simple_def pat_at_def x_def)
qed

theorem uwildmat_star_minds_case_witness:
  "uwildmat_simple [66] [98] \<and> \<not> uwildmat_simple [66] [42, 98]"
  using uwildmat_star_minds_case [of 98] by simp

text \<open>The UTF-8 check accepts exactly the strings that are a sequence of well-formed characters
  of at most six bytes.\<close>

theorem is_valid_utf8_accepts:
  assumes "0 \<notin> set p"
  shows "is_valid_utf8 p \<longleftrightarrow> (\<exists>cs. p = concat cs \<and> (\<forall>c\<in>set cs. utf8_char c))"
  by (rule is_valid_utf8_iff [OF assms])

theorem is_valid_utf8_accepts_witness: "is_valid_utf8 []"
  using is_valid_utf8_accepts [of "[]"] by (auto intro: exI [of _ "[]"])

end
