(* ===== verification/Wildmat_Language.thy ===== *)
theory Wildmat_Language
  imports Uwildmat
begin

text \<open>
  What a wildcard expression means, independently of how \<open>lib/uwildmat/uwildmat.c\<close> scans it: an expression is
  a tree of clauses and atoms, a clause denotes a set of texts, and the last clause whose set holds the text
  decides. \<open>render\<close> writes the tree down as the pattern a user types. The theorem says that the matcher, given
  the written pattern, decides the meaning of the tree: the search for the comma ends where the clause ends,
  an escaped character stands for itself, and a class holds the characters between its brackets.
\<close>

subsection \<open>Syntax trees\<close>

datatype class_item = Single u8 | Range u8 u8

text \<open>A class is negated or not, may have the closing bracket as its first member, and may end in a minus sign,
  which then stands for itself.\<close>

datatype atom = Plain u8 | Escaped u8 | Any_One | Any_Run | Char_Class bool bool "class_item list" bool

datatype sign = Positive | Negative | Poison

type_synonym clause = "sign \<times> atom list"

subsection \<open>Meaning\<close>

fun item_has :: "class_item \<Rightarrow> u8 \<Rightarrow> bool" where
  "item_has (Single a) x \<longleftrightarrow> x = a"
| "item_has (Range a b) x \<longleftrightarrow> a \<le> x \<and> x \<le> b"

fun atom_lang :: "atom \<Rightarrow> u8 list set" where
  "atom_lang (Plain c) = {[c]}"
| "atom_lang (Escaped c) = {[c]}"
| "atom_lang Any_One = {[x] | x. True}"
| "atom_lang Any_Run = UNIV"
| "atom_lang (Char_Class neg bracket items dash) =
    {[x] | x. neg \<noteq> (bracket \<and> x = 93 \<or> (\<exists>i\<in>set items. item_has i x) \<or> dash \<and> x = 45)}"

fun seq_lang :: "atom list \<Rightarrow> u8 list set" where
  "seq_lang [] = {[]}"
| "seq_lang (a # as) = {u @ v | u v. u \<in> atom_lang a \<and> v \<in> seq_lang as}"

fun sign_result :: "sign \<Rightarrow> uwildmat_result" where
  "sign_result Positive = UWILDMAT_MATCH"
| "sign_result Negative = UWILDMAT_FAIL"
| "sign_result Poison = UWILDMAT_POISON"

definition outcome :: "clause list \<Rightarrow> u8 list \<Rightarrow> uwildmat_result" where
  "outcome cls t = (case filter (\<lambda>cl. t \<in> seq_lang (snd cl)) cls of
     [] \<Rightarrow> UWILDMAT_FAIL | matching \<Rightarrow> sign_result (fst (last matching)))"

subsection \<open>Writing a tree as a pattern\<close>

fun render_item :: "class_item \<Rightarrow> u8 list" where
  "render_item (Single a) = [a]"
| "render_item (Range a b) = [a, 45, b]"

definition class_members :: "bool \<Rightarrow> class_item list \<Rightarrow> bool \<Rightarrow> u8 list" where
  "class_members bracket items dash =
     (if bracket then [93] else []) @ concat (map render_item items) @ (if dash then [45] else [])"

fun render_atom :: "atom \<Rightarrow> u8 list" where
  "render_atom (Plain c) = [c]"
| "render_atom (Escaped c) = [92, c]"
| "render_atom Any_One = [63]"
| "render_atom Any_Run = [42]"
| "render_atom (Char_Class neg bracket items dash) =
    91 # (if neg then [94] else []) @ class_members bracket items dash @ [93]"

definition render_atoms :: "atom list \<Rightarrow> u8 list" where
  "render_atoms as = concat (map render_atom as)"

fun render_sign :: "sign \<Rightarrow> u8 list" where
  "render_sign Positive = []"
| "render_sign Negative = [33]"
| "render_sign Poison = [64]"

fun render_expr :: "clause list \<Rightarrow> u8 list" where
  "render_expr [] = []"
| "render_expr [cl] = render_sign (fst cl) @ render_atoms (snd cl)"
| "render_expr (cl # cls) = render_sign (fst cl) @ render_atoms (snd cl) @ [44] @ render_expr cls"

text \<open>Trees that can be written: a plain character is none of the special ones, the members of a class are
  7-bit characters other than the closing bracket and the minus sign, ranges are not empty, a class has a member,
  and a class that is not negated does not begin with a caret.\<close>

fun wf_item :: "class_item \<Rightarrow> bool" where
  "wf_item (Single a) \<longleftrightarrow> a < 128 \<and> a \<notin> {0, 45, 93}"
| "wf_item (Range a b) \<longleftrightarrow> a \<le> b \<and> b < 128 \<and> a \<notin> {0, 45, 93} \<and> b \<notin> {0, 45, 93}"

fun wf_atom :: "atom \<Rightarrow> bool" where
  "wf_atom (Plain c) \<longleftrightarrow> c \<notin> {0, 42, 63, 91, 92}"
| "wf_atom (Escaped c) \<longleftrightarrow> c \<noteq> 0"
| "wf_atom (Char_Class neg bracket items dash) \<longleftrightarrow> list_all wf_item items \<and> class_members bracket items dash \<noteq> [] \<and>
    (neg \<or> hd (class_members bracket items dash) \<noteq> 94)"
| "wf_atom _ \<longleftrightarrow> True"

text \<open>What a clause may not hold besides: a comma, which separates clauses, an escaped opening bracket, and a
  negated class whose first member is the closing bracket; the search for the comma takes the last two for the
  start and the end of a class.\<close>

fun no_comma :: "atom \<Rightarrow> bool" where
  "no_comma (Plain c) \<longleftrightarrow> c \<noteq> 44"
| "no_comma (Escaped c) \<longleftrightarrow> c \<noteq> 91"
| "no_comma (Char_Class neg bracket items dash) \<longleftrightarrow> \<not> (neg \<and> bracket)"
| "no_comma _ \<longleftrightarrow> True"

definition wf_clause :: "bool \<Rightarrow> clause \<Rightarrow> bool" where
  "wf_clause allowpoison cl \<longleftrightarrow> list_all (\<lambda>a. wf_atom a \<and> no_comma a) (snd cl) \<and>
     (case fst cl of
        Positive \<Rightarrow> (case snd cl of [] \<Rightarrow> True | a # _ \<Rightarrow> a \<noteq> Plain 33 \<and> \<not> (allowpoison \<and> a = Plain 64))
      | Negative \<Rightarrow> True
      | Poison \<Rightarrow> allowpoison)"

subsection \<open>Tokens of a written clause\<close>

text \<open>The pattern shows the bytes \<open>r\<close> from \<open>p\<close> on.\<close>

definition shows_at :: "u8 list \<Rightarrow> nat \<Rightarrow> u8 list \<Rightarrow> bool" where
  "shows_at pat p r \<longleftrightarrow> (\<forall>i<length r. pat_at pat (p + i) = r ! i)"

lemma shows_at_Nil [simp]: "shows_at pat p []"
  by (simp add: shows_at_def)

lemma shows_at_Cons [simp]: "shows_at pat p (c # r) \<longleftrightarrow> pat_at pat p = c \<and> shows_at pat (Suc p) r"
  by (auto simp: shows_at_def nth_Cons' less_Suc_eq_0_disj all_conj_distrib)

lemma shows_at_append [simp]: "shows_at pat p (r1 @ r2) \<longleftrightarrow> shows_at pat p r1 \<and> shows_at pat (p + length r1) r2"
  by (induction r1 arbitrary: p) auto

lemma shows_at_self: "shows_at (l @ r @ r') (length l) r"
  by (auto simp: shows_at_def pat_at_def nth_append)

lemma shows_at_take:
  assumes "shows_at pat p r" "p + length r \<le> length pat"
  shows "take (length r) (drop p pat) = r"
  using assms by (intro nth_equalityI) (auto simp: shows_at_def pat_at_def)

lemma find_bracket_at:
  assumes "q \<le> r" "r < e" "pat_at pat r = 93" "\<And>i. q \<le> i \<Longrightarrow> i < r \<Longrightarrow> pat_at pat i \<noteq> 93"
  shows "find_bracket pat q e = Some r"
  unfolding find_bracket_def find_Some_iff using assms by (intro exI [of _ "r - q"]) auto

text \<open>The members of a class.\<close>

lemma ascii_decode: "c < 128 \<Longrightarrow> utf8_decode (c # t) avail = (ucast c, 1)"
proof -
  assume "c < 128"
  then have "c AND 128 \<noteq> 128" using ascii_no_high [of c 128] by simp
  then have "lead_loop 128 c 0 = 0" by (subst lead_loop.simps) simp
  then show ?thesis by (simp add: utf8_decode_def utf8_length_def ch_def)
qed

lemma unat_u8_u32: "unat (ucast x :: u32) = unat x" for x :: u8
proof -
  have "unat x < 256" using unsigned_less [of x] by simp
  then show ?thesis by (simp add: unsigned_ucast_eq take_bit_nat_eq_self)
qed

lemma ucast_u32: "(ucast x :: u32) = ucast y \<longleftrightarrow> x = y" "(ucast x :: u32) \<le> ucast y \<longleftrightarrow> x \<le> y" for x y :: u8
  by (simp_all add: word_unat_eq_iff word_le_nat_alt unat_u8_u32)

lemma tolower_plain:
  assumes "tolower8 x = x"
  shows "tolower (ucast x) = ucast x"
proof (rule ccontr)
  assume n: "tolower (ucast x) \<noteq> ucast x"
  then have r: "65 \<le> (ucast x :: u32)" "(ucast x :: u32) \<le> 90" by (auto simp: tolower_def split: if_splits)
  then have "unat (ucast x + 32 :: u32) = unat x + 32" "unat x \<le> 90"
    by (simp_all add: word_le_nat_alt unat_word_ariths unat_u8_u32)
  then have "unat (tolower8 x) = unat x + 32"
    using r by (simp add: tolower8_def tolower_def unsigned_ucast_eq take_bit_nat_eq_self)
  then show False using assms by simp
qed

lemma class_loop_items:
  assumes "list_all (\<lambda>i. wf_item i \<or> i = Single 93) items" "tolower (ucast x) = ucast x"
  shows "class_loop (ucast x) neg first allow (concat (map render_item items) @ (if dash then [45] else [])) =
    (neg \<noteq> ((\<exists>i\<in>set items. item_has i x) \<or> dash \<and> x = 45))"
  using assms(1)
proof (induction items arbitrary: first allow)
  case Nil
  show ?case
    using assms(2) ascii_decode [of 45 "[]"]
    by (auto simp: class_loop.simps [of _ _ _ _ "[]"] class_loop.simps [of _ _ _ _ "[45]"] ch_def ucast_u32
        ucast_u32(1) [of _ 45, simplified])
next
  case (Cons i items)
  show ?case
  proof (cases i)
    case (Single a)
    then have a: "a < 128" "a \<noteq> 45" using Cons.prems by auto
    then show ?thesis
      using Single Cons assms(2) by (subst class_loop.simps) (auto simp: ch_def ascii_decode Let_def ucast_u32)
  next
    case (Range a b)
    let ?r = "concat (map render_item items) @ (if dash then [45] else [])"
    have ab: "a < 128" "b < 128" "a \<noteq> 45" "a \<le> b" using Cons.prems Range by auto
    have "class_loop (ucast x) neg (ucast a) True (45 # b # ?r) =
        (if a \<le> x \<and> x \<le> b then \<not> neg else class_loop (ucast x) neg (ucast a) False ?r)"
      using ab assms(2) by (subst class_loop.simps) (simp add: ch_def ascii_decode Let_def ucast_u32)
    then have "class_loop (ucast x) neg first allow (a # 45 # b # ?r) =
        (if x = a \<or> a \<le> x \<and> x \<le> b then \<not> neg else class_loop (ucast x) neg (ucast a) False ?r)"
      using ab assms(2) by (subst class_loop.simps) (simp add: ch_def ascii_decode Let_def ucast_u32)
    then show ?thesis using Range ab(4) Cons by auto
  qed
qed

lemma match_class_members:
  assumes "wf_atom (Char_Class neg bracket items dash)" "tolower (ucast x) = ucast x"
  shows "match_class (ucast x) ((if neg then [94] else []) @ class_members bracket items dash) \<longleftrightarrow>
    [x] \<in> atom_lang (Char_Class neg bracket items dash)"
proof -
  let ?items = "(if bracket then [Single 93] else []) @ items"
  have m: "class_members bracket items dash = concat (map render_item ?items) @ (if dash then [45] else [])"
    by (simp add: class_members_def)
  have wf: "list_all (\<lambda>i. wf_item i \<or> i = Single 93) ?items" using assms(1) by (auto simp: list_all_iff)
  obtain c r where c: "class_members bracket items dash = c # r" "neg \<or> c \<noteq> 94"
    using assms(1) by (cases "class_members bracket items dash") auto
  have "match_class (ucast x) ((if neg then [94] else []) @ class_members bracket items dash) =
      class_loop (ucast x) neg 0 False (class_members bracket items dash)"
    using c by (auto simp: match_class_def ch_def)
  then show ?thesis using class_loop_items [OF wf assms(2)] unfolding m by auto
qed

lemma seq_lang_run: "t \<in> seq_lang (Any_Run # as) \<longleftrightarrow> (\<exists>k\<le>length t. drop k t \<in> seq_lang as)"
proof
  assume "t \<in> seq_lang (Any_Run # as)"
  then obtain u v where "t = u @ v" "v \<in> seq_lang as" by auto
  then show "\<exists>k\<le>length t. drop k t \<in> seq_lang as" by (intro exI [of _ "length u"]) simp
next
  assume "\<exists>k\<le>length t. drop k t \<in> seq_lang as"
  then obtain k where "drop k t \<in> seq_lang as" by blast
  moreover have "t = take k t @ drop k t" by simp
  ultimately show "t \<in> seq_lang (Any_Run # as)" by (simp del: append_take_drop_id) blast
qed

lemma seq_lang_one:
  assumes "a \<noteq> Any_Run"
  shows "t \<in> seq_lang (a # as) \<longleftrightarrow> (case t of [] \<Rightarrow> False | x # t1 \<Rightarrow> [x] \<in> atom_lang a \<and> t1 \<in> seq_lang as)"
proof -
  have one: "\<exists>x. u = [x]" if "u \<in> atom_lang a" for u using assms that by (cases a) auto
  show ?thesis
  proof
    assume "t \<in> seq_lang (a # as)"
    then obtain u v where t: "t = u @ v" "u \<in> atom_lang a" "v \<in> seq_lang as" by auto
    obtain y where "u = [y]" using one t(2) by blast
    then show "case t of [] \<Rightarrow> False | x # t1 \<Rightarrow> [x] \<in> atom_lang a \<and> t1 \<in> seq_lang as" using t by simp
  next
    assume "case t of [] \<Rightarrow> False | x # t1 \<Rightarrow> [x] \<in> atom_lang a \<and> t1 \<in> seq_lang as"
    then obtain x t1 where "t = [x] @ t1" "[x] \<in> atom_lang a" "t1 \<in> seq_lang as" by (auto split: list.splits)
    then show "t \<in> seq_lang (a # as)" unfolding seq_lang.simps mem_Collect_eq by blast
  qed
qed

lemma merge_stars:
  assumes "p < e \<or> pat_at pat p \<noteq> 42"
  shows "(\<exists>k\<le>length t. tmatch (tokens pat (skip_stars pat p) e) (drop k t)) \<longleftrightarrow>
    (\<exists>k\<le>length t. tmatch (tokens pat p e) (drop k t))"
proof (cases "pat_at pat p = 42")
  case False
  then show ?thesis by (subst skip_stars.simps) simp
next
  case True
  then have tk: "tokens pat p e = Star # tokens pat (skip_stars pat p) e"
    using assms by (subst tokens.simps, subst (2) skip_stars.simps) simp
  let ?f = "tmatch (tokens pat (skip_stars pat p) e)"
  have "(\<exists>k\<le>length t. \<exists>j\<le>length t - k. ?f (drop (j + k) t)) \<longleftrightarrow> (\<exists>k\<le>length t. ?f (drop k t))"
  proof
    assume "\<exists>k\<le>length t. \<exists>j\<le>length t - k. ?f (drop (j + k) t)"
    then obtain k j where "k \<le> length t" "j \<le> length t - k" "?f (drop (j + k) t)" by blast
    then show "\<exists>k\<le>length t. ?f (drop k t)" by (intro exI [of _ "j + k"]) simp
  next
    assume "\<exists>k\<le>length t. ?f (drop k t)"
    then show "\<exists>k\<le>length t. \<exists>j\<le>length t - k. ?f (drop (j + k) t)" by (intro exI [of _ 0]) simp
  qed
  then show ?thesis unfolding tk by simp
qed

lemma class_members_shape:
  assumes wf: "wf_atom (Char_Class neg bracket items dash)"
  obtains c r where "class_members bracket items dash = c # r" "neg \<or> c \<noteq> 94" "93 \<notin> set r" "c = 93 \<longleftrightarrow> bracket"
proof -
  obtain c r where c: "class_members bracket items dash = c # r" "neg \<or> c \<noteq> 94"
    using wf by (cases "class_members bracket items dash") auto
  have "93 \<notin> set (render_item i)" if "i \<in> set items" for i
    using wf that by (cases i) (auto simp: list_all_iff)
  then have n: "93 \<notin> set (concat (map render_item items) @ (if dash then [45] else []))" (is "93 \<notin> set ?m") by auto
  have m: "if bracket then c = 93 \<and> ?m = r else ?m = c # r" using c(1) unfolding class_members_def by (cases bracket) simp_all
  then have "93 \<notin> set r" "c = 93 \<longleftrightarrow> bracket" using n by (metis list.set_intros)+
  with c that show thesis by blast
qed

lemma tokens_class:
  assumes wf: "wf_atom (Char_Class neg bracket items dash)"
    and at: "shows_at pat p (render_atom (Char_Class neg bracket items dash))"
    and e: "p + length (render_atom (Char_Class neg bracket items dash)) \<le> e" "e \<le> length pat"
  shows "tokens pat p e = Class ((if neg then [94] else []) @ class_members bracket items dash) #
    tokens pat (p + length (render_atom (Char_Class neg bracket items dash))) e"
proof -
  let ?b = "(if neg then [94] else []) @ class_members bracket items dash"
  let ?q = "p + (if neg then 1 else 0) + 2" and ?r = "p + 1 + length ?b"
  obtain c r where c: "class_members bracket items dash = c # r" "neg \<or> c \<noteq> 94" and r: "93 \<notin> set r"
    using class_members_shape [OF wf] by metis
  have sh: "pat_at pat p = 91" "shows_at pat (p + 1) ?b" "pat_at pat ?r = 93" using at by (auto simp: add.assoc)
  have neg: "pat_at pat (p + 1) = 94 \<longleftrightarrow> neg" using sh(2) c by (cases neg) auto
  have bt: "pat_at pat i \<noteq> 93" if i: "?q \<le> i" "i < ?r" for i
  proof -
    have "?b ! (i - (p + 1)) = r ! (i - ?q)" using i c(1) by (cases neg) (auto simp: nth_Cons')
    moreover have "i - (p + 1) < length ?b" "i - ?q < length r" using i c(1) by (auto split: if_splits)
    ultimately have "pat_at pat i = r ! (i - ?q)" "r ! (i - ?q) \<in> set r"
      using sh(2) i by (auto simp: shows_at_def dest: spec [of _ "i - (p + 1)"])
    then show ?thesis using r by metis
  qed
  have q: "?q \<le> ?r" "?r < e" "?r + 1 = p + length (render_atom (Char_Class neg bracket items dash))" using c(1) e(1) by auto
  have f: "find_bracket pat ?q e = Some ?r" by (rule find_bracket_at [OF q(1,2) sh(3) bt])
  have b: "take (?r - (p + 1)) (drop (p + 1) pat) = ?b"
    using shows_at_take [OF sh(2)] q e(2) by simp
  have e': "\<not> e \<le> ?q" "p < e" using q by linarith+
  have "tokens pat p e = (if e \<le> ?q then [Bad] else (case find_bracket pat ?q e of None \<Rightarrow> [Bad]
      | Some r \<Rightarrow> Class (take (r - (p + 1)) (drop (p + 1) pat)) # tokens pat (r + 1) e))"
    unfolding tokens.simps [of pat p e] Let_def neg using sh(1) e'(2) by (simp only: not_True_eq_False if_False if_True) simp
  then show ?thesis using e'(1) by (simp only: f option.case if_False b q(3))
qed

text \<open>The tokens of a written clause can be laid along a text exactly when the text is in its language.\<close>

lemma tokens_atom:
  assumes wf: "wf_atom a" "a \<noteq> Any_Run" and at: "shows_at pat p (render_atom a)"
    and e: "p + length (render_atom a) \<le> e" "e \<le> length pat" and x: "tolower8 x = x"
  shows "\<exists>tok. tok \<noteq> Star \<and> (tok_char tok x \<longleftrightarrow> [x] \<in> atom_lang a) \<and>
    tokens pat p e = tok # tokens pat (p + length (render_atom a)) e"
proof (cases a)
  case (Plain c)
  then show ?thesis using assms by (intro exI [of _ "Lit c"], subst tokens.simps) auto
next
  case (Escaped c)
  then show ?thesis using assms by (intro exI [of _ "Lit c"], subst tokens.simps) auto
next
  case Any_One
  then show ?thesis using assms by (intro exI [of _ Any_Char], subst tokens.simps) auto
next
  case (Char_Class neg bracket items dash)
  let ?tok = "Class ((if neg then [94] else []) @ class_members bracket items dash)"
  have "tok_char ?tok x \<longleftrightarrow> [x] \<in> atom_lang a"
    using match_class_members [OF wf(1) [unfolded Char_Class] tolower_plain [OF x]] Char_Class by (simp only: tok_char.simps)
  then show ?thesis using tokens_class [of neg bracket items dash pat p e] wf at e Char_Class
    by (intro exI [of _ ?tok]) simp
qed (use wf(2) in simp)

lemma render_atoms_simps [simp]:
  "render_atoms [] = []" "render_atoms (a # as) = render_atom a @ render_atoms as"
  by (simp_all add: render_atoms_def)

lemma tokens_render:
  assumes "plain t" "list_all wf_atom as" "shows_at pat p (render_atoms as)" "p + length (render_atoms as) = e"
    "e \<le> length pat" "pat_at pat e \<noteq> 42"
  shows "tmatch (tokens pat p e) t \<longleftrightarrow> t \<in> seq_lang as"
  using assms(1-4)
proof (induction as arbitrary: p t)
  case (Cons a as)
  let ?p = "p + length (render_atom a)"
  have IH: "tmatch (tokens pat ?p e) u \<longleftrightarrow> u \<in> seq_lang as" if "plain u" for u
    by (rule Cons.IH) (use Cons.prems that in auto)
  show ?case
  proof (cases "a = Any_Run")
    case True
    then have p: "pat_at pat p = 42" "p < e" "?p = p + 1" using Cons.prems by auto
    have "tmatch (tokens pat p e) t \<longleftrightarrow> (\<exists>k\<le>length t. tmatch (tokens pat (skip_stars pat (p + 1)) e) (drop k t))"
      using p by (subst tokens.simps) simp
    also have "\<dots> \<longleftrightarrow> (\<exists>k\<le>length t. tmatch (tokens pat (p + 1) e) (drop k t))"
      by (rule merge_stars) (use p(2) assms(6) in \<open>cases "p + 1 = e"; simp\<close>)
    finally have "tmatch (tokens pat p e) t \<longleftrightarrow> (\<exists>k\<le>length t. drop k t \<in> seq_lang as)"
      using IH plain_drop [OF Cons.prems(1)] p(3) by simp
    then show ?thesis unfolding True seq_lang_run .
  next
    case False
    have e: "?p \<le> e" using Cons.prems by simp
    show ?thesis
    proof (cases t)
      case Nil
      obtain tok where "tok \<noteq> Star" "tokens pat p e = tok # tokens pat ?p e"
        using tokens_atom [of a pat p e 97] Cons.prems e False assms(5) by (auto simp: tolower8_def tolower_def)
      then show ?thesis using Nil unfolding seq_lang_one [OF False] by simp
    next
      case (Cons x u)
      then have x: "tolower8 x = x" "plain u" using Cons.prems(1) by simp_all
      obtain tok where "tok \<noteq> Star" "tok_char tok x \<longleftrightarrow> [x] \<in> atom_lang a" "tokens pat p e = tok # tokens pat ?p e"
        using tokens_atom [of a pat p e x] Cons.prems e False assms(5) x(1) by auto
      then show ?thesis using IH [OF x(2)] Cons unfolding seq_lang_one [OF False] by simp
    qed
  qed
qed (simp add: tokens_empty)

subsection \<open>Where a written clause ends\<close>

lemma skip_class_to:
  assumes "split \<le> r" "r < e" "pat_at pat r = 93" "\<And>i. split \<le> i \<Longrightarrow> i < r \<Longrightarrow> pat_at pat i \<noteq> 93"
  shows "skip_class pat split e = r"
  using assms
proof (induction "r - split" arbitrary: split)
  case 0
  then show ?case by (subst skip_class.simps) simp
next
  case (Suc n)
  then have "skip_class pat (split + 1) e = r" by (intro Suc.hyps) auto
  moreover have "split < e" "pat_at pat split \<noteq> 93" using Suc by simp_all
  ultimately show ?case by (subst skip_class.simps) simp
qed

lemma find_comma_step:
  assumes "split < e" "pat_at pat split \<noteq> 91" "pat_at pat split \<noteq> 44 \<or> escaped"
  shows "find_comma pat escaped split e = find_comma pat (pat_at pat split = 92 \<and> \<not> escaped) (split + 1) e"
  using assms by (subst find_comma.simps) (auto simp: after_class_def Let_def)

lemma find_comma_atom:
  assumes wf: "wf_atom a" "no_comma a" and at: "shows_at pat p (render_atom a)"
    and e: "p + length (render_atom a) \<le> e"
  shows "find_comma pat False p e = find_comma pat False (p + length (render_atom a)) e"
proof (cases a)
  case (Plain c)
  then show ?thesis using assms find_comma_step [of p e pat False] by auto
next
  case (Escaped c)
  then have "find_comma pat False p e = find_comma pat True (p + 1) e" using assms find_comma_step [of p e pat False] by auto
  also have "\<dots> = find_comma pat False (p + 2) e" using Escaped assms find_comma_step [of "p + 1" e pat True] by auto
  finally show ?thesis using Escaped by simp
next
  case (Char_Class neg bracket items dash)
  let ?b = "(if neg then [94] else []) @ class_members bracket items dash"
  let ?r = "p + 1 + length ?b" and ?s = "if pat_at pat (p + 1) = 93 then p + 2 else p + 1"
  obtain c r where c: "class_members bracket items dash = c # r" "93 \<notin> set r" "c = 93 \<longleftrightarrow> bracket"
    using class_members_shape [of neg bracket items dash] wf(1) Char_Class by metis
  have sh: "pat_at pat p = 91" "shows_at pat (p + 1) ?b" "pat_at pat ?r = 93" using at Char_Class by (auto simp: add.assoc)
  have q: "p < e" "?s \<le> ?r" "?r < e" "?r + 1 = p + length (render_atom a)" using c(1) e Char_Class by auto
  have "skip_class pat ?s e = ?r"
  proof (rule skip_class_to [OF q(2,3) sh(3)])
    fix i assume i: "?s \<le> i" "i < ?r"
    then have l: "i - (p + 1) < length ?b" "p + 1 \<le> i" by (auto split: if_splits)
    then have b: "pat_at pat i = ?b ! (i - (p + 1))" using sh(2) by (auto simp: shows_at_def dest: spec [of _ "i - (p + 1)"])
    show "pat_at pat i \<noteq> 93"
    proof (cases "bracket")
      case True
      then have "?b = 93 # r" "?s = p + 2" using wf(2) Char_Class c sh(2) by auto
      then have "pat_at pat i = r ! (i - (p + 2))" "i - (p + 2) < length r" using b i l by (auto simp: nth_Cons')
      then show ?thesis using c(2) by (metis nth_mem)
    next
      case False
      then have "93 \<notin> set ?b" using c by auto
      then show ?thesis using b l(1) by (metis nth_mem)
    qed
  qed
  then have "after_class pat p e = ?r" using sh(1) by (simp add: after_class_def)
  then have "find_comma pat False p e = find_comma pat False (?r + 1) e"
    using q(1) sh(3) by (subst find_comma.simps) (simp add: Let_def)
  then show ?thesis unfolding q(4) .
qed (use assms find_comma_step [of p e pat False] in auto)

lemma find_comma_render:
  assumes "list_all (\<lambda>a. wf_atom a \<and> no_comma a) as" "shows_at pat p (render_atoms as)" "p + length (render_atoms as) = q"
    "q = e \<or> q < e \<and> pat_at pat q = 44"
  shows "find_comma pat False p e = q"
  using assms(1-3)
proof (induction as arbitrary: p)
  case Nil
  then show ?case using assms(4) by (subst find_comma.simps) (auto simp: after_class_def Let_def)
next
  case (Cons a as)
  have "find_comma pat False p e = find_comma pat False (p + length (render_atom a)) e"
    by (rule find_comma_atom) (use Cons.prems assms(4) in auto)
  also have "\<dots> = q" by (rule Cons.IH) (use Cons.prems in auto)
  finally show ?case .
qed

subsection \<open>Expressions\<close>

definition sp_result :: "subpattern \<Rightarrow> uwildmat_result" where
  "sp_result sp = (if sp_poison sp then UWILDMAT_POISON else if sp_reverse sp then UWILDMAT_FAIL else UWILDMAT_MATCH)"

lemma verdict_last:
  "verdict t pat allowpoison = (if pat = [] then (if t = [] then UWILDMAT_MATCH else UWILDMAT_FAIL)
     else (case map sp_result (filter (sp_matches pat t) (subpatterns pat allowpoison 0)) of
         [] \<Rightarrow> UWILDMAT_FAIL | rs \<Rightarrow> last rs))"
proof -
  have "(case rev xs of [] \<Rightarrow> UWILDMAT_FAIL | sp # _ \<Rightarrow> sp_result sp) =
      (case map sp_result xs of [] \<Rightarrow> UWILDMAT_FAIL | rs \<Rightarrow> last rs)" for xs
    by (cases xs rule: rev_cases) (auto split: list.splits simp: append_eq_Cons_conv)
  then show ?thesis unfolding verdict_def sp_result_def by simp
qed

lemma outcome_last:
  "outcome cls t = (case map (sign_result \<circ> fst) (filter (\<lambda>cl. t \<in> seq_lang (snd cl)) cls) of
     [] \<Rightarrow> UWILDMAT_FAIL | rs \<Rightarrow> last rs)"
  by (auto simp: outcome_def last_map split: list.splits)

text \<open>One clause, up to the comma or the end of the pattern.\<close>

lemma subpatterns_clause:
  assumes wf: "wf_clause allowpoison cl" and t: "plain t"
    and at: "shows_at pat p (render_sign (fst cl) @ render_atoms (snd cl))"
    and q: "p + length (render_sign (fst cl) @ render_atoms (snd cl)) = q"
    and e: "q = length pat \<or> q < length pat \<and> pat_at pat q = 44"
  shows "\<exists>sp. subpatterns pat allowpoison p = sp # subpatterns pat allowpoison (q + 1) \<and>
    sp_result sp = sign_result (fst cl) \<and> (sp_matches pat t sp \<longleftrightarrow> t \<in> seq_lang (snd cl))"
proof -
  obtain sg as where cl: "cl = (sg, as)" by (cases cl)
  let ?p = "p + length (render_sign sg)"
  have ok: "list_all (\<lambda>a. wf_atom a \<and> no_comma a) as" "list_all wf_atom as" using wf cl
    by (auto simp: wf_clause_def list_all_iff)
  have as: "shows_at pat ?p (render_atoms as)" "?p + length (render_atoms as) = q" using at q cl by auto
  have lt: "q \<le> length pat" using e by auto
  have comma: "find_comma pat False ?p (length pat) = q" by (rule find_comma_render [OF ok(1) as e])
  have not_star: "pat_at pat q \<noteq> 42" using e by (auto simp: pat_at_def)
  have lang: "tmatch (tokens pat ?p q) t \<longleftrightarrow> t \<in> seq_lang as" by (rule tokens_render [OF t ok(2) as lt not_star])
  have flags: "pat_at pat p = 33 \<longleftrightarrow> sg = Negative" "allowpoison \<and> pat_at pat p = 64 \<longleftrightarrow> sg = Poison"
  proof -
    have "pat_at pat p \<noteq> 33 \<and> \<not> (allowpoison \<and> pat_at pat p = 64)" if "sg = Positive"
    proof (cases as)
      case Nil
      then show ?thesis using that as(2) e by (auto simp: pat_at_def)
    next
      case (Cons a as')
      then show ?thesis using that as(1) wf cl by (cases a) (auto simp: wf_clause_def)
    qed
    then show "pat_at pat p = 33 \<longleftrightarrow> sg = Negative" "allowpoison \<and> pat_at pat p = 64 \<longleftrightarrow> sg = Poison"
      using wf at cl by (cases sg; auto simp: wf_clause_def)+
  qed
  have len: "length (render_sign sg) = (if sg = Negative \<or> sg = Poison then 1 else 0)" by (cases sg) auto
  let ?sp = "\<lparr>sp_reverse = (sg = Negative \<or> sg = Poison), sp_poison = (sg = Poison), sp_start = ?p, sp_end = q\<rparr>"
  have "p \<le> length pat" using as(2) lt by simp
  then have "subpatterns pat allowpoison p = ?sp # subpatterns pat allowpoison (q + 1)"
    using comma len unfolding subpatterns.simps [of pat allowpoison p] Let_def flags by (auto split: if_splits)
  moreover have "sp_result ?sp = sign_result sg" by (cases sg) (simp_all add: sp_result_def)
  ultimately show ?thesis using lang cl by (intro exI [of _ ?sp]) (simp add: sp_matches_def)
qed

lemma subpatterns_render:
  assumes "list_all (wf_clause allowpoison) cls" "cls \<noteq> []" "plain t"
    "shows_at pat p (render_expr cls)" "p + length (render_expr cls) = length pat"
  shows "map sp_result (filter (sp_matches pat t) (subpatterns pat allowpoison p)) =
    map (sign_result \<circ> fst) (filter (\<lambda>cl. t \<in> seq_lang (snd cl)) cls)"
  using assms
proof (induction cls arbitrary: p rule: render_expr.induct)
  case (2 cl)
  have "subpatterns pat allowpoison (length pat + 1) = []" by (subst subpatterns.simps) simp
  then show ?case using subpatterns_clause [of allowpoison cl t pat p "length pat"] 2 by auto
next
  case (3 cl cl' cls)
  let ?q = "p + length (render_sign (fst cl) @ render_atoms (snd cl))"
  have at: "shows_at pat p (render_sign (fst cl) @ render_atoms (snd cl))" "pat_at pat ?q = 44"
    "shows_at pat (?q + 1) (render_expr (cl' # cls))" "?q + 1 + length (render_expr (cl' # cls)) = length pat"
    using 3 by (auto simp: add.assoc)
  then have "?q < length pat" by linarith
  then obtain sp where sp: "subpatterns pat allowpoison p = sp # subpatterns pat allowpoison (?q + 1)"
      "sp_result sp = sign_result (fst cl)" "sp_matches pat t sp \<longleftrightarrow> t \<in> seq_lang (snd cl)"
    using subpatterns_clause [of allowpoison cl t pat p ?q] at 3 by auto
  have "map sp_result (filter (sp_matches pat t) (subpatterns pat allowpoison (?q + 1))) =
      map (sign_result \<circ> fst) (filter (\<lambda>cl. t \<in> seq_lang (snd cl)) (cl' # cls))"
    by (rule "3.IH") (use 3 at in auto)
  then show ?case using sp by simp
qed simp

lemma render_no_NUL: "wf_atom a \<Longrightarrow> 0 \<notin> set (render_atom a)"
proof (induction a)
  case (Char_Class neg bracket items dash)
  have "0 \<notin> set (render_item i)" if "i \<in> set items" for i
    using Char_Class that by (cases i) (auto simp: list_all_iff)
  then show ?case by (auto simp: class_members_def)
qed auto

lemma render_atoms_no_NUL: "list_all wf_atom as \<Longrightarrow> 0 \<notin> set (render_atoms as)"
  using render_no_NUL by (induction as) auto

lemma render_expr_no_NUL: "list_all (wf_clause allowpoison) cls \<Longrightarrow> 0 \<notin> set (render_expr cls)"
proof (induction cls rule: render_expr.induct)
  case (2 cl)
  then show ?case using render_atoms_no_NUL [of "snd cl"] by (cases "fst cl") (auto simp: wf_clause_def list_all_iff)
next
  case (3 cl cl' cls)
  then show ?case using render_atoms_no_NUL [of "snd cl"] by (cases "fst cl") (auto simp: wf_clause_def list_all_iff)
qed simp

lemma render_atom_not_Nil: "render_atom a \<noteq> []"
  by (cases a) auto

lemma verdict_render:
  assumes "list_all (wf_clause allowpoison) cls" "cls \<noteq> []" "plain t"
  shows "verdict t (render_expr cls) allowpoison = outcome cls t"
proof (cases "render_expr cls = []")
  case True
  then obtain sg as where cl: "cls = [(sg, as)]" "render_sign sg = []" "render_atoms as = []"
    using assms(2) by (cases cls rule: render_expr.cases) auto
  then have "sg = Positive" "as = []" using render_atom_not_Nil by (cases sg; cases as; auto)+
  then show ?thesis using True cl(1) by (simp add: verdict_def outcome_def)
next
  case False
  have "shows_at (render_expr cls) 0 (render_expr cls)" by (simp add: shows_at_def pat_at_def)
  then show ?thesis using subpatterns_render [OF assms, of "render_expr cls" 0] False
    unfolding verdict_last outcome_last by simp
qed

subsection \<open>Properties\<close>

text \<open>C23: The matcher decides the meaning of the pattern. For a text of 7-bit characters without upper case
  letters (a test name) and an expression of clauses, written down with commas between them: the answer is that of
  the last clause whose language holds the text - match, no match for a clause with an exclamation mark, poison
  for one with an at sign when poison is allowed - and no match when there is none. The language of a clause is
  the concatenation of those of its atoms: a plain or escaped character, any one character, any run of
  characters, a class of characters, negated or not. A single clause is decided the same way by
  \<open>uwildmat_simple\<close>, where a comma is no separator. What the written clauses may not hold is
  in \<open>wf_clause\<close>: the special characters unescaped, a sign as the first character of a clause without one, an
  escaped opening bracket (the comma search takes it for a class), a negated class that begins with the closing
  bracket, and class members that are not 7-bit.\<close>

theorem uwildmat_decides_language:
  assumes "plain t"
  shows "(cls \<noteq> [] \<and> list_all (wf_clause False) cls \<longrightarrow>
      (uwildmat t (render_expr cls) \<longleftrightarrow> outcome cls t = UWILDMAT_MATCH)) \<and>
    (cls \<noteq> [] \<and> list_all (wf_clause True) cls \<longrightarrow> uwildmat_poison t (render_expr cls) = outcome cls t) \<and>
    (list_all wf_atom as \<longrightarrow> (uwildmat_simple t (render_atoms as) \<longleftrightarrow> t \<in> seq_lang as))"
proof -
  have "uwildmat_simple t (render_atoms as) \<longleftrightarrow> t \<in> seq_lang as" if "list_all wf_atom as"
  proof -
    have "shows_at (render_atoms as) 0 (render_atoms as)" by (simp add: shows_at_def pat_at_def)
    then show ?thesis
      using uwildmat_verdict(3) [OF assms render_atoms_no_NUL [OF that]] tokens_render [OF assms that, of "render_atoms as" 0]
      by (simp add: pat_at_def)
  qed
  then show ?thesis
    using uwildmat_verdict [OF assms render_expr_no_NUL] verdict_render [OF _ _ assms] by auto
qed

text \<open>The expression \<open>a*,!ab[0-9]\<close> takes \<open>abc\<close> and leaves out \<open>ab7\<close>.\<close>

definition example_expr :: "clause list" where
  "example_expr = [(Positive, [Plain 97, Any_Run]), (Negative, [Plain 97, Plain 98, Char_Class False False [Range 48 57] False])]"

theorem uwildmat_decides_language_witness:
  "render_expr example_expr = [97, 42, 44, 33, 97, 98, 91, 48, 45, 57, 93] \<and>
   uwildmat [97, 98, 99] (render_expr example_expr) \<and> \<not> uwildmat [97, 98, 55] (render_expr example_expr)"
proof -
  have pl: "plain [97, 98, 99]" "plain [97, 98, 55]" by (simp_all add: tolower8_def tolower_def)
  have wf: "example_expr \<noteq> [] \<and> list_all (wf_clause False) example_expr"
    by (simp add: example_expr_def wf_clause_def class_members_def)
  have r: "render_expr example_expr = [97, 42, 44, 33, 97, 98, 91, 48, 45, 57, 93]"
    by (simp add: example_expr_def class_members_def)
  have "outcome example_expr [97, 98, 99] = UWILDMAT_MATCH" "outcome example_expr [97, 98, 55] \<noteq> UWILDMAT_MATCH"
    by (simp_all add: outcome_def example_expr_def seq_lang_run seq_lang_one del: seq_lang.simps(2)) 
  then show ?thesis
    using r uwildmat_decides_language [OF pl(1), of example_expr "[]"] uwildmat_decides_language [OF pl(2), of example_expr "[]"] wf
    by blast
qed

end
