(* ===== verification/Intel_Aux_Pgtable.thy ===== *)
theory Intel_Aux_Pgtable
  imports Igt_Macros
begin

unbundle bit_operations_syntax

text \<open>
  The AUX page table of \<open>lib/intel_aux_pgtable.c\<close>: the multi-level table that tells the GPU where the
  compression data of a surface is. The table lives in one buffer object whose mapping is the map
  \<open>pgt_mem\<close> from byte offsets to 64-bit entries; an access outside the buffer, and a failed
  \<open>igt_assert\<close>, is \<open>None\<close>. The address the buffer object gets is the parameter \<open>place\<close>, and the
  relocations the code records are kept in \<open>pgt_relocs\<close>. Table offsets and counts are C \<open>int\<close>; they
  are natural numbers here, the properties bound the size of the table below 2 GiB.
\<close>

record aux_level_desc =
  idx_shift :: nat
  idx_bits :: nat
  entry_ptr_shift :: nat
  table_size :: nat

record aux_level_info =
  lv_desc :: aux_level_desc
  table_count :: nat
  alloc_base :: nat
  alloc_ptr :: nat

record aux_surface =
  surf_offset :: u32
  surf_stride :: u32
  surf_size :: u64
  ccs_offset :: u32
  ccs_stride :: u32

record aux_buf =
  buf_addr :: u64
  buf_size :: u64
  buf_tiling :: nat
  buf_bpp :: nat
  buf_yuv_semiplanar_bpp :: nat
  format_is_yuv :: bool
  format_is_yuv_semiplanar :: bool
  buf_compressed :: bool
  surface0 :: aux_surface
  surface1 :: aux_surface

record pgtable =
  level_info :: "aux_level_info list"
  pgt_size :: nat
  max_align :: nat
  pgt_addr :: u64
  pgt_mem :: "nat \<Rightarrow> u64"
  pgt_relocs :: "(u64 \<times> u32) list"

definition GFX_ADDRESS_BITS :: nat where "GFX_ADDRESS_BITS = 48"

definition BITMASK :: "nat \<Rightarrow> nat \<Rightarrow> u64" where
  "BITMASK e s = push_bit s (NOT 0) AND drop_bit (64 - 1 - e) (NOT 0)"

definition ALIGN_DOWN :: "u64 \<Rightarrow> u64 \<Rightarrow> u64" where
  "ALIGN_DOWN x a = ALIGN (x - (a - 1)) a"

text \<open>\<open>ALIGN\<close> at type \<open>int\<close>.\<close>

definition ALIGN_int :: "nat \<Rightarrow> nat \<Rightarrow> nat" where
  "ALIGN_int v a = nat ((int v + (int a - 1)) AND NOT (int a - 1))"

definition num_surfaces :: "aux_buf \<Rightarrow> nat" where
  "num_surfaces buf = (if format_is_yuv_semiplanar buf then 2 else 1)"

definition surface :: "aux_buf \<Rightarrow> nat \<Rightarrow> aux_surface" where
  "surface buf i = (if i = 0 then surface0 buf else surface1 buf)"

definition last_buf_surface_end :: "aux_buf \<Rightarrow> u64" where
  "last_buf_surface_end buf =
    fold (\<lambda>i end_offset.
        let surface_end = ucast (surf_offset (surface buf i)) + surf_size (surface buf i) in
        if end_offset < surface_end then surface_end else end_offset)
      [0..<num_surfaces buf] 0"

fun table_count_loop :: "nat \<Rightarrow> aux_buf option \<Rightarrow> u64 \<Rightarrow> nat \<Rightarrow> aux_buf list \<Rightarrow> nat option" where
  "table_count_loop address_bits prev end' count [] = Some count"
| "table_count_loop address_bits prev end' count (buf # bufs) = do {
     igt_assert (case prev of None \<Rightarrow> True | Some b \<Rightarrow> buf_addr b + buf_size b \<le> buf_addr buf);
     let start = max (ALIGN_DOWN (buf_addr buf) (push_bit address_bits 1)) end';
     let end1 = ALIGN (buf_addr buf + last_buf_surface_end buf) (push_bit address_bits 1);
     igt_assert (start \<le> end1);
     table_count_loop address_bits (Some buf) end1
       (count + unat (drop_bit address_bits (end1 - start))) bufs }"

definition pgt_table_count :: "nat \<Rightarrow> aux_buf list \<Rightarrow> nat option" where
  "pgt_table_count address_bits bufs = table_count_loop address_bits None 0 0 bufs"

text \<open>From the top level down; the counter is the number of levels still to do.\<close>

fun calc_size_loop :: "aux_buf list \<Rightarrow> nat \<Rightarrow> nat \<Rightarrow> aux_level_info list \<Rightarrow> (aux_level_info list \<times> nat) option" where
  "calc_size_loop bufs 0 sz lis = Some (lis, sz)"
| "calc_size_loop bufs (Suc level) sz lis = do {
     let d = lv_desc (lis ! level);
     let base = ALIGN_int sz (table_size d);
     count \<leftarrow> pgt_table_count (idx_shift d + idx_bits d) bufs;
     calc_size_loop bufs level (base + count * table_size d)
       (lis[level := (lis ! level)\<lparr>alloc_base := base, alloc_ptr := base, table_count := count\<rparr>]) }"

definition pgt_calc_size :: "pgtable \<Rightarrow> aux_buf list \<Rightarrow> pgtable option" where
  "pgt_calc_size pgt bufs = do {
     (lis, sz) \<leftarrow> calc_size_loop bufs (length (level_info pgt)) 0 (level_info pgt);
     Some (pgt\<lparr>level_info := lis, pgt_size := sz\<rparr>) }"

definition pgt_alloc_table :: "pgtable \<Rightarrow> nat \<Rightarrow> (pgtable \<times> nat) option" where
  "pgt_alloc_table pgt level = do {
     let li = level_info pgt ! level;
     let p = alloc_ptr li + table_size (lv_desc li);
     igt_assert (p \<le> alloc_base li + table_count li * table_size (lv_desc li));
     Some (pgt\<lparr>level_info := (level_info pgt)[level := li\<lparr>alloc_ptr := p\<rparr>]\<rparr>, alloc_ptr li) }"

definition pgt_entry_index :: "pgtable \<Rightarrow> nat \<Rightarrow> u64 \<Rightarrow> nat" where
  "pgt_entry_index pgt level address =
    (let ld = lv_desc (level_info pgt ! level);
         msk = BITMASK (idx_shift ld + idx_bits ld - 1) (idx_shift ld) in
     unat (drop_bit (idx_shift ld) (address AND msk)))"

definition ptr_mask :: "pgtable \<Rightarrow> nat \<Rightarrow> u64" where
  "ptr_mask pgt level = BITMASK (GFX_ADDRESS_BITS - 1) (entry_ptr_shift (lv_desc (level_info pgt ! level)))"

text \<open>An entry of a table in the mapping of the buffer object.\<close>

definition entry_at :: "pgtable \<Rightarrow> nat \<Rightarrow> nat \<Rightarrow> nat option" where
  "entry_at pgt table idx = (if table + 8 * idx + 8 \<le> pgt_size pgt then Some (table + 8 * idx) else None)"

definition pgt_get_child_table :: "pgtable \<Rightarrow> nat \<Rightarrow> nat \<Rightarrow> u64 \<Rightarrow> u64 \<Rightarrow> (pgtable \<times> nat) option" where
  "pgt_get_child_table pgt parent_table level address flags = do {
     p \<leftarrow> entry_at pgt parent_table (pgt_entry_index pgt level address);
     if pgt_mem pgt p = 0 then do {
       (pgt1, child_table) \<leftarrow> pgt_alloc_table pgt (level - 1);
       igt_assert ((of_nat child_table + pgt_addr pgt) AND NOT (ptr_mask pgt level) = 0);
       let pte = of_nat child_table OR flags;
       igt_assert (pte \<le> 0x7FFFFFFF);
       Some (pgt1\<lparr>pgt_mem := (pgt_mem pgt1)(p := pgt_addr pgt + pte),
              pgt_relocs := pgt_relocs pgt1 @ [(pte, of_nat p)]\<rparr>, child_table) }
     else Some (pgt, unat ((pgt_mem pgt p AND ptr_mask pgt level) - pgt_addr pgt)) }"

definition pgt_set_l1_entry :: "pgtable \<Rightarrow> nat \<Rightarrow> u64 \<Rightarrow> u64 \<Rightarrow> u64 \<Rightarrow> pgtable option" where
  "pgt_set_l1_entry pgt l1_table address ptr flags = do {
     p \<leftarrow> entry_at pgt l1_table (pgt_entry_index pgt 0 address);
     igt_assert (ptr AND NOT (ptr_mask pgt 0) = 0);
     Some (pgt\<lparr>pgt_mem := (pgt_mem pgt)(p := ptr OR flags)\<rparr>) }"

subsection \<open>Entry flags\<close>

definition bpp_to_depth_val :: "nat \<Rightarrow> u64 option" where
  "bpp_to_depth_val bpp = (if bpp = 8 then Some 4 else if bpp = 10 then Some 1 else if bpp = 12 then Some 2
     else if bpp = 16 then Some 0 else if bpp = 32 then Some 5 else if bpp = 64 then Some 6 else None)"

definition DEPTH_VAL_RESERVED :: u64 where "DEPTH_VAL_RESERVED = 3"

text \<open>The tiling modes: \<open>I915_TILING_Y\<close> and the three the library adds.\<close>

definition TILING_Y :: nat where "TILING_Y = 2"
definition TILING_4 :: nat where "TILING_4 = 3"
definition TILING_Yf :: nat where "TILING_Yf = 4"
definition TILING_Ys :: nat where "TILING_Ys = 5"

text \<open>Format and depth of an entry.\<close>

definition aux_format :: "aux_buf \<Rightarrow> (u64 \<times> u64) option" where
  "aux_format buf =
    (if format_is_yuv_semiplanar buf then do {
       _ \<leftarrow> bpp_to_depth_val (buf_bpp buf);
       (if buf_yuv_semiplanar_bpp buf = 8 then Some (0x0F, DEPTH_VAL_RESERVED)
        else if buf_yuv_semiplanar_bpp buf = 10 then do { d \<leftarrow> bpp_to_depth_val 10; Some (0x07, d) }
        else if buf_yuv_semiplanar_bpp buf = 12 then do { d \<leftarrow> bpp_to_depth_val 12; Some (0x08, d) }
        else if buf_yuv_semiplanar_bpp buf = 16 then do { d \<leftarrow> bpp_to_depth_val 16; Some (0x08, d) }
        else None) }
     else if format_is_yuv buf then
       (if buf_bpp buf = 16 then Some (0x03, DEPTH_VAL_RESERVED)
        else if buf_bpp buf = 32 then Some (0x09, DEPTH_VAL_RESERVED) else None)
     else if buf_bpp buf = 32 then do { d \<leftarrow> bpp_to_depth_val 32; Some (0x0A, d) } else None)"

text \<open>The bit field of the union: valid in bit 0, the tile mode in 52 and 53, the depth from 54, the
  chroma bit 57 and the format from 58 on; the address bits are left 0.\<close>

definition pgt_get_l1_flags :: "aux_buf \<Rightarrow> nat \<Rightarrow> u64 option" where
  "pgt_get_l1_flags buf surface_idx = do {
     igt_assert (buf_tiling buf \<in> {TILING_Y, TILING_Yf, TILING_Ys, TILING_4});
     (fmt, depth) \<leftarrow> aux_format buf;
     let tile_mode = (if buf_tiling buf = TILING_Y then 1 else if buf_tiling buf = TILING_4 then 2 else 0);
     let ycr = (if 0 < surface_idx then 1 else 0);
     Some (1 OR push_bit 52 tile_mode OR push_bit 54 depth OR push_bit 57 ycr OR push_bit 58 fmt) }"

definition pgt_get_lx_flags :: u64 where "pgt_get_lx_flags = 1"

subsection \<open>Filling the table\<close>

text \<open>The walk from the top level to the lowest table for an address.\<close>

fun child_loop :: "pgtable \<Rightarrow> nat \<Rightarrow> nat \<Rightarrow> u64 \<Rightarrow> (pgtable \<times> nat) option" where
  "child_loop pgt table 0 address = Some (pgt, table)"
| "child_loop pgt table (Suc level) address = do {
     (pgt1, t) \<leftarrow> pgt_get_child_table pgt table (Suc level) address pgt_get_lx_flags;
     child_loop pgt1 t level address }"

partial_function (option) surface_loop ::
    "u64 \<Rightarrow> u64 \<Rightarrow> u64 \<Rightarrow> u64 \<Rightarrow> u64 \<Rightarrow> u64 \<Rightarrow> nat \<Rightarrow> pgtable \<Rightarrow> pgtable option" where
  "surface_loop main_block ccs_block l1_flags surface_end surface_addr aux_addr top_table pgt =
    (if surface_addr < surface_end then do {
       (pgt1, table) \<leftarrow> child_loop pgt top_table (length (level_info pgt) - 1) surface_addr;
       pgt2 \<leftarrow> pgt_set_l1_entry pgt1 table surface_addr aux_addr l1_flags;
       surface_loop main_block ccs_block l1_flags surface_end (surface_addr + main_block)
         (aux_addr + ccs_block) top_table pgt2 }
     else Some pgt)"

definition pgt_populate_entries_for_buf :: "pgtable \<Rightarrow> aux_buf \<Rightarrow> nat \<Rightarrow> nat \<Rightarrow> pgtable option" where
  "pgt_populate_entries_for_buf pgt buf top_table surface_idx = do {
     let s = surface buf surface_idx;
     let surface_addr = buf_addr buf + ucast (surf_offset s);
     let aux_addr = buf_addr buf + ucast (ccs_offset s);
     let ccs_block = push_bit (entry_ptr_shift (lv_desc (level_info pgt ! 0))) 1;
     let main_block = ccs_block * 8 div 2 * 64;
     l1_flags \<leftarrow> pgt_get_l1_flags buf surface_idx;
     igt_assert (surf_stride s mod 512 = 0);
     igt_assert (ccs_stride s = surf_stride s div 512 * 64);
     surface_loop main_block ccs_block l1_flags (surface_addr + surf_size s) surface_addr aux_addr top_table pgt }"

fun populate_loop :: "pgtable \<Rightarrow> nat \<Rightarrow> aux_buf list \<Rightarrow> pgtable option" where
  "populate_loop pgt top_table [] = Some pgt"
| "populate_loop pgt top_table (buf # bufs) = do {
     igt_assert (surf_offset (surface buf 0) = 0);
     pgt1 \<leftarrow> pgt_populate_entries_for_buf pgt buf top_table 0;
     pgt2 \<leftarrow> (if format_is_yuv_semiplanar buf then pgt_populate_entries_for_buf pgt1 buf top_table 1 else Some pgt1);
     populate_loop pgt2 top_table bufs }"

definition pgt_populate_entries :: "pgtable \<Rightarrow> aux_buf list \<Rightarrow> pgtable option" where
  "pgt_populate_entries pgt bufs = do {
     (pgt1, top_table) \<leftarrow> pgt_alloc_table pgt (length (level_info pgt) - 1);
     igt_assert (top_table = 0);
     populate_loop pgt1 top_table bufs }"

definition pgt_create :: "aux_level_desc list \<Rightarrow> aux_buf list \<Rightarrow> pgtable option" where
  "pgt_create level_descs bufs =
    pgt_calc_size \<lparr>level_info = map (\<lambda>d. \<lparr>lv_desc = d, table_count = 0, alloc_base = 0, alloc_ptr = 0\<rparr>) level_descs,
      pgt_size = 0, max_align = fold (\<lambda>d m. if m < table_size d then table_size d else m) level_descs 0,
      pgt_addr = 0, pgt_mem = \<lambda>_. 0, pgt_relocs = []\<rparr> bufs"

definition level_desc_table_tgl :: "aux_level_desc list" where
  "level_desc_table_tgl =
    [\<lparr>idx_shift = 16, idx_bits = 8, entry_ptr_shift = 8, table_size = 8 * 1024\<rparr>,
     \<lparr>idx_shift = 24, idx_bits = 12, entry_ptr_shift = 13, table_size = 32 * 1024\<rparr>,
     \<lparr>idx_shift = 36, idx_bits = 12, entry_ptr_shift = 15, table_size = 32 * 1024\<rparr>]"

definition level_desc_table_mtl :: "aux_level_desc list" where
  "level_desc_table_mtl =
    [\<lparr>idx_shift = 20, idx_bits = 4, entry_ptr_shift = 12, table_size = 8 * 1024\<rparr>,
     \<lparr>idx_shift = 24, idx_bits = 12, entry_ptr_shift = 11, table_size = 32 * 1024\<rparr>,
     \<lparr>idx_shift = 36, idx_bits = 12, entry_ptr_shift = 15, table_size = 32 * 1024\<rparr>]"

text \<open>The buffer object of the table gets the address \<open>place size alignment\<close> and is filled with zeros by
  the kernel.\<close>

definition intel_aux_pgtable_create :: "(nat \<Rightarrow> nat \<Rightarrow> u64) \<Rightarrow> bool \<Rightarrow> aux_buf list \<Rightarrow> pgtable option" where
  "intel_aux_pgtable_create place is_meteorlake bufs = do {
     igt_assert (bufs \<noteq> []);
     pgt \<leftarrow> pgt_create (if is_meteorlake then level_desc_table_mtl else level_desc_table_tgl) bufs;
     pgt_populate_entries (pgt\<lparr>pgt_addr := place (pgt_size pgt) (max_align pgt), pgt_mem := \<lambda>_. 0\<rparr>) bufs }"

text \<open>The buffers are put in the order of their addresses.\<close>

fun aux_pgtable_reserve_buf_slot :: "aux_buf list \<Rightarrow> aux_buf \<Rightarrow> aux_buf list" where
  "aux_pgtable_reserve_buf_slot [] new_buf = [new_buf]"
| "aux_pgtable_reserve_buf_slot (b # bufs) new_buf =
    (if buf_addr new_buf < buf_addr b then new_buf # b # bufs
     else b # aux_pgtable_reserve_buf_slot bufs new_buf)"

text \<open>The buffers of a batch: adding one gives it the address \<open>add_buf buf write\<close>. There is nothing
  to do without a compressed buffer; otherwise the compressed ones get a table.\<close>

definition gen12_aux_pgtable_init ::
    "(aux_buf \<Rightarrow> bool \<Rightarrow> u64) \<Rightarrow> (nat \<Rightarrow> nat \<Rightarrow> u64) \<Rightarrow> bool \<Rightarrow> bool \<Rightarrow> aux_buf option \<Rightarrow> aux_buf option \<Rightarrow>
      (aux_buf list \<times> pgtable) option option" where
  "gen12_aux_pgtable_init add_buf place enforce_relocs is_meteorlake src_buf dst_buf = do {
     igt_assert (\<not> enforce_relocs);
     let bufs = (case src_buf of None \<Rightarrow> [] | Some b \<Rightarrow> [(b, False)]) @
       (case dst_buf of None \<Rightarrow> [] | Some b \<Rightarrow> [(b, True)]);
     if \<not> list_ex (\<lambda>(b, w). buf_compressed b) bufs then Some None
     else do {
       let added = map (\<lambda>(b, w). b\<lparr>buf_addr := add_buf b w\<rparr>) bufs;
       igt_assert (list_all (\<lambda>b. buf_addr b \<noteq> - 1) added);
       let reserved_bufs = fold (\<lambda>b r. aux_pgtable_reserve_buf_slot r b) added [];
       let used = filter buf_compressed reserved_bufs;
       pgt \<leftarrow> intel_aux_pgtable_create place is_meteorlake used;
       Some (Some (used, pgt)) } }"

subsection \<open>Masks and indices\<close>

lemma bit_BITMASK: "e < 64 \<Longrightarrow> bit (BITMASK e s) n \<longleftrightarrow> s \<le> n \<and> n \<le> e"
  by (auto simp: BITMASK_def bit_simps)

text \<open>The bits \<open>s\<close> to \<open>47\<close> of an entry, read in nat.\<close>

lemma unat_ptr_field: "unat (x AND BITMASK 47 s) = unat x mod 2 ^ 48 div 2 ^ s * 2 ^ s"
proof -
  have "x AND BITMASK 47 s = push_bit s (drop_bit s (take_bit 48 x))"
    by (rule bit_word_eqI) (auto simp: bit_simps bit_BITMASK)
  moreover have "unat (push_bit s (drop_bit s (take_bit 48 x))) = push_bit s (drop_bit s (take_bit 48 (unat x)))"
  proof -
    have "push_bit s (drop_bit s (take_bit 48 (unat x))) = unat x mod 2 ^ 48 div 2 ^ s * 2 ^ s"
      by (simp only: push_bit_eq_mult drop_bit_eq_div take_bit_eq_mod)
    also have "\<dots> \<le> unat x mod 2 ^ 48" by (rule div_times_less_eq_dividend)
    also have "\<dots> < 2 ^ 64" by (rule order_less_trans [of _ "2 ^ 48"]) simp_all
    finally show ?thesis
      by (simp add: unsigned_push_bit_eq unsigned_drop_bit_eq unsigned_take_bit_eq take_bit_nat_eq_self)
  qed
  ultimately show ?thesis by (simp only: push_bit_eq_mult drop_bit_eq_div take_bit_eq_mod)
qed

lemma unat_index_field:
  assumes "s + k \<le> 64" "0 < k"
  shows "unat (drop_bit s (x AND BITMASK (s + k - 1) s)) = unat x div 2 ^ s mod 2 ^ k"
proof -
  have "drop_bit s (x AND BITMASK (s + k - 1) s) = take_bit k (drop_bit s x)"
    using assms by (intro bit_word_eqI) (auto simp: bit_simps bit_BITMASK)
  moreover have "unat (take_bit k (drop_bit s x)) = take_bit k (drop_bit s (unat x))"
  proof -
    have "take_bit 64 (unat x) = unat x" by (rule take_bit_nat_eq_self) (use unat_u64_lt [of x] in simp)
    then show ?thesis by (simp only: unsigned_take_bit_eq unsigned_drop_bit_eq len_num1 len_bit0) simp
  qed
  ultimately show ?thesis by (simp only: drop_bit_eq_div take_bit_eq_mod)
qed

lemma low_bits_clear:
  assumes "unat x < 2 ^ 48" "2 ^ s dvd unat x"
  shows "x AND NOT (BITMASK 47 s) = 0" "take_bit 48 x = x" "take_bit s x = 0"
proof -
  show t: "take_bit 48 x = x"
    using assms(1) by (simp add: word_unat_eq_iff unsigned_take_bit_eq take_bit_nat_eq_self)
  have "take_bit s (unat x) = 0" using assms(2) by (simp add: take_bit_eq_mod)
  then show l: "take_bit s x = 0" by (simp add: word_unat_eq_iff unsigned_take_bit_eq)
  show "x AND NOT (BITMASK 47 s) = 0"
  proof (rule bit_word_eqI)
    fix n
    have "bit x n \<Longrightarrow> n < 48" using arg_cong [OF t, of "\<lambda>y. bit y n"] by (simp add: bit_simps)
    moreover have "bit x n \<Longrightarrow> \<not> n < s" using arg_cong [OF l, of "\<lambda>y. bit y n"] by (simp add: bit_simps)
    ultimately show "bit (x AND NOT (BITMASK 47 s)) n = bit 0 n" by (auto simp: bit_simps bit_BITMASK)
  qed
qed

lemma entry_fields:
  assumes "unat y < 2 ^ 48" "2 ^ s dvd unat y" "0 < s" "take_bit 48 f = 1"
  shows "(y OR f) AND BITMASK 47 s = y" "odd (unat (y OR f))" "y OR f \<noteq> 0"
    "(y OR f) AND NOT (BITMASK 47 s) = f"
proof -
  note y = low_bits_clear [OF assms(1,2)]
  have f: "bit f n \<longleftrightarrow> n = 0" if "n < 48" for n
    using arg_cong [OF assms(4), of "\<lambda>z. bit z n"] that by (simp add: bit_simps bit_1_iff)
  have b: "n \<le> 47 \<and> s \<le> n" if "bit y n" for n
    using arg_cong [OF y(2), of "\<lambda>z. bit z n"] arg_cong [OF y(3), of "\<lambda>z. bit z n"] that
    by (auto simp: bit_simps)
  show "(y OR f) AND BITMASK 47 s = y"
    using f b assms(3) by (intro bit_word_eqI) (auto simp: bit_simps bit_BITMASK less_Suc_eq_le)
  show o: "odd (unat (y OR f))"
  proof -
    have "bit (unat (y OR f)) 0"
      unfolding bit_unsigned_iff bit_or_iff using f [of 0] by simp
    then show ?thesis unfolding bit_0 .
  qed
  show "y OR f \<noteq> 0"
  proof
    assume "y OR f = 0"
    then have "unat (y OR f) = 0" by (simp only: unsigned_0)
    then show False using o by simp
  qed
  show "(y OR f) AND NOT (BITMASK 47 s) = f"
  proof (rule bit_word_eqI)
    fix n assume "n < LENGTH(64)"
    then show "bit ((y OR f) AND NOT (BITMASK 47 s)) n = bit f n"
      using f [of n] b [of n] assms(3) by (cases "n < 48") (auto simp: bit_simps bit_BITMASK)
  qed
qed

subsection \<open>The number of tables\<close>

text \<open>The tags, at \<open>b\<close> address bits, of the aligned areas the surfaces of the buffers touch.\<close>

definition surface_end :: "aux_buf \<Rightarrow> nat" where
  "surface_end buf = unat (last_buf_surface_end buf)"

definition buf_tags :: "nat \<Rightarrow> aux_buf \<Rightarrow> nat set" where
  "buf_tags b buf =
    {unat (buf_addr buf) div 2 ^ b ..< (unat (buf_addr buf) + surface_end buf + (2 ^ b - 1)) div 2 ^ b}"

definition tags :: "nat \<Rightarrow> aux_buf list \<Rightarrow> nat set" where
  "tags b bufs = (\<Union>buf\<in>set bufs. buf_tags b buf)"

lemma tags_simps [simp]: "tags b [] = {}" "tags b (buf # bufs) = buf_tags b buf \<union> tags b bufs"
  by (simp_all add: tags_def)

lemma finite_tags [simp]: "finite (buf_tags b buf)" "finite (tags b bufs)"
  by (simp_all add: tags_def buf_tags_def)

text \<open>The surfaces lie in the buffer, and the buffer in the address space.\<close>

definition buf_fits :: "aux_buf \<Rightarrow> bool" where
  "buf_fits buf \<longleftrightarrow> unat (buf_addr buf) + unat (buf_size buf) \<le> 2 ^ 48 \<and>
    (\<forall>i<num_surfaces buf. unat (surf_offset (surface buf i)) + unat (surf_size (surface buf i)) \<le> unat (buf_size buf))"

definition bufs_apart :: "aux_buf \<Rightarrow> aux_buf \<Rightarrow> bool" where
  "bufs_apart a b \<longleftrightarrow> unat (buf_addr a) + unat (buf_size a) \<le> unat (buf_addr b)"

definition surf_end :: "aux_buf \<Rightarrow> nat \<Rightarrow> nat" where
  "surf_end buf i = unat (surf_offset (surface buf i)) + unat (surf_size (surface buf i))"

lemma surface_end_bounds:
  assumes "buf_fits buf"
  shows "surface_end buf \<le> unat (buf_size buf)" "\<And>i. i < num_surfaces buf \<Longrightarrow> surf_end buf i \<le> surface_end buf"
proof -
  have s: "unat (ucast (surf_offset s) + surf_size s :: u64) = unat (surf_offset s) + unat (surf_size s)"
    if "unat (surf_offset s) + unat (surf_size s) \<le> 2 ^ 48" for s
  proof -
    have "unat (ucast (surf_offset s) :: u64) = unat (surf_offset s)"       using unat_u32_lt [of "surf_offset s"] by (simp add: unsigned_ucast_eq take_bit_nat_eq_self)
    then show ?thesis using that by (subst unat_add_no_wrap) simp_all
  qed
  have le: "surf_end buf i \<le> 2 ^ 48" "surf_end buf i \<le> unat (buf_size buf)" if "i < num_surfaces buf" for i
    using assms that by (fastforce simp: buf_fits_def surf_end_def)+
  have n: "num_surfaces buf = 1 \<or> num_surfaces buf = 2" by (simp add: num_surfaces_def)
  have e: "surface_end buf = (if num_surfaces buf = 1 then surf_end buf 0 else max (surf_end buf 0) (surf_end buf 1))"
    using n le [of 0] le [of 1] s [of "surface buf 0"] s [of "surface buf 1"]
    by (auto simp: surface_end_def last_buf_surface_end_def surf_end_def numeral_2_eq_2 Let_def word_nat max_def)
  show "surface_end buf \<le> unat (buf_size buf)" using e n le [of 0] le [of 1] by auto
  show "surf_end buf i \<le> surface_end buf" if "i < num_surfaces buf" for i
    using e n that by (auto simp: less_Suc_eq numeral_2_eq_2)
qed

lemma unat_page: "b < 64 \<Longrightarrow> unat (2 ^ b :: u64) = 2 ^ b"
  unfolding push_bit_of_1 [symmetric] unsigned_push_bit_eq by (simp add: take_bit_nat_eq_self)

lemma unat_ALIGN_up:
  assumes "b \<le> 48" "unat x \<le> 2 ^ 48"
  shows "unat (ALIGN x (2 ^ b)) = (unat x + (2 ^ b - 1)) div 2 ^ b * 2 ^ b"
proof -
  have p: "unat (2 ^ b :: u64) = 2 ^ b" using assms(1) by (intro unat_page) simp
  have "(2 :: nat) ^ b \<le> 2 ^ 48" using assms(1) by (intro power_increasing) simp_all
  then have "unat x + unat (2 ^ b :: u64) \<le> 2 ^ 64" unfolding p using assms(2) by simp
  from ALIGN_nat [OF p this] show ?thesis by (simp only: minus_mod_eq_div_mult)
qed

lemma unat_ALIGN_DOWN:
  assumes "b \<le> 48"
  shows "unat (ALIGN_DOWN x (2 ^ b)) = unat x div 2 ^ b * 2 ^ b"
proof -
  have "ALIGN_DOWN x (2 ^ b) = x AND NOT (mask b)"
    by (simp add: ALIGN_DOWN_def ALIGN_def ALIGN_MASK_def mask_eq_exp_minus_1)
  then show ?thesis by (simp only: and_not_mask_nat minus_mod_eq_div_mult)
qed

lemma div_up_le: "x \<le> y \<Longrightarrow> (x + ((p :: nat) - 1)) div p \<le> (y + (p - 1)) div p"
  by (rule div_le_mono) simp

lemma div_le_div_up: "0 < p \<Longrightarrow> x div p \<le> (x + ((p :: nat) - 1)) div p"
  by (rule div_le_mono) simp

lemma table_count_loop_ok:
  assumes "b \<le> 48" "\<And>buf. buf \<in> set bufs \<Longrightarrow> buf_fits buf" "sorted_wrt bufs_apart bufs"
    "\<And>a. prev = Some a \<Longrightarrow> bufs \<noteq> [] \<Longrightarrow> bufs_apart a (hd bufs) \<and> buf_fits a"
    "unat end' = E * 2 ^ b" "bufs \<noteq> [] \<Longrightarrow> E \<le> (unat (buf_addr (hd bufs)) + (2 ^ b - 1)) div 2 ^ b"
  shows "table_count_loop b prev end' n bufs = Some (n + card (tags b bufs - {..<E}))"
  using assms(2-)
proof (induction bufs arbitrary: prev end' E n)
  case Nil
  then show ?case by simp
next
  case (Cons buf bufs)
  have fits: "buf_fits buf" using Cons.prems(1) by simp
  define A where "A = unat (buf_addr buf)"
  define U where "U = A + surface_end buf"
  define F where "F = (U + (2 ^ b - 1)) div 2 ^ b"
  have A: "A + unat (buf_size buf) \<le> 2 ^ 48" using fits by (simp add: buf_fits_def A_def)
  have le: "surface_end buf \<le> unat (buf_size buf)" by (rule surface_end_bounds [OF fits])
  have U: "unat (buf_addr buf + last_buf_surface_end buf) = U" "U \<le> 2 ^ 48"
    using A le by (simp_all add: U_def A_def surface_end_def unat_add_no_wrap)
  let ?st = "max (ALIGN_DOWN (buf_addr buf) (2 ^ b)) end'"
  let ?en = "ALIGN (buf_addr buf + last_buf_surface_end buf) (2 ^ b)"
  have st: "unat ?st = max (A div 2 ^ b) E * 2 ^ b"
  proof -
    have "unat ?st = max (A div 2 ^ b * 2 ^ b) (E * 2 ^ b)"
      using unat_ALIGN_DOWN [OF assms(1), of "buf_addr buf"] Cons.prems(4)
      by (simp add: max_def word_nat A_def split: if_splits)
    also have "\<dots> = max (A div 2 ^ b) E * 2 ^ b" by (simp add: max_def)
    finally show ?thesis .
  qed
  have en: "unat ?en = F * 2 ^ b" using unat_ALIGN_up [OF assms(1), of "buf_addr buf + last_buf_surface_end buf"] U
    by (simp add: F_def)
  have EF: "E \<le> F" "A div 2 ^ b \<le> F"
    using Cons.prems(5) div_up_le [of A U "2 ^ b"] div_le_div_up [of "2 ^ b" A] by (simp_all add: A_def [symmetric] U_def F_def)
  have cnt: "unat (drop_bit b (?en - ?st)) = F - max (A div 2 ^ b) E"
  proof -
    have "?st \<le> ?en" using EF by (simp add: word_le_nat_alt st en)
    then have "unat (?en - ?st) = (F - max (A div 2 ^ b) E) * 2 ^ b"
      by (subst unat_sub) (simp_all add: st en diff_mult_distrib)
    then show ?thesis using assms(1) unat_page [of b] by (simp add: drop_bit_eq_div unat_div)
  qed
  have ap: "bufs_apart buf c" "buf_fits c" if "c \<in> set bufs" for c using Cons.prems(1,2) that by simp_all
  have "table_count_loop b (Some buf) ?en (n + unat (drop_bit b (?en - ?st))) bufs =
      Some (n + unat (drop_bit b (?en - ?st)) + card (tags b bufs - {..<F}))"
  proof (rule Cons.IH)
    show "F \<le> (unat (buf_addr (hd bufs)) + (2 ^ b - 1)) div 2 ^ b" if "bufs \<noteq> []"
      unfolding F_def using ap(1) [of "hd bufs"] that le by (intro div_up_le) (simp add: bufs_apart_def U_def A_def)
  qed (use Cons.prems(1,2) ap fits en in auto)
  moreover have "tags b (buf # bufs) - {..<E} = {max (A div 2 ^ b) E..<F} \<union> (tags b bufs - {..<F})"
  proof -
    have "A div 2 ^ b \<le> t" if tag: "t \<in> tags b bufs" for t
    proof -
      obtain c where c: "c \<in> set bufs" "t \<in> buf_tags b c" using tag by (auto simp: tags_def)
      have "A \<le> unat (buf_addr c)" using ap(1) [OF c(1)] by (simp add: bufs_apart_def A_def)
      then have "A div 2 ^ b \<le> unat (buf_addr c) div 2 ^ b" by (rule div_le_mono)
      then show ?thesis using c(2) by (simp add: buf_tags_def)
    qed
    moreover have "buf_tags b buf = {A div 2 ^ b..<F}" by (simp add: buf_tags_def A_def U_def F_def)
    ultimately show ?thesis using EF by (auto simp: not_less)
  qed
  moreover have "card ({max (A div 2 ^ b) E..<F} \<union> (tags b bufs - {..<F})) =
      F - max (A div 2 ^ b) E + card (tags b bufs - {..<F})"
    by (subst card_Un_disjoint) auto
  moreover have "case prev of None \<Rightarrow> True | Some a \<Rightarrow> buf_addr a + buf_size a \<le> buf_addr buf"
  proof (cases prev)
    case (Some a)
    then have "bufs_apart a buf" "buf_fits a" using Cons.prems(3) [of a] by simp_all
    then show ?thesis using Some by (simp add: word_le_nat_alt bufs_apart_def buf_fits_def unat_add_no_wrap)
  qed simp
  moreover have "?st \<le> ?en" using EF by (simp add: word_le_nat_alt st en)
  ultimately show ?case by (simp add: cnt)
qed

text \<open>The tables of a level are counted exactly: one for every area the surfaces touch.\<close>

lemma pgt_table_count_ok:
  assumes "b \<le> 48" "\<And>buf. buf \<in> set bufs \<Longrightarrow> buf_fits buf" "sorted_wrt bufs_apart bufs"
  shows "pgt_table_count b bufs = Some (card (tags b bufs))"
  unfolding pgt_table_count_def
  using table_count_loop_ok [OF assms, where prev = None and end' = 0 and E = 0 and n = 0] by simp

end
