(* ===== verification/Aux_Translation.thy ===== *)
theory Aux_Translation
  imports Intel_Aux_Pgtable
begin

unbundle bit_operations_syntax

text \<open>
  What the AUX page table of theory \<open>Intel_Aux_Pgtable\<close> (\<^verbatim>\<open>lib/intel_aux_pgtable.c\<close>) translates: the
  walk the GPU makes through the finished table leads from every block of a compressed surface to its
  compression data, and from no other address anywhere. The tables are abstracted to partial maps: \<open>T l\<close>
  from the tags of level \<open>l\<close> (the address without the bits a table of the level covers) to the offset of
  the table, and \<open>M\<close> from the main surface blocks to the entries.
\<close>

subsection \<open>The walk\<close>

fun aux_walk :: "pgtable \<Rightarrow> nat \<Rightarrow> nat \<Rightarrow> nat \<Rightarrow> u64 option" where
  "aux_walk pgt table 0 A =
    (let d = lv_desc (level_info pgt ! 0);
         e = pgt_mem pgt (table + 8 * (A div 2 ^ idx_shift d mod 2 ^ idx_bits d)) in
     if odd (unat e) then Some e else None)"
| "aux_walk pgt table (Suc l) A =
    (let d = lv_desc (level_info pgt ! Suc l);
         e = pgt_mem pgt (table + 8 * (A div 2 ^ idx_shift d mod 2 ^ idx_bits d)) in
     if odd (unat e)
     then aux_walk pgt (unat e mod 2 ^ 48 div 2 ^ entry_ptr_shift d * 2 ^ entry_ptr_shift d - unat (pgt_addr pgt)) l A
     else None)"

definition aux_translate :: "pgtable \<Rightarrow> nat \<Rightarrow> u64 option" where
  "aux_translate pgt A = aux_walk pgt 0 (length (level_info pgt) - 1) A"

subsection \<open>The invariant\<close>

text \<open>What the descriptor tables of the code have in common.\<close>

definition level_bits :: "aux_level_desc list \<Rightarrow> nat \<Rightarrow> nat" where
  "level_bits ds l = idx_shift (ds ! l) + idx_bits (ds ! l)"

definition descs_ok :: "aux_level_desc list \<Rightarrow> bool" where
  "descs_ok ds \<longleftrightarrow> ds \<noteq> [] \<and>
    (\<forall>l<length ds. 8 * 2 ^ idx_bits (ds ! l) \<le> table_size (ds ! l) \<and> 0 < idx_bits (ds ! l) \<and>
      level_bits ds l \<le> 48 \<and> table_size (ds ! l) dvd 2 ^ 15) \<and>
    (\<forall>l. Suc l < length ds \<longrightarrow> idx_shift (ds ! Suc l) = level_bits ds l \<and> 0 < entry_ptr_shift (ds ! Suc l) \<and>
      2 ^ entry_ptr_shift (ds ! Suc l) dvd table_size (ds ! l)) \<and>
    level_bits ds (length ds - 1) = 48 \<and>
    0 < entry_ptr_shift (ds ! 0) \<and> idx_shift (ds ! 0) = entry_ptr_shift (ds ! 0) + 8"

lemma descs_okD:
  assumes "descs_ok ds" "l < length ds"
  shows "8 * 2 ^ idx_bits (ds ! l) \<le> table_size (ds ! l)" "0 < idx_bits (ds ! l)"
    "level_bits ds l \<le> 48" "table_size (ds ! l) dvd 2 ^ 15" "0 < table_size (ds ! l)"
    "idx_shift (ds ! l) + idx_bits (ds ! l) \<le> 48"
proof -
  show l: "8 * 2 ^ idx_bits (ds ! l) \<le> table_size (ds ! l)" "0 < idx_bits (ds ! l)"
    "level_bits ds l \<le> 48" "table_size (ds ! l) dvd 2 ^ 15"
    using assms unfolding descs_ok_def by blast+
  have "0 < 8 * (2 :: nat) ^ idx_bits (ds ! l)" by simp
  then show "0 < table_size (ds ! l)" using l(1) by (rule less_le_trans)
  show "idx_shift (ds ! l) + idx_bits (ds ! l) \<le> 48" using l(3) by (simp add: level_bits_def)
qed

lemma descs_okD_Suc:
  assumes "descs_ok ds" "Suc l < length ds"
  shows "idx_shift (ds ! Suc l) = level_bits ds l" "0 < entry_ptr_shift (ds ! Suc l)"
    "2 ^ entry_ptr_shift (ds ! Suc l) dvd table_size (ds ! l)"
  using assms unfolding descs_ok_def by blast+

text \<open>Where the tables are: the tables of level \<open>l\<close> start at \<open>B l\<close>, and \<open>S l\<close> are the tags that may
  get one.\<close>

definition layout_ok :: "aux_level_desc list \<Rightarrow> (nat \<Rightarrow> nat) \<Rightarrow> (nat \<Rightarrow> nat set) \<Rightarrow> nat \<Rightarrow> u64 \<Rightarrow> bool" where
  "layout_ok ds B S sz addr \<longleftrightarrow> descs_ok ds \<and>
    (\<forall>l<length ds. finite (S l) \<and> table_size (ds ! l) dvd B l \<and> B l + card (S l) * table_size (ds ! l) \<le> sz) \<and>
    (\<forall>l l'. l < l' \<longrightarrow> l' < length ds \<longrightarrow> B l' + card (S l') * table_size (ds ! l') \<le> B l) \<and>
    sz < 2 ^ 31 \<and> 2 ^ 15 dvd unat addr \<and> unat addr + sz \<le> 2 ^ 48"

lemma layout_okD:
  assumes "layout_ok ds B S sz addr" "l < length ds"
  shows "descs_ok ds" "finite (S l)" "table_size (ds ! l) dvd B l" "B l + card (S l) * table_size (ds ! l) \<le> sz"
    "sz < 2 ^ 31" "2 ^ 15 dvd unat addr" "unat addr + sz \<le> 2 ^ 48"
  using assms unfolding layout_ok_def by blast+

lemma layout_ok_apart:
  assumes "layout_ok ds B S sz addr" "l < l'" "l' < length ds"
  shows "B l' + card (S l') * table_size (ds ! l') \<le> B l"
  using assms unfolding layout_ok_def by blast

type_synonym tables = "nat \<Rightarrow> nat \<Rightarrow> nat option"

definition level_state :: "aux_level_desc list \<Rightarrow> (nat \<Rightarrow> nat) \<Rightarrow> (nat \<Rightarrow> nat set) \<Rightarrow> tables \<Rightarrow> aux_level_info list" where
  "level_state ds B S T = map (\<lambda>l. \<lparr>lv_desc = ds ! l, table_count = card (S l), alloc_base = B l,
    alloc_ptr = B l + card (dom (T l)) * table_size (ds ! l)\<rparr>) [0..<length ds]"

lemma level_state_simps [simp]:
  "length (level_state ds B S T) = length ds"
  "l < length ds \<Longrightarrow> level_state ds B S T ! l = \<lparr>lv_desc = ds ! l, table_count = card (S l), alloc_base = B l,
    alloc_ptr = B l + card (dom (T l)) * table_size (ds ! l)\<rparr>"
  by (simp_all add: level_state_def)

text \<open>The entry that stands for the area \<open>a\<close> at level \<open>l\<close>.\<close>

definition slot_value :: "u64 \<Rightarrow> tables \<Rightarrow> (nat \<Rightarrow> u64 option) \<Rightarrow> nat \<Rightarrow> nat \<Rightarrow> u64" where
  "slot_value addr T M l a =
    (case l of 0 \<Rightarrow> (case M a of None \<Rightarrow> 0 | Some e \<Rightarrow> e)
     | Suc k \<Rightarrow> (case T k a of None \<Rightarrow> 0 | Some c \<Rightarrow> addr + (of_nat c OR 1)))"

text \<open>The tables in use are numbered from the start of their level, and have parents.\<close>

definition tables_ok :: "aux_level_desc list \<Rightarrow> (nat \<Rightarrow> nat) \<Rightarrow> (nat \<Rightarrow> nat set) \<Rightarrow> tables \<Rightarrow> bool" where
  "tables_ok ds B S T \<longleftrightarrow>
    (\<forall>l<length ds. dom (T l) \<subseteq> S l \<and> inj_on (T l) (dom (T l)) \<and>
      (\<forall>t c. T l t = Some c \<longrightarrow> (\<exists>j<card (dom (T l)). c = B l + j * table_size (ds ! l)))) \<and>
    (\<forall>l t. Suc l < length ds \<longrightarrow> T l t \<noteq> None \<longrightarrow> T (Suc l) (t div 2 ^ idx_bits (ds ! Suc l)) \<noteq> None)"

definition memory_ok :: "aux_level_desc list \<Rightarrow> (nat \<Rightarrow> nat) \<Rightarrow> (nat \<Rightarrow> nat set) \<Rightarrow> u64 \<Rightarrow> tables \<Rightarrow>
    (nat \<Rightarrow> u64 option) \<Rightarrow> (nat \<Rightarrow> u64) \<Rightarrow> bool" where
  "memory_ok ds B S addr T M mem \<longleftrightarrow>
    (\<forall>l t c i. l < length ds \<longrightarrow> T l t = Some c \<longrightarrow> i < 2 ^ idx_bits (ds ! l) \<longrightarrow>
      mem (c + 8 * i) = slot_value addr T M l (t * 2 ^ idx_bits (ds ! l) + i)) \<and>
    (\<forall>l q. l < length ds \<longrightarrow> B l + card (dom (T l)) * table_size (ds ! l) \<le> q \<longrightarrow>
      q < B l + card (S l) * table_size (ds ! l) \<longrightarrow> mem q = 0)"

definition pgt_inv :: "aux_level_desc list \<Rightarrow> (nat \<Rightarrow> nat) \<Rightarrow> (nat \<Rightarrow> nat set) \<Rightarrow> nat \<Rightarrow> u64 \<Rightarrow> tables \<Rightarrow>
    (nat \<Rightarrow> u64 option) \<Rightarrow> pgtable \<Rightarrow> bool" where
  "pgt_inv ds B S sz addr T M p \<longleftrightarrow>
    level_info p = level_state ds B S T \<and> pgt_size p = sz \<and> pgt_addr p = addr \<and>
    tables_ok ds B S T \<and> memory_ok ds B S addr T M (pgt_mem p) \<and>
    (\<forall>a e. M a = Some e \<longrightarrow> T 0 (a div 2 ^ idx_bits (ds ! 0)) \<noteq> None \<and> odd (unat e))"

lemma tables_okD:
  assumes "tables_ok ds B S T" "l < length ds"
  shows "dom (T l) \<subseteq> S l" "inj_on (T l) (dom (T l))"
    "T l t = Some c \<Longrightarrow> \<exists>j<card (dom (T l)). c = B l + j * table_size (ds ! l)"
  using assms unfolding tables_ok_def by blast+

text \<open>The cells of the tables in use are all different, and not in the unused part of a level.\<close>

lemma cell_bounds:
  assumes "layout_ok ds B S sz addr" "tables_ok ds B S T" "l < length ds" "T l t = Some c" "i < 2 ^ idx_bits (ds ! l)"
  obtains j where "j < card (dom (T l))" "c = B l + j * table_size (ds ! l)" "8 * i + 8 \<le> table_size (ds ! l)"
    "c + 8 * i + 8 \<le> B l + card (dom (T l)) * table_size (ds ! l)" "card (dom (T l)) \<le> card (S l)"
proof -
  obtain j where j: "j < card (dom (T l))" "c = B l + j * table_size (ds ! l)" using tables_okD(3) [OF assms(2-4)] by blast
  have i: "8 * i + 8 \<le> table_size (ds ! l)"
    using assms(5) descs_okD(1) [OF layout_okD(1) [OF assms(1,3)] assms(3)] by linarith
  have "(j + 1) * table_size (ds ! l) \<le> card (dom (T l)) * table_size (ds ! l)" using j(1) by (intro mult_le_mono1) simp
  then have "c + 8 * i + 8 \<le> B l + card (dom (T l)) * table_size (ds ! l)" using i by (simp add: j(2))
  moreover have "card (dom (T l)) \<le> card (S l)"
    by (rule card_mono [OF layout_okD(2) [OF assms(1,3)] tables_okD(1) [OF assms(2,3)]])
  ultimately show ?thesis using that j i by blast
qed

lemma cells_differ:
  assumes lay: "layout_ok ds B S sz addr" "tables_ok ds B S T"
    and c: "l < length ds" "T l t = Some c" "i < 2 ^ idx_bits (ds ! l)"
    and c': "l' < length ds" "T l' t' = Some c'" "i' < 2 ^ idx_bits (ds ! l')"
    and e: "c + 8 * i = c' + 8 * i'"
  shows "l = l' \<and> t = t' \<and> i = i'"
proof -
  obtain j where j: "j < card (dom (T l))" "c = B l + j * table_size (ds ! l)" "8 * i + 8 \<le> table_size (ds ! l)"
      "c + 8 * i + 8 \<le> B l + card (dom (T l)) * table_size (ds ! l)" "card (dom (T l)) \<le> card (S l)"
    by (rule cell_bounds [OF lay c])
  obtain j' where j': "j' < card (dom (T l'))" "c' = B l' + j' * table_size (ds ! l')" "8 * i' + 8 \<le> table_size (ds ! l')"
      "c' + 8 * i' + 8 \<le> B l' + card (dom (T l')) * table_size (ds ! l')" "card (dom (T l')) \<le> card (S l')"
    by (rule cell_bounds [OF lay c'])
  have r: "c + 8 * i + 8 \<le> B l + card (S l) * table_size (ds ! l)"
    "c' + 8 * i' + 8 \<le> B l' + card (S l') * table_size (ds ! l')"
    using j(4,5) j'(4,5) by (meson add_left_mono le_trans mult_le_mono1)+
  have l: "l = l'"
  proof (rule ccontr)
    assume "l \<noteq> l'"
    then show False
      using layout_ok_apart [OF lay(1), of l l'] layout_ok_apart [OF lay(1), of l' l] c(1) c'(1) r e j(2) j'(2)
      by (cases "l < l'") auto
  qed
  have "(j * table_size (ds ! l) + 8 * i) div table_size (ds ! l) = j" using j(3) by simp
  moreover have "(j' * table_size (ds ! l) + 8 * i') div table_size (ds ! l) = j'" using j'(3) l by simp
  moreover have "j * table_size (ds ! l) + 8 * i = j' * table_size (ds ! l) + 8 * i'" using e j(2) j'(2) l by simp
  ultimately have "j = j'" by metis
  then have "c = c'" "i = i'" using j(2) j'(2) l e by simp_all
  then have "t = t'" using tables_okD(2) [OF lay(2) c(1)] c(2) c'(2) l by (auto simp: inj_on_def dom_def)
  then show ?thesis using l \<open>i = i'\<close> by simp
qed

lemma cell_not_fresh:
  assumes lay: "layout_ok ds B S sz addr" "tables_ok ds B S T"
    and c: "l < length ds" "T l t = Some c" "i < 2 ^ idx_bits (ds ! l)"
    and l': "l' < length ds" "B l' + card (dom (T l')) * table_size (ds ! l') \<le> c + 8 * i"
  shows "\<not> c + 8 * i < B l' + card (S l') * table_size (ds ! l')"
proof
  assume q: "c + 8 * i < B l' + card (S l') * table_size (ds ! l')"
  obtain j where j: "j < card (dom (T l))" "c = B l + j * table_size (ds ! l)" "8 * i + 8 \<le> table_size (ds ! l)"
      "c + 8 * i + 8 \<le> B l + card (dom (T l)) * table_size (ds ! l)" "card (dom (T l)) \<le> card (S l)"
    by (rule cell_bounds [OF lay c])
  have r: "c + 8 * i + 8 \<le> B l + card (S l) * table_size (ds ! l)"
    using j(4,5) by (meson add_left_mono le_trans mult_le_mono1)
  consider "l = l'" | "l < l'" | "l' < l" by linarith
  then show False
  proof cases
    case 1 then show False using j(4) l'(2) by simp
  next
    case 2 then show False using layout_ok_apart [OF lay(1) 2 l'(1)] q j(2) by simp
  next
    case 3 then show False using layout_ok_apart [OF lay(1) 3 c(1)] r l'(2) by simp
  qed
qed

subsection \<open>Writing an entry\<close>

lemma memory_okD:
  assumes "memory_ok ds B S addr T M mem" "l < length ds"
  shows "T l t = Some c \<Longrightarrow> i < 2 ^ idx_bits (ds ! l) \<Longrightarrow>
      mem (c + 8 * i) = slot_value addr T M l (t * 2 ^ idx_bits (ds ! l) + i)"
    "B l + card (dom (T l)) * table_size (ds ! l) \<le> q \<Longrightarrow> q < B l + card (S l) * table_size (ds ! l) \<Longrightarrow> mem q = 0"
  using assms unfolding memory_ok_def by blast+

lemma join_tag [simp]: "a div 2 ^ b * 2 ^ b + a mod 2 ^ b = (a :: nat)"
  by (rule div_mult_mod_eq)

lemma split_tag: "t * 2 ^ b + i = a \<longleftrightarrow> t = a div 2 ^ b \<and> i = a mod 2 ^ b" if "i < (2 :: nat) ^ b"
  using that by auto

lemma memory_write_entry:
  assumes lay: "layout_ok ds B S sz addr" "tables_ok ds B S T" and mem: "memory_ok ds B S addr T M mem"
    and c: "T 0 (a div 2 ^ idx_bits (ds ! 0)) = Some c" "0 < length ds"
  shows "memory_ok ds B S addr T (M(a \<mapsto> v)) (mem(c + 8 * (a mod 2 ^ idx_bits (ds ! 0)) := v))"
proof -
  let ?i = "a mod 2 ^ idx_bits (ds ! 0)"
  have i: "?i < 2 ^ idx_bits (ds ! 0)" by simp
  have 1: "(mem(c + 8 * ?i := v)) (c' + 8 * i') = slot_value addr T (M(a \<mapsto> v)) l (t * 2 ^ idx_bits (ds ! l) + i')"
    if "l < length ds" "T l t = Some c'" "i' < 2 ^ idx_bits (ds ! l)" for l t c' i'
  proof (cases "c' + 8 * i' = c + 8 * ?i")
    case True
    then have "l = 0 \<and> t = a div 2 ^ idx_bits (ds ! 0) \<and> i' = ?i" by (rule cells_differ [OF lay that c(2,1) i])
    with True show ?thesis by (simp add: slot_value_def)
  next
    case False
    then have "\<not> (l = 0 \<and> t * 2 ^ idx_bits (ds ! l) + i' = a)" using that(2,3) c(1) by (auto simp: split_tag)
    then have "slot_value addr T (M(a \<mapsto> v)) l (t * 2 ^ idx_bits (ds ! l) + i') =
        slot_value addr T M l (t * 2 ^ idx_bits (ds ! l) + i')"
      by (cases l) (auto simp: slot_value_def)
    then show ?thesis using memory_okD(1) [OF mem that] False by simp
  qed
  have 2: "(mem(c + 8 * ?i := v)) q = 0"
    if "l < length ds" "B l + card (dom (T l)) * table_size (ds ! l) \<le> q" "q < B l + card (S l) * table_size (ds ! l)" for l q
    using cell_not_fresh [OF lay c(2,1) i that(1)] memory_okD(2) [OF mem that] that by auto
  show ?thesis unfolding memory_ok_def using 1 2 by blast
qed

lemma card_dom_new: "finite A \<Longrightarrow> dom f \<subseteq> A \<Longrightarrow> f a = None \<Longrightarrow> card (dom (f(a \<mapsto> c))) = Suc (card (dom f))"
  by (simp add: domIff finite_subset)

lemma tables_new:
  assumes lay: "layout_ok ds B S sz addr" "tables_ok ds B S T"
    and k: "Suc k < length ds" "T (Suc k) (a div 2 ^ idx_bits (ds ! Suc k)) \<noteq> None" "T k a = None" "a \<in> S k"
  shows "tables_ok ds B S (T(k := (T k)(a \<mapsto> B k + card (dom (T k)) * table_size (ds ! k))))"
    (is "tables_ok ds B S ?T")
proof -
  let ?new = "B k + card (dom (T k)) * table_size (ds ! k)"
  have kl: "k < length ds" using k(1) by simp
  note D = tables_okD [OF lay(2) kl]
  have pos: "0 < table_size (ds ! k)" by (rule descs_okD(5) [OF layout_okD(1) [OF lay(1) kl] kl])
  have cd: "card (dom (?T k)) = Suc (card (dom (T k)))" using card_dom_new [OF layout_okD(2) [OF lay(1) kl] D(1) k(3)] by simp
  have new: "T k t \<noteq> Some ?new" for t using D(3) [of t ?new] pos by auto
  have "dom (?T l) \<subseteq> S l \<and> inj_on (?T l) (dom (?T l)) \<and>
      (\<forall>t c. ?T l t = Some c \<longrightarrow> (\<exists>j<card (dom (?T l)). c = B l + j * table_size (ds ! l)))" if l: "l < length ds" for l
  proof (cases "l = k")
    case False
    then show ?thesis using tables_okD [OF lay(2) l] by simp
  next
    case True
    have "inj_on (?T k) (dom (?T k))" using D(2) new k(3) by (auto simp: inj_on_def dom_def)
    moreover have "\<exists>j<card (dom (?T k)). c = B k + j * table_size (ds ! k)" if "?T k t = Some c" for t c
      using that D(3) [of t c] unfolding cd by (cases "t = a") (auto intro: less_SucI)
    moreover have "dom (?T k) \<subseteq> S k" using D(1) k(4) by auto
    ultimately show ?thesis unfolding True by blast
  qed
  moreover have "?T (Suc l) (t div 2 ^ idx_bits (ds ! Suc l)) \<noteq> None" if "Suc l < length ds" "?T l t \<noteq> None" for l t
  proof (cases "l = k \<and> t = a")
    case True
    then show ?thesis using k(2) by simp
  next
    case False
    then have "T l t \<noteq> None" using that(2) by (auto split: if_splits)
    then have "T (Suc l) (t div 2 ^ idx_bits (ds ! Suc l)) \<noteq> None" using lay(2) that(1) unfolding tables_ok_def by blast
    then show ?thesis by auto
  qed
  ultimately show ?thesis unfolding tables_ok_def by blast
qed

lemma memory_new_table:
  assumes lay: "layout_ok ds B S sz addr" "tables_ok ds B S T" and mem: "memory_ok ds B S addr T M mem"
    and k: "Suc k < length ds" "T (Suc k) (a div 2 ^ idx_bits (ds ! Suc k)) = Some c" "T k a = None" "a \<in> S k"
    and M: "\<And>x. M x \<noteq> None \<Longrightarrow> T 0 (x div 2 ^ idx_bits (ds ! 0)) \<noteq> None"
    and new: "new = B k + card (dom (T k)) * table_size (ds ! k)"
  shows "memory_ok ds B S addr (T(k := (T k)(a \<mapsto> new))) M
    (mem(c + 8 * (a mod 2 ^ idx_bits (ds ! Suc k)) := addr + (of_nat new OR 1)))"
    (is "memory_ok ds B S addr ?T M ?mem")
proof -
  let ?i = "a mod 2 ^ idx_bits (ds ! Suc k)"
  have i: "?i < 2 ^ idx_bits (ds ! Suc k)" by simp
  have kl: "k < length ds" using k(1) by simp
  have T': "tables_ok ds B S ?T" unfolding new by (rule tables_new [OF lay k(1) _ k(3,4)]) (simp add: k(2))
  have c': "?T (Suc k) (a div 2 ^ idx_bits (ds ! Suc k)) = Some c" using k(2) by simp
  have cd: "card (dom (?T k)) = Suc (card (dom (T k)))"
    using card_dom_new [OF layout_okD(2) [OF lay(1) kl] tables_okD(1) [OF lay(2) kl] k(3)] by simp
  have le: "Suc (card (dom (T k))) \<le> card (S k)"
    using card_mono [OF layout_okD(2) [OF lay(1) kl] tables_okD(1) [OF T' kl]] unfolding cd .
  have "?mem (c1 + 8 * i1) = slot_value addr ?T M l (t * 2 ^ idx_bits (ds ! l) + i1)"
    if l: "l < length ds" "?T l t = Some c1" "i1 < 2 ^ idx_bits (ds ! l)" for l t c1 i1
  proof (cases "c1 + 8 * i1 = c + 8 * ?i")
    case True
    then have "l = Suc k \<and> t = a div 2 ^ idx_bits (ds ! Suc k) \<and> i1 = ?i"
      by (rule cells_differ [OF lay(1) T' l k(1) c' i])
    with True show ?thesis by (simp add: slot_value_def)
  next
    case False
    have old: "slot_value addr ?T M l (t * 2 ^ idx_bits (ds ! l) + i1) = slot_value addr T M l (t * 2 ^ idx_bits (ds ! l) + i1)"
    proof (cases "l = Suc k \<and> t * 2 ^ idx_bits (ds ! l) + i1 = a")
      case True
      then have "t = a div 2 ^ idx_bits (ds ! Suc k)" "i1 = ?i" using l(3) by auto
      then show ?thesis using True False l(2) k(2) by simp
    qed (auto simp: slot_value_def split: nat.splits)
    show ?thesis
    proof (cases "l = k \<and> t = a")
      case False
      then have "T l t = Some c1" using l(2) by (auto split: if_splits)
      then show ?thesis using memory_okD(1) [OF mem l(1) _ l(3)] \<open>c1 + 8 * i1 \<noteq> c + 8 * ?i\<close> old by simp
    next
      case True
      have i8: "8 * i1 + 8 \<le> table_size (ds ! k)"
        using l(3) True descs_okD(1) [OF layout_okD(1) [OF lay(1) kl] kl] by simp
      have "c1 = new" using l(2) True by simp
      moreover have "Suc (card (dom (T k))) * table_size (ds ! k) \<le> card (S k) * table_size (ds ! k)"
        using le by (rule mult_le_mono1)
      ultimately have "mem (c1 + 8 * i1) = 0" using i8 by (intro memory_okD(2) [OF mem kl]) (simp_all add: new)
      moreover have "slot_value addr T M l (t * 2 ^ idx_bits (ds ! l) + i1) = 0"
      proof (cases k)
        case 0
        have "(a * 2 ^ idx_bits (ds ! 0) + i1) div 2 ^ idx_bits (ds ! 0) = a" using l(3) True 0 by simp
        then have "M (a * 2 ^ idx_bits (ds ! 0) + i1) = None" using M [of "a * 2 ^ idx_bits (ds ! 0) + i1"] k(3) 0 by fastforce
        then show ?thesis using True 0 by (simp add: slot_value_def)
      next
        case (Suc m)
        have "(a * 2 ^ idx_bits (ds ! k) + i1) div 2 ^ idx_bits (ds ! k) = a" using l(3) True by simp
        moreover have "T m x \<noteq> None \<Longrightarrow> T k (x div 2 ^ idx_bits (ds ! k)) \<noteq> None" for x
          using lay(2) kl Suc unfolding tables_ok_def by blast
        ultimately have "T m (a * 2 ^ idx_bits (ds ! k) + i1) = None" using k(3) by fastforce
        then show ?thesis using True Suc by (simp add: slot_value_def)
      qed
      ultimately show ?thesis using \<open>c1 + 8 * i1 \<noteq> c + 8 * ?i\<close> old by simp
    qed
  qed
  moreover have "?mem q = 0" if l: "l < length ds" "B l + card (dom (?T l)) * table_size (ds ! l) \<le> q"
      "q < B l + card (S l) * table_size (ds ! l)" for l q
  proof -
    have "q \<noteq> c + 8 * ?i" using cell_not_fresh [OF lay(1) T' k(1) c' i l(1)] l(2,3) by blast
    moreover have "B l + card (dom (T l)) * table_size (ds ! l) \<le> q"
    proof (cases "l = k")
      case True
      then have "B k + Suc (card (dom (T k))) * table_size (ds ! k) \<le> q" using l(2) unfolding True cd by blast
      then show ?thesis unfolding True by simp
    next
      case False
      then show ?thesis using l(2) by simp
    qed
    ultimately show ?thesis using memory_okD(2) [OF mem l(1) _ l(3)] by simp
  qed
  ultimately show ?thesis unfolding memory_ok_def by blast
qed

subsection \<open>The operations on the table\<close>

lemma pgt_invD:
  assumes "pgt_inv ds B S sz addr T M p"
  shows "level_info p = level_state ds B S T" "pgt_size p = sz" "pgt_addr p = addr"
    "tables_ok ds B S T" "memory_ok ds B S addr T M (pgt_mem p)"
    "\<And>a. M a \<noteq> None \<Longrightarrow> T 0 (a div 2 ^ idx_bits (ds ! 0)) \<noteq> None" "\<And>a e. M a = Some e \<Longrightarrow> odd (unat e)"
  using assms unfolding pgt_inv_def by blast+

lemma entry_index_ok:
  assumes "level_info p = level_state ds B S T" "descs_ok ds" "l < length ds"
  shows "pgt_entry_index p l A = unat A div 2 ^ idx_shift (ds ! l) mod 2 ^ idx_bits (ds ! l)"
  using unat_index_field [of "idx_shift (ds ! l)" "idx_bits (ds ! l)" A] descs_okD(2,6) [OF assms(2,3)] assms(1,3)
  by (simp add: pgt_entry_index_def Let_def)

lemma entry_at_ok:
  assumes lay: "layout_ok ds B S sz addr" and inv: "pgt_inv ds B S sz addr T M p" and c: "l < length ds" "T l t = Some c"
    "t = a div 2 ^ idx_bits (ds ! l)" "a = unat A div 2 ^ idx_shift (ds ! l)"
  shows "entry_at p c (pgt_entry_index p l A) = Some (c + 8 * (a mod 2 ^ idx_bits (ds ! l)))"
proof -
  have i: "a mod 2 ^ idx_bits (ds ! l) < 2 ^ idx_bits (ds ! l)" by simp
  obtain j where j: "c + 8 * (a mod 2 ^ idx_bits (ds ! l)) + 8 \<le> B l + card (dom (T l)) * table_size (ds ! l)"
      "card (dom (T l)) \<le> card (S l)"
    by (rule cell_bounds [OF lay pgt_invD(4) [OF inv] c(1,2) i])
  have "card (dom (T l)) * table_size (ds ! l) \<le> card (S l) * table_size (ds ! l)" using j(2) by (rule mult_le_mono1)
  then have "c + 8 * (a mod 2 ^ idx_bits (ds ! l)) + 8 \<le> sz" using j(1) layout_okD(4) [OF lay c(1)] by linarith
  then show ?thesis
    using pgt_invD(2) [OF inv] entry_index_ok [OF pgt_invD(1) [OF inv] layout_okD(1) [OF lay c(1)] c(1), of A] c(4)
    by (simp add: entry_at_def)
qed

lemma set_l1_entry_ok:
  assumes lay: "layout_ok ds B S sz addr" and inv: "pgt_inv ds B S sz addr T M p"
    and c: "T 0 (a div 2 ^ idx_bits (ds ! 0)) = Some c" "a = unat A div 2 ^ idx_shift (ds ! 0)"
    and ptr: "unat ptr < 2 ^ 48" "2 ^ entry_ptr_shift (ds ! 0) dvd unat ptr" and flags: "take_bit 48 flags = 1"
  shows "\<exists>p'. pgt_set_l1_entry p c A ptr flags = Some p' \<and> pgt_inv ds B S sz addr T (M(a \<mapsto> ptr OR flags)) p'"
proof -
  have ds: "descs_ok ds" using lay unfolding layout_ok_def by blast
  then have n: "0 < length ds" "0 < entry_ptr_shift (ds ! 0)" unfolding descs_ok_def by auto
  note I = pgt_invD [OF inv]
  have e: "entry_at p c (pgt_entry_index p 0 A) = Some (c + 8 * (a mod 2 ^ idx_bits (ds ! 0)))"
    by (rule entry_at_ok [OF lay inv n(1) c(1) refl c(2)])
  have z: "ptr AND NOT (ptr_mask p 0) = 0"
    using low_bits_clear(1) [OF ptr] I(1) n(1) by (simp add: ptr_mask_def GFX_ADDRESS_BITS_def)
  define p' where "p' = p\<lparr>pgt_mem := (pgt_mem p)(c + 8 * (a mod 2 ^ idx_bits (ds ! 0)) := ptr OR flags)\<rparr>"
  have "pgt_set_l1_entry p c A ptr flags = Some p'" by (simp add: pgt_set_l1_entry_def e z p'_def)
  moreover have "pgt_inv ds B S sz addr T (M(a \<mapsto> ptr OR flags)) p'"
    unfolding pgt_inv_def
  proof (intro conjI allI impI)
    show "memory_ok ds B S addr T (M(a \<mapsto> ptr OR flags)) (pgt_mem p')"
      using memory_write_entry [OF lay I(4,5) c(1) n(1)] by (simp add: p'_def)
    fix x v assume x: "(M(a \<mapsto> ptr OR flags)) x = Some v"
    show "T 0 (x div 2 ^ idx_bits (ds ! 0)) \<noteq> None" using x I(6) [of x] c(1) by (auto split: if_splits)
    show "odd (unat v)" using x I(7) [of x v] entry_fields(2) [OF ptr n(2) flags] by (auto split: if_splits)
  qed (use I in \<open>simp_all add: p'_def\<close>)
  ultimately show ?thesis by blast
qed

lemma unat_small: "c < 2 ^ 48 \<Longrightarrow> unat (of_nat c :: u64) = c"
  by (simp add: unsigned_of_nat take_bit_nat_eq_self)

lemma not_bit_0:
  fixes x :: u64
  assumes "even (unat x)"
  shows "\<not> bit x 0"
proof
  assume x: "bit x 0"
  have "bit (unat x) 0" unfolding bit_unsigned_iff using x by simp
  then show False unfolding bit_0 using assms by contradiction
qed

text \<open>The offset a table entry leads to.\<close>

lemma child_entry:
  assumes lay: "layout_ok ds B S sz addr" and T: "tables_ok ds B S T" and k: "Suc k < length ds" "T k a = Some c"
  defines "e \<equiv> addr + (of_nat c OR 1)"
  shows "unat e = unat addr + c + 1" "2 ^ entry_ptr_shift (ds ! Suc k) dvd unat addr + c"
    "e AND BITMASK 47 (entry_ptr_shift (ds ! Suc k)) = addr + of_nat c" "odd (unat e)" "e \<noteq> 0"
    "unat (addr + of_nat c) = unat addr + c" "c + 8 \<le> sz"
    "(of_nat c + addr) AND NOT (BITMASK 47 (entry_ptr_shift (ds ! Suc k))) = 0" "of_nat c OR 1 \<le> (0x7FFFFFFF :: u64)"
proof -
  have kl: "k < length ds" using k(1) by simp
  note L = layout_okD [OF lay kl]
  note Dk = descs_okD [OF L(1) kl] and D = descs_okD_Suc [OF L(1) k(1)]
  have i0: "0 < (2 :: nat) ^ idx_bits (ds ! k)" by simp
  obtain j where j: "j < card (dom (T k))" "c = B k + j * table_size (ds ! k)" "8 * 0 + 8 \<le> table_size (ds ! k)"
      "c + 8 * 0 + 8 \<le> B k + card (dom (T k)) * table_size (ds ! k)" "card (dom (T k)) \<le> card (S k)"
    by (rule cell_bounds [OF lay T kl k(2) i0])
  have "card (dom (T k)) * table_size (ds ! k) \<le> card (S k) * table_size (ds ! k)" using j(5) by (rule mult_le_mono1)
  then show c: "c + 8 \<le> sz" using j(4) L(4) by linarith
  have d: "table_size (ds ! k) dvd c" using L(3) by (simp add: j(2))
  have p: "2 ^ entry_ptr_shift (ds ! Suc k) dvd unat addr"
    using D(3) Dk(4) L(6) by (meson dvd_trans)
  then show sum: "2 ^ entry_ptr_shift (ds ! Suc k) dvd unat addr + c"
    using D(3) d by (meson dvd_add dvd_trans)
  have "2 dvd (2 :: nat) ^ entry_ptr_shift (ds ! Suc k)" using D(2) by simp
  then have ev: "even c" using D(3) d by (meson dvd_trans)
  have uc: "unat (of_nat c :: u64) = c" using c L(5) by (simp add: unat_small)
  have o: "of_nat c OR 1 = (of_nat c + 1 :: u64)"
  proof (rule disjunctive_add [symmetric])
    fix n
    have "\<not> bit (of_nat c :: u64) 0" by (rule not_bit_0) (simp only: uc ev)
    then show "\<not> bit (of_nat c :: u64) n \<or> \<not> bit (1 :: u64) n" by (metis bit_1_iff)
  qed
  show ac: "unat (addr + of_nat c) = unat addr + c" using c L(7) uc by (subst unat_add_no_wrap) simp_all
  have e: "e = (addr + of_nat c) + 1" by (simp add: e_def o)
  show ue: "unat e = unat addr + c + 1" unfolding e using ac c L(7) by (subst unat_add_no_wrap) simp_all
  have e1: "e = (addr + of_nat c) OR 1"
    unfolding e
  proof (rule disjunctive_add)
    fix n
    have "even (unat (addr + of_nat c))" unfolding ac using sum \<open>2 dvd 2 ^ _\<close> by (meson dvd_trans)
    then have "\<not> bit (addr + of_nat c) 0" by (rule not_bit_0)
    then show "\<not> bit (addr + of_nat c) n \<or> \<not> bit (1 :: u64) n" by (metis bit_1_iff)
  qed
  have b: "unat (addr + of_nat c) < 2 ^ 48" "2 ^ entry_ptr_shift (ds ! Suc k) dvd unat (addr + of_nat c)"
    using ac c L(7) sum by simp_all
  have t1: "take_bit 48 (1 :: u64) = 1" by simp
  note F = entry_fields [OF b D(2) t1]
  show "e AND BITMASK 47 (entry_ptr_shift (ds ! Suc k)) = addr + of_nat c" "odd (unat e)" "e \<noteq> 0"
    unfolding e1 by (rule F)+
  show "(of_nat c + addr) AND NOT (BITMASK 47 (entry_ptr_shift (ds ! Suc k))) = 0"
    using low_bits_clear(1) [OF b] by (simp add: add.commute)
  show "of_nat c OR 1 \<le> (0x7FFFFFFF :: u64)"
    unfolding o word_le_nat_alt using c L(5) uc by (subst unat_add_no_wrap) simp_all
qed

definition extends :: "aux_level_desc list \<Rightarrow> tables \<Rightarrow> tables \<Rightarrow> bool" where
  "extends ds T T' \<longleftrightarrow> (\<forall>l t c. T l t = Some c \<longrightarrow> T' l t = Some c)"

lemma extends_refl: "extends ds T T"
  by (simp add: extends_def)

lemma extends_trans: "extends ds T T' \<Longrightarrow> extends ds T' T'' \<Longrightarrow> extends ds T T''"
  by (simp add: extends_def)

text \<open>The number of a table of level \<open>l\<close> for an address.\<close>

definition tag :: "aux_level_desc list \<Rightarrow> nat \<Rightarrow> u64 \<Rightarrow> nat" where
  "tag ds l A = unat A div 2 ^ level_bits ds l"

lemma tag_Suc:
  assumes "descs_ok ds" "Suc k < length ds"
  shows "tag ds (Suc k) A = tag ds k A div 2 ^ idx_bits (ds ! Suc k)"
    "tag ds k A = unat A div 2 ^ idx_shift (ds ! Suc k)"
  using descs_okD_Suc(1) [OF assms] by (simp_all add: tag_def level_bits_def power_add div_mult2_eq)

lemma alloc_table_ok:
  assumes lay: "layout_ok ds B S sz addr" and inv: "pgt_inv ds B S sz addr T M p"
    and k: "k < length ds" "T k a = None" "a \<in> S k"
  shows "pgt_alloc_table p k = Some (p\<lparr>level_info := level_state ds B S
      (T(k := (T k)(a \<mapsto> B k + card (dom (T k)) * table_size (ds ! k))))\<rparr>, B k + card (dom (T k)) * table_size (ds ! k))"
proof -
  note I = pgt_invD [OF inv]
  have cd: "card (dom ((T k)(a \<mapsto> c))) = Suc (card (dom (T k)))" for c
    using card_dom_new [OF layout_okD(2) [OF lay k(1)] tables_okD(1) [OF I(4) k(1)] k(2)] .
  have "dom ((T k)(a \<mapsto> 0)) \<subseteq> S k" using tables_okD(1) [OF I(4) k(1)] k(3) by auto
  then have "Suc (card (dom (T k))) \<le> card (S k)"
    using card_mono [OF layout_okD(2) [OF lay k(1)]] cd by metis
  then have "Suc (card (dom (T k))) * table_size (ds ! k) \<le> card (S k) * table_size (ds ! k)" by (rule mult_le_mono1)
  moreover have "(level_state ds B S T)[k := (level_state ds B S T ! k)\<lparr>alloc_ptr :=
      B k + card (dom (T k)) * table_size (ds ! k) + table_size (ds ! k)\<rparr>] =
    level_state ds B S (T(k := (T k)(a \<mapsto> B k + card (dom (T k)) * table_size (ds ! k))))"
    by (rule nth_equalityI) (use cd k(1) in \<open>auto simp: nth_list_update simp del: fun_upd_apply
      simp: fun_upd_same fun_upd_other\<close>)
  ultimately show ?thesis using I(1) k(1) by (simp add: pgt_alloc_table_def Let_def)
qed

lemma get_child_table_ok:
  assumes lay: "layout_ok ds B S sz addr" and inv: "pgt_inv ds B S sz addr T M p"
    and k: "Suc k < length ds" "T (Suc k) (tag ds (Suc k) A) = Some c" "tag ds k A \<in> S k"
  shows "\<exists>p' T' c'. pgt_get_child_table p c (Suc k) A pgt_get_lx_flags = Some (p', c') \<and>
    pgt_inv ds B S sz addr T' M p' \<and> T' k (tag ds k A) = Some c' \<and> extends ds T T'"
proof -
  have ds: "descs_ok ds" and kl: "k < length ds" using lay k(1) unfolding layout_ok_def by auto
  note I = pgt_invD [OF inv] and tg = tag_Suc [OF ds k(1)]
  let ?a = "tag ds k A"
  let ?q = "c + 8 * (?a mod 2 ^ idx_bits (ds ! Suc k))"
  have q: "entry_at p c (pgt_entry_index p (Suc k) A) = Some ?q"
    by (rule entry_at_ok [OF lay inv k(1,2) tg])
  have pm: "ptr_mask p (Suc k) = BITMASK 47 (entry_ptr_shift (ds ! Suc k))"
    using I(1) k(1) by (simp add: ptr_mask_def GFX_ADDRESS_BITS_def)
  have m: "pgt_mem p ?q = slot_value addr T M (Suc k) ?a"
    using memory_okD(1) [OF I(5) k(1,2), of "?a mod 2 ^ idx_bits (ds ! Suc k)"] tg(1) by simp
  show ?thesis
  proof (cases "T k ?a")
    case (Some c')
    note E = child_entry [OF lay I(4) k(1) Some]
    have "pgt_mem p ?q = addr + (of_nat c' OR 1)" using m Some by (simp add: slot_value_def)
    moreover have "unat (addr + of_nat c' - addr) = c'"
      using E(7) layout_okD(5) [OF lay kl] by (simp add: unat_small)
    ultimately have "pgt_get_child_table p c (Suc k) A pgt_get_lx_flags = Some (p, c')"
      using E(3,5) I(3) by (simp add: pgt_get_child_table_def q pm)
    then show ?thesis using inv Some extends_refl by blast
  next
    case None
    define new where "new = B k + card (dom (T k)) * table_size (ds ! k)"
    let ?T = "T(k := (T k)(?a \<mapsto> new))"
    have par: "T (Suc k) (?a div 2 ^ idx_bits (ds ! Suc k)) = Some c" using k(2) tg(1) by simp
    have T': "tables_ok ds B S ?T" unfolding new_def by (rule tables_new [OF lay I(4) k(1) _ None k(3)]) (simp add: par)
    have a': "?T k ?a = Some new" by simp
    note E = child_entry [OF lay T' k(1) a']
    have "pgt_mem p ?q = 0" using m None by (simp add: slot_value_def)
    define p' where "p' = p\<lparr>level_info := level_state ds B S ?T,
      pgt_mem := (pgt_mem p)(?q := addr + (of_nat new OR 1)),
      pgt_relocs := pgt_relocs p @ [(of_nat new OR 1, of_nat ?q)]\<rparr>"
    have "pgt_get_child_table p c (Suc k) A pgt_get_lx_flags = Some (p', new)"
      using \<open>pgt_mem p ?q = 0\<close> E(8,9) I(3)
      by (simp add: pgt_get_child_table_def q pm alloc_table_ok [OF lay inv kl None k(3), folded new_def] pgt_get_lx_flags_def p'_def Let_def)
    moreover have "pgt_inv ds B S sz addr ?T M p'"
      unfolding pgt_inv_def
    proof (intro conjI allI impI)
      show "memory_ok ds B S addr ?T M (pgt_mem p')"
        using memory_new_table [OF lay I(4,5) k(1) par None k(3) I(6) new_def] by (simp add: p'_def)
      show "tables_ok ds B S ?T" by (rule T')
      fix x v assume x: "M x = Some v"
      show "?T 0 (x div 2 ^ idx_bits (ds ! 0)) \<noteq> None" using I(6) [of x] x by auto
      show "odd (unat v)" using I(7) x by blast
    qed (use I in \<open>simp_all add: p'_def\<close>)
    moreover have "extends ds T ?T" using None by (auto simp: extends_def)
    ultimately show ?thesis using a' by blast
  qed
qed

lemma child_loop_ok:
  assumes lay: "layout_ok ds B S sz addr"
  shows "pgt_inv ds B S sz addr T M p \<Longrightarrow> level < length ds \<Longrightarrow> T level (tag ds level A) = Some c \<Longrightarrow>
    (\<And>k. k < level \<Longrightarrow> tag ds k A \<in> S k) \<Longrightarrow>
    \<exists>p' T' c'. child_loop p c level A = Some (p', c') \<and> pgt_inv ds B S sz addr T' M p' \<and>
      T' 0 (tag ds 0 A) = Some c' \<and> extends ds T T'"
proof (induction level arbitrary: p T c)
  case 0
  then show ?case using extends_refl by (intro exI [of _ p] exI [of _ T] exI [of _ c]) simp
next
  case (Suc k)
  obtain p1 T1 c1 where 1: "pgt_get_child_table p c (Suc k) A pgt_get_lx_flags = Some (p1, c1)"
      "pgt_inv ds B S sz addr T1 M p1" "T1 k (tag ds k A) = Some c1" "extends ds T T1"
    using get_child_table_ok [OF lay Suc.prems(1-3) Suc.prems(4) [of k]] by auto
  obtain p2 T2 c2 where 2: "child_loop p1 c1 k A = Some (p2, c2)" "pgt_inv ds B S sz addr T2 M p2"
      "T2 0 (tag ds 0 A) = Some c2" "extends ds T1 T2"
    using Suc.IH [OF 1(2) _ 1(3)] Suc.prems(2,4) by auto
  show ?case using 1 2 extends_trans by (intro exI [of _ p2] exI [of _ T2] exI [of _ c2]) auto
qed

subsection \<open>Filling the table\<close>

abbreviation main_size :: "aux_level_desc list \<Rightarrow> nat" where
  "main_size ds \<equiv> 2 ^ idx_shift (ds ! 0)"

abbreviation ccs_size :: "aux_level_desc list \<Rightarrow> nat" where
  "ccs_size ds \<equiv> 2 ^ entry_ptr_shift (ds ! 0)"

text \<open>The entries of the blocks from address \<open>A\<close> on, \<open>n\<close> bytes, with the compression data at \<open>X\<close>.\<close>

definition surf_map :: "aux_level_desc list \<Rightarrow> u64 \<Rightarrow> nat \<Rightarrow> nat \<Rightarrow> nat \<Rightarrow> nat \<Rightarrow> u64 option" where
  "surf_map ds flags A X n b =
    (if A div main_size ds \<le> b \<and> (b - A div main_size ds) * main_size ds < n
     then Some (of_nat (X + (b - A div main_size ds) * ccs_size ds) OR flags) else None)"

lemma surf_map_step:
  assumes "main_size ds dvd A" "0 < n"
  shows "M(A div main_size ds \<mapsto> of_nat X OR f) ++ surf_map ds f (A + main_size ds) (X + ccs_size ds) (n - main_size ds) =
    M ++ surf_map ds f A X n" (is "?l = ?r")
proof
  fix b
  let ?m = "main_size ds"
  have d: "(A + ?m) div ?m = A div ?m + 1" using div_add_self2 [of ?m A] by simp
  consider "b < A div ?m" | "b = A div ?m" | j where "b = A div ?m + 1 + j"
    by (metis add.commute add.right_neutral less_iff_Suc_add linorder_neqE_nat plus_1_eq_Suc add_Suc_right)
  then show "?l b = ?r b"
  proof cases
    case 1
    then show ?thesis by (simp add: surf_map_def map_add_def d)
  next
    case 2
    then show ?thesis using assms(2) by (simp add: surf_map_def map_add_def d)
  next
    case 3
    have "j * ?m < n - ?m \<longleftrightarrow> Suc j * ?m < n" by auto
    then show ?thesis using 3 by (simp add: surf_map_def map_add_def d add_ac)
  qed
qed

text \<open>All blocks from \<open>A\<close> to \<open>E\<close> have tags that may get tables, and room for their entries.\<close>

definition blocks_ok :: "aux_level_desc list \<Rightarrow> (nat \<Rightarrow> nat set) \<Rightarrow> nat \<Rightarrow> nat \<Rightarrow> nat \<Rightarrow> bool" where
  "blocks_ok ds S A E X \<longleftrightarrow> main_size ds dvd A \<and> ccs_size ds dvd X \<and>
    (\<forall>a k. A \<le> a \<longrightarrow> a < E \<longrightarrow> k < length ds \<longrightarrow> a div 2 ^ level_bits ds k \<in> S k) \<and>
    (\<forall>k. k * main_size ds < E - A \<longrightarrow> X + (k + 1) * ccs_size ds \<le> 2 ^ 48)"

lemma blocks_ok_step:
  assumes "blocks_ok ds S A E X"
  shows "blocks_ok ds S (A + main_size ds) E (X + ccs_size ds)"
  unfolding blocks_ok_def
proof (intro conjI allI impI)
  fix k assume "k * main_size ds < E - (A + main_size ds)"
  then have "Suc k * main_size ds < E - A" by simp
  then have "X + (Suc k + 1) * ccs_size ds \<le> 2 ^ 48" using assms unfolding blocks_ok_def by blast
  then show "X + ccs_size ds + (k + 1) * ccs_size ds \<le> 2 ^ 48" by simp
qed (use assms in \<open>simp_all add: blocks_ok_def\<close>)

lemma surface_loop_ok:
  assumes lay: "layout_ok ds B S sz addr" and flags: "take_bit 48 flags = 1"
    and main: "unat main = main_size ds" "unat ccs = ccs_size ds" and E: "unat E \<le> 2 ^ 48"
  shows "pgt_inv ds B S sz addr T M p \<Longrightarrow> T (length ds - 1) 0 = Some 0 \<Longrightarrow> unat A \<le> 2 ^ 48 + main_size ds \<Longrightarrow>
    blocks_ok ds S (unat A) (unat E) (unat X) \<Longrightarrow>
    \<exists>p' T'. surface_loop main ccs flags E A X 0 p = Some p' \<and>
      pgt_inv ds B S sz addr T' (M ++ surf_map ds flags (unat A) (unat X) (unat E - unat A)) p' \<and>
      T' (length ds - 1) 0 = Some 0"
proof (induction "unat E - unat A" arbitrary: p T M A X rule: less_induct)
  case less
  note inv = less.prems(1) and top = less.prems(2) and bl = less.prems(4)
  have ds: "descs_ok ds" "0 < length ds" using lay unfolding layout_ok_def descs_ok_def by auto
  have sh: "idx_shift (ds ! 0) \<le> 47" "entry_ptr_shift (ds ! 0) \<le> 47"
    using descs_okD(2,6) [OF ds] ds(1) unfolding descs_ok_def by auto
  have pw: "main_size ds \<le> 2 ^ 47" "ccs_size ds \<le> 2 ^ 47"
    using sh by (simp_all only: power_increasing one_le_numeral)
  show ?case
  proof (cases "A < E")
    case False
    then have "unat E - unat A = 0" by (simp add: word_less_nat_alt)
    then have "surf_map ds flags (unat A) (unat X) (unat E - unat A) = Map.empty" by (auto simp: surf_map_def)
    then show ?thesis using False inv top by (subst surface_loop.simps) auto
  next
    case True
    then have lt: "unat A < unat E" by (simp add: word_less_nat_alt)
    have n1: "length ds - 1 < length ds" using ds(2) by simp
    have "tag ds (length ds - 1) A = 0" using lt E ds(1) by (simp add: tag_def descs_ok_def)
    moreover have "tag ds k A \<in> S k" if "k < length ds - 1" for k
      using bl lt that unfolding blocks_ok_def tag_def by (meson le_refl less_imp_diff_less less_le_trans diff_le_self)
    ultimately obtain p1 T1 c where 1: "child_loop p 0 (length ds - 1) A = Some (p1, c)" "pgt_inv ds B S sz addr T1 M p1"
        "T1 0 (tag ds 0 A) = Some c" "extends ds T T1"
      using child_loop_ok [OF lay inv n1, of A 0] top by auto
    have x: "unat X + ccs_size ds \<le> 2 ^ 48" "ccs_size ds dvd unat X"
      using bl lt unfolding blocks_ok_def by (metis add_0 mult_1 mult_zero_left zero_less_diff)+
    have tg: "T1 0 (unat A div main_size ds div 2 ^ idx_bits (ds ! 0)) = Some c"
      using 1(3) by (simp add: tag_def level_bits_def power_add div_mult2_eq)
    have "unat X < 2 ^ 48" using x(1) by (meson add_strict_left_mono le_eq_less_or_eq less_add_same_cancel1 less_le_trans zero_less_numeral zero_less_power)
    from set_l1_entry_ok [OF lay 1(2) tg refl this x(2) flags]
    obtain p2 where 2: "pgt_set_l1_entry p1 c A X flags = Some p2"
        "pgt_inv ds B S sz addr T1 (M(unat A div main_size ds \<mapsto> X OR flags)) p2" by blast
    have A': "unat (A + main) = unat A + main_size ds" using lt E main pw by (subst unat_add_no_wrap) simp_all
    have X': "unat (X + ccs) = unat X + ccs_size ds" using x(1) main by (subst unat_add_no_wrap) simp_all
    have md: "main_size ds dvd unat A" using bl unfolding blocks_ok_def by blast
    have top1: "T1 (length ds - 1) 0 = Some 0" using 1(4) top by (simp add: extends_def)
    have m: "unat E - unat (A + main) < unat E - unat A" using lt unfolding A' by (simp add: diff_less_mono2)
    have a: "unat (A + main) \<le> 2 ^ 48 + main_size ds" using lt E by (simp add: A')
    have bl': "blocks_ok ds S (unat (A + main)) (unat E) (unat (X + ccs))"
      unfolding A' X' by (rule blocks_ok_step [OF bl])
    have "\<exists>p' T'. surface_loop main ccs flags E (A + main) (X + ccs) 0 p2 = Some p' \<and>
        pgt_inv ds B S sz addr T' (M(unat A div main_size ds \<mapsto> X OR flags) ++
          surf_map ds flags (unat (A + main)) (unat (X + ccs)) (unat E - unat (A + main))) p' \<and>
        T' (length ds - 1) 0 = Some 0"
      by (rule less.hyps [OF m 2(2) top1 a bl'])
    moreover have "M(unat A div main_size ds \<mapsto> X OR flags) ++
          surf_map ds flags (unat (A + main)) (unat (X + ccs)) (unat E - unat (A + main)) =
        M ++ surf_map ds flags (unat A) (unat X) (unat E - unat A)"
      using surf_map_step [OF md, of "unat E - unat A" M "unat X" flags] lt unfolding A' X' by (simp add: diff_diff_left)
    ultimately show ?thesis
      using True 1(1) 2(1) pgt_invD(1) [OF inv] by (subst surface_loop.simps) simp
  qed
qed

subsection \<open>Buffers\<close>

text \<open>Alignment, strides and the place of the compression data of one surface; its format has to be one
  the code knows.\<close>

definition aux_surface_ok :: "aux_level_desc list \<Rightarrow> aux_buf \<Rightarrow> nat \<Rightarrow> bool" where
  "aux_surface_ok ds buf i \<longleftrightarrow> (let s = surface buf i in
    main_size ds dvd unat (surf_offset s) \<and> surf_stride s mod 512 = 0 \<and> ccs_stride s = surf_stride s div 512 * 64 \<and>
    ccs_size ds dvd unat (ccs_offset s) \<and>
    unat (ccs_offset s) + (unat (surf_size s) + (main_size ds - 1)) div main_size ds * ccs_size ds \<le> unat (buf_size buf) \<and>
    pgt_get_l1_flags buf i \<noteq> None)"

definition aux_buf_ok :: "aux_level_desc list \<Rightarrow> aux_buf \<Rightarrow> bool" where
  "aux_buf_ok ds buf \<longleftrightarrow> buf_fits buf \<and> main_size ds dvd unat (buf_addr buf) \<and>
    surf_offset (surface buf 0) = 0 \<and> 0 < surf_size (surface buf 0) \<and>
    aux_surface_ok ds buf 0 \<and> (format_is_yuv_semiplanar buf \<longrightarrow> aux_surface_ok ds buf 1 \<and>
      unat (surf_size (surface buf 0)) \<le> unat (surf_offset (surface buf 1)))"

definition surf_start :: "aux_buf \<Rightarrow> nat \<Rightarrow> nat" where
  "surf_start buf i = unat (buf_addr buf) + unat (surf_offset (surface buf i))"

definition ccs_start :: "aux_buf \<Rightarrow> nat \<Rightarrow> nat" where
  "ccs_start buf i = unat (buf_addr buf) + unat (ccs_offset (surface buf i))"

definition entry_map :: "aux_level_desc list \<Rightarrow> aux_buf \<Rightarrow> nat \<Rightarrow> nat \<Rightarrow> u64 option" where
  "entry_map ds buf i = surf_map ds (the (pgt_get_l1_flags buf i)) (surf_start buf i) (ccs_start buf i)
    (unat (surf_size (surface buf i)))"

lemma aux_surfaceD:
  assumes "aux_buf_ok ds buf" "i < num_surfaces buf"
  shows "aux_surface_ok ds buf i"
  using assms by (cases i) (auto simp: aux_buf_ok_def num_surfaces_def split: if_splits)

lemma l1_flags_low:
  assumes "pgt_get_l1_flags buf i = Some f"
  shows "take_bit 48 f = 1"
proof -
  have z: "take_bit 48 (push_bit n x) = (0 :: u64)" if "48 \<le> n" for n and x :: u64
    using that by (intro bit_word_eqI) (auto simp: bit_simps)
  show ?thesis using assms by (auto simp: pgt_get_l1_flags_def Let_def z split: bind_splits)
qed

lemma unat_u32_u64: "unat (ucast (x :: u32) :: u64) = unat x"
  using unat_u32_lt [of x] by (simp add: unsigned_ucast_eq take_bit_nat_eq_self)

lemma surface_facts:
  assumes "aux_buf_ok ds buf" "i < num_surfaces buf" "idx_shift (ds ! 0) = entry_ptr_shift (ds ! 0) + 8"
  shows "surf_start buf i + unat (surf_size (surface buf i)) \<le> unat (buf_addr buf) + surface_end buf"
    "unat (buf_addr buf) + surface_end buf \<le> unat (buf_addr buf) + unat (buf_size buf)"
    "unat (buf_addr buf) + unat (buf_size buf) \<le> 2 ^ 48"
    "main_size ds dvd surf_start buf i" "ccs_size ds dvd ccs_start buf i"
    "k * main_size ds < unat (surf_size (surface buf i)) \<Longrightarrow> ccs_start buf i + (k + 1) * ccs_size ds \<le> 2 ^ 48"
proof -
  have fits: "buf_fits buf" and ad: "main_size ds dvd unat (buf_addr buf)" using assms(1) unfolding aux_buf_ok_def by blast+
  have so: "aux_surface_ok ds buf i" by (rule aux_surfaceD [OF assms(1,2)])
  show "unat (buf_addr buf) + surface_end buf \<le> unat (buf_addr buf) + unat (buf_size buf)"
    using surface_end_bounds(1) [OF fits] by simp
  show "surf_start buf i + unat (surf_size (surface buf i)) \<le> unat (buf_addr buf) + surface_end buf"
    using surface_end_bounds(2) [OF fits assms(2)] by (simp add: surf_start_def surf_end_def)
  show le: "unat (buf_addr buf) + unat (buf_size buf) \<le> 2 ^ 48" using fits unfolding buf_fits_def by blast
  show "main_size ds dvd surf_start buf i" using so ad by (simp add: surf_start_def aux_surface_ok_def Let_def)
  have "ccs_size ds dvd main_size ds" unfolding assms(3) by (simp add: power_add)
  then show "ccs_size ds dvd ccs_start buf i" using so ad unfolding ccs_start_def aux_surface_ok_def Let_def
    by (meson dvd_add dvd_trans)
  assume k: "k * main_size ds < unat (surf_size (surface buf i))"
  have "(k * main_size ds + main_size ds) div main_size ds \<le> (unat (surf_size (surface buf i)) + (main_size ds - 1)) div main_size ds"
    using k by (intro div_le_mono) simp
  moreover have "(k * main_size ds + main_size ds) div main_size ds = k + 1"
    using div_mult_self_is_m [of "main_size ds" "k + 1"] by (simp add: algebra_simps)
  ultimately have "(k + 1) * ccs_size ds \<le> (unat (surf_size (surface buf i)) + (main_size ds - 1)) div main_size ds * ccs_size ds"
    by (metis mult_le_mono1)
  then show "ccs_start buf i + (k + 1) * ccs_size ds \<le> 2 ^ 48"
    using so le unfolding ccs_start_def aux_surface_ok_def Let_def by linarith
qed

lemma populate_surface_ok:
  assumes lay: "layout_ok ds B S sz addr" and inv: "pgt_inv ds B S sz addr T M p" "T (length ds - 1) 0 = Some 0"
    and buf: "aux_buf_ok ds buf" "i < num_surfaces buf"
    and S: "\<And>l. l < length ds \<Longrightarrow> buf_tags (level_bits ds l) buf \<subseteq> S l"
  shows "\<exists>p' T'. pgt_populate_entries_for_buf p buf 0 i = Some p' \<and>
    pgt_inv ds B S sz addr T' (M ++ entry_map ds buf i) p' \<and> T' (length ds - 1) 0 = Some 0"
proof -
  have ds: "descs_ok ds" "0 < length ds" "idx_shift (ds ! 0) = entry_ptr_shift (ds ! 0) + 8"
    using lay unfolding layout_ok_def descs_ok_def by auto
  note F = surface_facts [OF buf ds(3)]
  have so: "aux_surface_ok ds buf i" by (rule aux_surfaceD [OF buf])
  then obtain f where f: "pgt_get_l1_flags buf i = Some f" unfolding aux_surface_ok_def Let_def by blast
  let ?s = "surface buf i"
  let ?A = "buf_addr buf + ucast (surf_offset ?s)" and ?X = "buf_addr buf + ucast (ccs_offset ?s)"
  let ?ccs = "push_bit (entry_ptr_shift (ds ! 0)) 1 :: u64"
  have sh: "entry_ptr_shift (ds ! 0) \<le> 39" using descs_okD(2,6) [OF ds(1,2)] ds(3) by linarith
  have A: "unat ?A = surf_start buf i" using F(1-3) by (subst unat_add_no_wrap) (simp_all add: unat_u32_u64 surf_start_def)
  have cl: "ccs_start buf i \<le> 2 ^ 48" using so F(3) unfolding ccs_start_def aux_surface_ok_def Let_def by linarith
  have X: "unat ?X = ccs_start buf i" using cl by (subst unat_add_no_wrap) (simp_all add: unat_u32_u64 ccs_start_def)
  have E: "unat (?A + surf_size ?s) = surf_start buf i + unat (surf_size ?s)" "unat (?A + surf_size ?s) \<le> 2 ^ 48"
    using F(1-3) A by (simp_all add: unat_add_no_wrap)
  have c: "unat ?ccs = ccs_size ds" using sh unat_page [of "entry_ptr_shift (ds ! 0)"] by simp
  have m: "unat (?ccs * 8 div 2 * 64) = main_size ds"
  proof -
    have pw: "ccs_size ds \<le> 2 ^ 39" using sh by (rule power_increasing) simp
    have "unat (?ccs * 8) = ccs_size ds * 8" using pw c by (subst unat_mult_no_wrap) simp_all
    then have "unat (?ccs * 8 div 2) = ccs_size ds * 4" by (simp add: unat_div)
    then have "unat (?ccs * 8 div 2 * 64) = ccs_size ds * 4 * 64" using pw by (subst unat_mult_no_wrap) simp_all
    also have "\<dots> = main_size ds" unfolding ds(3) by (simp add: power_add)
    finally show ?thesis .
  qed
  have "blocks_ok ds S (unat ?A) (unat (?A + surf_size ?s)) (unat ?X)"
    unfolding blocks_ok_def A E(1) X
  proof (intro conjI allI impI)
    fix a k assume a: "surf_start buf i \<le> a" "a < surf_start buf i + unat (surf_size ?s)" and k: "k < length ds"
    let ?b = "level_bits ds k"
    have "unat (buf_addr buf) div 2 ^ ?b \<le> a div 2 ^ ?b" using a(1) by (intro div_le_mono) (simp add: surf_start_def)
    moreover have "a div 2 ^ ?b < (unat (buf_addr buf) + surface_end buf + (2 ^ ?b - 1)) div 2 ^ ?b"
    proof -
      have "(a + 2 ^ ?b) div 2 ^ ?b \<le> (unat (buf_addr buf) + surface_end buf + (2 ^ ?b - 1)) div 2 ^ ?b"
        using a(2) F(1) by (intro div_le_mono) simp
      then show ?thesis using div_add_self2 [of "2 ^ ?b" a] by simp
    qed
    ultimately show "a div 2 ^ ?b \<in> S k" using S [OF k] by (auto simp: buf_tags_def)
  qed (use F(4-6) in auto)
  moreover have "unat ?A \<le> 2 ^ 48 + main_size ds" using E unfolding A by linarith
  ultimately have "\<exists>p' T'. surface_loop (?ccs * 8 div 2 * 64) ?ccs f (?A + surf_size ?s) ?A ?X 0 p = Some p' \<and>
      pgt_inv ds B S sz addr T' (M ++ surf_map ds f (unat ?A) (unat ?X) (unat (?A + surf_size ?s) - unat ?A)) p' \<and>
      T' (length ds - 1) 0 = Some 0"
    using surface_loop_ok [OF lay l1_flags_low [OF f] m c E(2) inv] by blast
  moreover have "surf_map ds f (unat ?A) (unat ?X) (unat (?A + surf_size ?s) - unat ?A) = entry_map ds buf i"
    unfolding A X E(1) by (simp add: entry_map_def f)
  ultimately show ?thesis
    using so f pgt_invD(1) [OF inv(1)] ds(2)
    by (simp add: pgt_populate_entries_for_buf_def Let_def aux_surface_ok_def)
qed

definition buf_maps :: "aux_level_desc list \<Rightarrow> aux_buf list \<Rightarrow> (nat \<Rightarrow> u64 option) list" where
  "buf_maps ds bufs = concat (map (\<lambda>buf. map (entry_map ds buf) [0..<num_surfaces buf]) bufs)"

lemma populate_loop_ok:
  assumes lay: "layout_ok ds B S sz addr" 
  shows "pgt_inv ds B S sz addr T M p \<Longrightarrow> T (length ds - 1) 0 = Some 0 \<Longrightarrow>
    (\<And>buf. buf \<in> set bufs \<Longrightarrow> aux_buf_ok ds buf) \<Longrightarrow>
    (\<And>l. l < length ds \<Longrightarrow> tags (level_bits ds l) bufs \<subseteq> S l) \<Longrightarrow>
    \<exists>p' T'. populate_loop p 0 bufs = Some p' \<and> pgt_inv ds B S sz addr T' (foldl (++) M (buf_maps ds bufs)) p' \<and> T' (length ds - 1) 0 = Some 0"
proof (induction bufs arbitrary: p T M)
  case Nil
  then show ?case by (auto simp: buf_maps_def)
next
  case (Cons buf bufs)
  have buf: "aux_buf_ok ds buf" "surf_offset (surface buf 0) = 0" using Cons.prems(3) [of buf] by (auto simp: aux_buf_ok_def)
  have S: "buf_tags (level_bits ds l) buf \<subseteq> S l" "tags (level_bits ds l) bufs \<subseteq> S l" if "l < length ds" for l
    using Cons.prems(4) [OF that] by auto
  have "0 < num_surfaces buf" by (simp add: num_surfaces_def)
  from populate_surface_ok [OF lay Cons.prems(1,2) buf(1) this S(1)]
  obtain p1 T1 where 1: "pgt_populate_entries_for_buf p buf 0 0 = Some p1"
      "pgt_inv ds B S sz addr T1 (M ++ entry_map ds buf 0) p1" "T1 (length ds - 1) 0 = Some 0" by blast
  have "\<exists>p2 T2. (if format_is_yuv_semiplanar buf then pgt_populate_entries_for_buf p1 buf 0 1 else Some p1) = Some p2 \<and>
      pgt_inv ds B S sz addr T2 (foldl (++) M (map (entry_map ds buf) [0..<num_surfaces buf])) p2 \<and> T2 (length ds - 1) 0 = Some 0"
  proof (cases "format_is_yuv_semiplanar buf")
    case True
    then have "1 < num_surfaces buf" by (simp add: num_surfaces_def)
    then show ?thesis using populate_surface_ok [OF lay 1(2,3) buf(1) _ S(1), of 1] True
      by (simp add: num_surfaces_def numeral_2_eq_2)
  qed (use 1 in \<open>auto simp: num_surfaces_def\<close>)
  then obtain p2 T2 where 2: "(if format_is_yuv_semiplanar buf then pgt_populate_entries_for_buf p1 buf 0 1 else Some p1) = Some p2"
      "pgt_inv ds B S sz addr T2 (foldl (++) M (map (entry_map ds buf) [0..<num_surfaces buf])) p2"
      "T2 (length ds - 1) 0 = Some 0" by blast
  have "\<exists>p' T'. populate_loop p2 0 bufs = Some p' \<and>
      pgt_inv ds B S sz addr T' (foldl (++) (foldl (++) M (map (entry_map ds buf) [0..<num_surfaces buf])) (buf_maps ds bufs)) p' \<and>
      T' (length ds - 1) 0 = Some 0"
    by (rule Cons.IH [OF 2(2,3)]) (use Cons.prems(3) S(2) in auto)
  then show ?case using 1(1) 2(1) buf(2) by (simp add: buf_maps_def)
qed

lemma maps_value_Some: "foldl (++) M ms b = Some e \<Longrightarrow> M b = Some e \<or> (\<exists>m\<in>set ms. m b = Some e)"
  by (induction ms arbitrary: M) (fastforce simp: map_add_Some_iff)+

lemma maps_value_None: "foldl (++) M ms b = None \<longleftrightarrow> M b = None \<and> (\<forall>m\<in>set ms. m b = None)"
  by (induction ms arbitrary: M) (auto simp: map_add_None)

subsection \<open>The finished table\<close>

lemma entry_parents:
  assumes lay: "layout_ok ds B S sz addr" and inv: "pgt_inv ds B S sz addr T M p" and M: "M (A div main_size ds) \<noteq> None"
  shows "l < length ds \<Longrightarrow> T l (A div 2 ^ level_bits ds l) \<noteq> None"
proof (induction l)
  case 0
  then show ?case using pgt_invD(6) [OF inv M] by (simp add: level_bits_def power_add div_mult2_eq)
next
  case (Suc l)
  have ds: "descs_ok ds" using lay unfolding layout_ok_def by blast
  have "T (Suc l) (A div 2 ^ level_bits ds l div 2 ^ idx_bits (ds ! Suc l)) \<noteq> None"
    using pgt_invD(4) [OF inv] Suc unfolding tables_ok_def by simp
  moreover have "level_bits ds (Suc l) = level_bits ds l + idx_bits (ds ! Suc l)"
    using descs_okD_Suc(1) [OF ds Suc.prems] by (simp add: level_bits_def)
  ultimately show ?case by (simp add: power_add div_mult2_eq)
qed

lemma aux_walk_ok:
  assumes lay: "layout_ok ds B S sz addr" and inv: "pgt_inv ds B S sz addr T M p"
  shows "l < length ds \<Longrightarrow> T l (A div 2 ^ level_bits ds l) = Some c \<Longrightarrow> aux_walk p c l A = M (A div main_size ds)"
proof (induction l arbitrary: c)
  case 0
  have t: "A div 2 ^ level_bits ds 0 = A div main_size ds div 2 ^ idx_bits (ds ! 0)"
    by (simp add: level_bits_def power_add div_mult2_eq)
  have "pgt_mem p (c + 8 * (A div main_size ds mod 2 ^ idx_bits (ds ! 0))) = slot_value addr T M 0 (A div main_size ds)"
    using memory_okD(1) [OF pgt_invD(5) [OF inv] 0, of "A div main_size ds mod 2 ^ idx_bits (ds ! 0)"] unfolding t by simp
  then show ?case
    using pgt_invD(1) [OF inv] pgt_invD(7) [OF inv, of "A div main_size ds"] 0(1)
    by (auto simp: slot_value_def Let_def split: option.splits)
next
  case (Suc k)
  note I = pgt_invD [OF inv]
  have ds: "descs_ok ds" and kl: "k < length ds" using lay Suc.prems(1) unfolding layout_ok_def by auto
  have sh: "idx_shift (ds ! Suc k) = level_bits ds k" by (rule descs_okD_Suc(1) [OF ds Suc.prems(1)])
  let ?a = "A div 2 ^ level_bits ds k"
  have t: "A div 2 ^ level_bits ds (Suc k) = ?a div 2 ^ idx_bits (ds ! Suc k)"
    using sh by (simp add: level_bits_def power_add div_mult2_eq)
  let ?q = "c + 8 * (?a mod 2 ^ idx_bits (ds ! Suc k))"
  have m: "pgt_mem p ?q = slot_value addr T M (Suc k) ?a"
    using memory_okD(1) [OF I(5) Suc.prems, of "?a mod 2 ^ idx_bits (ds ! Suc k)"] unfolding t by simp
  show ?case
  proof (cases "T k ?a")
    case None
    then have "M (A div main_size ds) = None" using entry_parents [OF lay inv _ kl, of A] by blast
    then show ?thesis using m None I(1) Suc.prems(1) sh by (simp add: slot_value_def Let_def)
  next
    case (Some c')
    note E = child_entry [OF lay I(4) Suc.prems(1) Some]
    have "unat (pgt_mem p ?q) mod 2 ^ 48 div 2 ^ entry_ptr_shift (ds ! Suc k) * 2 ^ entry_ptr_shift (ds ! Suc k) = unat addr + c'"
      using E(3,6) unat_ptr_field [of "pgt_mem p ?q" "entry_ptr_shift (ds ! Suc k)"] m Some by (simp add: slot_value_def)
    moreover have "odd (unat (pgt_mem p ?q))" using E(4) m Some by (simp add: slot_value_def)
    ultimately show ?thesis using Suc.IH [OF kl Some] I(1,3) Suc.prems(1) sh by (simp add: Let_def)
  qed
qed

lemma translate_ok:
  assumes lay: "layout_ok ds B S sz addr" and inv: "pgt_inv ds B S sz addr T M p" and top: "T (length ds - 1) 0 = Some 0"
    and A: "A < 2 ^ 48"
  shows "aux_translate p A = M (A div main_size ds)"
proof -
  have ds: "0 < length ds" "level_bits ds (length ds - 1) = 48" using lay unfolding layout_ok_def descs_ok_def by auto
  have "T (length ds - 1) (A div 2 ^ level_bits ds (length ds - 1)) = Some 0" using top A ds by simp
  then have "aux_walk p 0 (length ds - 1) A = M (A div main_size ds)" by (intro aux_walk_ok [OF lay inv]) (use ds in simp_all)
  then show ?thesis using pgt_invD(1) [OF inv] by (simp add: aux_translate_def)
qed

subsection \<open>Creating the table\<close>

abbreviation no_tables :: tables where
  "no_tables \<equiv> \<lambda>_ _. None"

lemma populate_entries_ok:
  assumes lay: "layout_ok ds B S sz addr" "B (length ds - 1) = 0" "0 \<in> S (length ds - 1)"
    and p: "level_info p = level_state ds B S no_tables" "pgt_size p = sz" "pgt_addr p = addr" "pgt_mem p = (\<lambda>_. 0)"
    and bufs: "\<And>buf. buf \<in> set bufs \<Longrightarrow> aux_buf_ok ds buf"
      "\<And>l. l < length ds \<Longrightarrow> tags (level_bits ds l) bufs \<subseteq> S l"
  shows "\<exists>p' T'. pgt_populate_entries p bufs = Some p' \<and>
    pgt_inv ds B S sz addr T' (foldl (++) Map.empty (buf_maps ds bufs)) p' \<and> T' (length ds - 1) 0 = Some 0"
proof -
  let ?n = "length ds - 1"
  have n: "?n < length ds" using lay(1) unfolding layout_ok_def descs_ok_def by simp
  have inv: "pgt_inv ds B S sz addr no_tables Map.empty p"
    using p by (auto simp: pgt_inv_def tables_ok_def memory_ok_def)
  let ?T = "no_tables(?n := (Map.empty)(0 \<mapsto> 0))"
  let ?p = "p\<lparr>level_info := level_state ds B S ?T\<rparr>"
  have a: "pgt_alloc_table p ?n = Some (?p, 0)"
    using alloc_table_ok [OF lay(1) inv n, of 0] lay(2,3) by simp
  have "tables_ok ds B S ?T" using lay(2,3) by (auto simp: tables_ok_def split: if_splits)
  moreover have "memory_ok ds B S addr ?T Map.empty (\<lambda>_. 0)"
    unfolding memory_ok_def by (auto simp: slot_value_def split: nat.splits if_splits)
  ultimately have "pgt_inv ds B S sz addr ?T Map.empty ?p" using p by (simp add: pgt_inv_def)
  from populate_loop_ok [OF lay(1) this _ bufs] show ?thesis
    using a p(1) by (simp add: pgt_populate_entries_def)
qed

lemma ALIGN_int_multiple: "ALIGN_int (k * 2 ^ m) (2 ^ m) = k * 2 ^ m"
proof -
  have "(int (k * 2 ^ m) + (int (2 ^ m) - 1)) AND NOT (int (2 ^ m) - 1) =
      push_bit m (drop_bit m (int k * 2 ^ m + (2 ^ m - 1)))"
    by (rule bit_eqI) (auto simp: bit_simps mask_eq_exp_minus_1 [symmetric])
  also have "\<dots> = int k * 2 ^ m"
    by (simp add: push_bit_eq_mult drop_bit_eq_div div_add1_eq)
  finally show ?thesis unfolding ALIGN_int_def by (simp add: nat_mult_distrib nat_power_eq)
qed

definition table_base :: "(nat \<Rightarrow> nat set) \<Rightarrow> nat \<Rightarrow> nat" where
  "table_base S l = (if l = 0 then (card (S 2) + card (S 1)) * 2 ^ 15 else if l = 1 then card (S 2) * 2 ^ 15 else 0)"

definition table_total :: "(nat \<Rightarrow> nat set) \<Rightarrow> nat" where
  "table_total S = (card (S 2) + card (S 1)) * 2 ^ 15 + card (S 0) * 2 ^ 13"

lemma pgt_create_ok:
  assumes sz: "map table_size ds = [2 ^ 13, 2 ^ 15, 2 ^ 15]"
    and cnt: "\<And>l. l < length ds \<Longrightarrow> pgt_table_count (level_bits ds l) bufs = Some (card (S l))"
  shows "pgt_create ds bufs = Some \<lparr>level_info = level_state ds (table_base S) S no_tables, pgt_size = table_total S,
    max_align = 2 ^ 15, pgt_addr = 0, pgt_mem = \<lambda>_. 0, pgt_relocs = []\<rparr>"
proof -
  obtain d0 d1 d2 where ds: "ds = [d0, d1, d2]" and t: "table_size d0 = 2 ^ 13" "table_size d1 = 2 ^ 15" "table_size d2 = 2 ^ 15"
    using sz by (auto simp: map_eq_Cons_conv)
  define n0 n1 n2 where n: "n0 = card (S 0)" "n1 = card (S 1)" "n2 = card (S 2)"
  have c: "pgt_table_count (idx_shift d0 + idx_bits d0) bufs = Some (n0)"
    "pgt_table_count (idx_shift d1 + idx_bits d1) bufs = Some (n1)"
    "pgt_table_count (idx_shift d2 + idx_bits d2) bufs = Some (n2)"
    using cnt [of 0] cnt [of 1] cnt [of 2] by (simp_all add: ds level_bits_def n)
  define b1 b0 where "b1 = n2 * 2 ^ 15" and "b0 = (n2 + n1) * (2 :: nat) ^ 15"
  have al: "ALIGN_int 0 (table_size d2) = 0" "ALIGN_int (n2 * table_size d2) (table_size d1) = b1"
    "ALIGN_int (b1 + n1 * table_size d1) (table_size d0) = b0"
    using ALIGN_int_multiple [of 0 15] ALIGN_int_multiple [of "n2" 15]
      ALIGN_int_multiple [of "(n2 + n1) * 4" 13] by (simp_all add: b1_def b0_def t algebra_simps)
  have "calc_size_loop bufs (Suc (Suc (Suc 0))) 0 (map (\<lambda>d. \<lparr>lv_desc = d, table_count = 0, alloc_base = 0, alloc_ptr = 0\<rparr>) ds) =
      Some ([\<lparr>lv_desc = d0, table_count = n0, alloc_base = b0, alloc_ptr = b0\<rparr>,
        \<lparr>lv_desc = d1, table_count = n1, alloc_base = b1, alloc_ptr = b1\<rparr>,
        \<lparr>lv_desc = d2, table_count = n2, alloc_base = 0, alloc_ptr = 0\<rparr>], b0 + n0 * table_size d0)"
    by (simp add: ds c al)
  moreover have "level_state ds (table_base S) S no_tables = [\<lparr>lv_desc = d0, table_count = n0, alloc_base = b0, alloc_ptr = b0\<rparr>,
        \<lparr>lv_desc = d1, table_count = n1, alloc_base = b1, alloc_ptr = b1\<rparr>,
        \<lparr>lv_desc = d2, table_count = n2, alloc_base = 0, alloc_ptr = 0\<rparr>]"
    by (simp add: level_state_def ds upt_rec table_base_def b0_def b1_def n numeral_2_eq_2)
  moreover have "table_total S = b0 + n0 * table_size d0" by (simp add: table_total_def b0_def t n)
  moreover have "fold (\<lambda>d m. if m < table_size d then table_size d else m) ds 0 = 2 ^ 15" by (simp add: ds t)
  moreover have "length ds = Suc (Suc (Suc 0))" by (simp add: ds)
  ultimately show ?thesis
    unfolding pgt_create_def pgt_calc_size_def by (simp del: calc_size_loop.simps)
qed

lemma card_buf_tags: "card (buf_tags b buf) \<le> surface_end buf div 2 ^ b + 2"
proof -
  let ?p = "2 ^ b :: nat" and ?A = "unat (buf_addr buf)"
  have "?A + surface_end buf + (?p - 1) < (?A div ?p + surface_end buf div ?p + 3) * ?p"
  proof -
    have "?A < (?A div ?p + 1) * ?p" "surface_end buf < (surface_end buf div ?p + 1) * ?p"
      by (simp_all add: dividend_less_div_times)
    then show ?thesis by (simp add: algebra_simps)
  qed
  then have "(?A + surface_end buf + (?p - 1)) div ?p < ?A div ?p + surface_end buf div ?p + 3"
    by (simp add: less_mult_imp_div_less)
  then show ?thesis by (simp add: buf_tags_def)
qed

lemma card_tags:
  assumes "\<And>buf. buf \<in> set bufs \<Longrightarrow> surface_end buf \<le> 2 ^ 36" "b \<le> 36"
  shows "card (tags b bufs) \<le> length bufs * (2 ^ (36 - b) + 2)"
  using assms(1)
proof (induction bufs)
  case (Cons buf bufs)
  have "surface_end buf div 2 ^ b \<le> 2 ^ 36 div 2 ^ b" using Cons.prems [of buf] by (intro div_le_mono) simp
  also have "\<dots> = 2 ^ (36 - b)" using assms(2) by (simp add: power_diff)
  finally have "card (buf_tags b buf) \<le> 2 ^ (36 - b) + 2" using card_buf_tags [of b buf] by linarith
  moreover have "card (tags b bufs) \<le> length bufs * (2 ^ (36 - b) + 2)" using Cons by simp
  moreover have "card (tags b (buf # bufs)) \<le> card (buf_tags b buf) + card (tags b bufs)" by (simp add: card_Un_le)
  ultimately show ?case by (simp del: tags_simps)
qed simp

text \<open>The top level: one table for the whole address space.\<close>

lemma tags_top:
  assumes "\<And>buf. buf \<in> set bufs \<Longrightarrow> aux_buf_ok ds buf" "bufs \<noteq> []"
  shows "tags 48 bufs = {0}"
proof -
  have "buf_tags 48 buf = {0}" if "buf \<in> set bufs" for buf
  proof -
    have ok: "aux_buf_ok ds buf" using assms(1) that by blast
    then have fits: "buf_fits buf" and "0 < surf_size (surface buf 0)" unfolding aux_buf_ok_def by blast+
    have "surf_end buf 0 \<le> surface_end buf" by (rule surface_end_bounds(2) [OF fits]) (simp add: num_surfaces_def)
    then have p: "0 < surface_end buf" using \<open>0 < surf_size (surface buf 0)\<close> by (simp add: surf_end_def unat_gt_0_word)
    have le: "unat (buf_addr buf) + surface_end buf \<le> 2 ^ 48"
      using surface_end_bounds(1) [OF fits] fits unfolding buf_fits_def by linarith
    have "unat (buf_addr buf) div 2 ^ 48 = 0" using p le by simp
    moreover have "(unat (buf_addr buf) + surface_end buf + (2 ^ 48 - 1)) div 2 ^ 48 = 1"
      by (rule div_nat_eqI) (use p le in simp_all)
    ultimately show ?thesis by (auto simp: buf_tags_def)
  qed
  then show ?thesis using assms(2) by (auto simp: tags_def)
qed

definition aux_levels :: "bool \<Rightarrow> aux_level_desc list" where
  "aux_levels is_meteorlake = (if is_meteorlake then level_desc_table_mtl else level_desc_table_tgl)"

lemma aux_levels_ok:
  "descs_ok (aux_levels mtl)" "map table_size (aux_levels mtl) = [2 ^ 13, 2 ^ 15, 2 ^ 15]" "length (aux_levels mtl) = 3"
  "level_bits (aux_levels mtl) 0 = 24" "level_bits (aux_levels mtl) 1 = 36" "level_bits (aux_levels mtl) 2 = 48"
proof -
  have l3: "l < 3 \<longleftrightarrow> l = 0 \<or> l = 1 \<or> l = 2" "Suc l < 3 \<longleftrightarrow> l = 0 \<or> l = 1" for l :: nat by auto
  show "descs_ok (aux_levels mtl)"
    by (cases mtl) (auto simp: descs_ok_def aux_levels_def level_desc_table_mtl_def level_desc_table_tgl_def level_bits_def
        less_Suc_eq nth_Cons')
qed (auto simp: aux_levels_def level_desc_table_mtl_def level_desc_table_tgl_def level_bits_def)

text \<open>The table the code creates, and the map it stands for.\<close>

lemma aux_create_ok:
  assumes bufs: "bufs \<noteq> []" "length bufs \<le> 16" "sorted_wrt bufs_apart bufs"
      "\<And>buf. buf \<in> set bufs \<Longrightarrow> aux_buf_ok (aux_levels mtl) buf \<and> unat (buf_size buf) \<le> 2 ^ 36"
    and place: "\<And>sz al. sz < 2 ^ 31 \<Longrightarrow> al dvd unat (place sz al) \<and> unat (place sz al) + sz \<le> 2 ^ 48"
  shows "\<exists>pgt. intel_aux_pgtable_create place mtl bufs = Some pgt \<and>
    (\<forall>A<2 ^ 48. aux_translate pgt A =
      foldl (++) Map.empty (buf_maps (aux_levels mtl) bufs) (A div main_size (aux_levels mtl)))"
proof -
  let ?ds = "aux_levels mtl"
  note D = aux_levels_ok [of mtl]
  have fits: "buf_fits buf" and small: "surface_end buf \<le> 2 ^ 36" if "buf \<in> set bufs" for buf
  proof -
    show "buf_fits buf" using bufs(4) [OF that] unfolding aux_buf_ok_def by blast
    then show "surface_end buf \<le> 2 ^ 36" using surface_end_bounds(1) [of buf] bufs(4) [OF that] by linarith
  qed
  define S where "S = (\<lambda>l. tags (level_bits ?ds l) bufs)"
  have cnt: "pgt_table_count (level_bits ?ds l) bufs = Some (card (S l))" if "l < length ?ds" for l
    unfolding S_def by (rule pgt_table_count_ok [OF descs_okD(3) [OF D(1) that] fits bufs(3)])
  have S2: "S 2 = {0}" unfolding S_def D by (rule tags_top) (use bufs in auto)
  have S1: "card (S 1) \<le> 48" using card_tags [of bufs 36, OF small] bufs(2) unfolding S_def D by simp
  have S0: "card (S 0) \<le> 65568" using card_tags [of bufs 24, OF small] bufs(2) unfolding S_def D by simp
  have tot: "table_total S < 2 ^ 31" using S0 S1 S2 by (simp add: table_total_def)
  define addr where "addr = place (table_total S) (2 ^ 15)"
  have ts: "table_size (?ds ! 0) = 2 ^ 13" "table_size (?ds ! 1) = 2 ^ 15" "table_size (?ds ! 2) = 2 ^ 15"
    using arg_cong [OF D(2), of "\<lambda>x. x ! 0"] arg_cong [OF D(2), of "\<lambda>x. x ! 1"] arg_cong [OF D(2), of "\<lambda>x. x ! 2"] D(3)
    by (simp_all del: One_nat_def)
  have l3: "l < length ?ds \<longleftrightarrow> l = 0 \<or> l = 1 \<or> l = 2" for l unfolding D by auto
  have lay: "layout_ok ?ds (table_base S) S (table_total S) addr"
    unfolding layout_ok_def
  proof (intro conjI allI impI)
    show "2 ^ 15 dvd unat addr" "unat addr + table_total S \<le> 2 ^ 48"
      unfolding addr_def using place [OF tot, of "2 ^ 15"] by blast+
    fix l assume "l < length ?ds"
    then have l: "l = 0 \<or> l = 1 \<or> l = 2" by (simp only: l3)
    show "finite (S l)" by (simp add: S_def)
    show "table_size (?ds ! l) dvd table_base S l" using l ts by (auto simp: table_base_def)
    show "table_base S l + card (S l) * table_size (?ds ! l) \<le> table_total S"
      using l ts by (auto simp: table_base_def table_total_def)
  next
    fix l l' :: nat assume "l < l'" "l' < length ?ds"
    then have "(l = 0 \<and> l' = 1) \<or> (l = 0 \<and> l' = 2) \<or> (l = 1 \<and> l' = 2)" unfolding l3 by auto
    then show "table_base S l' + card (S l') * table_size (?ds ! l') \<le> table_base S l"
      using ts by (auto simp: table_base_def)
  qed (use D(1) tot in simp_all)
  have cr: "pgt_create ?ds bufs = Some \<lparr>level_info = level_state ?ds (table_base S) S no_tables, pgt_size = table_total S,
      max_align = 2 ^ 15, pgt_addr = 0, pgt_mem = \<lambda>_. 0, pgt_relocs = []\<rparr>" by (rule pgt_create_ok [OF D(2) cnt])
  let ?p = "\<lparr>level_info = level_state ?ds (table_base S) S no_tables, pgt_size = table_total S,
      max_align = 2 ^ 15, pgt_addr = addr, pgt_mem = \<lambda>_. 0, pgt_relocs = []\<rparr>"
  have "\<exists>p' T'. pgt_populate_entries ?p bufs = Some p' \<and>
      pgt_inv ?ds (table_base S) S (table_total S) addr T' (foldl (++) Map.empty (buf_maps ?ds bufs)) p' \<and>
      T' (length ?ds - 1) 0 = Some 0"
    by (rule populate_entries_ok [OF lay]) (use bufs(4) S2 D(3) in \<open>simp_all add: table_base_def S_def\<close>)
  then obtain p' T' where p': "pgt_populate_entries ?p bufs = Some p'"
      "pgt_inv ?ds (table_base S) S (table_total S) addr T' (foldl (++) Map.empty (buf_maps ?ds bufs)) p'"
      "T' (length ?ds - 1) 0 = Some 0" by blast
  have "intel_aux_pgtable_create place mtl bufs = Some p'"
    using cr p'(1) bufs(1) by (simp add: intel_aux_pgtable_create_def aux_levels_def addr_def)
  then show ?thesis using translate_ok [OF lay p'(2,3)] by blast
qed

subsection \<open>What the table translates\<close>

text \<open>\<open>A\<close> lies in block \<open>k\<close> of a surface.\<close>

definition aux_block :: "aux_level_desc list \<Rightarrow> aux_buf \<Rightarrow> nat \<Rightarrow> nat \<Rightarrow> nat \<Rightarrow> bool" where
  "aux_block ds buf i A k \<longleftrightarrow> i < num_surfaces buf \<and> A div main_size ds = surf_start buf i div main_size ds + k \<and>
    k * main_size ds < unat (surf_size (surface buf i))"

text \<open>The walk from an address of a surface ends in an entry with the address of the compression data of
  its block and the flags of the surface; from any other address it ends in an invalid entry.\<close>

definition aux_table_correct :: "aux_level_desc list \<Rightarrow> pgtable \<Rightarrow> aux_buf list \<Rightarrow> bool" where
  "aux_table_correct ds pgt bufs \<longleftrightarrow> (\<forall>A<2 ^ 48.
    (\<forall>buf\<in>set bufs. \<forall>i k. aux_block ds buf i A k \<longrightarrow>
      (\<exists>e. aux_translate pgt A = Some e \<and>
        unat (e AND BITMASK 47 (entry_ptr_shift (ds ! 0))) = ccs_start buf i + k * ccs_size ds \<and>
        pgt_get_l1_flags buf i = Some (e AND NOT (BITMASK 47 (entry_ptr_shift (ds ! 0)))))) \<and>
    ((\<forall>buf\<in>set bufs. \<forall>i k. \<not> aux_block ds buf i A k) \<longrightarrow> aux_translate pgt A = None))"

lemma entry_map_block:
  "i < num_surfaces buf \<Longrightarrow> entry_map ds buf i (A div main_size ds) \<noteq> None \<longleftrightarrow> (\<exists>k. aux_block ds buf i A k)"
  "aux_block ds buf i A k \<Longrightarrow> entry_map ds buf i (A div main_size ds) =
    Some (of_nat (ccs_start buf i + k * ccs_size ds) OR the (pgt_get_l1_flags buf i))"
  by (auto simp: entry_map_def surf_map_def aux_block_def le_iff_add)

lemma block_below:
  assumes m: "m dvd p" "m dvd (q :: nat)" "0 < m" and lt: "k * m < n" "p + n \<le> q"
  shows "p div m + k < q div m"
proof -
  obtain x y where e: "p = x * m" "q = y * m" using m by (auto simp: dvd_def mult.commute)
  have "(x + k) * m < y * m" using lt by (simp add: e algebra_simps)
  then have "x + k < y" by simp
  then show ?thesis using m(3) by (simp add: e)
qed

lemma aux_block_unique:
  assumes bufs: "sorted_wrt bufs_apart bufs" "\<And>buf. buf \<in> set bufs \<Longrightarrow> aux_buf_ok ds buf"
      "idx_shift (ds ! 0) = entry_ptr_shift (ds ! 0) + 8"
    and b: "buf \<in> set bufs" "aux_block ds buf i A k" and b': "buf' \<in> set bufs" "aux_block ds buf' i' A k'"
  shows "buf = buf' \<and> i = i' \<and> k = k'"
proof -
  have less: "x div main_size ds + j < y div main_size ds" if "main_size ds dvd x" "main_size ds dvd y"
      "j * main_size ds < n" "x + n \<le> y" for x y j n
    by (rule block_below [OF that(1,2) _ that(3,4)]) simp
  have diff: False if "c \<in> set bufs" "c' \<in> set bufs" "bufs_apart c c'" "aux_block ds c j A m" "aux_block ds c' j' A m'"
    for c c' j j' m m'
  proof -
    have n: "j < num_surfaces c" "j' < num_surfaces c'" using that(4,5) unfolding aux_block_def by blast+
    note F = surface_facts [OF bufs(2) [OF that(1)] n(1) bufs(3)] and F' = surface_facts [OF bufs(2) [OF that(2)] n(2) bufs(3)]
    have "surf_start c j + unat (surf_size (surface c j)) \<le> surf_start c' j'"
      using F(1,2) that(3) unfolding bufs_apart_def surf_start_def by linarith
    from less [OF F(4) F'(4) _ this] show False using that(4,5) unfolding aux_block_def by fastforce
  qed
  have "buf = buf'"
  proof (rule ccontr)
    assume ne: "buf \<noteq> buf'"
    obtain x y where xy: "x < length bufs" "y < length bufs" "bufs ! x = buf" "bufs ! y = buf'"
      using b(1) b'(1) by (auto simp: in_set_conv_nth)
    then have "bufs_apart buf buf' \<or> bufs_apart buf' buf"
      using sorted_wrt_nth_less [OF bufs(1), of x y] sorted_wrt_nth_less [OF bufs(1), of y x] ne by (cases x y rule: linorder_cases) auto
    then show False using diff [OF b(1) b'(1) _ b(2) b'(2)] diff [OF b'(1) b(1) _ b'(2) b(2)] by blast
  qed
  moreover have "i = i'"
  proof (rule ccontr)
    assume ne: "i \<noteq> i'"
    have ok: "aux_buf_ok ds buf" by (rule bufs(2) [OF b(1)])
    have n: "i < num_surfaces buf" "i' < num_surfaces buf" using b(2) b'(2) \<open>buf = buf'\<close> unfolding aux_block_def by blast+
    then have two: "num_surfaces buf = 2" "(i = 0 \<and> i' = 1) \<or> (i = 1 \<and> i' = 0)"
      using ne by (auto simp: num_surfaces_def split: if_splits)
    have le: "surf_start buf 0 + unat (surf_size (surface buf 0)) \<le> surf_start buf 1"
      using ok two(1) by (simp add: aux_buf_ok_def surf_start_def num_surfaces_def split: if_splits)
    have "main_size ds dvd surf_start buf 0" "main_size ds dvd surf_start buf 1"
      using surface_facts(4) [OF ok _ bufs(3)] two(1) by simp_all
    note L = less [OF this _ le]
    show False using two(2) b(2) b'(2) L \<open>buf = buf'\<close> unfolding aux_block_def by fastforce
  qed
  ultimately show ?thesis using b(2) b'(2) unfolding aux_block_def by simp
qed

lemma in_buf_maps: "m \<in> set (buf_maps ds bufs) \<longleftrightarrow> (\<exists>buf\<in>set bufs. \<exists>i<num_surfaces buf. m = entry_map ds buf i)"
  unfolding buf_maps_def by (fastforce simp: image_iff)

lemma aux_create_correct:
  assumes bufs: "bufs \<noteq> []" "length bufs \<le> 16" "sorted_wrt bufs_apart bufs"
      "\<And>buf. buf \<in> set bufs \<Longrightarrow> aux_buf_ok (aux_levels mtl) buf \<and> unat (buf_size buf) \<le> 2 ^ 36"
    and place: "\<And>sz al. sz < 2 ^ 31 \<Longrightarrow> al dvd unat (place sz al) \<and> unat (place sz al) + sz \<le> 2 ^ 48"
  shows "\<exists>pgt. intel_aux_pgtable_create place mtl bufs = Some pgt \<and> aux_table_correct (aux_levels mtl) pgt bufs"
proof -
  let ?ds = "aux_levels mtl"
  let ?M = "foldl (++) Map.empty (buf_maps ?ds bufs)"
  have ds: "idx_shift (?ds ! 0) = entry_ptr_shift (?ds ! 0) + 8" "0 < entry_ptr_shift (?ds ! 0)"
    using aux_levels_ok(1) [of mtl] unfolding descs_ok_def by blast+
  obtain pgt where pgt: "intel_aux_pgtable_create place mtl bufs = Some pgt"
      "\<forall>A<2 ^ 48. aux_translate pgt A = ?M (A div main_size ?ds)"
    using aux_create_ok [OF bufs place] by blast
  have ok: "aux_buf_ok ?ds buf" if "buf \<in> set bufs" for buf using bufs(4) [OF that] by blast
  have in_block: "\<exists>e. aux_translate pgt A = Some e \<and>
        unat (e AND BITMASK 47 (entry_ptr_shift (?ds ! 0))) = ccs_start buf i + k * ccs_size ?ds \<and>
        pgt_get_l1_flags buf i = Some (e AND NOT (BITMASK 47 (entry_ptr_shift (?ds ! 0))))"
    if A: "A < 2 ^ 48" "buf \<in> set bufs" "aux_block ?ds buf i A k" for A buf i k
  proof -
    have i: "i < num_surfaces buf" "k * main_size ?ds < unat (surf_size (surface buf i))"
      using A(3) unfolding aux_block_def by blast+
    note F = surface_facts [OF ok [OF A(2)] i(1) ds(1)]
    obtain f where f: "pgt_get_l1_flags buf i = Some f"
      using aux_surfaceD [OF ok [OF A(2)] i(1)] unfolding aux_surface_ok_def Let_def by blast
    let ?y = "ccs_start buf i + k * ccs_size ?ds"
    have E: "entry_map ?ds buf i (A div main_size ?ds) = Some (of_nat ?y OR f)"
      using entry_map_block(2) [OF A(3)] f by simp
    have "entry_map ?ds buf i \<in> set (buf_maps ?ds bufs)" unfolding in_buf_maps using A(2) i(1) by blast
    then have "?M (A div main_size ?ds) \<noteq> None" unfolding maps_value_None using E by (metis option.distinct(1))
    then obtain e where e: "?M (A div main_size ?ds) = Some e" by blast
    then obtain m where m: "m \<in> set (buf_maps ?ds bufs)" "m (A div main_size ?ds) = Some e"
      using maps_value_Some [OF e] by auto
    obtain buf' i' where b': "buf' \<in> set bufs" "i' < num_surfaces buf'" "m = entry_map ?ds buf' i'"
      using m(1) unfolding in_buf_maps by blast
    note b' = b'(1,2) m(2) [unfolded b'(3)]
    then obtain k' where "aux_block ?ds buf' i' A k'" using entry_map_block(1) [OF b'(2), of ?ds A] by auto
    from aux_block_unique [OF bufs(3) ok ds(1) A(2,3) b'(1) this] have "e = of_nat ?y OR f" using b'(3) E by simp
    moreover have "?y + ccs_size ?ds \<le> 2 ^ 48" using F(6) [OF i(2)] by simp
    then have y: "?y < 2 ^ 48" by (meson less_add_same_cancel1 less_le_trans zero_less_numeral zero_less_power)
    then have "unat (of_nat ?y :: u64) = ?y" by (rule unat_small)
    moreover have "ccs_size ?ds dvd ?y" using F(5) by simp
    ultimately have "unat (e AND BITMASK 47 (entry_ptr_shift (?ds ! 0))) = ?y"
        "e AND NOT (BITMASK 47 (entry_ptr_shift (?ds ! 0))) = f"
      using entry_fields(1,4) [of "of_nat ?y" "entry_ptr_shift (?ds ! 0)" f] y ds(2) l1_flags_low [OF f] by simp_all
    then show ?thesis using pgt(2) A(1) e f by simp
  qed
  have "aux_translate pgt A = None" if A: "A < 2 ^ 48" "\<forall>buf\<in>set bufs. \<forall>i k. \<not> aux_block ?ds buf i A k" for A
  proof -
    have "m (A div main_size ?ds) = None" if m: "m \<in> set (buf_maps ?ds bufs)" for m
    proof -
      obtain buf i where b: "buf \<in> set bufs" "i < num_surfaces buf" "m = entry_map ?ds buf i"
        using m unfolding in_buf_maps by blast
      then show ?thesis using A(2) entry_map_block(1) [OF b(2), of ?ds A] by blast
    qed
    then have "?M (A div main_size ?ds) = None" unfolding maps_value_None by blast
    then show ?thesis using pgt(2) A(1) by simp
  qed
  then show ?thesis using pgt(1) in_block unfolding aux_table_correct_def by blast
qed

subsection \<open>Properties\<close>

definition example_aux_buf :: aux_buf where
  "example_aux_buf = \<lparr>buf_addr = 0x10000000, buf_size = 0x40000, buf_tiling = TILING_Y, buf_bpp = 32,
    buf_yuv_semiplanar_bpp = 0, format_is_yuv = False, format_is_yuv_semiplanar = False, buf_compressed = True,
    surface0 = \<lparr>surf_offset = 0, surf_stride = 512, surf_size = 0x18000, ccs_offset = 0x20000, ccs_stride = 64\<rparr>,
    surface1 = \<lparr>surf_offset = 0, surf_stride = 0, surf_size = 0, ccs_offset = 0, ccs_stride = 0\<rparr>\<rparr>"

lemma example_aux_buf_ok:
  "aux_buf_ok (aux_levels False) example_aux_buf" "unat (buf_size example_aux_buf) \<le> 2 ^ 36"
  by (simp_all add: aux_buf_ok_def example_aux_buf_def buf_fits_def num_surfaces_def surface_def aux_surface_ok_def
      aux_levels_def level_desc_table_tgl_def pgt_get_l1_flags_def aux_format_def bpp_to_depth_val_def Let_def)

text \<open>C15: The AUX page table translates exactly the compressed surfaces. For up to 16 sorted, separate
  and properly aligned buffers of at most 64 GiB, and a table buffer placed at an aligned address below
  2 ^ 48, \<open>intel_aux_pgtable_create\<close> trips no assertion, and the walk of the GPU through its tables leads
  from each block of each surface to the compression data of that block with the flags of the surface,
  and from every other address to an invalid entry.\<close>

theorem aux_table_translates:
  assumes "bufs \<noteq> []" "length bufs \<le> 16" "sorted_wrt bufs_apart bufs"
    "\<forall>buf\<in>set bufs. aux_buf_ok (aux_levels mtl) buf \<and> unat (buf_size buf) \<le> 2 ^ 36"
    "\<forall>sz al. sz < 2 ^ 31 \<longrightarrow> al dvd unat (place sz al) \<and> unat (place sz al) + sz \<le> 2 ^ 48"
  shows "\<exists>pgt. intel_aux_pgtable_create place mtl bufs = Some pgt \<and> aux_table_correct (aux_levels mtl) pgt bufs"
  by (rule aux_create_correct) (use assms in blast)+

theorem aux_table_translates_witness:
  "\<exists>pgt. intel_aux_pgtable_create (\<lambda>_ _. 0) False [example_aux_buf] = Some pgt \<and>
    aux_table_correct (aux_levels False) pgt [example_aux_buf]"
  by (rule aux_table_translates) (use example_aux_buf_ok in simp_all)

text \<open>C16: Preparing the AUX page table of a copy with a source and a destination buffer, on a batch that does
  not enforce relocations: the compressed ones of the two, each once and in strictly increasing order of their
  addresses, get a table, and it translates exactly their surfaces; nothing is done when neither is compressed.
  Assumed are: adding the buffers to the batch gives them separate address ranges, in any order; a compressed
  buffer is one the table can describe (\<open>aux_buf_ok\<close>: its surfaces lie in it and are aligned for the table, its
  format is known) and has at most 64 GiB; and the table itself is placed at an address with the alignment it
  asks for, within 48 bits.\<close>

theorem aux_init_maps_compressed:
  fixes add_buf src dst
  defines "src' \<equiv> src\<lparr>buf_addr := add_buf src False\<rparr>" and "dst' \<equiv> dst\<lparr>buf_addr := add_buf dst True\<rparr>"
  assumes "add_buf src False \<noteq> - 1" "add_buf dst True \<noteq> - 1" "bufs_apart src' dst' \<or> bufs_apart dst' src'"
    "\<forall>buf\<in>{src', dst'}. buf_compressed buf \<longrightarrow> aux_buf_ok (aux_levels mtl) buf \<and> unat (buf_size buf) \<le> 2 ^ 36"
    "\<forall>sz al. sz < 2 ^ 31 \<longrightarrow> al dvd unat (place sz al) \<and> unat (place sz al) + sz \<le> 2 ^ 48"
  shows "if buf_compressed src \<or> buf_compressed dst
    then \<exists>used pgt. gen12_aux_pgtable_init add_buf place False mtl (Some src) (Some dst) = Some (Some (used, pgt)) \<and>
      set used = {buf \<in> {src', dst'}. buf_compressed buf} \<and>
      sorted_wrt (\<lambda>a b. buf_addr a < buf_addr b) used \<and> aux_table_correct (aux_levels mtl) pgt used
    else gen12_aux_pgtable_init add_buf place False mtl (Some src) (Some dst) = Some None"
proof (cases "buf_compressed src \<or> buf_compressed dst")
  case False
  then show ?thesis by (simp add: gen12_aux_pgtable_init_def)
next
  case True
  have c: "buf_compressed src' = buf_compressed src" "buf_compressed dst' = buf_compressed dst"
    by (simp_all add: src'_def dst'_def)
  define used where "used = filter buf_compressed (aux_pgtable_reserve_buf_slot [src'] dst')"
  have ok: "\<And>buf. buf \<in> set used \<Longrightarrow> aux_buf_ok (aux_levels mtl) buf \<and> unat (buf_size buf) \<le> 2 ^ 36"
    using assms(6) by (auto simp: used_def split: if_splits)
  have pos: "0 < unat (buf_size buf)" if "aux_buf_ok (aux_levels mtl) buf" for buf
  proof -
    have fits: "buf_fits buf" and "0 < surf_size (surface buf 0)" using that unfolding aux_buf_ok_def by blast+
    moreover have "0 < num_surfaces buf" by (simp add: num_surfaces_def)
    then have "surf_end buf 0 \<le> unat (buf_size buf)"
      using surface_end_bounds(2) [OF fits, of 0] surface_end_bounds(1) [OF fits] by linarith
    ultimately show ?thesis by (simp add: surf_end_def unat_gt_0_word)
  qed
  have sorted: "sorted_wrt bufs_apart used \<and> sorted_wrt (\<lambda>a b. buf_addr a < buf_addr b) used"
  proof (cases "buf_compressed src \<and> buf_compressed dst")
    case True
    then have "0 < unat (buf_size src')" "0 < unat (buf_size dst')" using assms(6) c pos by auto
    then show ?thesis using assms(5) True c by (auto simp: used_def bufs_apart_def word_less_nat_alt)
  qed (auto simp: used_def c)
  then have "sorted_wrt bufs_apart used" ..
  moreover have "used \<noteq> []" "length used \<le> 16" using True c by (auto simp: used_def)
  ultimately obtain pgt where pgt: "intel_aux_pgtable_create place mtl used = Some pgt"
      "aux_table_correct (aux_levels mtl) pgt used"
    using aux_create_correct [of used mtl place] ok assms(7) by blast
  have "gen12_aux_pgtable_init add_buf place False mtl (Some src) (Some dst) = Some (Some (used, pgt))"
    using True assms(3,4) pgt(1)
    by (auto simp: gen12_aux_pgtable_init_def used_def src'_def dst'_def Let_def split: if_splits)
  moreover have "set used = {buf \<in> {src', dst'}. buf_compressed buf}" by (auto simp: used_def)
  ultimately show ?thesis using True pgt(2) sorted by auto
qed

definition example_addr :: "aux_buf \<Rightarrow> bool \<Rightarrow> u64" where
  "example_addr buf write = (if write then 0x10000000 else 0x20000000)"

theorem aux_init_maps_compressed_witness:
  "\<exists>used pgt. gen12_aux_pgtable_init example_addr (\<lambda>_ _. 0) False False (Some example_aux_buf) (Some example_aux_buf) =
      Some (Some (used, pgt)) \<and> aux_table_correct (aux_levels False) pgt used"
proof -
  have ok: "\<forall>buf\<in>{example_aux_buf\<lparr>buf_addr := example_addr example_aux_buf False\<rparr>,
      example_aux_buf\<lparr>buf_addr := example_addr example_aux_buf True\<rparr>}.
      buf_compressed buf \<longrightarrow> aux_buf_ok (aux_levels False) buf \<and> unat (buf_size buf) \<le> 2 ^ 36"
    by (simp add: aux_buf_ok_def example_aux_buf_def example_addr_def buf_fits_def num_surfaces_def surface_def aux_surface_ok_def
      aux_levels_def level_desc_table_tgl_def pgt_get_l1_flags_def aux_format_def bpp_to_depth_val_def Let_def)
  let ?src = "example_aux_buf\<lparr>buf_addr := example_addr example_aux_buf False\<rparr>"
    and ?dst = "example_aux_buf\<lparr>buf_addr := example_addr example_aux_buf True\<rparr>"
  have addr: "example_addr example_aux_buf False \<noteq> - 1" "example_addr example_aux_buf True \<noteq> - 1"
    "bufs_apart ?src ?dst \<or> bufs_apart ?dst ?src" and c: "buf_compressed example_aux_buf"
    by (simp_all add: example_addr_def bufs_apart_def example_aux_buf_def)
  have p: "\<forall>sz al. sz < 2 ^ 31 \<longrightarrow> al dvd unat (0 :: u64) \<and> unat (0 :: u64) + sz \<le> 2 ^ 48" by simp
  from aux_init_maps_compressed [of example_addr example_aux_buf example_aux_buf False "\<lambda>_ _. 0", OF addr ok p] c
  show ?thesis by auto
qed

end
