(* ===== verification/Runnercomms.thy ===== *)
theory Runnercomms
  imports Prelude
begin

unbundle bit_operations_syntax

text \<open>
  The packets tests and runner exchange (\<^verbatim>\<open>lib/runnercomms.c\<close>, \<^verbatim>\<open>lib/runnercomms.h\<close>), and the dump file
  of them that \<^verbatim>\<open>runner/executor.c\<close> writes. Text is the list of its bytes; a C string is the list of the
  bytes before the NUL. Integers are stored with the low byte first. The \<open>pkt_data\<close> of a packet are the
  bytes behind its header up to its size. A pointer of a read helper is an offset into them, \<open>None\<close> is
  NULL. Results in the option monad are \<open>None\<close> where the code writes or reads outside of its memory.
\<close>

subsection \<open>Packets\<close>

record runnerpacket =
  pkt_size :: u32
  pkt_type :: u32
  senderpid :: u32
  sendertid :: u32
  pkt_data :: "u8 list"

definition PACKETTYPE_INVALID :: u32 where "PACKETTYPE_INVALID = 0"
definition PACKETTYPE_LOG :: u32 where "PACKETTYPE_LOG = 1"
definition PACKETTYPE_EXEC :: u32 where "PACKETTYPE_EXEC = 2"
definition PACKETTYPE_EXIT :: u32 where "PACKETTYPE_EXIT = 3"
definition PACKETTYPE_SUBTEST_START :: u32 where "PACKETTYPE_SUBTEST_START = 4"
definition PACKETTYPE_SUBTEST_RESULT :: u32 where "PACKETTYPE_SUBTEST_RESULT = 5"
definition PACKETTYPE_DYNAMIC_SUBTEST_START :: u32 where "PACKETTYPE_DYNAMIC_SUBTEST_START = 6"
definition PACKETTYPE_DYNAMIC_SUBTEST_RESULT :: u32 where "PACKETTYPE_DYNAMIC_SUBTEST_RESULT = 7"
definition PACKETTYPE_VERSIONSTRING :: u32 where "PACKETTYPE_VERSIONSTRING = 8"
definition PACKETTYPE_RESULT_OVERRIDE :: u32 where "PACKETTYPE_RESULT_OVERRIDE = 9"

lemmas packettypes = PACKETTYPE_INVALID_def PACKETTYPE_LOG_def PACKETTYPE_EXEC_def PACKETTYPE_EXIT_def
  PACKETTYPE_SUBTEST_START_def PACKETTYPE_SUBTEST_RESULT_def PACKETTYPE_DYNAMIC_SUBTEST_START_def
  PACKETTYPE_DYNAMIC_SUBTEST_RESULT_def PACKETTYPE_VERSIONSTRING_def PACKETTYPE_RESULT_OVERRIDE_def

text \<open>\<open>sizeof(struct runnerpacket)\<close>\<close>

definition HEADER_SIZE :: nat where "HEADER_SIZE = 16"

definition le32 :: "u32 \<Rightarrow> u8 list" where
  "le32 w = [ucast w, ucast (drop_bit 8 w), ucast (drop_bit 16 w), ucast (drop_bit 24 w)]"

definition get32 :: "u8 list \<Rightarrow> u32" where
  "get32 bs = ucast (bs ! 0) OR push_bit 8 (ucast (bs ! 1)) OR push_bit 16 (ucast (bs ! 2)) OR push_bit 24 (ucast (bs ! 3))"

text \<open>\<open>malloc(size)\<close> and the bytes the constructor writes behind the header.\<close>

definition new_packet :: "u32 \<Rightarrow> u32 \<Rightarrow> u32 \<Rightarrow> nat \<Rightarrow> u8 list \<Rightarrow> runnerpacket option" where
  "new_packet pid tid ty sz data =
    (let packet_size = (of_nat sz :: u32) in
     if HEADER_SIZE + length data \<le> unat packet_size
     then Some \<lparr>pkt_size = packet_size, pkt_type = ty, senderpid = pid, sendertid = tid, pkt_data = data\<rparr>
     else None)"

definition runnerpacket_log :: "u32 \<Rightarrow> u32 \<Rightarrow> u8 \<Rightarrow> u8 list \<Rightarrow> runnerpacket option" where
  "runnerpacket_log pid tid stream txt =
    new_packet pid tid PACKETTYPE_LOG (HEADER_SIZE + 1 + length txt + 1) ([stream] @ txt @ [0])"

fun exec_loop :: "bool \<Rightarrow> u8 list list \<Rightarrow> u8 list" where
  "exec_loop first [] = [0]"
| "exec_loop first (a # argv) = (if first then a else 32 # a) @ exec_loop False argv"

definition runnerpacket_exec :: "u32 \<Rightarrow> u32 \<Rightarrow> u8 list list \<Rightarrow> runnerpacket option" where
  "runnerpacket_exec pid tid argv =
    new_packet pid tid PACKETTYPE_EXEC (HEADER_SIZE + (\<Sum>a\<leftarrow>argv. length a + 1)) (exec_loop True argv)"

definition runnerpacket_exit :: "u32 \<Rightarrow> u32 \<Rightarrow> u32 \<Rightarrow> u8 list \<Rightarrow> runnerpacket option" where
  "runnerpacket_exit pid tid exitcode timeused =
    new_packet pid tid PACKETTYPE_EXIT (HEADER_SIZE + 4 + length timeused + 1) (le32 exitcode @ timeused @ [0])"

definition runnerpacket_subtest_start :: "u32 \<Rightarrow> u32 \<Rightarrow> u8 list \<Rightarrow> runnerpacket option" where
  "runnerpacket_subtest_start pid tid name =
    new_packet pid tid PACKETTYPE_SUBTEST_START (HEADER_SIZE + length name + 1) (name @ [0])"

definition runnerpacket_subtest_result ::
    "u32 \<Rightarrow> u32 \<Rightarrow> u8 list \<Rightarrow> u8 list \<Rightarrow> u8 list \<Rightarrow> u8 list option \<Rightarrow> runnerpacket option" where
  "runnerpacket_subtest_result pid tid name result timeused reason =
    (let reason1 = (case reason of None \<Rightarrow> [] | Some r \<Rightarrow> r) in
     new_packet pid tid PACKETTYPE_SUBTEST_RESULT
       (HEADER_SIZE + length name + length result + length timeused + length reason1 + 4)
       (name @ [0] @ result @ [0] @ timeused @ [0] @ reason1 @ [0]))"

definition runnerpacket_dynamic_subtest_start :: "u32 \<Rightarrow> u32 \<Rightarrow> u8 list \<Rightarrow> runnerpacket option" where
  "runnerpacket_dynamic_subtest_start pid tid name =
    new_packet pid tid PACKETTYPE_DYNAMIC_SUBTEST_START (HEADER_SIZE + length name + 1) (name @ [0])"

definition runnerpacket_dynamic_subtest_result ::
    "u32 \<Rightarrow> u32 \<Rightarrow> u8 list \<Rightarrow> u8 list \<Rightarrow> u8 list \<Rightarrow> u8 list option \<Rightarrow> runnerpacket option" where
  "runnerpacket_dynamic_subtest_result pid tid name result timeused reason =
    (let reason1 = (case reason of None \<Rightarrow> [] | Some r \<Rightarrow> r) in
     new_packet pid tid PACKETTYPE_DYNAMIC_SUBTEST_RESULT
       (HEADER_SIZE + length name + length result + length timeused + length reason1 + 4)
       (name @ [0] @ result @ [0] @ timeused @ [0] @ reason1 @ [0]))"

definition runnerpacket_versionstring :: "u32 \<Rightarrow> u32 \<Rightarrow> u8 list \<Rightarrow> runnerpacket option" where
  "runnerpacket_versionstring pid tid txt =
    new_packet pid tid PACKETTYPE_VERSIONSTRING (HEADER_SIZE + length txt + 1) (txt @ [0])"

definition runnerpacket_resultoverride :: "u32 \<Rightarrow> u32 \<Rightarrow> u8 list \<Rightarrow> runnerpacket option" where
  "runnerpacket_resultoverride pid tid result =
    new_packet pid tid PACKETTYPE_RESULT_OVERRIDE (HEADER_SIZE + length result + 1) (result @ [0])"

subsection \<open>Sending\<close>

text \<open>\<open>write(fd, packet, packet->size)\<close>\<close>

definition packet_bytes :: "runnerpacket \<Rightarrow> u8 list" where
  "packet_bytes packet = take (unat (pkt_size packet))
    (le32 (pkt_size packet) @ le32 (pkt_type packet) @ le32 (senderpid packet) @ le32 (sendertid packet) @ pkt_data packet)"

definition runner_connected :: "int \<Rightarrow> bool" where
  "runner_connected runner_socket_fd \<longleftrightarrow> 0 \<le> runner_socket_fd"

text \<open>The bytes sent, if any.\<close>

definition send_to_runner :: "int \<Rightarrow> runnerpacket \<Rightarrow> u8 list option" where
  "send_to_runner runner_socket_fd packet =
    (if runner_connected runner_socket_fd then Some (packet_bytes packet) else None)"

text \<open>The state is the socket; \<open>is_socket\<close> stands for \<open>fstat\<close>.\<close>

definition set_runner_socket :: "(int \<Rightarrow> bool) \<Rightarrow> int \<Rightarrow> int \<Rightarrow> int" where
  "set_runner_socket is_socket fd runner_socket_fd = (if is_socket fd then fd else runner_socket_fd)"

text \<open>A long message is sent in pieces of at most 127 bytes; \<open>STDERR_FILENO\<close> is 2.\<close>

function log_to_runner_sig_safe :: "u32 \<Rightarrow> u8 list \<Rightarrow> runnerpacket list" where
  "log_to_runner_sig_safe pid str =
    (let prlen = (if 128 - 1 < length str then 128 - 1 else length str);
         p = \<lparr>pkt_size = of_nat (HEADER_SIZE + 1) + of_nat (prlen + 1), pkt_type = PACKETTYPE_LOG, senderpid = pid,
           sendertid = 0, pkt_data = [2] @ take prlen str @ [0]\<rparr> in
     if length str - prlen \<noteq> 0 then p # log_to_runner_sig_safe pid (drop prlen str) else [p])"
  by pat_completeness auto
termination by (relation "measure (\<lambda>(pid, str). length str)") (auto split: if_splits)

declare log_to_runner_sig_safe.simps [simp del]

subsection \<open>Reading a packet\<close>

text \<open>The state of the reading functions: the offset \<open>p\<close> and how many bytes are left.\<close>

definition read_integer :: "nat \<Rightarrow> u8 list \<Rightarrow> nat \<times> nat \<Rightarrow> u8 list option \<times> nat \<times> nat" where
  "read_integer bytes data c =
    (let (p, left) = c in
     if left < bytes then (None, p, 0) else (Some (take bytes (drop p data)), p + bytes, left - bytes))"

definition read_cstring :: "u8 list \<Rightarrow> nat \<times> nat \<Rightarrow> nat option \<times> nat \<times> nat" where
  "read_cstring data c =
    (let (p, left) = c in
     case List.find (\<lambda>i. data ! i = 0) [p..<p + left] of
       None \<Rightarrow> (None, p, 0)
     | Some e \<Rightarrow> (Some p, e + 1, left - (e - p + 1)))"

text \<open>The members of the union behind the common \<open>type\<close>.\<close>

datatype helper_fields =
    No_Fields
  | Log_Fields u8 "nat option"
  | Exec_Fields "nat option"
  | Exit_Fields u32 "nat option"
  | Subteststart_Fields "nat option"
  | Subtestresult_Fields "nat option" "nat option" "nat option" "nat option"
  | Dynamicsubteststart_Fields "nat option"
  | Dynamicsubtestresult_Fields "nat option" "nat option" "nat option" "nat option"
  | Versionstring_Fields "nat option"
  | Resultoverride_Fields "nat option"

record runnerpacket_read_helper =
  helper_type :: u32
  helper_fields :: helper_fields

definition read_result :: "u8 list \<Rightarrow> nat \<times> nat \<Rightarrow> nat option \<times> nat option \<times> nat option \<times> nat option" where
  "read_result data c =
    (let (name, c1) = read_cstring data c; (result, c2) = read_cstring data c1;
         (timeused, c3) = read_cstring data c2; (reason, c4) = read_cstring data c3 in
     (name, result, timeused, reason))"

text \<open>\<open>sizeleft\<close>, an \<^verbatim>\<open>uint32_t\<close> that wraps when the size of the packet is below the size of the header.\<close>

definition packet_sizeleft :: "runnerpacket \<Rightarrow> nat" where
  "packet_sizeleft packet = unat (pkt_size packet - of_nat HEADER_SIZE)"

definition read_runnerpacket :: "runnerpacket \<Rightarrow> runnerpacket_read_helper" where
  "read_runnerpacket packet =
    (if unat (pkt_size packet) < HEADER_SIZE then \<lparr>helper_type = PACKETTYPE_INVALID, helper_fields = No_Fields\<rparr>
     else (let ty = pkt_type packet; data = pkt_data packet; c = (0, packet_sizeleft packet);
         valid = (\<lambda>ok fields. \<lparr>helper_type = (if ok then ty else PACKETTYPE_INVALID), helper_fields = fields\<rparr>) in
       if ty = PACKETTYPE_LOG then
         (let (stream, c1) = read_integer 1 data c; (txt, c2) = read_cstring data c1 in
          valid (txt \<noteq> None) (Log_Fields (case stream of None \<Rightarrow> 0 | Some bs \<Rightarrow> bs ! 0) txt))
       else if ty = PACKETTYPE_EXEC then
         (let (cmdline, c1) = read_cstring data c in valid (cmdline \<noteq> None) (Exec_Fields cmdline))
       else if ty = PACKETTYPE_EXIT then
         (let (exitcode, c1) = read_integer 4 data c; (timeused, c2) = read_cstring data c1 in
          valid True (Exit_Fields (case exitcode of None \<Rightarrow> 0 | Some bs \<Rightarrow> get32 bs) timeused))
       else if ty = PACKETTYPE_SUBTEST_START then
         (let (name, c1) = read_cstring data c in valid (name \<noteq> None) (Subteststart_Fields name))
       else if ty = PACKETTYPE_SUBTEST_RESULT then
         (let (name, result, timeused, reason) = read_result data c in
          valid (name \<noteq> None \<and> result \<noteq> None) (Subtestresult_Fields name result timeused reason))
       else if ty = PACKETTYPE_DYNAMIC_SUBTEST_START then
         (let (name, c1) = read_cstring data c in valid (name \<noteq> None) (Dynamicsubteststart_Fields name))
       else if ty = PACKETTYPE_DYNAMIC_SUBTEST_RESULT then
         (let (name, result, timeused, reason) = read_result data c in
          valid (name \<noteq> None \<and> result \<noteq> None) (Dynamicsubtestresult_Fields name result timeused reason))
       else if ty = PACKETTYPE_VERSIONSTRING then
         (let (txt, c1) = read_cstring data c in valid (txt \<noteq> None) (Versionstring_Fields txt))
       else if ty = PACKETTYPE_RESULT_OVERRIDE then
         (let (result, c1) = read_cstring data c in valid (result \<noteq> None) (Resultoverride_Fields result))
       else valid False No_Fields))"

text \<open>The C string a pointer leads to.\<close>

definition cstring_at :: "u8 list \<Rightarrow> nat \<Rightarrow> u8 list" where
  "cstring_at data p = takeWhile (\<lambda>b. b \<noteq> 0) (drop p data)"

subsection \<open>The dump\<close>

datatype comms_parse = COMMSPARSE_ERROR | COMMSPARSE_EMPTY | COMMSPARSE_SUCCESS

text \<open>A handler gets the user data and gives it back with whether to go on; \<open>None\<close> is a fault in it.\<close>

type_synonym 's handler = "runnerpacket \<Rightarrow> runnerpacket_read_helper \<Rightarrow> 's \<Rightarrow> ('s \<times> bool) option"

record 's comms_visitor =
  visit_log :: "'s handler option"
  visit_exec :: "'s handler option"
  visit_exit :: "'s handler option"
  visit_subtest_start :: "'s handler option"
  visit_subtest_result :: "'s handler option"
  visit_dynamic_subtest_start :: "'s handler option"
  visit_dynamic_subtest_result :: "'s handler option"
  visit_versionstring :: "'s handler option"
  visit_result_override :: "'s handler option"

text \<open>The characters \<open>IGT1\<close>.\<close>

definition socket_dump_canary :: u32 where
  "socket_dump_canary = push_bit 24 73 OR push_bit 16 71 OR push_bit 8 84 OR 49"

definition write_packet_with_canary :: "runnerpacket \<Rightarrow> u8 list" where
  "write_packet_with_canary packet = le32 socket_dump_canary @ packet_bytes packet"

definition packet_at :: "u8 list \<Rightarrow> nat \<Rightarrow> runnerpacket" where
  "packet_at file p =
    (let sz = get32 (drop p file) in
     \<lparr>pkt_size = sz, pkt_type = get32 (drop (p + 4) file), senderpid = get32 (drop (p + 8) file),
      sendertid = get32 (drop (p + 12) file), pkt_data = take (unat sz - HEADER_SIZE) (drop (p + HEADER_SIZE) file)\<rparr>)"

definition visitor_handler :: "'s comms_visitor \<Rightarrow> u32 \<Rightarrow> 's handler option" where
  "visitor_handler visitor ty =
    (if ty = PACKETTYPE_INVALID then None
     else if ty = PACKETTYPE_LOG then visit_log visitor
     else if ty = PACKETTYPE_EXEC then visit_exec visitor
     else if ty = PACKETTYPE_EXIT then visit_exit visitor
     else if ty = PACKETTYPE_SUBTEST_START then visit_subtest_start visitor
     else if ty = PACKETTYPE_SUBTEST_RESULT then visit_subtest_result visitor
     else if ty = PACKETTYPE_DYNAMIC_SUBTEST_START then visit_dynamic_subtest_start visitor
     else if ty = PACKETTYPE_DYNAMIC_SUBTEST_RESULT then visit_dynamic_subtest_result visitor
     else if ty = PACKETTYPE_VERSIONSTRING then visit_versionstring visitor
     else if ty = PACKETTYPE_RESULT_OVERRIDE then visit_result_override visitor
     else None)"

definition visit_packet :: "'s comms_visitor \<Rightarrow> runnerpacket \<Rightarrow> 's \<Rightarrow> ('s \<times> bool) option" where
  "visit_packet visitor packet s =
    (case visitor_handler visitor (pkt_type packet) of
       None \<Rightarrow> Some (s, True)
     | Some h \<Rightarrow> h packet (read_runnerpacket packet) s)"

text \<open>The file is mapped in whole pages; behind its end they are zero.\<close>

definition mapped_size :: "nat \<Rightarrow> nat" where
  "mapped_size n = (n + 4095) div 4096 * 4096"

text \<open>The differences of pointers are signed, but the comparison with a \<open>sizeof\<close> is unsigned: when less
  than a canary is left, the difference after it is negative and passes the test for the header, and the
  size of the packet is read behind the end of the file. It is zero there, if the page goes on.\<close>

function dump_loop :: "'s comms_visitor \<Rightarrow> u8 list \<Rightarrow> nat \<Rightarrow> comms_parse \<Rightarrow> 's \<Rightarrow> (comms_parse \<times> 's) option" where
  "dump_loop visitor file p ret s =
    (if p = length file then Some (ret, s)
     else if 4 \<le> length file - p \<and> get32 (drop p file) \<noteq> socket_dump_canary then Some (COMMSPARSE_ERROR, s)
     else if p + 4 \<le> length file \<and> length file - (p + 4) < HEADER_SIZE then Some (COMMSPARSE_ERROR, s)
     else if length file < p + 4 then
       (if p + 4 + 4 \<le> mapped_size (length file) then Some (COMMSPARSE_ERROR, s) else None)
     else (let packet = packet_at file (p + 4) in
       if length file - (p + 4) < unat (pkt_size packet) then Some (COMMSPARSE_ERROR, s)
       else do {
         (s1, cont) \<leftarrow> visit_packet visitor packet s;
         if cont then dump_loop visitor file (p + 4 + unat (pkt_size packet))
             (if pkt_type packet \<noteq> PACKETTYPE_EXEC then COMMSPARSE_SUCCESS else ret) s1
         else Some (COMMSPARSE_ERROR, s1) }))"
  by pat_completeness auto
termination by (relation "measure (\<lambda>(visitor, file, p, ret, s). length file - p)") auto

declare dump_loop.simps [simp del]

text \<open>What the file descriptor gives: nothing to read, an error of \<open>fstat\<close> or \<open>mmap\<close>, or a file.\<close>

datatype dump_fd = No_Dump | Fstat_Failed | Mmap_Failed | Dump "u8 list"

definition comms_read_dump :: "dump_fd \<Rightarrow> 's comms_visitor \<Rightarrow> 's \<Rightarrow> (comms_parse \<times> 's) option" where
  "comms_read_dump fd visitor s = (case fd of
       No_Dump \<Rightarrow> Some (COMMSPARSE_EMPTY, s)
     | Fstat_Failed \<Rightarrow> Some (COMMSPARSE_ERROR, s)
     | Mmap_Failed \<Rightarrow> Some (COMMSPARSE_ERROR, s)
     | Dump file \<Rightarrow> if length file = 0 then Some (COMMSPARSE_EMPTY, s)
         else dump_loop visitor file 0 COMMSPARSE_EMPTY s)"

subsection \<open>Bytes of integers\<close>

lemma length_le32 [simp]: "length (le32 w) = 4"
  by (simp add: le32_def)

lemma get32_le32 [simp]: "get32 (le32 w @ bs) = w"
proof (rule bit_word_eqI)
  fix n assume "n < LENGTH(32)"
  then have "n < 8 \<or> (8 \<le> n \<and> n < 16) \<or> (16 \<le> n \<and> n < 24) \<or> (24 \<le> n \<and> n < 32)" by auto
  then show "bit (get32 (le32 w @ bs)) n = bit w n" by (auto simp: get32_def le32_def bit_simps)
qed

lemma get32_take: "4 \<le> length bs \<Longrightarrow> get32 (take 4 bs) = get32 bs"
  by (simp add: get32_def)

lemma get32_only: "get32 (le32 w) = w"
  using get32_le32 [of w "[]"] by simp

subsection \<open>Reading strings\<close>

lemma find_first:
  assumes "\<And>i. p \<le> i \<Longrightarrow> i < e \<Longrightarrow> \<not> P i" "P e" "p \<le> e" "e < n"
  shows "List.find P [p..<n] = Some e"
  unfolding find_Some_iff by (intro exI [of _ "e - p"]) (use assms in auto)

lemma read_cstring_ok:
  assumes "drop p data = str @ 0 # rest" "0 \<notin> set str" "length str < left" "p \<le> length data"
  shows "read_cstring data (p, left) = (Some p, p + length str + 1, left - (length str + 1))"
    "cstring_at data p = str"
proof -
  have nth: "data ! (p + j) = (str @ 0 # rest) ! j" for j using assms(1,4) by (metis nth_drop)
  have "List.find (\<lambda>i. data ! i = 0) [p..<p + left] = Some (p + length str)"
  proof (rule find_first)
    fix i assume "p \<le> i" "i < p + length str"
    then obtain j where "i = p + j" "j < length str" by (metis add_less_cancel_left le_Suc_ex)
    moreover from this have "str ! j \<noteq> 0" using assms(2) by (metis nth_mem)
    ultimately show "data ! i \<noteq> 0" using nth [of j] by (simp add: nth_append)
  qed (use nth [of "length str"] assms(3) in simp_all)
  then show "read_cstring data (p, left) = (Some p, p + length str + 1, left - (length str + 1))"
    by (simp add: read_cstring_def)
  have "takeWhile (\<lambda>b. b \<noteq> 0) (str @ 0 # rest) = str" using assms(2) by (induction str) auto
  then show "cstring_at data p = str" by (simp add: cstring_at_def assms(1))
qed

text \<open>A pointer that is not NULL leads to a string that ends inside the data.\<close>

lemma read_cstring_terminated:
  assumes "read_cstring data (p, left) = (Some q, c)"
  shows "q = p" "\<exists>e<p + left. p \<le> e \<and> data ! e = 0"
proof -
  obtain e where e: "List.find (\<lambda>i. data ! i = 0) [p..<p + left] = Some e" "q = p"
    using assms by (auto simp: read_cstring_def split: option.splits)
  then show "q = p" by simp
  have "e \<in> set [p..<p + left]" "data ! e = 0" using e(1) by (auto simp: find_Some_iff)
  then show "\<exists>e<p + left. p \<le> e \<and> data ! e = 0" by auto
qed

lemma read_cstring_range:
  assumes "read_cstring data (p, left) = (q, p', left')"
  shows "p' + left' \<le> p + left"
  using assms by (auto simp: read_cstring_def find_Some_iff split: option.splits)

subsection \<open>Messages\<close>

text \<open>What a packet says, apart from its layout.\<close>

datatype message =
    Msg_Log u8 "u8 list"
  | Msg_Exec "u8 list list"
  | Msg_Exit u32 "u8 list"
  | Msg_Subtest_Start "u8 list"
  | Msg_Subtest_Result "u8 list" "u8 list" "u8 list" "u8 list"
  | Msg_Dynamic_Subtest_Start "u8 list"
  | Msg_Dynamic_Subtest_Result "u8 list" "u8 list" "u8 list" "u8 list"
  | Msg_Versionstring "u8 list"
  | Msg_Resultoverride "u8 list"

fun packet_of :: "u32 \<Rightarrow> u32 \<Rightarrow> message \<Rightarrow> runnerpacket option" where
  "packet_of pid tid (Msg_Log stream txt) = runnerpacket_log pid tid stream txt"
| "packet_of pid tid (Msg_Exec argv) = runnerpacket_exec pid tid argv"
| "packet_of pid tid (Msg_Exit exitcode timeused) = runnerpacket_exit pid tid exitcode timeused"
| "packet_of pid tid (Msg_Subtest_Start name) = runnerpacket_subtest_start pid tid name"
| "packet_of pid tid (Msg_Subtest_Result name result timeused reason) =
    runnerpacket_subtest_result pid tid name result timeused (Some reason)"
| "packet_of pid tid (Msg_Dynamic_Subtest_Start name) = runnerpacket_dynamic_subtest_start pid tid name"
| "packet_of pid tid (Msg_Dynamic_Subtest_Result name result timeused reason) =
    runnerpacket_dynamic_subtest_result pid tid name result timeused (Some reason)"
| "packet_of pid tid (Msg_Versionstring txt) = runnerpacket_versionstring pid tid txt"
| "packet_of pid tid (Msg_Resultoverride result) = runnerpacket_resultoverride pid tid result"

text \<open>The texts of a message; the strings of a command line are joined by spaces.\<close>

fun join_args :: "u8 list list \<Rightarrow> u8 list" where
  "join_args [] = []"
| "join_args [a] = a"
| "join_args (a # b # argv) = a @ 32 # join_args (b # argv)"

fun message_texts :: "message \<Rightarrow> u8 list list" where
  "message_texts (Msg_Log stream txt) = [txt]"
| "message_texts (Msg_Exec argv) = [join_args argv]"
| "message_texts (Msg_Exit exitcode timeused) = [timeused]"
| "message_texts (Msg_Subtest_Start name) = [name]"
| "message_texts (Msg_Subtest_Result name result timeused reason) = [name, result, timeused, reason]"
| "message_texts (Msg_Dynamic_Subtest_Start name) = [name]"
| "message_texts (Msg_Dynamic_Subtest_Result name result timeused reason) = [name, result, timeused, reason]"
| "message_texts (Msg_Versionstring txt) = [txt]"
| "message_texts (Msg_Resultoverride result) = [result]"

definition message_ok :: "message \<Rightarrow> bool" where
  "message_ok m \<longleftrightarrow> (\<forall>str\<in>set (message_texts m). 0 \<notin> set str) \<and>
    HEADER_SIZE + 4 + (\<Sum>str\<leftarrow>message_texts m. length str + 1) < 2 ^ 32 \<and> (\<forall>argv. m = Msg_Exec argv \<longrightarrow> argv \<noteq> [])"

text \<open>What a reader gets out of the helper of a packet.\<close>

definition ptr_text :: "u8 list \<Rightarrow> nat option \<Rightarrow> u8 list option" where
  "ptr_text data q = map_option (cstring_at data) q"

fun helper_texts :: "u8 list \<Rightarrow> helper_fields \<Rightarrow> u8 list option list" where
  "helper_texts data No_Fields = []"
| "helper_texts data (Log_Fields stream txt) = [ptr_text data txt]"
| "helper_texts data (Exec_Fields cmdline) = [ptr_text data cmdline]"
| "helper_texts data (Exit_Fields exitcode timeused) = [ptr_text data timeused]"
| "helper_texts data (Subteststart_Fields name) = [ptr_text data name]"
| "helper_texts data (Subtestresult_Fields name result timeused reason) =
    [ptr_text data name, ptr_text data result, ptr_text data timeused, ptr_text data reason]"
| "helper_texts data (Dynamicsubteststart_Fields name) = [ptr_text data name]"
| "helper_texts data (Dynamicsubtestresult_Fields name result timeused reason) =
    [ptr_text data name, ptr_text data result, ptr_text data timeused, ptr_text data reason]"
| "helper_texts data (Versionstring_Fields txt) = [ptr_text data txt]"
| "helper_texts data (Resultoverride_Fields result) = [ptr_text data result]"

fun helper_number :: "helper_fields \<Rightarrow> u32 option" where
  "helper_number (Log_Fields stream txt) = Some (ucast stream)"
| "helper_number (Exit_Fields exitcode timeused) = Some exitcode"
| "helper_number _ = None"

fun message_number :: "message \<Rightarrow> u32 option" where
  "message_number (Msg_Log stream txt) = Some (ucast stream)"
| "message_number (Msg_Exit exitcode timeused) = Some exitcode"
| "message_number _ = None"

fun message_type :: "message \<Rightarrow> u32" where
  "message_type (Msg_Log stream txt) = PACKETTYPE_LOG"
| "message_type (Msg_Exec argv) = PACKETTYPE_EXEC"
| "message_type (Msg_Exit exitcode timeused) = PACKETTYPE_EXIT"
| "message_type (Msg_Subtest_Start name) = PACKETTYPE_SUBTEST_START"
| "message_type (Msg_Subtest_Result name result timeused reason) = PACKETTYPE_SUBTEST_RESULT"
| "message_type (Msg_Dynamic_Subtest_Start name) = PACKETTYPE_DYNAMIC_SUBTEST_START"
| "message_type (Msg_Dynamic_Subtest_Result name result timeused reason) = PACKETTYPE_DYNAMIC_SUBTEST_RESULT"
| "message_type (Msg_Versionstring txt) = PACKETTYPE_VERSIONSTRING"
| "message_type (Msg_Resultoverride result) = PACKETTYPE_RESULT_OVERRIDE"

subsection \<open>Round trip of a packet\<close>

lemma join_args_Cons: "argv \<noteq> [] \<Longrightarrow> join_args (a # argv) = a @ 32 # join_args argv"
  by (cases argv) auto

lemma exec_loop_join: "argv \<noteq> [] \<Longrightarrow> exec_loop True argv = join_args argv @ [0]"
proof -
  have "exec_loop False argv = (if argv = [] then [0] else 32 # join_args argv @ [0])" for argv
    by (induction argv) (auto simp: join_args_Cons)
  then show "argv \<noteq> [] \<Longrightarrow> exec_loop True argv = join_args argv @ [0]"
    by (cases argv) (auto simp: join_args_Cons)
qed

lemma length_join_args: "argv \<noteq> [] \<Longrightarrow> length (join_args argv) + 1 = (\<Sum>a\<leftarrow>argv. length a + 1)"
  by (induction argv rule: join_args.induct) auto

lemma new_packet_Some:
  assumes "sz < 2 ^ 32" "HEADER_SIZE + length data = sz"
  shows "new_packet pid tid ty sz data =
    Some \<lparr>pkt_size = of_nat sz, pkt_type = ty, senderpid = pid, sendertid = tid, pkt_data = data\<rparr>"
    "unat (of_nat sz :: u32) = sz"
proof -
  show u: "unat (of_nat sz :: u32) = sz" using assms(1) by (simp add: unsigned_of_nat take_bit_nat_eq_self)
  show "new_packet pid tid ty sz data =
    Some \<lparr>pkt_size = of_nat sz, pkt_type = ty, senderpid = pid, sendertid = tid, pkt_data = data\<rparr>"
    using assms(2) by (simp only: new_packet_def u Let_def) simp
qed

lemma read_one:
  assumes "drop p data = str @ [0]" "0 \<notin> set str" "p \<le> length data"
  shows "read_cstring data (p, length str + 1) = (Some p, p + length str + 1, 0)" "cstring_at data p = str"
  using read_cstring_ok [OF assms(1,2) _ assms(3), of "length str + 1"] by simp_all

lemma read_four:
  assumes "0 \<notin> set a" "0 \<notin> set b" "0 \<notin> set c" "0 \<notin> set d"
  defines "data \<equiv> a @ [0] @ b @ [0] @ c @ [0] @ d @ [0]"
  shows "\<exists>x y z. read_result data (0, length a + length b + length c + length d + 4) = (Some 0, Some x, Some y, Some z) \<and>
    cstring_at data 0 = a \<and> cstring_at data x = b \<and> cstring_at data y = c \<and> cstring_at data z = d"
proof -
  let ?x = "length a + 1" and ?y = "length a + length b + 2" and ?z = "length a + length b + length c + 3"
  have sk: "drop (length xs) (xs @ ys) = ys" for xs ys :: "u8 list" by simp
  have dr: "drop 0 data = a @ 0 # b @ 0 # c @ 0 # d @ [0]" "drop ?x data = b @ 0 # c @ 0 # d @ [0]"
    "drop ?y data = c @ 0 # d @ [0]" "drop ?z data = d @ 0 # []"
    using sk [of "a @ [0]" "b @ 0 # c @ 0 # d @ [0]"] sk [of "a @ [0] @ b @ [0]" "c @ 0 # d @ [0]"]
      sk [of "a @ [0] @ b @ [0] @ c @ [0]" "d @ [0]"] by (simp_all add: data_def numeral_3_eq_3)
  have len: "length data = length a + length b + length c + length d + 4" by (simp add: data_def)
  note A = read_cstring_ok [OF dr(1) assms(1)] and B = read_cstring_ok [OF dr(2) assms(2)]
    and C = read_cstring_ok [OF dr(3) assms(3)] and D = read_cstring_ok [OF dr(4) assms(4)]
  have "read_cstring data (0, length a + length b + length c + length d + 4) = (Some 0, ?x, length b + length c + length d + 3)"
    "cstring_at data 0 = a"
    using A [of "length a + length b + length c + length d + 4"] len by simp_all
  moreover have "read_cstring data (?x, length b + length c + length d + 3) = (Some ?x, ?y, length c + length d + 2)"
    "cstring_at data ?x = b"
    using B [of "length b + length c + length d + 3"] len by simp_all
  moreover have "read_cstring data (?y, length c + length d + 2) = (Some ?y, ?z, length d + 1)" "cstring_at data ?y = c"
    using C [of "length c + length d + 2"] len by simp_all
  moreover have "read_cstring data (?z, length d + 1) = (Some ?z, ?z + length d + 1, 0)" "cstring_at data ?z = d"
    using D [of "length d + 1"] len by simp_all
  ultimately show ?thesis by (simp add: read_result_def)
qed

text \<open>A packet with exactly the data its size says.\<close>

definition packet_ok :: "runnerpacket \<Rightarrow> bool" where
  "packet_ok p \<longleftrightarrow> unat (pkt_size p) = HEADER_SIZE + length (pkt_data p)"

definition says :: "runnerpacket \<Rightarrow> message \<Rightarrow> bool" where
  "says p m \<longleftrightarrow> packet_ok p \<and> pkt_type p = message_type m \<and> helper_type (read_runnerpacket p) = message_type m \<and>
    helper_number (helper_fields (read_runnerpacket p)) = message_number m \<and>
    helper_texts (pkt_data p) (helper_fields (read_runnerpacket p)) = map Some (message_texts m)"

lemma packet_left:
  assumes "packet_ok p"
  shows "packet_sizeleft p = length (pkt_data p)"
proof -
  have "of_nat HEADER_SIZE \<le> pkt_size p" "unat (of_nat HEADER_SIZE :: u32) = HEADER_SIZE"
    using assms by (simp_all add: packet_ok_def HEADER_SIZE_def word_le_nat_alt)
  then show ?thesis using assms by (simp add: packet_sizeleft_def unat_sub packet_ok_def)
qed

lemma packet_large: "packet_ok p \<Longrightarrow> \<not> unat (pkt_size p) < HEADER_SIZE"
  by (simp add: packet_ok_def)

lemma says_one:
  assumes "packet_ok p" "pkt_type p = message_type m" "pkt_data p = str @ [0]" "message_texts m = [str]" "0 \<notin> set str"
    "\<forall>stream txt. m \<noteq> Msg_Log stream txt" "\<forall>exitcode timeused. m \<noteq> Msg_Exit exitcode timeused"
  shows "says p m"
proof -
  have r: "read_cstring (pkt_data p) (0, length (pkt_data p)) = (Some 0, length str + 1, 0)" "cstring_at (pkt_data p) 0 = str"
    using read_one [of 0 "pkt_data p" str] assms(3,5) by simp_all
  show ?thesis
    using assms(2,4,6,7) r packet_left [OF assms(1)] packet_large [OF assms(1)] assms(1)
    by (cases m) (simp_all add: says_def read_runnerpacket_def packettypes Let_def ptr_text_def)
qed

lemma packet_of_says:
  assumes "message_ok m"
  shows "\<exists>p. packet_of pid tid m = Some p \<and> says p m \<and> senderpid p = pid \<and> sendertid p = tid"
proof -
  have one: "\<exists>p. new_packet pid tid (message_type m) (HEADER_SIZE + length str + 1) (str @ [0]) = Some p \<and> says p m \<and>
      senderpid p = pid \<and> sendertid p = tid"
    if "message_texts m = [str]" "\<forall>stream txt. m \<noteq> Msg_Log stream txt" "\<forall>exitcode timeused. m \<noteq> Msg_Exit exitcode timeused" for str
  proof -
    have b: "HEADER_SIZE + length str + 1 < 2 ^ 32" "0 \<notin> set str" using assms that(1) by (simp_all add: message_ok_def)
    let ?p = "\<lparr>pkt_size = of_nat (HEADER_SIZE + length str + 1), pkt_type = message_type m, senderpid = pid, sendertid = tid,
      pkt_data = str @ [0]\<rparr>"
    note N = new_packet_Some [OF b(1), of "str @ [0]"]
    have "packet_ok ?p" using N(2) by (simp add: packet_ok_def del: of_nat_add of_nat_Suc)
    then have "says ?p m" using that b(2) by (intro says_one) simp_all
    then show ?thesis using N(1) by simp
  qed
  have four: "\<exists>p. new_packet pid tid (message_type m) (HEADER_SIZE + length a + length b + length c + length d + 4)
        (a @ [0] @ b @ [0] @ c @ [0] @ d @ [0]) = Some p \<and> says p m \<and> senderpid p = pid \<and> sendertid p = tid"
    if m: "m = Msg_Subtest_Result a b c d \<or> m = Msg_Dynamic_Subtest_Result a b c d" for a b c d
  proof -
    let ?data = "a @ [0] @ b @ [0] @ c @ [0] @ d @ [0]" and ?sz = "HEADER_SIZE + length a + length b + length c + length d + 4"
    have b: "?sz < 2 ^ 32" "0 \<notin> set a" "0 \<notin> set b" "0 \<notin> set c" "0 \<notin> set d"
      using assms m by (auto simp: message_ok_def)
    let ?p = "\<lparr>pkt_size = of_nat ?sz, pkt_type = message_type m, senderpid = pid, sendertid = tid, pkt_data = ?data\<rparr>"
    note N = new_packet_Some [OF b(1), of ?data]
    have ok: "packet_ok ?p" using N(2) by (simp add: packet_ok_def del: of_nat_add of_nat_Suc)
    obtain x y z where r: "read_result ?data (0, length a + length b + length c + length d + 4) = (Some 0, Some x, Some y, Some z)"
        "cstring_at ?data 0 = a" "cstring_at ?data x = b" "cstring_at ?data y = c" "cstring_at ?data z = d"
      using read_four [OF b(2-5)] by blast
    have "packet_sizeleft ?p = length a + length b + length c + length d + 4"
      using packet_left [OF ok] by simp
    then have "read_result ?data (0, packet_sizeleft ?p) = (Some 0, Some x, Some y, Some z)"
      by (simp only: r(1))
    then have "says ?p m"
      using m ok packet_large [OF ok] r(2-5)
      by (auto simp: says_def read_runnerpacket_def packettypes Let_def ptr_text_def)
    then show ?thesis using N(1) by simp
  qed
  show ?thesis
  proof (cases m)
    case (Msg_Log stream str)
    let ?data = "[stream] @ str @ [0]" and ?sz = "HEADER_SIZE + 1 + length str + 1"
    have b: "?sz < 2 ^ 32" "0 \<notin> set str" using assms Msg_Log by (simp_all add: message_ok_def)
    let ?p = "\<lparr>pkt_size = of_nat ?sz, pkt_type = PACKETTYPE_LOG, senderpid = pid, sendertid = tid, pkt_data = ?data\<rparr>"
    note N = new_packet_Some [OF b(1), of ?data]
    have ok: "packet_ok ?p" using N(2) by (simp add: packet_ok_def del: of_nat_add of_nat_Suc)
    have "read_cstring ?data (1, length str + 1) = (Some 1, length str + 2, 0)" "cstring_at ?data 1 = str"
      using read_one [of 1 ?data str] b(2) by simp_all
    then have "says ?p m"
      using Msg_Log ok packet_left [OF ok] packet_large [OF ok]
      by (simp add: says_def read_runnerpacket_def packettypes Let_def ptr_text_def read_integer_def)
    then show ?thesis using N(1) Msg_Log by (simp add: runnerpacket_log_def)
  next
    case (Msg_Exit exitcode timeused)
    let ?data = "le32 exitcode @ timeused @ [0]" and ?sz = "HEADER_SIZE + 4 + length timeused + 1"
    have b: "?sz < 2 ^ 32" "0 \<notin> set timeused" using assms Msg_Exit by (simp_all add: message_ok_def)
    let ?p = "\<lparr>pkt_size = of_nat ?sz, pkt_type = PACKETTYPE_EXIT, senderpid = pid, sendertid = tid, pkt_data = ?data\<rparr>"
    note N = new_packet_Some [OF b(1), of ?data]
    have ok: "packet_ok ?p" using N(2) by (simp add: packet_ok_def del: of_nat_add of_nat_Suc)
    have "read_cstring ?data (4, length timeused + 1) = (Some 4, length timeused + 5, 0)" "cstring_at ?data 4 = timeused"
      using read_one [of 4 ?data timeused] b(2) by simp_all
    then have "says ?p m"
      using Msg_Exit ok packet_left [OF ok] packet_large [OF ok]
      by (simp add: says_def read_runnerpacket_def packettypes Let_def ptr_text_def read_integer_def get32_only)
    then show ?thesis using N(1) Msg_Exit by (simp add: runnerpacket_exit_def)
  next
    case (Msg_Exec argv)
    then have a: "argv \<noteq> []" using assms by (simp add: message_ok_def)
    have e: "packet_of pid tid m = new_packet pid tid (message_type m) (HEADER_SIZE + length (join_args argv) + 1)
        (join_args argv @ [0])"
      unfolding Msg_Exec packet_of.simps message_type.simps runnerpacket_exec_def exec_loop_join [OF a]
        length_join_args [OF a, symmetric] by (simp only: add.assoc)
    show ?thesis unfolding e by (rule one) (simp_all add: Msg_Exec)
  next
    case (Msg_Subtest_Result a b c d)
    then show ?thesis using four [of a b c d] by (simp add: runnerpacket_subtest_result_def)
  next
    case (Msg_Dynamic_Subtest_Result a b c d)
    then show ?thesis using four [of a b c d] by (simp add: runnerpacket_dynamic_subtest_result_def)
  qed (use one in \<open>simp_all add: runnerpacket_subtest_start_def runnerpacket_dynamic_subtest_start_def
      runnerpacket_versionstring_def runnerpacket_resultoverride_def\<close>)
qed

subsection \<open>Round trip of a dump\<close>

fun visit_all :: "'s comms_visitor \<Rightarrow> runnerpacket list \<Rightarrow> comms_parse \<Rightarrow> 's \<Rightarrow> (comms_parse \<times> 's) option" where
  "visit_all visitor [] ret s = Some (ret, s)"
| "visit_all visitor (p # ps) ret s = do {
     (s1, cont) \<leftarrow> visit_packet visitor p s;
     if cont then visit_all visitor ps (if pkt_type p \<noteq> PACKETTYPE_EXEC then COMMSPARSE_SUCCESS else ret) s1
     else Some (COMMSPARSE_ERROR, s1) }"

abbreviation dump_of :: "runnerpacket list \<Rightarrow> u8 list" where
  "dump_of ps \<equiv> concat (map write_packet_with_canary ps)"

lemma packet_bytes_ok:
  assumes "packet_ok p"
  shows "packet_bytes p = le32 (pkt_size p) @ le32 (pkt_type p) @ le32 (senderpid p) @ le32 (sendertid p) @ pkt_data p"
    "length (packet_bytes p) = unat (pkt_size p)"
  using assms by (simp_all add: packet_bytes_def packet_ok_def HEADER_SIZE_def)

lemma packet_at_written:
  assumes "packet_ok p" "drop n file = packet_bytes p @ rest"
  shows "packet_at file n = p"
proof -
  have d: "drop (n + j) file = drop j (packet_bytes p @ rest)" for j using assms(2) by (metis add.commute drop_drop)
  have n: "drop (0 + 4 + 4) (packet_bytes p @ rest) = le32 (senderpid p) @ le32 (sendertid p) @ pkt_data p @ rest"
    "drop (0 + 4 + 4 + 4) (packet_bytes p @ rest) = le32 (sendertid p) @ pkt_data p @ rest"
    "drop (0 + 4 + 4 + 4 + 4) (packet_bytes p @ rest) = pkt_data p @ rest"
    "drop (0 + 4) (packet_bytes p @ rest) = le32 (pkt_type p) @ le32 (senderpid p) @ le32 (sendertid p) @ pkt_data p @ rest"
    by (simp_all only: packet_bytes_ok(1) [OF assms(1)] append.assoc drop_drop [symmetric] add.commute [of _ 4])
      (simp_all add: le32_def)
  show ?thesis
    using n assms(1) d [of 4] d [of 8] d [of 12] d [of 16] assms(2)
    by (simp add: packet_at_def HEADER_SIZE_def packet_ok_def packet_bytes_ok(1) [OF assms(1)])
qed

lemma dump_step:
  assumes ok: "packet_ok p" and n: "n \<le> length file" "drop n file = write_packet_with_canary p @ rest"
  shows "dump_loop visitor file n ret s = do {
      (s1, cont) \<leftarrow> visit_packet visitor p s;
      if cont then dump_loop visitor file (n + 4 + unat (pkt_size p))
          (if pkt_type p \<noteq> PACKETTYPE_EXEC then COMMSPARSE_SUCCESS else ret) s1
      else Some (COMMSPARSE_ERROR, s1) }"
    "n + 4 + unat (pkt_size p) \<le> length file" "drop (n + 4 + unat (pkt_size p)) file = rest"
proof -
  have len: "length file - n = 4 + unat (pkt_size p) + length rest"
    using arg_cong [OF n(2), of length] packet_bytes_ok(2) [OF ok] by (simp add: write_packet_with_canary_def)
  have sz: "HEADER_SIZE \<le> unat (pkt_size p)" using ok by (simp add: packet_ok_def)
  have c: "get32 (drop n file) = socket_dump_canary" by (simp add: n(2) write_packet_with_canary_def)
  have d: "drop (n + 4) file = packet_bytes p @ rest"
    using arg_cong [OF n(2), of "drop 4"] by (simp add: write_packet_with_canary_def add.commute [of _ 4])
  have at: "packet_at file (n + 4) = p" by (rule packet_at_written [OF ok d])
  show le: "n + 4 + unat (pkt_size p) \<le> length file" using len n(1) by linarith
  show "drop (n + 4 + unat (pkt_size p)) file = rest"
    using arg_cong [OF d, of "drop (unat (pkt_size p))"] packet_bytes_ok(2) [OF ok] by (simp add: add.commute)
  have h: "HEADER_SIZE = 16" by (simp add: HEADER_SIZE_def)
  have small: "\<not> length file - (n + 4) < unat (pkt_size p)" using le by linarith
  show "dump_loop visitor file n ret s = do {
      (s1, cont) \<leftarrow> visit_packet visitor p s;
      if cont then dump_loop visitor file (n + 4 + unat (pkt_size p))
          (if pkt_type p \<noteq> PACKETTYPE_EXEC then COMMSPARSE_SUCCESS else ret) s1
      else Some (COMMSPARSE_ERROR, s1) }"
    using len sz c at le small unfolding h by (subst dump_loop.simps) (simp add: h)
qed

lemma dump_loop_written:
  assumes "\<And>p. p \<in> set ps \<Longrightarrow> packet_ok p" "n \<le> length file" "drop n file = dump_of ps"
  shows "dump_loop visitor file n ret s = visit_all visitor ps ret s"
  using assms
proof (induction ps arbitrary: n ret s)
  case Nil
  then have "n = length file" by simp
  then show ?case by (subst dump_loop.simps) simp
next
  case (Cons p ps)
  have ok: "packet_ok p" using Cons.prems(1) by simp
  have d: "drop n file = write_packet_with_canary p @ dump_of ps" using Cons.prems(3) by simp
  note D = dump_step [OF ok Cons.prems(2) d]
  have IH: "dump_loop visitor file (n + 4 + unat (pkt_size p)) ret' s' = visit_all visitor ps ret' s'" for ret' s'
    by (rule Cons.IH [OF _ D(2,3)]) (use Cons.prems(1) in simp)
  show ?case unfolding D(1) [of visitor ret s]
    by (cases "visit_packet visitor p s") (auto simp: IH split: prod.splits)
qed

text \<open>A dump that was cut off inside a packet: what came before is handled, then the reading fails.\<close>

lemma dump_loop_cut:
  assumes "\<And>p. p \<in> set ps \<Longrightarrow> packet_ok p" "n \<le> length file" "drop n file = dump_of ps @ part"
    "packet_ok q" "part \<noteq> []" "length part < length (write_packet_with_canary q)"
    "part = take (length part) (write_packet_with_canary q)" "4 \<le> length part"
  shows "dump_loop visitor file n ret s = map_option (\<lambda>(r, s'). (COMMSPARSE_ERROR, s')) (visit_all visitor ps ret s)"
  using assms(1-3)
proof (induction ps arbitrary: n ret s)
  case Nil
  have len: "length file - n = length part" using arg_cong [OF Nil.prems(3), of length] by simp
  have lq: "length (write_packet_with_canary q) = 4 + unat (pkt_size q)"
    using packet_bytes_ok(2) [OF assms(4)] by (simp add: write_packet_with_canary_def)
  have "take 4 part = le32 socket_dump_canary"
    using assms(7,8) by (metis length_le32 min.absorb1 append_eq_conv_conj take_take write_packet_with_canary_def)
  then have c: "get32 (drop n file) = socket_dump_canary"
    using Nil.prems(3) assms(8) get32_take [of part] get32_only by simp
  show ?case
  proof (cases "length part - 4 < HEADER_SIZE")
    case True
    then show ?thesis using c len assms(5,8) by (subst dump_loop.simps) auto
  next
    case False
    have "drop (n + 4) file = take (length part - 4) (packet_bytes q)"
    proof -
      have "drop 4 part = take (length part - 4) (packet_bytes q)"
        using arg_cong [OF assms(7), of "drop 4"] by (simp only: write_packet_with_canary_def drop_take drop_append) simp
      moreover have "drop (n + 4) file = drop 4 part" using arg_cong [OF Nil.prems(3), of "drop 4"] by (simp add: add.commute)
      ultimately show ?thesis by simp
    qed
    then have "get32 (drop (n + 4) file) = pkt_size q"
      using False get32_take [of "take (length part - 4) (packet_bytes q)"] packet_bytes_ok [OF assms(4)] assms(6) lq get32_only
      by (simp add: HEADER_SIZE_def min_def)
    then have "pkt_size (packet_at file (n + 4)) = pkt_size q" by (simp add: packet_at_def Let_def)
    moreover have "length file - (n + 4) < unat (pkt_size q)" using len assms(6,8) lq by linarith
    ultimately show ?thesis using c len assms(5,8) False by (subst dump_loop.simps) (auto simp: Let_def)
  qed
next
  case (Cons p ps)
  have ok: "packet_ok p" using Cons.prems(1) by simp
  have d: "drop n file = write_packet_with_canary p @ (dump_of ps @ part)" using Cons.prems(3) by simp
  note D = dump_step [OF ok Cons.prems(2) d]
  have IH: "dump_loop visitor file (n + 4 + unat (pkt_size p)) ret' s' =
      map_option (\<lambda>(r, s'). (COMMSPARSE_ERROR, s')) (visit_all visitor ps ret' s')" for ret' s'
    by (rule Cons.IH [OF _ D(2,3)]) (use Cons.prems(1) in simp)
  show ?case unfolding D(1) [of visitor ret s]
    by (cases "visit_packet visitor p s") (auto simp: IH split: prod.splits)
qed

subsection \<open>Well-typed helpers\<close>

fun helper_pointers :: "helper_fields \<Rightarrow> nat option list" where
  "helper_pointers No_Fields = []"
| "helper_pointers (Log_Fields stream str) = [str]"
| "helper_pointers (Exec_Fields cmdline) = [cmdline]"
| "helper_pointers (Exit_Fields exitcode timeused) = [timeused]"
| "helper_pointers (Subteststart_Fields name) = [name]"
| "helper_pointers (Subtestresult_Fields name result timeused reason) = [name, result, timeused, reason]"
| "helper_pointers (Dynamicsubteststart_Fields name) = [name]"
| "helper_pointers (Dynamicsubtestresult_Fields name result timeused reason) = [name, result, timeused, reason]"
| "helper_pointers (Versionstring_Fields str) = [str]"
| "helper_pointers (Resultoverride_Fields result) = [result]"

text \<open>The union member and the pointers a reader of a packet of this type may follow.\<close>

definition helper_typed :: "u32 \<Rightarrow> helper_fields \<Rightarrow> bool" where
  "helper_typed ty f \<longleftrightarrow>
    (ty = PACKETTYPE_INVALID) \<or>
    (ty = PACKETTYPE_LOG \<and> (\<exists>stream q. f = Log_Fields stream (Some q))) \<or>
    (ty = PACKETTYPE_EXEC \<and> (\<exists>q. f = Exec_Fields (Some q))) \<or>
    (ty = PACKETTYPE_EXIT \<and> (\<exists>exitcode q. f = Exit_Fields exitcode q)) \<or>
    (ty = PACKETTYPE_SUBTEST_START \<and> (\<exists>q. f = Subteststart_Fields (Some q))) \<or>
    (ty = PACKETTYPE_SUBTEST_RESULT \<and> (\<exists>q r t u. f = Subtestresult_Fields (Some q) (Some r) t u)) \<or>
    (ty = PACKETTYPE_DYNAMIC_SUBTEST_START \<and> (\<exists>q. f = Dynamicsubteststart_Fields (Some q))) \<or>
    (ty = PACKETTYPE_DYNAMIC_SUBTEST_RESULT \<and> (\<exists>q r t u. f = Dynamicsubtestresult_Fields (Some q) (Some r) t u)) \<or>
    (ty = PACKETTYPE_VERSIONSTRING \<and> (\<exists>q. f = Versionstring_Fields (Some q))) \<or>
    (ty = PACKETTYPE_RESULT_OVERRIDE \<and> (\<exists>q. f = Resultoverride_Fields (Some q)))"

lemma read_cstring_inside:
  assumes "read_cstring data (p, left) = (q, p', left')" "p + left \<le> n"
  shows "p' + left' \<le> n" "q = Some r \<Longrightarrow> \<exists>e<n. r \<le> e \<and> data ! e = 0"
proof -
  show "p' + left' \<le> n" using read_cstring_range [OF assms(1)] assms(2) by simp
  assume "q = Some r"
  then have "read_cstring data (p, left) = (Some r, p', left')" using assms(1) by simp
  note T = read_cstring_terminated [OF this]
  obtain e where "e < p + left" "p \<le> e" "data ! e = 0" using T(2) by blast
  then show "\<exists>e<n. r \<le> e \<and> data ! e = 0" using T(1) assms(2) by (intro exI [of _ e]) simp
qed

lemma read_result_inside:
  assumes "read_result data (p, left) = (a, b, c, d)" "p + left \<le> n" "Some r \<in> {a, b, c, d}"
  shows "\<exists>e<n. r \<le> e \<and> data ! e = 0"
proof -
  obtain p1 l1 p2 l2 p3 l3 p4 l4 where c: "read_cstring data (p, left) = (a, p1, l1)" "read_cstring data (p1, l1) = (b, p2, l2)"
      "read_cstring data (p2, l2) = (c, p3, l3)" "read_cstring data (p3, l3) = (d, p4, l4)"
    using assms(1) by (auto simp: read_result_def Let_def split: prod.splits)
  note A = read_cstring_inside [OF c(1) assms(2)]
  note B = read_cstring_inside [OF c(2) A(1)]
  note C = read_cstring_inside [OF c(3) B(1)]
  note D = read_cstring_inside [OF c(4) C(1)]
  show ?thesis using assms(3) A(2) B(2) C(2) D(2) by blast
qed

lemma read_integer_inside: "read_integer k data (p, left) = (q, p', left') \<Longrightarrow> p + left \<le> n \<Longrightarrow> p' + left' \<le> n"
  by (auto simp: read_integer_def split: if_splits)

lemma read_runnerpacket_typed:
  assumes "packet_ok p"
  shows "helper_typed (helper_type (read_runnerpacket p)) (helper_fields (read_runnerpacket p))"
    "\<forall>q. Some q \<in> set (helper_pointers (helper_fields (read_runnerpacket p))) \<longrightarrow>
      (\<exists>e<length (pkt_data p). q \<le> e \<and> pkt_data p ! e = 0)"
proof -
  let ?data = "pkt_data p" and ?n = "length (pkt_data p)"
  note pl = packet_left [OF assms] packet_large [OF assms]
  show "helper_typed (helper_type (read_runnerpacket p)) (helper_fields (read_runnerpacket p))"
    by (auto simp: read_runnerpacket_def Let_def helper_typed_def packettypes split: prod.splits)
  have one: "\<exists>e<?n. r \<le> e \<and> ?data ! e = 0" if "read_cstring ?data (0, ?n) = (Some r, c)" for r c
    using read_cstring_terminated [OF that] by auto
  have two: "\<exists>e<?n. r \<le> e \<and> ?data ! e = 0"
    if "read_integer k ?data (0, ?n) = (i, c)" "read_cstring ?data c = (Some r, c')" for k i c r c'
  proof -
    obtain p' l' where c: "c = (p', l')" by (cases c)
    have "p' + l' \<le> ?n" using read_integer_inside [OF that(1) [unfolded c]] by simp
    have "read_cstring ?data (p', l') = (Some r, fst c', snd c')" using that(2) c by simp
    from read_cstring_inside(2) [OF this \<open>p' + l' \<le> ?n\<close> refl] show ?thesis .
  qed
  have four: "\<exists>e<?n. r \<le> e \<and> ?data ! e = 0"
    if "read_result ?data (0, ?n) = (a, b, c, d)" "Some r \<in> {a, b, c, d}" for a b c d r
    by (rule read_result_inside [OF that(1) _ that(2)]) simp
  show "\<forall>q. Some q \<in> set (helper_pointers (helper_fields (read_runnerpacket p))) \<longrightarrow>
      (\<exists>e<?n. q \<le> e \<and> ?data ! e = 0)"
  proof (intro allI impI)
    fix q assume q: "Some q \<in> set (helper_pointers (helper_fields (read_runnerpacket p)))"
    obtain i c t d where i: "read_integer (Suc 0) ?data (0, ?n) = (i, c)" "read_cstring ?data c = (t, d)"
      by (metis surj_pair)
    obtain i' c' t' d' where i': "read_integer 4 ?data (0, ?n) = (i', c')" "read_cstring ?data c' = (t', d')"
      by (metis surj_pair)
    obtain u e where u: "read_cstring ?data (0, ?n) = (u, e)" by (metis surj_pair)
    obtain w x y z where w: "read_result ?data (0, ?n) = (w, x, y, z)" by (metis prod_cases4)
    have "Some q = t \<or> Some q = t' \<or> Some q = u \<or> Some q \<in> {w, x, y, z}"
      using q pl by (auto simp: read_runnerpacket_def Let_def i i' u w split: if_splits)
    then show "\<exists>e<?n. q \<le> e \<and> ?data ! e = 0"
      using one [of q e] two [OF i(1), of q d] two [OF i'(1), of q d'] four [OF w, of q] i(2) i'(2) u by auto
  qed
qed

subsection \<open>Signal-safe log messages\<close>

lemma sig_safe_pieces:
  assumes "0 \<notin> set str"
  shows "\<exists>cs. list_all2 (\<lambda>p c. says p (Msg_Log 2 c) \<and> length c \<le> 127) (log_to_runner_sig_safe pid str) cs \<and> concat cs = str"
  using assms
proof (induction pid str rule: log_to_runner_sig_safe.induct)
  case (1 pid str)
  let ?l = "if 128 - 1 < length str then 128 - 1 else length str"
  let ?c = "take ?l str"
  let ?p = "\<lparr>pkt_size = of_nat (HEADER_SIZE + 1) + of_nat (?l + 1), pkt_type = PACKETTYPE_LOG, senderpid = pid,
      sendertid = 0, pkt_data = [2] @ ?c @ [0]\<rparr>"
  have l: "?l \<le> 127" "length ?c = ?l" by auto
  have ok: "message_ok (Msg_Log 2 ?c)" using 1(2) l by (auto simp: message_ok_def HEADER_SIZE_def dest: in_set_takeD)
  have sz: "(of_nat (HEADER_SIZE + 1) + of_nat (?l + 1) :: u32) = of_nat (HEADER_SIZE + 1 + length ?c + 1)" unfolding l(2) by simp
  have "HEADER_SIZE + 1 + length ?c + 1 < 2 ^ 32" using l by (simp add: HEADER_SIZE_def)
  moreover have "HEADER_SIZE + length ([2] @ ?c @ [0]) = HEADER_SIZE + 1 + length ?c + 1" by simp
  ultimately have "runnerpacket_log pid 0 2 ?c = Some ?p"
    unfolding runnerpacket_log_def sz by (rule new_packet_Some(1))
  then have p: "says ?p (Msg_Log 2 ?c)" using packet_of_says [OF ok, of pid 0] by simp
  have "length ?c \<le> 127" using l by simp
  with p have pc: "says ?p (Msg_Log 2 ?c) \<and> length ?c \<le> 127" by (rule conjI)
  show ?case
  proof (cases "length str - ?l \<noteq> 0")
    case True
    have "0 \<notin> set (drop ?l str)" using 1(2) by (auto dest: in_set_dropD)
    then obtain cs where cs: "list_all2 (\<lambda>p c. says p (Msg_Log 2 c) \<and> length c \<le> 127) (log_to_runner_sig_safe pid (drop ?l str)) cs"
        "concat cs = drop ?l str"
      using 1(1) [OF refl refl True] by blast
    have a: "log_to_runner_sig_safe pid str = ?p # log_to_runner_sig_safe pid (drop ?l str)"
      using True by (subst log_to_runner_sig_safe.simps) (simp only: Let_def if_True simp_thms)
    have b: "list_all2 (\<lambda>p c. says p (Msg_Log 2 c) \<and> length c \<le> 127)
        (?p # log_to_runner_sig_safe pid (drop ?l str)) (?c # cs)"
      by (rule list.rel_intros(2)) (rule pc, rule cs(1))
    have c: "concat (?c # cs) = str" using cs(2) by (simp only: concat.simps append_take_drop_id)
    show ?thesis unfolding a by (rule exI [of _ "?c # cs"], rule conjI, rule b, rule c)
  next
    case False
    then have a: "log_to_runner_sig_safe pid str = [?p]"
      by (subst log_to_runner_sig_safe.simps) (simp only: Let_def if_False simp_thms)
    have b: "list_all2 (\<lambda>p c. says p (Msg_Log 2 c) \<and> length c \<le> 127) [?p] [?c]"
      by (rule list.rel_intros(2)) (rule pc, rule list.rel_intros(1))
    have "length str \<le> ?l" using False by linarith
    then have c: "concat [?c] = str" by (simp only: concat.simps append_Nil2 take_all)
    show ?thesis unfolding a by (rule exI [of _ "[?c]"], rule conjI, rule b, rule c)
  qed
qed

subsection \<open>Properties\<close>

text \<open>C24: A packet says what its constructor was given: the reader gets the type, the number and the
  texts back, in order, from every message whose texts hold no NUL and whose size, with the header and four
  bytes more, is below \<open>2 ^ 32\<close>; a command line has at least one argument (the constructor writes behind the
  packet when there is none), and its arguments come back joined by spaces. A NUL-free message of any length
  sent by the signal-safe logger arrives in pieces of at most 127 bytes that make up the message.\<close>

theorem packets_roundtrip:
  assumes "message_ok m" "0 \<notin> set str"
  shows "(\<exists>p. packet_of pid tid m = Some p \<and> helper_type (read_runnerpacket p) = message_type m \<and>
      helper_number (helper_fields (read_runnerpacket p)) = message_number m \<and>
      helper_texts (pkt_data p) (helper_fields (read_runnerpacket p)) = map Some (message_texts m)) \<and>
    (\<exists>cs. list_all2 (\<lambda>p c. helper_texts (pkt_data p) (helper_fields (read_runnerpacket p)) = [Some c] \<and> length c \<le> 127)
      (log_to_runner_sig_safe pid str) cs \<and> concat cs = str)"
proof
  show "\<exists>p. packet_of pid tid m = Some p \<and> helper_type (read_runnerpacket p) = message_type m \<and>
      helper_number (helper_fields (read_runnerpacket p)) = message_number m \<and>
      helper_texts (pkt_data p) (helper_fields (read_runnerpacket p)) = map Some (message_texts m)"
    using packet_of_says [OF assms(1), of pid tid] unfolding says_def by blast
  obtain cs where "list_all2 (\<lambda>p c. says p (Msg_Log 2 c) \<and> length c \<le> 127) (log_to_runner_sig_safe pid str) cs" "concat cs = str"
    using sig_safe_pieces [OF assms(2)] by blast
  then show "\<exists>cs. list_all2 (\<lambda>p c. helper_texts (pkt_data p) (helper_fields (read_runnerpacket p)) = [Some c] \<and> length c \<le> 127)
      (log_to_runner_sig_safe pid str) cs \<and> concat cs = str"
    by (auto elim!: list_all2_mono simp: says_def intro!: exI [of _ cs])
qed

theorem packets_roundtrip_witness:
  "\<exists>p. packet_of 7 8 (Msg_Subtest_Result [97] [98, 99] [49] []) = Some p \<and>
    helper_texts (pkt_data p) (helper_fields (read_runnerpacket p)) = [Some [97], Some [98, 99], Some [49], Some []]"
  using packets_roundtrip [of "Msg_Subtest_Result [97] [98, 99] [49] []" "[]" 7 8]
  by (auto simp: message_ok_def HEADER_SIZE_def)



lemma read_dump_written:
  assumes "\<forall>p\<in>set ps. packet_ok p"
  shows "comms_read_dump (Dump (dump_of ps)) visitor s = visit_all visitor ps COMMSPARSE_EMPTY s"
proof (cases ps)
  case (Cons p ps')
  have "length (dump_of ps) \<noteq> 0" using Cons by (simp add: write_packet_with_canary_def)
  moreover have "dump_loop visitor (dump_of ps) 0 COMMSPARSE_EMPTY s = visit_all visitor ps COMMSPARSE_EMPTY s"
    by (rule dump_loop_written) (use assms in simp_all)
  ultimately show ?thesis by (simp only: comms_read_dump_def dump_fd.case if_False simp_thms)
qed (simp add: comms_read_dump_def)

text \<open>C26: A dump of packets is read back packet by packet: the handlers see them in order until one of
  them stops the reading (an error); otherwise the result is success, or empty when there were only exec
  packets. When the dump is cut off inside its last packet, the packets before it are handled and the
  reading ends in an error.\<close>

theorem comms_dump_roundtrip:
  assumes "\<forall>p\<in>set ps. packet_ok p" "ps \<noteq> []" "packet_ok q" "4 \<le> k" "k < length (write_packet_with_canary q)"
  shows "comms_read_dump (Dump (concat (map write_packet_with_canary ps))) visitor s = visit_all visitor ps COMMSPARSE_EMPTY s \<and>
    comms_read_dump (Dump (concat (map write_packet_with_canary ps) @ take k (write_packet_with_canary q))) visitor s =
      map_option (\<lambda>(r, s'). (COMMSPARSE_ERROR, s')) (visit_all visitor ps COMMSPARSE_EMPTY s)"
proof -
  let ?part = "take k (write_packet_with_canary q)"
  have len: "length (dump_of ps) \<noteq> 0" using assms(2) by (cases ps) (simp_all add: write_packet_with_canary_def)
  have k: "length ?part = k" using assms(5) by simp
  have "dump_loop visitor (dump_of ps) 0 COMMSPARSE_EMPTY s = visit_all visitor ps COMMSPARSE_EMPTY s"
    by (rule dump_loop_written) (use assms(1) in simp_all)
  moreover have "dump_loop visitor (dump_of ps @ ?part) 0 COMMSPARSE_EMPTY s =
      map_option (\<lambda>(r, s'). (COMMSPARSE_ERROR, s')) (visit_all visitor ps COMMSPARSE_EMPTY s)"
    by (rule dump_loop_cut [where q = q and part = ?part]) (use assms k in auto)
  moreover have "length (dump_of ps @ ?part) \<noteq> 0" using len by simp
  ultimately show ?thesis using len by (simp only: comms_read_dump_def dump_fd.case if_False simp_thms)
qed

definition text_collector :: "u8 list list comms_visitor" where
  "text_collector = \<lparr>visit_log = Some (\<lambda>p h s. Some (s @ map the (helper_texts (pkt_data p) (helper_fields h)), True)),
    visit_exec = None, visit_exit = None, visit_subtest_start = None, visit_subtest_result = None,
    visit_dynamic_subtest_start = None, visit_dynamic_subtest_result = None, visit_versionstring = None,
    visit_result_override = None\<rparr>"

theorem comms_dump_roundtrip_witness:
  "\<exists>p. packet_of 1 1 (Msg_Log 1 [72, 105]) = Some p \<and>
    comms_read_dump (Dump (concat (map write_packet_with_canary [p, p]))) text_collector [] =
      Some (COMMSPARSE_SUCCESS, [[72, 105], [72, 105]])"
proof -
  have "message_ok (Msg_Log 1 [72, 105])" by (simp add: message_ok_def HEADER_SIZE_def)
  then obtain p where p: "packet_of 1 1 (Msg_Log 1 [72, 105]) = Some p" "says p (Msg_Log 1 [72, 105])"
    using packet_of_says by blast
  then have ok: "packet_ok p" "pkt_type p = PACKETTYPE_LOG" "helper_texts (pkt_data p) (helper_fields (read_runnerpacket p)) = [Some [72, 105]]"
    by (simp_all add: says_def)
  have "visit_all text_collector [p, p] COMMSPARSE_EMPTY [] = Some (COMMSPARSE_SUCCESS, [[72, 105], [72, 105]])"
    using ok by (simp add: visit_packet_def visitor_handler_def packettypes text_collector_def)
  moreover have "comms_read_dump (Dump (concat (map write_packet_with_canary [p, p]))) text_collector [] =
      visit_all text_collector [p, p] COMMSPARSE_EMPTY []"
    using comms_dump_roundtrip [of "[p, p]" p 4 text_collector "[]"] ok(1) packet_bytes_ok(2) [OF ok(1)]
    by (simp add: write_packet_with_canary_def packet_ok_def HEADER_SIZE_def)
  ultimately show ?thesis using p(1) by auto
qed

end
