(* ===== verification/C_Text.thy ===== *)
theory C_Text
  imports Prelude
begin

text \<open>
  Text as the C sources handle it: bytes, with \<open>str\<close> for a string literal. The functions of libc that
  read text: \<open>isspace\<close> and \<open>tolower\<close> of the C locale, \<open>getline\<close>, \<open>fscanf("%ms")\<close>, and \<open>snprintf\<close> into
  a buffer, which cuts what does not fit.
\<close>

type_synonym bytes = "u8 list"

definition str :: "string \<Rightarrow> bytes" where
  "str s = map of_char s"

text \<open>What a C string function sees of a buffer.\<close>

definition cstring :: "bytes \<Rightarrow> bytes" where
  "cstring s = takeWhile (\<lambda>b. b \<noteq> 0) s"

definition c_isspace :: "u8 \<Rightarrow> bool" where
  "c_isspace b \<longleftrightarrow> b = 32 \<or> b = 9 \<or> b = 10 \<or> b = 11 \<or> b = 12 \<or> b = 13"

definition c_tolower :: "u8 \<Rightarrow> u8" where
  "c_tolower b = (if 65 \<le> b \<and> b \<le> 90 then b + 32 else b)"

definition snprintf_buf :: "nat \<Rightarrow> bytes \<Rightarrow> bytes" where
  "snprintf_buf n s = take (n - 1) s"

text \<open>Before and after the first \<open>c\<close>, as \<open>strchr\<close> finds it; \<open>None\<close> when there is none.\<close>

definition split_at_char :: "u8 \<Rightarrow> bytes \<Rightarrow> bytes \<times> bytes option" where
  "split_at_char c s = (takeWhile (\<lambda>b. b \<noteq> c) s, case dropWhile (\<lambda>b. b \<noteq> c) s of [] \<Rightarrow> None | _ # r \<Rightarrow> Some r)"

lemma dropWhile_shorter: "dropWhile P s = x # r \<Longrightarrow> length r < length s"
  by (metis dual_order.strict_trans1 impossible_Cons length_Cons length_dropWhile_le lessI linorder_not_le)

text \<open>The words of a file: \<open>fscanf("%ms")\<close> until the end.\<close>

function scan_words :: "bytes \<Rightarrow> bytes list" where
  "scan_words s = (let r = dropWhile c_isspace s in
     if r = [] then [] else takeWhile (\<lambda>b. \<not> c_isspace b) r # scan_words (dropWhile (\<lambda>b. \<not> c_isspace b) r))"
  by pat_completeness auto
termination
proof (relation "measure length", goal_cases)
  case (2 s r)
  obtain x t where r: "r = x # t" using 2(2) by (cases r) auto
  then have "\<not> c_isspace x" using 2(1) by (metis dropWhile_eq_Cons_conv)
  then have "length (dropWhile (\<lambda>b. \<not> c_isspace b) r) \<le> length t" using r by (simp add: length_dropWhile_le)
  moreover have "length r \<le> length s" using 2 by (simp add: length_dropWhile_le)
  ultimately show ?case using r by simp
qed simp

text \<open>The lines of a file, each with its newline (the last may lack it): \<open>getline\<close> until the end.\<close>

function file_lines :: "bytes \<Rightarrow> bytes list" where
  "file_lines s = (if s = [] then [] else
     case split_at_char 10 s of (l, None) \<Rightarrow> [l] | (l, Some r) \<Rightarrow> (l @ [10]) # file_lines r)"
  by pat_completeness auto
termination
  by (relation "measure length") (auto simp: split_at_char_def dropWhile_shorter split: list.splits)

declare scan_words.simps [simp del] file_lines.simps [simp del]

fun join_with :: "bytes \<Rightarrow> bytes list \<Rightarrow> bytes" where
  "join_with sep [] = []"
| "join_with sep [s] = s"
| "join_with sep (s # t # ts) = s @ sep @ join_with sep (t # ts)"

function split_all :: "u8 \<Rightarrow> bytes \<Rightarrow> bytes list" where
  "split_all c s = (case split_at_char c s of (a, None) \<Rightarrow> [a] | (a, Some r) \<Rightarrow> a # split_all c r)"
  by pat_completeness auto
termination
  by (relation "measure (\<lambda>(c, s). length s)") (auto simp: split_at_char_def dropWhile_shorter split: list.splits)

declare split_all.simps [simp del]

subsection \<open>Laws\<close>

lemma split_at_char_hit: "c \<notin> set a \<Longrightarrow> split_at_char c (a @ c # r) = (a, Some r)"
  by (induction a) (auto simp: split_at_char_def)

lemma split_at_char_miss: "c \<notin> set a \<Longrightarrow> split_at_char c a = (a, None)"
proof -
  assume "c \<notin> set a"
  then have "dropWhile (\<lambda>b. b \<noteq> c) a = []" "takeWhile (\<lambda>b. b \<noteq> c) a = a" by (auto simp: takeWhile_eq_all_conv)
  then show ?thesis by (simp only: split_at_char_def list.case)
qed

lemma cstring_id: "0 \<notin> set s \<Longrightarrow> cstring s = s"
  by (auto simp: cstring_def takeWhile_eq_all_conv)

lemma file_lines_nil [simp]: "file_lines [] = []"
  by (simp add: file_lines.simps)

lemma file_lines_cons: "10 \<notin> set l \<Longrightarrow> file_lines ((l @ [10]) @ r) = (l @ [10]) # file_lines r"
  by (subst file_lines.simps) (simp add: split_at_char_hit)

lemma file_lines_concat:
  "\<forall>l\<in>set ls. 10 \<notin> set l \<Longrightarrow> file_lines (concat (map (\<lambda>l. l @ [10]) ls)) = map (\<lambda>l. l @ [10]) ls"
proof (induction ls)
  case (Cons l ls)
  then have "file_lines ((l @ [10]) @ concat (map (\<lambda>l. l @ [10]) ls)) = (l @ [10]) # map (\<lambda>l. l @ [10]) ls"
    by (subst file_lines_cons) auto
  then show ?case by simp
qed simp

lemma split_join:
  "\<forall>s\<in>set ss. c \<notin> set s \<Longrightarrow> ss \<noteq> [] \<Longrightarrow> split_all c (join_with [c] ss) = ss"
proof (induction "[c]" ss rule: join_with.induct)
  case (2 s)
  then show ?case by (subst split_all.simps) (simp add: split_at_char_miss)
next
  case (3 s t ts)
  then show ?case by (subst split_all.simps) (simp add: split_at_char_hit)
qed simp

lemma set_join_with: "set (join_with sep ss) \<subseteq> \<Union> (set ` set ss) \<union> set sep"
  by (induction sep ss rule: join_with.induct) auto

lemma scan_words_nil [simp]: "scan_words [] = []"
  by (simp add: scan_words.simps)

lemma scan_words_space: "c_isspace x \<Longrightarrow> scan_words (x # s) = scan_words s"
  by (subst (1 2) scan_words.simps) (simp add: Let_def)

lemma scan_words_step:
  "dropWhile c_isspace s = r \<Longrightarrow> r \<noteq> [] \<Longrightarrow>
    scan_words s = takeWhile (\<lambda>b. \<not> c_isspace b) r # scan_words (dropWhile (\<lambda>b. \<not> c_isspace b) r)"
  by (subst scan_words.simps) (simp add: Let_def)

lemma scan_words_word:
  assumes "w \<noteq> []" "\<forall>b\<in>set w. \<not> c_isspace b" "c_isspace x"
  shows "scan_words (w @ x # s) = w # scan_words s"
proof -
  have t: "takeWhile (\<lambda>b. \<not> c_isspace b) (w @ x # s) = w" "dropWhile (\<lambda>b. \<not> c_isspace b) (w @ x # s) = x # s"
    using assms(2,3) by (auto simp: takeWhile_append dropWhile_append)
  have "dropWhile c_isspace (w @ x # s) = w @ x # s" using assms(1,2) by (cases w) simp_all
  from scan_words_step [OF this] show ?thesis using assms(1,3) by (simp add: t scan_words_space)
qed

end
