(* ===== verification/Job_List.thy ===== *)
theory Job_List
  imports C_Text
begin

text \<open>
  The list of the tests to run (\<^verbatim>\<open>runner/job_list.c\<close>): built from a test list or by asking the binaries
  for their subtests, written to \<^verbatim>\<open>joblist.txt\<close> and read back, and the names of tests in the results.
  A regular expression is the predicate of the texts it matches (\<^verbatim>\<open>g_regex_match\<close>); \<open>popen_env\<close> is what
  running a command gives. \<open>None\<close> is \<^verbatim>\<open>exit(1)\<close>.
\<close>

subsection \<open>Settings and entries\<close>

datatype prune_mode_t = PRUNE_KEEP_DYNAMIC | PRUNE_KEEP_SUBTESTS | PRUNE_KEEP_ALL | PRUNE_KEEP_REQUESTED

type_synonym regex_list = "(bytes \<Rightarrow> bool) list"

record settings =
  test_root :: "bytes option"
  results_path :: "bytes option"
  include_regexes :: regex_list
  exclude_regexes :: regex_list
  overwrite :: bool
  multiple_mode :: bool
  prune_mode :: prune_mode_t
  allow_non_root :: bool
  overall_timeout :: int

record job_list_entry =
  entry_binary :: bytes
  entry_subtests :: "bytes list"

type_synonym job_list = "job_list_entry list"

datatype pclose_status = Pclose_Failed | Exited nat | Killed

datatype popen_result = Popen_Failed | Listing bytes pclose_status

type_synonym popen_env = "bytes \<Rightarrow> popen_result"

definition IGT_EXIT_INVALID :: nat where "IGT_EXIT_INVALID = 79"

subsection \<open>Names\<close>

definition lowercase :: "bytes \<Rightarrow> bytes" where
  "lowercase s = map c_tolower (takeWhile (\<lambda>b. \<not> c_isspace b) s)"

definition generate_piglit_name :: "bytes \<Rightarrow> bytes option \<Rightarrow> nat \<Rightarrow> bytes" where
  "generate_piglit_name binary subtest namebuf_size = (case subtest of
       None \<Rightarrow> snprintf_buf namebuf_size (str ''igt@'' @ lowercase binary)
     | Some s \<Rightarrow> snprintf_buf namebuf_size (str ''igt@'' @ lowercase binary @ str ''@'' @ lowercase s))"

definition generate_piglit_name_for_dynamic :: "bytes \<Rightarrow> bytes \<Rightarrow> nat \<Rightarrow> bytes" where
  "generate_piglit_name_for_dynamic base_piglit_name dynamic_subtest namebuf_size =
    snprintf_buf namebuf_size (base_piglit_name @ str ''@'' @ lowercase dynamic_subtest)"

subsection \<open>Building the list\<close>

definition matches_any :: "bytes \<Rightarrow> regex_list \<Rightarrow> bool" where
  "matches_any s l = list_ex (\<lambda>r. r s) l"

definition add_job_list_entry :: "job_list \<Rightarrow> bytes \<Rightarrow> bytes list \<Rightarrow> job_list" where
  "add_job_list_entry jl binary subtests = jl @ [\<lparr>entry_binary = binary, entry_subtests = subtests\<rparr>]"

text \<open>\<open>list && list->size && matches_any(name, list)\<close> and its counterpart for the include list.\<close>

definition excluded :: "bytes \<Rightarrow> regex_list option \<Rightarrow> bool" where
  "excluded name l = (case l of None \<Rightarrow> False | Some l \<Rightarrow> l \<noteq> [] \<and> matches_any name l)"

definition not_included :: "bytes \<Rightarrow> regex_list option \<Rightarrow> bool" where
  "not_included name l = (case l of None \<Rightarrow> False | Some l \<Rightarrow> l \<noteq> [] \<and> \<not> matches_any name l)"

definition subtest_step :: "settings \<Rightarrow> bytes \<Rightarrow> regex_list option \<Rightarrow> regex_list option \<Rightarrow> bytes \<Rightarrow>
    job_list \<times> bytes list \<Rightarrow> job_list \<times> bytes list" where
  "subtest_step settings binary incl excl subtestname st =
    (let (jl, subtests) = st; piglitname = generate_piglit_name binary (Some subtestname) 256 in
     if excluded piglitname excl then (jl, subtests)
     else if not_included piglitname incl then (jl, subtests)
     else if multiple_mode settings then (jl, subtests @ [subtestname])
     else (add_job_list_entry jl binary [subtestname], subtests))"

text \<open>\<^verbatim>\<open>printf\<close> shows a NULL string as \<^verbatim>\<open>(null)\<close>.\<close>

definition list_command :: "settings \<Rightarrow> bytes \<Rightarrow> bytes" where
  "list_command settings binary = (case test_root settings of None \<Rightarrow> str ''(null)'' | Some r \<Rightarrow> r) @ str ''/'' @ binary @ str '' --list-subtests''"

definition add_subtests :: "popen_env \<Rightarrow> job_list \<Rightarrow> settings \<Rightarrow> bytes \<Rightarrow> regex_list option \<Rightarrow> regex_list option \<Rightarrow>
    job_list option" where
  "add_subtests popen jl settings binary incl excl =
    (if 256 \<le> length (list_command settings binary) then Some jl
     else case popen (list_command settings binary) of
       Popen_Failed \<Rightarrow> Some jl
     | Listing out status \<Rightarrow>
        (let (jl1, subtests) = fold (subtest_step settings binary incl excl) (map cstring (scan_words out)) (jl, []);
             jl2 = (if subtests \<noteq> [] then add_job_list_entry jl1 binary subtests else jl1) in
         case status of
           Pclose_Failed \<Rightarrow> Some jl2
         | Exited s \<Rightarrow>
             if s = IGT_EXIT_INVALID then
               (let piglitname = generate_piglit_name binary None 256 in
                if excluded piglitname excl then Some jl2
                else if not_included piglitname incl then Some jl2
                else Some (add_job_list_entry jl2 binary []))
             else Some jl2
         | Killed \<Rightarrow> None))"

text \<open>\<open>fscanf("%127s")\<close>: a longer word is read in pieces.\<close>

function chunks :: "nat \<Rightarrow> bytes \<Rightarrow> bytes list" where
  "chunks n s = (if length s \<le> n \<or> n = 0 then [s] else take n s # chunks n (drop n s))"
  by pat_completeness auto
termination by (relation "measure (\<lambda>(n, s). length s)") auto

declare chunks.simps [simp del]

definition filtered_step :: "popen_env \<Rightarrow> settings \<Rightarrow> bytes \<Rightarrow> job_list \<Rightarrow> job_list option" where
  "filtered_step popen settings buf jl =
    (if buf = str ''TESTLIST'' \<or> buf = str ''END'' then Some jl
     else if exclude_regexes settings \<noteq> [] \<and> matches_any buf (exclude_regexes settings) then Some jl
     else if include_regexes settings = [] \<or> matches_any buf (include_regexes settings) then
       (if multiple_mode settings \<and> exclude_regexes settings = [] then Some (add_job_list_entry jl buf [])
        else add_subtests popen jl settings buf None (Some (exclude_regexes settings)))
     else add_subtests popen jl settings buf (Some (include_regexes settings)) (Some (exclude_regexes settings)))"

fun fold_option :: "('a \<Rightarrow> 's \<Rightarrow> 's option) \<Rightarrow> 'a list \<Rightarrow> 's \<Rightarrow> 's option" where
  "fold_option f [] s = Some s"
| "fold_option f (x # xs) s = f x s \<bind> fold_option f xs"

definition filtered_words :: "bytes \<Rightarrow> bytes list" where
  "filtered_words file = map cstring (concat (map (chunks 127) (scan_words file)))"

definition filtered_job_list :: "popen_env \<Rightarrow> job_list \<Rightarrow> settings \<Rightarrow> bytes \<Rightarrow> (job_list \<times> bool) option" where
  "filtered_job_list popen jl settings file =
    (if jl \<noteq> [] then None
     else do {
       jl1 \<leftarrow> fold_option (filtered_step popen settings) (filtered_words file) jl;
       Some (jl1, jl1 \<noteq> []) })"

text \<open>\<open>sscanf(line, "igt@%ms", &binary)\<close>\<close>

definition scan_igt :: "bytes \<Rightarrow> bytes option" where
  "scan_igt line =
    (if take 4 line \<noteq> str ''igt@'' then None
     else case scan_words (drop 4 line) of [] \<Rightarrow> None | w # _ \<Rightarrow> Some w)"

definition test_list_step :: "popen_env \<Rightarrow> settings \<Rightarrow> bytes \<Rightarrow> job_list \<times> job_list_entry option \<times> bool \<Rightarrow>
    (job_list \<times> job_list_entry option \<times> bool) option" where
  "test_list_step popen settings getline st =
    (let (jl, entry, any) = st;
         line = takeWhile (\<lambda>b. b \<noteq> 35) (cstring getline);
         flush = (\<lambda>jl. case entry of Some e \<Rightarrow> jl @ [e] | None \<Rightarrow> jl) in
     if exclude_regexes settings \<noteq> [] \<and> matches_any line (exclude_regexes settings) then Some (jl, entry, any)
     else if include_regexes settings \<noteq> [] \<and> \<not> matches_any line (include_regexes settings) then Some (jl, entry, any)
     else case scan_igt line of
       None \<Rightarrow> Some (jl, entry, any)
     | Some word \<Rightarrow>
       (case split_at_char 64 word of
          (binary, None) \<Rightarrow> do {
            jl1 \<leftarrow> add_subtests popen (flush jl) settings binary (Some (include_regexes settings)) (Some (exclude_regexes settings));
            Some (jl1, None, True) }
        | (binary, Some delim) \<Rightarrow>
            if \<not> multiple_mode settings then Some (add_job_list_entry jl binary [delim], entry, True)
            else if (case entry of Some e \<Rightarrow> entry_binary e = binary | None \<Rightarrow> False) \<and> 64 \<notin> set delim then
              Some (jl, map_option (\<lambda>e. e\<lparr>entry_subtests := entry_subtests e @ [delim]\<rparr>) entry, any)
            else if 64 \<in> set delim then Some (add_job_list_entry (flush jl) binary [delim], None, True)
            else Some (flush jl, Some \<lparr>entry_binary = binary, entry_subtests = [delim]\<rparr>, any \<or> entry \<noteq> None)))"

definition job_list_from_test_list :: "popen_env \<Rightarrow> job_list \<Rightarrow> settings \<Rightarrow> bytes option \<Rightarrow> (job_list \<times> bool) option" where
  "job_list_from_test_list popen jl settings file = (case file of
       None \<Rightarrow> Some (jl, False)
     | Some s \<Rightarrow> do {
         (jl1, entry, any) \<leftarrow> fold_option (test_list_step popen settings) (file_lines s) (jl, None, False);
         Some (case entry of Some e \<Rightarrow> (jl1 @ [e], True) | None \<Rightarrow> (jl1, any)) })"

text \<open>\<open>test_list_txt\<close> is the content of \<^verbatim>\<open>test-list.txt\<close> in the test root, if it can be opened; \<open>test_list\<close>
  the setting of a test list, with the content of that file if it can be opened.\<close>

definition create_job_list :: "popen_env \<Rightarrow> job_list \<Rightarrow> settings \<Rightarrow> bytes option \<Rightarrow> bytes option option \<Rightarrow>
    (job_list \<times> bool) option" where
  "create_job_list popen jl settings test_list_txt test_list =
    (if test_root settings = None then Some (jl, False)
     else case test_list_txt of
       None \<Rightarrow> Some ([], False)
     | Some s \<Rightarrow> (case test_list of
         Some file \<Rightarrow> job_list_from_test_list popen [] settings file
       | None \<Rightarrow> filtered_job_list popen [] settings s))"

text \<open>The printed lines.\<close>

definition list_all_tests :: "job_list \<Rightarrow> bytes list" where
  "list_all_tests lst = concat (map (\<lambda>e.
     if entry_subtests e = [] then [generate_piglit_name (entry_binary e) None 256]
     else map (\<lambda>s. generate_piglit_name (entry_binary e) (Some s) 256) (entry_subtests e)) lst)"

subsection \<open>The job list file\<close>

text \<open>What serializing finds and leaves in the results directory.\<close>

record results_dir =
  dir_opens :: bool
  joblist_file :: "bytes option"
  unlink_works :: bool
  create_works :: bool

definition entry_text :: "job_list_entry \<Rightarrow> bytes" where
  "entry_text e = entry_binary e @
    (if entry_subtests e \<noteq> [] then str '' '' @ join_with (str '','') (entry_subtests e) else []) @ [10]"

definition serialize_job_list :: "job_list \<Rightarrow> settings \<Rightarrow> results_dir \<Rightarrow> bool \<times> results_dir" where
  "serialize_job_list jl settings dir =
    (if results_path settings = None then (False, dir)
     else if \<not> dir_opens dir then (False, dir)
     else if \<not> overwrite settings \<and> joblist_file dir \<noteq> None then (False, dir)
     else if overwrite settings \<and> joblist_file dir \<noteq> None \<and> \<not> unlink_works dir then (False, dir)
     else (let dir1 = (if overwrite settings then dir\<lparr>joblist_file := None\<rparr> else dir) in
       if \<not> create_works dir1 then (False, dir1)
       else (True, dir1\<lparr>joblist_file := Some (concat (map entry_text jl))\<rparr>)))"

definition read_entry :: "bytes \<Rightarrow> job_list_entry" where
  "read_entry getline =
    (let s = cstring getline;
         line = (if s \<noteq> [] \<and> List.last s = 10 then butlast s else s) in
     case split_at_char 32 line of
       (binary, None) \<Rightarrow> \<lparr>entry_binary = binary, entry_subtests = []\<rparr>
     | (binary, Some sublist) \<Rightarrow> \<lparr>entry_binary = binary, entry_subtests = split_all 44 sublist\<rparr>)"

definition read_job_list :: "job_list \<Rightarrow> results_dir \<Rightarrow> job_list \<times> bool" where
  "read_job_list jl dir = (case joblist_file dir of
       None \<Rightarrow> ([], False)
     | Some file \<Rightarrow> (map read_entry (file_lines file), True))"

subsection \<open>The file round trip\<close>

definition entry_ok :: "job_list_entry \<Rightarrow> bool" where
  "entry_ok e \<longleftrightarrow> {0, 10, 32} \<inter> set (entry_binary e) = {} \<and> (\<forall>s\<in>set (entry_subtests e). {0, 10, 44} \<inter> set s = {})"

lemma str_lits: "str '' '' = [32]" "str '','' = [44]" "str ''@'' = [64]"
  by (simp_all add: str_def)

lemma entry_text_line:
  assumes "entry_ok e"
  obtains l where "entry_text e = l @ [10]" "0 \<notin> set l" "10 \<notin> set l" "read_entry (l @ [10]) = e"
proof
  let ?ss = "entry_subtests e"
  let ?l = "entry_binary e @ (if ?ss \<noteq> [] then [32] @ join_with [44] ?ss else [])"
  have j: "set (join_with [44] ?ss) \<subseteq> \<Union> (set ` set ?ss) \<union> {44}" using set_join_with [of "[44]"] by simp
  show "entry_text e = ?l @ [10]" by (simp add: entry_text_def str_lits)
  show z: "0 \<notin> set ?l" using assms j by (auto simp: entry_ok_def)
  show "10 \<notin> set ?l" using assms j by (auto simp: entry_ok_def)
  have c: "cstring (?l @ [10]) = ?l @ [10]" using z by (intro cstring_id) simp
  have s: "split_at_char 32 ?l = (entry_binary e, if ?ss \<noteq> [] then Some (join_with [44] ?ss) else None)"
    using assms by (auto simp: entry_ok_def split_at_char_hit split_at_char_miss)
  have sp: "?ss \<noteq> [] \<Longrightarrow> split_all 44 (join_with [44] ?ss) = ?ss"
    using assms by (intro split_join) (auto simp: entry_ok_def)
  have "read_entry (?l @ [10]) = (case split_at_char 32 ?l of
       (binary, None) \<Rightarrow> \<lparr>entry_binary = binary, entry_subtests = []\<rparr>
     | (binary, Some sublist) \<Rightarrow> \<lparr>entry_binary = binary, entry_subtests = split_all 44 sublist\<rparr>)"
    by (simp only: read_entry_def c Let_def last_snoc butlast_snoc snoc_eq_iff_butlast if_True simp_thms
        append_is_Nil_conv list.distinct)
  then show "read_entry (?l @ [10]) = e" using s sp by (cases e) auto
qed

lemma read_joblist_text: "\<forall>e\<in>set jl. entry_ok e \<Longrightarrow> map read_entry (file_lines (concat (map entry_text jl))) = jl"
proof (induction jl)
  case (Cons e jl)
  obtain l where l: "entry_text e = l @ [10]" "10 \<notin> set l" "read_entry (l @ [10]) = e"
    using entry_text_line [of e] Cons(2) by auto
  show ?case using Cons file_lines_cons [OF l(2)] l(1,3) by simp
qed simp

subsection \<open>Single and multiple mode\<close>

definition tests_of :: "job_list \<Rightarrow> (bytes \<times> bytes option) list" where
  "tests_of jl = concat (map (\<lambda>e. if entry_subtests e = [] then [(entry_binary e, None)]
     else map (\<lambda>s. (entry_binary e, Some s)) (entry_subtests e)) jl)"

lemma tests_of_simps [simp]:
  "tests_of [] = []"
  "tests_of (jl @ jl') = tests_of jl @ tests_of jl'"
  "tests_of (add_job_list_entry jl b []) = tests_of jl @ [(b, None)]"
  "ss \<noteq> [] \<Longrightarrow> tests_of (add_job_list_entry jl b ss) = tests_of jl @ map (\<lambda>s. (b, Some s)) ss"
  by (simp_all add: tests_of_def add_job_list_entry_def)

lemma tests_of_one: "tests_of [e] = (if entry_subtests e = [] then [(entry_binary e, None)]
    else map (\<lambda>s. (entry_binary e, Some s)) (entry_subtests e))"
  by (simp add: tests_of_def)

lemma list_all_tests_of: "list_all_tests jl = map (\<lambda>(b, s). generate_piglit_name b s 256) (tests_of jl)"
  by (induction jl) (auto simp: list_all_tests_def tests_of_def)

definition wanted :: "bytes \<Rightarrow> regex_list option \<Rightarrow> regex_list option \<Rightarrow> bytes option \<Rightarrow> bool" where
  "wanted binary incl excl subtest =
    (let name = generate_piglit_name binary subtest 256 in \<not> excluded name excl \<and> \<not> not_included name incl)"

lemma subtest_fold:
  "fold (subtest_step settings b incl excl) ns (jl, ss) =
    (let want = filter (\<lambda>n. wanted b incl excl (Some n)) ns in
     if multiple_mode settings then (jl, ss @ want)
     else (jl @ map (\<lambda>n. \<lparr>entry_binary = b, entry_subtests = [n]\<rparr>) want, ss))"
  by (induction ns arbitrary: jl ss) (auto simp: subtest_step_def wanted_def add_job_list_entry_def Let_def)

lemma tests_of_singles: "tests_of (map (\<lambda>n. \<lparr>entry_binary = b, entry_subtests = [n]\<rparr>) ns) = map (\<lambda>n. (b, Some n)) ns"
  by (induction ns) (simp_all add: tests_of_def)

text \<open>The tests that asking a binary adds: none of it depends on the mode.\<close>

definition listed_tests :: "popen_env \<Rightarrow> settings \<Rightarrow> bytes \<Rightarrow> regex_list option \<Rightarrow> regex_list option \<Rightarrow>
    (bytes \<times> bytes option) list option" where
  "listed_tests popen settings b incl excl =
    (if 256 \<le> length (list_command settings b) then Some []
     else case popen (list_command settings b) of
       Popen_Failed \<Rightarrow> Some []
     | Listing out status \<Rightarrow>
        (let ts = map (\<lambda>n. (b, Some n)) (filter (\<lambda>n. wanted b incl excl (Some n)) (map cstring (scan_words out))) in
         if status = Killed then None
         else Some (ts @ (if status = Exited IGT_EXIT_INVALID \<and> wanted b incl excl None then [(b, None)] else []))))"

lemma add_subtests_tests:
  "map_option tests_of (add_subtests popen jl settings b incl excl) =
    map_option ((@) (tests_of jl)) (listed_tests popen settings b incl excl)"
  by (auto simp: add_subtests_def listed_tests_def subtest_fold tests_of_singles Let_def wanted_def
      split: popen_result.splits pclose_status.splits)

lemma listed_tests_mode [simp]: "listed_tests popen (settings\<lparr>multiple_mode := m\<rparr>) b incl excl = listed_tests popen settings b incl excl"
  by (simp add: listed_tests_def list_command_def)

lemma add_subtests_None: "add_subtests popen jl settings b incl excl = None \<longleftrightarrow> listed_tests popen settings b incl excl = None"
  using arg_cong [OF add_subtests_tests, of "\<lambda>x. x = None" popen jl settings b incl excl] by simp

lemma add_subtests_Some:
  "add_subtests popen jl settings b incl excl = Some jl' \<Longrightarrow>
    \<exists>ts. listed_tests popen settings b incl excl = Some ts \<and> tests_of jl' = tests_of jl @ ts"
  using add_subtests_tests [of popen jl settings b incl excl, symmetric] by auto

text \<open>The state of reading a test list, up to the grouping.\<close>

definition same_tests :: "job_list \<times> job_list_entry option \<times> bool \<Rightarrow> job_list \<times> job_list_entry option \<times> bool \<Rightarrow> bool" where
  "same_tests st st' \<longleftrightarrow> (case (st, st') of ((jl, entry, any), (jl', entry', any')) \<Rightarrow>
     (\<forall>e. entry = Some e \<longrightarrow> entry_subtests e \<noteq> []) \<and> entry' = None \<and>
     tests_of jl' = tests_of jl @ (case entry of None \<Rightarrow> [] | Some e \<Rightarrow> tests_of [e]) \<and>
     (any' \<longleftrightarrow> any \<or> entry \<noteq> None))"

lemma add_subtests_same:
  assumes "tests_of jl = tests_of jl'"
  shows "rel_option (\<lambda>a b. tests_of a = tests_of b)
    (add_subtests popen jl (settings\<lparr>multiple_mode := True\<rparr>) b incl excl)
    (add_subtests popen jl' (settings\<lparr>multiple_mode := False\<rparr>) b incl excl)"
proof (cases "listed_tests popen settings b incl excl")
  case None
  then show ?thesis by (simp add: add_subtests_None [THEN iffD2])
next
  case (Some ts)
  then obtain a c where ac: "add_subtests popen jl (settings\<lparr>multiple_mode := True\<rparr>) b incl excl = Some a"
      "add_subtests popen jl' (settings\<lparr>multiple_mode := False\<rparr>) b incl excl = Some c"
    by (metis add_subtests_None listed_tests_mode not_None_eq option.distinct(1))
  have "tests_of a = tests_of jl @ ts" using add_subtests_Some [OF ac(1)] Some by simp
  moreover have "tests_of c = tests_of jl' @ ts" using add_subtests_Some [OF ac(2)] Some by simp
  ultimately show ?thesis using ac assms by simp
qed

lemma test_list_step_word:
  assumes "\<not> (exclude_regexes settings \<noteq> [] \<and> matches_any (takeWhile (\<lambda>b. b \<noteq> 35) (cstring l)) (exclude_regexes settings))"
    "\<not> (include_regexes settings \<noteq> [] \<and> \<not> matches_any (takeWhile (\<lambda>b. b \<noteq> 35) (cstring l)) (include_regexes settings))"
    "scan_igt (takeWhile (\<lambda>b. b \<noteq> 35) (cstring l)) = Some word"
  shows "test_list_step popen settings l (jl, entry, any) =
    (let flush = (case entry of Some e \<Rightarrow> jl @ [e] | None \<Rightarrow> jl) in
     case split_at_char 64 word of
       (binary, None) \<Rightarrow> do {
         jl1 \<leftarrow> add_subtests popen flush settings binary (Some (include_regexes settings)) (Some (exclude_regexes settings));
         Some (jl1, None, True) }
     | (binary, Some delim) \<Rightarrow>
         if \<not> multiple_mode settings then Some (add_job_list_entry jl binary [delim], entry, True)
         else if (case entry of Some e \<Rightarrow> entry_binary e = binary | None \<Rightarrow> False) \<and> 64 \<notin> set delim then
           Some (jl, map_option (\<lambda>e. e\<lparr>entry_subtests := entry_subtests e @ [delim]\<rparr>) entry, any)
         else if 64 \<in> set delim then Some (add_job_list_entry flush binary [delim], None, True)
         else Some (flush, Some \<lparr>entry_binary = binary, entry_subtests = [delim]\<rparr>, any \<or> entry \<noteq> None))"
  unfolding test_list_step_def Let_def prod.case using assms by (simp only: if_False option.case)

lemma test_list_step_same:
  assumes "same_tests st st'"
  shows "rel_option same_tests (test_list_step popen (settings\<lparr>multiple_mode := True\<rparr>) l st)
    (test_list_step popen (settings\<lparr>multiple_mode := False\<rparr>) l st')"
proof -
  obtain jl entry any where st: "st = (jl, entry, any)" by (cases st)
  obtain jl' entry' any' where st': "st' = (jl', entry', any')" by (cases st')
  let ?line = "takeWhile (\<lambda>b. b \<noteq> 35) (cstring l)"
  let ?flush = "case entry of Some e \<Rightarrow> jl @ [e] | None \<Rightarrow> jl"
  note same = assms [unfolded st st' same_tests_def prod.case]
  have fl: "tests_of ?flush = tests_of jl'" using same by (auto split: option.splits)
  let ?ex = "exclude_regexes settings \<noteq> [] \<and> matches_any ?line (exclude_regexes settings)"
  let ?inc = "include_regexes settings \<noteq> [] \<and> \<not> matches_any ?line (include_regexes settings)"
  show ?thesis
  proof (cases "?ex \<or> ?inc \<or> scan_igt ?line = None")
    case True
    then show ?thesis using assms by (auto simp: test_list_step_def st st' Let_def)
  next
    case False
    then obtain word where word: "scan_igt ?line = Some word" by auto
    obtain binary delim where d: "split_at_char 64 word = (binary, delim)" by fastforce
    have step: "test_list_step popen (settings\<lparr>multiple_mode := m\<rparr>) l (jl, entry, any) =
      (let flush = (case entry of Some e \<Rightarrow> jl @ [e] | None \<Rightarrow> jl) in
       case delim of
         None \<Rightarrow> do {
           jl1 \<leftarrow> add_subtests popen flush (settings\<lparr>multiple_mode := m\<rparr>) binary (Some (include_regexes settings))
             (Some (exclude_regexes settings));
           Some (jl1, None, True) }
       | Some delim \<Rightarrow>
           if \<not> m then Some (add_job_list_entry jl binary [delim], entry, True)
           else if (case entry of Some e \<Rightarrow> entry_binary e = binary | None \<Rightarrow> False) \<and> 64 \<notin> set delim then
             Some (jl, map_option (\<lambda>e. e\<lparr>entry_subtests := entry_subtests e @ [delim]\<rparr>) entry, any)
           else if 64 \<in> set delim then Some (add_job_list_entry flush binary [delim], None, True)
           else Some (flush, Some \<lparr>entry_binary = binary, entry_subtests = [delim]\<rparr>, any \<or> entry \<noteq> None))" for m jl entry any
      by (subst test_list_step_word [where word = word]) (use False word d in simp_all)
    show ?thesis
    proof (cases delim)
      case None
      show ?thesis unfolding st st' step None Let_def option.case
        using add_subtests_same [OF fl, of popen settings binary "Some (include_regexes settings)" "Some (exclude_regexes settings)"] same
        by (auto elim!: option.rel_cases simp: same_tests_def)
    next
      case (Some dl)
      show ?thesis unfolding st st' step Some Let_def option.case
        using same fl by (auto simp: same_tests_def tests_of_one split: option.splits)
    qed
  qed
qed

lemma fold_option_rel:
  assumes "\<And>x s t. R s t \<Longrightarrow> rel_option R (f x s) (g x t)"
  shows "R s t \<Longrightarrow> rel_option R (fold_option f xs s) (fold_option g xs t)"
proof (induction xs arbitrary: s t)
  case (Cons x xs)
  show ?case using assms [OF Cons(2), of x] Cons(1) by (auto elim!: option.rel_cases)
qed simp

subsection \<open>The tests a list selects\<close>

definition line_tests :: "popen_env \<Rightarrow> settings \<Rightarrow> bytes \<Rightarrow> (bytes \<times> bytes option) list option" where
  "line_tests popen settings l =
    (let line = takeWhile (\<lambda>b. b \<noteq> 35) (cstring l) in
     if exclude_regexes settings \<noteq> [] \<and> matches_any line (exclude_regexes settings) then Some []
     else if include_regexes settings \<noteq> [] \<and> \<not> matches_any line (include_regexes settings) then Some []
     else case scan_igt line of
       None \<Rightarrow> Some []
     | Some word \<Rightarrow> (case split_at_char 64 word of
         (binary, None) \<Rightarrow> listed_tests popen settings binary (Some (include_regexes settings)) (Some (exclude_regexes settings))
       | (binary, Some subtest) \<Rightarrow> Some [(binary, Some subtest)]))"

lemma single_step_tests:
  assumes "\<not> multiple_mode settings"
  shows "map_option (\<lambda>(jl, entry, any). (tests_of jl, entry)) (test_list_step popen settings l (jl, None, any)) =
    map_option (\<lambda>ts. (tests_of jl @ ts, None)) (line_tests popen settings l)"
proof -
  let ?line = "takeWhile (\<lambda>b. b \<noteq> 35) (cstring l)"
  let ?ex = "exclude_regexes settings \<noteq> [] \<and> matches_any ?line (exclude_regexes settings)"
  let ?inc = "include_regexes settings \<noteq> [] \<and> \<not> matches_any ?line (include_regexes settings)"
  show ?thesis
  proof (cases "?ex \<or> ?inc \<or> scan_igt ?line = None")
    case True
    then show ?thesis by (auto simp: test_list_step_def line_tests_def Let_def)
  next
    case False
    then obtain word where word: "scan_igt ?line = Some word" by auto
    obtain binary delim where d: "split_at_char 64 word = (binary, delim)" by fastforce
    have F: "\<not> ?ex" "\<not> ?inc" using False by blast+
    have lt: "line_tests popen settings l = (case delim of
        None \<Rightarrow> listed_tests popen settings binary (Some (include_regexes settings)) (Some (exclude_regexes settings))
      | Some subtest \<Rightarrow> Some [(binary, Some subtest)])"
      unfolding line_tests_def Let_def using F by (simp only: word d if_False option.case prod.case)
    have ts: "test_list_step popen settings l (jl, None, any) = (case delim of
        None \<Rightarrow> map_option (\<lambda>jl1. (jl1, None, True)) (add_subtests popen jl settings binary (Some (include_regexes settings)) (Some (exclude_regexes settings)))
      | Some delim \<Rightarrow> Some (add_job_list_entry jl binary [delim], None, True))"
      by (subst test_list_step_word [where word = word]) (use False word d assms in \<open>auto split: option.splits bind_splits\<close>)
    show ?thesis
      using add_subtests_tests [of popen jl settings binary "Some (include_regexes settings)" "Some (exclude_regexes settings)"]
      by (cases delim) (auto simp: lt ts option.map_comp comp_def map_option_case split: option.splits)
  qed
qed

lemma single_fold_tests:
  assumes "\<not> multiple_mode settings"
  shows "map_option (\<lambda>(jl, entry, any). (tests_of jl, entry)) (fold_option (test_list_step popen settings) ls (jl, None, any)) =
    map_option (\<lambda>tss. (tests_of jl @ concat tss, None)) (those (map (line_tests popen settings) ls))"
proof (induction ls arbitrary: jl any)
  case (Cons l ls)
  show ?case
  proof (cases "line_tests popen settings l")
    case None
    then have "test_list_step popen settings l (jl, None, any) = None"
      using single_step_tests [OF assms, of popen l jl any] by simp
    then show ?thesis using None by simp
  next
    case (Some ts)
    then obtain jl1 any1 where 1: "test_list_step popen settings l (jl, None, any) = Some (jl1, None, any1)" "tests_of jl1 = tests_of jl @ ts"
      using single_step_tests [OF assms, of popen l jl any] by auto
    then show ?thesis using Some Cons [of jl1 any1] by (simp add: option.map_comp comp_def)
  qed
qed simp

definition full_tests :: "(bytes \<Rightarrow> bytes list) \<Rightarrow> job_list \<Rightarrow> (bytes \<times> bytes option) list" where
  "full_tests listing jl = concat (map (\<lambda>(b, s). if s = None \<and> listing b \<noteq> [] then map (\<lambda>n. (b, Some n)) (listing b) else [(b, s)])
    (tests_of jl))"

lemma tests_of_empty: "tests_of jl = [] \<longleftrightarrow> jl = []"
  by (cases jl) (auto simp: tests_of_def)

lemma full_tests_append [simp]: "full_tests listing (jl @ jl') = full_tests listing jl @ full_tests listing jl'"
  by (simp add: full_tests_def)

definition answers :: "popen_env \<Rightarrow> settings \<Rightarrow> (bytes \<Rightarrow> bytes list) \<Rightarrow> bytes \<Rightarrow> bool" where
  "answers popen settings listing b \<longleftrightarrow> length (list_command settings b) < 256 \<and>
    (case popen (list_command settings b) of Popen_Failed \<Rightarrow> False
     | Listing out status \<Rightarrow> map cstring (scan_words out) = listing b \<and>
        status = (if listing b = [] then Exited IGT_EXIT_INVALID else Exited 0))"

lemma answers_listed:
  assumes "answers popen settings listing b"
  shows "listed_tests popen settings b None (Some []) =
    Some (if listing b = [] then [(b, None)] else map (\<lambda>n. (b, Some n)) (listing b))"
  using assms by (auto simp: answers_def listed_tests_def wanted_def excluded_def not_included_def IGT_EXIT_INVALID_def
      simp del: map_map split: popen_result.splits)

lemma full_of_listed:
  assumes "tests_of jl' = tests_of jl @ (if listing b = [] then [(b, None)] else map (\<lambda>n. (b, Some n)) (listing b))"
  shows "full_tests listing jl' = full_tests listing jl @ full_tests listing [\<lparr>entry_binary = b, entry_subtests = []\<rparr>]"
proof -
  have "concat (map (\<lambda>(b, s). if s = None \<and> listing b \<noteq> [] then map (\<lambda>n. (b, Some n)) (listing b) else [(b, s)])
      (map (\<lambda>n. (b, Some n)) ns)) = map (\<lambda>n. (b, Some n)) ns" for ns :: "bytes list" by (induction ns) simp_all
  note N = this [of "listing b"]
  show ?thesis
  proof (cases "listing b = []")
    case False
    then show ?thesis using N by (simp add: full_tests_def assms tests_of_one)
  qed (simp add: full_tests_def assms tests_of_one)
qed

definition same_full :: "(bytes \<Rightarrow> bytes list) \<Rightarrow> job_list \<Rightarrow> job_list \<Rightarrow> bool" where
  "same_full listing jl jl' \<longleftrightarrow> full_tests listing jl = full_tests listing jl' \<and> (jl = [] \<longleftrightarrow> jl' = [])"

lemma add_subtests_full:
  assumes "same_full listing jl jl'"
  shows "rel_option (same_full listing) (add_subtests popen jl (settings\<lparr>multiple_mode := True\<rparr>) b incl excl)
    (add_subtests popen jl' (settings\<lparr>multiple_mode := False\<rparr>) b incl excl)"
proof (cases "listed_tests popen settings b incl excl")
  case None
  then show ?thesis by (simp add: add_subtests_None [THEN iffD2])
next
  case (Some ts)
  then obtain a c where ac: "add_subtests popen jl (settings\<lparr>multiple_mode := True\<rparr>) b incl excl = Some a"
      "add_subtests popen jl' (settings\<lparr>multiple_mode := False\<rparr>) b incl excl = Some c"
    by (metis add_subtests_None listed_tests_mode not_None_eq option.distinct(1))
  have "tests_of a = tests_of jl @ ts" "tests_of c = tests_of jl' @ ts"
    using add_subtests_Some [OF ac(1)] add_subtests_Some [OF ac(2)] Some by simp_all
  then have "same_full listing a c" using assms tests_of_empty [of a] tests_of_empty [of c] tests_of_empty [of jl] tests_of_empty [of jl']
    by (auto simp: same_full_def full_tests_def)
  then show ?thesis using ac by simp
qed

lemma filtered_step_full:
  assumes "same_full listing jl jl'" "answers popen settings listing buf"
  shows "rel_option (same_full listing) (filtered_step popen (settings\<lparr>multiple_mode := True\<rparr>) buf jl)
    (filtered_step popen (settings\<lparr>multiple_mode := False\<rparr>) buf jl')"
proof -
  have opt: "rel_option (same_full listing) (Some (add_job_list_entry jl buf []))
      (add_subtests popen jl' (settings\<lparr>multiple_mode := False\<rparr>) buf None (Some []))"
  proof -
    have l: "listed_tests popen (settings\<lparr>multiple_mode := False\<rparr>) buf None (Some []) =
        Some (if listing buf = [] then [(buf, None)] else map (\<lambda>n. (buf, Some n)) (listing buf))"
      using answers_listed [OF assms(2)] by simp
    then obtain c where c: "add_subtests popen jl' (settings\<lparr>multiple_mode := False\<rparr>) buf None (Some []) = Some c"
      by (metis add_subtests_None not_None_eq option.distinct(1))
    have t: "tests_of c = tests_of jl' @ (if listing buf = [] then [(buf, None)] else map (\<lambda>n. (buf, Some n)) (listing buf))"
      using add_subtests_Some [OF c] l by simp
    have "c \<noteq> []" using t tests_of_empty [of c] by (auto split: if_splits)
    then show ?thesis using full_of_listed [where listing = listing, OF t] assms(1) c
      by (simp add: same_full_def add_job_list_entry_def)
  qed
  show ?thesis using opt assms(1) add_subtests_full [OF assms(1)] by (auto simp: filtered_step_def)
qed

lemma filtered_fold_full:
  "\<forall>b\<in>set ws. answers popen settings listing b \<Longrightarrow> same_full listing jl jl' \<Longrightarrow>
    rel_option (same_full listing) (fold_option (filtered_step popen (settings\<lparr>multiple_mode := True\<rparr>)) ws jl)
      (fold_option (filtered_step popen (settings\<lparr>multiple_mode := False\<rparr>)) ws jl')"
proof (induction ws arbitrary: jl jl')
  case (Cons w ws)
  have "rel_option (same_full listing) (filtered_step popen (settings\<lparr>multiple_mode := True\<rparr>) w jl)
      (filtered_step popen (settings\<lparr>multiple_mode := False\<rparr>) w jl')"
    by (rule filtered_step_full) (use Cons in auto)
  then show ?case using Cons(1,2) by (auto elim!: option.rel_cases)
qed simp

subsection \<open>Properties\<close>

text \<open>C27: The job list survives the file: what is serialized is read back entry by entry, from every list
  whose binaries hold no space and whose subtests hold no comma (and neither a newline). A job list file
  that exists stays as it is unless overwriting is asked for.\<close>

theorem joblist_roundtrip:
  assumes "\<forall>e\<in>set jl. entry_ok e" "results_path settings \<noteq> None" "dir_opens dir" "create_works dir" "unlink_works dir"
  shows "(if joblist_file dir = None \<or> overwrite settings then
      \<exists>dir'. serialize_job_list jl settings dir = (True, dir') \<and> read_job_list old dir' = (jl, True)
    else serialize_job_list jl settings dir = (False, dir))"
  using assms read_joblist_text [OF assms(1)]
  by (cases "joblist_file dir") (auto simp: serialize_job_list_def read_job_list_def Let_def)

theorem joblist_roundtrip_witness:
  "let jl = [\<lparr>entry_binary = [65], entry_subtests = [[98], [99, 32, 100]]\<rparr>, \<lparr>entry_binary = [66], entry_subtests = []\<rparr>];
       dir = \<lparr>dir_opens = True, joblist_file = None, unlink_works = True, create_works = True\<rparr>;
       s = \<lparr>test_root = None, results_path = Some [], include_regexes = [], exclude_regexes = [], overwrite = False,
         multiple_mode = False, prune_mode = PRUNE_KEEP_ALL, allow_non_root = True, overall_timeout = 0\<rparr> in
   \<exists>dir'. serialize_job_list jl s dir = (True, dir') \<and> read_job_list [] dir' = (jl, True)"
  using joblist_roundtrip [of "[\<lparr>entry_binary = [65], entry_subtests = [[98], [99, 32, 100]]\<rparr>, \<lparr>entry_binary = [66], entry_subtests = []\<rparr>]"
      "\<lparr>test_root = None, results_path = Some [], include_regexes = [], exclude_regexes = [], overwrite = False,
         multiple_mode = False, prune_mode = PRUNE_KEEP_ALL, allow_non_root = True, overall_timeout = 0\<rparr>"
      "\<lparr>dir_opens = True, joblist_file = None, unlink_works = True, create_works = True\<rparr>" "[]"]
  by (simp add: entry_ok_def)

text \<open>C28: A test list is the same list of tests in multiple mode, which groups the subtests of a binary
  into one job, as in single mode, which has a job for every subtest; it is the concatenation of what its
  lines select, in their order, and the names that are printed for it are the same.\<close>

theorem test_list_modes_agree:
  "rel_option (\<lambda>(jl1, ok1) (jl2, ok2). tests_of jl1 = tests_of jl2 \<and> ok1 = ok2 \<and> list_all_tests jl1 = list_all_tests jl2)
     (job_list_from_test_list popen [] (settings\<lparr>multiple_mode := True\<rparr>) lst)
     (job_list_from_test_list popen [] (settings\<lparr>multiple_mode := False\<rparr>) lst) \<and>
   map_option (\<lambda>(jl, ok). tests_of jl) (job_list_from_test_list popen [] (settings\<lparr>multiple_mode := False\<rparr>) (Some s)) =
     map_option concat (those (map (line_tests popen (settings\<lparr>multiple_mode := False\<rparr>)) (file_lines s)))"
proof
  show "map_option (\<lambda>(jl, ok). tests_of jl) (job_list_from_test_list popen [] (settings\<lparr>multiple_mode := False\<rparr>) (Some s)) =
     map_option concat (those (map (line_tests popen (settings\<lparr>multiple_mode := False\<rparr>)) (file_lines s)))"
    using single_fold_tests [of "settings\<lparr>multiple_mode := False\<rparr>" popen "file_lines s" "[]" False]
    by (auto simp: job_list_from_test_list_def map_option_case split: option.splits bind_splits)
  have start: "same_tests ([], None, False) ([], None, False)" by (simp add: same_tests_def)
  show "rel_option (\<lambda>(jl1, ok1) (jl2, ok2). tests_of jl1 = tests_of jl2 \<and> ok1 = ok2 \<and> list_all_tests jl1 = list_all_tests jl2)
     (job_list_from_test_list popen [] (settings\<lparr>multiple_mode := True\<rparr>) lst)
     (job_list_from_test_list popen [] (settings\<lparr>multiple_mode := False\<rparr>) lst)"
  proof (cases lst)
    case (Some s)
    have "rel_option same_tests
        (fold_option (test_list_step popen (settings\<lparr>multiple_mode := True\<rparr>)) (file_lines s) ([], None, False))
        (fold_option (test_list_step popen (settings\<lparr>multiple_mode := False\<rparr>)) (file_lines s) ([], None, False))"
      by (rule fold_option_rel [OF test_list_step_same start])
    then show ?thesis
      by (auto elim!: option.rel_cases simp: job_list_from_test_list_def Some same_tests_def list_all_tests_of split: option.splits)
  qed (simp add: job_list_from_test_list_def)
qed

text \<open>The default job list is the same in both modes when the binaries answer: multiple mode leaves
  out asking a binary for its subtests when all of them are wanted, and the job without subtests stands
  for all of them.\<close>

theorem filtered_modes_agree:
  assumes "\<forall>b\<in>set (filtered_words file). answers popen settings listing b"
  shows "rel_option (\<lambda>(jl1, ok1) (jl2, ok2). full_tests listing jl1 = full_tests listing jl2 \<and> ok1 = ok2)
    (filtered_job_list popen [] (settings\<lparr>multiple_mode := True\<rparr>) file)
    (filtered_job_list popen [] (settings\<lparr>multiple_mode := False\<rparr>) file)"
proof -
  have "same_full listing [] []" by (simp add: same_full_def)
  from filtered_fold_full [OF assms this] show ?thesis
    by (auto elim!: option.rel_cases simp: filtered_job_list_def same_full_def)
qed

theorem filtered_modes_agree_witness:
  "\<exists>jl1 jl2. full_tests (\<lambda>b. [[120]]) jl1 = full_tests (\<lambda>b. [[120]]) jl2 \<and> jl1 \<noteq> jl2 \<and>
    filtered_job_list (\<lambda>c. Listing [120, 10] (Exited 0)) [] \<lparr>test_root = Some [47], results_path = None, include_regexes = [],
      exclude_regexes = [], overwrite = False, multiple_mode = True, prune_mode = PRUNE_KEEP_ALL, allow_non_root = True, overall_timeout = 0\<rparr> [98, 10] = Some (jl1, True) \<and>
    filtered_job_list (\<lambda>c. Listing [120, 10] (Exited 0)) [] \<lparr>test_root = Some [47], results_path = None, include_regexes = [],
      exclude_regexes = [], overwrite = False, multiple_mode = False, prune_mode = PRUNE_KEEP_ALL, allow_non_root = True, overall_timeout = 0\<rparr> [98, 10] = Some (jl2, True)"
proof -
  let ?popen = "\<lambda>c. Listing [120, 10] (Exited 0)" and ?listing = "\<lambda>b. [[120 :: u8]] :: bytes list"
  let ?s = "\<lparr>test_root = Some [47], results_path = None, include_regexes = [], exclude_regexes = [], overwrite = False,
      multiple_mode = True, prune_mode = PRUNE_KEEP_ALL, allow_non_root = True, overall_timeout = 0\<rparr>"
  have w: "filtered_words [98, 10] = [[98]]" "map cstring (scan_words [120, 10]) = [[120]]"
    using scan_words_word [of "[98]" 10 "[]"] scan_words_word [of "[120]" 10 "[]"]
    by (simp_all add: c_isspace_def filtered_words_def chunks.simps cstring_def)
  have a: "\<forall>b\<in>set (filtered_words [98, 10]). answers ?popen ?s ?listing b"
    using w by (simp add: answers_def list_command_def str_def)
  have 1: "filtered_job_list ?popen [] ?s [98, 10] = Some ([\<lparr>entry_binary = [98], entry_subtests = []\<rparr>], True)"
    by (simp add: filtered_job_list_def w filtered_step_def str_def add_job_list_entry_def)
  have 2: "filtered_job_list ?popen [] (?s\<lparr>multiple_mode := False\<rparr>) [98, 10] =
      Some ([\<lparr>entry_binary = [98], entry_subtests = [[120]]\<rparr>], True)"
    by (simp add: filtered_job_list_def w filtered_step_def str_def add_job_list_entry_def add_subtests_def list_command_def
        subtest_step_def excluded_def not_included_def IGT_EXIT_INVALID_def)
  have "full_tests ?listing [\<lparr>entry_binary = [98], entry_subtests = []\<rparr>] = full_tests ?listing [\<lparr>entry_binary = [98], entry_subtests = [[120]]\<rparr>]"
    using filtered_modes_agree [OF a] by (simp add: 1 [simplified] 2 [simplified])
  then show ?thesis using 1 2 by auto
qed

end
