(* ===== verification/Executor.thy ===== *)
theory Executor
  imports Uwildmat Runnercomms Job_List
begin

text \<open>
  What the runner keeps of an execution and how it goes on after an interruption (\<^verbatim>\<open>runner/executor.c\<close>):
  the packets it relays into the dump, the output files opened again, and the job list pruned of the
  subtests that were started, from the dump or from the journal. \<open>scan_f\<close> is \<^verbatim>\<open>fscanf("%*f")\<close>: how many
  characters it takes, and whether they are a number. A test process selects its subtests with the
  pattern matcher (\<^verbatim>\<open>lib/igt_core.c\<close>). \<open>None\<close> is a fault or a failed assertion.
\<close>

subsection \<open>Relaying packets\<close>

text \<open>The part of the state of \<open>monitor_output\<close> that the socket changes; \<open>comms_dump\<close> is the file written.\<close>

record monitor =
  comms_dump :: bytes
  socket_comms_used :: bool
  results_received :: bool
  aborting :: bool
  abortreason :: "bytes option"
  abort_already_written :: bool

definition dump_packet :: "runnerpacket \<Rightarrow> monitor \<Rightarrow> monitor" where
  "dump_packet packet m = m\<lparr>comms_dump := comms_dump m @ write_packet_with_canary packet\<rparr>"

text \<open>\<open>need_to_abort\<close> is the result of \<open>need_to_abort_time_sensitive\<close>.\<close>

definition abort_before_subtest :: "u32 \<Rightarrow> u32 \<Rightarrow> bytes option \<Rightarrow> monitor \<Rightarrow> monitor option" where
  "abort_before_subtest pid tid need_to_abort m = (case need_to_abort of
       None \<Rightarrow> Some (m\<lparr>abortreason := None\<rparr>)
     | Some reason \<Rightarrow> do {
         message \<leftarrow> runnerpacket_log pid tid 1 (10 # str ''This test caused an abort condition: '');
         why \<leftarrow> runnerpacket_log pid tid 1 reason;
         result \<leftarrow> runnerpacket_resultoverride pid tid (str ''abort'');
         Some ((dump_packet result (dump_packet why (dump_packet message (m\<lparr>abortreason := Some reason\<rparr>))))
           \<lparr>aborting := True, abort_already_written := True\<rparr>) })"

text \<open>One datagram; the flag says whether to go on with the next.\<close>

definition relay_packet :: "u32 \<Rightarrow> u32 \<Rightarrow> bytes option \<Rightarrow> bytes \<Rightarrow> monitor \<Rightarrow> (monitor \<times> bool) option" where
  "relay_packet pid tid need_to_abort buf m =
    (let packet = packet_at buf 0 in
     if length buf < HEADER_SIZE \<or> length buf \<noteq> unat (pkt_size packet) then do {
       message \<leftarrow> runnerpacket_log pid tid 1 (10 # str ''runner: Socket communication error, invalid packet size. '' @
         str ''Packet is discarded, test result and logs might be incorrect.'' @ [10]);
       result \<leftarrow> runnerpacket_resultoverride pid tid (str ''warn'');
       Some (dump_packet result (dump_packet message m), False) }
     else do {
       let m1 = (if pkt_type packet \<noteq> PACKETTYPE_EXEC then m\<lparr>socket_comms_used := True\<rparr> else m);
       m2 \<leftarrow> (if (pkt_type packet = PACKETTYPE_SUBTEST_START \<or> pkt_type packet = PACKETTYPE_DYNAMIC_SUBTEST_START) \<and>
           results_received m1 \<and> \<not> aborting m1 then abort_before_subtest pid tid need_to_abort m1 else Some m1);
       let m3 = dump_packet packet m2;
       Some (if pkt_type packet = PACKETTYPE_SUBTEST_RESULT \<or> pkt_type packet = PACKETTYPE_DYNAMIC_SUBTEST_RESULT
         then m3\<lparr>results_received := True\<rparr> else m3, True) })"

text \<open>Draining the socket: the datagrams that are there, and the answer of \<open>need_to_abort\<close> for each.\<close>

fun drain_socket :: "u32 \<Rightarrow> u32 \<Rightarrow> (bytes \<times> bytes option) list \<Rightarrow> monitor \<Rightarrow> monitor option" where
  "drain_socket pid tid [] m = Some m"
| "drain_socket pid tid ((buf, need_to_abort) # rest) m = do {
     (m1, more) \<leftarrow> relay_packet pid tid need_to_abort buf m;
     if more then drain_socket pid tid rest m1 else Some m1 }"

subsection \<open>Opening the output files\<close>

text \<open>Opened for writing, a file that does not end its last line gets a newline; then writing appends.\<close>

definition open_at_end :: "bytes option \<Rightarrow> bytes" where
  "open_at_end f = (case f of
       None \<Rightarrow> []
     | Some c \<Rightarrow> if c \<noteq> [] \<and> List.last c \<noteq> 10 then c @ [10] else c)"

text \<open>The files of a test in the results directory, in the order of the enumeration of the code.\<close>

record test_dir =
  journal_file :: "bytes option"
  out_file :: "bytes option"
  err_file :: "bytes option"
  dmesg_file :: "bytes option"
  comms_file :: "bytes option"

definition open_output_files_write :: "test_dir \<Rightarrow> test_dir" where
  "open_output_files_write d = \<lparr>journal_file = Some (open_at_end (journal_file d)), out_file = Some (open_at_end (out_file d)),
    err_file = Some (open_at_end (err_file d)), dmesg_file = Some (open_at_end (dmesg_file d)),
    comms_file = Some (open_at_end (comms_file d))\<rparr>"

definition open_output_files_read :: "test_dir \<Rightarrow> bool" where
  "open_output_files_read d \<longleftrightarrow> journal_file d \<noteq> None \<and> out_file d \<noteq> None \<and> err_file d \<noteq> None \<and> dmesg_file d \<noteq> None"

subsection \<open>Pruning\<close>

definition EXECUTOR_EXIT :: bytes where "EXECUTOR_EXIT = str ''exit:''"
definition EXECUTOR_TIMEOUT :: bytes where "EXECUTOR_TIMEOUT = str ''timeout:''"

definition prune_subtest :: "job_list_entry \<Rightarrow> bytes \<Rightarrow> job_list_entry" where
  "prune_subtest entry subtest =
    (let entry1 = (if entry_subtests entry = [] then entry\<lparr>entry_subtests := [str ''*'']\<rparr> else entry);
         excl = str ''!'' @ subtest in
     entry1\<lparr>entry_subtests := entry_subtests entry1 @ [excl]\<rparr>)"

text \<open>\<open>entry->binary[0] = 0\<close>\<close>

definition mark_done :: "job_list_entry \<Rightarrow> job_list_entry" where
  "mark_done entry = entry\<lparr>entry_binary := []\<rparr>"

text \<open>\<open>fscanf(f, " (%*fs)")\<close>: each directive only when the one before it matched.\<close>

definition skip_time :: "(bytes \<Rightarrow> nat \<times> bool) \<Rightarrow> bytes \<Rightarrow> bytes" where
  "skip_time scan_f s = (case dropWhile c_isspace s of
       [] \<Rightarrow> []
     | c # s1 \<Rightarrow> if c \<noteq> 40 then c # s1 else
        (case scan_f s1 of (n, ok) \<Rightarrow>
          if \<not> ok then drop n s1 else
          (case drop n s1 of
             [] \<Rightarrow> []
           | c1 # s2 \<Rightarrow> if c1 \<noteq> 115 then c1 # s2 else
              (case s2 of [] \<Rightarrow> [] | c2 # s3 \<Rightarrow> if c2 \<noteq> 41 then c2 # s3 else s3))))"

lemma skip_time_length: "length (skip_time scan_f s) \<le> length s"
proof -
  have "length (dropWhile c_isspace s) \<le> length s" by (rule length_dropWhile_le)
  moreover have "length (skip_time scan_f s) \<le> length (dropWhile c_isspace s)"
  proof (cases "dropWhile c_isspace s")
    case (Cons c s1)
    obtain n ok where f: "scan_f s1 = (n, ok)" by fastforce
    have d: "Suc (length y) \<le> length s1" if "drop n s1 = x # y" for x y
      using arg_cong [OF that, of length] by simp
    show ?thesis by (auto simp: skip_time_def Cons f split: list.splits dest: d)
  next
    case Nil
    then have "skip_time scan_f s = []" by (simp only: skip_time_def list.case)
    then show ?thesis by simp
  qed
  ultimately show ?thesis by linarith
qed

text \<open>\<open>fscanf(f, "%ms", &subtest)\<close>: the next word and what is behind it.\<close>

definition next_word :: "bytes \<Rightarrow> (bytes \<times> bytes) option" where
  "next_word s = (let r = dropWhile c_isspace s in
     if r = [] then None else Some (takeWhile (\<lambda>b. \<not> c_isspace b) r, dropWhile (\<lambda>b. \<not> c_isspace b) r))"

lemma next_word_length:
  assumes "next_word s = Some (w, r)"
  shows "length r < length s"
proof -
  let ?s = "dropWhile c_isspace s"
  obtain x t where s: "?s = x # t" using assms by (cases ?s) (auto simp: next_word_def)
  then have "\<not> c_isspace x" by (metis dropWhile_eq_Cons_conv)
  then have "r = dropWhile (\<lambda>b. \<not> c_isspace b) t" using assms s by (simp add: next_word_def Let_def)
  then have "length r \<le> length t" by (simp add: length_dropWhile_le)
  moreover have "length ?s \<le> length s" by (rule length_dropWhile_le)
  ultimately show ?thesis using s by simp
qed

function journal_loop :: "(bytes \<Rightarrow> nat \<times> bool) \<Rightarrow> bytes \<Rightarrow> job_list_entry \<Rightarrow> nat \<Rightarrow> job_list_entry \<times> nat" where
  "journal_loop scan_f s entry pruned = (case next_word s of
       None \<Rightarrow> (entry, pruned)
     | Some (w, r) \<Rightarrow>
        (let subtest = cstring w in
         if take (length EXECUTOR_EXIT) subtest = EXECUTOR_EXIT then journal_loop scan_f (skip_time scan_f r) (mark_done entry) pruned
         else if take (length EXECUTOR_TIMEOUT) subtest = EXECUTOR_TIMEOUT then journal_loop scan_f (skip_time scan_f r) entry pruned
         else journal_loop scan_f r (prune_subtest entry subtest) (pruned + 1)))"
  by pat_completeness auto
termination
proof (relation "measure (\<lambda>(scan_f, s, entry, pruned). length s)", goal_cases)
  case (2 scan_f s entry pruned x w r subtest)
  then show ?case using next_word_length [of s w r] skip_time_length [of scan_f r] by simp
next
  case (3 scan_f s entry pruned x w r subtest)
  then show ?case using next_word_length [of s w r] skip_time_length [of scan_f r] by simp
next
  case (4 scan_f s entry pruned x w r subtest)
  then show ?case using next_word_length [of s w r] by simp
qed simp

declare journal_loop.simps [simp del]

definition prune_from_journal :: "(bytes \<Rightarrow> nat \<times> bool) \<Rightarrow> job_list_entry \<Rightarrow> bytes \<Rightarrow> job_list_entry \<times> bool" where
  "prune_from_journal scan_f entry file =
    (let old_count = length (entry_subtests entry);
         (entry1, pruned) = journal_loop scan_f file entry 0 in
     (if 0 < old_count \<and> old_count \<le> pruned then mark_done entry1 else entry1, 0 < pruned))"

record prune_comms_data =
  pc_entry :: job_list_entry
  pc_pruned :: nat
  pc_got_exit :: bool

definition prune_handle_subtest_start :: "prune_comms_data handler" where
  "prune_handle_subtest_start packet helper data = (case helper_fields helper of
       Subteststart_Fields (Some name) \<Rightarrow>
         Some (data\<lparr>pc_entry := prune_subtest (pc_entry data) (cstring_at (pkt_data packet) name),
           pc_pruned := pc_pruned data + 1\<rparr>, True)
     | _ \<Rightarrow> None)"

definition prune_handle_exit :: "prune_comms_data handler" where
  "prune_handle_exit packet helper data = Some (data\<lparr>pc_got_exit := True\<rparr>, True)"

definition prune_visitor :: "prune_comms_data comms_visitor" where
  "prune_visitor = \<lparr>visit_log = None, visit_exec = None, visit_exit = Some prune_handle_exit,
    visit_subtest_start = Some prune_handle_subtest_start, visit_subtest_result = None,
    visit_dynamic_subtest_start = None, visit_dynamic_subtest_result = None, visit_versionstring = None,
    visit_result_override = None\<rparr>"

definition prune_from_comms :: "job_list_entry \<Rightarrow> bytes \<Rightarrow> (job_list_entry \<times> bool) option" where
  "prune_from_comms entry file = do {
     (ret, data) \<leftarrow> comms_read_dump (Dump file) prune_visitor \<lparr>pc_entry = entry, pc_pruned = 0, pc_got_exit = False\<rparr>;
     if ret = COMMSPARSE_ERROR then Some (pc_entry data, False)
     else do {
       let old_count = length (entry_subtests entry);
       let e1 = (if 0 < old_count \<and> old_count \<le> pc_pruned data then mark_done (pc_entry data) else pc_entry data);
       let e2 = (if pc_got_exit data then mark_done e1 else e1);
       Some (e2, 0 < pc_pruned data) } }"

subsection \<open>Resuming\<close>

record execute_state =
  state_next :: nat
  time_left :: int
  dry :: bool

text \<open>The results directory: its settings and job list, and the directory of every test that was started.\<close>

record run_dir =
  run_settings :: "settings option"
  run_joblist :: results_dir
  run_tests :: "nat \<Rightarrow> test_dir option"

definition init_time_left :: "settings \<Rightarrow> execute_state \<Rightarrow> execute_state" where
  "init_time_left settings state =
    (if overall_timeout settings \<le> 0 then state\<lparr>time_left := -1\<rparr> else state\<lparr>time_left := overall_timeout settings\<rparr>)"

text \<open>One of the two files: the entry and the \<open>next\<close> of the state.\<close>

definition after_prune :: "nat \<Rightarrow> job_list_entry \<times> bool \<Rightarrow> nat \<Rightarrow> nat" where
  "after_prune i r n = (if \<not> snd r then i + 1 else if entry_binary (fst r) = [] then i + 1 else n)"

definition initialize_execute_state_from_resume ::
    "(bytes \<Rightarrow> nat \<times> bool) \<Rightarrow> nat \<Rightarrow> run_dir \<Rightarrow> (bool \<times> execute_state \<times> settings option \<times> job_list) option" where
  "initialize_execute_state_from_resume scan_f uid dir =
    (let state = \<lparr>state_next = 0, time_left = 0, dry = False\<rparr> in
     case run_settings dir of
       None \<Rightarrow> Some (False, state, None, [])
     | Some settings \<Rightarrow>
        (case read_job_list [] (run_joblist dir) of (lst, ok) \<Rightarrow>
         if \<not> ok then Some (False, state, Some settings, lst)
         else if \<not> allow_non_root settings \<and> uid \<noteq> 0 then Some (False, state, Some settings, lst)
         else (let state = init_time_left settings state in
           case List.find (\<lambda>i. run_tests dir i \<noteq> None) (rev [0..<length lst + 1]) of
             None \<Rightarrow> Some (True, state, Some settings, lst)
           | Some i \<Rightarrow>
              (let d = the (run_tests dir i) in
               if i = length lst then
                 (if comms_file d = None \<and> journal_file d = None then Some (True, state\<lparr>state_next := i\<rparr>, Some settings, lst) else None)
               else do {
                 (entry1, next1) \<leftarrow> (case comms_file d of
                     None \<Rightarrow> Some (lst ! i, i)
                   | Some f \<Rightarrow> do { r \<leftarrow> prune_from_comms (lst ! i) f; Some (fst r, after_prune i r i) });
                 let (entry2, next2) = (case journal_file d of
                     None \<Rightarrow> (entry1, next1)
                   | Some f \<Rightarrow> (let r = prune_from_journal scan_f entry1 f in (fst r, after_prune i r next1)));
                 Some (True, state\<lparr>state_next := next2\<rparr>, Some settings, lst[i := entry2]) }))))"

subsection \<open>Executing\<close>

text \<open>The arguments of the test process.\<close>

definition execute_test_process_argv :: "settings \<Rightarrow> job_list_entry \<Rightarrow> bytes list option" where
  "execute_test_process_argv settings entry =
    (let argv0 = (case test_root settings of None \<Rightarrow> [] | Some r \<Rightarrow> r) @ str ''/'' @ entry_binary entry in
     case entry_subtests entry of
       [] \<Rightarrow> Some [argv0]
     | s # ss \<Rightarrow>
        (case split_at_char 64 s of
           (a, None) \<Rightarrow> Some [argv0, str ''--run-subtest'', foldl (\<lambda>arg sub. arg @ str '','' @ sub) a ss]
         | (a, Some dyn) \<Rightarrow>
            if ss \<noteq> [] then None
            else Some [argv0, str ''--run-subtest'', a, str ''--dynamic-subtest'', dyn]))"

text \<open>The test process: the option sets the pattern, and a subtest is entered when it matches.\<close>

definition run_subtest_option :: "bytes list \<Rightarrow> bytes option" where
  "run_subtest_option argv = (case argv of _ # opt # arg # _ \<Rightarrow> if opt = str ''--run-subtest'' then Some arg else None | _ \<Rightarrow> None)"

definition valid_name_for_subtest :: "bytes \<Rightarrow> bool" where
  "valid_name_for_subtest subtest_name \<longleftrightarrow>
    list_all (\<lambda>c. c = 95 \<or> c = 45 \<or> (48 \<le> c \<and> c \<le> 57) \<or> (65 \<le> c \<and> c \<le> 90) \<or> (97 \<le> c \<and> c \<le> 122)) (cstring subtest_name)"

text \<open>\<open>None\<close>: the name is not valid and the process exits.\<close>

definition igt_run_subtest :: "bytes option \<Rightarrow> bytes \<Rightarrow> bool option" where
  "igt_run_subtest run_single_subtest subtest_name =
    (if \<not> valid_name_for_subtest subtest_name then None
     else case run_single_subtest of
       None \<Rightarrow> Some True
     | Some p \<Rightarrow> Some (uwildmat subtest_name p))"

definition entry_display_name :: "job_list_entry \<Rightarrow> bytes" where
  "entry_display_name entry = entry_binary entry @
    (if entry_subtests entry = [] then [] else str '' ('' @ join_with (str '', '') (entry_subtests entry) @ str '')'')"

end
