(* ===== verification/Resume.thy ===== *)
theory Resume
  imports Executor
begin

text \<open>
  What an interrupted execution is resumed with: the pattern a pruned job makes selects the subtests that
  were not started, and how the files of a run take part in that. The specification of the pattern are
  the items of the list: the star, a name, or an excluded name; the last one that matches decides.
\<close>

subsection \<open>Patterns that are lists of names\<close>

text \<open>An item of the subtest argument: the star, a name, or an exclamation mark and a name.\<close>

definition name_ok :: "bytes \<Rightarrow> bool" where
  "name_ok n \<longleftrightarrow> n \<noteq> [] \<and> (\<forall>c\<in>set n. ordinary c) \<and> plain n"

definition item_ok :: "bytes \<Rightarrow> bool" where
  "item_ok it \<longleftrightarrow> it = [42] \<or> name_ok it \<or> (\<exists>n. it = 33 # n \<and> name_ok n)"

definition item_matches :: "bytes \<Rightarrow> bytes \<Rightarrow> bool" where
  "item_matches t it \<longleftrightarrow> it = [42] \<or> t = (if hd it = 33 then tl it else it)"

lemma name_first: "name_ok n \<Longrightarrow> \<exists>c r. n = c # r \<and> c \<noteq> 33 \<and> c \<noteq> 42"
  by (cases n) (auto simp: name_ok_def ordinary_def)

lemma find_comma_skip:
  assumes "a \<le> b" "b \<le> e" "\<forall>i. a \<le> i \<and> i < b \<longrightarrow> pat_at pat i \<notin> {44, 91, 92}"
  shows "find_comma pat False a e = find_comma pat False b e"
  using assms(1,3)
proof (induction "b - a" arbitrary: a)
  case (Suc n)
  then have a: "a < b" "pat_at pat a \<notin> {44, 91, 92}" by auto
  have "find_comma pat False a e = find_comma pat False (a + 1) e"
    using a assms(2) by (subst find_comma.simps) (simp add: after_class_def Let_def)
  then show ?case using Suc(1) [of "a + 1"] Suc(2,3,4) a by simp
qed simp

lemma find_comma_stop:
  "e \<le> b \<Longrightarrow> find_comma pat False b e = b" "pat_at pat b = 44 \<Longrightarrow> find_comma pat False b e = b"
  by (subst find_comma.simps, simp add: after_class_def)+

lemma tokens_skip:
  assumes "b \<le> e" "a \<le> b" "\<forall>i. a \<le> i \<and> i < b \<longrightarrow> pat_at pat i \<notin> {42, 63, 91, 92}"
  shows "tokens pat a e = map Lit (map (pat_at pat) [a..<b]) @ tokens pat b e"
  using assms(2,3)
proof (induction "b - a" arbitrary: a)
  case (Suc n)
  then have a: "a < b" "pat_at pat a \<notin> {42, 63, 91, 92}" by auto
  have "tokens pat a e = Lit (pat_at pat a) # tokens pat (a + 1) e"
    using a assms(1) by (subst tokens.simps) simp
  then show ?case using Suc(1) [of "a + 1"] Suc(2,3,4) a by (simp add: upt_conv_Cons)
qed simp

lemma pat_at_mid: "i < length it \<Longrightarrow> pat_at (pre @ it @ rest) (length pre + i) = it ! i"
  using pat_at_app(2) [of pre "it @ rest" i] pat_at_app(1) [of i it rest] by simp

lemma pat_at_behind: "pat_at (pre @ it @ rest) (length pre + length it) = pat_at rest 0"
  using pat_at_app(2) [of "pre @ it" rest 0] by simp

text \<open>One name, ended by a comma or by the pattern.\<close>

lemma name_part:
  fixes n pre rest :: bytes
  assumes "\<forall>c\<in>set n. ordinary c" "rest = [] \<or> hd rest = 44"
  defines "pat \<equiv> pre @ n @ rest"
  shows "find_comma pat False (length pre) (length pat) = length pre + length n"
    "tokens pat (length pre) (length pre + length n) = map Lit n"
proof -
  let ?a = "length pre" and ?b = "length pre + length n"
  have at: "pat_at pat i = n ! (i - ?a)" if "?a \<le> i" "i < ?b" for i
    using pat_at_mid [of "i - ?a" n pre rest] that by (simp add: pat_def)
  have o: "ordinary (pat_at pat i)" if "?a \<le> i" "i < ?b" for i
    using at [OF that] assms(1) that by simp
  have "find_comma pat False ?a (length pat) = find_comma pat False ?b (length pat)"
    by (rule find_comma_skip) (use o in \<open>auto simp: pat_def ordinary_def\<close>)
  also have "\<dots> = ?b"
  proof (cases rest)
    case (Cons c r)
    then have "pat_at pat ?b = 44" using pat_at_behind [of pre n rest] assms(2) by (simp add: pat_def pat_at_def)
    then show ?thesis by (rule find_comma_stop)
  qed (simp add: find_comma_stop pat_def)
  finally show "find_comma pat False ?a (length pat) = ?b" .
  have "tokens pat ?a ?b = map Lit (map (pat_at pat) [?a..<?b]) @ tokens pat ?b ?b"
    by (rule tokens_skip) (use o in \<open>auto simp: ordinary_def\<close>)
  moreover have "map (pat_at pat) [?a..<?b] = n" by (rule nth_equalityI) (simp_all add: at)
  ultimately show "tokens pat ?a ?b = map Lit n" by (simp add: tokens_empty)
qed

lemma star_part:
  fixes pre rest :: bytes
  assumes "rest = [] \<or> hd rest = 44"
  defines "pat \<equiv> pre @ [42] @ rest"
  shows "find_comma pat False (length pre) (length pat) = length pre + 1"
    "tokens pat (length pre) (length pre + 1) = [Star]"
proof -
  let ?a = "length pre"
  have a: "pat_at pat ?a = 42" using pat_at_mid [of 0 "[42]" pre rest] by (simp add: pat_def)
  have b: "pat_at pat (?a + 1) = pat_at rest 0" using pat_at_behind [of pre "[42]" rest] by (simp add: pat_def)
  have o: "\<forall>i. ?a \<le> i \<and> i < ?a + 1 \<longrightarrow> pat_at pat i \<notin> {44, 91, 92}"
  proof (intro allI impI)
    fix i assume "?a \<le> i \<and> i < ?a + 1"
    then have "i = ?a" by simp
    then show "pat_at pat i \<notin> {44, 91, 92}" using a by simp
  qed
  have "find_comma pat False ?a (length pat) = find_comma pat False (?a + 1) (length pat)"
    by (rule find_comma_skip [OF _ _ o]) (simp_all add: pat_def)
  also have "\<dots> = ?a + 1"
  proof (cases rest)
    case (Cons c r)
    then show ?thesis using assms(1) b by (intro find_comma_stop) (simp add: pat_at_def)
  qed (simp add: find_comma_stop pat_def)
  finally show "find_comma pat False ?a (length pat) = ?a + 1" .
  have "pat_at rest 0 \<noteq> 42" using assms(1) by (cases rest) (auto simp: pat_at_def)
  then have "skip_stars pat (?a + 1) = ?a + 1" using b by (subst skip_stars.simps) simp
  then show "tokens pat ?a (?a + 1) = [Star]" using a by (subst tokens.simps) (simp add: tokens_empty)
qed

lemma item_part:
  fixes it pre rest :: bytes
  assumes "item_ok it" "rest = [] \<or> hd rest = 44"
  defines "pat \<equiv> pre @ it @ rest"
  shows "subpatterns pat False (length pre) =
      \<lparr>sp_reverse = (hd it = 33), sp_poison = False, sp_start = length pre + (if hd it = 33 then 1 else 0), sp_end = length pre + length it\<rparr>
      # subpatterns pat False (length pre + length it + 1)"
    "tmatch (tokens pat (length pre + (if hd it = 33 then 1 else 0)) (length pre + length it)) t \<longleftrightarrow> item_matches t it"
proof -
  let ?a = "length pre" and ?r = "hd it = 33"
  let ?s = "?a + (if ?r then 1 else 0)"
  have nonempty: "it \<noteq> []" using assms(1) by (auto simp: item_ok_def name_ok_def)
  then have at: "pat_at pat ?a = hd it" using pat_at_mid [of 0 it pre rest] by (simp add: pat_def hd_conv_nth)
  have lits: "tmatch (map Lit n) t \<longleftrightarrow> t = n" for n using tmatch_lits [of n "[]" t] by auto
  have both: "find_comma pat False ?s (length pat) = ?a + length it \<and> (tmatch (tokens pat ?s (?a + length it)) t \<longleftrightarrow> item_matches t it)"
  proof -
    consider "it = [42]" | "name_ok it" | n where "it = 33 # n" "name_ok n" using assms(1) by (auto simp: item_ok_def)
    then show ?thesis
    proof cases
      case 1
      then show ?thesis using star_part [OF assms(2), of pre] by (auto simp: pat_def item_matches_def)
    next
      case 2
      then have "hd it \<noteq> 33" "it \<noteq> [42]" using name_first [of it] by auto
      then show ?thesis using 2 name_part [OF _ assms(2), of it pre] lits by (simp add: pat_def item_matches_def name_ok_def)
    next
      case 3
      then show ?thesis using name_part [OF _ assms(2), of n "pre @ [33]"] lits by (simp add: pat_def item_matches_def name_ok_def)
    qed
  qed
  show "tmatch (tokens pat ?s (?a + length it)) t \<longleftrightarrow> item_matches t it" using both by blast
  have "?a \<le> length pat" by (simp add: pat_def)
  then show "subpatterns pat False ?a = \<lparr>sp_reverse = ?r, sp_poison = False, sp_start = ?s, sp_end = ?a + length it\<rparr>
      # subpatterns pat False (?a + length it + 1)"
    using both at by (subst subpatterns.simps) (auto simp: Let_def)
qed

lemma join_view:
  assumes "items \<noteq> []" "\<forall>it\<in>set items. item_ok it" "pat = pre @ join_with [44] items"
  shows "map (\<lambda>sp. (sp_reverse sp, sp_poison sp, sp_matches pat t sp)) (subpatterns pat False (length pre)) =
    map (\<lambda>it. (hd it = 33, False, item_matches t it)) items"
  using assms
proof (induction "[44 :: u8]" items arbitrary: pre rule: join_with.induct)
  case (2 it)
  have p: "pat = pre @ it @ []" using 2 by simp
  have "subpatterns pat False (length pre + length it + 1) = []" using p by (subst subpatterns.simps) simp
  then show ?case using item_part(1) [of it "[]" pre] item_part(2) [of it "[]" pre t] 2 p by (simp add: sp_matches_def)
next
  case (3 it it2 its)
  let ?rest = "[44] @ join_with [44] (it2 # its)"
  have p: "pat = pre @ it @ ?rest" using 3 by simp
  have "pat = (pre @ it @ [44]) @ join_with [44] (it2 # its)" using p by simp
  from 3(1) [OF _ _ this] have IH: "map (\<lambda>sp. (sp_reverse sp, sp_poison sp, sp_matches pat t sp)) (subpatterns pat False (length pre + length it + 1)) =
    map (\<lambda>it. (hd it = 33, False, item_matches t it)) (it2 # its)" using 3(3) by (simp add: add.assoc)
  have "item_ok it" "?rest = [] \<or> hd ?rest = 44" using 3 by simp_all
  note P = item_part [OF this, of pre, folded p]
  show ?case unfolding P(1) list.map IH by (simp add: sp_matches_def P(2))
qed simp

text \<open>The last item that matches decides.\<close>

lemma uwildmat_items:
  assumes "items \<noteq> []" "\<forall>it\<in>set items. item_ok it" "plain t"
  shows "uwildmat t (join_with [44] items) \<longleftrightarrow>
    (case rev (filter (item_matches t) items) of [] \<Rightarrow> False | it # _ \<Rightarrow> hd it \<noteq> 33)"
proof -
  let ?pat = "join_with [44] items"
  have z: "0 \<notin> set ?pat"
    using set_join_with [of "[44]" items] assms(2) by (fastforce simp: item_ok_def name_ok_def ordinary_def)
  have ne: "?pat \<noteq> []"
    using assms(1,2) by (cases items rule: remdups_adj.cases) (auto simp: item_ok_def name_ok_def)
  let ?v = "\<lambda>sp. (sp_reverse sp, sp_poison sp, sp_matches ?pat t sp)" and ?w = "\<lambda>it. (hd it = 33, False, item_matches t it)"
  have V: "map ?v (subpatterns ?pat False 0) = map ?w items" using join_view [OF assms(1,2), of ?pat "[]"] by simp
  have F: "map ?v (filter (sp_matches ?pat t) (subpatterns ?pat False 0)) = map ?w (filter (item_matches t) items)"
    using arg_cong [OF V, of "filter (\<lambda>(r, q, m). m)"] by (simp add: filter_map comp_def)
  have "map ?v (rev (filter (sp_matches ?pat t) (subpatterns ?pat False 0))) = map ?w (rev (filter (item_matches t) items))"
    using arg_cong [OF F, of rev] by (simp add: rev_map)
  moreover have "uwildmat t ?pat \<longleftrightarrow> verdict t ?pat False = UWILDMAT_MATCH"
    using match_expression_ok [OF assms(3) z] single_star [OF z] star_verdict by (auto simp: uwildmat_def)
  ultimately show ?thesis using ne
    by (auto simp: verdict_def split: list.splits)
qed


subsection \<open>Names\<close>

definition subtest_name :: "bytes \<Rightarrow> bool" where
  "subtest_name n \<longleftrightarrow> n \<noteq> [] \<and> valid_name_for_subtest n \<and> plain n"

lemma plain_no_nul: "plain n \<Longrightarrow> 0 \<notin> set n"
  by (auto simp: plain_def)

lemma subtest_name_chars:
  assumes "subtest_name n" "c \<in> set n"
  shows "c = 95 \<or> c = 45 \<or> (48 \<le> c \<and> c \<le> 57) \<or> (97 \<le> c \<and> c \<le> 122)"
proof -
  have "0 \<notin> set n" using assms(1) plain_no_nul by (simp add: subtest_name_def)
  then have "cstring n = n" by (rule cstring_id)
  then have "c = 95 \<or> c = 45 \<or> (48 \<le> c \<and> c \<le> 57) \<or> (65 \<le> c \<and> c \<le> 90) \<or> (97 \<le> c \<and> c \<le> 122)"
    using assms by (auto simp: subtest_name_def valid_name_for_subtest_def list_all_iff)
  moreover have "\<not> (65 \<le> c \<and> c \<le> 90)"
  proof
    assume u: "65 \<le> c \<and> c \<le> 90"
    have "tolower8 c = c" using assms by (auto simp: subtest_name_def plain_def)
    moreover have "unat (tolower8 c) = unat c + 32"
    proof -
      have n: "65 \<le> unat c" "unat c \<le> 90" using u by (simp_all add: word_le_nat_alt)
      have "unat (tolower (ucast c)) = unat c + 32"
        using n by (simp add: tolower_def word_le_nat_alt unat_word_ariths unsigned_ucast_eq take_bit_nat_eq_self)
      then show ?thesis using n by (simp add: tolower8_def unsigned_ucast_eq take_bit_nat_eq_self)
    qed
    ultimately show False by simp
  qed
  ultimately show ?thesis by blast
qed

lemma subtest_name_facts:
  assumes "subtest_name n"
  shows "name_ok n" "0 \<notin> set n" "64 \<notin> set n" "58 \<notin> set n" "\<forall>c\<in>set n. \<not> c_isspace c"
proof -
  note C = subtest_name_chars [OF assms]
  have ex: "c \<notin> set n" if "c \<noteq> 95" "c \<noteq> 45" "\<not> (48 \<le> c \<and> c \<le> 57)" "\<not> (97 \<le> c \<and> c \<le> 122)" for c
    using C [of c] that by blast
  show "0 \<notin> set n" "64 \<notin> set n" "58 \<notin> set n" by (rule ex; simp)+
  have "{0, 33, 42, 44, 63, 64, 91, 92, 93} \<inter> set n = {}" by (simp add: ex)
  then show "name_ok n" using assms by (auto simp: name_ok_def subtest_name_def ordinary_def)
  have "{32, 9, 10, 11, 12, 13} \<inter> set n = {}" by (simp add: ex)
  then show "\<forall>c\<in>set n. \<not> c_isspace c" by (auto simp: c_isspace_def)
qed

subsection \<open>The pruned job\<close>

definition pruned_items :: "bytes list \<Rightarrow> bytes list \<Rightarrow> bytes list" where
  "pruned_items subs started = (if subs = [] then if started = [] then [] else [[42]] else subs) @ map ((#) 33) started"

lemma lits: "str ''*'' = [42]" "str ''!'' = [33]" "str ''/'' = [47]"
  by (simp_all add: str_def)

lemma prune_fold:
  "fold (\<lambda>n e. prune_subtest e n) started e = e\<lparr>entry_subtests := pruned_items (entry_subtests e) started\<rparr>"
proof (induction started rule: rev_induct)
  case (snoc n ns)
  then show ?case by (auto simp: pruned_items_def prune_subtest_def lits Let_def)
qed (simp add: pruned_items_def)

lemma join_concat: "join_with [44] (a # ss) = a @ concat (map ((#) 44) ss)"
  by (induction ss arbitrary: a) simp_all

lemma foldl_join: "foldl (\<lambda>arg sub. arg @ [44] @ sub) a ss = join_with [44] (a # ss)"
  unfolding join_concat by (induction ss arbitrary: a) simp_all

lemma rev_filter_excluded:
  assumes "subtest_name t" "\<forall>n\<in>set started. subtest_name n"
  shows "rev (filter (item_matches t) (items @ map ((#) 33) started)) =
    replicate (length (filter ((=) t) started)) (33 # t) @ rev (filter (item_matches t) items)"
  using assms(2)
proof (induction started rule: rev_induct)
  case (snoc n ns)
  have "item_matches t (33 # n) \<longleftrightarrow> n = t" by (auto simp: item_matches_def)
  then show ?case using snoc by auto
qed simp

text \<open>The pattern of a pruned job selects the subtests that were wanted and not started.\<close>

lemma pruned_selects:
  assumes "subtest_name t" "\<forall>n\<in>set subs \<union> set started. subtest_name n" "started \<noteq> []"
  shows "uwildmat t (join_with [44] (pruned_items subs started)) \<longleftrightarrow> (subs = [] \<or> t \<in> set subs) \<and> t \<notin> set started"
proof -
  let ?items = "if subs = [] then if started = [] then [] else [[42]] else subs"
  have t: "plain t" using assms(1) by (simp add: subtest_name_def)
  have ok: "\<forall>it\<in>set (pruned_items subs started). item_ok it"
    using assms(2) subtest_name_facts(1) by (auto simp: pruned_items_def item_ok_def)
  have ne: "pruned_items subs started \<noteq> []" using assms(3) by (simp add: pruned_items_def)
  have im: "item_matches t it \<longleftrightarrow> t = it" if "it \<in> set subs" for it
    using name_first [OF subtest_name_facts(1), of it] assms(2) that by (auto simp: item_matches_def)
  have F: "filter (item_matches t) ?items = (if subs = [] then [[42]] else filter ((=) t) subs)"
    using assms(3) im by (auto simp: item_matches_def intro: filter_cong)
  have R: "rev (filter (item_matches t) (pruned_items subs started)) =
      replicate (length (filter ((=) t) started)) (33 # t) @ rev (if subs = [] then [[42]] else filter ((=) t) subs)"
    unfolding pruned_items_def by (subst rev_filter_excluded [OF assms(1)]) (use assms(2) F in auto)
  have h: "hd t \<noteq> 33" using name_first [OF subtest_name_facts(1) [OF assms(1)]] by auto
  let ?k = "length (filter ((=) t) started)" and ?l = "length (filter ((=) t) subs)"
  have k: "?k = 0 \<longleftrightarrow> t \<notin> set started" and l: "?l = 0 \<longleftrightarrow> t \<notin> set subs" by (auto simp: filter_empty_conv)
  have U: "uwildmat t (join_with [44] (pruned_items subs started)) \<longleftrightarrow>
      (case replicate ?k (33 # t) @ rev (if subs = [] then [[42]] else filter ((=) t) subs) of [] \<Rightarrow> False | it # _ \<Rightarrow> hd it \<noteq> 33)"
    unfolding uwildmat_items [OF ne ok t] R ..
  show ?thesis
  proof (cases ?k)
    case (Suc m)
    then have "t \<in> set started" using k by linarith
    then show ?thesis unfolding U Suc by simp
  next
    case 0
    then have ns: "t \<notin> set started" using k by simp
    show ?thesis
    proof (cases "subs = []")
      case True
      then show ?thesis using ns unfolding U 0 by simp
    next
      case False
      have r: "rev (filter ((=) t) subs) = replicate ?l t"
        by (rule replicate_eqI) auto
      show ?thesis using False ns h l unfolding U 0 by (cases ?l) (simp_all add: r)
    qed
  qed
qed

subsection \<open>Relaying and pruning by the dump\<close>

lemma relay_ok:
  assumes "packet_ok p" "\<not> results_received m \<or> aborting m \<or> need = None"
  shows "\<exists>m'. relay_packet pid tid need (packet_bytes p) m = Some (m', True) \<and>
    comms_dump m' = comms_dump m @ write_packet_with_canary p \<and> (aborting m' \<longleftrightarrow> aborting m)"
proof -
  have at: "packet_at (packet_bytes p) 0 = p" using packet_at_written [OF assms(1), of 0 "packet_bytes p" "[]"] by simp
  have len: "length (packet_bytes p) = unat (pkt_size p)" by (rule packet_bytes_ok(2) [OF assms(1)])
  have "\<not> length (packet_bytes p) < HEADER_SIZE" using len packet_large [OF assms(1)] by simp
  then show ?thesis using assms(2)
    by (auto simp: relay_packet_def at len dump_packet_def abort_before_subtest_def Let_def)
qed

lemma drain_ok:
  "\<forall>p\<in>set ps. packet_ok p \<Longrightarrow>
    \<exists>m'. drain_socket pid tid (map (\<lambda>p. (packet_bytes p, None)) ps) m = Some m' \<and> comms_dump m' = comms_dump m @ dump_of ps"
proof (induction ps arbitrary: m)
  case (Cons p ps)
  obtain m1 where 1: "relay_packet pid tid None (packet_bytes p) m = Some (m1, True)"
      "comms_dump m1 = comms_dump m @ write_packet_with_canary p"
    using relay_ok [of p m None pid tid] Cons(2) by auto
  obtain m2 where "drain_socket pid tid (map (\<lambda>p. (packet_bytes p, None)) ps) m1 = Some m2" "comms_dump m2 = comms_dump m1 @ dump_of ps"
    using Cons(1) [of m1] Cons(2) by auto
  then show ?case using 1 by simp
qed simp

definition started_names :: "message list \<Rightarrow> bytes list" where
  "started_names ms = concat (map (\<lambda>m. case m of Msg_Subtest_Start n \<Rightarrow> [n] | _ \<Rightarrow> []) ms)"

definition is_exit :: "message \<Rightarrow> bool" where
  "is_exit m = (case m of Msg_Exit _ _ \<Rightarrow> True | _ \<Rightarrow> False)"

lemma says_start:
  assumes "says p (Msg_Subtest_Start n)"
  shows "\<exists>q. helper_fields (read_runnerpacket p) = Subteststart_Fields (Some q) \<and> cstring_at (pkt_data p) q = n"
proof -
  have ok: "packet_ok p" "helper_type (read_runnerpacket p) = PACKETTYPE_SUBTEST_START"
    "helper_texts (pkt_data p) (helper_fields (read_runnerpacket p)) = [Some n]" using assms by (simp_all add: says_def)
  obtain q where "helper_fields (read_runnerpacket p) = Subteststart_Fields (Some q)"
    using read_runnerpacket_typed(1) [OF ok(1)] ok(2) by (auto simp: helper_typed_def packettypes)
  then show ?thesis using ok(3) by (simp add: ptr_text_def)
qed

definition note_message :: "message \<Rightarrow> prune_comms_data \<Rightarrow> prune_comms_data" where
  "note_message m data = (case m of
       Msg_Subtest_Start n \<Rightarrow> data\<lparr>pc_entry := prune_subtest (pc_entry data) n, pc_pruned := pc_pruned data + 1\<rparr>
     | Msg_Exit _ _ \<Rightarrow> data\<lparr>pc_got_exit := True\<rparr>
     | _ \<Rightarrow> data)"

lemma prune_visit: "says p m \<Longrightarrow> visit_packet prune_visitor p data = Some (note_message m data, True)"
proof (cases m)
  case (Msg_Subtest_Start n)
  assume "says p m"
  then obtain q where "helper_fields (read_runnerpacket p) = Subteststart_Fields (Some q)" "cstring_at (pkt_data p) q = n"
      "pkt_type p = PACKETTYPE_SUBTEST_START" using says_start [of p n] Msg_Subtest_Start by (auto simp: says_def)
  then show ?thesis using Msg_Subtest_Start
    by (simp add: visit_packet_def visitor_handler_def prune_visitor_def packettypes prune_handle_subtest_start_def note_message_def)
qed (simp_all add: visit_packet_def visitor_handler_def prune_visitor_def packettypes prune_handle_exit_def note_message_def says_def)

lemma prune_visit_all:
  assumes "list_all2 says ps ms" "ret \<noteq> COMMSPARSE_ERROR"
  shows "\<exists>ret'. visit_all prune_visitor ps ret data = Some (ret', fold note_message ms data) \<and> ret' \<noteq> COMMSPARSE_ERROR"
  using assms
proof (induction ps ms arbitrary: ret data rule: list_all2_induct)
  case (Cons p ps m ms)
  show ?case using Cons(3) [of "if pkt_type p \<noteq> PACKETTYPE_EXEC then COMMSPARSE_SUCCESS else ret" "note_message m data"] Cons(4)
    by (simp add: prune_visit [OF Cons(1)])
qed simp

lemma fold_note:
  "fold note_message ms data = data\<lparr>pc_entry := fold (\<lambda>n e. prune_subtest e n) (started_names ms) (pc_entry data),
    pc_pruned := pc_pruned data + length (started_names ms), pc_got_exit := pc_got_exit data \<or> list_ex is_exit ms\<rparr>"
  by (induction ms arbitrary: data) (auto simp: note_message_def started_names_def is_exit_def split: message.splits)

lemma prune_from_comms_ok:
  assumes "list_all2 says ps ms"
  defines "started \<equiv> started_names ms"
  shows "prune_from_comms entry (dump_of ps) =
    Some ((entry\<lparr>entry_subtests := pruned_items (entry_subtests entry) started\<rparr>)
      \<lparr>entry_binary := if (entry_subtests entry \<noteq> [] \<and> length (entry_subtests entry) \<le> length started) \<or> list_ex is_exit ms
        then [] else entry_binary entry\<rparr>, started \<noteq> [])"
proof -
  have ok: "\<forall>p\<in>set ps. packet_ok p" using assms(1) by (auto simp: list_all2_conv_all_nth in_set_conv_nth says_def)
  obtain ret where "visit_all prune_visitor ps COMMSPARSE_EMPTY \<lparr>pc_entry = entry, pc_pruned = 0, pc_got_exit = False\<rparr> =
      Some (ret, fold note_message ms \<lparr>pc_entry = entry, pc_pruned = 0, pc_got_exit = False\<rparr>)" "ret \<noteq> COMMSPARSE_ERROR"
    using prune_visit_all [OF assms(1), of COMMSPARSE_EMPTY] by blast
  then show ?thesis
    by (cases entry) (auto simp: prune_from_comms_def read_dump_written [OF ok] fold_note prune_fold mark_done_def started_def Let_def)
qed

subsection \<open>Pruning by the journal\<close>

lemma next_word_line:
  assumes "w \<noteq> []" "\<forall>c\<in>set w. \<not> c_isspace c" "c_isspace x"
  shows "next_word (w @ x # s) = Some (w, x # s)"
proof -
  have "dropWhile c_isspace (w @ x # s) = w @ x # s" using assms(1,2) by (cases w) simp_all
  moreover have "takeWhile (\<lambda>b. \<not> c_isspace b) (w @ x # s) = w" "dropWhile (\<lambda>b. \<not> c_isspace b) (w @ x # s) = x # s"
    using assms(2,3) by (auto simp: takeWhile_append dropWhile_append)
  ultimately show ?thesis using assms(1) by (simp add: next_word_def)
qed

lemma next_word_space: "c_isspace x \<Longrightarrow> next_word (x # s) = next_word s"
  by (simp add: next_word_def)

lemma journal_loop_space: "c_isspace x \<Longrightarrow> journal_loop scan_f (x # s) entry pruned = journal_loop scan_f s entry pruned"
  by (subst (1 2) journal_loop.simps) (simp add: next_word_space)

lemma isspace_nl: "c_isspace 10" "c_isspace 32"
  by (simp_all add: c_isspace_def)

lemma take_no_colon: "58 \<notin> set n \<Longrightarrow> take (length EXECUTOR_EXIT) n \<noteq> EXECUTOR_EXIT \<and> take (length EXECUTOR_TIMEOUT) n \<noteq> EXECUTOR_TIMEOUT"
proof -
  assume a: "58 \<notin> set n"
  have "58 \<in> set EXECUTOR_EXIT" "58 \<in> set EXECUTOR_TIMEOUT" by (simp_all add: EXECUTOR_EXIT_def EXECUTOR_TIMEOUT_def str_def)
  then show ?thesis using a by (metis in_set_takeD)
qed

lemma journal_loop_name:
  assumes "subtest_name n"
  shows "journal_loop scan_f (n @ 10 # s) entry pruned = journal_loop scan_f s (prune_subtest entry n) (pruned + 1)"
proof -
  note F = subtest_name_facts [OF assms]
  have "n \<noteq> []" using assms by (simp add: subtest_name_def)
  then have "next_word (n @ 10 # s) = Some (n, 10 # s)" using F(5) isspace_nl(1) by (intro next_word_line)
  then show ?thesis using cstring_id [OF F(2)] take_no_colon [OF F(4)]
    by (subst journal_loop.simps) (simp add: Let_def journal_loop_space isspace_nl)
qed

lemma journal_loop_names:
  assumes "\<forall>n\<in>set started. subtest_name n"
  shows "journal_loop scan_f (concat (map (\<lambda>n. n @ [10]) started) @ s) entry pruned =
    journal_loop scan_f s (fold (\<lambda>n e. prune_subtest e n) started entry) (pruned + length started)"
  using assms by (induction started arbitrary: entry pruned) (simp_all add: journal_loop_name)

text \<open>The line that records a timeout.\<close>

definition timeout_line :: "bytes \<Rightarrow> bytes \<Rightarrow> bytes" where
  "timeout_line code time = EXECUTOR_TIMEOUT @ code @ [32, 40] @ time @ [115, 41, 10]"

lemma journal_loop_timeout:
  assumes "\<forall>c\<in>set code. \<not> c_isspace c \<and> c \<noteq> 0" "\<And>r. scan_f (time @ 115 # r) = (length time, True)"
  shows "journal_loop scan_f (timeout_line code time) entry pruned = (entry, pruned)"
proof -
  let ?w = "EXECUTOR_TIMEOUT @ code"
  have e: "EXECUTOR_TIMEOUT = [116, 105, 109, 101, 111, 117, 116, 58]" "EXECUTOR_EXIT = [101, 120, 105, 116, 58]"
    by (simp_all add: EXECUTOR_TIMEOUT_def EXECUTOR_EXIT_def str_def)
  have w: "?w \<noteq> []" "\<forall>c\<in>set ?w. \<not> c_isspace c" "0 \<notin> set ?w" using assms(1) by (auto simp: e c_isspace_def)
  have nw: "next_word (timeout_line code time) = Some (?w, 32 # 40 # time @ [115, 41, 10])"
    using next_word_line [OF w(1,2) isspace_nl(2), of "40 # time @ [115, 41, 10]"] by (simp add: timeout_line_def)
  have "skip_time scan_f (32 # 40 # time @ [115, 41, 10]) = [10]"
    using assms(2) [of "[41, 10]"] by (simp add: skip_time_def c_isspace_def)
  moreover have "journal_loop scan_f [10] entry pruned = (entry, pruned)"
    by (subst journal_loop.simps) (simp add: next_word_def c_isspace_def)
  moreover have "take (length EXECUTOR_EXIT) ?w \<noteq> EXECUTOR_EXIT" "take (length EXECUTOR_TIMEOUT) ?w = EXECUTOR_TIMEOUT"
    by (simp_all add: e)
  ultimately show ?thesis using cstring_id [OF w(3)] nw by (subst journal_loop.simps) (simp add: Let_def)
qed

lemma prune_from_journal_ok:
  assumes "\<forall>n\<in>set started. subtest_name n" "\<forall>c\<in>set code. \<not> c_isspace c \<and> c \<noteq> 0"
    "\<And>r. scan_f (time @ 115 # r) = (length time, True)"
  shows "prune_from_journal scan_f entry (concat (map (\<lambda>n. n @ [10]) started) @ timeout_line code time) =
    ((entry\<lparr>entry_subtests := pruned_items (entry_subtests entry) started\<rparr>)
      \<lparr>entry_binary := if entry_subtests entry \<noteq> [] \<and> length (entry_subtests entry) \<le> length started
        then [] else entry_binary entry\<rparr>, started \<noteq> [])"
  using journal_loop_names [OF assms(1)] journal_loop_timeout [OF assms(2), of scan_f time, OF assms(3)]
  by (cases entry) (auto simp: prune_from_journal_def prune_fold mark_done_def)

subsection \<open>The resumed run\<close>

lemma find_started:
  assumes "run_tests dir i = Some d" "i < n" "\<forall>j. i < j \<and> j \<le> n \<longrightarrow> run_tests dir j = None"
  shows "List.find (\<lambda>i. run_tests dir i \<noteq> None) (rev [0..<n + 1]) = Some i"
proof -
  have "[0..<n + 1] = [0..<i] @ i # [i + 1..<n + 1]"
    using assms(2) upt_add_eq_append [of 0 i "n + 1 - i"] by (simp add: upt_conv_Cons)
  then have r: "rev [0..<n + 1] = rev [i + 1..<n + 1] @ i # rev [0..<i]" by simp
  have skip: "List.find P (xs @ ys) = List.find P ys" if "\<forall>x\<in>set xs. \<not> P x" for P :: "nat \<Rightarrow> bool" and xs ys
    using that by (induction xs) simp_all
  show ?thesis unfolding r by (subst skip) (use assms in auto)
qed

text \<open>A results directory that was left in the test \<open>i\<close> of the job list \<open>lst\<close>.\<close>

definition left_at :: "run_dir \<Rightarrow> settings \<Rightarrow> nat \<Rightarrow> job_list \<Rightarrow> nat \<Rightarrow> test_dir \<Rightarrow> bool" where
  "left_at dir settings uid lst i d \<longleftrightarrow> run_settings dir = Some settings \<and> (allow_non_root settings \<or> uid = 0) \<and>
    read_job_list [] (run_joblist dir) = (lst, True) \<and> i < length lst \<and> run_tests dir i = Some d \<and>
    (\<forall>j. i < j \<and> j \<le> length lst \<longrightarrow> run_tests dir j = None)"

lemma resume_unfold:
  assumes "left_at dir settings uid lst i d"
  shows "initialize_execute_state_from_resume scan_f uid dir = do {
     (entry1, next1) \<leftarrow> (case comms_file d of
         None \<Rightarrow> Some (lst ! i, i)
       | Some f \<Rightarrow> do { r \<leftarrow> prune_from_comms (lst ! i) f; Some (fst r, after_prune i r i) });
     let (entry2, next2) = (case journal_file d of
         None \<Rightarrow> (entry1, next1)
       | Some f \<Rightarrow> (let r = prune_from_journal scan_f entry1 f in (fst r, after_prune i r next1)));
     Some (True, (init_time_left settings \<lparr>state_next = 0, time_left = 0, dry = False\<rparr>)\<lparr>state_next := next2\<rparr>, Some settings,
       lst[i := entry2]) }"
proof -
  have f: "List.find (\<lambda>i. run_tests dir i \<noteq> None) (rev [0..<length lst + 1]) = Some i"
    using find_started [of dir i d "length lst"] assms unfolding left_at_def by blast
  have "i \<noteq> length lst" "run_settings dir = Some settings" "\<not> (\<not> allow_non_root settings \<and> uid \<noteq> 0)"
      "read_job_list [] (run_joblist dir) = (lst, True)" "run_tests dir i = Some d"
    using assms by (auto simp: left_at_def)
  then show ?thesis unfolding initialize_execute_state_from_resume_def
    by (simp only: f Let_def option.case prod.case if_False simp_thms option.sel)
qed

definition resumed_entry :: "job_list_entry \<Rightarrow> bytes list \<Rightarrow> job_list_entry" where
  "resumed_entry e started = e\<lparr>entry_subtests := pruned_items (entry_subtests e) started\<rparr>"

lemma resumed_argv:
  assumes "\<forall>n\<in>set (entry_subtests e) \<union> set started. subtest_name n" "started \<noteq> []" "subtest_name t"
  shows "\<exists>argv. execute_test_process_argv settings (resumed_entry e started) = Some argv \<and>
    igt_run_subtest (run_subtest_option argv) t = Some ((entry_subtests e = [] \<or> t \<in> set (entry_subtests e)) \<and> t \<notin> set started)"
proof -
  let ?items = "pruned_items (entry_subtests e) started"
  obtain a ss where a: "?items = a # ss" using assms(2) by (cases ?items) (auto simp: pruned_items_def split: if_splits)
  have "a = [42] \<or> a \<in> set (entry_subtests e)"
    using a assms(2) by (cases "entry_subtests e") (auto simp: pruned_items_def)
  then have "64 \<notin> set a" using subtest_name_facts(3) assms(1) by auto
  then have s: "split_at_char 64 a = (a, None)" by (rule split_at_char_miss)
  have l: "str '','' = [44]" by (simp add: str_def)
  have v: "valid_name_for_subtest t" using assms(3) by (simp add: subtest_name_def)
  have "uwildmat t (join_with [44] (a # ss)) \<longleftrightarrow> (entry_subtests e = [] \<or> t \<in> set (entry_subtests e)) \<and> t \<notin> set started"
    using pruned_selects [OF assms(3,1,2)] a by simp
  then show ?thesis
    using s v by (simp add: execute_test_process_argv_def resumed_entry_def a l foldl_join [simplified] igt_run_subtest_def run_subtest_option_def)
qed

subsection \<open>A dump that is opened again\<close>

lemma dump_loop_bad:
  assumes "\<And>p. p \<in> set ps \<Longrightarrow> packet_ok p" "n \<le> length file" "drop n file = dump_of ps @ bad"
    "4 \<le> length bad" "get32 bad \<noteq> socket_dump_canary"
  shows "dump_loop visitor file n ret s = map_option (\<lambda>(r, s'). (COMMSPARSE_ERROR, s')) (visit_all visitor ps ret s)"
  using assms(1-3)
proof (induction ps arbitrary: n ret s)
  case Nil
  have "length file - n = length bad" using arg_cong [OF Nil.prems(3), of length] by simp
  then show ?case using Nil.prems(3) assms(4,5) by (subst dump_loop.simps) auto
next
  case (Cons p ps)
  have ok: "packet_ok p" using Cons.prems(1) by simp
  have d: "drop n file = write_packet_with_canary p @ (dump_of ps @ bad)" using Cons.prems(3) by simp
  note D = dump_step [OF ok Cons.prems(2) d]
  have IH: "dump_loop visitor file (n + 4 + unat (pkt_size p)) ret' s' =
      map_option (\<lambda>(r, s'). (COMMSPARSE_ERROR, s')) (visit_all visitor ps ret' s')" for ret' s'
    by (rule Cons.IH [OF _ D(2,3)]) (use Cons.prems(1) in simp)
  show ?case unfolding D(1) [of visitor ret s]
    by (cases "visit_packet visitor p s") (auto simp: IH split: prod.splits)
qed

lemma dump_of_last:
  assumes "ps \<noteq> []" "packet_ok (List.last ps)" "pkt_data (List.last ps) \<noteq> []"
  shows "List.last (dump_of ps) = List.last (pkt_data (List.last ps))" "dump_of ps \<noteq> []"
proof -
  obtain qs q where ps: "ps = qs @ [q]" using assms(1) by (cases ps rule: rev_cases) auto
  then have "dump_of ps = (dump_of qs @ le32 socket_dump_canary @ le32 (pkt_size q) @ le32 (pkt_type q) @ le32 (senderpid q) @
      le32 (sendertid q)) @ pkt_data q"
    using packet_bytes_ok(1) [of q] assms(2) by (simp add: write_packet_with_canary_def)
  then show "List.last (dump_of ps) = List.last (pkt_data (List.last ps))" "dump_of ps \<noteq> []"
    using assms(3) ps by (simp_all del: append_assoc)
qed

lemma newline_canary: "get32 (10 # le32 socket_dump_canary @ r) \<noteq> socket_dump_canary"
proof -
  have "le32 socket_dump_canary = [49, 84, 71, 73]" by (simp add: le32_def socket_dump_canary_def)
  moreover have "get32 (10 # [49, 84, 71, 73] @ r) \<noteq> socket_dump_canary" by (simp add: get32_def socket_dump_canary_def)
  ultimately show ?thesis by simp
qed

subsection \<open>Properties\<close>

text \<open>C29: Pruning an interrupted job leaves exactly the subtests that are left. The job asks for some subtests
  by name, or for all of them when it names none, and at least one was started. From the dump into which the
  runner relayed the packets of the test, and likewise from the journal of the started names that ends in the
  line of a timeout, pruning makes an entry for which the argument of the next test process selects exactly
  the subtests that the job asked for and that were not started. The entry is marked as done when as many
  subtests were started as the job names, or when the dump holds the exit of the test. (Names are lower case
  subtest names. Whether the resumed run goes on with this entry or skips it is the next property.)\<close>

theorem pruned_job_runs_the_rest:
  assumes job: "\<forall>n\<in>set (entry_subtests e) \<union> set started. subtest_name n" "entry_binary e \<noteq> []"
    and test: "list_all2 says ps ms" "started = started_names ms" "started \<noteq> []"
    and monitor: "drain_socket pid tid (map (\<lambda>p. (packet_bytes p, None)) ps) m0 = Some m" "comms_dump m0 = []"
    and line: "\<forall>c\<in>set code. \<not> c_isspace c \<and> c \<noteq> 0" "\<And>r. scan_f (time @ 115 # r) = (length time, True)"
    and name: "subtest_name t"
  defines "all_started \<equiv> entry_subtests e \<noteq> [] \<and> length (entry_subtests e) \<le> length started"
    and "to_run \<equiv> (entry_subtests e = [] \<or> t \<in> set (entry_subtests e)) \<and> t \<notin> set started"
  shows "(\<exists>e' argv. prune_from_comms e (comms_dump m) = Some (e', True) \<and>
      (entry_binary e' = [] \<longleftrightarrow> all_started \<or> list_ex is_exit ms) \<and>
      execute_test_process_argv settings e' = Some argv \<and> igt_run_subtest (run_subtest_option argv) t = Some to_run) \<and>
    (\<exists>e' argv. prune_from_journal scan_f e (concat (map (\<lambda>n. n @ [10]) started) @ timeout_line code time) = (e', True) \<and>
      (entry_binary e' = [] \<longleftrightarrow> all_started) \<and>
      execute_test_process_argv settings e' = Some argv \<and> igt_run_subtest (run_subtest_option argv) t = Some to_run)"
proof -
  have ok: "\<forall>p\<in>set ps. packet_ok p" using test(1) by (auto simp: list_all2_conv_all_nth in_set_conv_nth says_def)
  have dump: "comms_dump m = dump_of ps" using drain_ok [OF ok, of pid tid m0] monitor by auto
  have sel: "\<exists>argv. execute_test_process_argv settings (resumed_entry e started\<lparr>entry_binary := b\<rparr>) = Some argv \<and>
      igt_run_subtest (run_subtest_option argv) t = Some to_run" for b
  proof -
    have "resumed_entry e started\<lparr>entry_binary := b\<rparr> = resumed_entry (e\<lparr>entry_binary := b\<rparr>) started"
      by (cases e) (simp add: resumed_entry_def)
    then show ?thesis using resumed_argv [of "e\<lparr>entry_binary := b\<rparr>" started t settings] job(1) test(3) name
      by (simp add: to_run_def)
  qed
  have c: "prune_from_comms e (comms_dump m) =
      Some (resumed_entry e started\<lparr>entry_binary := if all_started \<or> list_ex is_exit ms then [] else entry_binary e\<rparr>, True)"
    using prune_from_comms_ok [OF test(1), of e] test(2,3) dump by (simp add: resumed_entry_def all_started_def)
  have j: "prune_from_journal scan_f e (concat (map (\<lambda>n. n @ [10]) started) @ timeout_line code time) =
      (resumed_entry e started\<lparr>entry_binary := if all_started then [] else entry_binary e\<rparr>, True)"
    using prune_from_journal_ok [OF _ line(1), of started scan_f time e] line(2) job(1) test(3)
    by (simp add: resumed_entry_def all_started_def)
  show ?thesis unfolding c j using sel job(2) by simp
qed

definition example_settings :: settings where
  "example_settings = \<lparr>test_root = Some [], results_path = None, include_regexes = [], exclude_regexes = [], overwrite = False,
    multiple_mode = True, prune_mode = PRUNE_KEEP_ALL, allow_non_root = True, overall_timeout = 0\<rparr>"

text \<open>A run of the job list with the one job \<open>A\<close> that was left in it.\<close>

definition example_run :: "test_dir \<Rightarrow> run_dir" where
  "example_run d = \<lparr>run_settings = Some example_settings,
    run_joblist = \<lparr>dir_opens = True, joblist_file = Some [65, 10], unlink_works = True, create_works = True\<rparr>,
    run_tests = (\<lambda>i. if i = 0 then Some d else None)\<rparr>"

lemma example_left: "left_at (example_run d) example_settings 0 [\<lparr>entry_binary = [65], entry_subtests = []\<rparr>] 0 d"
proof -
  have "read_job_list [] (run_joblist (example_run d)) = ([\<lparr>entry_binary = [65], entry_subtests = []\<rparr>], True)"
    using read_joblist_text [of "[\<lparr>entry_binary = [65], entry_subtests = []\<rparr>]"]
    by (simp add: read_job_list_def example_run_def entry_ok_def entry_text_def)
  then show ?thesis by (simp add: left_at_def) (simp add: example_run_def)
qed

lemma example_name: "subtest_name [97]" "subtest_name [98]"
  by (simp_all add: subtest_name_def valid_name_for_subtest_def cstring_def tolower8_def tolower_def)

theorem pruned_job_runs_the_rest_witness:
  "\<exists>dump e' argv. prune_from_comms \<lparr>entry_binary = [65], entry_subtests = []\<rparr> dump = Some (e', True) \<and> entry_binary e' \<noteq> [] \<and>
    execute_test_process_argv example_settings e' = Some argv \<and> igt_run_subtest (run_subtest_option argv) [98] = Some True"
proof -
  let ?m0 = "\<lparr>comms_dump = [], socket_comms_used = False, results_received = False, aborting = False, abortreason = None,
    abort_already_written = False\<rparr>"
  let ?e = "\<lparr>entry_binary = [65], entry_subtests = []\<rparr>"
  obtain p where p: "says p (Msg_Subtest_Start [97])"
    using packet_of_says [of "Msg_Subtest_Start [97]" 1 1] by (auto simp: message_ok_def HEADER_SIZE_def)
  have pre: "list_all2 says [p] [Msg_Subtest_Start [97]]" "[[97]] = started_names [Msg_Subtest_Start [97]]" "[[97 :: u8]] \<noteq> []"
    and no_exit: "\<not> list_ex is_exit [Msg_Subtest_Start [97]]" using p by (simp_all add: started_names_def is_exit_def)
  have "packet_ok p" using p by (simp add: says_def)
  then obtain m where m: "drain_socket 1 1 (map (\<lambda>p. (packet_bytes p, None)) [p]) ?m0 = Some m"
    using drain_ok [of "[p]" 1 1 ?m0] by auto
  have names: "\<forall>n\<in>set (entry_subtests ?e) \<union> set [[97]]. subtest_name n" "entry_binary ?e \<noteq> []"
    "comms_dump ?m0 = []" "\<forall>c\<in>set []. \<not> c_isspace c \<and> c \<noteq> 0" "\<And>r. (\<lambda>s. (1, True)) ([48] @ 115 # r) = (length [48 :: u8], True)"
    using example_name by simp_all
  from pruned_job_runs_the_rest [OF names(1,2) pre m names(3,4,5) example_name(2), of example_settings] no_exit
  show ?thesis by auto
qed

text \<open>C30: Going on inside a job needs a record of started subtests in both files. The runner creates both
  for every test, a test that talks over the socket leaves the journal empty, and one that does not leaves
  only the command line in the dump: in either case resuming skips the job that was interrupted, with the
  subtests it had not run.\<close>

theorem resume_skips_started_test:
  assumes "left_at dir settings uid lst i d" "comms_file d = Some f" "journal_file d = Some j"
    "j = [] \<or> (list_all2 says ps ms \<and> f = dump_of ps \<and> started_names ms = [])"
    "initialize_execute_state_from_resume scan_f uid dir = Some (ok, st, s, lst')"
  shows "state_next st = i + 1"
proof -
  obtain r where r: "prune_from_comms (lst ! i) f = Some r"
    using assms(5) by (auto simp: resume_unfold [OF assms(1)] assms(2,3) split: bind_splits)
  have st: "state_next st = after_prune i (prune_from_journal scan_f (fst r) j) (after_prune i r i)"
    using assms(5) by (auto simp: resume_unfold [OF assms(1)] assms(2,3) r Let_def split: prod.splits)
  show ?thesis
  proof (cases "j = []")
    case True
    have "prune_from_journal scan_f (fst r) [] = (fst r, False)"
      by (simp add: prune_from_journal_def journal_loop.simps next_word_def)
    then show ?thesis using True st by (simp add: after_prune_def)
  next
    case False
    then have "\<not> snd r" using assms(4) prune_from_comms_ok [of ps ms "lst ! i"] r by auto
    then show ?thesis using st by (simp add: after_prune_def)
  qed
qed

theorem resume_skips_started_test_witness:
  "\<exists>st s lst'. initialize_execute_state_from_resume (\<lambda>s. (1, True)) 0
      (example_run \<lparr>journal_file = Some [97, 10], out_file = None, err_file = None, dmesg_file = None, comms_file = Some []\<rparr>) =
    Some (True, st, s, lst') \<and> state_next st = 1"
proof -
  let ?d = "\<lparr>journal_file = Some [97, 10], out_file = None, err_file = None, dmesg_file = None, comms_file = Some []\<rparr>"
  have c: "prune_from_comms \<lparr>entry_binary = [65], entry_subtests = []\<rparr> [] = Some (\<lparr>entry_binary = [65], entry_subtests = []\<rparr>, False)"
    using prune_from_comms_ok [of "[]" "[]"] by (simp add: started_names_def pruned_items_def)
  obtain st s lst' where r: "initialize_execute_state_from_resume (\<lambda>s. (1, True)) 0 (example_run ?d) = Some (True, st, s, lst')"
    by (simp add: resume_unfold [OF example_left] c Let_def split_beta)
  have "state_next st = 0 + 1"
    by (rule resume_skips_started_test [OF example_left _ _ _ r, of "[]" "[97, 10]" "[]" "[]"]) (simp_all add: started_names_def)
  then show ?thesis using r by simp
qed

text \<open>C31: A dump does not survive being opened again for more packets: the newline that ends the last line
  of a text file is put behind its last packet, so the next packet has no canary where the reader looks
  for it. The packets before it are handled and then the reading fails, whatever was written after it.\<close>

theorem reopened_dump_is_unreadable:
  assumes "ps \<noteq> []" "qs \<noteq> []" "\<forall>p\<in>set ps. packet_ok p" "pkt_data (List.last ps) \<noteq> []" "List.last (pkt_data (List.last ps)) = 0"
  shows "comms_read_dump (Dump (open_at_end (Some (dump_of ps)) @ dump_of qs)) visitor s =
    map_option (\<lambda>(r, s'). (COMMSPARSE_ERROR, s')) (visit_all visitor ps COMMSPARSE_EMPTY s)"
proof -
  have "packet_ok (List.last ps)" using assms(1,3) by simp
  note L = dump_of_last [OF assms(1) this assms(4)]
  have o: "open_at_end (Some (dump_of ps)) = dump_of ps @ [10]" using L assms(5) by (simp add: open_at_end_def)
  obtain q qs' where q: "qs = q # qs'" using assms(2) by (cases qs) auto
  let ?bad = "10 # le32 socket_dump_canary @ packet_bytes q @ dump_of qs'"
  have f: "open_at_end (Some (dump_of ps)) @ dump_of qs = dump_of ps @ ?bad" using o q by (simp add: write_packet_with_canary_def)
  have b4: "4 \<le> length ?bad" by (simp only: list.size(4) length_append length_le32)
  have "dump_loop visitor (dump_of ps @ ?bad) 0 COMMSPARSE_EMPTY s =
      map_option (\<lambda>(r, s'). (COMMSPARSE_ERROR, s')) (visit_all visitor ps COMMSPARSE_EMPTY s)"
    by (rule dump_loop_bad [OF _ _ _ b4]) (use assms(3) newline_canary in simp_all)
  moreover have "length (dump_of ps @ ?bad) \<noteq> 0" by simp
  ultimately show ?thesis unfolding f by (simp only: comms_read_dump_def dump_fd.case if_False simp_thms)
qed

theorem reopened_dump_is_unreadable_witness:
  "\<exists>p. packet_of 1 1 (Msg_Log 1 [72, 105]) = Some p \<and>
    comms_read_dump (Dump (open_at_end (Some (dump_of [p])) @ dump_of [p])) text_collector [] = Some (COMMSPARSE_ERROR, [[72, 105]])"
proof -
  let ?p = "\<lparr>pkt_size = 20, pkt_type = PACKETTYPE_LOG, senderpid = 1, sendertid = 1, pkt_data = [1, 72, 105, 0]\<rparr>"
  have "message_ok (Msg_Log 1 [72, 105])" by (simp add: message_ok_def HEADER_SIZE_def)
  moreover have p: "packet_of 1 1 (Msg_Log 1 [72, 105]) = Some ?p"
    by (simp add: runnerpacket_log_def new_packet_def HEADER_SIZE_def)
  ultimately have "says ?p (Msg_Log 1 [72, 105])" using packet_of_says [of "Msg_Log 1 [72, 105]" 1 1] by auto
  then have ok: "packet_ok ?p" "helper_texts (pkt_data ?p) (helper_fields (read_runnerpacket ?p)) = [Some [72, 105]]"
    by (simp_all add: says_def)
  have "visit_all text_collector [?p] COMMSPARSE_EMPTY [] = Some (COMMSPARSE_SUCCESS, [[72, 105]])"
    using ok by (simp add: visit_packet_def visitor_handler_def packettypes text_collector_def)
  then have "comms_read_dump (Dump (open_at_end (Some (dump_of [?p])) @ dump_of [?p])) text_collector [] = Some (COMMSPARSE_ERROR, [[72, 105]])"
    using reopened_dump_is_unreadable [of "[?p]" "[?p]" text_collector "[]"] ok(1) by simp
  then show ?thesis using p by blast
qed

end
