(* ===== verification/Resultgen.thy ===== *)
theory Resultgen
  imports Runnercomms Job_List
begin

unbundle bit_operations_syntax

text \<open>
  From the dump of a test to its results (\<^verbatim>\<open>runner/resultgen.c\<close>): the state machine over the packets.
  The JSON object of a test is the record of the fields the code sets; \<open>tests\<close> maps names to them, and a
  pointer to one is its name there, so two pointers to the same object are the same name. A running time
  (a double) is the term of the operations that make it. \<open>None\<close> is a fault or a failed assertion.
\<close>

subsection \<open>Results\<close>

datatype runtime = Zero | Strtod bytes | Plus runtime runtime

record test_obj =
  obj_out :: "bytes option"
  obj_err :: "bytes option"
  obj_dmesg :: "bytes option"
  obj_dmesg_warnings :: "bytes option"
  obj_version :: "bytes option"
  obj_result :: "bytes option"
  obj_time :: "runtime option"

definition new_object :: test_obj where
  "new_object = \<lparr>obj_out = None, obj_err = None, obj_dmesg = None, obj_dmesg_warnings = None, obj_version = None,
    obj_result = None, obj_time = None\<rparr>"

type_synonym tests = "bytes \<rightharpoonup> test_obj"

definition get_or_create_json_object :: "tests \<Rightarrow> bytes \<Rightarrow> tests" where
  "get_or_create_json_object base key = (case base key of Some _ \<Rightarrow> base | None \<Rightarrow> base(key \<mapsto> new_object))"

definition set_result :: "test_obj \<Rightarrow> bytes option \<Rightarrow> test_obj" where
  "set_result obj result = (case result of None \<Rightarrow> obj | Some r \<Rightarrow> obj\<lparr>obj_result := Some r\<rparr>)"

text \<open>\<open>time + oldtime\<close>\<close>

definition add_runtime :: "test_obj \<Rightarrow> runtime \<Rightarrow> test_obj" where
  "add_runtime obj time = (case obj_time obj of
       None \<Rightarrow> obj\<lparr>obj_time := Some time\<rparr>
     | Some oldtime \<Rightarrow> obj\<lparr>obj_time := Some (Plus time oldtime)\<rparr>)"

text \<open>Bytes that are not 7-bit characters become two bytes of UTF-8.\<close>

definition escape_byte :: "u8 \<Rightarrow> bytes" where
  "escape_byte b = (if 0 < b \<and> b < 128 then [b] else [drop_bit 6 b OR 0xC0, (b AND 0x3F) OR 0x80])"

definition new_escaped_json_string :: "bytes \<Rightarrow> bytes" where
  "new_escaped_json_string buf = concat (map escape_byte buf)"

definition add_igt_version :: "test_obj \<Rightarrow> bytes option \<Rightarrow> test_obj" where
  "add_igt_version obj igt_version = (case igt_version of
       None \<Rightarrow> obj | Some v \<Rightarrow> obj\<lparr>obj_version := Some (new_escaped_json_string v)\<rparr>)"

subsection \<open>Subtests\<close>

record subtest =
  sub_name :: bytes
  dynamic_names :: "bytes list"

definition strip_newline :: "bytes \<Rightarrow> bytes" where
  "strip_newline s = (if s \<noteq> [] \<and> List.last s = 10 then butlast s else s)"

definition add_dynamic_subtest :: "subtest \<Rightarrow> bytes \<Rightarrow> subtest" where
  "add_dynamic_subtest subtest dynamic =
    (if dynamic = [] then subtest
     else (let d = strip_newline dynamic in
       if d \<in> set (dynamic_names subtest) then subtest
       else subtest\<lparr>dynamic_names := dynamic_names subtest @ [d]\<rparr>))"

definition add_subtest :: "subtest list \<Rightarrow> bytes \<Rightarrow> subtest list" where
  "add_subtest subtests subtest =
    (if subtest = [] then subtests
     else (let s = strip_newline subtest in
       if s \<in> sub_name ` set subtests then subtests
       else subtests @ [\<lparr>sub_name = s, dynamic_names = []\<rparr>]))"

subsection \<open>Result strings\<close>

definition resultmap :: "(bytes \<times> bytes) list" where
  "resultmap = [(str ''SUCCESS'', str ''pass''), (str ''SKIP'', str ''skip''), (str ''FAIL'', str ''fail''),
    (str ''CRASH'', str ''crash''), (str ''TIMEOUT'', str ''timeout'')]"

text \<open>\<open>strncmp\<close> up to the length of the word: the word is a prefix of the string of the table. The second
  component is the text of a running time behind the word, if there is one.\<close>

definition parse_result_string :: "bytes \<Rightarrow> bytes \<times> bytes option" where
  "parse_result_string resultstring =
    (let word = takeWhile (\<lambda>b. \<not> c_isspace b) resultstring;
         result = (case List.find (\<lambda>(o_str, r_str). take (length word) o_str = word) resultmap of
           Some (o_str, r_str) \<Rightarrow> r_str | None \<Rightarrow> str ''incomplete'');
         n = length word + 1 in
     (result, if n < length resultstring \<and> resultstring ! n = 40 then Some (drop (n + 1) resultstring) else None))"

definition IGT_EXIT_SKIP :: int where "IGT_EXIT_SKIP = 77"
definition IGT_EXIT_SUCCESS :: int where "IGT_EXIT_SUCCESS = 0"
definition IGT_EXIT_ABORT :: int where "IGT_EXIT_ABORT = 112"
definition INCOMPLETE_EXITCODE :: int where "INCOMPLETE_EXITCODE = -1234"

text \<open>\<open>-SIGHUP\<close>\<close>

definition GRACEFUL_EXITCODE :: int where "GRACEFUL_EXITCODE = -1"

definition result_from_exitcode :: "int \<Rightarrow> bytes" where
  "result_from_exitcode exitcode =
    (if exitcode = IGT_EXIT_SKIP then str ''skip''
     else if exitcode = IGT_EXIT_SUCCESS then str ''pass''
     else if exitcode = int IGT_EXIT_INVALID then str ''skip''
     else if exitcode = IGT_EXIT_ABORT then str ''abort''
     else if exitcode = INCOMPLETE_EXITCODE then str ''incomplete''
     else if exitcode = GRACEFUL_EXITCODE then str ''notrun''
     else str ''fail'')"

definition STARTING_SUBTEST :: bytes where "STARTING_SUBTEST = str ''Starting subtest: ''"
definition SUBTEST_RESULT :: bytes where "SUBTEST_RESULT = str ''Subtest ''"
definition STARTING_DYNAMIC_SUBTEST :: bytes where "STARTING_DYNAMIC_SUBTEST = str ''Starting dynamic subtest: ''"
definition DYNAMIC_SUBTEST_RESULT :: bytes where "DYNAMIC_SUBTEST_RESULT = str ''Dynamic subtest ''"

subsection \<open>The state machine\<close>

datatype comms_state_t = STATE_INITIAL | STATE_AFTER_EXEC | STATE_SUBTEST_STARTED | STATE_DYNAMIC_SUBTEST_STARTED
  | STATE_BETWEEN_DYNAMIC_SUBTESTS | STATE_BETWEEN_SUBTESTS | STATE_EXITED

text \<open>A buffer and its length are the list of the bytes in it. \<open>subtest_at\<close> is the index of \<open>subtest\<close>.\<close>

record comms_context =
  cstate :: comms_state_t
  current_test :: "bytes option"
  current_dynamic_subtest :: "bytes option"
  current_subtest_name :: "bytes option"
  current_dynamic_subtest_name :: "bytes option"
  outbuf :: bytes
  errbuf :: bytes
  outidx :: nat
  nextoutidx :: nat
  erridx :: nat
  nexterridx :: nat
  dynoutidx :: nat
  nextdynoutidx :: nat
  dynerridx :: nat
  nextdynerridx :: nat
  igt_version :: "bytes option"
  subtestresult :: "bytes option"
  dynamicsubtestresult :: "bytes option"
  subtest_execution_time :: runtime
  dynamic_subtest_execution_time :: runtime
  cmdline :: "bytes option"
  exitcode :: int
  ctx_subtests :: "subtest list"
  subtest_at :: "nat option"
  ctx_tests :: tests
  ctx_runtimes :: tests

text \<open>Reading from \<open>\<open>buf + idx\<close>\<close> on with the length \<open>buflen - lenidx\<close>. The buffer has \<open>buflen + 1\<close> bytes, the last one
  a NUL; reading behind it is a fault, and so is a negative length, which wraps.\<close>

definition read_buffer :: "bytes \<Rightarrow> nat \<Rightarrow> nat \<Rightarrow> bytes option" where
  "read_buffer buf idx lenidx =
    (let n = length buf - lenidx in
     if length buf < lenidx then None
     else if n = 0 then Some []
     else if idx + n \<le> length buf + 1 then Some (take n (drop idx (buf @ [0])))
     else None)"

text \<open>\<open>printf\<close> of a pointer that may be NULL.\<close>

definition show_cstr :: "bytes option \<Rightarrow> bytes" where
  "show_cstr s = (case s of None \<Rightarrow> str ''(null)'' | Some s \<Rightarrow> s)"

definition append_both :: "bytes \<Rightarrow> comms_context \<Rightarrow> comms_context" where
  "append_both line c = c\<lparr>outbuf := outbuf c @ line, errbuf := errbuf c @ line\<rparr>"

definition append_err :: "bytes \<Rightarrow> comms_context \<Rightarrow> comms_context" where
  "append_err line c = c\<lparr>errbuf := errbuf c @ line\<rparr>"

definition comms_inject_subtest_start_log :: "bytes \<Rightarrow> bytes \<Rightarrow> comms_context \<Rightarrow> comms_context" where
  "comms_inject_subtest_start_log prefix subtestname c = append_both (snprintf_buf 512 (prefix @ subtestname @ [10])) c"

definition comms_inject_subtest_end_log :: "bytes \<Rightarrow> bytes option \<Rightarrow> bytes option \<Rightarrow> bytes option \<Rightarrow> comms_context \<Rightarrow> comms_context" where
  "comms_inject_subtest_end_log prefix subtestname result timeused c =
    append_both (snprintf_buf 512 (prefix @ show_cstr subtestname @ str '': '' @ show_cstr result @ str '' ('' @ show_cstr timeused @
      str ''s)'' @ [10])) c"

definition update_test :: "bytes \<Rightarrow> (test_obj \<Rightarrow> test_obj) \<Rightarrow> comms_context \<Rightarrow> comms_context" where
  "update_test key f c = c\<lparr>ctx_tests := (ctx_tests c)(key := map_option f (ctx_tests c key))\<rparr>"

definition comms_finish_subtest :: "comms_context \<Rightarrow> comms_context option" where
  "comms_finish_subtest c = do {
     key \<leftarrow> current_test c;
     out_txt \<leftarrow> read_buffer (outbuf c) (outidx c) (outidx c);
     err_txt \<leftarrow> read_buffer (errbuf c) (outidx c) (erridx c);
     let result = (case subtestresult c of None \<Rightarrow> str ''incomplete'' | Some r \<Rightarrow> r);
     let c1 = update_test key (\<lambda>obj. add_runtime (set_result (add_igt_version
         (obj\<lparr>obj_out := Some (new_escaped_json_string out_txt), obj_err := Some (new_escaped_json_string err_txt)\<rparr>)
         (igt_version c)) (Some result)) (subtest_execution_time c)) c;
     Some (c1\<lparr>subtestresult := None, current_test := None, outidx := nextoutidx c, erridx := nexterridx c\<rparr>) }"

definition comms_finish_dynamic_subtest :: "comms_context \<Rightarrow> comms_context option" where
  "comms_finish_dynamic_subtest c = do {
     key \<leftarrow> current_dynamic_subtest c;
     out_txt \<leftarrow> read_buffer (outbuf c) (dynoutidx c) (dynoutidx c);
     err_txt \<leftarrow> read_buffer (errbuf c) (dynerridx c) (dynerridx c);
     let result = (case dynamicsubtestresult c of None \<Rightarrow> str ''incomplete'' | Some r \<Rightarrow> r);
     let c1 = update_test key (\<lambda>obj. add_runtime (set_result (add_igt_version
         (obj\<lparr>obj_out := Some (new_escaped_json_string out_txt), obj_err := Some (new_escaped_json_string err_txt)\<rparr>)
         (igt_version c)) (Some result)) (dynamic_subtest_execution_time c)) c;
     Some (c1\<lparr>dynamicsubtestresult := None, current_dynamic_subtest := None, dynoutidx := nextdynoutidx c,
       dynerridx := nextdynerridx c\<rparr>) }"

definition comms_add_new_subtest :: "bytes \<Rightarrow> bytes \<Rightarrow> comms_context \<Rightarrow> comms_context" where
  "comms_add_new_subtest binary subtestname c =
    (let subs = add_subtest (ctx_subtests c) subtestname;
         piglit_name = generate_piglit_name binary (Some subtestname) 256 in
     c\<lparr>ctx_subtests := subs, subtest_at := (if subs = [] then None else Some (length subs - 1)),
       current_test := Some piglit_name, ctx_tests := get_or_create_json_object (ctx_tests c) piglit_name,
       current_subtest_name := Some subtestname\<rparr>)"

definition comms_add_new_dynamic_subtest :: "bytes \<Rightarrow> bytes \<Rightarrow> comms_context \<Rightarrow> comms_context option" where
  "comms_add_new_dynamic_subtest binary dynamic_name c = do {
     i \<leftarrow> subtest_at c;
     let subs = (ctx_subtests c)[i := add_dynamic_subtest (ctx_subtests c ! i) dynamic_name];
     let piglit_name = generate_piglit_name binary (current_subtest_name c) 256;
     let dynamic_piglit_name = generate_piglit_name_for_dynamic piglit_name dynamic_name 256;
     Some (c\<lparr>ctx_subtests := subs, current_dynamic_subtest := Some dynamic_piglit_name,
       ctx_tests := get_or_create_json_object (ctx_tests c) dynamic_piglit_name,
       current_dynamic_subtest_name := Some dynamic_name\<rparr>) }"

text \<open>The text a pointer of the helper leads to.\<close>

definition deref :: "runnerpacket \<Rightarrow> nat option \<Rightarrow> bytes option" where
  "deref packet q = map_option (cstring_at (pkt_data packet)) q"

text \<open>The members of the union; a packet without fields has a union of zeros.\<close>

definition log_fields :: "runnerpacket_read_helper \<Rightarrow> u8 \<times> nat option" where
  "log_fields helper = (case helper_fields helper of Log_Fields stream q \<Rightarrow> (stream, q) | _ \<Rightarrow> (0, None))"

definition exit_fields :: "runnerpacket_read_helper \<Rightarrow> u32 \<times> nat option" where
  "exit_fields helper = (case helper_fields helper of Exit_Fields code q \<Rightarrow> (code, q) | _ \<Rightarrow> (0, None))"

definition first_field :: "runnerpacket_read_helper \<Rightarrow> nat option" where
  "first_field helper = (case helper_fields helper of
       Exec_Fields q \<Rightarrow> q | Subteststart_Fields q \<Rightarrow> q | Dynamicsubteststart_Fields q \<Rightarrow> q
     | Versionstring_Fields q \<Rightarrow> q | Resultoverride_Fields q \<Rightarrow> q | _ \<Rightarrow> None)"

definition result_fields :: "runnerpacket_read_helper \<Rightarrow> nat option \<times> nat option \<times> nat option" where
  "result_fields helper = (case helper_fields helper of
       Subtestresult_Fields name result timeused reason \<Rightarrow> (name, result, timeused)
     | Dynamicsubtestresult_Fields name result timeused reason \<Rightarrow> (name, result, timeused)
     | _ \<Rightarrow> (None, None, None))"

definition comms_handle_log :: "comms_context handler" where
  "comms_handle_log packet helper c = (let (stream, q) = log_fields helper in do {
     s \<leftarrow> deref packet q;
     Some (if stream = 1 then c\<lparr>outbuf := outbuf c @ s\<rparr> else c\<lparr>errbuf := errbuf c @ s\<rparr>, True) })"

definition comms_handle_exec :: "comms_context handler" where
  "comms_handle_exec packet helper c = do {
     c1 \<leftarrow> (case cstate c of
         STATE_INITIAL \<Rightarrow> Some c
       | STATE_AFTER_EXEC \<Rightarrow> Some (c\<lparr>outbuf := [], errbuf := [], outidx := 0, erridx := 0, nextoutidx := 0, nexterridx := 0\<rparr>)
       | _ \<Rightarrow> comms_finish_subtest c);
     s \<leftarrow> deref packet (first_field helper);
     Some (c1\<lparr>cmdline := Some s, cstate := STATE_AFTER_EXEC\<rparr>, True) }"

definition comms_handle_exit :: "job_list_entry \<Rightarrow> comms_context handler" where
  "comms_handle_exit entry packet helper c =
    (let (code, q) = exit_fields helper; exitc = sint code; binary = entry_binary entry;
         c1 = (if cstate c = STATE_AFTER_EXEC then
             (let subtestname = (case entry_subtests entry of [] \<Rightarrow> None | s # _ \<Rightarrow> Some s);
                  subs = (case subtestname of None \<Rightarrow> ctx_subtests c | Some s \<Rightarrow> add_subtest (ctx_subtests c) s);
                  piglit_name = generate_piglit_name binary subtestname 256 in
              c\<lparr>ctx_subtests := subs, current_test := Some piglit_name,
                ctx_tests := get_or_create_json_object (ctx_tests c) piglit_name,
                subtestresult := (case subtestresult c of None \<Rightarrow> Some (result_from_exitcode exitc) | Some r \<Rightarrow> Some r)\<rparr>)
           else if exitc = IGT_EXIT_ABORT \<or> exitc = GRACEFUL_EXITCODE then
             (let result = (if exitc = IGT_EXIT_ABORT then str ''abort'' else str ''notrun'') in
              c\<lparr>subtestresult := Some result, dynamicsubtestresult := Some result\<rparr>)
           else c);
         key = generate_piglit_name binary None 256 in
     do {
       s \<leftarrow> deref packet q;
       Some (c1\<lparr>exitcode := exitc, cstate := STATE_EXITED,
         ctx_runtimes := (ctx_runtimes c1)(key := map_option (\<lambda>obj. add_runtime obj (Strtod s)) (ctx_runtimes c1 key))\<rparr>, True) })"

definition comms_handle_subtest_start :: "bytes \<Rightarrow> comms_context handler" where
  "comms_handle_subtest_start binary packet helper c =
    (let name_ptr = deref packet (first_field helper) in
     if cstate c = STATE_INITIAL \<or> cstate c = STATE_EXITED then Some (c, False)
     else do {
       c1 \<leftarrow> (if cstate c = STATE_AFTER_EXEC then Some c
         else do {
           let errmsg = snprintf_buf 512 (10 # str ''runner: Subtest '' @ show_cstr (current_subtest_name c) @
             str '' already running when subtest '' @ show_cstr name_ptr @ str '' starts. This is a test bug.'' @ [10]);
           let c1 = (if cstate c \<noteq> STATE_BETWEEN_SUBTESTS then append_err errmsg c else c);
           c2 \<leftarrow> (if cstate c = STATE_DYNAMIC_SUBTEST_STARTED \<or> cstate c = STATE_BETWEEN_DYNAMIC_SUBTESTS
             then comms_finish_dynamic_subtest c1 else Some c1);
           c3 \<leftarrow> (if current_dynamic_subtest c2 \<noteq> None then comms_finish_dynamic_subtest c2 else Some c2);
           comms_finish_subtest c3 });
       name \<leftarrow> name_ptr;
       let c4 = comms_inject_subtest_start_log STARTING_SUBTEST name (comms_add_new_subtest binary name c1);
       Some (c4\<lparr>subtestresult := None, cstate := STATE_SUBTEST_STARTED\<rparr>, True) })"

definition comms_handle_subtest_result :: "bytes \<Rightarrow> comms_context handler" where
  "comms_handle_subtest_result binary packet helper c =
    (let (name_q, result_q, time_q) = result_fields helper; name_ptr = deref packet name_q in
     if cstate c = STATE_INITIAL \<or> cstate c = STATE_EXITED then Some (c, False)
     else do {
       c1 \<leftarrow> (case cstate c of
           STATE_DYNAMIC_SUBTEST_STARTED \<Rightarrow>
             comms_finish_dynamic_subtest (append_err (snprintf_buf 512 (10 # str ''runner: Dynamic subtest '' @
               show_cstr (current_dynamic_subtest_name c) @ str '' still running when subtest '' @ show_cstr name_ptr @
               str '' ended. This is a test bug.'' @ [10])) c)
         | STATE_BETWEEN_SUBTESTS \<Rightarrow> do {
             c1 \<leftarrow> comms_finish_subtest c; name \<leftarrow> name_ptr; Some (comms_add_new_subtest binary name c1) }
         | STATE_AFTER_EXEC \<Rightarrow> do { name \<leftarrow> name_ptr; Some (comms_add_new_subtest binary name c) }
         | _ \<Rightarrow> Some c);
       let c2 = comms_inject_subtest_end_log SUBTEST_RESULT name_ptr (deref packet result_q) (deref packet time_q) c1;
       let c3 = c2\<lparr>nextoutidx := length (outbuf c2), nexterridx := length (errbuf c2)\<rparr>;
       c4 \<leftarrow> (if subtestresult c3 = None then do {
           result \<leftarrow> deref packet result_q;
           (case parse_result_string result of
              (mapped, None) \<Rightarrow> do {
                t \<leftarrow> deref packet time_q;
                Some (c3\<lparr>subtestresult := Some mapped, subtest_execution_time := Strtod t\<rparr>) }
            | (mapped, Some _) \<Rightarrow> None) }
         else Some c3);
       Some (c4\<lparr>cstate := STATE_BETWEEN_SUBTESTS\<rparr>, True) })"

definition comms_handle_dynamic_subtest_start :: "bytes \<Rightarrow> comms_context handler" where
  "comms_handle_dynamic_subtest_start binary packet helper c =
    (let name_ptr = deref packet (first_field helper) in
     if cstate c = STATE_INITIAL \<or> cstate c = STATE_EXITED \<or> cstate c = STATE_AFTER_EXEC then Some (c, False)
     else if cstate c = STATE_BETWEEN_SUBTESTS then
       Some (append_err (snprintf_buf 512 (10 # str ''runner: Dynamic subtest '' @ show_cstr name_ptr @
         str '' started when not inside a subtest. This is a test bug.'' @ [10])) c, True)
     else do {
       let c1 = (if cstate c = STATE_DYNAMIC_SUBTEST_STARTED then
           append_err (snprintf_buf 512 (10 # str ''runner: Dynamic subtest '' @ show_cstr (current_dynamic_subtest_name c) @
             str '' already running when dynamic subtest '' @ show_cstr name_ptr @ str '' starts. This is a test bug.'' @ [10])) c
         else c);
       c2 \<leftarrow> (if cstate c = STATE_DYNAMIC_SUBTEST_STARTED \<or> cstate c = STATE_BETWEEN_DYNAMIC_SUBTESTS
         then comms_finish_dynamic_subtest c1 else Some c1);
       name \<leftarrow> name_ptr;
       c3 \<leftarrow> comms_add_new_dynamic_subtest binary name c2;
       let c4 = comms_inject_subtest_start_log STARTING_DYNAMIC_SUBTEST name c3;
       Some (c4\<lparr>dynamicsubtestresult := None, cstate := STATE_DYNAMIC_SUBTEST_STARTED\<rparr>, True) })"

definition comms_handle_dynamic_subtest_result :: "bytes \<Rightarrow> comms_context handler" where
  "comms_handle_dynamic_subtest_result binary packet helper c =
    (let (name_q, result_q, time_q) = result_fields helper; name_ptr = deref packet name_q in
     if cstate c = STATE_INITIAL \<or> cstate c = STATE_EXITED \<or> cstate c = STATE_AFTER_EXEC then Some (c, False)
     else if cstate c = STATE_BETWEEN_SUBTESTS then
       Some (append_err (snprintf_buf 512 (10 # str ''runner: Dynamic subtest '' @ show_cstr name_ptr @
         str '' result when not inside a subtest. This is a test bug.'' @ [10])) c, True)
     else do {
       c1 \<leftarrow> (case cstate c of
           STATE_BETWEEN_DYNAMIC_SUBTESTS \<Rightarrow> do {
             c1 \<leftarrow> comms_finish_dynamic_subtest c; name \<leftarrow> name_ptr; comms_add_new_dynamic_subtest binary name c1 }
         | STATE_SUBTEST_STARTED \<Rightarrow> do { name \<leftarrow> name_ptr; comms_add_new_dynamic_subtest binary name c }
         | _ \<Rightarrow> Some c);
       let c2 = comms_inject_subtest_end_log DYNAMIC_SUBTEST_RESULT name_ptr (deref packet result_q) (deref packet time_q) c1;
       let c3 = c2\<lparr>nextdynoutidx := length (outbuf c2), nextdynerridx := length (errbuf c2)\<rparr>;
       c4 \<leftarrow> (if dynamicsubtestresult c3 = None then do {
           result \<leftarrow> deref packet result_q;
           (case parse_result_string result of
              (mapped, None) \<Rightarrow> do {
                t \<leftarrow> deref packet time_q;
                Some (c3\<lparr>dynamicsubtestresult := Some mapped, dynamic_subtest_execution_time := Strtod t\<rparr>) }
            | (mapped, Some _) \<Rightarrow> None) }
         else Some c3);
       Some (c4\<lparr>cstate := STATE_BETWEEN_DYNAMIC_SUBTESTS\<rparr>, True) })"

definition comms_handle_versionstring :: "comms_context handler" where
  "comms_handle_versionstring packet helper c = do {
     s \<leftarrow> deref packet (first_field helper); Some (c\<lparr>igt_version := Some s\<rparr>, True) }"

definition comms_handle_result_override :: "comms_context handler" where
  "comms_handle_result_override packet helper c = do {
     s \<leftarrow> deref packet (first_field helper);
     let c1 = (if current_dynamic_subtest c \<noteq> None then c\<lparr>dynamicsubtestresult := Some s\<rparr> else c);
     Some (c1\<lparr>subtestresult := Some s\<rparr>, True) }"

definition results_visitor :: "job_list_entry \<Rightarrow> comms_context comms_visitor" where
  "results_visitor entry = \<lparr>visit_log = Some comms_handle_log, visit_exec = Some (comms_handle_exec),
    visit_exit = Some (comms_handle_exit entry),
    visit_subtest_start = Some (comms_handle_subtest_start (entry_binary entry)),
    visit_subtest_result = Some (comms_handle_subtest_result (entry_binary entry)),
    visit_dynamic_subtest_start = Some (comms_handle_dynamic_subtest_start (entry_binary entry)),
    visit_dynamic_subtest_result = Some (comms_handle_dynamic_subtest_result (entry_binary entry)),
    visit_versionstring = Some comms_handle_versionstring, visit_result_override = Some comms_handle_result_override\<rparr>"

type_synonym totals = "bytes \<rightharpoonup> (bytes \<rightharpoonup> int)"

record results =
  res_tests :: tests
  res_totals :: totals
  res_runtimes :: tests

definition new_context :: "job_list_entry \<Rightarrow> subtest list \<Rightarrow> results \<Rightarrow> comms_context" where
  "new_context entry subtests results =
    \<lparr>cstate = STATE_INITIAL, current_test = None, current_dynamic_subtest = None, current_subtest_name = None,
     current_dynamic_subtest_name = None, outbuf = [], errbuf = [], outidx = 0, nextoutidx = 0, erridx = 0, nexterridx = 0,
     dynoutidx = 0, nextdynoutidx = 0, dynerridx = 0, nextdynerridx = 0, igt_version = None, subtestresult = None,
     dynamicsubtestresult = None, subtest_execution_time = Zero, dynamic_subtest_execution_time = Zero, cmdline = None,
     exitcode = 0, ctx_subtests = subtests, subtest_at = None, ctx_tests = res_tests results,
     ctx_runtimes = get_or_create_json_object (res_runtimes results) (generate_piglit_name (entry_binary entry) None 256)\<rparr>"

definition finish_all :: "comms_context \<Rightarrow> comms_context option" where
  "finish_all c = do {
     c1 \<leftarrow> (if current_dynamic_subtest c \<noteq> None then comms_finish_dynamic_subtest c else Some c);
     if current_test c1 \<noteq> None then comms_finish_subtest c1 else Some c1 }"

definition fill_from_comms :: "bytes option \<Rightarrow> job_list_entry \<Rightarrow> subtest list \<Rightarrow> results \<Rightarrow>
    (comms_parse \<times> subtest list \<times> results) option" where
  "fill_from_comms f entry subtests results = (case f of
       None \<Rightarrow> Some (COMMSPARSE_EMPTY, subtests, results)
     | Some dump \<Rightarrow> do {
         (ret, c) \<leftarrow> comms_read_dump (Dump dump) (results_visitor entry) (new_context entry subtests results);
         c1 \<leftarrow> finish_all c;
         Some (ret, ctx_subtests c1, results\<lparr>res_tests := ctx_tests c1, res_runtimes := ctx_runtimes c1\<rparr>) })"

end
