(* ===== verification/Comms_Results.thy ===== *)
theory Comms_Results
  imports Resultgen
begin

text \<open>
  What the state machine over the packets of a test guarantees whatever the test sends: the indices stay
  inside the buffers, the current tests have objects, and an object without a result is a current one.
\<close>

subsection \<open>What the handlers read\<close>

lemma deref_pointer [simp]: "deref p (Some q) = Some (cstring_at (pkt_data p) q)"
  by (simp add: deref_def)

lemma says_types:
  assumes "says p m"
  shows "helper_typed (message_type m) (helper_fields (read_runnerpacket p))"
    "pkt_type p = message_type m" "helper_number (helper_fields (read_runnerpacket p)) = message_number m"
    "helper_texts (pkt_data p) (helper_fields (read_runnerpacket p)) = map Some (message_texts m)"
  using assms read_runnerpacket_typed(1) [of p] by (auto simp: says_def)

lemma says_log:
  assumes "says p (Msg_Log stream s)"
  obtains q where "log_fields (read_runnerpacket p) = (stream, q)" "deref p q = Some s"
proof -
  note S = says_types [OF assms]
  obtain st q where f: "helper_fields (read_runnerpacket p) = Log_Fields st (Some q)"
    using S(1) by (auto simp: helper_typed_def packettypes)
  have "(ucast st :: u32) = ucast stream" using S(3) f by simp
  then have "(ucast (ucast st :: u32) :: u8) = ucast (ucast stream :: u32)" by simp
  then have "st = stream" by (simp add: ucast_up_ucast_id is_up)
  then show thesis using S(4) f by (intro that [of "Some q"]) (simp_all add: log_fields_def ptr_text_def)
qed

lemma says_exit:
  assumes "says p (Msg_Exit code t)"
  obtains q where "exit_fields (read_runnerpacket p) = (code, q)" "deref p q = Some t"
proof -
  note S = says_types [OF assms]
  obtain cd q where f: "helper_fields (read_runnerpacket p) = Exit_Fields cd q"
    using S(1) by (auto simp: helper_typed_def packettypes)
  then show thesis using S(3,4) by (intro that [of q]) (simp_all add: exit_fields_def ptr_text_def deref_def)
qed

lemma says_first:
  "says p (Msg_Exec argv) \<Longrightarrow> deref p (first_field (read_runnerpacket p)) = Some (join_args argv)"
  "says p (Msg_Subtest_Start n) \<Longrightarrow> deref p (first_field (read_runnerpacket p)) = Some n"
  "says p (Msg_Dynamic_Subtest_Start n) \<Longrightarrow> deref p (first_field (read_runnerpacket p)) = Some n"
  "says p (Msg_Versionstring n) \<Longrightarrow> deref p (first_field (read_runnerpacket p)) = Some n"
  "says p (Msg_Resultoverride n) \<Longrightarrow> deref p (first_field (read_runnerpacket p)) = Some n"
  using says_types(1,4) [of p]
  by (fastforce simp: helper_typed_def packettypes first_field_def ptr_text_def)+

lemma says_result:
  assumes "says p (Msg_Subtest_Result n r t u) \<or> says p (Msg_Dynamic_Subtest_Result n r t u)"
  obtains a b c where "result_fields (read_runnerpacket p) = (a, b, c)" "deref p a = Some n" "deref p b = Some r" "deref p c = Some t"
proof -
  have "\<exists>a b c. result_fields (read_runnerpacket p) = (a, b, c) \<and> deref p a = Some n \<and> deref p b = Some r \<and> deref p c = Some t"
    using assms says_types(1,4) [of p]
    by (fastforce simp: helper_typed_def packettypes result_fields_def ptr_text_def deref_def)
  then show thesis using that by blast
qed

lemma visit_says:
  assumes "says p m"
  shows "visit_packet (results_visitor entry) p c = (case m of
       Msg_Log _ _ \<Rightarrow> comms_handle_log p (read_runnerpacket p) c
     | Msg_Exec _ \<Rightarrow> comms_handle_exec p (read_runnerpacket p) c
     | Msg_Exit _ _ \<Rightarrow> comms_handle_exit entry p (read_runnerpacket p) c
     | Msg_Subtest_Start _ \<Rightarrow> comms_handle_subtest_start (entry_binary entry) p (read_runnerpacket p) c
     | Msg_Subtest_Result _ _ _ _ \<Rightarrow> comms_handle_subtest_result (entry_binary entry) p (read_runnerpacket p) c
     | Msg_Dynamic_Subtest_Start _ \<Rightarrow> comms_handle_dynamic_subtest_start (entry_binary entry) p (read_runnerpacket p) c
     | Msg_Dynamic_Subtest_Result _ _ _ _ \<Rightarrow> comms_handle_dynamic_subtest_result (entry_binary entry) p (read_runnerpacket p) c
     | Msg_Versionstring _ \<Rightarrow> comms_handle_versionstring p (read_runnerpacket p) c
     | Msg_Resultoverride _ \<Rightarrow> comms_handle_result_override p (read_runnerpacket p) c)"
  using says_types(2) [OF assms]
  by (cases m) (simp_all add: visit_packet_def visitor_handler_def results_visitor_def packettypes)

lemma packets_exist:
  assumes "\<forall>m\<in>set ms. message_ok m"
  shows "\<exists>ps. list_all2 says ps ms"
  using assms
proof (induction ms)
  case (Cons m ms)
  then obtain ps where "list_all2 says ps ms" by auto
  moreover obtain p where "says p m" using packet_of_says [of m 1 1] Cons.prems by auto
  ultimately have "list_all2 says (p # ps) (m # ms)" by simp
  then show ?case by blast
qed simp

subsection \<open>The invariant\<close>

text \<open>\<open>base\<close> are the objects there were before the dump was read. The mark of the standard output is at most one
  byte behind that of the standard error, so that a read of the standard error at it ends in the buffer.\<close>

definition idx_ok :: "comms_context \<Rightarrow> bool" where
  "idx_ok c \<longleftrightarrow> outidx c \<le> length (outbuf c) \<and> nextoutidx c \<le> length (outbuf c) \<and> erridx c \<le> length (errbuf c) \<and>
    nexterridx c \<le> length (errbuf c) \<and> dynoutidx c \<le> length (outbuf c) \<and> nextdynoutidx c \<le> length (outbuf c) \<and>
    dynerridx c \<le> length (errbuf c) \<and> nextdynerridx c \<le> length (errbuf c) \<and>
    outidx c \<le> erridx c + 1 \<and> nextoutidx c \<le> nexterridx c + 1"

definition in_subtest :: "comms_context \<Rightarrow> bool" where
  "in_subtest c \<longleftrightarrow> (\<exists>i<length (ctx_subtests c). subtest_at c = Some i)"

definition state_ok :: "comms_context \<Rightarrow> bool" where
  "state_ok c \<longleftrightarrow> (case cstate c of
       STATE_INITIAL \<Rightarrow> False
     | STATE_AFTER_EXEC \<Rightarrow> current_test c = None \<and> current_dynamic_subtest c = None
     | STATE_SUBTEST_STARTED \<Rightarrow> current_test c \<noteq> None \<and> current_dynamic_subtest c = None \<and> in_subtest c
     | STATE_DYNAMIC_SUBTEST_STARTED \<Rightarrow> current_test c \<noteq> None \<and> current_dynamic_subtest c \<noteq> None \<and> in_subtest c
     | STATE_BETWEEN_DYNAMIC_SUBTESTS \<Rightarrow> current_test c \<noteq> None \<and> current_dynamic_subtest c \<noteq> None \<and> in_subtest c
     | STATE_BETWEEN_SUBTESTS \<Rightarrow> current_test c \<noteq> None
     | STATE_EXITED \<Rightarrow> current_test c \<noteq> None)"

definition tests_ok :: "tests \<Rightarrow> comms_context \<Rightarrow> bool" where
  "tests_ok base c \<longleftrightarrow> dom base \<subseteq> dom (ctx_tests c) \<and>
    (\<forall>k. current_test c = Some k \<or> current_dynamic_subtest c = Some k \<longrightarrow> k \<in> dom (ctx_tests c)) \<and>
    (\<forall>k obj. ctx_tests c k = Some obj \<longrightarrow>
      base k = Some obj \<or> obj_result obj \<noteq> None \<or> current_test c = Some k \<or> current_dynamic_subtest c = Some k)"

lemma read_buffer_ok: "n \<le> length buf \<Longrightarrow> i \<le> n + 1 \<Longrightarrow> \<exists>s. read_buffer buf i n = Some s"
  by (auto simp: read_buffer_def Let_def)

lemma obj_result_simps [simp]:
  "obj_result (add_runtime obj t) = obj_result obj" "obj_result (set_result obj (Some r)) = Some r"
  "obj_result (add_igt_version obj v) = obj_result obj"
  by (simp_all add: add_runtime_def set_result_def add_igt_version_def split: option.splits)

lemma finish_subtest_ok:
  assumes "idx_ok c" "tests_ok base c" "current_test c \<noteq> None"
  shows "\<exists>c'. comms_finish_subtest c = Some c' \<and> idx_ok c' \<and> tests_ok base c' \<and> current_test c' = None \<and>
    current_dynamic_subtest c' = current_dynamic_subtest c \<and> ctx_subtests c' = ctx_subtests c \<and> subtest_at c' = subtest_at c \<and>
    cstate c' = cstate c \<and> outbuf c' = outbuf c \<and> errbuf c' = errbuf c"
proof -
  obtain k where k: "current_test c = Some k" using assms(3) by auto
  obtain o_txt where o: "read_buffer (outbuf c) (outidx c) (outidx c) = Some o_txt"
    using read_buffer_ok [of "outidx c" "outbuf c" "outidx c"] assms(1) by (auto simp: idx_ok_def)
  obtain e_txt where e: "read_buffer (errbuf c) (outidx c) (erridx c) = Some e_txt"
    using read_buffer_ok [of "erridx c" "errbuf c" "outidx c"] assms(1) by (auto simp: idx_ok_def)
  show ?thesis using assms(1,2)
    by (auto simp: comms_finish_subtest_def k o e Let_def update_test_def idx_ok_def tests_ok_def)
qed

lemma finish_dynamic_ok:
  assumes "idx_ok c" "tests_ok base c" "current_dynamic_subtest c \<noteq> None"
  shows "\<exists>c'. comms_finish_dynamic_subtest c = Some c' \<and> idx_ok c' \<and> tests_ok base c' \<and> current_dynamic_subtest c' = None \<and>
    current_test c' = current_test c \<and> ctx_subtests c' = ctx_subtests c \<and> subtest_at c' = subtest_at c \<and> cstate c' = cstate c \<and>
    outbuf c' = outbuf c \<and> errbuf c' = errbuf c"
proof -
  obtain k where k: "current_dynamic_subtest c = Some k" using assms(3) by auto
  obtain o_txt where o: "read_buffer (outbuf c) (dynoutidx c) (dynoutidx c) = Some o_txt"
    using read_buffer_ok [of "dynoutidx c" "outbuf c" "dynoutidx c"] assms(1) by (auto simp: idx_ok_def)
  obtain e_txt where e: "read_buffer (errbuf c) (dynerridx c) (dynerridx c) = Some e_txt"
    using read_buffer_ok [of "dynerridx c" "errbuf c" "dynerridx c"] assms(1) by (auto simp: idx_ok_def)
  show ?thesis using assms(1,2)
    by (auto simp: comms_finish_dynamic_subtest_def k o e Let_def update_test_def idx_ok_def tests_ok_def)
qed

lemma idx_ok_append [simp]: "idx_ok c \<Longrightarrow> idx_ok (append_err s c)" "idx_ok c \<Longrightarrow> idx_ok (append_both s c)"
  by (simp_all add: idx_ok_def append_err_def append_both_def)

lemma append_simps [simp]:
  "tests_ok base (append_err s c) = tests_ok base c" "tests_ok base (append_both s c) = tests_ok base c"
  "in_subtest (append_err s c) = in_subtest c" "in_subtest (append_both s c) = in_subtest c"
  "cstate (append_err s c) = cstate c" "cstate (append_both s c) = cstate c"
  "current_test (append_err s c) = current_test c" "current_test (append_both s c) = current_test c"
  "current_dynamic_subtest (append_err s c) = current_dynamic_subtest c"
  "current_dynamic_subtest (append_both s c) = current_dynamic_subtest c"
  "subtestresult (append_both s c) = subtestresult c" "dynamicsubtestresult (append_both s c) = dynamicsubtestresult c"
  "ctx_subtests (append_err s c) = ctx_subtests c" "subtest_at (append_err s c) = subtest_at c"
  by (simp_all add: tests_ok_def in_subtest_def append_err_def append_both_def)

lemma inject_simps [simp]:
  "comms_inject_subtest_start_log pre n c = append_both (snprintf_buf 512 (pre @ n @ [10])) c"
  by (simp add: comms_inject_subtest_start_log_def)

lemma add_subtest_nonempty: "s \<noteq> [] \<Longrightarrow> add_subtest subs s \<noteq> []"
  by (auto simp: add_subtest_def Let_def)

lemma get_or_create_dom: "dom (get_or_create_json_object t k) = insert k (dom t)"
  "get_or_create_json_object t k j = Some obj \<Longrightarrow> t j = Some obj \<or> j = k"
  by (auto simp: get_or_create_json_object_def split: option.splits if_splits)

lemma tests_ok_new:
  assumes "tests_ok base c" "ctx_tests c' = get_or_create_json_object (ctx_tests c) k"
    "(current_test c' = Some k \<and> current_test c = None \<and> current_dynamic_subtest c' = current_dynamic_subtest c) \<or>
     (current_dynamic_subtest c' = Some k \<and> current_dynamic_subtest c = None \<and> current_test c' = current_test c)"
  shows "tests_ok base c'"
  unfolding tests_ok_def assms(2)
proof (intro conjI allI impI)
  show "dom base \<subseteq> dom (get_or_create_json_object (ctx_tests c) k)" using assms(1) by (auto simp: get_or_create_dom tests_ok_def)
  fix j assume "current_test c' = Some j \<or> current_dynamic_subtest c' = Some j"
  then show "j \<in> dom (get_or_create_json_object (ctx_tests c) k)"
    using assms(1,3) by (auto simp: get_or_create_dom tests_ok_def)
next
  fix j obj assume "get_or_create_json_object (ctx_tests c) k j = Some obj"
  then have "ctx_tests c j = Some obj \<or> j = k" by (rule get_or_create_dom(2))
  then show "base j = Some obj \<or> obj_result obj \<noteq> None \<or> current_test c' = Some j \<or> current_dynamic_subtest c' = Some j"
    using assms(1) unfolding tests_ok_def using assms(3) by (metis option.distinct(1) option.inject)
qed

lemma add_new_subtest_ok:
  fixes binary n :: bytes and c :: comms_context
  assumes "idx_ok c" "tests_ok base c" "current_test c = None" "n \<noteq> []"
  defines "c' \<equiv> comms_add_new_subtest binary n c"
  shows "idx_ok c'" "tests_ok base c'" "current_test c' \<noteq> None" "in_subtest c'"
    "current_dynamic_subtest c' = current_dynamic_subtest c" "cstate c' = cstate c"
    "outbuf c' = outbuf c" "errbuf c' = errbuf c"
proof -
  let ?k = "generate_piglit_name binary (Some n) 256"
  show "tests_ok base c'"
    by (rule tests_ok_new [OF assms(2), of c' ?k]) (use assms(3) in \<open>simp_all add: c'_def comms_add_new_subtest_def Let_def\<close>)
  show "idx_ok c'" using assms(1) by (simp add: c'_def comms_add_new_subtest_def Let_def idx_ok_def)
  show "in_subtest c'" using add_subtest_nonempty [OF assms(4), of "ctx_subtests c"]
    by (simp add: c'_def comms_add_new_subtest_def Let_def in_subtest_def)
qed (simp_all add: c'_def comms_add_new_subtest_def Let_def)

lemma add_new_dynamic_ok:
  assumes "idx_ok c" "tests_ok base c" "current_dynamic_subtest c = None" "in_subtest c"
  shows "\<exists>c'. comms_add_new_dynamic_subtest binary n c = Some c' \<and> idx_ok c' \<and> tests_ok base c' \<and>
    current_dynamic_subtest c' \<noteq> None \<and> in_subtest c' \<and> current_test c' = current_test c \<and> cstate c' = cstate c"
proof -
  obtain i where i: "subtest_at c = Some i" "i < length (ctx_subtests c)" using assms(4) by (auto simp: in_subtest_def)
  let ?k = "generate_piglit_name_for_dynamic (generate_piglit_name binary (current_subtest_name c) 256) n 256"
  let ?c = "c\<lparr>ctx_subtests := (ctx_subtests c)[i := add_dynamic_subtest (ctx_subtests c ! i) n],
      current_dynamic_subtest := Some ?k, ctx_tests := get_or_create_json_object (ctx_tests c) ?k, current_dynamic_subtest_name := Some n\<rparr>"
  have "comms_add_new_dynamic_subtest binary n c = Some ?c" by (simp add: comms_add_new_dynamic_subtest_def i Let_def)
  moreover have "tests_ok base ?c" by (rule tests_ok_new [OF assms(2), of _ ?k]) (use assms(3) in simp_all)
  moreover have "idx_ok ?c" "in_subtest ?c" using assms(1) i by (simp_all add: idx_ok_def in_subtest_def)
  ultimately show ?thesis by simp
qed

subsection \<open>The invariant is kept\<close>

definition comms_inv :: "tests \<Rightarrow> comms_context \<Rightarrow> bool" where
  "comms_inv base c \<longleftrightarrow> idx_ok c \<and> state_ok c \<and> tests_ok base c"

definition kept :: "tests \<Rightarrow> (comms_context \<times> bool) option \<Rightarrow> bool" where
  "kept base r \<longleftrightarrow> (\<exists>c b. r = Some (c, b) \<and> comms_inv base c)"

lemma kept_Some [simp]: "kept base (Some (c, b)) = comms_inv base c"
  by (simp add: kept_def)

text \<open>What a test can send that the handlers cope with: subtests have names, and the text of a result has no
  running time in parentheses behind it.\<close>

definition msg_fine :: "message \<Rightarrow> bool" where
  "msg_fine m \<longleftrightarrow> (case m of
       Msg_Exec _ \<Rightarrow> False
     | Msg_Subtest_Start n \<Rightarrow> n \<noteq> []
     | Msg_Subtest_Result n r _ _ \<Rightarrow> n \<noteq> [] \<and> snd (parse_result_string r) = None
     | Msg_Dynamic_Subtest_Result _ r _ _ \<Rightarrow> snd (parse_result_string r) = None
     | _ \<Rightarrow> True)"

lemma comms_inv_cong:
  assumes "comms_inv base c" "outbuf c' = outbuf c @ s" "errbuf c' = errbuf c @ t"
    "outidx c' = outidx c" "nextoutidx c' \<le> length (outbuf c')" "erridx c' = erridx c" "nexterridx c' \<le> length (errbuf c')"
    "dynoutidx c' = dynoutidx c" "nextdynoutidx c' \<le> length (outbuf c')" "dynerridx c' = dynerridx c" "nextdynerridx c' \<le> length (errbuf c')"
    "nextoutidx c' \<le> nexterridx c' + 1" "cstate c' = cstate c" "current_test c' = current_test c" "current_dynamic_subtest c' = current_dynamic_subtest c"
    "ctx_subtests c' = ctx_subtests c" "subtest_at c' = subtest_at c" "ctx_tests c' = ctx_tests c"
  shows "comms_inv base c'"
  using assms by (auto simp: comms_inv_def idx_ok_def state_ok_def in_subtest_def tests_ok_def split: comms_state_t.splits)

lemma handle_log_ok:
  assumes "comms_inv base c" "says p (Msg_Log stream s)"
  shows "kept base (comms_handle_log p (read_runnerpacket p) c)"
proof -
  obtain q where q: "log_fields (read_runnerpacket p) = (stream, q)" "deref p q = Some s" by (rule says_log [OF assms(2)])
  have i: "idx_ok c" using assms(1) by (simp add: comms_inv_def)
  show ?thesis
  proof (cases "stream = 1")
    case True
    have "comms_inv base (c\<lparr>outbuf := outbuf c @ s\<rparr>)"
      by (rule comms_inv_cong [OF assms(1), of _ s "[]"]) (use i in \<open>simp_all add: idx_ok_def\<close>)
    then show ?thesis using True by (simp add: comms_handle_log_def q)
  next
    case False
    have "comms_inv base (c\<lparr>errbuf := errbuf c @ s\<rparr>)"
      by (rule comms_inv_cong [OF assms(1), of _ "[]" s]) (use i in \<open>simp_all add: idx_ok_def\<close>)
    then show ?thesis using False by (simp add: comms_handle_log_def q)
  qed
qed

lemma handle_version_ok:
  assumes "comms_inv base c" "says p (Msg_Versionstring s)"
  shows "kept base (comms_handle_versionstring p (read_runnerpacket p) c)"
proof -
  have i: "idx_ok c" using assms(1) by (simp add: comms_inv_def)
  have "comms_inv base (c\<lparr>igt_version := Some s\<rparr>)"
    by (rule comms_inv_cong [OF assms(1), of _ "[]" "[]"]) (use i in \<open>simp_all add: idx_ok_def\<close>)
  then show ?thesis by (simp add: comms_handle_versionstring_def says_first(4) [OF assms(2)])
qed

lemma handle_override_ok:
  assumes "comms_inv base c" "says p (Msg_Resultoverride s)"
  shows "kept base (comms_handle_result_override p (read_runnerpacket p) c)"
proof -
  have i: "idx_ok c" using assms(1) by (simp add: comms_inv_def)
  let ?c = "(if current_dynamic_subtest c \<noteq> None then c\<lparr>dynamicsubtestresult := Some s\<rparr> else c)\<lparr>subtestresult := Some s\<rparr>"
  have "comms_inv base ?c"
    by (rule comms_inv_cong [OF assms(1), of _ "[]" "[]"]) (use i in \<open>simp_all add: idx_ok_def\<close>)
  then show ?thesis by (simp add: comms_handle_result_override_def says_first(5) [OF assms(2)] Let_def)
qed


lemma comms_invI:
  "idx_ok c \<Longrightarrow> tests_ok base c \<Longrightarrow> state_ok c \<Longrightarrow> comms_inv base c"
  by (simp add: comms_inv_def)

lemma handle_exit_ok:
  assumes "comms_inv base c" "says p (Msg_Exit code s)"
  shows "kept base (comms_handle_exit entry p (read_runnerpacket p) c)"
proof -
  obtain q where q: "exit_fields (read_runnerpacket p) = (code, q)" "deref p q = Some s" by (rule says_exit [OF assms(2)])
  have i: "idx_ok c" and t: "tests_ok base c" and st: "state_ok c" using assms(1) by (simp_all add: comms_inv_def)
  obtain c1 where h: "comms_handle_exit entry p (read_runnerpacket p) c =
      Some (c1\<lparr>exitcode := sint code, cstate := STATE_EXITED, ctx_runtimes := (ctx_runtimes c1)
        (generate_piglit_name (entry_binary entry) None 256 := map_option (\<lambda>obj. add_runtime obj (Strtod s))
          (ctx_runtimes c1 (generate_piglit_name (entry_binary entry) None 256)))\<rparr>, True)"
      and c1: "idx_ok c1" "tests_ok base c1" "current_test c1 \<noteq> None"
  proof (cases "cstate c = STATE_AFTER_EXEC")
    case True
    let ?n = "case entry_subtests entry of [] \<Rightarrow> None | s # _ \<Rightarrow> Some s"
    let ?k = "generate_piglit_name (entry_binary entry) ?n 256"
    let ?c = "c\<lparr>ctx_subtests := (case ?n of None \<Rightarrow> ctx_subtests c | Some s \<Rightarrow> add_subtest (ctx_subtests c) s),
        current_test := Some ?k, ctx_tests := get_or_create_json_object (ctx_tests c) ?k,
        subtestresult := (case subtestresult c of None \<Rightarrow> Some (result_from_exitcode (sint code)) | Some r \<Rightarrow> Some r)\<rparr>"
    have "tests_ok base ?c"
      by (rule tests_ok_new [OF t, of _ ?k]) (use st True in \<open>simp_all add: state_ok_def\<close>)
    moreover have "idx_ok ?c" using i by (simp add: idx_ok_def)
    ultimately show thesis using True by (intro that [of ?c]) (simp_all add: comms_handle_exit_def q Let_def)
  next
    case False
    let ?c = "if sint code = IGT_EXIT_ABORT \<or> sint code = GRACEFUL_EXITCODE then
        (let result = (if sint code = IGT_EXIT_ABORT then str ''abort'' else str ''notrun'') in
         c\<lparr>subtestresult := Some result, dynamicsubtestresult := Some result\<rparr>) else c"
    have "idx_ok ?c" "tests_ok base ?c" "current_test ?c \<noteq> None"
      using i t st False by (auto simp: idx_ok_def tests_ok_def state_ok_def Let_def split: comms_state_t.splits)
    then show thesis using False by (intro that [of ?c]) (simp_all add: comms_handle_exit_def q Let_def)
  qed
  have "comms_inv base (c1\<lparr>exitcode := sint code, cstate := STATE_EXITED, ctx_runtimes := r\<rparr>)" for r
    using c1 by (simp add: comms_inv_def idx_ok_def tests_ok_def state_ok_def)
  then show ?thesis using h by simp
qed

lemma handle_subtest_start_ok:
  assumes "comms_inv base c" "says p (Msg_Subtest_Start n)" "n \<noteq> []"
  shows "kept base (comms_handle_subtest_start binary p (read_runnerpacket p) c)"
proof (cases "cstate c = STATE_INITIAL \<or> cstate c = STATE_EXITED")
  case True
  then show ?thesis using assms(1) by (simp add: comms_handle_subtest_start_def)
next
  case run: False
  have i: "idx_ok c" and t: "tests_ok base c" and st: "state_ok c" using assms(1) by (simp_all add: comms_inv_def)
  have fin: "\<exists>c3. (if current_dynamic_subtest d \<noteq> None then comms_finish_dynamic_subtest d else Some d) = Some c3 \<and>
      idx_ok c3 \<and> tests_ok base c3 \<and> current_dynamic_subtest c3 = None \<and> current_test c3 = current_test d"
    if "idx_ok d" "tests_ok base d" for d
    using that finish_dynamic_ok [of d base] by auto
  define pre where "pre = (if cstate c = STATE_AFTER_EXEC then Some c
         else do {
           let errmsg = snprintf_buf 512 (10 # str ''runner: Subtest '' @ show_cstr (current_subtest_name c) @
             str '' already running when subtest '' @ show_cstr (Some n) @ str '' starts. This is a test bug.'' @ [10]);
           let c1 = (if cstate c \<noteq> STATE_BETWEEN_SUBTESTS then append_err errmsg c else c);
           c2 \<leftarrow> (if cstate c = STATE_DYNAMIC_SUBTEST_STARTED \<or> cstate c = STATE_BETWEEN_DYNAMIC_SUBTESTS
             then comms_finish_dynamic_subtest c1 else Some c1);
           c3 \<leftarrow> (if current_dynamic_subtest c2 \<noteq> None then comms_finish_dynamic_subtest c2 else Some c2);
           comms_finish_subtest c3 })"
  have "\<exists>c1. pre = Some c1 \<and> idx_ok c1 \<and> tests_ok base c1 \<and> current_test c1 = None \<and> current_dynamic_subtest c1 = None"
  proof (cases "cstate c = STATE_AFTER_EXEC")
    case True
    then show ?thesis using i t st by (simp add: pre_def state_ok_def)
  next
    case False
    define d where "d = (if cstate c \<noteq> STATE_BETWEEN_SUBTESTS then append_err (snprintf_buf 512 (10 # str ''runner: Subtest '' @
      show_cstr (current_subtest_name c) @ str '' already running when subtest '' @ show_cstr (Some n) @
      str '' starts. This is a test bug.'' @ [10])) c else c)"
    have d: "idx_ok d" "tests_ok base d" "current_test d \<noteq> None" "current_dynamic_subtest d = current_dynamic_subtest c"
      using i t st False run by (auto simp: d_def state_ok_def split: comms_state_t.splits)
    have "\<exists>c2. (if cstate c = STATE_DYNAMIC_SUBTEST_STARTED \<or> cstate c = STATE_BETWEEN_DYNAMIC_SUBTESTS
             then comms_finish_dynamic_subtest d else Some d) = Some c2 \<and> idx_ok c2 \<and> tests_ok base c2 \<and>
             current_test c2 = current_test d"
      using d st finish_dynamic_ok [of d base] by (auto simp: state_ok_def)
    then obtain c2 where c2: "(if cstate c = STATE_DYNAMIC_SUBTEST_STARTED \<or> cstate c = STATE_BETWEEN_DYNAMIC_SUBTESTS
             then comms_finish_dynamic_subtest d else Some d) = Some c2" "idx_ok c2" "tests_ok base c2"
             "current_test c2 = current_test d" by blast
    obtain c3 where c3: "(if current_dynamic_subtest c2 \<noteq> None then comms_finish_dynamic_subtest c2 else Some c2) = Some c3"
      "idx_ok c3" "tests_ok base c3" "current_dynamic_subtest c3 = None" "current_test c3 = current_test c2"
      using fin [OF c2(2,3)] by blast
    have "current_test c3 \<noteq> None" using c3(5) c2(4) d(3) by simp
    from finish_subtest_ok [OF c3(2,3) this] obtain c4 where c4: "comms_finish_subtest c3 = Some c4"
      "idx_ok c4" "tests_ok base c4" "current_test c4 = None" "current_dynamic_subtest c4 = current_dynamic_subtest c3" by blast
    have "pre = Some c4" using False c2(1) c3(1) c4(1) by (simp only: pre_def Let_def d_def [symmetric] if_False option.simps bind.bind_lunit)
    then show ?thesis using c3(4) c4 by simp
  qed
  then obtain c1 where c1: "pre = Some c1" "idx_ok c1" "tests_ok base c1" "current_test c1 = None" "current_dynamic_subtest c1 = None"
    by blast
  let ?c = "(comms_inject_subtest_start_log STARTING_SUBTEST n (comms_add_new_subtest binary n c1))
    \<lparr>subtestresult := None, cstate := STATE_SUBTEST_STARTED\<rparr>"
  note N = add_new_subtest_ok [OF c1(2-4) assms(3), of binary]
  have "idx_ok (append_both s (comms_add_new_subtest binary n c1))" for s using N(1) by simp
  then have "comms_inv base ?c" using N c1(5)
    by (auto simp: comms_inv_def idx_ok_def tests_ok_def state_ok_def in_subtest_def append_both_def)
  moreover have "comms_handle_subtest_start binary p (read_runnerpacket p) c = Some (?c, True)"
    using run c1(1) unfolding pre_def
    by (simp only: comms_handle_subtest_start_def says_first(2) [OF assms(2)] Let_def if_False option.simps bind.bind_lunit)
  ultimately show ?thesis by simp
qed


lemma handle_subtest_result_ok:
  assumes "comms_inv base c" "says p (Msg_Subtest_Result n r t u)" "n \<noteq> []" "snd (parse_result_string r) = None"
    and surplus: "length (outbuf c) \<le> length (errbuf c) + 1"
  shows "kept base (comms_handle_subtest_result binary p (read_runnerpacket p) c)"
proof (cases "cstate c = STATE_INITIAL \<or> cstate c = STATE_EXITED")
  case True
  then show ?thesis using assms(1) by (simp add: comms_handle_subtest_result_def split_beta Let_def)
next
  case run: False
  obtain qa qb qc where q: "result_fields (read_runnerpacket p) = (qa, qb, qc)" "deref p qa = Some n" "deref p qb = Some r" "deref p qc = Some t"
    using says_result assms(2) by blast
  obtain mapped where m: "parse_result_string r = (mapped, None)" using assms(4) by (cases "parse_result_string r") auto
  have i: "idx_ok c" and t: "tests_ok base c" and st: "state_ok c" using assms(1) by (simp_all add: comms_inv_def)
  define pre where "pre = (case cstate c of
           STATE_DYNAMIC_SUBTEST_STARTED \<Rightarrow>
             comms_finish_dynamic_subtest (append_err (snprintf_buf 512 (10 # str ''runner: Dynamic subtest '' @
               show_cstr (current_dynamic_subtest_name c) @ str '' still running when subtest '' @ show_cstr (Some n) @
               str '' ended. This is a test bug.'' @ [10])) c)
         | STATE_BETWEEN_SUBTESTS \<Rightarrow> do {
             c1 \<leftarrow> comms_finish_subtest c; name \<leftarrow> Some n; Some (comms_add_new_subtest binary name c1) }
         | STATE_AFTER_EXEC \<Rightarrow> do { name \<leftarrow> Some n; Some (comms_add_new_subtest binary name c) }
         | _ \<Rightarrow> Some c)"
  have "\<exists>c1. pre = Some c1 \<and> idx_ok c1 \<and> tests_ok base c1 \<and> current_test c1 \<noteq> None \<and>
      length (outbuf c1) \<le> length (errbuf c1) + 1"
  proof (cases "cstate c")
    case STATE_DYNAMIC_SUBTEST_STARTED
    let ?d = "append_err (snprintf_buf 512 (10 # str ''runner: Dynamic subtest '' @
               show_cstr (current_dynamic_subtest_name c) @ str '' still running when subtest '' @ show_cstr (Some n) @
               str '' ended. This is a test bug.'' @ [10])) c"
    have "idx_ok ?d" "tests_ok base ?d" "current_dynamic_subtest ?d \<noteq> None" "current_test ?d \<noteq> None"
      using i t st STATE_DYNAMIC_SUBTEST_STARTED by (simp_all add: state_ok_def)
    moreover have "length (outbuf ?d) \<le> length (errbuf ?d) + 1" using surplus by (simp add: append_err_def)
    ultimately show ?thesis using finish_dynamic_ok [of ?d base]
      by (auto simp: pre_def STATE_DYNAMIC_SUBTEST_STARTED)
  next
    case STATE_BETWEEN_SUBTESTS
    then have "current_test c \<noteq> None" using st by (simp add: state_ok_def)
    from finish_subtest_ok [OF i t this] obtain c1 where c1: "comms_finish_subtest c = Some c1"
      "idx_ok c1" "tests_ok base c1" "current_test c1 = None" "outbuf c1 = outbuf c" "errbuf c1 = errbuf c" by blast
    from add_new_subtest_ok [OF c1(2-4) assms(3), of binary] c1(5,6) surplus show ?thesis
      by (simp add: pre_def STATE_BETWEEN_SUBTESTS c1(1))
  next
    case STATE_AFTER_EXEC
    then have "current_test c = None" using st by (simp add: state_ok_def)
    from add_new_subtest_ok [OF i t this assms(3), of binary] surplus show ?thesis by (simp add: pre_def STATE_AFTER_EXEC)
  qed (use i t st run surplus in \<open>simp_all add: pre_def state_ok_def\<close>)
  then obtain c1 where c1: "pre = Some c1" "idx_ok c1" "tests_ok base c1" "current_test c1 \<noteq> None"
    "length (outbuf c1) \<le> length (errbuf c1) + 1" by blast
  define c2 where "c2 = comms_inject_subtest_end_log SUBTEST_RESULT (Some n) (Some r) (Some t) c1"
  have c2: "idx_ok c2" "tests_ok base c2" "current_test c2 \<noteq> None" using c1
    by (simp_all add: c2_def comms_inject_subtest_end_log_def)
  have "length (outbuf c2) \<le> length (errbuf c2) + 1" using c1(5)
    by (simp add: c2_def comms_inject_subtest_end_log_def append_both_def)
  define c3 where "c3 = c2\<lparr>nextoutidx := length (outbuf c2), nexterridx := length (errbuf c2)\<rparr>"
  have c3: "idx_ok c3" "tests_ok base c3" "current_test c3 \<noteq> None" using c2 \<open>length (outbuf c2) \<le> length (errbuf c2) + 1\<close>
    by (simp_all add: c3_def idx_ok_def tests_ok_def)
  let ?c = "(if subtestresult c3 = None then c3\<lparr>subtestresult := Some mapped, subtest_execution_time := Strtod t\<rparr> else c3)
    \<lparr>cstate := STATE_BETWEEN_SUBTESTS\<rparr>"
  have "comms_inv base ?c" using c3 by (auto simp: comms_inv_def idx_ok_def tests_ok_def state_ok_def)
  moreover have "comms_handle_subtest_result binary p (read_runnerpacket p) c = Some (?c, True)"
    using run c1(1) unfolding pre_def
    by (simp only: comms_handle_subtest_result_def q Let_def prod.case if_False bind.bind_lunit c2_def [symmetric] c3_def [symmetric])
      (simp add: m)
  ultimately show ?thesis by simp
qed

lemma handle_dynamic_start_ok:
  assumes "comms_inv base c" "says p (Msg_Dynamic_Subtest_Start n)"
  shows "kept base (comms_handle_dynamic_subtest_start binary p (read_runnerpacket p) c)"
proof (cases "cstate c = STATE_INITIAL \<or> cstate c = STATE_EXITED \<or> cstate c = STATE_AFTER_EXEC \<or> cstate c = STATE_BETWEEN_SUBTESTS")
  case True
  have "comms_inv base (append_err s c)" for s
    by (rule comms_inv_cong [OF assms(1), of _ "[]" s]) (use assms(1) in \<open>simp_all add: append_err_def comms_inv_def idx_ok_def\<close>)
  then show ?thesis using assms(1) True
    by (auto simp: comms_handle_dynamic_subtest_start_def Let_def)
next
  case run: False
  have i: "idx_ok c" and t: "tests_ok base c" and st: "state_ok c" using assms(1) by (simp_all add: comms_inv_def)
  define c1 where "c1 = (if cstate c = STATE_DYNAMIC_SUBTEST_STARTED then
           append_err (snprintf_buf 512 (10 # str ''runner: Dynamic subtest '' @ show_cstr (current_dynamic_subtest_name c) @
             str '' already running when dynamic subtest '' @ show_cstr (Some n) @ str '' starts. This is a test bug.'' @ [10])) c
         else c)"
  have c1: "idx_ok c1" "tests_ok base c1" "current_test c1 \<noteq> None" "in_subtest c1"
    "current_dynamic_subtest c1 = current_dynamic_subtest c"
    using i t st run by (auto simp: c1_def state_ok_def split: comms_state_t.splits)
  have "\<exists>c2. (if cstate c = STATE_DYNAMIC_SUBTEST_STARTED \<or> cstate c = STATE_BETWEEN_DYNAMIC_SUBTESTS
         then comms_finish_dynamic_subtest c1 else Some c1) = Some c2 \<and> idx_ok c2 \<and> tests_ok base c2 \<and>
         current_dynamic_subtest c2 = None \<and> in_subtest c2 \<and> current_test c2 \<noteq> None"
  proof (cases "current_dynamic_subtest c = None")
    case True
    then have "cstate c = STATE_SUBTEST_STARTED" using st run by (auto simp: state_ok_def split: comms_state_t.splits)
    then show ?thesis using c1 True by simp
  next
    case False
    then have "cstate c = STATE_DYNAMIC_SUBTEST_STARTED \<or> cstate c = STATE_BETWEEN_DYNAMIC_SUBTESTS"
      using st run by (auto simp: state_ok_def split: comms_state_t.splits)
    moreover have "current_dynamic_subtest c1 \<noteq> None" using False c1(5) by simp
    from finish_dynamic_ok [OF c1(1,2) this] obtain c2 where "comms_finish_dynamic_subtest c1 = Some c2"
      "idx_ok c2" "tests_ok base c2" "current_dynamic_subtest c2 = None" "current_test c2 = current_test c1"
      "ctx_subtests c2 = ctx_subtests c1" "subtest_at c2 = subtest_at c1" by blast
    ultimately show ?thesis using c1(3,4) by (simp add: in_subtest_def)
  qed
  then obtain c2 where c2: "(if cstate c = STATE_DYNAMIC_SUBTEST_STARTED \<or> cstate c = STATE_BETWEEN_DYNAMIC_SUBTESTS
         then comms_finish_dynamic_subtest c1 else Some c1) = Some c2" "idx_ok c2" "tests_ok base c2"
         "current_dynamic_subtest c2 = None" "in_subtest c2" "current_test c2 \<noteq> None" by blast
  from add_new_dynamic_ok [OF c2(2-5), of binary n] obtain c3 where c3: "comms_add_new_dynamic_subtest binary n c2 = Some c3"
    "idx_ok c3" "tests_ok base c3" "current_dynamic_subtest c3 \<noteq> None" "in_subtest c3" "current_test c3 = current_test c2" by blast
  define c4 where "c4 = comms_inject_subtest_start_log STARTING_DYNAMIC_SUBTEST n c3"
  have c4: "idx_ok c4" "tests_ok base c4" "current_dynamic_subtest c4 \<noteq> None" "in_subtest c4" "current_test c4 \<noteq> None"
    using c3 c2(6) by (simp_all add: c4_def)
  let ?c = "c4\<lparr>dynamicsubtestresult := None, cstate := STATE_DYNAMIC_SUBTEST_STARTED\<rparr>"
  have "comms_inv base ?c" using c4 by (auto simp: comms_inv_def idx_ok_def tests_ok_def state_ok_def in_subtest_def)
  moreover have "comms_handle_dynamic_subtest_start binary p (read_runnerpacket p) c = Some (?c, True)"
    using run c2(1) c3(1) unfolding c4_def c1_def
    by (simp only: comms_handle_dynamic_subtest_start_def says_first(3) [OF assms(2)] Let_def if_False option.simps bind.bind_lunit
      de_Morgan_disj simp_thms)
  ultimately show ?thesis by simp
qed


lemma handle_dynamic_result_ok:
  assumes "comms_inv base c" "says p (Msg_Dynamic_Subtest_Result n r t u)" "snd (parse_result_string r) = None"
  shows "kept base (comms_handle_dynamic_subtest_result binary p (read_runnerpacket p) c)"
proof (cases "cstate c = STATE_INITIAL \<or> cstate c = STATE_EXITED \<or> cstate c = STATE_AFTER_EXEC \<or> cstate c = STATE_BETWEEN_SUBTESTS")
  case True
  have "comms_inv base (append_err s c)" for s
    by (rule comms_inv_cong [OF assms(1), of _ "[]" s]) (use assms(1) in \<open>simp_all add: append_err_def comms_inv_def idx_ok_def\<close>)
  then show ?thesis using assms(1) True
    by (auto simp: comms_handle_dynamic_subtest_result_def Let_def split_beta)
next
  case run: False
  obtain qa qb qc where q: "result_fields (read_runnerpacket p) = (qa, qb, qc)" "deref p qa = Some n" "deref p qb = Some r" "deref p qc = Some t"
    using says_result assms(2) by blast
  obtain mapped where m: "parse_result_string r = (mapped, None)" using assms(3) by (cases "parse_result_string r") auto
  have i: "idx_ok c" and t: "tests_ok base c" and st: "state_ok c" using assms(1) by (simp_all add: comms_inv_def)
  define pre where "pre = (case cstate c of
           STATE_BETWEEN_DYNAMIC_SUBTESTS \<Rightarrow> do {
             c1 \<leftarrow> comms_finish_dynamic_subtest c; name \<leftarrow> Some n; comms_add_new_dynamic_subtest binary name c1 }
         | STATE_SUBTEST_STARTED \<Rightarrow> do { name \<leftarrow> Some n; comms_add_new_dynamic_subtest binary name c }
         | _ \<Rightarrow> Some c)"
  have "\<exists>c1. pre = Some c1 \<and> idx_ok c1 \<and> tests_ok base c1 \<and> current_test c1 \<noteq> None \<and> current_dynamic_subtest c1 \<noteq> None \<and> in_subtest c1"
  proof (cases "cstate c")
    case STATE_BETWEEN_DYNAMIC_SUBTESTS
    then have c: "current_dynamic_subtest c \<noteq> None" "current_test c \<noteq> None" "in_subtest c" using st by (simp_all add: state_ok_def)
    from finish_dynamic_ok [OF i t c(1)] obtain c1 where c1: "comms_finish_dynamic_subtest c = Some c1"
      "idx_ok c1" "tests_ok base c1" "current_dynamic_subtest c1 = None" "current_test c1 = current_test c"
      "ctx_subtests c1 = ctx_subtests c" "subtest_at c1 = subtest_at c" by blast
    have "in_subtest c1" using c(3) c1 by (simp add: in_subtest_def)
    from add_new_dynamic_ok [OF c1(2-4) this, of binary n] show ?thesis using c(2) c1(5)
      by (auto simp: pre_def STATE_BETWEEN_DYNAMIC_SUBTESTS c1(1))
  next
    case STATE_SUBTEST_STARTED
    then have c: "current_dynamic_subtest c = None" "current_test c \<noteq> None" "in_subtest c" using st by (simp_all add: state_ok_def)
    from add_new_dynamic_ok [OF i t c(1,3), of binary n] show ?thesis using c(2)
      by (auto simp: pre_def STATE_SUBTEST_STARTED)
  qed (use i t st run in \<open>simp_all add: pre_def state_ok_def\<close>)
  then obtain c1 where c1: "pre = Some c1" "idx_ok c1" "tests_ok base c1" "current_test c1 \<noteq> None"
    "current_dynamic_subtest c1 \<noteq> None" "in_subtest c1" by blast
  define c2 where "c2 = comms_inject_subtest_end_log DYNAMIC_SUBTEST_RESULT (Some n) (Some r) (Some t) c1"
  have c2: "idx_ok c2" "tests_ok base c2" "current_test c2 \<noteq> None" "current_dynamic_subtest c2 \<noteq> None" "in_subtest c2"
    using c1 by (simp_all add: c2_def comms_inject_subtest_end_log_def)
  define c3 where "c3 = c2\<lparr>nextdynoutidx := length (outbuf c2), nextdynerridx := length (errbuf c2)\<rparr>"
  have c3: "idx_ok c3" "tests_ok base c3" "current_test c3 \<noteq> None" "current_dynamic_subtest c3 \<noteq> None" "in_subtest c3"
    using c2 by (simp_all add: c3_def idx_ok_def tests_ok_def in_subtest_def)
  let ?c = "(if dynamicsubtestresult c3 = None then c3\<lparr>dynamicsubtestresult := Some mapped, dynamic_subtest_execution_time := Strtod t\<rparr> else c3)
    \<lparr>cstate := STATE_BETWEEN_DYNAMIC_SUBTESTS\<rparr>"
  have "comms_inv base ?c" using c3 by (auto simp: comms_inv_def idx_ok_def tests_ok_def state_ok_def in_subtest_def)
  moreover have "comms_handle_dynamic_subtest_result binary p (read_runnerpacket p) c = Some (?c, True)"
    using run c1(1) unfolding pre_def
    by (simp only: comms_handle_dynamic_subtest_result_def q Let_def prod.case if_False bind.bind_lunit c2_def [symmetric]
        c3_def [symmetric] de_Morgan_disj simp_thms) (simp add: m)
  ultimately show ?thesis by simp
qed

subsection \<open>What the handlers leave alone\<close>

text \<open>How many bytes the standard output is ahead of the standard error, and what a message adds to that. What
  the runner writes goes to both, or to the standard error only.\<close>

definition excess :: "comms_context \<Rightarrow> int" where
  "excess c = int (length (outbuf c)) - int (length (errbuf c))"

definition excess_of :: "message \<Rightarrow> int" where
  "excess_of m = (case m of Msg_Log stream s \<Rightarrow> if stream = 1 then int (length s) else - int (length s) | _ \<Rightarrow> 0)"

text \<open>The objects a test can write: those of the subtests and dynamic subtests of its binary that are named by
  its messages or by its job.\<close>

definition keys_of :: "bytes \<Rightarrow> bytes option set \<Rightarrow> bytes set \<Rightarrow> bytes set" where
  "keys_of binary N D = (\<lambda>n. generate_piglit_name binary n 256) ` N \<union>
     {generate_piglit_name_for_dynamic (generate_piglit_name binary n 256) d 256 | n d. n \<in> N \<and> d \<in> D}"

fun subtest_names :: "message \<Rightarrow> bytes set" where
  "subtest_names (Msg_Subtest_Start n) = {n}"
| "subtest_names (Msg_Subtest_Result n r t u) = {n}"
| "subtest_names _ = {}"

fun dynamic_names_of :: "message \<Rightarrow> bytes set" where
  "dynamic_names_of (Msg_Dynamic_Subtest_Start d) = {d}"
| "dynamic_names_of (Msg_Dynamic_Subtest_Result d r t u) = {d}"
| "dynamic_names_of _ = {}"

definition names_in :: "job_list_entry \<Rightarrow> message list \<Rightarrow> bytes option set" where
  "names_in entry ms = insert None (Some ` (set (entry_subtests entry) \<union> (\<Union>m\<in>set ms. subtest_names m)))"

definition frame_inv :: "tests \<Rightarrow> bytes \<Rightarrow> bytes option set \<Rightarrow> bytes set \<Rightarrow> comms_context \<Rightarrow> bool" where
  "frame_inv base binary N D c \<longleftrightarrow> (\<forall>k. k \<notin> keys_of binary N D \<longrightarrow> ctx_tests c k = base k) \<and>
    (\<forall>k. current_test c = Some k \<or> current_dynamic_subtest c = Some k \<longrightarrow> k \<in> keys_of binary N D) \<and>
    current_subtest_name c \<in> N"

lemma finish_frame:
  assumes "comms_finish_subtest c = Some c' \<or> comms_finish_dynamic_subtest c = Some c'" "frame_inv base binary N D c"
  shows "frame_inv base binary N D c' \<and> excess c' = excess c"
  using assms by (auto simp: comms_finish_subtest_def comms_finish_dynamic_subtest_def Let_def update_test_def frame_inv_def excess_def
      split: bind_splits)

lemma append_frame:
  "frame_inv base binary N D (append_err s c) = frame_inv base binary N D c"
  "frame_inv base binary N D (append_both s c) = frame_inv base binary N D c"
  "excess (append_err s c) \<le> excess c" "excess (append_both s c) = excess c"
  by (simp_all add: frame_inv_def append_err_def append_both_def excess_def)

lemma new_object_frame:
  "frame_inv base binary N D c \<Longrightarrow> Some n \<in> N \<Longrightarrow> frame_inv base binary N D (comms_add_new_subtest binary n c)"
  "excess (comms_add_new_subtest binary n c) = excess c"
  "frame_inv base binary N D c \<Longrightarrow> d \<in> D \<Longrightarrow> comms_add_new_dynamic_subtest binary d c = Some c' \<Longrightarrow>
    frame_inv base binary N D c' \<and> excess c' = excess c"
proof -
  assume "frame_inv base binary N D c" "Some n \<in> N"
  moreover have "generate_piglit_name binary (Some n) 256 \<in> keys_of binary N D" if "Some n \<in> N"
    using that by (simp add: keys_of_def)
  ultimately show "frame_inv base binary N D (comms_add_new_subtest binary n c)"
    by (auto simp: frame_inv_def comms_add_new_subtest_def Let_def get_or_create_json_object_def split: option.splits)
next
  show "excess (comms_add_new_subtest binary n c) = excess c" by (simp add: excess_def comms_add_new_subtest_def Let_def)
next
  assume f: "frame_inv base binary N D c" "d \<in> D" and a: "comms_add_new_dynamic_subtest binary d c = Some c'"
  have k: "generate_piglit_name_for_dynamic (generate_piglit_name binary (current_subtest_name c) 256) d 256 \<in> keys_of binary N D"
    using f by (auto simp: keys_of_def frame_inv_def)
  from a k f(1) show "frame_inv base binary N D c' \<and> excess c' = excess c"
    by (auto simp: comms_add_new_dynamic_subtest_def Let_def frame_inv_def excess_def get_or_create_json_object_def
        split: bind_splits option.splits)
qed

text \<open>A step that keeps the frame and adds no excess.\<close>

definition calm :: "tests \<Rightarrow> bytes \<Rightarrow> bytes option set \<Rightarrow> bytes set \<Rightarrow> comms_context \<Rightarrow> comms_context \<Rightarrow> bool" where
  "calm base binary N D c c' \<longleftrightarrow> (frame_inv base binary N D c \<longrightarrow> frame_inv base binary N D c') \<and> excess c' \<le> excess c"

lemma calm_refl [simp]: "calm base binary N D c c"
  by (simp add: calm_def)

lemma calm_trans: "calm base binary N D c c1 \<Longrightarrow> calm base binary N D c1 c2 \<Longrightarrow> calm base binary N D c c2"
  by (auto simp: calm_def)

lemma calm_steps:
  "comms_finish_subtest c = Some c' \<Longrightarrow> calm base binary N D c c'"
  "comms_finish_dynamic_subtest c = Some c' \<Longrightarrow> calm base binary N D c c'"
  "Some n \<in> N \<Longrightarrow> calm base binary N D c (comms_add_new_subtest binary n c)"
  "d \<in> D \<Longrightarrow> comms_add_new_dynamic_subtest binary d c = Some c' \<Longrightarrow> calm base binary N D c c'"
  "calm base binary N D c (append_err s c)"
  "calm base binary N D c (append_both s c)"
proof -
  show "comms_finish_subtest c = Some c' \<Longrightarrow> calm base binary N D c c'"
    "comms_finish_dynamic_subtest c = Some c' \<Longrightarrow> calm base binary N D c c'"
    unfolding calm_def using finish_frame [of c c'] by (auto simp: excess_def comms_finish_subtest_def
        comms_finish_dynamic_subtest_def Let_def update_test_def split: bind_splits)
  show "Some n \<in> N \<Longrightarrow> calm base binary N D c (comms_add_new_subtest binary n c)"
    by (simp add: calm_def new_object_frame)
  assume "d \<in> D" "comms_add_new_dynamic_subtest binary d c = Some c'"
  then show "calm base binary N D c c'"
    using new_object_frame(3) [of base binary N D c d c']
    by (auto simp: calm_def excess_def comms_add_new_dynamic_subtest_def Let_def split: bind_splits)
qed (simp_all add: calm_def append_frame)

text \<open>Fields of no concern to it.\<close>

lemma calm_fields [simp]:
  "calm base binary N D c (c'\<lparr>subtestresult := x\<rparr>) = calm base binary N D c c'"
  "calm base binary N D c (c'\<lparr>dynamicsubtestresult := x\<rparr>) = calm base binary N D c c'"
  "calm base binary N D c (c'\<lparr>cstate := st\<rparr>) = calm base binary N D c c'"
  "calm base binary N D c (c'\<lparr>nextoutidx := i\<rparr>) = calm base binary N D c c'"
  "calm base binary N D c (c'\<lparr>nexterridx := i\<rparr>) = calm base binary N D c c'"
  "calm base binary N D c (c'\<lparr>nextdynoutidx := i\<rparr>) = calm base binary N D c c'"
  "calm base binary N D c (c'\<lparr>nextdynerridx := i\<rparr>) = calm base binary N D c c'"
  "calm base binary N D c (c'\<lparr>subtest_execution_time := t\<rparr>) = calm base binary N D c c'"
  "calm base binary N D c (c'\<lparr>dynamic_subtest_execution_time := t\<rparr>) = calm base binary N D c c'"
  "calm base binary N D c (c'\<lparr>igt_version := v\<rparr>) = calm base binary N D c c'"
  "calm base binary N D c (c'\<lparr>exitcode := e\<rparr>) = calm base binary N D c c'"
  "calm base binary N D c (c'\<lparr>ctx_runtimes := rt\<rparr>) = calm base binary N D c c'"
  by (simp_all add: calm_def frame_inv_def excess_def)

lemma calm_then:
  "calm base binary N D c c1 \<Longrightarrow> calm base binary N D c (append_err s c1)"
  "calm base binary N D c c1 \<Longrightarrow> calm base binary N D c (append_both s c1)"
  "calm base binary N D c c1 \<Longrightarrow> comms_finish_subtest c1 = Some c2 \<Longrightarrow> calm base binary N D c c2"
  "calm base binary N D c c1 \<Longrightarrow> comms_finish_dynamic_subtest c1 = Some c2 \<Longrightarrow> calm base binary N D c c2"
  "calm base binary N D c c1 \<Longrightarrow> Some n \<in> N \<Longrightarrow> calm base binary N D c (comms_add_new_subtest binary n c1)"
  "calm base binary N D c c1 \<Longrightarrow> d \<in> D \<Longrightarrow> comms_add_new_dynamic_subtest binary d c1 = Some c2 \<Longrightarrow> calm base binary N D c c2"
  by (blast intro: calm_trans calm_steps)+

text \<open>What an operation returns, when it returns.\<close>

definition post :: "('a \<Rightarrow> bool) \<Rightarrow> 'a option \<Rightarrow> bool" where
  "post P r \<longleftrightarrow> (\<forall>x. r = Some x \<longrightarrow> P x)"

lemma post_simps [simp]: "post P None" "post P (Some x) = P x"
  by (simp_all add: post_def)

lemma post_bind: "post Q r \<Longrightarrow> (\<And>x. Q x \<Longrightarrow> post P (f x)) \<Longrightarrow> post P (r \<bind> f)"
  by (cases r) simp_all

lemma post_if: "(b \<Longrightarrow> post P r) \<Longrightarrow> (\<not> b \<Longrightarrow> post P s) \<Longrightarrow> post P (if b then r else s)"
  by simp

lemma post_finish:
  assumes "calm base binary N D c c1"
  shows "post (calm base binary N D c) (comms_finish_subtest c1)"
    "post (calm base binary N D c) (comms_finish_dynamic_subtest c1)"
    "d \<in> D \<Longrightarrow> post (calm base binary N D c) (comms_add_new_dynamic_subtest binary d c1)"
  using calm_then [OF assms] by (simp_all add: post_def)

lemma calm_subtest_start:
  assumes "deref p (first_field h) = Some n" "Some n \<in> N"
  shows "post (\<lambda>(c', b). calm base binary N D c c') (comms_handle_subtest_start binary p h c)"
  unfolding comms_handle_subtest_start_def assms(1) Let_def
  by (intro post_if post_bind [where Q = "calm base binary N D c"])
    (simp_all add: post_finish calm_then(1,2,5) assms(2) comms_inject_subtest_start_log_def)

lemma calm_subtest_result:
  assumes "result_fields h = (a, b, t)" "deref p a = Some n" "Some n \<in> N"
  shows "post (\<lambda>(c', b). calm base binary N D c c') (comms_handle_subtest_result binary p h c)"
proof -
  have pre: "post (calm base binary N D c) (case cstate c of
           STATE_DYNAMIC_SUBTEST_STARTED \<Rightarrow> comms_finish_dynamic_subtest (append_err s c)
         | STATE_BETWEEN_SUBTESTS \<Rightarrow> do {
             c1 \<leftarrow> comms_finish_subtest c; name \<leftarrow> Some n; Some (comms_add_new_subtest binary name c1) }
         | STATE_AFTER_EXEC \<Rightarrow> do { name \<leftarrow> Some n; Some (comms_add_new_subtest binary name c) }
         | _ \<Rightarrow> Some c)" for s
    by (cases "cstate c") (auto simp: calm_then(1,2,5) assms(3) intro!: post_finish post_bind [OF post_finish(1) [OF calm_refl, of base binary N D]])
  show ?thesis
    unfolding comms_handle_subtest_result_def assms(1,2) Let_def prod.case
    by (intro post_if post_bind [where Q = "calm base binary N D c", OF pre] post_bind [where Q = "calm base binary N D c"])
      (auto simp: calm_then(1,2,5) comms_inject_subtest_end_log_def post_def split: bind_splits prod.splits option.splits)
qed

lemma calm_dynamic_start:
  assumes "deref p (first_field h) = Some d" "d \<in> D"
  shows "post (\<lambda>(c', b). calm base binary N D c c') (comms_handle_dynamic_subtest_start binary p h c)"
  unfolding comms_handle_dynamic_subtest_start_def assms(1) Let_def bind.bind_lunit
  by (intro post_if post_bind [where Q = "calm base binary N D c"])
    (simp_all add: post_finish calm_then(1,2,5) assms(2) comms_inject_subtest_start_log_def)

lemma calm_dynamic_result:
  assumes "result_fields h = (a, b, t)" "deref p a = Some d" "d \<in> D"
  shows "post (\<lambda>(c', b). calm base binary N D c c') (comms_handle_dynamic_subtest_result binary p h c)"
proof -
  have pre: "post (calm base binary N D c) (case cstate c of
           STATE_BETWEEN_DYNAMIC_SUBTESTS \<Rightarrow> do {
             c1 \<leftarrow> comms_finish_dynamic_subtest c; name \<leftarrow> Some d; comms_add_new_dynamic_subtest binary name c1 }
         | STATE_SUBTEST_STARTED \<Rightarrow> do { name \<leftarrow> Some d; comms_add_new_dynamic_subtest binary name c }
         | _ \<Rightarrow> Some c)"
    by (cases "cstate c") (auto simp: assms(3) intro!: post_finish(3) post_bind [OF post_finish(2) [OF calm_refl, of base binary N D]])
  show ?thesis
    unfolding comms_handle_dynamic_subtest_result_def assms(1,2) Let_def prod.case
    by (intro post_if post_bind [where Q = "calm base binary N D c", OF pre] post_bind [where Q = "calm base binary N D c"])
      (auto simp: calm_then(1,2,5) comms_inject_subtest_end_log_def post_def split: bind_splits prod.splits option.splits)
qed

lemma calm_exit:
  assumes "names_in entry ms \<subseteq> N"
  shows "post (\<lambda>(c', b). calm base (entry_binary entry) N D c c') (comms_handle_exit entry p h c)"
proof -
  let ?n = "case entry_subtests entry of [] \<Rightarrow> None | s # _ \<Rightarrow> Some s"
  let ?k = "generate_piglit_name (entry_binary entry) ?n 256"
  have "?n \<in> N" using assms by (auto simp: names_in_def split: list.splits)
  then have k: "?k \<in> keys_of (entry_binary entry) N D" by (simp add: keys_of_def)
  have "calm base (entry_binary entry) N D c (c\<lparr>ctx_subtests := s, current_test := Some ?k,
      ctx_tests := get_or_create_json_object (ctx_tests c) ?k, subtestresult := r\<rparr>)" for s r
    using k by (auto simp: calm_def frame_inv_def excess_def get_or_create_json_object_def split: option.splits)
  then show ?thesis
    by (auto simp: post_def comms_handle_exit_def Let_def split_beta split: bind_splits)
qed

lemma calm_others:
  "deref p (first_field h) = Some v \<Longrightarrow> post (\<lambda>(c', b). calm base binary N D c c') (comms_handle_versionstring p h c)"
  "deref p (first_field h) = Some v \<Longrightarrow> post (\<lambda>(c', b). calm base binary N D c c') (comms_handle_result_override p h c)"
  by (simp_all add: comms_handle_versionstring_def comms_handle_result_override_def Let_def)

lemma log_frame:
  assumes "log_fields h = (stream, q)" "deref p q = Some s"
  shows "post (\<lambda>(c', b). (frame_inv base binary N D c \<longrightarrow> frame_inv base binary N D c') \<and>
    excess c' = excess c + excess_of (Msg_Log stream s)) (comms_handle_log p h c)"
  using assms by (simp add: comms_handle_log_def frame_inv_def excess_def excess_of_def)

definition frame_step :: "tests \<Rightarrow> job_list_entry \<Rightarrow> message list \<Rightarrow> comms_context \<Rightarrow> message \<Rightarrow> comms_context \<Rightarrow> bool" where
  "frame_step base entry ms c m c' \<longleftrightarrow>
    (let F = frame_inv base (entry_binary entry) (names_in entry ms) (\<Union>m\<in>set ms. dynamic_names_of m) in
     (F c \<longrightarrow> F c') \<and> excess c' \<le> excess c + excess_of m)"

lemma visit_frame:
  assumes "says p m" "m \<in> set ms" "msg_fine m"
  shows "post (\<lambda>(c', b). frame_step base entry ms c m c') (visit_packet (results_visitor entry) p c)"
proof -
  let ?N = "names_in entry ms" and ?D = "\<Union>m\<in>set ms. dynamic_names_of m"
  let ?B = "entry_binary entry"
  have ok: "post (\<lambda>(c', b). frame_step base entry ms c m c') r"
    if "post (\<lambda>(c', b). calm base ?B ?N ?D c c') r" "excess_of m = 0" for r m
    using that by (auto simp: post_def frame_step_def calm_def Let_def)
  have N: "Some n \<in> ?N" if "n \<in> subtest_names m" for n using that assms(2) by (auto simp: names_in_def)
  have D: "d \<in> ?D" if "d \<in> dynamic_names_of m" for d using that assms(2) by auto
  note R = says_result [of p]
  show ?thesis
  proof (cases m)
    case (Msg_Log stream s)
    obtain q where "log_fields (read_runnerpacket p) = (stream, q)" "deref p q = Some s"
      using says_log assms(1) Msg_Log by blast
    from log_frame [OF this, of base ?B ?N ?D c] show ?thesis
      unfolding visit_says [OF assms(1)] Msg_Log by (auto simp: post_def frame_step_def Let_def)
  next
    case (Msg_Subtest_Result n r t u)
    then obtain a b d where "result_fields (read_runnerpacket p) = (a, b, d)" "deref p a = Some n"
      using R assms(1) by blast
    from calm_subtest_result [OF this N, of base ?B ?D c] show ?thesis
      unfolding visit_says [OF assms(1)] using Msg_Subtest_Result by (simp add: ok excess_of_def)
  next
    case (Msg_Dynamic_Subtest_Result n r t u)
    then obtain a b d where "result_fields (read_runnerpacket p) = (a, b, d)" "deref p a = Some n"
      using R assms(1) by blast
    from calm_dynamic_result [OF this D, of base ?B ?N c] show ?thesis
      unfolding visit_says [OF assms(1)] using Msg_Dynamic_Subtest_Result by (simp add: ok excess_of_def)
  next
    case (Msg_Exec a)
    then show ?thesis using assms(3) by (simp add: msg_fine_def)
  qed (use assms(1) N D in \<open>simp_all add: visit_says [OF assms(1)] ok excess_of_def calm_subtest_start calm_dynamic_start
      calm_exit [OF order_refl] calm_others says_first del: UN_iff\<close>)
qed

text \<open>No more than one byte of standard output ahead of the standard error whenever a subtest ends, with \<open>o\<close> and
  \<open>e\<close> bytes of them logged so far.\<close>

fun balanced :: "nat \<Rightarrow> nat \<Rightarrow> message list \<Rightarrow> bool" where
  "balanced out err [] = True"
| "balanced out err (Msg_Log stream s # ms) =
    (if stream = 1 then balanced (out + length s) err ms else balanced out (err + length s) ms)"
| "balanced out err (Msg_Subtest_Result n r t u # ms) = (out \<le> err + 1 \<and> balanced out err ms)"
| "balanced out err (_ # ms) = balanced out err ms"

lemma visit_kept:
  assumes "comms_inv base c" "says p m" "msg_fine m" "balanced out err (m # ms)" "excess c \<le> int out - int err"
  shows "kept base (visit_packet (results_visitor entry) p c)"
proof (cases m)
  case (Msg_Subtest_Result n r t u)
  moreover have "length (outbuf c) \<le> length (errbuf c) + 1" using assms(4,5) Msg_Subtest_Result by (simp add: excess_def)
  ultimately show ?thesis using assms by (simp add: visit_says [OF assms(2)] msg_fine_def handle_subtest_result_ok)
qed (use assms in \<open>simp_all add: visit_says [OF assms(2)] msg_fine_def handle_log_ok handle_exit_ok handle_subtest_start_ok
    handle_dynamic_start_ok handle_dynamic_result_ok handle_version_ok handle_override_ok\<close>)

lemma balanced_step:
  assumes "balanced out err (m # ms)"
  shows "\<exists>out' err'. balanced out' err' ms \<and> int out' - int err' = int out - int err + excess_of m"
proof (cases m)
  case (Msg_Log stream s)
  then show ?thesis using assms
    by (cases "stream = 1") (intro exI [of _ "out + length s"] exI [of _ err], simp add: excess_of_def,
        intro exI [of _ out] exI [of _ "err + length s"], simp add: excess_of_def)
qed (use assms in \<open>auto simp: excess_of_def\<close>)

lemma visit_all_kept:
  assumes "list_all2 says ps ms" "\<forall>m\<in>set ms. msg_fine m" "comms_inv base c" "balanced out err ms" "excess c \<le> int out - int err"
    "set ms \<subseteq> set all"
  shows "\<exists>ret' c'. visit_all (results_visitor entry) ps ret c = Some (ret', c') \<and> comms_inv base c' \<and>
    (let F = frame_inv base (entry_binary entry) (names_in entry all) (\<Union>m\<in>set all. dynamic_names_of m) in F c \<longrightarrow> F c')"
  using assms
proof (induction ps ms arbitrary: ret c out err rule: list_all2_induct)
  case (Cons p ps m ms)
  have fine: "msg_fine m" and m: "m \<in> set all" using Cons.prems(1,5) by simp_all
  have "kept base (visit_packet (results_visitor entry) p c)"
    by (rule visit_kept [OF Cons.prems(2) Cons.hyps(1) fine Cons.prems(3,4)])
  then obtain c1 b where c1: "visit_packet (results_visitor entry) p c = Some (c1, b)" "comms_inv base c1"
    by (auto simp: kept_def)
  have step: "frame_step base entry all c m c1"
    using visit_frame [OF Cons.hyps(1) m fine, of base entry c] c1(1) by simp
  obtain out' err' where b: "balanced out' err' ms" "int out' - int err' = int out - int err + excess_of m"
    using balanced_step [OF Cons.prems(3)] by blast
  have "excess c1 \<le> int out' - int err'" using step b(2) Cons.prems(4) by (simp add: frame_step_def Let_def)
  from Cons.IH [OF _ c1(2) b(1) this] have "\<exists>ret' c'. visit_all (results_visitor entry) ps r c1 = Some (ret', c') \<and> comms_inv base c' \<and>
    (let F = frame_inv base (entry_binary entry) (names_in entry all) (\<Union>m\<in>set all. dynamic_names_of m) in F c1 \<longrightarrow> F c')" for r
    using Cons.prems(1,5) by simp
  then show ?case using step c1 by (cases b) (force simp: frame_step_def Let_def)+
qed simp

lemma finish_all_ok:
  assumes "comms_inv base c"
  shows "\<exists>c'. finish_all c = Some c' \<and> tests_ok base c' \<and> current_test c' = None \<and> current_dynamic_subtest c' = None"
proof -
  have i: "idx_ok c" and t: "tests_ok base c" using assms(1) by (simp_all add: comms_inv_def)
  obtain c1 where c1: "(if current_dynamic_subtest c \<noteq> None then comms_finish_dynamic_subtest c else Some c) = Some c1"
    "idx_ok c1" "tests_ok base c1" "current_dynamic_subtest c1 = None"
    using i t finish_dynamic_ok [OF i t] by (cases "current_dynamic_subtest c = None") auto
  show ?thesis using c1 finish_subtest_ok [OF c1(2,3)]
    by (cases "current_test c1 = None") (auto simp: finish_all_def)
qed

lemma first_exec:
  assumes "says p (Msg_Exec argv)"
  shows "visit_packet (results_visitor entry) p (new_context entry subtests results) =
    Some ((new_context entry subtests results)\<lparr>cmdline := Some (join_args argv), cstate := STATE_AFTER_EXEC\<rparr>, True)"
  using says_first(1) [OF assms] by (simp add: visit_says [OF assms] comms_handle_exec_def new_context_def)

lemma finish_all_frame:
  assumes "frame_inv base binary N D c" "finish_all c = Some c'"
  shows "frame_inv base binary N D c'"
proof -
  have "post (calm base binary N D c) (finish_all c)"
    unfolding finish_all_def
    by (intro post_if post_bind [where Q = "calm base binary N D c"]) (simp_all add: post_finish)
  then show ?thesis using assms by (simp add: calm_def)
qed

text \<open>The objects a test can write, and what its messages have to be like.\<close>

definition objects_of :: "job_list_entry \<Rightarrow> message list \<Rightarrow> bytes set" where
  "objects_of entry ms = keys_of (entry_binary entry) (names_in entry ms) (\<Union>m\<in>set ms. dynamic_names_of m)"



end
