(* ===== verification/Regular_Run.thy ===== *)
theory Regular_Run
  imports Comms_Results
begin

text \<open>
  The results of a test that reports its subtests one after the other: a specification that reads the
  output of each subtest off the packets, and the proof that the state machine delivers it, or faults.
\<close>

subsection \<open>What is sent, and what should be reported\<close>

type_synonym logs = "(u8 \<times> bytes) list"

record run =
  run_name :: bytes
  run_before :: logs
  run_result :: bytes
  run_time :: bytes
  run_reason :: bytes
  run_after :: logs

definition log_messages :: "logs \<Rightarrow> message list" where
  "log_messages logs = map (\<lambda>(stream, s). Msg_Log stream s) logs"

definition run_messages :: "run \<Rightarrow> message list" where
  "run_messages r = Msg_Subtest_Start (run_name r) # log_messages (run_before r) @
    Msg_Subtest_Result (run_name r) (run_result r) (run_time r) (run_reason r) # log_messages (run_after r)"

text \<open>What goes to standard output and what goes to standard error, and the lines the runner adds to both.\<close>

definition stdout_text :: "logs \<Rightarrow> bytes" where
  "stdout_text logs = concat (map snd (filter (\<lambda>(stream, s). stream = 1) logs))"

definition stderr_text :: "logs \<Rightarrow> bytes" where
  "stderr_text logs = concat (map snd (filter (\<lambda>(stream, s). stream \<noteq> 1) logs))"

definition start_line :: "run \<Rightarrow> bytes" where
  "start_line r = snprintf_buf 512 (STARTING_SUBTEST @ run_name r @ [10])"

definition end_line :: "run \<Rightarrow> bytes" where
  "end_line r = snprintf_buf 512 (SUBTEST_RESULT @ run_name r @ str '': '' @ run_result r @ str '' ('' @ run_time r @ str ''s)'' @ [10])"

definition framed :: "(logs \<Rightarrow> bytes) \<Rightarrow> run \<Rightarrow> bytes" where
  "framed stream r = start_line r @ stream (run_before r) @ end_line r"

definition run_key :: "bytes \<Rightarrow> run \<Rightarrow> bytes" where
  "run_key binary r = generate_piglit_name binary (Some (run_name r)) 256"

definition report_of :: "run \<Rightarrow> bytes \<Rightarrow> bytes \<Rightarrow> test_obj" where
  "report_of r out err = new_object\<lparr>obj_out := Some (new_escaped_json_string out), obj_err := Some (new_escaped_json_string err),
    obj_result := Some (fst (parse_result_string (run_result r))), obj_time := Some (Strtod (run_time r))\<rparr>"

text \<open>\<open>out0\<close> and \<open>err0\<close> are what belongs to the subtests before, \<open>out1\<close> and \<open>err1\<close> what came since the last of them
  ended: that belongs to the next subtest, and what comes between two subtests belongs to both. The text of the
  standard error has the right length, but is read where the standard output of the subtest starts.\<close>

fun reports :: "bytes \<Rightarrow> bytes \<Rightarrow> bytes \<Rightarrow> bytes \<Rightarrow> bytes \<Rightarrow> run list \<Rightarrow> tests \<Rightarrow> bool" where
  "reports binary out0 err0 out1 err1 [] t = True"
| "reports binary out0 err0 out1 err1 (r # rs) t =
    (let out2 = out1 @ framed stdout_text r; err2 = err1 @ framed stderr_text r;
         out3 = stdout_text (run_after r); err3 = stderr_text (run_after r) in
     t (run_key binary r) = Some (report_of r (out2 @ out3)
       (take (length (err2 @ err3)) (drop (length out0) (err0 @ err2 @ err3 @ [0])))) \<and>
     reports binary (out0 @ out2) (err0 @ err2) out3 err3 rs t)"

text \<open>Where a subtest ends, and another one follows, the standard output so far is at most one byte ahead.\<close>

fun marks_fit :: "logs \<Rightarrow> logs \<Rightarrow> run list \<Rightarrow> bool" where
  "marks_fit before between [] = True"
| "marks_fit before between (r # rs) = (length (stdout_text before) \<le> length (stderr_text before) + 1 \<and>
    marks_fit (before @ between @ run_before r) (run_after r) rs)"

lemma stream_text_simps [simp]:
  "stdout_text [] = []" "stdout_text (l # logs) = (if fst l = 1 then snd l else []) @ stdout_text logs"
  "stderr_text [] = []" "stderr_text (l # logs) = (if fst l = 1 then [] else snd l) @ stderr_text logs"
  "stdout_text (logs @ logs') = stdout_text logs @ stdout_text logs'"
  "stderr_text (logs @ logs') = stderr_text logs @ stderr_text logs'"
  by (simp_all add: stdout_text_def stderr_text_def split_beta)

subsection \<open>The states of such a run\<close>

text \<open>Nothing is pending; a subtest runs; a subtest has ended.\<close>

definition closed :: "comms_context \<Rightarrow> tests \<Rightarrow> subtest list \<Rightarrow> bytes \<Rightarrow> bytes \<Rightarrow> bytes \<Rightarrow> bytes \<Rightarrow> bool" where
  "closed c t subs out0 err0 out1 err1 \<longleftrightarrow> current_dynamic_subtest c = None \<and> current_test c = None \<and> ctx_tests c = t \<and>
    ctx_subtests c = subs \<and> igt_version c = None \<and> outbuf c = out0 @ out1 \<and> outidx c = length out0 \<and>
    errbuf c = err0 @ err1 \<and> erridx c = length err0"

definition started :: "comms_context \<Rightarrow> bytes \<Rightarrow> tests \<Rightarrow> subtest list \<Rightarrow> bytes \<Rightarrow> bytes \<Rightarrow> bytes \<Rightarrow> bytes \<Rightarrow> bool" where
  "started c key t subs out0 err0 out1 err1 \<longleftrightarrow> current_dynamic_subtest c = None \<and> cstate c = STATE_SUBTEST_STARTED \<and>
    current_test c = Some key \<and> ctx_tests c = t(key \<mapsto> new_object) \<and> ctx_subtests c = subs \<and> subtestresult c = None \<and>
    igt_version c = None \<and> outbuf c = out0 @ out1 \<and> outidx c = length out0 \<and> errbuf c = err0 @ err1 \<and> erridx c = length err0"

definition ended :: "comms_context \<Rightarrow> bytes \<Rightarrow> tests \<Rightarrow> subtest list \<Rightarrow> run \<Rightarrow> bytes \<Rightarrow> bytes \<Rightarrow> bytes \<Rightarrow> bytes \<Rightarrow> bytes \<Rightarrow> bytes \<Rightarrow> bool" where
  "ended c key t subs r out0 err0 out1 err1 out2 err2 \<longleftrightarrow> current_dynamic_subtest c = None \<and> cstate c = STATE_BETWEEN_SUBTESTS \<and>
    current_test c = Some key \<and> ctx_tests c = t(key \<mapsto> new_object) \<and> ctx_subtests c = subs \<and>
    subtestresult c = Some (fst (parse_result_string (run_result r))) \<and> subtest_execution_time c = Strtod (run_time r) \<and>
    igt_version c = None \<and> outbuf c = out0 @ out1 @ out2 \<and> outidx c = length out0 \<and> nextoutidx c = length out0 + length out1 \<and>
    errbuf c = err0 @ err1 @ err2 \<and> erridx c = length err0 \<and> nexterridx c = length err0 + length err1 \<and> err1 \<noteq> []"

definition ready :: "comms_context \<Rightarrow> tests \<Rightarrow> subtest list \<Rightarrow> bytes \<Rightarrow> bytes \<Rightarrow> bytes \<Rightarrow> bytes \<Rightarrow> bool" where
  "ready c t subs out0 err0 out1 err1 \<longleftrightarrow>
    (cstate c = STATE_AFTER_EXEC \<and> closed c t subs out0 err0 out1 err1) \<or>
    (cstate c = STATE_BETWEEN_SUBTESTS \<and> current_dynamic_subtest c = None \<and> current_test c \<noteq> None \<and>
      (\<exists>c1. comms_finish_subtest c = Some c1 \<and> closed c1 t subs out0 err0 out1 err1))"

definition stuck :: "comms_context \<Rightarrow> bool" where
  "stuck c \<longleftrightarrow> cstate c = STATE_BETWEEN_SUBTESTS \<and> current_dynamic_subtest c = None \<and> current_test c \<noteq> None \<and>
    comms_finish_subtest c = None"

lemma read_buffer_rest [simp]: "read_buffer (x @ y) (length x) (length x) = Some y"
  by (simp add: read_buffer_def Let_def)

lemma read_buffer_shifted:
  "y \<noteq> [] \<Longrightarrow> read_buffer (x @ y) i (length x) =
    (if i \<le> length x + 1 then Some (take (length y) (drop i (x @ y @ [0]))) else None)"
  by (simp add: read_buffer_def Let_def)

lemma finish_ended:
  assumes "ended c key t subs r out0 err0 out1 err1 out2 err2"
  shows "length out0 \<le> length err0 + 1 \<Longrightarrow> ready c
      (t(key \<mapsto> report_of r (out1 @ out2) (take (length (err1 @ err2)) (drop (length out0) (err0 @ err1 @ err2 @ [0])))))
      subs (out0 @ out1) (err0 @ err1) out2 err2"
    "\<not> length out0 \<le> length err0 + 1 \<Longrightarrow> stuck c"
proof -
  have "err1 @ err2 \<noteq> []" using assms by (simp add: ended_def)
  note R = read_buffer_shifted [OF this, of err0 "length out0"]
  assume "length out0 \<le> length err0 + 1"
  then show "ready c (t(key \<mapsto> report_of r (out1 @ out2) (take (length (err1 @ err2)) (drop (length out0) (err0 @ err1 @ err2 @ [0])))))
      subs (out0 @ out1) (err0 @ err1) out2 err2"
    using assms R by (simp add: ready_def ended_def comms_finish_subtest_def Let_def update_test_def closed_def report_of_def
      add_runtime_def set_result_def add_igt_version_def new_object_def)
next
  have "err1 @ err2 \<noteq> []" using assms by (simp add: ended_def)
  note R = read_buffer_shifted [OF this, of err0 "length out0"]
  assume "\<not> length out0 \<le> length err0 + 1"
  then show "stuck c" using assms R by (simp add: stuck_def ended_def comms_finish_subtest_def)
qed

subsection \<open>The packets of a run\<close>

definition log_one :: "u8 \<times> bytes \<Rightarrow> comms_context \<Rightarrow> comms_context" where
  "log_one l c = (if fst l = 1 then c\<lparr>outbuf := outbuf c @ snd l\<rparr> else c\<lparr>errbuf := errbuf c @ snd l\<rparr>)"

lemma visit_logs:
  assumes "list_all2 says ps (log_messages logs)"
  shows "\<exists>ret'. visit_all (results_visitor entry) (ps @ qs) ret c =
    visit_all (results_visitor entry) qs ret' (fold log_one logs c)"
  using assms
proof (induction logs arbitrary: ps ret c)
  case (Cons l logs)
  obtain stream s where l: "l = (stream, s)" by (cases l)
  obtain p ps' where ps: "ps = p # ps'" "says p (Msg_Log stream s)" "list_all2 says ps' (log_messages logs)"
    using Cons.prems by (auto simp: log_messages_def l list_all2_Cons2)
  obtain q where q: "log_fields (read_runnerpacket p) = (stream, q)" "deref p q = Some s" by (rule says_log [OF ps(2)])
  have "visit_packet (results_visitor entry) p c = Some (log_one l c, True)"
    by (simp add: visit_says [OF ps(2)] comms_handle_log_def q log_one_def l)
  then show ?case using Cons.IH [OF ps(3)] by (simp add: ps(1))
qed (simp add: log_messages_def, blast)

lemma logs_out_err: "fold log_one logs c = c\<lparr>outbuf := outbuf c @ stdout_text logs, errbuf := errbuf c @ stderr_text logs\<rparr>"
  by (induction logs arbitrary: c) (simp_all add: log_one_def)

lemma logs_states:
  "started c key t subs out0 err0 out1 err1 \<Longrightarrow>
    started (fold log_one logs c) key t subs out0 err0 (out1 @ stdout_text logs) (err1 @ stderr_text logs)"
  "ended c key t subs r out0 err0 out1 err1 out2 err2 \<Longrightarrow>
    ended (fold log_one logs c) key t subs r out0 err0 out1 err1 (out2 @ stdout_text logs) (err2 @ stderr_text logs)"
  "closed c t subs out0 err0 out1 err1 \<Longrightarrow>
    closed (fold log_one logs c) t subs out0 err0 (out1 @ stdout_text logs) (err1 @ stderr_text logs)"
  "cstate (fold log_one logs c) = cstate c"
  by (simp_all add: logs_out_err started_def ended_def closed_def)

lemma add_new_subtest_simps:
  assumes "ctx_tests c (generate_piglit_name binary (Some n) 256) = None"
  shows "comms_add_new_subtest binary n c = c\<lparr>ctx_subtests := add_subtest (ctx_subtests c) n,
    subtest_at := (if add_subtest (ctx_subtests c) n = [] then None else Some (length (add_subtest (ctx_subtests c) n) - 1)),
    current_test := Some (generate_piglit_name binary (Some n) 256),
    ctx_tests := (ctx_tests c)(generate_piglit_name binary (Some n) 256 \<mapsto> new_object), current_subtest_name := Some n\<rparr>"
  using assms by (simp add: comms_add_new_subtest_def get_or_create_json_object_def Let_def)

lemma start_closed:
  assumes "closed c t subs out0 err0 out1 err1" "t (run_key binary r) = None"
  shows "started ((comms_inject_subtest_start_log STARTING_SUBTEST (run_name r) (comms_add_new_subtest binary (run_name r) c))
      \<lparr>subtestresult := None, cstate := STATE_SUBTEST_STARTED\<rparr>) (run_key binary r) t (add_subtest subs (run_name r))
      out0 err0 (out1 @ start_line r) (err1 @ start_line r)"
  using assms by (simp add: closed_def started_def run_key_def add_new_subtest_simps append_both_def start_line_def)

lemma visit_start:
  assumes "says p (Msg_Subtest_Start (run_name r))" "ready c t subs out0 err0 out1 err1" "t (run_key (entry_binary entry) r) = None"
  shows "\<exists>c'. visit_packet (results_visitor entry) p c = Some (c', True) \<and>
    started c' (run_key (entry_binary entry) r) t (add_subtest subs (run_name r)) out0 err0 (out1 @ start_line r) (err1 @ start_line r)"
proof -
  obtain c1 where c1: "closed c1 t subs out0 err0 out1 err1" "(cstate c = STATE_AFTER_EXEC \<and> c1 = c) \<or>
      (cstate c = STATE_BETWEEN_SUBTESTS \<and> current_dynamic_subtest c = None \<and> comms_finish_subtest c = Some c1)"
    using assms(2) by (auto simp: ready_def)
  show ?thesis using c1(2) start_closed [OF c1(1) assms(3)]
    by (auto simp: visit_says [OF assms(1)] comms_handle_subtest_start_def says_first(2) [OF assms(1)] Let_def)
qed

lemma visit_start_stuck:
  assumes "says p (Msg_Subtest_Start n)" "stuck c"
  shows "visit_packet (results_visitor entry) p c = None"
  using assms(2) by (simp add: stuck_def visit_says [OF assms(1)] comms_handle_subtest_start_def Let_def)

lemma visit_result:
  assumes "says p (Msg_Subtest_Result (run_name r) (run_result r) (run_time r) (run_reason r))"
    "started c key t subs out0 err0 out1 err1" "err1 \<noteq> []" "snd (parse_result_string (run_result r)) = None"
  shows "\<exists>c'. visit_packet (results_visitor entry) p c = Some (c', True) \<and>
    ended c' key t subs r out0 err0 (out1 @ end_line r) (err1 @ end_line r) [] []"
proof -
  obtain qa qb qc where q: "result_fields (read_runnerpacket p) = (qa, qb, qc)" "deref p qa = Some (run_name r)"
    "deref p qb = Some (run_result r)" "deref p qc = Some (run_time r)" using says_result assms(1) by blast
  obtain mapped where m: "parse_result_string (run_result r) = (mapped, None)"
    using assms(4) by (cases "parse_result_string (run_result r)") auto
  define c2 where "c2 = append_both (end_line r) c"
  let ?c = "c2\<lparr>nextoutidx := length (outbuf c2), nexterridx := length (errbuf c2), subtestresult := Some mapped,
    subtest_execution_time := Strtod (run_time r), cstate := STATE_BETWEEN_SUBTESTS\<rparr>"
  have i: "comms_inject_subtest_end_log SUBTEST_RESULT (Some (run_name r)) (Some (run_result r)) (Some (run_time r)) c = c2"
    by (simp add: comms_inject_subtest_end_log_def c2_def end_line_def show_cstr_def)
  have s: "cstate c = STATE_SUBTEST_STARTED" "subtestresult c = None" using assms(2) by (simp_all add: started_def)
  have "visit_packet (results_visitor entry) p c = Some (?c, True)"
    by (simp add: visit_says [OF assms(1)] comms_handle_subtest_result_def q s i Let_def)
      (simp add: c2_def append_both_def s m)
  moreover have "ended ?c key t subs r out0 err0 (out1 @ end_line r) (err1 @ end_line r) [] []"
    using assms(2,3) by (simp add: c2_def append_both_def ended_def started_def m)
  ultimately show ?thesis by blast
qed

lemma start_line_not_empty [simp]: "start_line r \<noteq> []"
  by (simp add: start_line_def snprintf_buf_def STARTING_SUBTEST_def str_def)

text \<open>One subtest: what was pending is written, and its own object is complete once the next one starts.\<close>

lemma visit_run:
  assumes "list_all2 says ps (run_messages r)" "ready c t subs out0 err0 out1 err1" "t (run_key (entry_binary entry) r) = None"
    "snd (parse_result_string (run_result r)) = None"
  obtains ret' c' where "visit_all (results_visitor entry) (ps @ qs) ret c = visit_all (results_visitor entry) qs ret' c'"
    "ended c' (run_key (entry_binary entry) r) t (add_subtest subs (run_name r)) r out0 err0
      (out1 @ framed stdout_text r) (err1 @ framed stderr_text r) (stdout_text (run_after r)) (stderr_text (run_after r))"
proof -
  let ?V = "results_visitor entry" and ?k = "run_key (entry_binary entry) r"
  obtain p ps1 p2 ps2 where ps: "ps = p # ps1 @ p2 # ps2" "says p (Msg_Subtest_Start (run_name r))"
      "list_all2 says ps1 (log_messages (run_before r))"
      "says p2 (Msg_Subtest_Result (run_name r) (run_result r) (run_time r) (run_reason r))"
      "list_all2 says ps2 (log_messages (run_after r))"
    using assms(1) by (auto simp: run_messages_def list_all2_Cons2 list_all2_append2)
  obtain c1 where c1: "visit_packet ?V p c = Some (c1, True)"
    "started c1 ?k t (add_subtest subs (run_name r)) out0 err0 (out1 @ start_line r) (err1 @ start_line r)"
    using visit_start [OF ps(2) assms(2,3)] by blast
  obtain c2 where c2: "visit_packet ?V p2 (fold log_one (run_before r) c1) = Some (c2, True)"
    "ended c2 ?k t (add_subtest subs (run_name r)) r out0 err0 (((out1 @ start_line r) @ stdout_text (run_before r)) @ end_line r)
      (((err1 @ start_line r) @ stderr_text (run_before r)) @ end_line r) [] []"
    using visit_result [OF ps(4) logs_states(1) [OF c1(2)] _ assms(4)] by auto
  have "\<exists>r1. visit_all ?V (ps @ qs) ret c = visit_all ?V (ps1 @ p2 # ps2 @ qs) r1 c1" by (simp add: ps(1) c1(1)) blast
  moreover have "\<exists>r2. visit_all ?V (ps1 @ p2 # ps2 @ qs) r1 c1 = visit_all ?V (p2 # ps2 @ qs) r2 (fold log_one (run_before r) c1)" for r1
    by (rule visit_logs [OF ps(3)])
  moreover have "\<exists>r3. visit_all ?V (p2 # ps2 @ qs) r2 (fold log_one (run_before r) c1) = visit_all ?V (ps2 @ qs) r3 c2" for r2
    by (simp add: c2(1)) blast
  moreover have "\<exists>r4. visit_all ?V (ps2 @ qs) r3 c2 = visit_all ?V qs r4 (fold log_one (run_after r) c2)" for r3
    by (rule visit_logs [OF ps(5)])
  ultimately have "\<exists>ret'. visit_all ?V (ps @ qs) ret c = visit_all ?V qs ret' (fold log_one (run_after r) c2)" by metis
  then show thesis using logs_states(2) [OF c2(2), of "run_after r"] that by (auto simp: framed_def)
qed

text \<open>The marks are as far apart as the bytes the test has logged to the two streams.\<close>

definition apart :: "bytes \<Rightarrow> bytes \<Rightarrow> logs \<Rightarrow> bool" where
  "apart out err logs \<longleftrightarrow> length out + length (stderr_text logs) = length err + length (stdout_text logs)"

lemma apart_run:
  "apart out0 err0 before \<Longrightarrow> apart out1 err1 between \<Longrightarrow>
    apart (out0 @ out1 @ framed stdout_text r) (err0 @ err1 @ framed stderr_text r) (before @ between @ run_before r)"
  "apart (stdout_text logs) (stderr_text logs) logs"
  by (simp_all add: apart_def framed_def)

lemma visit_runs:
  assumes "list_all2 says ps (concat (map run_messages rs))" "ready c t subs out0 err0 out1 err1"
    "distinct (map (run_key (entry_binary entry)) rs)" "\<forall>r\<in>set rs. t (run_key (entry_binary entry) r) = None"
    "\<forall>r\<in>set rs. snd (parse_result_string (run_result r)) = None" "rs \<noteq> [] \<or> cstate c = STATE_BETWEEN_SUBTESTS"
    "apart out0 err0 before" "apart out1 err1 between" "marks_fit before between rs"
  shows "\<exists>ret' c' t' o0 e0 o1 e1. visit_all (results_visitor entry) (ps @ qs) ret c = visit_all (results_visitor entry) qs ret' c' \<and>
    ready c' t' (fold (\<lambda>r subs. add_subtest subs (run_name r)) rs subs) o0 e0 o1 e1 \<and> cstate c' = STATE_BETWEEN_SUBTESTS \<and>
    reports (entry_binary entry) out0 err0 out1 err1 rs t' \<and> (\<forall>k. k \<notin> run_key (entry_binary entry) ` set rs \<longrightarrow> t' k = t k)"
  using assms
proof (induction rs arbitrary: ps ret c t subs out0 err0 out1 err1 before between)
  case (Cons r rs)
  let ?V = "results_visitor entry" and ?key = "run_key (entry_binary entry)"
  let ?out = "out1 @ framed stdout_text r" and ?err = "err1 @ framed stderr_text r"
  let ?out3 = "stdout_text (run_after r)" and ?err3 = "stderr_text (run_after r)"
  let ?obj = "report_of r (?out @ ?out3) (take (length (?err @ ?err3)) (drop (length out0) (err0 @ ?err @ ?err3 @ [0])))"
  let ?t = "t(?key r \<mapsto> ?obj)"
  obtain ps1 ps2 where ps: "ps = ps1 @ ps2" "list_all2 says ps1 (run_messages r)" "list_all2 says ps2 (concat (map run_messages rs))"
    using Cons.prems(1) by (auto simp: list_all2_append2)
  have pre: "t (?key r) = None" "snd (parse_result_string (run_result r)) = None" using Cons.prems(4,5) by simp_all
  have new: "?key r \<notin> ?key ` set rs" using Cons.prems(3) by simp
  then have other: "\<forall>r'\<in>set rs. ?key r' \<noteq> ?key r" by (metis imageI)
  obtain r1 c1 where c1: "visit_all ?V (ps1 @ ps2 @ qs) ret c = visit_all ?V (ps2 @ qs) r1 c1"
    "ended c1 (?key r) t (add_subtest subs (run_name r)) r out0 err0 ?out ?err ?out3 ?err3"
    by (rule visit_run [OF ps(2) Cons.prems(2) pre])
  have "length out0 \<le> length err0 + 1" using Cons.prems(7,9) by (simp add: apart_def)
  note rd = finish_ended(1) [OF c1(2) this]
  have st: "cstate c1 = STATE_BETWEEN_SUBTESTS" using c1(2) by (simp add: ended_def)
  have free: "\<forall>r\<in>set rs. ?t (?key r) = None" using Cons.prems(4) other by simp
  have fit: "marks_fit (before @ between @ run_before r) (run_after r) rs" using Cons.prems(9) by simp
  have ap: "apart (out0 @ ?out) (err0 @ ?err) (before @ between @ run_before r)" using apart_run(1) [OF Cons.prems(7,8)] by simp
  have "\<exists>ret' c' t' o0 e0 o1 e1. visit_all ?V (ps2 @ qs) r1 c1 = visit_all ?V qs ret' c' \<and>
    ready c' t' (fold (\<lambda>r subs. add_subtest subs (run_name r)) rs (add_subtest subs (run_name r))) o0 e0 o1 e1 \<and>
    cstate c' = STATE_BETWEEN_SUBTESTS \<and> reports (entry_binary entry) (out0 @ ?out) (err0 @ ?err) ?out3 ?err3 rs t' \<and>
    (\<forall>k. k \<notin> ?key ` set rs \<longrightarrow> t' k = ?t k)"
    by (rule Cons.IH [OF ps(3) rd _ free _ _ ap apart_run(2) fit]) (use Cons.prems(3,5) st in simp_all)
  then obtain ret' c' t' o0 e0 o1 e1 where IH: "visit_all ?V (ps2 @ qs) r1 c1 = visit_all ?V qs ret' c'"
    "ready c' t' (fold (\<lambda>r subs. add_subtest subs (run_name r)) rs (add_subtest subs (run_name r))) o0 e0 o1 e1"
    "cstate c' = STATE_BETWEEN_SUBTESTS" "reports (entry_binary entry) (out0 @ ?out) (err0 @ ?err) ?out3 ?err3 rs t'"
    "\<And>k. k \<notin> ?key ` set rs \<Longrightarrow> t' k = ?t k" by blast
  have r: "reports (entry_binary entry) out0 err0 out1 err1 (r # rs) t'" using IH(4) IH(5) [OF new]
    by (simp only: reports.simps Let_def fun_upd_same append_assoc simp_thms)
  have keep: "\<forall>k. k \<notin> ?key ` set (r # rs) \<longrightarrow> t' k = t k" using IH(5) by simp
  have v: "visit_all ?V (ps @ qs) ret c = visit_all ?V qs ret' c'" using c1(1) IH(1) by (simp add: ps(1))
  show ?case using IH(2,3)
    by (intro exI [of _ ret'] exI [of _ c'] exI [of _ t'] exI [of _ o0] exI [of _ e0] exI [of _ o1] exI [of _ e1])
      (use v r keep in \<open>simp only: fold_simps simp_thms\<close>)
qed (simp, blast)

text \<open>A subtest whose text of the standard error cannot be read.\<close>

lemma visit_runs_stuck:
  assumes "list_all2 says ps (concat (map run_messages rs))" "ready c t subs out0 err0 out1 err1"
    "distinct (map (run_key (entry_binary entry)) rs)" "\<forall>r\<in>set rs. t (run_key (entry_binary entry) r) = None"
    "\<forall>r\<in>set rs. snd (parse_result_string (run_result r)) = None"
    "apart out0 err0 before" "apart out1 err1 between" "\<not> marks_fit before between rs"
  shows "visit_all (results_visitor entry) (ps @ qs) ret c = None \<or>
    (\<exists>ret' c'. visit_all (results_visitor entry) (ps @ qs) ret c = visit_all (results_visitor entry) qs ret' c' \<and> stuck c')"
  using assms
proof (induction rs arbitrary: ps ret c t subs out0 err0 out1 err1 before between)
  case (Cons r rs)
  let ?V = "results_visitor entry" and ?key = "run_key (entry_binary entry)"
  let ?out = "out1 @ framed stdout_text r" and ?err = "err1 @ framed stderr_text r"
  let ?out3 = "stdout_text (run_after r)" and ?err3 = "stderr_text (run_after r)"
  obtain ps1 ps2 where ps: "ps = ps1 @ ps2" "list_all2 says ps1 (run_messages r)" "list_all2 says ps2 (concat (map run_messages rs))"
    using Cons.prems(1) by (auto simp: list_all2_append2)
  have pre: "t (?key r) = None" "snd (parse_result_string (run_result r)) = None" using Cons.prems(4,5) by simp_all
  have new: "?key r \<notin> ?key ` set rs" using Cons.prems(3) by simp
  then have other: "\<forall>r'\<in>set rs. ?key r' \<noteq> ?key r" by (metis imageI)
  obtain r1 c1 where c1: "visit_all ?V (ps1 @ ps2 @ qs) ret c = visit_all ?V (ps2 @ qs) r1 c1"
    "ended c1 (?key r) t (add_subtest subs (run_name r)) r out0 err0 ?out ?err ?out3 ?err3"
    by (rule visit_run [OF ps(2) Cons.prems(2) pre])
  show ?case
  proof (cases "length out0 \<le> length err0 + 1")
    case True
    note rd = finish_ended(1) [OF c1(2) True]
    have free: "\<forall>r'\<in>set rs. (t(?key r \<mapsto> x)) (?key r') = None" for x using Cons.prems(4) other by simp
    have fit: "\<not> marks_fit (before @ between @ run_before r) (run_after r) rs" using Cons.prems(6,8) True by (simp add: apart_def)
    have ap: "apart (out0 @ ?out) (err0 @ ?err) (before @ between @ run_before r)" using apart_run(1) [OF Cons.prems(6,7)] by simp
    have "visit_all ?V (ps2 @ qs) r1 c1 = None \<or> (\<exists>ret' c'. visit_all ?V (ps2 @ qs) r1 c1 = visit_all ?V qs ret' c' \<and> stuck c')"
      by (rule Cons.IH [OF ps(3) rd _ free _ ap apart_run(2) fit]) (use Cons.prems(3,5) in simp_all)
    then show ?thesis using c1(1) by (simp add: ps(1))
  next
    case False
    note st = finish_ended(2) [OF c1(2) False]
    show ?thesis
    proof (cases rs)
      case Nil
      then show ?thesis using ps c1(1) st by auto
    next
      case (Cons r' rs')
      obtain p ps3 where p: "ps2 = p # ps3" "says p (Msg_Subtest_Start (run_name r'))"
        using ps(3) unfolding Cons by (auto simp: run_messages_def list_all2_Cons2)
      have "visit_packet ?V p c1 = None" by (rule visit_start_stuck [OF p(2) st])
      then show ?thesis using c1(1) by (simp add: ps(1) p(1))
    qed
  qed
qed simp

subsection \<open>The end of the test\<close>

lemma finish_subtest_frame:
  "comms_finish_subtest (c\<lparr>exitcode := x, cstate := st, ctx_runtimes := rt\<rparr>) =
    map_option (\<lambda>c'. c'\<lparr>exitcode := x, cstate := st, ctx_runtimes := rt\<rparr>) (comms_finish_subtest c)"
  by (cases "current_test c"; cases "read_buffer (outbuf c) (outidx c) (outidx c)";
      cases "read_buffer (errbuf c) (outidx c) (erridx c)")
    (simp_all add: comms_finish_subtest_def update_test_def Let_def)

lemma visit_exit:
  assumes "says p (Msg_Exit code t)" "cstate c = STATE_BETWEEN_SUBTESTS" "current_dynamic_subtest c = None" "current_test c \<noteq> None"
    "sint code \<noteq> IGT_EXIT_ABORT" "sint code \<noteq> GRACEFUL_EXITCODE"
  obtains c' rt where "visit_all (results_visitor entry) [p] ret c = Some (COMMSPARSE_SUCCESS, c')"
    "finish_all c' = map_option (\<lambda>c'. c'\<lparr>exitcode := sint code, cstate := STATE_EXITED, ctx_runtimes := rt\<rparr>) (comms_finish_subtest c)"
proof -
  obtain q where q: "exit_fields (read_runnerpacket p) = (code, q)" "deref p q = Some t" by (rule says_exit [OF assms(1)])
  obtain rt where v: "visit_packet (results_visitor entry) p c =
      Some (c\<lparr>exitcode := sint code, cstate := STATE_EXITED, ctx_runtimes := rt\<rparr>, True)"
    using assms(2,5,6) by (simp add: visit_says [OF assms(1)] comms_handle_exit_def q Let_def)
  have "pkt_type p \<noteq> PACKETTYPE_EXEC" using says_types(2) [OF assms(1)] by (simp add: packettypes)
  then show thesis using v assms(3,4)
    by (intro that [of "c\<lparr>exitcode := sint code, cstate := STATE_EXITED, ctx_runtimes := rt\<rparr>" rt])
      (simp_all add: finish_all_def finish_subtest_frame)
qed

text \<open>The way from the dump to the first subtest, and to the last packet.\<close>

lemma regular_start:
  assumes "list_all2 says ps (Msg_Exec argv # log_messages first @ concat (map run_messages rs) @ [Msg_Exit code timeused])"
  obtains ps2 q ret c where "list_all2 says ps2 (concat (map run_messages rs))" "says q (Msg_Exit code timeused)"
    "ready c (res_tests results) subtests [] [] (stdout_text first) (stderr_text first)"
    "comms_read_dump (Dump (dump_of ps)) (results_visitor entry) (new_context entry subtests results) =
      visit_all (results_visitor entry) (ps2 @ [q]) ret c"
proof -
  let ?V = "results_visitor entry"
  let ?c = "(new_context entry subtests results)\<lparr>cmdline := Some (join_args argv), cstate := STATE_AFTER_EXEC\<rparr>"
  obtain p ps1 ps2 q where ps: "ps = p # ps1 @ ps2 @ [q]" "says p (Msg_Exec argv)" "list_all2 says ps1 (log_messages first)"
      "list_all2 says ps2 (concat (map run_messages rs))" "says q (Msg_Exit code timeused)"
    using assms by (auto simp: list_all2_Cons2 list_all2_append2)
  have ok: "\<forall>p\<in>set ps. packet_ok p" using assms by (auto simp: list_all2_conv_all_nth in_set_conv_nth says_def)
  have "closed ?c (res_tests results) subtests [] [] [] []" by (simp add: closed_def new_context_def)
  from logs_states(3) [OF this, of first] have rd: "ready (fold log_one first ?c) (res_tests results) subtests [] []
      (stdout_text first) (stderr_text first)" by (simp add: ready_def logs_states(4))
  have pk: "pkt_type p = PACKETTYPE_EXEC" using says_types(2) [OF ps(2)] by simp
  obtain r1 where v1: "visit_all ?V (ps1 @ ps2 @ [q]) COMMSPARSE_EMPTY ?c = visit_all ?V (ps2 @ [q]) r1 (fold log_one first ?c)"
    using visit_logs [OF ps(3)] by blast
  have "visit_all ?V ps COMMSPARSE_EMPTY (new_context entry subtests results) = visit_all ?V (ps2 @ [q]) r1 (fold log_one first ?c)"
    using first_exec [OF ps(2), of entry subtests results] pk v1 by (simp only: ps(1)) simp
  then have "comms_read_dump (Dump (dump_of ps)) ?V (new_context entry subtests results) =
      visit_all ?V (ps2 @ [q]) r1 (fold log_one first ?c)" by (simp add: read_dump_written [OF ok])
  from that [OF ps(4,5) rd this] show thesis .
qed

definition regular_messages :: "bytes list \<Rightarrow> logs \<Rightarrow> run list \<Rightarrow> u32 \<Rightarrow> bytes \<Rightarrow> message list" where
  "regular_messages argv first rs code timeused =
    Msg_Exec argv # log_messages first @ concat (map run_messages rs) @ [Msg_Exit code timeused]"


text \<open>Two subtests of which the first logs more to its standard error.\<close>

definition quiet_run :: run where
  "quiet_run = \<lparr>run_name = [97], run_before = [(1, [120]), (2, [121, 122])], run_result = str ''SKIP'', run_time = [48],
    run_reason = [], run_after = []\<rparr>"

definition second_run :: run where
  "second_run = quiet_run\<lparr>run_name := [98], run_before := [(2, [119])]\<rparr>"

definition one_entry :: job_list_entry where
  "one_entry = \<lparr>entry_binary = [65], entry_subtests = []\<rparr>"

definition no_results :: results where
  "no_results = \<lparr>res_tests = Map.empty, res_totals = Map.empty, res_runtimes = Map.empty\<rparr>"

lemma runs_sendable:
  assumes "set rs \<subseteq> {quiet_run, quiet_run\<lparr>run_before := [(1, [120, 121])]\<rparr>, second_run}"
  shows "\<exists>ps. list_all2 says ps (regular_messages [[65]] [] rs 0 [48])"
proof (rule packets_exist, rule ballI)
  fix m assume "m \<in> set (regular_messages [[65]] [] rs 0 [48])"
  then consider "m = Msg_Exec [[65]]" | "m = Msg_Exit 0 [48]"
    | r where "r \<in> {quiet_run, quiet_run\<lparr>run_before := [(1, [120, 121])]\<rparr>, second_run}" "m \<in> set (run_messages r)"
    using assms by (auto simp: regular_messages_def log_messages_def)
  then show "message_ok m"
  proof cases
    case 3
    then show ?thesis
      by (auto simp: run_messages_def log_messages_def quiet_run_def second_run_def message_ok_def HEADER_SIZE_def str_def)
  qed (simp_all add: message_ok_def HEADER_SIZE_def)
qed

lemma parse_skip: "parse_result_string (str ''SKIP'') = (str ''skip'', None)"
  by code_simp

lemma run_keys_differ: "generate_piglit_name [65] (Some [97]) 256 \<noteq> generate_piglit_name [65] (Some [98]) 256"
  by code_simp


subsection \<open>Two ways to lose data\<close>

text \<open>C34: The same run, when the test has logged two or more bytes more to its standard output than to its standard
  error by the time a subtest ends that is followed by another: reading the dump faults. The standard error of the
  next subtest is read from the mark in the standard output on, and that read ends behind the NUL that ends the
  buffer of the standard error.\<close>

theorem surplus_output_faults:
  assumes "list_all2 says ps (regular_messages argv first rs code timeused)"
    "distinct (map (run_key (entry_binary entry)) rs)"
    "\<forall>r\<in>set rs. res_tests results (run_key (entry_binary entry) r) = None \<and> snd (parse_result_string (run_result r)) = None"
    "sint code \<noteq> IGT_EXIT_ABORT" "sint code \<noteq> GRACEFUL_EXITCODE" "\<not> marks_fit [] first rs"
  shows "fill_from_comms (Some (concat (map write_packet_with_canary ps))) entry subtests results = None"
proof -
  let ?V = "results_visitor entry"
  obtain ps2 q r1 c where c: "list_all2 says ps2 (concat (map run_messages rs))" "says q (Msg_Exit code timeused)"
    "ready c (res_tests results) subtests [] [] (stdout_text first) (stderr_text first)"
    "comms_read_dump (Dump (dump_of ps)) ?V (new_context entry subtests results) = visit_all ?V (ps2 @ [q]) r1 c"
    by (rule regular_start [OF assms(1) [unfolded regular_messages_def]])
  have "visit_all ?V (ps2 @ [q]) r1 c = None \<or> (\<exists>r2 c'. visit_all ?V (ps2 @ [q]) r1 c = visit_all ?V [q] r2 c' \<and> stuck c')"
    by (rule visit_runs_stuck [OF c(1,3) assms(2) _ _ _ apart_run(2) assms(6)]) (use assms(3) in \<open>simp_all add: apart_def\<close>)
  then show ?thesis
  proof
    assume "visit_all ?V (ps2 @ [q]) r1 c = None"
    then show ?thesis by (simp add: fill_from_comms_def c(4))
  next
    assume "\<exists>r2 c'. visit_all ?V (ps2 @ [q]) r1 c = visit_all ?V [q] r2 c' \<and> stuck c'"
    then obtain r2 c' where v: "visit_all ?V (ps2 @ [q]) r1 c = visit_all ?V [q] r2 c'" "stuck c'" by blast
    then have s: "cstate c' = STATE_BETWEEN_SUBTESTS" "current_dynamic_subtest c' = None" "current_test c' \<noteq> None"
      "comms_finish_subtest c' = None" by (simp_all add: stuck_def)
    obtain c2 rt where "visit_all ?V [q] r2 c' = Some (COMMSPARSE_SUCCESS, c2)"
      "finish_all c2 = map_option (\<lambda>c'. c'\<lparr>exitcode := sint code, cstate := STATE_EXITED, ctx_runtimes := rt\<rparr>) (comms_finish_subtest c')"
      by (rule visit_exit [OF c(2) s(1-3) assms(4,5)])
    then show ?thesis using s(4) by (simp add: fill_from_comms_def c(4) v(1) del: visit_all.simps)
  qed
qed

theorem surplus_output_faults_witness:
  "\<exists>ps. list_all2 says ps (regular_messages [[65]] [] [quiet_run\<lparr>run_before := [(1, [120, 121])]\<rparr>, second_run] 0 [48]) \<and>
    fill_from_comms (Some (concat (map write_packet_with_canary ps))) one_entry [] no_results = None"
proof -
  let ?rs = "[quiet_run\<lparr>run_before := [(1, [120, 121])]\<rparr>, second_run]"
  obtain ps where ps: "list_all2 says ps (regular_messages [[65]] [] ?rs 0 [48])" using runs_sendable [of ?rs] by auto
  have "fill_from_comms (Some (dump_of ps)) one_entry [] no_results = None"
    by (rule surplus_output_faults [OF ps])
      (simp_all add: parse_skip run_keys_differ one_entry_def no_results_def run_key_def quiet_run_def second_run_def
        IGT_EXIT_ABORT_def GRACEFUL_EXITCODE_def)
  then show ?thesis using ps by blast
qed

lemma finish_others:
  "comms_finish_subtest c = Some c' \<Longrightarrow> current_test c \<noteq> Some k \<Longrightarrow> ctx_tests c' k = ctx_tests c k"
  "comms_finish_dynamic_subtest c = Some c' \<Longrightarrow> current_dynamic_subtest c \<noteq> Some k \<Longrightarrow> ctx_tests c' k = ctx_tests c k"
  by (auto simp: comms_finish_subtest_def comms_finish_dynamic_subtest_def Let_def update_test_def split: bind_splits)

lemma forget_dynamic:
  assumes "says p (Msg_Dynamic_Subtest_Start d)" "idx_ok d2" "tests_ok base d2" "in_subtest d2" "cstate d2 = STATE_SUBTEST_STARTED"
    "current_test d2 \<noteq> None" "current_dynamic_subtest d2 = Some key" "ctx_tests d2 key = Some obj"
    "current_subtest_name d2 = Some n" "current_test d2 \<noteq> Some key"
    "generate_piglit_name_for_dynamic (generate_piglit_name (entry_binary entry) (Some n) 256) d 256 \<noteq> key"
  shows "\<exists>d4 e2. visit_packet (results_visitor entry) p d2 = Some (d4, True) \<and> finish_all d4 = Some e2 \<and>
    ctx_tests e2 key = Some obj"
proof -
  let ?dk = "generate_piglit_name_for_dynamic (generate_piglit_name (entry_binary entry) (Some n) 256) d 256"
  obtain i where i: "subtest_at d2 = Some i" "i < length (ctx_subtests d2)" using assms(4) by (auto simp: in_subtest_def)
  define d3 where "d3 = d2\<lparr>ctx_subtests := (ctx_subtests d2)[i := add_dynamic_subtest (ctx_subtests d2 ! i) d],
      current_dynamic_subtest := Some ?dk, ctx_tests := get_or_create_json_object (ctx_tests d2) ?dk, current_dynamic_subtest_name := Some d\<rparr>"
  define d4 where "d4 = (append_both (snprintf_buf 512 (STARTING_DYNAMIC_SUBTEST @ d @ [10])) d3)
    \<lparr>dynamicsubtestresult := None, cstate := STATE_DYNAMIC_SUBTEST_STARTED\<rparr>"
  have "comms_add_new_dynamic_subtest (entry_binary entry) d d2 = Some d3"
    by (simp add: comms_add_new_dynamic_subtest_def i(1) Let_def d3_def assms(9))
  then have v3: "visit_packet (results_visitor entry) p d2 = Some (d4, True)"
    by (simp add: visit_says [OF assms(1)] comms_handle_dynamic_subtest_start_def says_first(3) [OF assms(1)] Let_def d4_def assms(5))
  have "tests_ok (base(key \<mapsto> obj)) (d2\<lparr>current_dynamic_subtest := None\<rparr>)" using assms(3,7) assms(8) by (auto simp: tests_ok_def)
  then have "tests_ok (base(key \<mapsto> obj)) d3" by (rule tests_ok_new [of _ _ _ ?dk]) (simp_all add: d3_def)
  moreover have "idx_ok (append_both (snprintf_buf 512 (STARTING_DYNAMIC_SUBTEST @ d @ [10])) d3)"
    using assms(2) by (simp add: d3_def idx_ok_def append_both_def)
  ultimately have d4: "idx_ok d4" "tests_ok (base(key \<mapsto> obj)) d4" "current_dynamic_subtest d4 = Some ?dk" "current_test d4 = current_test d2"
    by (simp_all add: d4_def d3_def append_both_def idx_ok_def tests_ok_def)
  have o4: "ctx_tests d4 key = Some obj"
    using assms(8) assms(11) by (auto simp: d4_def d3_def append_both_def get_or_create_json_object_def split: option.splits)
  obtain e where e: "comms_finish_dynamic_subtest d4 = Some e" "idx_ok e" "tests_ok (base(key \<mapsto> obj)) e" "current_test e = current_test d4"
    using finish_dynamic_ok [OF d4(1,2)] d4(3) by auto
  obtain e2 where e2: "comms_finish_subtest e = Some e2"
    using finish_subtest_ok [OF e(2,3)] e(4) d4(4) assms(6) by auto
  have "ctx_tests e2 key = Some obj"
    using finish_others(1) [OF e2, of key] finish_others(2) [OF e(1), of key] e(4) d4(3,4) assms(10,11) o4 by simp
  moreover have "finish_all d4 = Some e2" using e e2 d4(3,4) assms(6) by (auto simp: finish_all_def)
  ultimately show ?thesis using v3 by blast
qed

text \<open>C35: When a test that was interrupted inside a subtest with a dynamic subtest is resumed, and starts a
  dynamic subtest of another subtest, the pending dynamic subtest is forgotten: its object keeps what it had
  before, although its result may have been received. The state is any one that satisfies the invariant of the
  handlers (among it that the marks of the two streams are not too far apart, so that the pending subtest can be
  written), and the names are other ones than that of the pending dynamic subtest.\<close>

theorem resumed_dynamic_subtest_lost:
  assumes "comms_inv base c" "cstate c = STATE_DYNAMIC_SUBTEST_STARTED \<or> cstate c = STATE_BETWEEN_DYNAMIC_SUBTESTS"
    "current_dynamic_subtest c = Some key" "current_test c \<noteq> Some key" "ctx_tests c key = Some obj"
    "list_all2 says ps [Msg_Exec argv, Msg_Subtest_Start n, Msg_Dynamic_Subtest_Start d]" "n \<noteq> []"
    "generate_piglit_name (entry_binary entry) (Some n) 256 \<noteq> key"
    "generate_piglit_name_for_dynamic (generate_piglit_name (entry_binary entry) (Some n) 256) d 256 \<noteq> key"
  shows "\<exists>ret c1 c2. visit_all (results_visitor entry) ps COMMSPARSE_SUCCESS c = Some (ret, c1) \<and>
    finish_all c1 = Some c2 \<and> ctx_tests c2 key = Some obj"
proof -
  let ?V = "results_visitor entry"
  obtain p1 p2 p3 where ps: "ps = [p1, p2, p3]" "says p1 (Msg_Exec argv)" "says p2 (Msg_Subtest_Start n)"
      "says p3 (Msg_Dynamic_Subtest_Start d)" using assms(6) by (auto simp: list_all2_Cons2)
  have i: "idx_ok c" and t: "tests_ok base c" and st: "current_test c \<noteq> None"
    using assms(1,2) by (auto simp: comms_inv_def state_ok_def)
  obtain c1 where c1: "comms_finish_subtest c = Some c1" "idx_ok c1" "tests_ok base c1" "current_test c1 = None"
    "current_dynamic_subtest c1 = Some key" using finish_subtest_ok [OF i t st] assms(3) by auto
  have o1: "ctx_tests c1 key = Some obj" using finish_others(1) [OF c1(1) assms(4)] assms(5) by simp
  define d1 where "d1 = c1\<lparr>cmdline := Some (join_args argv), cstate := STATE_AFTER_EXEC\<rparr>"
  have v1: "visit_packet ?V p1 c = Some (d1, True)"
    using assms(2) c1(1) says_first(1) [OF ps(2)] by (auto simp: visit_says [OF ps(2)] comms_handle_exec_def d1_def)
  have d1: "idx_ok d1" "tests_ok base d1" "current_test d1 = None" "current_dynamic_subtest d1 = Some key" "ctx_tests d1 key = Some obj"
    using c1 o1 by (simp_all add: d1_def idx_ok_def tests_ok_def)
  note N = add_new_subtest_ok [OF d1(1-3) assms(7), of "entry_binary entry"]
  define d2 where "d2 = (append_both (snprintf_buf 512 (STARTING_SUBTEST @ n @ [10])) (comms_add_new_subtest (entry_binary entry) n d1))
    \<lparr>subtestresult := None, cstate := STATE_SUBTEST_STARTED\<rparr>"
  have v2: "visit_packet ?V p2 d1 = Some (d2, True)"
    by (simp add: visit_says [OF ps(3)] comms_handle_subtest_start_def says_first(2) [OF ps(3)] Let_def d2_def)
      (simp add: d1_def)
  have d2: "idx_ok d2" "tests_ok base d2" "in_subtest d2" "cstate d2 = STATE_SUBTEST_STARTED" "current_test d2 \<noteq> None"
    "current_dynamic_subtest d2 = Some key"
    using N d1(4) idx_ok_append(2) [OF N(1)] by (simp_all add: d2_def idx_ok_def tests_ok_def in_subtest_def append_both_def)
  have o2: "ctx_tests d2 key = Some obj" "current_subtest_name d2 = Some n" "current_test d2 \<noteq> Some key"
    using d1(5) assms(8) by (auto simp: d2_def append_both_def comms_add_new_subtest_def Let_def get_or_create_json_object_def split: option.splits)
  from forget_dynamic [OF ps(4) d2 o2 assms(9)] obtain d4 e2 where
      "visit_packet ?V p3 d2 = Some (d4, True)" "finish_all d4 = Some e2" "ctx_tests e2 key = Some obj" by blast
  then show ?thesis by (simp add: ps(1) v1 v2)
qed

definition interrupted :: comms_context where
  "interrupted = (new_context \<lparr>entry_binary = [65], entry_subtests = []\<rparr> [\<lparr>sub_name = [98], dynamic_names = [[99]]\<rparr>]
      \<lparr>res_tests = [[98] \<mapsto> new_object, [99] \<mapsto> new_object], res_totals = Map.empty, res_runtimes = Map.empty\<rparr>)
    \<lparr>cstate := STATE_BETWEEN_DYNAMIC_SUBTESTS, current_test := Some [98], current_dynamic_subtest := Some [99], subtest_at := Some 0,
     dynamicsubtestresult := Some (str ''pass'')\<rparr>"

theorem resumed_dynamic_subtest_lost_witness:
  "\<exists>ps ret c1 c2. list_all2 says ps [Msg_Exec [[65]], Msg_Subtest_Start [97], Msg_Dynamic_Subtest_Start [100]] \<and>
    visit_all (results_visitor \<lparr>entry_binary = [65], entry_subtests = []\<rparr>) ps COMMSPARSE_SUCCESS interrupted = Some (ret, c1) \<and>
    finish_all c1 = Some c2 \<and> ctx_tests c2 [99] = Some new_object"
proof -
  let ?ms = "[Msg_Exec [[65]], Msg_Subtest_Start [97], Msg_Dynamic_Subtest_Start [100]]"
  let ?e = "\<lparr>entry_binary = [65], entry_subtests = []\<rparr> :: job_list_entry"
  have "\<forall>m\<in>set ?ms. message_ok m" by (simp add: message_ok_def HEADER_SIZE_def)
  from packets_exist [OF this] obtain ps where ps: "list_all2 says ps ?ms" by blast
  have keys: "generate_piglit_name (entry_binary ?e) (Some [97]) 256 \<noteq> [99]"
    "generate_piglit_name_for_dynamic (generate_piglit_name (entry_binary ?e) (Some [97]) 256) [100] 256 \<noteq> [99]"
    by code_simp+
  have "comms_inv Map.empty interrupted"
    by (auto simp: interrupted_def comms_inv_def idx_ok_def state_ok_def tests_ok_def in_subtest_def new_context_def split: if_splits)
  then have "\<exists>ret c1 c2. visit_all (results_visitor ?e) ps COMMSPARSE_SUCCESS interrupted = Some (ret, c1) \<and>
      finish_all c1 = Some c2 \<and> ctx_tests c2 [99] = Some new_object"
    by (rule resumed_dynamic_subtest_lost [OF _ _ _ _ _ ps _ keys]) (simp_all add: interrupted_def new_context_def)
  then show ?thesis using ps by blast
qed

end
