(* ===== verification/Result_Totals.thy ===== *)
theory Result_Totals
  imports Resultgen
begin

text \<open>
  What happens to the results of a test after they were collected (\<^verbatim>\<open>runner/resultgen.c\<close>): the journal of
  a test without a dump, overriding by warnings, pruning, jobs that were not run, and the totals. Pointers
  into a text are indices; a totals object is named by its key.
\<close>

subsection \<open>Lines that frame the output\<close>

definition next_line :: "bytes \<Rightarrow> nat option \<Rightarrow> nat option" where
  "next_line buf line = (case line of None \<Rightarrow> None | Some n \<Rightarrow>
    (case split_at_char 10 (drop n buf) of
       (l, None) \<Rightarrow> None
     | (l, Some r) \<Rightarrow> (let ret = n + length l + 1 in if ret < length buf then Some ret else None)))"

definition valid_char_for_subtest_name :: "u8 \<Rightarrow> bool" where
  "valid_char_for_subtest_name x \<longleftrightarrow> x = 45 \<or> x = 95 \<or> (48 \<le> x \<and> x \<le> 57) \<or> (65 \<le> x \<and> x \<le> 90) \<or> (97 \<le> x \<and> x \<le> 122)"

definition is_subtest_result_line :: "bytes \<Rightarrow> bytes \<Rightarrow> bool" where
  "is_subtest_result_line needle line =
    (let line = drop (length needle) line in
     if line = [] \<or> \<not> valid_char_for_subtest_name (hd line) then False
     else (case dropWhile valid_char_for_subtest_name line of c # d # _ \<Rightarrow> c = 58 \<and> d = 32 | _ \<Rightarrow> False))"

type_synonym needle = "bytes \<times> bool"

text \<open>The flag says whether the needle has to pass \<open>is_subtest_result_line\<close>.\<close>

definition needle_at :: "needle list \<Rightarrow> bytes \<Rightarrow> bytes option" where
  "needle_at needles here = map_option fst (List.find (\<lambda>(s, validate). take (length s) here = s \<and>
    (validate \<longrightarrow> is_subtest_result_line s here)) needles)"

lemma next_line_later: "next_line buf (Some n) = Some k \<Longrightarrow> n < k \<and> k < length buf"
  by (auto simp: next_line_def Let_def split: prod.splits option.splits if_splits)

function find_matches :: "bytes \<Rightarrow> nat \<Rightarrow> needle list \<Rightarrow> (nat \<times> bytes) list" where
  "find_matches buf n needles =
    (if length buf \<le> n then []
     else (case needle_at needles (drop n buf) of Some s \<Rightarrow> [(n, s)] | None \<Rightarrow> []) @
       (case next_line buf (Some n) of None \<Rightarrow> [] | Some k \<Rightarrow> find_matches buf k needles))"
  by pat_completeness auto
termination
  by (relation "measure (\<lambda>(buf, n, needles). length buf - n)") (auto dest: next_line_later)

declare find_matches.simps [simp del]

definition stderr_needles :: "needle list" where
  "stderr_needles = [(STARTING_SUBTEST, False), (SUBTEST_RESULT, True), (STARTING_DYNAMIC_SUBTEST, False), (DYNAMIC_SUBTEST_RESULT, True)]"

fun warnings_loop :: "bytes \<Rightarrow> (nat \<times> bytes) list \<Rightarrow> nat option \<Rightarrow> bool" where
  "warnings_loop buf [] beg = False"
| "warnings_loop buf (m # ms) beg = (if Some (fst m) \<noteq> beg then True else warnings_loop buf ms (next_line buf beg))"

definition stderr_contains_warnings :: "bytes \<Rightarrow> bool" where
  "stderr_contains_warnings buf = warnings_loop buf (find_matches buf 0 stderr_needles) (Some 0)"

subsection \<open>Overriding\<close>

definition json_field_has_data :: "bytes option \<Rightarrow> bool" where
  "json_field_has_data field = (case field of None \<Rightarrow> False | Some s \<Rightarrow> s \<noteq> [])"

definition override_completely_empty_results :: "test_obj \<Rightarrow> test_obj" where
  "override_completely_empty_results obj =
    (if json_field_has_data (obj_out obj) \<or> json_field_has_data (obj_err obj) \<or> json_field_has_data (obj_dmesg obj) then obj
     else set_result (obj\<lparr>obj_out := Some (str ''This test didn't produce any output. '' @
       str ''The machine probably rebooted ungracefully.'' @ [10])\<rparr>) (Some (str ''incomplete'')))"

definition override_result_single :: "test_obj \<Rightarrow> test_obj" where
  "override_result_single obj =
    (let errtext = (case obj_err obj of None \<Rightarrow> [] | Some s \<Rightarrow> s);
         result = (case obj_result obj of None \<Rightarrow> [] | Some s \<Rightarrow> s);
         dmesgwarns = (obj_dmesg_warnings obj \<noteq> None);
         (obj, result) = (if result = str ''pass'' \<and> stderr_contains_warnings errtext
           then (set_result obj (Some (str ''warn'')), str ''warn'') else (obj, result));
         obj = (if dmesgwarns then
             (if result = str ''pass'' \<or> result = str ''warn'' then set_result obj (Some (str ''dmesg-warn''))
              else if result = str ''fail'' then set_result obj (Some (str ''dmesg-fail'')) else obj)
           else obj) in
     override_completely_empty_results obj)"

text \<open>What is done with the object of a name, which is made if there is none.\<close>

definition at_object :: "bytes \<Rightarrow> (test_obj \<Rightarrow> test_obj) \<Rightarrow> tests \<Rightarrow> tests" where
  "at_object key f t = (let t1 = get_or_create_json_object t key in t1(key := map_option f (t1 key)))"

definition override_subtest :: "bytes \<Rightarrow> subtest \<Rightarrow> tests \<Rightarrow> tests" where
  "override_subtest binary sub t =
    (let piglit_name = generate_piglit_name binary (Some (sub_name sub)) 256 in
     fold (\<lambda>d. at_object (generate_piglit_name_for_dynamic piglit_name d 256) override_result_single) (dynamic_names sub) (at_object piglit_name override_result_single t))"

definition override_results :: "bytes \<Rightarrow> subtest list \<Rightarrow> tests \<Rightarrow> tests" where
  "override_results binary subtests t =
    (if subtests = [] then at_object (generate_piglit_name binary None 256) override_result_single t
     else fold (override_subtest binary) subtests t)"

subsection \<open>Pruning\<close>

text \<open>\<open>strncpy\<close> of 511 bytes leaves no NUL behind a longer name: the comparison reads uninitialised bytes.\<close>

definition result_is_requested :: "job_list_entry \<Rightarrow> bytes \<Rightarrow> bytes option \<Rightarrow> bool option" where
  "result_is_requested entry subtestname dynamic_name = (case dynamic_name of
       Some d \<Rightarrow> Some (snprintf_buf 511 (subtestname @ str ''@'' @ d) \<in> set (entry_subtests entry))
     | None \<Rightarrow> if 511 \<le> length subtestname then None else Some (subtestname \<in> set (entry_subtests entry)))"

definition json_object_object_del :: "tests \<Rightarrow> bytes \<Rightarrow> tests" where
  "json_object_object_del t key = t(key := None)"

fun prune_dynamic :: "prune_mode_t \<Rightarrow> job_list_entry \<Rightarrow> bytes \<Rightarrow> bytes \<Rightarrow> bytes list \<Rightarrow> tests \<Rightarrow> tests option" where
  "prune_dynamic mode entry piglit_name name [] t = Some t"
| "prune_dynamic mode entry piglit_name name (d # ds) t = do {
     drop_it \<leftarrow> (if mode = PRUNE_KEEP_SUBTESTS then Some True
       else if mode = PRUNE_KEEP_REQUESTED then map_option Not (result_is_requested entry name (Some d)) else Some False);
     prune_dynamic mode entry piglit_name name ds
       (if drop_it then json_object_object_del t (generate_piglit_name_for_dynamic piglit_name d 256) else t) }"

fun prune_loop :: "prune_mode_t \<Rightarrow> job_list_entry \<Rightarrow> subtest list \<Rightarrow> tests \<Rightarrow> tests option" where
  "prune_loop mode entry [] t = Some t"
| "prune_loop mode entry (sub # subs) t =
    (let piglit_name = generate_piglit_name (entry_binary entry) (Some (sub_name sub)) 256 in
     if mode = PRUNE_KEEP_DYNAMIC then
       prune_loop mode entry subs (if dynamic_names sub \<noteq> [] then json_object_object_del t piglit_name else t)
     else do {
       drop_it \<leftarrow> (if mode = PRUNE_KEEP_REQUESTED then map_option Not (result_is_requested entry (sub_name sub) None) else Some False);
       t1 \<leftarrow> prune_dynamic mode entry piglit_name (sub_name sub) (dynamic_names sub)
         (if drop_it then json_object_object_del t piglit_name else t);
       prune_loop mode entry subs t1 })"

definition prune_subtests :: "settings \<Rightarrow> job_list_entry \<Rightarrow> subtest list \<Rightarrow> tests \<Rightarrow> tests option" where
  "prune_subtests settings entry subtests t =
    (if prune_mode settings = PRUNE_KEEP_ALL then Some t else prune_loop (prune_mode settings) entry subtests t)"

subsection \<open>Totals\<close>

definition zero_counts :: "bytes \<rightharpoonup> int" where
  "zero_counts = [str ''crash'' \<mapsto> 0, str ''pass'' \<mapsto> 0, str ''dmesg-fail'' \<mapsto> 0, str ''dmesg-warn'' \<mapsto> 0, str ''skip'' \<mapsto> 0,
    str ''incomplete'' \<mapsto> 0, str ''abort'' \<mapsto> 0, str ''timeout'' \<mapsto> 0, str ''notrun'' \<mapsto> 0, str ''fail'' \<mapsto> 0, str ''warn'' \<mapsto> 0]"

definition get_totals_object :: "totals \<Rightarrow> bytes \<Rightarrow> totals" where
  "get_totals_object totals key = (case totals key of Some _ \<Rightarrow> totals | None \<Rightarrow> totals(key \<mapsto> zero_counts))"

definition add_result_to_totals :: "bytes \<Rightarrow> bytes \<Rightarrow> totals \<Rightarrow> totals" where
  "add_result_to_totals key result totals = (case totals key of
       None \<Rightarrow> totals
     | Some obj \<Rightarrow> (case obj result of None \<Rightarrow> totals | Some old \<Rightarrow> totals(key \<mapsto> obj(result \<mapsto> old + 1))))"

definition add_three :: "bytes \<Rightarrow> bytes \<Rightarrow> totals \<Rightarrow> totals" where
  "add_three binarytotal result totals =
    add_result_to_totals binarytotal result (add_result_to_totals (str ''root'') result (add_result_to_totals [] result totals))"

definition subtest_keys :: "bytes \<Rightarrow> subtest \<Rightarrow> bytes list" where
  "subtest_keys binary sub = (let piglit_name = generate_piglit_name binary (Some (sub_name sub)) 256 in
    piglit_name # map (\<lambda>d. generate_piglit_name_for_dynamic piglit_name d 256) (dynamic_names sub))"

text \<open>The two loops go through the names in this order; a test without a result ends both.\<close>

fun totals_loop :: "bytes \<Rightarrow> tests \<Rightarrow> bytes list \<Rightarrow> totals \<Rightarrow> totals" where
  "totals_loop binarytotal t [] totals = totals"
| "totals_loop binarytotal t (key # keys) totals = (case t key of
       None \<Rightarrow> totals_loop binarytotal t keys totals
     | Some obj \<Rightarrow> (case obj_result obj of
         None \<Rightarrow> totals
       | Some result \<Rightarrow> totals_loop binarytotal t keys (add_three binarytotal result totals)))"

definition add_to_totals :: "bytes \<Rightarrow> subtest list \<Rightarrow> results \<Rightarrow> results" where
  "add_to_totals binary subtests results =
    (let binarytotal = generate_piglit_name binary None 256;
         totals = get_totals_object (get_totals_object (get_totals_object (res_totals results) []) (str ''root'')) binarytotal in
     if subtests = [] then
       (let t = get_or_create_json_object (res_tests results) binarytotal in
        results\<lparr>res_tests := t, res_totals := totals_loop binarytotal t [binarytotal] totals\<rparr>)
     else results\<lparr>res_totals := totals_loop binarytotal (res_tests results) (concat (map (subtest_keys binary) subtests)) totals\<rparr>)"

subsection \<open>Jobs that were not run\<close>

definition notrun_object :: "test_obj \<Rightarrow> test_obj" where
  "notrun_object obj = obj\<lparr>obj_out := Some [], obj_err := Some [], obj_dmesg := Some [], obj_result := Some (str ''notrun'')\<rparr>"

definition try_add_notrun_results :: "job_list_entry \<Rightarrow> settings \<Rightarrow> results \<Rightarrow> results" where
  "try_add_notrun_results entry settings results =
    (if entry_subtests entry = [] \<and> multiple_mode settings then results
     else (let binary = entry_binary entry;
         t = (if entry_subtests entry = [] then at_object (generate_piglit_name binary None 256) notrun_object (res_tests results) else res_tests results);
         t1 = fold (\<lambda>s. at_object (generate_piglit_name binary (Some s) 256) notrun_object) (entry_subtests entry) t;
         subs = fold (\<lambda>s subs. add_subtest subs s) (entry_subtests entry) [] in
       add_to_totals binary subs (results\<lparr>res_tests := t1\<rparr>)))"

subsection \<open>The journal\<close>

text \<open>\<open>atoi\<close>: blanks, a sign, digits. It is \<open>strtol\<close>, which stops at the bounds of a \<open>long\<close> (64 bits), cast to an
  \<open>int\<close>, which keeps the low 32 bits.\<close>

definition digits_value :: "bytes \<Rightarrow> int" where
  "digits_value s = fold (\<lambda>d v. 10 * v + uint (d - 48)) (takeWhile (\<lambda>b. 48 \<le> b \<and> b \<le> 57) s) 0"

definition c_strtol :: "bytes \<Rightarrow> int" where
  "c_strtol s = max (- (2 ^ 63)) (min (2 ^ 63 - 1) (case dropWhile c_isspace s of
       [] \<Rightarrow> 0
     | c # r \<Rightarrow> if c = 45 then - digits_value r else if c = 43 then digits_value r else digits_value (c # r)))"

definition c_atoi :: "bytes \<Rightarrow> int" where
  "c_atoi s = sint (word_of_int (c_strtol s) :: u32)"

record journal_state =
  j_subtests :: "subtest list"
  j_tests :: tests
  j_runtimes :: tests
  j_exitcode :: int
  j_timeout :: bool

definition line_time :: "bytes \<Rightarrow> runtime" where
  "line_time line = (case snd (split_at_char 40 (cstring line)) of None \<Rightarrow> Zero | Some p \<Rightarrow> Strtod p)"

definition journal_line :: "job_list_entry \<Rightarrow> bytes \<Rightarrow> journal_state \<Rightarrow> journal_state" where
  "journal_line entry line j =
    (let binary = entry_binary entry; name = generate_piglit_name binary None 256; time = line_time line in
     if take 5 line = str ''exit:'' then
       (let j1 = j\<lparr>j_exitcode := c_atoi (drop 5 (cstring line)), j_runtimes := at_object name (\<lambda>obj. add_runtime obj time) (j_runtimes j)\<rparr> in
        if j_subtests j = [] \<and> entry_subtests entry = [] then j1\<lparr>j_tests := at_object name (\<lambda>obj. add_runtime obj time) (j_tests j1)\<rparr>
        else j1)
     else if take 8 line = str ''timeout:'' then
       (let j1 = j\<lparr>j_timeout := True\<rparr> in
        if j_subtests j \<noteq> [] then
          (let key = generate_piglit_name binary (Some (sub_name (List.last (j_subtests j)))) 256 in
           j1\<lparr>j_tests := at_object key (\<lambda>obj. add_runtime (set_result obj (Some (str ''timeout''))) time) (j_tests j),
              j_runtimes := at_object name (\<lambda>obj. add_runtime obj time) (j_runtimes j)\<rparr>)
        else j1)
     else j\<lparr>j_subtests := add_subtest (j_subtests j) (cstring line)\<rparr>)"

definition fill_from_journal :: "bytes \<Rightarrow> job_list_entry \<Rightarrow> subtest list \<Rightarrow> results \<Rightarrow> subtest list \<times> results" where
  "fill_from_journal f entry subtests results =
    (let binary = entry_binary entry;
         j = fold (journal_line entry) (file_lines f) \<lparr>j_subtests = subtests, j_tests = res_tests results,
           j_runtimes = res_runtimes results, j_exitcode = INCOMPLETE_EXITCODE, j_timeout = False\<rparr>;
         t1 = (if j_subtests j \<noteq> [] \<and> (j_exitcode j = IGT_EXIT_ABORT \<or> j_exitcode j = GRACEFUL_EXITCODE) then
             at_object (generate_piglit_name binary (Some (sub_name (List.last (j_subtests j)))) 256)
               (\<lambda>obj. set_result obj (Some (if j_exitcode j = IGT_EXIT_ABORT then str ''abort'' else str ''notrun''))) (j_tests j)
           else j_tests j) in
     if j_subtests j = [] then
       (let result = (if j_timeout j then str ''timeout'' else result_from_exitcode (j_exitcode j));
            subtestname = (case entry_subtests entry of [] \<Rightarrow> None | s # _ \<Rightarrow> Some s);
            subs = (case subtestname of None \<Rightarrow> [] | Some s \<Rightarrow> add_subtest [] s) in
        (subs, results\<lparr>res_tests := at_object (generate_piglit_name binary subtestname 256) (\<lambda>obj. set_result obj (Some result)) t1,
          res_runtimes := j_runtimes j\<rparr>))
     else (j_subtests j, results\<lparr>res_tests := t1, res_runtimes := j_runtimes j\<rparr>))"

end
