(* ===== verification/Totals_Correct.thy ===== *)
theory Totals_Correct
  imports Result_Totals
begin

text \<open>
  What the totals count, which texts on standard error count as warnings, what is reported for tests that
  left only a journal or were not run, and that pruning only deletes.
\<close>

subsection \<open>Counting\<close>

definition total_count :: "totals \<Rightarrow> bytes \<Rightarrow> bytes \<Rightarrow> int" where
  "total_count totals key result = (case totals key of None \<Rightarrow> 0 | Some obj \<Rightarrow> (case obj result of None \<Rightarrow> 0 | Some n \<Rightarrow> n))"

definition totals_ok :: "totals \<Rightarrow> bool" where
  "totals_ok totals \<longleftrightarrow> (\<forall>key obj. totals key = Some obj \<longrightarrow> dom obj = dom zero_counts)"

definition result_of :: "tests \<Rightarrow> bytes \<Rightarrow> bytes option" where
  "result_of t key = (case t key of None \<Rightarrow> None | Some obj \<Rightarrow> obj_result obj)"

lemma zero_counts_value: "zero_counts r = Some n \<Longrightarrow> n = 0"
  by (auto simp: zero_counts_def split: if_splits)

lemma get_totals_object_simps:
  "totals_ok totals \<Longrightarrow> totals_ok (get_totals_object totals key)"
  "total_count (get_totals_object totals key) = total_count totals"
  "dom (get_totals_object totals key) = insert key (dom totals)"
  using zero_counts_value
  by (auto simp: get_totals_object_def totals_ok_def total_count_def fun_eq_iff split: option.splits)

lemma add_result_eq:
  assumes "totals_ok totals" "totals key = Some obj"
  shows "add_result_to_totals key r totals =
    (case obj r of None \<Rightarrow> totals | Some n \<Rightarrow> totals(key \<mapsto> obj(r \<mapsto> n + 1)))"
  using assms by (simp add: add_result_to_totals_def)

lemma add_result_simps:
  assumes "totals_ok totals" "key \<in> dom totals"
  shows "totals_ok (add_result_to_totals key r totals)" "dom (add_result_to_totals key r totals) = dom totals"
    "total_count (add_result_to_totals key r totals) g s =
      total_count totals g s + (if g = key \<and> s = r \<and> r \<in> dom zero_counts then 1 else 0)"
proof -
  obtain obj where obj: "totals key = Some obj" using assms(2) by auto
  have d: "dom obj = dom zero_counts" using assms(1) obj by (simp add: totals_ok_def)
  have "totals_ok (add_result_to_totals key r totals) \<and> dom (add_result_to_totals key r totals) = dom totals \<and>
    total_count (add_result_to_totals key r totals) g s =
      total_count totals g s + (if g = key \<and> s = r \<and> r \<in> dom zero_counts then 1 else 0)"
  proof (cases "obj r")
    case None
    then have "r \<notin> dom zero_counts" using d by auto
    then show ?thesis using assms by (simp add: add_result_eq [OF assms(1) obj] None)
  next
    case (Some n)
    then have r: "r \<in> dom zero_counts" using d by auto
    then have "totals_ok (totals(key \<mapsto> obj(r \<mapsto> n + 1)))" using assms(1) d by (auto simp: totals_ok_def)
    then show ?thesis using assms(2) r Some obj by (auto simp: add_result_eq [OF assms(1) obj] total_count_def)
  qed
  then show "totals_ok (add_result_to_totals key r totals)" "dom (add_result_to_totals key r totals) = dom totals"
    "total_count (add_result_to_totals key r totals) g s =
      total_count totals g s + (if g = key \<and> s = r \<and> r \<in> dom zero_counts then 1 else 0)" by simp_all
qed

definition groups :: "bytes \<Rightarrow> bytes set" where
  "groups binary = {[], str ''root'', generate_piglit_name binary None 256}"

lemma piglit_name_prefix: "\<exists>s. generate_piglit_name binary None 256 = str ''igt@'' @ s"
  by (simp add: generate_piglit_name_def snprintf_buf_def str_def)

lemma groups_distinct:
  "generate_piglit_name binary None 256 \<noteq> []" "generate_piglit_name binary None 256 \<noteq> str ''root''" "str ''root'' \<noteq> []"
  using piglit_name_prefix [of binary] by (auto simp: str_def)

lemma add_three_simps:
  fixes binary :: bytes
  assumes "totals_ok totals" "groups binary \<subseteq> dom totals"
  defines "key \<equiv> generate_piglit_name binary None 256"
  shows "totals_ok (add_three key r totals)" "dom (add_three key r totals) = dom totals"
    "total_count (add_three key r totals) g s =
      total_count totals g s + (if g \<in> groups binary \<and> s = r \<and> r \<in> dom zero_counts then 1 else 0)"
  using assms groups_distinct(1,2) [of binary] groups_distinct(3)
  by (auto simp: add_three_def add_result_simps groups_def)

lemma totals_loop_counts:
  assumes "totals_ok totals" "groups binary \<subseteq> dom totals" "\<forall>k\<in>set keys. t k \<noteq> None \<longrightarrow> result_of t k \<noteq> None"
  defines "key \<equiv> generate_piglit_name binary None 256"
  shows "total_count (totals_loop key t keys totals) g s = total_count totals g s +
      (if g \<in> groups binary \<and> s \<in> dom zero_counts then int (count_list (map (result_of t) keys) (Some s)) else 0)"
    "totals_ok (totals_loop key t keys totals)"
proof -
  have "total_count (totals_loop key t keys totals) g s = total_count totals g s +
      (if g \<in> groups binary \<and> s \<in> dom zero_counts then int (count_list (map (result_of t) keys) (Some s)) else 0) \<and>
    totals_ok (totals_loop key t keys totals)"
    using assms(1-3)
  proof (induction keys arbitrary: totals)
    case (Cons k keys)
    show ?case
    proof (cases "t k")
      case None
      then have "result_of t k = None" by (simp add: result_of_def)
      then show ?thesis using Cons.IH [OF Cons.prems(1,2)] Cons.prems(3) None by simp
    next
      case (Some obj)
      then obtain r where r: "obj_result obj = Some r" "result_of t k = Some r"
        using Cons.prems(3) by (auto simp: result_of_def)
      note A = add_three_simps [OF Cons.prems(1,2), of r, folded key_def]
      have "groups binary \<subseteq> dom (add_three key r totals)" using Cons.prems(2) A(2) by simp
      from Cons.IH [OF A(1) this] Cons.prems(3) show ?thesis by (simp add: Some r A(3))
    qed
  qed simp
  then show "total_count (totals_loop key t keys totals) g s = total_count totals g s +
      (if g \<in> groups binary \<and> s \<in> dom zero_counts then int (count_list (map (result_of t) keys) (Some s)) else 0)"
    "totals_ok (totals_loop key t keys totals)" by simp_all
qed

text \<open>The names whose results count: the test, or its subtests with their dynamic subtests.\<close>

definition counted_keys :: "bytes \<Rightarrow> subtest list \<Rightarrow> bytes list" where
  "counted_keys binary subtests = (if subtests = [] then [generate_piglit_name binary None 256]
    else concat (map (subtest_keys binary) subtests))"

lemma totals_count_correct:
  assumes "totals_ok (res_totals results)"
    "\<forall>k\<in>set (counted_keys binary subtests). res_tests results k \<noteq> None \<longrightarrow> result_of (res_tests results) k \<noteq> None"
    "subtests = [] \<longrightarrow> res_tests results (generate_piglit_name binary None 256) \<noteq> None"
  shows "total_count (res_totals (add_to_totals binary subtests results)) g s = total_count (res_totals results) g s +
      (if g \<in> {[], str ''root'', generate_piglit_name binary None 256} \<and> s \<in> dom zero_counts
       then int (count_list (map (result_of (res_tests results)) (counted_keys binary subtests)) (Some s)) else 0) \<and>
    totals_ok (res_totals (add_to_totals binary subtests results)) \<and> res_tests (add_to_totals binary subtests results) = res_tests results"
proof -
  let ?key = "generate_piglit_name binary None 256"
  define totals where "totals = get_totals_object (get_totals_object (get_totals_object (res_totals results) []) (str ''root'')) ?key"
  have t: "totals_ok totals" "groups binary \<subseteq> dom totals" "total_count totals = total_count (res_totals results)"
    using assms(1) by (auto simp: totals_def get_totals_object_simps groups_def)
  have o: "subtests = [] \<longrightarrow> get_or_create_json_object (res_tests results) ?key = res_tests results"
    using assms(3) by (auto simp: get_or_create_json_object_def)
  have a: "res_totals (add_to_totals binary subtests results) =
      totals_loop ?key (res_tests results) (counted_keys binary subtests) totals"
    "res_tests (add_to_totals binary subtests results) = res_tests results"
    using o by (simp_all add: add_to_totals_def Let_def totals_def counted_keys_def)
  show ?thesis using totals_loop_counts [OF t(1,2) assms(2)] by (simp only: a t(3) groups_def simp_thms)
qed

text \<open>C36: Adding a test to the totals raises the count of every result word, in the totals of everything, of
  the root and of the binary, by the number of its subtests and dynamic subtests that have that result (or
  of the test itself, when it has no subtests), and changes no other count, provided that the tests that
  were recorded have results; pruned tests do not count.\<close>

theorem totals_count_results:
  assumes "totals_ok (res_totals results)"
    "\<forall>k\<in>set (counted_keys binary subtests). res_tests results k \<noteq> None \<longrightarrow> result_of (res_tests results) k \<noteq> None"
    "subtests = [] \<longrightarrow> res_tests results (generate_piglit_name binary None 256) \<noteq> None"
  shows "total_count (res_totals (add_to_totals binary subtests results)) g s = total_count (res_totals results) g s +
      (if g \<in> {[], str ''root'', generate_piglit_name binary None 256} \<and> s \<in> dom zero_counts
       then int (count_list (map (result_of (res_tests results)) (counted_keys binary subtests)) (Some s)) else 0) \<and>
    totals_ok (res_totals (add_to_totals binary subtests results)) \<and> res_tests (add_to_totals binary subtests results) = res_tests results"
  by (rule totals_count_correct [OF assms])

definition example_results :: results where
  "example_results = \<lparr>res_tests = [generate_piglit_name [65] (Some [97]) 256 \<mapsto> new_object\<lparr>obj_result := Some (str ''skip'')\<rparr>],
    res_totals = Map.empty, res_runtimes = Map.empty\<rparr>"

theorem totals_count_results_witness:
  "total_count (res_totals (add_to_totals [65] [\<lparr>sub_name = [97], dynamic_names = []\<rparr>, \<lparr>sub_name = [98], dynamic_names = []\<rparr>] example_results))
    (str ''root'') (str ''skip'') = 1"
proof -
  let ?a = "generate_piglit_name [65] (Some [97]) 256" and ?b = "generate_piglit_name [65] (Some [98]) 256"
  let ?subs = "[\<lparr>sub_name = [97], dynamic_names = []\<rparr>, \<lparr>sub_name = [98], dynamic_names = []\<rparr>]"
  have k: "counted_keys [65] ?subs = [?a, ?b]" by (simp add: counted_keys_def subtest_keys_def Let_def)
  have ne: "?b \<noteq> ?a" by code_simp
  have r: "result_of (res_tests example_results) ?a = Some (str ''skip'')" "result_of (res_tests example_results) ?b = None"
    "res_tests example_results ?b = None" using ne by (simp_all add: result_of_def example_results_def)
  have "str ''skip'' \<in> dom zero_counts" by (simp add: zero_counts_def str_def)
  moreover have "total_count (res_totals (add_to_totals [65] ?subs example_results)) g s = total_count (res_totals example_results) g s +
      (if g \<in> {[], str ''root'', generate_piglit_name [65] None 256} \<and> s \<in> dom zero_counts
       then int (count_list (map (result_of (res_tests example_results)) (counted_keys [65] ?subs)) (Some s)) else 0)" for g s
    by (rule totals_count_results [THEN conjunct1]) (use r in \<open>simp_all only: k, auto simp: example_results_def totals_ok_def\<close>)
  moreover have "total_count (res_totals example_results) g s = 0" for g s by (simp add: total_count_def example_results_def)
  ultimately show ?thesis by (simp add: k r)
qed

subsection \<open>Warnings\<close>

definition is_marker :: "bytes \<Rightarrow> bool" where
  "is_marker line \<longleftrightarrow> needle_at stderr_needles line \<noteq> None"

fun late_marker :: "bool list \<Rightarrow> bool" where
  "late_marker [] = False"
| "late_marker (b # bs) = (if b then late_marker bs else True \<in> set bs)"

lemma late_marker_iff: "late_marker bs \<longleftrightarrow> (\<exists>i j. i < j \<and> j < length bs \<and> \<not> bs ! i \<and> bs ! j)"
proof (induction bs)
  case (Cons b bs)
  have "(\<exists>i j. i < j \<and> j < length (b # bs) \<and> \<not> (b # bs) ! i \<and> (b # bs) ! j) \<longleftrightarrow>
      (\<not> b \<and> (\<exists>j<length bs. bs ! j)) \<or> (\<exists>i j. i < j \<and> j < length bs \<and> \<not> bs ! i \<and> bs ! j)" (is "?L = ?R")
  proof
    assume ?L
    then obtain i j where "i < j" "j < length (b # bs)" "\<not> (b # bs) ! i" "(b # bs) ! j" by blast
    then show ?R by (cases i; cases j) auto
  next
    assume ?R
    then show ?L
    proof
      assume "\<not> b \<and> (\<exists>j<length bs. bs ! j)"
      then obtain j where "\<not> b" "j < length bs" "bs ! j" by blast
      then show ?L by (intro exI [of _ 0] exI [of _ "Suc j"]) simp
    next
      assume "\<exists>i j. i < j \<and> j < length bs \<and> \<not> bs ! i \<and> bs ! j"
      then obtain i j where "i < j" "j < length bs" "\<not> bs ! i" "bs ! j" by blast
      then show ?L by (intro exI [of _ "Suc i"] exI [of _ "Suc j"]) simp
    qed
  qed
  moreover have "True \<in> set bs \<longleftrightarrow> (\<exists>j<length bs. bs ! j)" by (metis in_set_conv_nth)
  ultimately show ?case using Cons.IH by auto
qed simp

text \<open>Whether a line is a marker is seen from the line alone.\<close>

lemma valid_char_newline: "\<not> valid_char_for_subtest_name 10"
  by (simp add: valid_char_for_subtest_name_def)

lemma colon_blank_line:
  "10 \<notin> set b \<Longrightarrow> (case b @ 10 # r of c # d # _ \<Rightarrow> c = 58 \<and> d = (32 :: u8) | _ \<Rightarrow> False) =
    (case b @ [10] of c # d # _ \<Rightarrow> c = 58 \<and> d = 32 | _ \<Rightarrow> False)"
  by (cases b; cases r) (auto split: list.splits simp: append_eq_Cons_conv Cons_eq_append_conv)

lemma result_line_local:
  assumes "10 \<notin> set l" "length needle \<le> length l"
  shows "is_subtest_result_line needle (l @ 10 # r) = is_subtest_result_line needle (l @ [10])"
proof -
  define a where "a = drop (length needle) l"
  have a: "10 \<notin> set a" using assms(1) by (auto simp: a_def dest: in_set_dropD)
  have d: "drop (length needle) (l @ x) = a @ x" for x using assms(2) by (simp add: a_def)
  have w: "dropWhile valid_char_for_subtest_name (a @ 10 # x) = dropWhile valid_char_for_subtest_name a @ 10 # x" for x
    by (simp add: dropWhile_append3 valid_char_newline)
  have b: "10 \<notin> set (dropWhile valid_char_for_subtest_name a)" using a set_dropWhileD by metis
  have h: "hd (a @ 10 # x) = hd (a @ [10])" for x by (cases a) simp_all
  show ?thesis unfolding is_subtest_result_line_def Let_def d w colon_blank_line [OF b, of r] h [of r] by simp
qed

lemma needle_at_local:
  assumes "10 \<notin> set l" "\<forall>(s, v)\<in>set needles. 10 \<notin> set s"
  shows "needle_at needles (l @ 10 # r) = needle_at needles (l @ [10])"
proof -
  have "(take (length s) (l @ 10 # r) = s \<and> (v \<longrightarrow> is_subtest_result_line s (l @ 10 # r))) =
      (take (length s) (l @ [10]) = s \<and> (v \<longrightarrow> is_subtest_result_line s (l @ [10])))" if "(s, v) \<in> set needles" for s v
  proof (cases "length s \<le> length l")
    case True
    then show ?thesis by (simp add: result_line_local [OF assms(1) True, of r])
  next
    case False
    have s: "10 \<notin> set s" using assms(2) that by auto
    obtain k where "length s - length l = Suc k" using False by (cases "length s - length l") auto
    then have "10 \<in> set (take (length s) (l @ 10 # x))" for x by simp
    then have "take (length s) (l @ 10 # x) \<noteq> s" for x using s by metis
    then show ?thesis by simp
  qed
  then have "List.find (\<lambda>(s, v). take (length s) (l @ 10 # r) = s \<and> (v \<longrightarrow> is_subtest_result_line s (l @ 10 # r))) needles =
      List.find (\<lambda>(s, v). take (length s) (l @ [10]) = s \<and> (v \<longrightarrow> is_subtest_result_line s (l @ [10]))) needles"
    by (intro find_cong) auto
  then show ?thesis by (simp add: needle_at_def)
qed

lemma stderr_needles_lines: "\<forall>(s, v)\<in>set stderr_needles. 10 \<notin> set s"
  by code_simp

lemma marker_local: "10 \<notin> set l \<Longrightarrow> (needle_at stderr_needles (l @ 10 # r) = None) = (\<not> is_marker (l @ [10]))"
  using needle_at_local [OF _ stderr_needles_lines, of l r] by (simp add: is_marker_def)

lemma split_at_char_text:
  assumes "split_at_char c s = (l, o_r)"
  shows "s = l @ (case o_r of None \<Rightarrow> [] | Some r \<Rightarrow> c # r)"
proof -
  define w where "w = takeWhile (\<lambda>b. b \<noteq> c) s"
  define d where "d = dropWhile (\<lambda>b. b \<noteq> c) s"
  have s: "s = w @ d" unfolding w_def d_def by simp
  have e: "l = w" "o_r = (case d of [] \<Rightarrow> None | _ # r \<Rightarrow> Some r)" using assms unfolding split_at_char_def w_def d_def by simp_all
  show ?thesis
  proof (cases d)
    case (Cons x r)
    then have "x = c" by (auto simp: d_def dropWhile_eq_Cons_conv)
    then show ?thesis unfolding e s Cons by simp
  next
    case Nil
    show ?thesis unfolding e s Nil by simp
  qed
qed

text \<open>The loop over the matches, from the start of any line.\<close>

lemma warnings_from:
  "n < length buf \<Longrightarrow>
    warnings_loop buf (find_matches buf n stderr_needles) (Some n) = late_marker (map is_marker (file_lines (drop n buf))) \<and>
    (find_matches buf n stderr_needles = [] \<longleftrightarrow> True \<notin> set (map is_marker (file_lines (drop n buf)))) \<and>
    (\<forall>m\<in>set (find_matches buf n stderr_needles). n \<le> fst m)"
proof (induction "length buf - n" arbitrary: n rule: less_induct)
  case less
  let ?N = stderr_needles
  obtain l o_r where sp: "split_at_char 10 (drop n buf) = (l, o_r)" by (cases "split_at_char 10 (drop n buf)")
  have l: "10 \<notin> set l" using sp by (auto simp: split_at_char_def dest: set_takeWhileD)
  show ?case
  proof (cases o_r)
    case None
    have d: "drop n buf = l" using split_at_char_text [OF sp] None by simp
    have "file_lines (drop n buf) = [l]" using less.prems sp None by (subst file_lines.simps) simp
    moreover have "next_line buf (Some n) = None" using sp None by (simp add: next_line_def)
    moreover have "(needle_at ?N (drop n buf) = None) = (\<not> is_marker l)" by (simp add: d is_marker_def)
    ultimately show ?thesis using less.prems
      by (subst (1 2 3) find_matches.simps) (auto split: option.splits)
  next
    case (Some r)
    have d: "drop n buf = l @ 10 # r" using split_at_char_text [OF sp] Some by simp
    have fl: "file_lines (drop n buf) = (l @ [10]) # file_lines r"
      using less.prems sp Some by (subst file_lines.simps) simp
    have "length (drop n buf) = length (l @ 10 # r)" by (simp only: d)
    then have len: "length buf = n + length l + 1 + length r" using less.prems by simp
    have "drop (n + length l + 1) buf = drop (length l + 1) (drop n buf)" by (simp add: ac_simps)
    then have dk: "drop (n + length l + 1) buf = r" by (simp add: d)
    have nl: "next_line buf (Some n) = (if r = [] then None else Some (n + length l + 1))"
      using sp Some len by (simp add: next_line_def Let_def)
    have mk: "(needle_at ?N (drop n buf) = None) = (\<not> is_marker (l @ [10]))" unfolding d by (rule marker_local [OF l])
    show ?thesis
    proof (cases "r = []")
      case True
      then show ?thesis using less.prems nl mk fl by (subst (1 2 3) find_matches.simps) (auto split: option.splits)
    next
      case False
      let ?k = "n + length l + 1"
      have k: "?k < length buf" using False len by simp
      have "length buf - ?k < length buf - n" using less.prems by simp
      from less.hyps [OF this k] have IH: "warnings_loop buf (find_matches buf ?k ?N) (Some ?k) = late_marker (map is_marker (file_lines r))"
        "find_matches buf ?k ?N = [] \<longleftrightarrow> True \<notin> set (map is_marker (file_lines r))" "\<forall>m\<in>set (find_matches buf ?k ?N). ?k \<le> fst m"
        unfolding dk by blast+
      show ?thesis
      proof (cases "needle_at ?N (drop n buf)")
        case None
        then have f: "find_matches buf n ?N = find_matches buf ?k ?N"
          using less.prems nl False by (subst find_matches.simps) simp
        have "warnings_loop buf (find_matches buf ?k ?N) (Some n) \<longleftrightarrow> find_matches buf ?k ?N \<noteq> []"
          using IH(3) by (cases "find_matches buf ?k ?N") auto
        then show ?thesis using IH(2,3) mk None fl unfolding f by auto
      next
        case (Some m)
        then have f: "find_matches buf n ?N = (n, m) # find_matches buf ?k ?N"
          using less.prems nl False by (subst find_matches.simps) simp
        show ?thesis using IH mk Some fl nl False unfolding f by auto
      qed
    qed
  qed
qed

text \<open>C37: A text on standard error contains warnings exactly when one of its lines that is no marker (the
  start or the result of a subtest or dynamic subtest) stands before a marker; what comes after the last
  marker does not count.\<close>

theorem stderr_warnings_before_markers:
  "stderr_contains_warnings text_err \<longleftrightarrow> (\<exists>i j. i < j \<and> j < length (file_lines text_err) \<and>
    needle_at stderr_needles (file_lines text_err ! i) = None \<and> needle_at stderr_needles (file_lines text_err ! j) \<noteq> None)"
proof (cases "text_err = []")
  case True
  then show ?thesis by (simp add: stderr_contains_warnings_def find_matches.simps)
next
  case False
  have m: "(\<exists>i j. i < j \<and> j < length (map is_marker ls) \<and> \<not> map is_marker ls ! i \<and> map is_marker ls ! j) \<longleftrightarrow>
    (\<exists>i j. i < j \<and> j < length ls \<and> needle_at stderr_needles (ls ! i) = None \<and> needle_at stderr_needles (ls ! j) \<noteq> None)" for ls
    by (intro ex_cong1) (auto simp: is_marker_def)
  have "stderr_contains_warnings text_err = late_marker (map is_marker (file_lines text_err))"
    using warnings_from [of 0 text_err] False by (simp add: stderr_contains_warnings_def)
  then show ?thesis unfolding late_marker_iff m .
qed

subsection \<open>Jobs that were not run\<close>

definition plain_name :: "bytes \<Rightarrow> bool" where
  "plain_name n \<longleftrightarrow> n \<noteq> [] \<and> 10 \<notin> set n \<and> 0 \<notin> set n"

abbreviation plain_subtest :: "bytes \<Rightarrow> subtest" where
  "plain_subtest n \<equiv> \<lparr>sub_name = n, dynamic_names = []\<rparr>"

lemma strip_newline_plain: "plain_name n \<Longrightarrow> strip_newline n = n"
  by (cases n rule: rev_cases) (auto simp: plain_name_def strip_newline_def)

lemma strip_newline_line: "strip_newline (n @ [10]) = n"
  by (simp add: strip_newline_def)

lemma add_subtest_names:
  assumes "strip_newline x = n" "x \<noteq> []"
  shows "add_subtest (map plain_subtest ns) x = map plain_subtest (if n \<in> set ns then ns else ns @ [n])"
  using assms by (auto simp: add_subtest_def Let_def image_iff)

lemma add_subtests_names:
  assumes "\<forall>n\<in>set names. strip_newline (f n) = n \<and> f n \<noteq> []"
  shows "\<exists>ns'. fold (\<lambda>n subs. add_subtest subs (f n)) names (map plain_subtest ns) = map plain_subtest ns' \<and>
    set ns' = set ns \<union> set names \<and> (distinct ns \<longrightarrow> distinct ns') \<and> (distinct (ns @ names) \<longrightarrow> ns' = ns @ names)"
  using assms
proof (induction names arbitrary: ns)
  case (Cons n names)
  let ?ns = "if n \<in> set ns then ns else ns @ [n]"
  have a: "add_subtest (map plain_subtest ns) (f n) = map plain_subtest ?ns"
    by (rule add_subtest_names) (use Cons.prems in simp_all)
  have "\<forall>n\<in>set names. strip_newline (f n) = n \<and> f n \<noteq> []" using Cons.prems by simp
  from Cons.IH [OF this, of ?ns] obtain ns' where "fold (\<lambda>n subs. add_subtest subs (f n)) names (map plain_subtest ?ns) = map plain_subtest ns'"
    "set ns' = set ?ns \<union> set names" "distinct ?ns \<longrightarrow> distinct ns'" "distinct (?ns @ names) \<longrightarrow> ns' = ?ns @ names" by blast
  then show ?case by (intro exI [of _ ns']) (auto simp: a)
qed auto

lemma at_object_other: "k \<noteq> key \<Longrightarrow> at_object key f t k = t k"
  by (simp add: at_object_def get_or_create_json_object_def Let_def split: option.splits)

lemma at_object_here: "\<exists>obj. at_object key f t key = Some (f obj)"
  by (cases "t key") (auto simp: at_object_def get_or_create_json_object_def Let_def)

lemma obj_result_set: "obj_result (set_result obj (Some r)) = Some r"
  by (simp add: set_result_def)

definition is_notrun :: "test_obj option \<Rightarrow> bool" where
  "is_notrun entry = (case entry of None \<Rightarrow> False | Some obj \<Rightarrow> obj_result obj = Some (str ''notrun'') \<and>
    obj_out obj = Some [] \<and> obj_err obj = Some [] \<and> obj_dmesg obj = Some [])"

lemma is_notrun_result: "is_notrun (t k) \<Longrightarrow> result_of t k = Some (str ''notrun'')"
  by (cases "t k") (auto simp: is_notrun_def result_of_def)

lemma fold_notrun:
  "(k \<in> key ` set names \<or> is_notrun (t k) \<longrightarrow> is_notrun (fold (\<lambda>s. at_object (key s) notrun_object) names t k)) \<and>
    (k \<notin> key ` set names \<longrightarrow> fold (\<lambda>s. at_object (key s) notrun_object) names t k = t k)"
proof (induction names arbitrary: t)
  case (Cons n names)
  have "is_notrun (at_object (key n) notrun_object t (key n))"
    using at_object_here [of "key n" notrun_object t] by (auto simp: is_notrun_def notrun_object_def)
  then show ?case using Cons.IH [of "at_object (key n) notrun_object t"]
    by (cases "k = key n") (auto simp: at_object_other)
qed simp

text \<open>C38: When a job with listed subtests was not run, each of them is reported as not run, with empty output,
  and no other object changes. Of the totals, exactly the count of \<open>notrun\<close> rises, by the number of different
  names, in each of the three groups: everything (the empty name), \<open>root\<close> and the binary; every other count
  stays. The names are those of a job list: nonempty, without newline or NUL.\<close>

theorem notrun_job_is_reported:
  assumes "entry_subtests entry \<noteq> []" "\<forall>n\<in>set (entry_subtests entry). plain_name n" "totals_ok (res_totals results)"
  defines "key \<equiv> \<lambda>n. generate_piglit_name (entry_binary entry) (Some n) 256"
  shows "(\<forall>k. if k \<in> key ` set (entry_subtests entry) then is_notrun (res_tests (try_add_notrun_results entry settings results) k)
      else res_tests (try_add_notrun_results entry settings results) k = res_tests results k) \<and>
    (\<forall>g s. total_count (res_totals (try_add_notrun_results entry settings results)) g s = total_count (res_totals results) g s +
      (if g \<in> {[], str ''root'', generate_piglit_name (entry_binary entry) None 256} \<and> s = str ''notrun''
       then int (card (set (entry_subtests entry))) else 0))"
proof -
  let ?b = "entry_binary entry" and ?names = "entry_subtests entry"
  define t where "t = fold (\<lambda>s. at_object (key s) notrun_object) ?names (res_tests results)"
  obtain ns where ns: "fold (\<lambda>n subs. add_subtest subs n) ?names (map plain_subtest []) = map plain_subtest ns"
    "set ns = set ?names" "distinct ns"
    using add_subtests_names [of ?names "\<lambda>n. n" "[]"] assms(2) strip_newline_plain by (auto simp: plain_name_def)
  have ne: "ns \<noteq> []" using ns(2) assms(1) by auto
  have k: "counted_keys ?b (map plain_subtest ns) = map key ns"
  proof -
    have "concat (map (subtest_keys ?b) (map plain_subtest ns)) = map key ns" for ns
      by (induction ns) (simp_all add: subtest_keys_def key_def Let_def)
    then show ?thesis using ne by (simp only: counted_keys_def map_is_Nil_conv if_False)
  qed
  have all: "is_notrun (t (key n))" if "n \<in> set ns" for n using that ns(2) fold_notrun [of "key n" key ?names] by (simp add: t_def)
  then have r: "result_of t (key n) = Some (str ''notrun'')" if "n \<in> set ns" for n using is_notrun_result that by blast
  have c: "count_list (map (result_of t) (map key ns)) (Some s) = (if s = str ''notrun'' then card (set ?names) else 0)" for s
  proof -
    have "map (result_of t) (map key ns) = replicate (length ns) (Some (str ''notrun''))" using r by (simp add: map_replicate_const [symmetric])
    then show ?thesis using ns(2,3) by (auto simp: distinct_card [symmetric] count_list_eq_length_filter)
  qed
  have u: "try_add_notrun_results entry settings results = add_to_totals ?b (map plain_subtest ns) (results\<lparr>res_tests := t\<rparr>)"
    using assms(1) ns(1) by (simp add: try_add_notrun_results_def Let_def t_def key_def)
  have "\<forall>k\<in>set (counted_keys ?b (map plain_subtest ns)). res_tests (results\<lparr>res_tests := t\<rparr>) k \<noteq> None \<longrightarrow>
      result_of (res_tests (results\<lparr>res_tests := t\<rparr>)) k \<noteq> None" using r by (auto simp: k)
  note T = totals_count_correct [OF _ this]
  have n: "str ''notrun'' \<in> dom zero_counts" by (simp add: zero_counts_def)
  have f: "\<forall>k. if k \<in> key ` set ?names then is_notrun (t k) else t k = res_tests results k"
    using fold_notrun [of _ key ?names "res_tests results"] by (simp add: t_def)
  have "res_tests (add_to_totals ?b (map plain_subtest ns) (results\<lparr>res_tests := t\<rparr>)) = t \<and>
      total_count (res_totals (add_to_totals ?b (map plain_subtest ns) (results\<lparr>res_tests := t\<rparr>))) g s =
      total_count (res_totals results) g s + (if g \<in> {[], str ''root'', generate_piglit_name ?b None 256} \<and> s = str ''notrun''
       then int (card (set ?names)) else 0)" for g s
    using T [of g s] assms(3) ne n by (auto simp: k c simp del: map_map)
  then show ?thesis using f by (simp only: u simp_thms)
qed

definition quiet_settings :: settings where
  "quiet_settings = \<lparr>test_root = None, results_path = None, include_regexes = [], exclude_regexes = [], overwrite = False,
    multiple_mode = False, prune_mode = PRUNE_KEEP_DYNAMIC, allow_non_root = True, overall_timeout = 0\<rparr>"

theorem notrun_job_is_reported_witness:
  "is_notrun (res_tests (try_add_notrun_results \<lparr>entry_binary = [65], entry_subtests = [[97], [98]]\<rparr> quiet_settings example_results)
     (generate_piglit_name [65] (Some [98]) 256)) \<and>
   total_count (res_totals (try_add_notrun_results \<lparr>entry_binary = [65], entry_subtests = [[97], [98]]\<rparr> quiet_settings example_results))
     (str ''root'') (str ''notrun'') = 2 \<and>
   total_count (res_totals (try_add_notrun_results \<lparr>entry_binary = [65], entry_subtests = [[97], [98]]\<rparr> quiet_settings example_results))
     [] (str ''notrun'') = 2"
proof -
  let ?e = "\<lparr>entry_binary = [65], entry_subtests = [[97], [98]]\<rparr> :: job_list_entry"
  have "entry_subtests ?e \<noteq> []" "\<forall>n\<in>set (entry_subtests ?e). plain_name n" "totals_ok (res_totals example_results)"
    by (simp_all add: plain_name_def totals_ok_def example_results_def)
  from notrun_job_is_reported [OF this, of quiet_settings]
  have "is_notrun (res_tests (try_add_notrun_results ?e quiet_settings example_results) (generate_piglit_name [65] (Some [98]) 256))"
    "total_count (res_totals (try_add_notrun_results ?e quiet_settings example_results)) g (str ''notrun'') =
      total_count (res_totals example_results) g (str ''notrun'') + (if g \<in> {[], str ''root'', generate_piglit_name [65] None 256} then 2 else 0)" for g
    by (auto split: if_splits)
  then show ?thesis by (simp add: total_count_def example_results_def)
qed

subsection \<open>Pruning\<close>

text \<open>Pruning only deletes objects.\<close>

definition only_deleted :: "tests \<Rightarrow> tests \<Rightarrow> bool" where
  "only_deleted t t' \<longleftrightarrow> (\<forall>k. t' k = None \<or> t' k = t k)"

lemma only_deleted_step: "only_deleted (if b then json_object_object_del t key else t) t' \<Longrightarrow> only_deleted t t'"
  by (auto simp: only_deleted_def json_object_object_del_def split: if_splits)

lemma prune_dynamic_deletes: "prune_dynamic mode entry piglit_name name ds t = Some t' \<Longrightarrow> only_deleted t t'"
proof (induction ds arbitrary: t)
  case (Cons d ds)
  then obtain b where "prune_dynamic mode entry piglit_name name ds
      (if b then json_object_object_del t (generate_piglit_name_for_dynamic piglit_name d 256) else t) = Some t'"
    by (auto split: bind_splits)
  from only_deleted_step [OF Cons.IH [OF this]] show ?case .
qed (simp add: only_deleted_def)

lemma only_deleted_trans: "only_deleted t1 t2 \<Longrightarrow> only_deleted t2 t3 \<Longrightarrow> only_deleted t1 t3"
  unfolding only_deleted_def by metis

lemma prune_loop_deletes: "prune_loop mode entry subs t = Some t' \<Longrightarrow> only_deleted t t'"
proof (induction subs arbitrary: t)
  case (Cons sub subs)
  let ?k = "generate_piglit_name (entry_binary entry) (Some (sub_name sub)) 256"
  show ?case
  proof (cases "mode = PRUNE_KEEP_DYNAMIC")
    case True
    then have "prune_loop mode entry subs (if dynamic_names sub \<noteq> [] then json_object_object_del t ?k else t) = Some t'"
      using Cons.prems by (simp add: Let_def)
    from only_deleted_step [OF Cons.IH [OF this]] show ?thesis .
  next
    case False
    then obtain b t1 where "prune_dynamic mode entry ?k (sub_name sub) (dynamic_names sub)
        (if b then json_object_object_del t ?k else t) = Some t1" "prune_loop mode entry subs t1 = Some t'"
      using Cons.prems by (auto simp: Let_def split: bind_splits)
    then show ?thesis using only_deleted_step [OF prune_dynamic_deletes] Cons.IH only_deleted_trans by blast
  qed
qed (simp add: only_deleted_def)

lemma prune_subtests_deletes: "prune_subtests settings entry subs t = Some t' \<Longrightarrow> only_deleted t t'"
  by (auto simp: prune_subtests_def prune_loop_deletes split: if_splits) (simp add: only_deleted_def)

subsection \<open>The journal\<close>

definition journal_name :: "bytes \<Rightarrow> bool" where
  "journal_name n \<longleftrightarrow> plain_name n \<and> take 5 n \<noteq> str ''exit:'' \<and> take 8 n \<noteq> str ''timeout:''"

lemma take_name_line: "10 \<notin> set w \<Longrightarrow> take (length w) n \<noteq> w \<Longrightarrow> take (length w) (n @ [10]) \<noteq> w"
  by (cases "length w \<le> length n") (auto simp: take_Cons' dest: arg_cong [where f = set])

lemma journal_name_line:
  assumes "journal_name n"
  shows "journal_line entry (n @ [10]) j = j\<lparr>j_subtests := add_subtest (j_subtests j) (n @ [10])\<rparr>"
proof -
  have len: "length (str ''exit:'') = 5" "length (str ''timeout:'') = 8" "10 \<notin> set (str ''exit:'')" "10 \<notin> set (str ''timeout:'')"
    by (simp_all add: str_def)
  have "take 5 (n @ [10]) \<noteq> str ''exit:''" "take 8 (n @ [10]) \<noteq> str ''timeout:''"
    using assms take_name_line [of "str ''exit:''" n] take_name_line [of "str ''timeout:''" n] len by (auto simp: journal_name_def)
  moreover have "cstring (n @ [10]) = n @ [10]" using assms by (intro cstring_id) (auto simp: journal_name_def plain_name_def)
  ultimately show ?thesis by (simp add: journal_line_def Let_def)
qed

lemma journal_names:
  "\<forall>n\<in>set names. journal_name n \<Longrightarrow> fold (journal_line entry) (map (\<lambda>n. n @ [10]) names) j =
    j\<lparr>j_subtests := fold (\<lambda>n subs. add_subtest subs (n @ [10])) names (j_subtests j)\<rparr>"
  by (induction names arbitrary: j) (simp_all add: journal_name_line)

lemma file_lines_of_names:
  assumes "\<forall>n\<in>set names. journal_name n" "10 \<notin> set x"
  shows "file_lines (concat (map (\<lambda>n. n @ [10]) names) @ x @ [10]) = map (\<lambda>n. n @ [10]) names @ [x @ [10]]"
  using file_lines_concat [of "names @ [x]"] assms by (auto simp: journal_name_def plain_name_def)

text \<open>C39: A journal that names the subtests as they started and ends in the exit code of the test: the
  subtests are recorded in order; an exit code of an abort or of a hangup becomes the result of the last one
  and no other object changes; without a subtest, the test itself (or the first one it was asked for) gets
  the result of the exit code. The running time goes to the binary, and without subtests on either side to
  the test as well.\<close>

theorem journal_reports_test:
  fixes entry :: job_list_entry
  assumes "\<forall>n\<in>set names. journal_name n" "distinct names"
    and "10 \<notin> set rest" "0 \<notin> set rest" "snd (split_at_char 40 (rest @ [10])) = Some timeused"
  defines "key \<equiv> \<lambda>subtest. generate_piglit_name (entry_binary entry) subtest 256"
    and "code \<equiv> c_atoi (rest @ [10])"
    and "started \<equiv> (if names = [] then take 1 (entry_subtests entry) else names)"
    and "journal \<equiv> concat (map (\<lambda>n. n @ [10]) names) @ str ''exit:'' @ rest @ [10]"
  assumes "\<forall>n\<in>set (entry_subtests entry). plain_name n"
  shows "fst (fill_from_journal journal entry [] results) = map (\<lambda>n. \<lparr>sub_name = n, dynamic_names = []\<rparr>) started \<and>
    res_runtimes (snd (fill_from_journal journal entry [] results)) =
      at_object (key None) (\<lambda>obj. add_runtime obj (Strtod timeused)) (res_runtimes results) \<and>
    res_tests (snd (fill_from_journal journal entry [] results)) =
      (if names \<noteq> [] then
         (if code = IGT_EXIT_ABORT then at_object (key (Some (List.last names))) (\<lambda>obj. set_result obj (Some (str ''abort''))) (res_tests results)
          else if code = GRACEFUL_EXITCODE then at_object (key (Some (List.last names))) (\<lambda>obj. set_result obj (Some (str ''notrun''))) (res_tests results)
          else res_tests results)
       else if entry_subtests entry \<noteq> [] then
         at_object (key (Some (hd (entry_subtests entry)))) (\<lambda>obj. set_result obj (Some (result_from_exitcode code))) (res_tests results)
       else at_object (key None) (\<lambda>obj. set_result obj (Some (result_from_exitcode code)))
         (at_object (key None) (\<lambda>obj. add_runtime obj (Strtod timeused)) (res_tests results)))"
proof -
  let ?line = "(str ''exit:'' @ rest) @ [10]"
  let ?j0 = "\<lparr>j_subtests = [], j_tests = res_tests results, j_runtimes = res_runtimes results, j_exitcode = INCOMPLETE_EXITCODE, j_timeout = False\<rparr>"
  have lines: "file_lines journal = map (\<lambda>n. n @ [10]) names @ [?line]"
    using file_lines_of_names [OF assms(1), of "str ''exit:'' @ rest"] assms(3) by (simp add: journal_def str_def)
  obtain ns where "fold (\<lambda>n subs. add_subtest subs (n @ [10])) names (map plain_subtest []) = map plain_subtest ns"
      "distinct ([] @ names) \<longrightarrow> ns = [] @ names"
    using add_subtests_names [of names "\<lambda>n. n @ [10]" "[]"] strip_newline_line by auto
  then have subs: "fold (\<lambda>n subs. add_subtest subs (n @ [10])) names [] = map plain_subtest names" using assms(2) by simp
  have cs: "cstring ?line = ?line" using assms(4) by (intro cstring_id) (auto simp: str_def)
  have ex: "take 5 ?line = str ''exit:''" "drop 5 ?line = rest @ [10]" by (simp_all add: str_def)
  have "split_at_char 40 ?line = (str ''exit:'' @ fst (split_at_char 40 (rest @ [10])), snd (split_at_char 40 (rest @ [10])))"
    by (simp add: split_at_char_def str_def)
  then have tm: "line_time ?line = Strtod timeused" using assms(5) by (simp only: line_time_def cs snd_conv option.case)
  define tests1 where "tests1 = (if names = [] \<and> entry_subtests entry = []
    then at_object (key None) (\<lambda>obj. add_runtime obj (Strtod timeused)) (res_tests results) else res_tests results)"
  have j: "fold (journal_line entry) (file_lines journal) ?j0 = \<lparr>j_subtests = map plain_subtest names, j_tests = tests1,
      j_runtimes = at_object (key None) (\<lambda>obj. add_runtime obj (Strtod timeused)) (res_runtimes results),
      j_exitcode = code, j_timeout = False\<rparr>"
    unfolding lines fold_append comp_apply journal_names [OF assms(1)]
    by (simp only: fold_simps journal_line_def Let_def ex cs tm journal_state.simps subs if_True simp_thms)
      (simp add: key_def code_def tests1_def)
  have sub1: "add_subtest [] n = [plain_subtest n]" if "plain_name n" for n
    using that strip_newline_plain [OF that] by (simp add: add_subtest_def plain_name_def Let_def)
  have r: "fill_from_journal journal entry [] results = (map plain_subtest started, results\<lparr>res_tests :=
      (if names \<noteq> [] then
         (if code = IGT_EXIT_ABORT then at_object (key (Some (List.last names))) (\<lambda>obj. set_result obj (Some (str ''abort''))) tests1
          else if code = GRACEFUL_EXITCODE then at_object (key (Some (List.last names))) (\<lambda>obj. set_result obj (Some (str ''notrun''))) tests1
          else tests1)
       else at_object (key (case entry_subtests entry of [] \<Rightarrow> None | s # _ \<Rightarrow> Some s)) (\<lambda>obj. set_result obj (Some (result_from_exitcode code))) tests1),
      res_runtimes := at_object (key None) (\<lambda>obj. add_runtime obj (Strtod timeused)) (res_runtimes results)\<rparr>)"
    unfolding fill_from_journal_def Let_def j
    by (cases "names = []"; cases "entry_subtests entry")
      (use assms(10) in \<open>auto simp: last_map key_def started_def sub1 IGT_EXIT_ABORT_def GRACEFUL_EXITCODE_def\<close>)
  show ?thesis unfolding r by (cases "entry_subtests entry") (simp_all add: tests1_def)
qed

theorem journal_reports_test_witness:
  "\<exists>obj. res_tests (snd (fill_from_journal ([97, 10] @ str ''exit:112 (0.1s)'' @ [10]) \<lparr>entry_binary = [65], entry_subtests = []\<rparr> [] example_results))
    (generate_piglit_name [65] (Some [97]) 256) = Some obj \<and> obj_result obj = Some (str ''abort'')"
proof -
  let ?e = "\<lparr>entry_binary = [65], entry_subtests = []\<rparr> :: job_list_entry" and ?rest = "str ''112 (0.1s)''"
  have n: "\<forall>n\<in>set [[97]]. journal_name n" by (simp add: journal_name_def plain_name_def str_def)
  have s: "snd (split_at_char 40 (?rest @ [10])) = Some (str ''0.1s)'' @ [10])" "10 \<notin> set ?rest" "0 \<notin> set ?rest"
    "c_atoi (?rest @ [10]) = IGT_EXIT_ABORT"
    by code_simp+
  have j: "[97, 10] @ str ''exit:112 (0.1s)'' @ [10] = concat (map (\<lambda>n. n @ [10]) [[97]]) @ str ''exit:'' @ ?rest @ [10]"
    by (simp add: str_def)
  have "distinct [[97 :: u8]]" "\<forall>n\<in>set (entry_subtests ?e). plain_name n" by simp_all
  from journal_reports_test [OF n this(1) s(2,3,1), of ?e example_results] this(2)
  have "res_tests (snd (fill_from_journal ([97, 10] @ str ''exit:112 (0.1s)'' @ [10]) ?e [] example_results)) =
      at_object (generate_piglit_name [65] (Some [97]) 256) (\<lambda>obj. set_result obj (Some (str ''abort''))) (res_tests example_results)"
    unfolding j s(4) by (simp del: append_assoc)
  then show ?thesis using at_object_here [of "generate_piglit_name [65] (Some [97]) 256"] by (metis obj_result_set)
qed

end
