(* ===== verification/Spec2Isabelle.thy ===== *)
theory Spec2Isabelle
  imports Prelude Hash_Sizes Igt_Map Igt_Map_Correct Igt_Macros Simple_Vma_Heap Allocator_Backend
    Intel_Allocator_Simple Intel_Allocator_Reloc Intel_Allocator Allocator_Service
    Xe_Vm_Bind Bind_Tracking Vm_Binding Allocator_Client
    Igt_Vec Igt_List Igt_Primes Igt_Collection Uwildmat Wildmat_Language
    Intel_Aux_Pgtable Aux_Translation Runnercomms C_Text Job_List Executor Resume
    Resultgen Comms_Results Regular_Run Result_Totals Totals_Correct
begin

text \<open>
  A verification library for the core logic of the IGT GPU tools: the parts of \<^verbatim>\<open>lib/\<close> that
  keep state of their own or compute something, as opposed to sending ioctls. C functions keep their
  names; a struct is a record, an enum or tagged union a datatype, a fixed-width integer a word that
  wraps, a list or hash table an explicit value passed in and returned. A failed \<open>igt_assert\<close> (which
  ends the test) is \<open>None\<close> (theory \<open>Prelude\<close>).

  Parts and theories.

  \<^item> \<open>Igt_Map\<close>, \<open>Hash_Sizes\<close>, \<open>Igt_Map_Correct\<close> (\<^verbatim>\<open>lib/igt_map.c\<close>, \<^verbatim>\<open>lib/igt_map.h\<close>): the hash map with
    open addressing, double hashing and tombstones, its table of sizes, and the integer hash functions.
    The abstraction is the lookup function: search, insert, rehash and remove are lookup, update,
    identity and deletion. The probe sequence covers the table because sizes and step moduli are coprime,
    which is checked on the size table up to 2 ^ 16 entries; the properties are stated for maps up to
    that size. The nesting of insert and rehash runs on fuel 32, one more than the number of size
    indices, and the insert property shows that the fuel is enough. The locale \<open>finite_map_api\<close> is the
    contract the other parts use; it is interpreted for the 32-bit and the 64-bit keys.
  \<^item> \<open>Simple_Vma_Heap\<close>, \<open>Intel_Allocator_Simple\<close> (\<^verbatim>\<open>lib/intel_allocator_simple.c\<close>): the ordered list
    of free holes, and the allocator over it with its maps of objects and reserved areas. The abstraction
    of the heap is the set of free addresses; the invariant of the allocator is that free space, objects
    and reserved areas partition the range.
  \<^item> \<open>Intel_Allocator_Reloc\<close> (\<^verbatim>\<open>lib/intel_allocator_reloc.c\<close>): the allocator that hands out rising
    offsets. \<open>Allocator_Backend\<close> is the locale of what both allocators promise, interpreted for each of
    them and for the tagged union the service dispatches over.
  \<^item> \<open>Intel_Allocator\<close>, \<open>Allocator_Service\<close> (\<^verbatim>\<open>lib/intel_allocator.c\<close>,
    \<^verbatim>\<open>lib/intel_allocator_msgchannel.h\<close>): handles, shared instances and reference counts; every request
    of \<open>handle_request\<close>, and the serving loop over a sequence of requests. The mutexes of the code make
    the requests atomic, so the sequence of requests is the interleaving of the clients. Handles are
    32-bit counters, so runs are bounded by 2 ^ 16 requests, below which they do not wrap and no map
    outgrows the certified sizes.
  \<^item> \<open>Bind_Tracking\<close>, \<open>Xe_Vm_Bind\<close>, \<open>Vm_Binding\<close> (\<^verbatim>\<open>lib/intel_allocator.c\<close>, \<^verbatim>\<open>lib/xe/xe_util.c\<close>,
    \<^verbatim>\<open>lib/xe/xe_ioctl.c\<close>): what has to be bound to a VM, object by object, as a state machine; the batch
    sent to the driver, as the list of calls made to it; and what they achieve together, with an abstract
    VM that executes the operations in order. The step relation of the tracker is the inductive
    predicate \<open>tracked\<close>.
  \<^item> \<open>Allocator_Client\<close> (\<^verbatim>\<open>lib/intel_allocator.c\<close>, \<^verbatim>\<open>lib/intel_allocator.h\<close>): the functions tests call,
    each composed from the service and the tracking; runs of up to 30000 calls (the service sees at most
    two requests per call).
  \<^item> \<open>Igt_List\<close> (\<^verbatim>\<open>lib/igt_list.c\<close>, \<^verbatim>\<open>lib/igt_list.h\<close>): the circular doubly-linked list on a heap of
    nodes, refined to lists. \<open>Igt_Vec\<close> (\<^verbatim>\<open>lib/igt_vec.c\<close>): the growable array on a byte buffer.
    \<open>Igt_Primes\<close> (\<^verbatim>\<open>lib/igt_primes.c\<close>): the growing sieve, compared with the least prime above the
    argument, for arguments whose bitmap fits 2 ^ 31 bits.
  \<^item> \<open>Igt_Collection\<close> (\<^verbatim>\<open>lib/igt_collection.c\<close>, \<^verbatim>\<open>lib/igt_collection.h\<close>): subsets, combinations and
    variations of at most 16 elements; the \<open>for_each\<close> macros are proved to end and to be complete.
  \<^item> \<open>Intel_Aux_Pgtable\<close>, \<open>Aux_Translation\<close> (\<^verbatim>\<open>lib/intel_aux_pgtable.c\<close>): the page table that leads the
    GPU from a compressed surface to its compression data, built in the bytes of one buffer object. The
    abstraction is the map from main surface blocks to entries; a walk defined apart from the code reads
    the finished table back. The bounds (16 buffers of at most 64 GiB) keep the size of the table within
    the C \<open>int\<close> the code keeps it in.
  \<^item> \<open>Uwildmat\<close>, \<open>Wildmat_Language\<close> (\<^verbatim>\<open>lib/uwildmat/uwildmat.c\<close>): the wildcard matcher that selects
    subtests, on byte strings with explicit indices into the pattern, because the code reads behind the
    sub-pattern it was given; termination is proved. The language is given apart from the code: an expression
    is a tree with a text and a set of names, and the matcher decides that set on that text.
  \<^item> \<open>Runnercomms\<close> (\<^verbatim>\<open>lib/runnercomms.c\<close>, \<^verbatim>\<open>lib/runnercomms.h\<close>): the packets a test sends to the
    runner, their reader, and the dump file with its visitor; bytes are \<open>8 word\<close>, pointers of a read
    helper are offsets into the packet.
  \<^item> \<open>C_Text\<close>, \<open>Job_List\<close> (\<^verbatim>\<open>runner/job_list.c\<close>): the list of the tests to run, from a test list or by
    asking the binaries, its file, and the names of tests in the results; the abstraction of a list is
    the sequence of its tests.
  \<^item> \<open>Executor\<close>, \<open>Resume\<close> (\<^verbatim>\<open>runner/executor.c\<close>, \<^verbatim>\<open>lib/igt_core.c\<close>): the dump the runner keeps of a test,
    the job list pruned by it after an interruption, and the subtests the test process selects then; the
    properties compose the packets, the job list and the pattern matcher. Counters of started subtests
    are natural numbers: an \<open>int\<close> would overflow only with 2 ^ 31 packets in one dump.
  \<^item> \<open>Resultgen\<close>, \<open>Comms_Results\<close>, \<open>Regular_Run\<close> (\<^verbatim>\<open>runner/resultgen.c\<close>): the results made from the dump of
    a test. The JSON object of a test is the record of its fields, and the state machine has one operation
    per kind of packet. The invariant is kept for any order of packets, and no object but those of the subtests the packets
    name is written; a specification that reads the output of each subtest off the packets is met by tests
    that report their subtests one after the other. A read behind a log buffer is a fault: both results need
    that a test has not logged more to one stream than to the other when a subtest ends (\<open>balanced\<close>,
    \<open>marks_fit\<close>), and without it such a run does fault.
    Running times are terms, because the code only adds and stores doubles.
  \<^item> \<open>Result_Totals\<close>, \<open>Totals_Correct\<close> (\<^verbatim>\<open>runner/resultgen.c\<close>): the journal of a test without a dump,
    overriding by warnings and empty output, pruning, jobs that were not run, and the totals. The counts
    are unbounded integers: an \<open>int\<close> holds them up to 2 ^ 31 tests. \<open>atoi\<close> is \<open>strtol\<close> cast to an \<open>int\<close>.
  \<^item> \<open>Igt_Macros\<close>: alignment and canonical addresses (\<^verbatim>\<open>lib/drmtest.h\<close>, \<^verbatim>\<open>lib/intel_allocator.h\<close>).

  How they interact. A test calls a client function (\<open>Allocator_Client\<close>), which sends a request to the
  service (\<open>Intel_Allocator\<close>) and records in the tracking maps (\<open>Bind_Tracking\<close>) what it got. The
  service finds the instance of the handle in its hash maps and calls the allocator behind it, SIMPLE or
  RELOC, by the contract of \<open>Allocator_Backend\<close>; the allocators keep their objects in hash maps. A bind
  turns the tracked objects into a batch of VM operations (\<open>Xe_Vm_Bind\<close>).

  Parameters. The Xe driver and the queries of \<open>open\<close> (\<open>xe_env\<close>, the device information), the results
  of \<open>malloc\<close> and \<open>realloc\<close> with the bytes they leave, \<open>random\<close>, and \<open>sqrt\<close> of libm are arguments of
  the definitions that use them, as are the addresses the buffers of the AUX table get.

  What the properties show. The service, its allocators and the hash map do what they promise in any
  order of calls, error answers included; a few functions do not, and for each of those a theorem
  states what they do instead: removing an absent key with a delete function, a wrapping size in the
  RELOC allocator, the order of binds and unbinds in a batch, the PAT index of a batch of one, removing
  the last element of a vector, the second run of the sieve, an escaped bracket in a subtest pattern, the
  case of letters behind a star, a dump opened again, the standard error of a subtest in the results, and
  a dynamic subtest that is pending when its test is resumed.

  Not modelled. The multiprocess mode of the service (threads and System V message queues), the control
  flow of subtests (\<open>setjmp\<close> and signals), logging, the ioctl wrappers, KMS and frame buffer code, batch
  buffer emission, device discovery, the assembler, the tests, tools and benchmarks: their behaviour is
  that of the kernel, of hardware or of libc. Of the results, what is read from the text of the output and
  from the kernel log, and the files of a run, are not modelled. Pure code that could be added next: the instruction
  compaction of \<^verbatim>\<open>assembler/brw_eu_compact.c\<close>, the half floats of \<^verbatim>\<open>lib/igt_halffloat.c\<close>.
\<close>

end
